(* ===== verification/S2_Prelude.thy ===== *)
theory S2_Prelude
  imports Main "HOL-Library.Word" "HOL-Library.List_Lexorder" "HOL-Library.Product_Lexorder"
    "HOL-Library.Monad_Syntax" "HOL-Library.Multiset"
begin

text \<open>
  Shared vocabulary of the development: machine integers and byte strings, Rust's
  bounds-checked slice and index reads (a panic is \<open>None\<close>), big-endian codecs, the two
  binary-search loops that every lookup of the reader instantiates, \<open>HashMap\<close> as an
  association list, and the locales \<open>fixed_rows\<close>, \<open>packed_rows\<close> and \<open>keyed_rows\<close>
  that state what the on-disk tables promise to their readers.
\<close>

named_theorems slice_simps \<open>evaluation of bounds-checked reads\<close>
named_theorems codec_simps \<open>lengths and inverses of the byte codecs\<close>

unbundle bit_operations_syntax

type_synonym u8 = "8 word"
type_synonym u16 = "16 word"
type_synonym u32 = "32 word"
type_synonym u64 = "64 word"
type_synonym bytes = "u8 list"

section \<open>Bounds-checked reads\<close>

text \<open>\<^verbatim>\<open>&xs[a..b]\<close> panics unless \<open>a \<le> b \<le> len\<close>; \<^verbatim>\<open>xs[i]\<close> panics unless
  \<open>i < len\<close>. In every option-valued reader below \<open>None\<close> is that panic.\<close>

definition slice_of :: "'a list \<Rightarrow> nat \<Rightarrow> nat \<Rightarrow> 'a list option" where
  "slice_of xs a b = (if a \<le> b \<and> b \<le> length xs then Some (take (b - a) (drop a xs)) else None)"

definition index_of :: "'a list \<Rightarrow> nat \<Rightarrow> 'a option" where
  "index_of xs i = (if i < length xs then Some (xs ! i) else None)"

section \<open>Big-endian integers\<close>

text \<open>\<open>be_nat k v\<close> is the \<open>k\<close>-byte big-endian image of \<open>v mod 256 ^ k\<close>
  (\<^verbatim>\<open>uN::to_be_bytes\<close>); \<open>of_be\<close> reads a byte string back (\<^verbatim>\<open>uN::from_be_bytes\<close>).\<close>

fun be_nat :: "nat \<Rightarrow> nat \<Rightarrow> bytes" where
  "be_nat 0 v = []"
| "be_nat (Suc k) v = be_nat k (v div 256) @ [of_nat v]"

fun of_be_acc :: "nat \<Rightarrow> bytes \<Rightarrow> nat" where
  "of_be_acc acc [] = acc"
| "of_be_acc acc (b # bs) = of_be_acc (acc * 256 + unat b) bs"

definition of_be :: "bytes \<Rightarrow> nat" where
  "of_be bs = of_be_acc 0 bs"

definition be16 :: "u16 \<Rightarrow> bytes" where "be16 w = be_nat 2 (unat w)"
definition be32 :: "u32 \<Rightarrow> bytes" where "be32 w = be_nat 4 (unat w)"
definition be64 :: "u64 \<Rightarrow> bytes" where "be64 w = be_nat 8 (unat w)"

definition of_be16 :: "bytes \<Rightarrow> u16" where "of_be16 bs = of_nat (of_be bs)"
definition of_be32 :: "bytes \<Rightarrow> u32" where "of_be32 bs = of_nat (of_be bs)"
definition of_be64 :: "bytes \<Rightarrow> u64" where "of_be64 bs = of_nat (of_be bs)"

section \<open>The binary-search loops\<close>

text \<open>The loop \<^verbatim>\<open>while lo < hi { mid = (lo + hi) / 2; if row(mid) < key { lo = mid + 1 } else { hi = mid } }\<close>:
  \<open>less_at\<close> is the comparison with row \<open>mid\<close>, and may panic.\<close>

function lower_bound_loop :: "(nat \<Rightarrow> bool option) \<Rightarrow> nat \<Rightarrow> nat \<Rightarrow> nat option" where
  "lower_bound_loop less_at lo hi =
     (if lo < hi then
        (case less_at ((lo + hi) div 2) of
           None \<Rightarrow> None
         | Some True \<Rightarrow> lower_bound_loop less_at ((lo + hi) div 2 + 1) hi
         | Some False \<Rightarrow> lower_bound_loop less_at lo ((lo + hi) div 2))
      else Some lo)"
  by pat_completeness auto
termination
  by (relation "measure (\<lambda>(f, lo, hi). hi - lo)") auto

declare lower_bound_loop.simps [simp del]

text \<open>The loop with a three-way \<^verbatim>\<open>cmp\<close> that returns at the first row that compares equal;
  \<open>Some None\<close> is the fall-through result \<^verbatim>\<open>None\<close>.\<close>

datatype ordering = Less | Equal | Greater

definition cmp_of :: "'a::linorder \<Rightarrow> 'a \<Rightarrow> ordering" where
  "cmp_of x y = (if x < y then Less else if x = y then Equal else Greater)"

function bsearch_loop :: "(nat \<Rightarrow> ordering option) \<Rightarrow> nat \<Rightarrow> nat \<Rightarrow> nat option option" where
  "bsearch_loop cmp_at lo hi =
     (if lo < hi then
        (case cmp_at ((lo + hi) div 2) of
           None \<Rightarrow> None
         | Some Less \<Rightarrow> bsearch_loop cmp_at ((lo + hi) div 2 + 1) hi
         | Some Greater \<Rightarrow> bsearch_loop cmp_at lo ((lo + hi) div 2)
         | Some Equal \<Rightarrow> Some (Some ((lo + hi) div 2)))
      else Some None)"
  by pat_completeness auto
termination
  by (relation "measure (\<lambda>(f, lo, hi). hi - lo)") auto

declare bsearch_loop.simps [simp del]

section \<open>Hash maps\<close>

text \<open>A \<^verbatim>\<open>HashMap\<close> is an association list with distinct keys; its list order stands for
  the unspecified iteration order. \<open>hm_entry k f v m\<close> is
  \<^verbatim>\<open>m.entry(k).and_modify(f).or_insert(v)\<close>.\<close>

fun hm_entry :: "'k \<Rightarrow> ('v \<Rightarrow> 'v) \<Rightarrow> 'v \<Rightarrow> ('k \<times> 'v) list \<Rightarrow> ('k \<times> 'v) list" where
  "hm_entry k f v [] = [(k, v)]"
| "hm_entry k f v ((k', x) # m) = (if k' = k then (k', f x) # m else (k', x) # hm_entry k f v m)"

abbreviation hm_insert :: "'k \<Rightarrow> 'v \<Rightarrow> ('k \<times> 'v) list \<Rightarrow> ('k \<times> 'v) list" where
  "hm_insert k v \<equiv> hm_entry k (\<lambda>_. v) v"

abbreviation hm_or_insert :: "'k \<Rightarrow> 'v \<Rightarrow> ('k \<times> 'v) list \<Rightarrow> ('k \<times> 'v) list" where
  "hm_or_insert k v \<equiv> hm_entry k (\<lambda>x. x) v"

abbreviation hm_ok :: "('k \<times> 'v) list \<Rightarrow> bool" where
  "hm_ok m \<equiv> distinct (map fst m)"

text \<open>\<^verbatim>\<open>v.sort_unstable(); v.dedup()\<close>: on a totally ordered element type the unstable sort
  has one possible result.\<close>

definition sort_dedup :: "'a::linorder list \<Rightarrow> 'a list" where
  "sort_dedup xs = remdups_adj (sort xs)"

section \<open>Lemmas on reads\<close>

lemma slice_of_append1 [slice_simps]:
  "b \<le> length xs \<Longrightarrow> slice_of (xs @ ys) a b = slice_of xs a b"
  by (auto simp: slice_of_def)

lemma slice_of_append2 [slice_simps]:
  "length xs \<le> a \<Longrightarrow> a \<le> b \<Longrightarrow>
    slice_of (xs @ ys) a b = slice_of ys (a - length xs) (b - length xs)"
  by (auto simp: slice_of_def)

lemma slice_of_full [slice_simps]: "n = length xs \<Longrightarrow> slice_of xs 0 n = Some xs"
  by (simp add: slice_of_def)

lemma slice_of_mid: "a = length xs \<Longrightarrow> b = a + length ys \<Longrightarrow> slice_of (xs @ ys @ zs) a b = Some ys"
  by (simp add: slice_of_def)

lemma slice_of_SomeD: "slice_of xs a b = Some s \<Longrightarrow> a \<le> b \<and> b \<le> length xs \<and> length s = b - a"
  by (auto simp: slice_of_def split: if_splits)

lemma slice_of_slice:
  assumes "slice_of xs a b = Some s" and "c \<le> d" and "a + d \<le> b"
  shows "slice_of s c d = slice_of xs (a + c) (a + d)"
proof -
  have s: "s = take (b - a) (drop a xs)" and ab: "a \<le> b" "b \<le> length xs"
    using assms(1) by (auto simp: slice_of_def split: if_splits)
  have "take (d - c) (drop c (take (b - a) (drop a xs))) = take (d - c) (drop (a + c) xs)"
    using assms(2,3) by (simp add: drop_take min_def add.commute)
  then show ?thesis
    using assms ab by (simp add: slice_of_def s)
qed

lemma index_of_eq_slice: "i < length xs \<Longrightarrow> slice_of xs i (Suc i) = Some [xs ! i]"
  by (simp add: slice_of_def take_Suc_conv_app_nth [of 0 "drop i xs", simplified])

lemma index_of_append1 [slice_simps]: "i < length xs \<Longrightarrow> index_of (xs @ ys) i = index_of xs i"
  by (simp add: index_of_def nth_append)

lemma index_of_append2 [slice_simps]:
  "length xs \<le> i \<Longrightarrow> index_of (xs @ ys) i = index_of ys (i - length xs)"
  by (auto simp: index_of_def nth_append)

lemma index_of_slice:
  assumes "slice_of xs a b = Some s" and "a + i < b"
  shows "index_of xs (a + i) = index_of s i"
  using assms by (auto simp: slice_of_def index_of_def split: if_splits)

section \<open>Lemmas on big-endian codecs\<close>

lemma length_be_nat [simp, codec_simps]: "length (be_nat k v) = k"
  by (induction k arbitrary: v) auto

lemma length_be [simp, codec_simps]:
  "length (be16 a) = 2" "length (be32 b) = 4" "length (be64 c) = 8"
  by (simp_all add: be16_def be32_def be64_def)

lemma of_be_acc_append: "of_be_acc acc (xs @ ys) = of_be_acc (of_be_acc acc xs) ys"
  by (induction xs arbitrary: acc) auto

lemma of_be_be_nat: "of_be (be_nat k v) = v mod 256 ^ k"
proof (induction k arbitrary: v)
  case 0
  then show ?case by (simp add: of_be_def)
next
  case (Suc k)
  have "of_be (be_nat (Suc k) v) = (v div 256) mod 256 ^ k * 256 + v mod 256"
    using Suc [of "v div 256"]
    by (simp add: of_be_def of_be_acc_append unsigned_of_nat take_bit_eq_mod)
  also have "\<dots> = v mod 256 ^ Suc k"
    by (simp add: mod_mult2_eq mult.commute)
  finally show ?case .
qed

lemma of_be_inverse [simp, codec_simps]:
  "of_be16 (be16 a) = a" "of_be32 (be32 b) = b" "of_be64 (be64 c) = c"
proof -
  have "unat a < 256 ^ 2" "unat b < 256 ^ 4" "unat c < 256 ^ 8"
    using unsigned_less [of a] unsigned_less [of b] unsigned_less [of c] by simp_all
  then show "of_be16 (be16 a) = a" "of_be32 (be32 b) = b" "of_be64 (be64 c) = c"
    by (simp_all add: of_be16_def be16_def of_be32_def be32_def of_be64_def be64_def of_be_be_nat)
qed

lemma of_be_acc_mono_len:
  assumes "length xs = length ys" and "a < b"
  shows "of_be_acc a xs < of_be_acc b ys"
  using assms
proof (induction xs ys arbitrary: a b rule: list_induct2)
  case Nil
  then show ?case by simp
next
  case (Cons x xs y ys)
  have "unat x < 256" using unsigned_less [of x] by simp
  then have "a * 256 + unat x < b * 256 + unat y" using Cons.prems by linarith
  then show ?case using Cons.IH by simp
qed

lemma of_be_acc_less_iff:
  "length xs = length ys \<Longrightarrow> of_be_acc a xs < of_be_acc a ys \<longleftrightarrow> xs < ys"
proof (induction xs ys arbitrary: a rule: list_induct2)
  case Nil
  then show ?case by simp
next
  case (Cons x xs y ys)
  consider "x < y" | "x = y" | "y < x" by fastforce
  then show ?case
  proof cases
    case 1
    then have "a * 256 + unat x < a * 256 + unat y" by (simp add: word_less_nat_alt)
    then show ?thesis
      using of_be_acc_mono_len [OF Cons.hyps] 1 by auto
  next
    case 2
    then show ?thesis using Cons.IH by simp
  next
    case 3
    then have "a * 256 + unat y < a * 256 + unat x" by (simp add: word_less_nat_alt)
    then show ?thesis
      using of_be_acc_mono_len [OF Cons.hyps [symmetric]] 3 by (auto simp: less_le_not_le)
  qed
qed

lemma be_nat_less_iff:
  assumes "v < 256 ^ k" and "w < 256 ^ k"
  shows "be_nat k v < be_nat k w \<longleftrightarrow> v < w"
proof -
  have "be_nat k v < be_nat k w \<longleftrightarrow> of_be (be_nat k v) < of_be (be_nat k w)"
    by (simp add: of_be_def of_be_acc_less_iff)
  then show ?thesis using assms by (simp add: of_be_be_nat)
qed

lemma be_less_iff [simp]:
  "be16 a < be16 a' \<longleftrightarrow> a < a'" "be32 b < be32 b' \<longleftrightarrow> b < b'" "be64 c < be64 c' \<longleftrightarrow> c < c'"
proof -
  have "unat a < 256 ^ 2" "unat b < 256 ^ 4" "unat c < 256 ^ 8"
    using unsigned_less [of a] unsigned_less [of b] unsigned_less [of c] by simp_all
  moreover have "unat a' < 256 ^ 2" "unat b' < 256 ^ 4" "unat c' < 256 ^ 8"
    using unsigned_less [of a'] unsigned_less [of b'] unsigned_less [of c'] by simp_all
  ultimately show "be16 a < be16 a' \<longleftrightarrow> a < a'" "be32 b < be32 b' \<longleftrightarrow> b < b'"
      "be64 c < be64 c' \<longleftrightarrow> c < c'"
    by (simp_all add: be16_def be32_def be64_def be_nat_less_iff word_less_nat_alt)
qed

lemma be_inject [simp]:
  "be16 a = be16 a' \<longleftrightarrow> a = a'" "be32 b = be32 b' \<longleftrightarrow> b = b'" "be64 c = be64 c' \<longleftrightarrow> c = c'"
  by (metis of_be_inverse(1)) (metis of_be_inverse(2), metis of_be_inverse(3))

lemma append_less_iff:
  fixes a b :: "'a::linorder list"
  shows "length a = length b \<Longrightarrow> a @ c < b @ d \<longleftrightarrow> a < b \<or> a = b \<and> c < d"
  by (induction a b rule: list_induct2) auto

section \<open>Lemmas on machine words\<close>

lemma unat_drop_bit: "unat (drop_bit n (w::'a::len word)) = unat w div 2 ^ n"
  by (simp add: unsigned_drop_bit_eq take_bit_nat_eq_self) (simp add: drop_bit_eq_div)

lemma unat_of_nat_small: "n < 2 ^ LENGTH('a) \<Longrightarrow> unat (of_nat n :: 'a::len word) = n"
  by (simp add: unsigned_of_nat take_bit_nat_eq_self)

lemma less_succ_iff: "w \<noteq> - 1 \<Longrightarrow> v < w + 1 \<longleftrightarrow> v \<le> (w::'a::len word)"
  using inc_less_eq_iff [of w v] by (metis linorder_not_less)

lemma unat_shr7_less: "0x80 \<le> (v::u32) \<Longrightarrow> unat (drop_bit 7 v) < unat v"
  by (simp add: unat_drop_bit word_le_nat_alt)

end
