(* ===== verification/S2_Search.thy ===== *)
theory S2_Search
  imports S2_Prelude
begin

text \<open>
  Searching the packed tables: \<^verbatim>\<open>lower_bound\<close> of \<open>src/crates/scry2/src/reader.rs\<close>, the
  correctness of the two binary-search loops over any monotone table, and the locales that say
  what a section of fixed-width rows promises. \<open>fixed_rows\<close> is the row addressing
  \<open>row * stride\<close>; \<open>packed_rows\<close> adds the law the file format rests on, that comparing the
  big-endian row images byte by byte is comparing the rows; \<open>keyed_rows\<close> is the weaker law of
  the tables searched by a key that the row starts with.
\<close>

text \<open>\<^verbatim>\<open>fn lower_bound(table, n, stride, needle)\<close>.\<close>

definition lower_bound :: "bytes \<Rightarrow> nat \<Rightarrow> nat \<Rightarrow> bytes \<Rightarrow> nat option" where
  "lower_bound table n stride needle =
     lower_bound_loop
       (\<lambda>mid. map_option (\<lambda>row. row < needle) (slice_of table (mid * stride) ((mid + 1) * stride)))
       0 n"

section \<open>The loops over a monotone table\<close>

lemma lower_bound_loop_partition:
  assumes "lo \<le> hi"
    and "\<And>i. lo \<le> i \<Longrightarrow> i < hi \<Longrightarrow> less_at i = Some (P i)"
    and "\<And>i j. lo \<le> i \<Longrightarrow> i \<le> j \<Longrightarrow> j < hi \<Longrightarrow> P j \<Longrightarrow> P i"
  shows "\<exists>p. lower_bound_loop less_at lo hi = Some p \<and> lo \<le> p \<and> p \<le> hi \<and>
           (\<forall>i. lo \<le> i \<and> i < p \<longrightarrow> P i) \<and> (\<forall>i. p \<le> i \<and> i < hi \<longrightarrow> \<not> P i)"
  using assms
proof (induction less_at lo hi rule: lower_bound_loop.induct)
  case (1 less_at lo hi)
  let ?mid = "(lo + hi) div 2"
  show ?case
  proof (cases "lo < hi")
    case False
    with 1(3) show ?thesis
      by (subst lower_bound_loop.simps) auto
  next
    case True
    then have mid: "lo \<le> ?mid" "?mid < hi" by auto
    then have at: "less_at ?mid = Some (P ?mid)" by (rule 1(4))
    show ?thesis
    proof (cases "P ?mid")
      case True
      with at have at: "less_at ?mid = Some True" by simp
      have "\<exists>p. lower_bound_loop less_at (?mid + 1) hi = Some p \<and> ?mid + 1 \<le> p \<and> p \<le> hi \<and>
          (\<forall>i. ?mid + 1 \<le> i \<and> i < p \<longrightarrow> P i) \<and> (\<forall>i. p \<le> i \<and> i < hi \<longrightarrow> \<not> P i)"
        using mid 1(4,5) by (intro 1(1) [OF \<open>lo < hi\<close> at]) auto
      then obtain p where p: "lower_bound_loop less_at (?mid + 1) hi = Some p" "?mid + 1 \<le> p" "p \<le> hi"
          "\<forall>i. ?mid + 1 \<le> i \<and> i < p \<longrightarrow> P i" "\<forall>i. p \<le> i \<and> i < hi \<longrightarrow> \<not> P i" by blast
      have "P i" if "lo \<le> i" "i < p" for i
        using that p(4) 1(5) [of i ?mid] mid True by (cases "i \<le> ?mid") auto
      then show ?thesis
        using p mid \<open>lo < hi\<close> at by (subst lower_bound_loop.simps) auto
    next
      case False
      with at have at: "less_at ?mid = Some False" by simp
      have "\<exists>p. lower_bound_loop less_at lo ?mid = Some p \<and> lo \<le> p \<and> p \<le> ?mid \<and>
          (\<forall>i. lo \<le> i \<and> i < p \<longrightarrow> P i) \<and> (\<forall>i. p \<le> i \<and> i < ?mid \<longrightarrow> \<not> P i)"
        using mid 1(4,5) by (intro 1(2) [OF \<open>lo < hi\<close> at]) auto
      then obtain p where p: "lower_bound_loop less_at lo ?mid = Some p" "lo \<le> p" "p \<le> ?mid"
          "\<forall>i. lo \<le> i \<and> i < p \<longrightarrow> P i" "\<forall>i. p \<le> i \<and> i < ?mid \<longrightarrow> \<not> P i" by blast
      have "\<not> P i" if "p \<le> i" "i < hi" for i
        using that p(2,5) 1(5) [of ?mid i] mid False by (cases "i < ?mid") auto
      then show ?thesis
        using p mid \<open>lo < hi\<close> at by (subst lower_bound_loop.simps) auto
    qed
  qed
qed

lemma bsearch_loop_sound:
  assumes "\<And>i. lo \<le> i \<Longrightarrow> i < hi \<Longrightarrow> cmp_at i = Some (cmp_of (f i) key)"
    and "\<And>i j. lo \<le> i \<Longrightarrow> i \<le> j \<Longrightarrow> j < hi \<Longrightarrow> f i \<le> f j"
  shows "(\<exists>i. bsearch_loop cmp_at lo hi = Some (Some i) \<and> lo \<le> i \<and> i < hi \<and> f i = key) \<or>
         (bsearch_loop cmp_at lo hi = Some None \<and> (\<forall>i. lo \<le> i \<and> i < hi \<longrightarrow> f i \<noteq> key))"
  using assms
proof (induction cmp_at lo hi rule: bsearch_loop.induct)
  case (1 cmp_at lo hi)
  let ?mid = "(lo + hi) div 2"
  let ?res = "\<lambda>l h. (\<exists>i. bsearch_loop cmp_at l h = Some (Some i) \<and> l \<le> i \<and> i < h \<and> f i = key) \<or>
         (bsearch_loop cmp_at l h = Some None \<and> (\<forall>i. l \<le> i \<and> i < h \<longrightarrow> f i \<noteq> key))"
  show ?case
  proof (cases "lo < hi")
    case False
    then show ?thesis by (auto simp: bsearch_loop.simps [of cmp_at lo hi])
  next
    case True
    then have mid: "lo \<le> ?mid" "?mid < hi" by auto
    then have at: "cmp_at ?mid = Some (cmp_of (f ?mid) key)" by (rule 1(3))
    consider "f ?mid < key" | "f ?mid = key" | "key < f ?mid" by fastforce
    then show ?thesis
    proof cases
      case 1
      then have at': "cmp_at ?mid = Some Less" using at by (simp add: cmp_of_def)
      have IH: "?res (?mid + 1) hi"
        using mid "1.prems" by (intro "1.IH"(1) [OF True at']) auto
      have "f i \<noteq> key" if "lo \<le> i" "i < ?mid + 1" for i
        using "1.prems"(2) [of i ?mid] mid that 1 by auto
      then have rest: "f i \<noteq> key" if "lo \<le> i" "i < hi" "\<forall>i. ?mid + 1 \<le> i \<and> i < hi \<longrightarrow> f i \<noteq> key" for i
        using that by (cases "i < ?mid + 1") auto
      have eq: "bsearch_loop cmp_at lo hi = bsearch_loop cmp_at (?mid + 1) hi"
        by (subst bsearch_loop.simps) (simp add: True at')
      have "lo \<le> i" if "?mid + 1 \<le> i" for i using that mid by linarith
      with IH rest show ?thesis unfolding eq by blast
    next
      case 2
      then have "cmp_at ?mid = Some Equal" using at by (simp add: cmp_of_def)
      then show ?thesis
        unfolding bsearch_loop.simps [of cmp_at lo hi] using True mid 2 by simp
    next
      case 3
      then have at': "cmp_at ?mid = Some Greater" using at by (auto simp: cmp_of_def)
      have IH: "?res lo ?mid"
        using mid "1.prems" by (intro "1.IH"(2) [OF True at']) auto
      have "f i \<noteq> key" if "?mid \<le> i" "i < hi" for i
        using "1.prems"(2) [of ?mid i] mid that 3 by auto
      then have rest: "f i \<noteq> key" if "lo \<le> i" "i < hi" "\<forall>i. lo \<le> i \<and> i < ?mid \<longrightarrow> f i \<noteq> key" for i
        using that by (cases "i < ?mid") auto
      have eq: "bsearch_loop cmp_at lo hi = bsearch_loop cmp_at lo ?mid"
        by (subst bsearch_loop.simps) (simp add: True at')
      have "i < hi" if "i < ?mid" for i using that mid by linarith
      with IH rest show ?thesis unfolding eq by blast
    qed
  qed
qed

text \<open>Whatever the order of the rows, the loop ends inside the table when every row can be read.\<close>

lemma lower_bound_loop_total:
  assumes "lo \<le> hi" and "\<And>i. i < hi \<Longrightarrow> less_at i \<noteq> None"
  shows "\<exists>p. lower_bound_loop less_at lo hi = Some p \<and> lo \<le> p \<and> p \<le> hi"
  using assms
proof (induction less_at lo hi rule: lower_bound_loop.induct)
  case (1 less_at lo hi)
  let ?mid = "(lo + hi) div 2"
  show ?case
  proof (cases "lo < hi")
    case False
    with 1(3) show ?thesis by (subst lower_bound_loop.simps) auto
  next
    case True
    then have mid: "lo \<le> ?mid" "?mid < hi" by auto
    with 1(4) obtain b where b: "less_at ?mid = Some b" by blast
    show ?thesis
    proof (cases b)
      case True
      with 1(1) [OF \<open>lo < hi\<close>] b mid 1(4) obtain p
        where "lower_bound_loop less_at (?mid + 1) hi = Some p" "?mid + 1 \<le> p" "p \<le> hi" by auto
      then show ?thesis using mid True b by (subst lower_bound_loop.simps) auto
    next
      case False
      with 1(2) [OF \<open>lo < hi\<close>] b mid 1(4) obtain p
        where "lower_bound_loop less_at lo ?mid = Some p" "lo \<le> p" "p \<le> ?mid" by auto
      then show ?thesis using mid False b by (subst lower_bound_loop.simps) auto
    qed
  qed
qed

lemma lower_bound_total:
  assumes "n * stride \<le> length table"
  shows "\<exists>p. lower_bound table n stride needle = Some p \<and> p \<le> n"
proof -
  have "slice_of table (i * stride) ((i + 1) * stride) \<noteq> None" if "i < n" for i
  proof -
    have "(i + 1) * stride \<le> n * stride" using that by (intro mult_right_mono) auto
    then show ?thesis using assms by (simp add: slice_of_def)
  qed
  then have "\<exists>p. lower_bound_loop
      (\<lambda>mid. map_option (\<lambda>row. row < needle) (slice_of table (mid * stride) ((mid + 1) * stride))) 0 n = Some p \<and>
      0 \<le> p \<and> p \<le> n"
    by (intro lower_bound_loop_total) auto
  then show ?thesis by (auto simp: lower_bound_def)
qed

text \<open>The loops over a list of rows sorted by a key.\<close>

lemma takeWhile_length_partition:
  assumes "p \<le> length xs" and "\<And>i. i < p \<Longrightarrow> P (xs ! i)"
    and "\<And>i. p \<le> i \<Longrightarrow> i < length xs \<Longrightarrow> \<not> P (xs ! i)"
  shows "length (takeWhile P xs) = p"
proof -
  have "takeWhile P xs = take p xs"
    using assms by (intro takeWhile_eq_take_P_nth) auto
  then show ?thesis using assms(1) by simp
qed

lemma lower_bound_loop_list:
  assumes "sorted (map f xs)"
    and "\<And>i. i < length xs \<Longrightarrow> less_at i = Some (f (xs ! i) < k)"
  shows "lower_bound_loop less_at 0 (length xs) = Some (length (takeWhile (\<lambda>x. f x < k) xs))"
proof -
  have mono: "f (xs ! i) < k" if "i \<le> j" "j < length xs" "f (xs ! j) < k" for i j
    using sorted_nth_mono [OF assms(1), of i j] that by (simp add: order.strict_trans1)
  have "\<exists>p. lower_bound_loop less_at 0 (length xs) = Some p \<and> 0 \<le> p \<and> p \<le> length xs \<and>
      (\<forall>i. 0 \<le> i \<and> i < p \<longrightarrow> f (xs ! i) < k) \<and> (\<forall>i. p \<le> i \<and> i < length xs \<longrightarrow> \<not> f (xs ! i) < k)"
    by (rule lower_bound_loop_partition) (use assms(2) mono in blast)+
  then obtain p where "lower_bound_loop less_at 0 (length xs) = Some p" "p \<le> length xs"
      "\<And>i. i < p \<Longrightarrow> f (xs ! i) < k" "\<And>i. p \<le> i \<Longrightarrow> i < length xs \<Longrightarrow> \<not> f (xs ! i) < k"
    by blast
  then show ?thesis
    using takeWhile_length_partition [of p xs "\<lambda>x. f x < k"] by simp
qed

lemma bsearch_loop_list:
  assumes "sorted (map f xs)"
    and "\<And>i. i < length xs \<Longrightarrow> cmp_at i = Some (cmp_of (f (xs ! i)) k)"
  shows "(\<exists>i < length xs. bsearch_loop cmp_at 0 (length xs) = Some (Some i) \<and> f (xs ! i) = k) \<or>
         (bsearch_loop cmp_at 0 (length xs) = Some None \<and> k \<notin> f ` set xs)"
proof -
  have "f (xs ! i) \<le> f (xs ! j)" if "i \<le> j" "j < length xs" for i j
    using sorted_nth_mono [OF assms(1), of i j] that by simp
  from bsearch_loop_sound [where lo = 0 and hi = "length xs" and f = "\<lambda>i. f (xs ! i)"
      and cmp_at = cmp_at and key = k, OF assms(2) this]
  show ?thesis
    by (auto simp: in_set_conv_nth)
qed

section \<open>Sorted row lists\<close>

lemma takeWhile_less_filter:
  "sorted (map f xs) \<Longrightarrow> takeWhile (\<lambda>x. f x < k) xs = filter (\<lambda>x. f x < k) xs"
proof (induction xs)
  case Nil
  then show ?case by simp
next
  case (Cons x xs)
  show ?case
  proof (cases "f x < k")
    case True
    with Cons show ?thesis by simp
  next
    case False
    with Cons.prems have "\<forall>y \<in> set xs. \<not> f y < k" by fastforce
    with False show ?thesis by (simp add: filter_empty_conv)
  qed
qed

lemma filter_less_split:
  "sorted xs \<Longrightarrow> a \<le> (b::'a::linorder) \<Longrightarrow>
     filter (\<lambda>r. r < b) xs = filter (\<lambda>r. r < a) xs @ filter (\<lambda>r. a \<le> r \<and> r < b) xs"
proof (induction xs)
  case Nil
  then show ?case by simp
next
  case (Cons x xs)
  then have IH: "filter (\<lambda>r. r < b) xs = filter (\<lambda>r. r < a) xs @ filter (\<lambda>r. a \<le> r \<and> r < b) xs"
    by simp
  show ?case
  proof (cases "x < a")
    case True
    with IH Cons.prems show ?thesis by auto
  next
    case False
    with Cons.prems have "\<forall>y \<in> set xs. \<not> y < a" by fastforce
    then have "filter (\<lambda>r. r < a) xs = []" by (simp add: filter_empty_conv)
    with False IH show ?thesis by (auto simp: not_less)
  qed
qed

lemma map_nth_upt_takeWhile:
  assumes "m \<le> n" and "n \<le> length xs"
  shows "map ((!) xs) [m..<n] = drop m (take n xs)"
  using assms by (intro nth_equalityI) auto

text \<open>The rows between two lower bounds are the rows in the half-open key range.\<close>

lemma range_rows:
  assumes "sorted xs" and "a \<le> (b::'a::linorder)"
    and "m = length (takeWhile (\<lambda>r. r < a) xs)" and "n = length (takeWhile (\<lambda>r. r < b) xs)"
  shows "m \<le> n" and "n \<le> length xs" and "map ((!) xs) [m..<n] = filter (\<lambda>r. a \<le> r \<and> r < b) xs"
proof -
  have ta: "takeWhile (\<lambda>r. r < a) xs = filter (\<lambda>r. r < a) xs"
    and tb: "takeWhile (\<lambda>r. r < b) xs = filter (\<lambda>r. r < b) xs"
    using takeWhile_less_filter [of id] assms(1) by simp_all
  have split: "takeWhile (\<lambda>r. r < b) xs = takeWhile (\<lambda>r. r < a) xs @ filter (\<lambda>r. a \<le> r \<and> r < b) xs"
    using filter_less_split [OF assms(1,2)] by (simp add: ta tb)
  show mn: "m \<le> n" using split assms(3,4) by simp
  show n: "n \<le> length xs" by (simp add: assms(4) length_takeWhile_le)
  have "take n xs = takeWhile (\<lambda>r. r < b) xs"
    by (simp add: assms(4) takeWhile_eq_take [symmetric])
  then show "map ((!) xs) [m..<n] = filter (\<lambda>r. a \<le> r \<and> r < b) xs"
    using mn n split assms(3) by (simp add: map_nth_upt_takeWhile)
qed

lemma sort_dedup_sorted [simp]: "sorted (sort_dedup xs)"
  by (simp add: sort_dedup_def)

lemma set_sort_dedup [simp]: "set (sort_dedup xs) = set xs"
  by (simp add: sort_dedup_def)

lemma distinct_remdups_adj_sorted: "sorted xs \<Longrightarrow> distinct (remdups_adj xs)"
  by (induction xs rule: remdups_adj.induct) (auto simp: order.strict_iff_order)

lemma distinct_sort_dedup [simp]: "distinct (sort_dedup xs)"
  by (simp add: sort_dedup_def distinct_remdups_adj_sorted)

lemma sort_dedup_unique: "sorted ys \<Longrightarrow> distinct ys \<Longrightarrow> set ys = set xs \<Longrightarrow> ys = sort_dedup xs"
  by (intro sorted_distinct_set_unique) simp_all

lemma those_map_Some: "(\<And>x. x \<in> set xs \<Longrightarrow> f x = Some (g x)) \<Longrightarrow> those (map f xs) = Some (map g xs)"
  by (induction xs) auto

section \<open>Hash maps\<close>

lemma map_of_hm_entry [simp]:
  "map_of (hm_entry k f v m) =
     (map_of m)(k \<mapsto> (case map_of m k of None \<Rightarrow> v | Some x \<Rightarrow> f x))"
  by (induction m) (auto simp: fun_eq_iff)

lemma fst_hm_entry [simp]: "fst ` set (hm_entry k f v m) = insert k (fst ` set m)"
  by (induction k f v m rule: hm_entry.induct) (simp_all add: insert_commute)

lemma hm_ok_entry [simp]: "hm_ok m \<Longrightarrow> hm_ok (hm_entry k f v m)"
  by (induction m) auto

lemma hm_entry_all:
  "\<forall>(k', x) \<in> set m. P k' x \<Longrightarrow> P k v \<Longrightarrow> (\<And>x. P k x \<Longrightarrow> P k (f x)) \<Longrightarrow>
     \<forall>(k', x) \<in> set (hm_entry k f v m). P k' x"
  by (induction k f v m rule: hm_entry.induct) auto

section \<open>Tables of fixed-width rows\<close>

text \<open>What every section promises: \<open>W\<close> bytes per row, rows back to back.\<close>

locale fixed_rows =
  fixes enc :: "'r \<Rightarrow> bytes" and W :: nat
  assumes length_enc: "length (enc r) = W"
begin

lemma length_table: "length (concat (map enc rows)) = length rows * W"
  by (induction rows) (simp_all add: length_enc)

lemma table_split:
  assumes "i < length rows"
  shows "concat (map enc rows) =
    concat (map enc (take i rows)) @ enc (rows ! i) @ concat (map enc (drop (Suc i) rows))"
proof -
  have "concat (map enc rows) = concat (map enc (take i rows @ rows ! i # drop (Suc i) rows))"
    using id_take_nth_drop [OF assms] by simp
  then show ?thesis by simp
qed

lemma row_slice:
  assumes "i < length rows" and "a \<le> b" and "b \<le> W"
  shows "slice_of (concat (map enc rows)) (i * W + a) (i * W + b) = slice_of (enc (rows ! i)) a b"
proof -
  have "length (concat (map enc (take i rows))) = i * W"
    using assms(1) length_table [of "take i rows"] by simp
  then show ?thesis
    using assms by (simp add: table_split [OF assms(1)] slice_simps length_enc)
qed

lemma row_index:
  assumes "i < length rows" and "a < W"
  shows "index_of (concat (map enc rows)) (i * W + a) = index_of (enc (rows ! i)) a"
proof -
  have "length (concat (map enc (take i rows))) = i * W"
    using assms(1) length_table [of "take i rows"] by simp
  then show ?thesis
    using assms by (simp add: table_split [OF assms(1)] slice_simps length_enc)
qed

lemma whole_row:
  assumes "i < length rows"
  shows "slice_of (concat (map enc rows)) (i * W) ((i + 1) * W) = Some (enc (rows ! i))"
  using row_slice [OF assms, of 0 W] by (simp add: slice_simps length_enc add.commute)

text \<open>Decoding every row of a range, when one row decodes.\<close>

lemma those_rows:
  assumes "\<And>i. i < length rows \<Longrightarrow> dec (i * W) = Some (g (rows ! i))" and "n \<le> length rows"
  shows "those (map (\<lambda>i. dec (i * W)) [m..<n]) = Some (map g (map ((!) rows) [m..<n]))"
  using assms by (subst those_map_Some [where g = "\<lambda>i. g (rows ! i)"]) auto

end

text \<open>Tables searched by comparing whole row images: the byte order of two rows is the order of
  the rows.\<close>

locale packed_rows = fixed_rows enc W for enc :: "'r::linorder \<Rightarrow> bytes" and W :: nat +
  assumes enc_less: "enc r < enc s \<longleftrightarrow> r < s"
begin

lemma lower_bound_rows:
  assumes "sorted rows"
  shows "lower_bound (concat (map enc rows)) (length rows) W (enc k) =
    Some (length (takeWhile (\<lambda>r. r < k) rows))"
  unfolding lower_bound_def
  by (rule lower_bound_loop_list [where f = id, simplified])
    (simp_all only: assms whole_row option.map enc_less)

lemma range_scan:
  assumes "sorted rows" and "a \<le> b"
    and "lower_bound (concat (map enc rows)) (length rows) W (enc a) = Some lo"
    and "lower_bound (concat (map enc rows)) (length rows) W (enc b) = Some hi"
  shows "lo \<le> hi" and "hi \<le> length rows"
    and "map ((!) rows) [lo..<hi] = filter (\<lambda>r. a \<le> r \<and> r < b) rows"
  using range_rows [OF assms(1,2), of lo hi] assms(3,4) by (simp_all add: lower_bound_rows assms(1))

text \<open>Whatever the order of the two needles, the rows visited are the rows between them.\<close>

lemma scan_rows:
  assumes "sorted rows"
    and "lower_bound (concat (map enc rows)) (length rows) W (enc a) = Some lo"
    and "lower_bound (concat (map enc rows)) (length rows) W (enc b) = Some hi"
  shows "hi \<le> length rows" and "map ((!) rows) [lo..<hi] = filter (\<lambda>r. a \<le> r \<and> r < b) rows"
proof -
  show "hi \<le> length rows"
    using assms(1,3) by (auto simp: lower_bound_rows length_takeWhile_le)
  show "map ((!) rows) [lo..<hi] = filter (\<lambda>r. a \<le> r \<and> r < b) rows"
  proof (cases "a \<le> b")
    case True
    then show ?thesis using range_scan(3) assms by blast
  next
    case False
    have "hi \<le> lo" using range_scan(1) [OF assms(1) _ assms(3,2)] False by simp
    moreover have "filter (\<lambda>r. a \<le> r \<and> r < b) rows = []"
      using False by (auto simp: filter_empty_conv)
    ultimately show ?thesis by simp
  qed
qed

end

text \<open>Tables searched by a key that is a prefix of the row.\<close>

locale keyed_rows = fixed_rows enc W for enc :: "'r \<Rightarrow> bytes" and W :: nat +
  fixes key :: "'r \<Rightarrow> 'k::linorder" and enckey :: "'k \<Rightarrow> bytes" and K :: nat
  assumes enc_key: "slice_of (enc r) 0 K = Some (enckey (key r))"
    and enckey_less: "enckey a < enckey b \<longleftrightarrow> a < b"
begin

lemma K_le: "K \<le> W"
  using slice_of_SomeD [OF enc_key] by (simp add: length_enc)

lemma enckey_cmp: "cmp_of (enckey a) (enckey b) = cmp_of a b"
  by (metis cmp_of_def enckey_less linorder_neq_iff)

lemma bsearch_rows:
  assumes "sorted (map key rows)"
  shows "(\<exists>i < length rows. bsearch_loop
        (\<lambda>mid. map_option (\<lambda>k'. cmp_of k' (enckey k)) (slice_of (concat (map enc rows)) (mid * W) (mid * W + K)))
        0 (length rows) = Some (Some i) \<and> key (rows ! i) = k) \<or>
    (bsearch_loop
        (\<lambda>mid. map_option (\<lambda>k'. cmp_of k' (enckey k)) (slice_of (concat (map enc rows)) (mid * W) (mid * W + K)))
        0 (length rows) = Some None \<and> k \<notin> key ` set rows)"
  using row_slice [where a = 0 and b = K] K_le
  by (intro bsearch_loop_list assms) (simp add: enc_key enckey_cmp)

end

end
