(* ===== verification/S2_Format.thy ===== *)
theory S2_Format
  imports S2_Search
begin

text \<open>
  The wire format of an \<^verbatim>\<open>.s2db\<close> file (\<open>src/crates/scry2/src/format.rs\<close>): the constants,
  the 256-byte header (host order; the model fixes a little-endian host), the images of the rows of
  every table, the LEB128 varints of the trigram postings and page alignment. A Rust \<^verbatim>\<open>&str\<close>
  is its UTF-8 byte string, so \<open>utf8_valid\<close> and \<open>is_char_boundary\<close> model what the
  sources use of \<^verbatim>\<open>str\<close>. The row images interpret the table locales of \<open>S2_Search\<close>.
\<close>

section \<open>Constants\<close>

definition MAGIC :: bytes where "MAGIC = [0x53, 0x32, 0x44, 0x42, 0x76, 0x32, 0, 0]"
definition VERSION :: u32 where "VERSION = 6"
definition MIN_VERSION :: u32 where "MIN_VERSION = 6"
definition TRIGRAM_BLOCK :: nat where "TRIGRAM_BLOCK = 128"
definition PAGE :: nat where "PAGE = 4096"
definition XREF_LEN :: nat where "XREF_LEN = 17"
definition SYM_LEN :: nat where "SYM_LEN = 20"
definition NAME_LEN :: nat where "NAME_LEN = 18"
definition FILE_LEN :: nat where "FILE_LEN = 14"
definition INH_LEN :: nat where "INH_LEN = 16"
definition CALL_LEN :: nat where "CALL_LEN = 17"
definition TYPE_LEN :: nat where "TYPE_LEN = 18"
definition TRIGRAM_LEN :: nat where "TRIGRAM_LEN = 20"
definition SKIP_ENTRY :: nat where "SKIP_ENTRY = 8"

text \<open>The modules \<^verbatim>\<open>role\<close>, \<^verbatim>\<open>kind\<close> and \<^verbatim>\<open>lang\<close>.\<close>

definition role_DECL :: u8 where "role_DECL = 0"
definition role_DEF :: u8 where "role_DEF = 1"
definition role_REF :: u8 where "role_REF = 2"
definition role_CALL :: u8 where "role_CALL = 3"

definition kind_UNK :: u8 where "kind_UNK = 0"
definition kind_FUNCTION :: u8 where "kind_FUNCTION = 1"
definition kind_TYPE :: u8 where "kind_TYPE = 2"
definition kind_VARIABLE :: u8 where "kind_VARIABLE = 3"
definition kind_FIELD :: u8 where "kind_FIELD = 4"
definition kind_PACKAGE :: u8 where "kind_PACKAGE = 5"

definition lang_UNK :: u8 where "lang_UNK = 0"
definition lang_CXX :: u8 where "lang_CXX = 1"
definition lang_JAVA :: u8 where "lang_JAVA = 2"
definition lang_JVM :: u8 where "lang_JVM = 3"
definition lang_GO :: u8 where "lang_GO = 4"
definition lang_PROTO :: u8 where "lang_PROTO = 5"
definition lang_RUST :: u8 where "lang_RUST = 6"
definition lang_KOTLIN :: u8 where "lang_KOTLIN = 7"

lemmas len_defs =
  XREF_LEN_def SYM_LEN_def NAME_LEN_def FILE_LEN_def INH_LEN_def CALL_LEN_def TYPE_LEN_def
  TRIGRAM_LEN_def SKIP_ENTRY_def

section \<open>The header\<close>

record header =
  magic :: bytes
  version :: u32
  pad0 :: u32
  xrefs_off :: u64
  xrefs_n :: u64
  syms_off :: u64
  syms_n :: u64
  names_off :: u64
  names_n :: u64
  files_off :: u64
  files_n :: u64
  inh_off :: u64
  inh_n :: u64
  calls_off :: u64
  calls_n :: u64
  crev_off :: u64
  crev_n :: u64
  blob_off :: u64
  blob_len :: u64
  typed_off :: u64
  typed_n :: u64
  childrev_off :: u64
  childrev_n :: u64
  inhrev_off :: u64
  inhrev_n :: u64
  sig_off :: u64
  sig_n :: u64
  trigram_dict_off :: u64
  trigram_dict_n :: u64
  trigram_post_off :: u64
  trigram_post_len :: u64
  reserved :: bytes

definition HEADER_LEN :: nat where "HEADER_LEN = 256"

definition header_default :: header where
  "header_default =
     \<lparr> magic = replicate 8 0, version = 0, pad0 = 0, xrefs_off = 0, xrefs_n = 0, syms_off = 0,
       syms_n = 0, names_off = 0, names_n = 0, files_off = 0, files_n = 0, inh_off = 0, inh_n = 0,
       calls_off = 0, calls_n = 0, crev_off = 0, crev_n = 0, blob_off = 0, blob_len = 0,
       typed_off = 0, typed_n = 0, childrev_off = 0, childrev_n = 0, inhrev_off = 0, inhrev_n = 0,
       sig_off = 0, sig_n = 0, trigram_dict_off = 0, trigram_dict_n = 0, trigram_post_off = 0,
       trigram_post_len = 0, reserved = replicate 16 0 \<rparr>"

text \<open>The bytes of the \<^verbatim>\<open>repr(C)\<close> struct on a little-endian host: reversed big-endian images,
  in declaration order.\<close>

definition le32 :: "u32 \<Rightarrow> bytes" where "le32 w = rev (be32 w)"
definition le64 :: "u64 \<Rightarrow> bytes" where "le64 w = rev (be64 w)"
definition of_le32 :: "bytes \<Rightarrow> u32" where "of_le32 bs = of_be32 (rev bs)"
definition of_le64 :: "bytes \<Rightarrow> u64" where "of_le64 bs = of_be64 (rev bs)"

definition header_words :: "header \<Rightarrow> u64 list" where
  "header_words h =
     [xrefs_off h, xrefs_n h, syms_off h, syms_n h, names_off h, names_n h, files_off h, files_n h,
      inh_off h, inh_n h, calls_off h, calls_n h, crev_off h, crev_n h, blob_off h, blob_len h,
      typed_off h, typed_n h, childrev_off h, childrev_n h, inhrev_off h, inhrev_n h,
      sig_off h, sig_n h, trigram_dict_off h, trigram_dict_n h, trigram_post_off h, trigram_post_len h]"

definition header_bytes :: "header \<Rightarrow> bytes" where
  "header_bytes h =
     magic h @ le32 (version h) @ le32 (pad0 h) @ concat (map le64 (header_words h)) @ reserved h"

definition header_word_at :: "bytes \<Rightarrow> nat \<Rightarrow> u64" where
  "header_word_at bs k = of_le64 (take 8 (drop (16 + k * 8) bs))"

definition header_of_bytes :: "bytes \<Rightarrow> header" where
  "header_of_bytes bs =
     \<lparr> magic = take 8 bs, version = of_le32 (take 4 (drop 8 bs)), pad0 = of_le32 (take 4 (drop 12 bs)),
       xrefs_off = header_word_at bs 0, xrefs_n = header_word_at bs 1,
       syms_off = header_word_at bs 2, syms_n = header_word_at bs 3,
       names_off = header_word_at bs 4, names_n = header_word_at bs 5,
       files_off = header_word_at bs 6, files_n = header_word_at bs 7,
       inh_off = header_word_at bs 8, inh_n = header_word_at bs 9,
       calls_off = header_word_at bs 10, calls_n = header_word_at bs 11,
       crev_off = header_word_at bs 12, crev_n = header_word_at bs 13,
       blob_off = header_word_at bs 14, blob_len = header_word_at bs 15,
       typed_off = header_word_at bs 16, typed_n = header_word_at bs 17,
       childrev_off = header_word_at bs 18, childrev_n = header_word_at bs 19,
       inhrev_off = header_word_at bs 20, inhrev_n = header_word_at bs 21,
       sig_off = header_word_at bs 22, sig_n = header_word_at bs 23,
       trigram_dict_off = header_word_at bs 24, trigram_dict_n = header_word_at bs 25,
       trigram_post_off = header_word_at bs 26, trigram_post_len = header_word_at bs 27,
       reserved = take 16 (drop 240 bs) \<rparr>"

section \<open>Row images\<close>

text \<open>\<^verbatim>\<open>XrefRow\<close>, \<^verbatim>\<open>SymRow\<close>, \<^verbatim>\<open>NameRow\<close>, \<^verbatim>\<open>FileRow\<close>, \<^verbatim>\<open>InhRow\<close>, \<^verbatim>\<open>CallRow\<close>,
  \<^verbatim>\<open>TypeRow\<close> and \<^verbatim>\<open>TrigramRow\<close> as the tuples the writer serialises field by field.\<close>

type_synonym xref_row = "u64 \<times> u8 \<times> u32 \<times> u32"
type_synonym sym_row = "u64 \<times> u8 \<times> u8 \<times> u64 \<times> u16"
type_synonym name_row = "u64 \<times> u16 \<times> u64"
type_synonym file_row = "u32 \<times> u64 \<times> u16"
type_synonym inh_row = "u64 \<times> u64"
type_synonym call_row = "u64 \<times> u64 \<times> u8"
type_synonym type_row = "u64 \<times> u64 \<times> u16"

fun enc_xref :: "xref_row \<Rightarrow> bytes" where
  "enc_xref (s, role, file, offset) = be64 s @ [role] @ be32 file @ be32 offset"

fun enc_sym :: "sym_row \<Rightarrow> bytes" where
  "enc_sym (s, kind, lang, off, len) = be64 s @ [kind, lang] @ be64 off @ be16 len"

fun enc_name :: "name_row \<Rightarrow> bytes" where
  "enc_name (off, len, s) = be64 off @ be16 len @ be64 s"

fun enc_file :: "file_row \<Rightarrow> bytes" where
  "enc_file (file, off, len) = be32 file @ be64 off @ be16 len"

fun enc_inh :: "inh_row \<Rightarrow> bytes" where
  "enc_inh (child, parent) = be64 child @ be64 parent"

fun enc_call :: "call_row \<Rightarrow> bytes" where
  "enc_call (caller, callee, role) = be64 caller @ be64 callee @ [role]"

fun enc_type :: "type_row \<Rightarrow> bytes" where
  "enc_type (s, off, len) = be64 s @ be64 off @ be16 len"

section \<open>Varints and page alignment\<close>

function write_varint :: "bytes \<Rightarrow> u32 \<Rightarrow> bytes" where
  "write_varint out v =
     (if 0x80 \<le> v then write_varint (out @ [ucast v OR 0x80]) (drop_bit 7 v) else out @ [ucast v])"
  by pat_completeness auto
termination
  by (relation "measure (\<lambda>(out, v). unat v)") (simp_all add: unat_shr7_less)

function varint_len_loop :: "u32 \<Rightarrow> nat \<Rightarrow> nat" where
  "varint_len_loop v n = (if 0x80 \<le> v then varint_len_loop (drop_bit 7 v) (n + 1) else n)"
  by pat_completeness auto
termination
  by (relation "measure (\<lambda>(v, n). unat v)") (simp_all add: unat_shr7_less)

definition varint_len :: "u32 \<Rightarrow> nat" where
  "varint_len v = varint_len_loop v 1"

text \<open>The decoding loop. Reading past the end of \<open>buf\<close> panics; the shift amount is masked to
  the width, as \<^verbatim>\<open><<\<close> does in the release profile.\<close>

function read_varint_loop :: "bytes \<Rightarrow> u32 \<Rightarrow> nat \<Rightarrow> nat \<Rightarrow> (u32 \<times> nat) option" where
  "read_varint_loop buf v shift i =
     (if i < length buf then
        (let b = buf ! i; v' = v OR push_bit (shift mod 32) (ucast (b AND 0x7f))
         in if b AND 0x80 = 0 then Some (v', i + 1) else read_varint_loop buf v' (shift + 7) (i + 1))
      else None)"
  by pat_completeness auto
termination
  by (relation "measure (\<lambda>(buf, v, shift, i). length buf - i)") auto

definition read_varint :: "bytes \<Rightarrow> nat \<Rightarrow> (u32 \<times> nat) option" where
  "read_varint buf pos = map_option (\<lambda>(v, i). (v, i - pos)) (read_varint_loop buf 0 0 pos)"

declare write_varint.simps [simp del] varint_len_loop.simps [simp del] read_varint_loop.simps [simp del]

definition pad_up :: "u64 \<Rightarrow> u64" where
  "pad_up n = (n + 4096 - 1) AND NOT (4096 - 1)"

section \<open>UTF-8 strings\<close>

text \<open>\<open>utf8_valid\<close> is what \<^verbatim>\<open>std::str::from_utf8\<close> accepts and the type invariant of every
  Rust \<^verbatim>\<open>str\<close>.\<close>

definition utf8_cont :: "u8 \<Rightarrow> bool" where
  "utf8_cont b \<longleftrightarrow> 0x80 \<le> b \<and> b < 0xC0"

definition utf8_second3 :: "u8 \<Rightarrow> u8 \<Rightarrow> bool" where
  "utf8_second3 b c \<longleftrightarrow> utf8_cont c \<and> (b = 0xE0 \<longrightarrow> 0xA0 \<le> c) \<and> (b = 0xED \<longrightarrow> c < 0xA0)"

definition utf8_second4 :: "u8 \<Rightarrow> u8 \<Rightarrow> bool" where
  "utf8_second4 b c \<longleftrightarrow> utf8_cont c \<and> (b = 0xF0 \<longrightarrow> 0x90 \<le> c) \<and> (b = 0xF4 \<longrightarrow> c < 0x90)"

fun utf8_valid :: "bytes \<Rightarrow> bool" where
  "utf8_valid [] = True"
| "utf8_valid (b # bs) =
     (if b < 0x80 then utf8_valid bs
      else if 0xC2 \<le> b \<and> b < 0xE0 then
        (case bs of c # r \<Rightarrow> utf8_cont c \<and> utf8_valid r | _ \<Rightarrow> False)
      else if 0xE0 \<le> b \<and> b < 0xF0 then
        (case bs of c # d # r \<Rightarrow> utf8_second3 b c \<and> utf8_cont d \<and> utf8_valid r | _ \<Rightarrow> False)
      else if 0xF0 \<le> b \<and> b < 0xF5 then
        (case bs of c # d # e # r \<Rightarrow> utf8_second4 b c \<and> utf8_cont d \<and> utf8_cont e \<and> utf8_valid r
         | _ \<Rightarrow> False)
      else False)"

definition is_char_boundary :: "bytes \<Rightarrow> nat \<Rightarrow> bool" where
  "is_char_boundary s i \<longleftrightarrow> i = 0 \<or> i = length s \<or> (i < length s \<and> \<not> utf8_cont (s ! i))"

section \<open>The row images keep the table laws\<close>

interpretation xref_table: packed_rows enc_xref XREF_LEN
  by unfold_locales (auto simp: XREF_LEN_def append_less_iff)

interpretation inh_table: packed_rows enc_inh INH_LEN
  by unfold_locales (auto simp: INH_LEN_def append_less_iff)

interpretation call_table: packed_rows enc_call CALL_LEN
  by unfold_locales (auto simp: CALL_LEN_def append_less_iff)

interpretation sym_table: keyed_rows enc_sym SYM_LEN fst be64 8
  by unfold_locales (auto simp: SYM_LEN_def slice_simps)

interpretation type_table: keyed_rows enc_type TYPE_LEN fst be64 8
  by unfold_locales (auto simp: TYPE_LEN_def slice_simps)

interpretation file_table: keyed_rows enc_file FILE_LEN fst be32 4
  by unfold_locales (auto simp: FILE_LEN_def slice_simps)

interpretation name_table: fixed_rows enc_name NAME_LEN
  by unfold_locales (auto simp: NAME_LEN_def)

interpretation header_table: fixed_rows le64 8
  by unfold_locales (simp add: le64_def)

section \<open>The header round trip\<close>

lemma length_MAGIC [simp]: "length MAGIC = 8"
  by (simp add: MAGIC_def)

lemma le_inverse [simp]: "of_le32 (le32 a) = a" "of_le64 (le64 b) = b"
  by (simp_all add: of_le32_def le32_def of_le64_def le64_def)

lemma length_le [simp]: "length (le32 a) = 4" "length (le64 b) = 8"
  by (simp_all add: le32_def le64_def)

lemma length_header_words [simp]: "length (header_words h) = 28"
  by (simp add: header_words_def)

lemma length_header_bytes:
  "length (magic h) = 8 \<Longrightarrow> length (reserved h) = 16 \<Longrightarrow> length (header_bytes h) = HEADER_LEN"
  by (simp add: header_bytes_def HEADER_LEN_def header_table.length_table)

lemma header_word_at_bytes:
  assumes "length (magic h) = 8" and "k < 28"
  shows "header_word_at (header_bytes h @ rest) k = header_words h ! k"
proof -
  let ?t = "concat (map le64 (header_words h))"
  have "slice_of ?t (k * 8) (k * 8 + 8) = Some (le64 (header_words h ! k))"
    using header_table.whole_row [of k "header_words h"] assms(2) by (simp add: add.commute)
  then have "take 8 (drop (k * 8) ?t) = le64 (header_words h ! k)" and "k * 8 + 8 \<le> length ?t"
    by (auto simp: slice_of_def split: if_splits)
  then show ?thesis
    using assms(1) by (simp add: header_word_at_def header_bytes_def)
qed

lemma header_round_trip:
  assumes "length (magic h) = 8" and "length (reserved h) = 16"
  shows "header_of_bytes (header_bytes h @ rest) = h"
proof -
  have "take 16 (drop 240 (header_bytes h @ rest)) = reserved h"
    using assms by (simp add: header_bytes_def header_table.length_table)
  moreover have "take 8 (header_bytes h @ rest) = magic h"
      "take 4 (drop 8 (header_bytes h @ rest)) = le32 (version h)"
      "take 4 (drop 12 (header_bytes h @ rest)) = le32 (pad0 h)"
    using assms by (simp_all add: header_bytes_def)
  ultimately show ?thesis
    by (simp add: header_of_bytes_def header_word_at_bytes [OF assms(1)])
      (simp add: header_words_def)
qed

section \<open>Varints\<close>

lemma write_varint_append: "write_varint out v = out @ write_varint [] v"
proof (induction v arbitrary: out rule: measure_induct_rule [where f = unat])
  case (less v)
  show ?case
  proof (cases "0x80 \<le> v")
    case True
    have step: "write_varint xs (drop_bit 7 v) = xs @ write_varint [] (drop_bit 7 v)" for xs
      by (rule less) (rule unat_shr7_less [OF True])
    show ?thesis
      using True step [of "out @ [ucast v OR 0x80]"] step [of "[ucast v OR 0x80]"]
      by (simp add: write_varint.simps [of out v] write_varint.simps [of "[]" v])
  next
    case False
    then show ?thesis by (simp add: write_varint.simps [of out v] write_varint.simps [of "[]" v])
  qed
qed

lemma varint_len_loop_add: "varint_len_loop v (Suc n) = Suc (varint_len_loop v n)"
proof (induction v n rule: varint_len_loop.induct)
  case (1 v n)
  then show ?case
    by (simp add: varint_len_loop.simps [of v n] varint_len_loop.simps [of v "Suc n"])
qed

lemma varint_len_unfold:
  "varint_len v = (if 0x80 \<le> v then Suc (varint_len (drop_bit 7 v)) else 1)"
  unfolding varint_len_def
  by (subst varint_len_loop.simps) (simp add: varint_len_loop_add)

lemma length_write_varint: "length (write_varint out v) = length out + varint_len v"
proof (induction out v rule: write_varint.induct)
  case (1 out v)
  then show ?case
    by (simp add: write_varint.simps [of out v] varint_len_unfold [of v])
qed

lemma varint_len_bound: "unat v < 2 ^ (7 * k) \<Longrightarrow> 0 < k \<Longrightarrow> varint_len v \<le> k"
proof (induction k arbitrary: v)
  case 0
  then show ?case by simp
next
  case (Suc k)
  show ?case
  proof (cases "0x80 \<le> v")
    case True
    then have "0x80 \<le> unat v" by (simp add: word_le_nat_alt)
    then have "k \<noteq> 0" using Suc.prems by (cases k) auto
    moreover have "unat (drop_bit 7 v) < 2 ^ (7 * k)"
      using Suc.prems by (simp add: unat_drop_bit less_mult_imp_div_less power_add mult.commute)
    ultimately show ?thesis using Suc.IH True by (simp add: varint_len_unfold [of v])
  next
    case False
    then show ?thesis by (simp add: varint_len_unfold)
  qed
qed

text \<open>The seven low bits of a continuation byte, and the bit above them.\<close>

lemma cont_byte:
  fixes v :: u32
  shows "ucast ((ucast v OR 0x80 :: u8) AND 0x7f) = v AND 0x7f"
    and "((ucast v OR 0x80 :: u8) AND 0x80) \<noteq> 0"
proof -
  have masks: "(0x7f :: u32) = mask 7" "(0x7f :: u8) = mask 7" "(0x80 :: u8) = push_bit 7 1"
    by (simp_all add: mask_eq_decr_exp push_bit_eq_mult)
  have bits: "bit (0x7f :: u32) n \<longleftrightarrow> n < 7" "bit (0x7f :: u8) n \<longleftrightarrow> n < 7" "bit (0x80 :: u8) n \<longleftrightarrow> n = 7"
    for n
    unfolding masks by (auto simp only: bit_mask_iff bit_push_bit_iff bit_1_iff possible_bit_word) auto
  show "ucast ((ucast v OR 0x80 :: u8) AND 0x7f) = v AND 0x7f"
    by (rule bit_eqI) (simp only: bits bit_and_iff bit_or_iff bit_unsigned_iff possible_bit_word, auto)
  have "bit ((ucast v OR 0x80 :: u8) AND 0x80) 7"
    by (simp add: bits bit_and_iff bit_or_iff)
  then show "((ucast v OR 0x80 :: u8) AND 0x80) \<noteq> 0" by (metis bit_0_eq bot_apply bot_bool_def)
qed

lemma push_bit_split7:
  fixes w :: u32
  shows "push_bit s (w AND 0x7f) OR push_bit (s + 7) (drop_bit 7 w) = push_bit s w"
proof -
  have "(0x7f :: u32) = mask 7" by (simp add: mask_eq_decr_exp)
  then have "push_bit s (w AND 0x7f) OR push_bit (s + 7) (drop_bit 7 w) =
      push_bit s (take_bit 7 w OR push_bit 7 (drop_bit 7 w))"
    by (simp only: take_bit_eq_mask push_bit_or push_bit_push_bit)
  also have "take_bit 7 w OR push_bit 7 (drop_bit 7 w) = w"
    by (simp add: or.commute [of "take_bit 7 w"] flip: concat_bit_def) 
      (rule bit_eqI, auto simp: bit_or_iff bit_take_bit_iff bit_push_bit_iff bit_drop_bit_eq)
  finally show ?thesis .
qed

lemma small_byte:
  fixes v :: u32
  assumes "\<not> 0x80 \<le> v"
  shows "ucast ((ucast v :: u8) AND 0x7f) = v" and "((ucast v :: u8) AND 0x80) = 0"
proof -
  have "take_bit 7 v = v"
  proof -
    have "unat v < 2 ^ 7" using assms by (simp add: word_le_nat_alt)
    then have "unat (take_bit 7 v) = unat v" by (simp add: unsigned_take_bit_eq take_bit_nat_eq_self)
    then show ?thesis by (rule unsigned_word_eqI)
  qed
  then have bit: "bit v n \<Longrightarrow> n < 7" for n by (metis bit_take_bit_iff)
  have masks: "(0x7f :: u8) = mask 7" "(0x80 :: u8) = push_bit 7 1"
    by (simp_all add: mask_eq_decr_exp push_bit_eq_mult)
  show "ucast ((ucast v :: u8) AND 0x7f) = v"
  proof (rule bit_eqI)
    fix n
    assume "possible_bit TYPE(32 word) n"
    then show "bit (ucast ((ucast v :: u8) AND 0x7f) :: u32) n = bit v n"
      unfolding masks bit_and_iff bit_mask_iff bit_unsigned_iff possible_bit_word
      using bit [of n] by auto
  qed
  show "((ucast v :: u8) AND 0x80) = 0"
  proof (rule bit_eqI)
    fix n
    assume "possible_bit TYPE(8 word) n"
    then show "bit ((ucast v :: u8) AND 0x80) n = bit (0 :: u8) n"
      unfolding masks bit_and_iff bit_push_bit_iff bit_1_iff bit_unsigned_iff possible_bit_word
      using bit [of n] by auto
  qed
qed

text \<open>Decoding what \<^verbatim>\<open>write_varint\<close> appended, from any accumulator.\<close>

lemma read_varint_loop_write:
  assumes "shift < 32" and "unat w < 2 ^ (32 - shift)"
  shows "read_varint_loop (pre @ write_varint [] w @ rest) v shift (length pre) =
    Some (v OR push_bit shift w, length pre + varint_len w)"
  using assms
proof (induction w arbitrary: v shift pre rule: measure_induct_rule [where f = unat])
  case (less w)
  show ?case
  proof (cases "0x80 \<le> w")
    case False
    then have "write_varint [] w = [ucast w]" and "varint_len w = 1"
      by (simp_all add: write_varint.simps [of "[]" w] varint_len_unfold [of w])
    then show ?thesis
      using less.prems(1) small_byte [OF False]
      by (simp add: read_varint_loop.simps [of _ v] nth_append Let_def)
  next
    case True
    let ?b = "ucast w OR 0x80 :: u8"
    have w: "write_varint [] w = ?b # write_varint [] (drop_bit 7 w)"
      using True write_varint_append [of "[?b]" "drop_bit 7 w"]
      by (simp add: write_varint.simps [of "[]" w])
    have "0x80 \<le> unat w" using True by (simp add: word_le_nat_alt)
    then have "(2::nat) ^ 7 < 2 ^ (32 - shift)" using less.prems(2) by simp
    then have "7 < 32 - shift" by (rule power_less_imp_less_exp [rotated]) simp
    then have s7: "shift + 7 < 32" by simp
    have "32 - shift = 32 - (shift + 7) + 7" using s7 by simp
    then have "2 ^ (32 - shift) = (2::nat) ^ (32 - (shift + 7)) * 2 ^ 7"
      by (simp only: power_add)
    then have lt: "unat (drop_bit 7 w) < 2 ^ (32 - (shift + 7))"
      using less.prems(2) by (simp add: unat_drop_bit less_mult_imp_div_less)
    have "read_varint_loop ((pre @ [?b]) @ write_varint [] (drop_bit 7 w) @ rest)
        (v OR push_bit shift (w AND 0x7f)) (shift + 7) (length (pre @ [?b])) =
      Some ((v OR push_bit shift (w AND 0x7f)) OR push_bit (shift + 7) (drop_bit 7 w),
        length (pre @ [?b]) + varint_len (drop_bit 7 w))"
      by (rule less.IH [OF unat_shr7_less [OF True] s7 lt])
    then show ?thesis
      using True less.prems(1) cont_byte [of w] push_bit_split7 [of shift w]
      by (simp add: read_varint_loop.simps [of _ v] w nth_append Let_def or.assoc
          varint_len_unfold [of w])
  qed
qed

lemma read_write_varint:
  "read_varint (pre @ write_varint [] v @ rest) (length pre) = Some (v, varint_len v)"
proof -
  have "unat v < 2 ^ 32" using unsigned_less [of v] by simp
  then show ?thesis
    using read_varint_loop_write [of 0 v pre rest 0] by (simp add: read_varint_def)
qed

lemma varint_len_u32: "1 \<le> varint_len v" "varint_len v \<le> 5"
proof -
  have "unat v < 2 ^ 32" using unsigned_less [of v] by simp
  then have "unat v < 2 ^ (7 * 5)" by simp
  then show "varint_len v \<le> 5" by (rule varint_len_bound) simp
  show "1 \<le> varint_len v" by (subst varint_len_unfold) simp
qed

section \<open>Page alignment\<close>

definition pad_up_nat :: "nat \<Rightarrow> nat" where
  "pad_up_nat n = (n + 4095) div 4096 * 4096"

lemma pad_up_unat:
  assumes "unat n + 4095 < 2 ^ 64"
  shows "unat (pad_up n) = pad_up_nat (unat n)"
proof -
  have eq: "(4096 - 1 :: u64) = mask 12" by (simp add: mask_eq_decr_exp)
  have "pad_up n = push_bit 12 (drop_bit 12 (n + 4095))"
    unfolding pad_up_def eq
    by (rule bit_eqI)
      (auto simp: bit_and_iff bit_not_iff bit_mask_iff bit_push_bit_iff bit_drop_bit_eq add.commute)
  also have "unat \<dots> = unat (n + 4095) div 4096 * 4096"
  proof -
    have "unat (n + 4095) div 4096 * 4096 \<le> unat (n + 4095)" by simp
    also have "\<dots> < 2 ^ 64" using unsigned_less [of "n + 4095"] by simp
    finally show ?thesis
      by (simp add: push_bit_eq_mult unat_word_ariths unat_drop_bit)
  qed
  also have "unat (n + 4095) = unat n + 4095"
    using assms by (simp add: unat_word_ariths)
  finally show ?thesis by (simp add: pad_up_nat_def)
qed

lemma pad_up_nat_ge: "n \<le> pad_up_nat n" and pad_up_nat_lt: "pad_up_nat n < n + 4096"
  and pad_up_nat_dvd: "4096 dvd pad_up_nat n"
  by (simp_all add: pad_up_nat_def)

end
