(* ===== verification/S2_Names.thy ===== *)
theory S2_Names
  imports S2_Format
begin

text \<open>
  Strings of the index and the display-name preference (\<open>src/crates/scry2/src/writer.rs\<close>:
  \<^verbatim>\<open>clamp_blob_str\<close>, \<^verbatim>\<open>is_ticket_name\<close>, \<^verbatim>\<open>is_degenerate_name\<close>, \<^verbatim>\<open>prefers_name\<close>). The Unicode
  classification behind \<^verbatim>\<open>char::is_alphanumeric\<close> and \<^verbatim>\<open>char::is_whitespace\<close> is a parameter
  (a \<open>unicode_tables\<close> record): no lemma depends on its contents.
\<close>

record unicode_tables =
  is_alphanumeric :: "nat \<Rightarrow> bool"
  is_whitespace :: "nat \<Rightarrow> bool"

text \<open>\<^verbatim>\<open>str::chars\<close>: the code points of a valid string.\<close>

fun utf8_chars :: "bytes \<Rightarrow> nat list" where
  "utf8_chars [] = []"
| "utf8_chars (b # bs) =
     (if b < 0x80 then unat b # utf8_chars bs
      else if b < 0xE0 then
        (case bs of c # r \<Rightarrow> (unat b mod 32 * 64 + unat c mod 64) # utf8_chars r | _ \<Rightarrow> [])
      else if b < 0xF0 then
        (case bs of c # d # r \<Rightarrow>
           (unat b mod 16 * 4096 + unat c mod 64 * 64 + unat d mod 64) # utf8_chars r | _ \<Rightarrow> [])
      else
        (case bs of c # d # e # r \<Rightarrow>
           (unat b mod 8 * 262144 + unat c mod 64 * 4096 + unat d mod 64 * 64 + unat e mod 64)
             # utf8_chars r | _ \<Rightarrow> []))"

definition trim_chars :: "unicode_tables \<Rightarrow> nat list \<Rightarrow> nat list" where
  "trim_chars U cs = rev (dropWhile (is_whitespace U) (rev (dropWhile (is_whitespace U) cs)))"

section \<open>Definitions of writer.rs\<close>

function clamp_end :: "bytes \<Rightarrow> nat \<Rightarrow> nat" where
  "clamp_end s e = (if 0 < e \<and> \<not> is_char_boundary s e then clamp_end s (e - 1) else e)"
  by pat_completeness auto
termination
  by (relation "measure snd") auto

declare clamp_end.simps [simp del]

definition clamp_blob_str :: "bytes \<Rightarrow> bytes" where
  "clamp_blob_str s = (if length s \<le> 65535 then s else take (clamp_end s 65535) s)"

text \<open>\<open>''kythe:''\<close>.\<close>

definition kythe_scheme :: bytes where
  "kythe_scheme = [0x6B, 0x79, 0x74, 0x68, 0x65, 0x3A]"

definition starts_with :: "bytes \<Rightarrow> bytes \<Rightarrow> bool" where
  "starts_with s p \<longleftrightarrow> take (length p) s = p"

definition is_ticket_name :: "bytes \<Rightarrow> bool" where
  "is_ticket_name name = starts_with name kythe_scheme"

definition is_degenerate_name :: "unicode_tables \<Rightarrow> bytes \<Rightarrow> bool" where
  "is_degenerate_name U name =
     (let t = trim_chars U (utf8_chars name)
      in if t = [] then True else \<not> list_ex (is_alphanumeric U) t)"

definition prefers_name :: "unicode_tables \<Rightarrow> bytes \<Rightarrow> bytes \<Rightarrow> bool" where
  "prefers_name U cur cand =
     (if cand = [] then False
      else if cur = [] then True
      else case (is_degenerate_name U cur, is_degenerate_name U cand) of
        (False, True) \<Rightarrow> False
      | (True, False) \<Rightarrow> True
      | (True, True) \<Rightarrow> False
      | (False, False) \<Rightarrow>
          (case (is_ticket_name cur, is_ticket_name cand) of
             (True, False) \<Rightarrow> True
           | (False, True) \<Rightarrow> False
           | _ \<Rightarrow> (length cand, cand) < (length cur, cur)))"

text \<open>The update \<^verbatim>\<open>if prefers_name(&e.2, name) { e.2 = name }\<close> that every writer of a display
  name performs.\<close>

definition better_name :: "unicode_tables \<Rightarrow> bytes \<Rightarrow> bytes \<Rightarrow> bytes" where
  "better_name U cur cand = (if prefers_name U cur cand then cand else cur)"

text \<open>The classes of the preference as a key: the smaller key is the better name.\<close>

definition name_rank :: "unicode_tables \<Rightarrow> bytes \<Rightarrow> nat \<times> nat \<times> bytes" where
  "name_rank U n =
     (if n = [] then (3, 0, [])
      else if is_degenerate_name U n then (2, 0, [])
      else if is_ticket_name n then (1, length n, n)
      else (0, length n, n))"

section \<open>Clamping keeps valid UTF-8\<close>

text \<open>One encoded character: a lead byte that is no continuation byte, then continuation bytes.\<close>

definition utf8_unit :: "bytes \<Rightarrow> bool" where
  "utf8_unit c \<longleftrightarrow> c \<noteq> [] \<and> length c \<le> 4 \<and> \<not> utf8_cont (hd c) \<and> (\<forall>b \<in> set (tl c). utf8_cont b) \<and>
     (\<forall>r. utf8_valid (c @ r) = utf8_valid r)"

lemma utf8_valid_cases:
  assumes "utf8_valid s" and "s \<noteq> []"
  shows "\<exists>c r. s = c @ r \<and> utf8_unit c \<and> utf8_valid r"
proof -
  obtain b bs where s: "s = b # bs" using assms(2) by (cases s) auto
  have "b < 0x80 \<or> 0xC2 \<le> b \<or> 0xE0 \<le> b \<or> 0xF0 \<le> b" using assms(1) s by (simp split: if_splits)
  then have nc: "\<not> utf8_cont b" by (auto simp: utf8_cont_def word_le_nat_alt word_less_nat_alt)
  have "b < 0x80 \<or> 0xC2 \<le> b \<and> b < 0xE0 \<or> 0xE0 \<le> b \<and> b < 0xF0 \<or> 0xF0 \<le> b \<and> b < 0xF5"
    using assms(1) s by (simp split: if_splits)
  then consider (one) "b < 0x80" | (two) "\<not> b < 0x80" "0xC2 \<le> b" "b < 0xE0"
    | (three) "\<not> b < 0x80" "\<not> b < 0xE0" "0xE0 \<le> b" "b < 0xF0"
    | (four) "\<not> b < 0x80" "\<not> b < 0xE0" "\<not> b < 0xF0" "0xF0 \<le> b" "b < 0xF5"
    by (fastforce simp: word_le_nat_alt word_less_nat_alt)
  then show ?thesis
  proof cases
    case one
    then have "utf8_unit [b]" "utf8_valid bs" using nc assms(1) s by (auto simp: utf8_unit_def)
    then show ?thesis using s by (metis append_Cons append_Nil)
  next
    case two
    then have "case bs of c # r \<Rightarrow> utf8_cont c \<and> utf8_valid r | _ \<Rightarrow> False"
      using assms(1) s by simp
    then obtain c r where "bs = c # r" "utf8_cont c" "utf8_valid r"
      by (auto split: list.splits)
    then have "s = [b, c] @ r \<and> utf8_unit [b, c] \<and> utf8_valid r"
      using s two nc by (simp add: utf8_unit_def)
    then show ?thesis by blast
  next
    case three
    then have "case bs of c # d # r \<Rightarrow> utf8_second3 b c \<and> utf8_cont d \<and> utf8_valid r | _ \<Rightarrow> False"
      using assms(1) s by simp
    then obtain c d r where "bs = c # d # r" "utf8_second3 b c" "utf8_cont d" "utf8_valid r"
      by (auto split: list.splits)
    then have "s = [b, c, d] @ r \<and> utf8_unit [b, c, d] \<and> utf8_valid r"
      using s three nc by (simp add: utf8_unit_def utf8_second3_def)
    then show ?thesis by blast
  next
    case four
    then have "case bs of c # d # e # r \<Rightarrow> utf8_second4 b c \<and> utf8_cont d \<and> utf8_cont e \<and> utf8_valid r | _ \<Rightarrow> False"
      using assms(1) s by simp
    then obtain c d e r where "bs = c # d # e # r" "utf8_second4 b c" "utf8_cont d" "utf8_cont e" "utf8_valid r"
      by (auto split: list.splits)
    then have "s = [b, c, d, e] @ r \<and> utf8_unit [b, c, d, e] \<and> utf8_valid r"
      using s four nc by (simp add: utf8_unit_def utf8_second4_def)
    then show ?thesis by blast
  qed
qed

lemma utf8_induct [consumes 1, case_names Nil Unit]:
  assumes "utf8_valid s" and "P []"
    and step: "\<And>c r. utf8_unit c \<Longrightarrow> utf8_valid r \<Longrightarrow> P r \<Longrightarrow> P (c @ r)"
  shows "P s"
  using assms(1)
proof (induction s rule: length_induct)
  case (1 s)
  show ?case
  proof (cases "s = []")
    case True
    then show ?thesis using assms(2) by simp
  next
    case False
    with 1 obtain c r where cr: "s = c @ r" "utf8_unit c" "utf8_valid r"
      using utf8_valid_cases by blast
    then have "length r < length s" by (simp add: utf8_unit_def)
    with 1 cr show ?thesis by (simp add: step)
  qed
qed

lemma unit_inner_not_boundary:
  assumes "utf8_unit c" and "0 < i" and "i < length c"
  shows "\<not> is_char_boundary (c @ r) i"
proof -
  have "c ! i = tl c ! (i - 1)" "i - 1 < length (tl c)" using assms by (auto simp: nth_tl)
  then have "utf8_cont (c ! i)" using assms(1) by (metis nth_mem utf8_unit_def)
  then show ?thesis using assms by (simp add: is_char_boundary_def nth_append)
qed

lemma boundary_shift:
  "utf8_valid r \<Longrightarrow> length c \<le> i \<Longrightarrow> is_char_boundary (c @ r) i \<Longrightarrow> is_char_boundary r (i - length c)"
  by (auto simp: is_char_boundary_def nth_append)

lemma utf8_take_boundary:
  "utf8_valid s \<Longrightarrow> is_char_boundary s i \<Longrightarrow> utf8_valid (take i s)"
proof (induction s arbitrary: i rule: utf8_induct)
  case Nil
  then show ?case by simp
next
  case (Unit c r)
  consider "i = 0" | "0 < i" "i < length c" | "length c \<le> i" by linarith
  then show ?case
  proof cases
    case 2
    with unit_inner_not_boundary [OF Unit(1)] Unit.prems show ?thesis by simp
  next
    case 3
    then have "utf8_valid (take (i - length c) r)"
      using Unit boundary_shift by blast
    then show ?thesis using Unit(1) 3 by (simp add: utf8_unit_def)
  qed simp
qed

lemma boundary_near:
  "utf8_valid s \<Longrightarrow> e \<le> length s \<Longrightarrow> \<exists>d \<le> 3. d \<le> e \<and> is_char_boundary s (e - d)"
proof (induction s arbitrary: e rule: utf8_induct)
  case Nil
  then show ?case by (auto simp: is_char_boundary_def)
next
  case (Unit c r)
  show ?case
  proof (cases "e < length c")
    case True
    then show ?thesis using Unit(1)
      by (intro exI [of _ e]) (auto simp: is_char_boundary_def utf8_unit_def)
  next
    case False
    then have "e - length c \<le> length r" using Unit.prems by simp
    then obtain d where d: "d \<le> 3" "d \<le> e - length c" "is_char_boundary r (e - length c - d)"
      using Unit.IH by blast
    show ?thesis
    proof (cases "e - length c - d = 0")
      case True
      then have ed: "e - d = length c" using d False by linarith
      have "is_char_boundary (c @ r) (length c)"
      proof (cases "r = []")
        case True
        then show ?thesis by (simp add: is_char_boundary_def)
      next
        case False
        then obtain c' r' where "r = c' @ r'" "utf8_unit c'"
          using utf8_valid_cases [OF Unit(2)] by blast
        then show ?thesis
          by (cases c') (auto simp: is_char_boundary_def nth_append utf8_unit_def)
      qed
      then show ?thesis using d ed by (intro exI [of _ d]) auto
    next
      case nz: False
      then have "e - d - length c = e - length c - d" "length c < e - d" using d False by auto
      then have "is_char_boundary (c @ r) (e - d)"
        using d(3) nz by (auto simp: is_char_boundary_def nth_append)
      then show ?thesis using d by (intro exI [of _ d]) auto
    qed
  qed
qed

lemma clamp_end_boundary: "is_char_boundary s (clamp_end s e)"
proof (induction s e rule: clamp_end.induct)
  case (1 s e)
  show ?case
  proof (cases "0 < e \<and> \<not> is_char_boundary s e")
    case True
    then show ?thesis using 1 by (subst clamp_end.simps) simp
  next
    case False
    then show ?thesis by (subst clamp_end.simps) (auto simp: is_char_boundary_def)
  qed
qed

lemma clamp_end_le: "clamp_end s e \<le> e"
proof (induction s e rule: clamp_end.induct)
  case (1 s e)
  then show ?case by (subst clamp_end.simps) auto
qed

lemma clamp_end_ge: "is_char_boundary s b \<Longrightarrow> b \<le> e \<Longrightarrow> b \<le> clamp_end s e"
proof (induction s e rule: clamp_end.induct)
  case (1 s e)
  show ?case
  proof (cases "0 < e \<and> \<not> is_char_boundary s e")
    case True
    then have "b \<le> e - 1" using 1(2,3) by (cases "b = e") auto
    then show ?thesis using True 1 by (subst clamp_end.simps) simp
  next
    case False
    then show ?thesis using 1(3) by (subst clamp_end.simps) auto
  qed
qed

lemma clamp_valid: "utf8_valid s \<Longrightarrow> utf8_valid (clamp_blob_str s)"
  by (simp add: clamp_blob_str_def utf8_take_boundary clamp_end_boundary)

lemma length_clamp: "length (clamp_blob_str s) \<le> 65535"
  using clamp_end_le [of s 65535] by (auto simp: clamp_blob_str_def)

lemma clamp_id: "length s \<le> 65535 \<Longrightarrow> clamp_blob_str s = s"
  by (simp add: clamp_blob_str_def)

lemma clamp_keeps:
  assumes "utf8_valid s" and "65535 < length s"
  shows "65532 \<le> length (clamp_blob_str s)"
proof -
  obtain d where "d \<le> 3" "is_char_boundary s (65535 - d)"
    using boundary_near [OF assms(1), of 65535] assms(2) by auto
  then have "65535 - d \<le> clamp_end s 65535" by (intro clamp_end_ge) auto
  then show ?thesis
    using assms(2) clamp_end_le [of s 65535] \<open>d \<le> 3\<close> by (auto simp: clamp_blob_str_def)
qed

lemma clamp_nonempty: "utf8_valid s \<Longrightarrow> s \<noteq> [] \<Longrightarrow> clamp_blob_str s \<noteq> []"
  using clamp_keeps [of s] by (cases "length s \<le> 65535") (auto simp: clamp_id)

section \<open>The preference is a ranking\<close>

lemma prefers_name_rank: "prefers_name U cur cand \<longleftrightarrow> name_rank U cand < name_rank U cur"
  by (auto simp: prefers_name_def name_rank_def less_prod_def)

lemma name_rank_better: "name_rank U (better_name U a b) = min (name_rank U a) (name_rank U b)"
  by (auto simp: better_name_def prefers_name_rank min_def)

lemma name_rank_inject:
  "name_rank U a = name_rank U b \<Longrightarrow> \<not> is_degenerate_name U a \<Longrightarrow> a \<noteq> [] \<Longrightarrow> a = b"
  by (auto simp: name_rank_def split: if_splits)

end
