(* ===== verification/S2_Builder.thy ===== *)
theory S2_Builder
  imports S2_Names
begin

text \<open>
  The in-memory index builder (\<open>src/crates/scry2/src/writer.rs\<close>, \<^verbatim>\<open>IndexBuilder\<close>): its
  tables as a record, every operation that changes it, the merge of two builders and the rewriting
  of file ids into a local namespace. Strings are UTF-8 byte strings, the hash maps are association
  lists with distinct keys.
\<close>

type_synonym sym_meta = "u8 \<times> u8 \<times> bytes"

record index_builder =
  b_xrefs :: "xref_row list"
  b_syms :: "(u64 \<times> sym_meta) list"
  b_files :: "(u32 \<times> bytes) list"
  b_inherits :: "inh_row list"
  b_aliases :: "(u64 \<times> bytes) list"
  b_calls :: "call_row list"
  b_typed :: "(u64 \<times> bytes) list"
  b_childof :: "inh_row list"
  b_sig :: "(u64 \<times> bytes) list"

section \<open>Operations\<close>

definition builder_new :: index_builder where
  "builder_new = \<lparr> b_xrefs = [], b_syms = [], b_files = [], b_inherits = [], b_aliases = [],
     b_calls = [], b_typed = [], b_childof = [], b_sig = [] \<rparr>"

definition add_xref :: "u64 \<Rightarrow> u8 \<Rightarrow> u32 \<Rightarrow> u32 \<Rightarrow> index_builder \<Rightarrow> index_builder" where
  "add_xref s role file offset b = b\<lparr> b_xrefs := b_xrefs b @ [(s, role, file, offset)] \<rparr>"

text \<open>The metadata refinement shared by \<^verbatim>\<open>upsert_sym\<close>, \<^verbatim>\<open>merge_from\<close> and
  \<^verbatim>\<open>merge_syms_refine\<close>: a known kind or language is kept, the name is chosen by
  \<^verbatim>\<open>prefers_name\<close>.\<close>

fun refine_sym :: "unicode_tables \<Rightarrow> sym_meta \<Rightarrow> sym_meta \<Rightarrow> sym_meta" where
  "refine_sym U (k, l, n) (k', l', n') =
     (if k = kind_UNK then k' else k, if l = lang_UNK then l' else l,
      if prefers_name U n n' then n' else n)"

definition upsert_sym ::
    "unicode_tables \<Rightarrow> u64 \<Rightarrow> u8 \<Rightarrow> u8 \<Rightarrow> bytes \<Rightarrow> index_builder \<Rightarrow> index_builder" where
  "upsert_sym U s kind lang name b =
     b\<lparr> b_syms := hm_entry s (\<lambda>e. refine_sym U e (kind, lang, name)) (kind, lang, name) (b_syms b) \<rparr>"

definition set_sym_name :: "unicode_tables \<Rightarrow> u64 \<Rightarrow> bytes \<Rightarrow> index_builder \<Rightarrow> index_builder" where
  "set_sym_name U s name b =
     (if name = [] then b
      else b\<lparr> b_syms := hm_entry s
               (\<lambda>(k, l, n). (k, l, if prefers_name U n name then name else n))
               (kind_UNK, lang_UNK, name) (b_syms b) \<rparr>)"

definition mark_field :: "u64 \<Rightarrow> index_builder \<Rightarrow> index_builder" where
  "mark_field s b =
     b\<lparr> b_syms := hm_entry s (\<lambda>(k, l, n). (kind_FIELD, l, n)) (kind_FIELD, lang_UNK, []) (b_syms b) \<rparr>"

definition upsert_file :: "u32 \<Rightarrow> bytes \<Rightarrow> index_builder \<Rightarrow> index_builder" where
  "upsert_file file path b = b\<lparr> b_files := hm_or_insert file path (b_files b) \<rparr>"

definition add_inherit :: "u64 \<Rightarrow> u64 \<Rightarrow> index_builder \<Rightarrow> index_builder" where
  "add_inherit child parent b = b\<lparr> b_inherits := b_inherits b @ [(child, parent)] \<rparr>"

definition add_alias :: "u64 \<Rightarrow> bytes \<Rightarrow> index_builder \<Rightarrow> index_builder" where
  "add_alias s alias b =
     (if alias = [] then b else b\<lparr> b_aliases := b_aliases b @ [(s, alias)] \<rparr>)"

definition add_call :: "u64 \<Rightarrow> u64 \<Rightarrow> u8 \<Rightarrow> index_builder \<Rightarrow> index_builder" where
  "add_call caller callee role b = b\<lparr> b_calls := b_calls b @ [(caller, callee, role)] \<rparr>"

definition add_type :: "u64 \<Rightarrow> bytes \<Rightarrow> index_builder \<Rightarrow> index_builder" where
  "add_type s ty b = (if ty = [] then b else b\<lparr> b_typed := b_typed b @ [(s, ty)] \<rparr>)"

definition add_childof :: "u64 \<Rightarrow> u64 \<Rightarrow> index_builder \<Rightarrow> index_builder" where
  "add_childof child parent b = b\<lparr> b_childof := b_childof b @ [(parent, child)] \<rparr>"

definition add_sig :: "u64 \<Rightarrow> bytes \<Rightarrow> index_builder \<Rightarrow> index_builder" where
  "add_sig s sg b = (if sg = [] then b else b\<lparr> b_sig := b_sig b @ [(s, sg)] \<rparr>)"

definition delta_row_count :: "index_builder \<Rightarrow> nat" where
  "delta_row_count b =
     length (b_xrefs b) + length (b_inherits b) + length (b_calls b) + length (b_aliases b) +
     length (b_typed b) + length (b_childof b) + length (b_sig b)"

definition dedup_tables :: "index_builder \<Rightarrow> index_builder \<times> nat" where
  "dedup_tables b =
     (let b' = b\<lparr> b_xrefs := sort_dedup (b_xrefs b), b_inherits := sort_dedup (b_inherits b),
                  b_calls := sort_dedup (b_calls b), b_aliases := sort_dedup (b_aliases b),
                  b_typed := sort_dedup (b_typed b), b_childof := sort_dedup (b_childof b),
                  b_sig := sort_dedup (b_sig b) \<rparr>
      in (b', delta_row_count b'))"

text \<open>The two map loops of \<^verbatim>\<open>merge_from\<close>.\<close>

fun merge_syms_into ::
    "unicode_tables \<Rightarrow> (u64 \<times> sym_meta) list \<Rightarrow> (u64 \<times> sym_meta) list \<Rightarrow> (u64 \<times> sym_meta) list" where
  "merge_syms_into U m [] = m"
| "merge_syms_into U m ((k, v) # other) =
     merge_syms_into U (hm_entry k (\<lambda>e. refine_sym U e v) v m) other"

fun merge_files_into :: "(u32 \<times> bytes) list \<Rightarrow> (u32 \<times> bytes) list \<Rightarrow> (u32 \<times> bytes) list" where
  "merge_files_into m [] = m"
| "merge_files_into m ((k, v) # other) = merge_files_into (hm_or_insert k v m) other"

definition merge_from :: "unicode_tables \<Rightarrow> index_builder \<Rightarrow> index_builder \<Rightarrow> index_builder" where
  "merge_from U self other =
     self\<lparr> b_xrefs := b_xrefs self @ b_xrefs other,
           b_syms := merge_syms_into U (b_syms self) (b_syms other),
           b_files := merge_files_into (b_files self) (b_files other),
           b_inherits := b_inherits self @ b_inherits other,
           b_aliases := b_aliases self @ b_aliases other,
           b_calls := b_calls self @ b_calls other,
           b_typed := b_typed self @ b_typed other,
           b_childof := b_childof self @ b_childof other,
           b_sig := b_sig self @ b_sig other \<rparr>"

text \<open>\<^verbatim>\<open>localize_file_ids\<close>: the sorted distinct paths, their ranks, the id map, the rewritten
  xrefs and the rebuilt files table, which is returned sorted by id.\<close>

definition local_ids :: "(u32 \<times> bytes) list \<Rightarrow> (bytes \<times> u32) list" where
  "local_ids files =
     (let paths = sort_dedup (map snd files) in zip paths (map of_nat [0..<length paths]))"

definition g2l_map :: "(u32 \<times> bytes) list \<Rightarrow> (u32 \<times> u32) list" where
  "g2l_map files = map (\<lambda>(g, p). (g, the (map_of (local_ids files) p))) files"

fun collect_files :: "(u32 \<times> u32) list \<Rightarrow> (u32 \<times> bytes) list \<Rightarrow> (u32 \<times> bytes) list \<Rightarrow> (u32 \<times> bytes) list" where
  "collect_files g2l [] acc = acc"
| "collect_files g2l ((g, p) # files) acc =
     collect_files g2l files (hm_insert (the (map_of g2l g)) p acc)"

definition localize_file_ids :: "index_builder \<Rightarrow> index_builder \<times> (u32 \<times> bytes) list" where
  "localize_file_ids b =
     (let g2l = g2l_map (b_files b);
          xrefs' = map (\<lambda>(s, r, f, off). (s, r, case map_of g2l f of Some l \<Rightarrow> l | None \<Rightarrow> f, off)) (b_xrefs b);
          files' = collect_files g2l (b_files b) []
      in (b\<lparr> b_xrefs := xrefs', b_files := files' \<rparr>, sort_key fst files'))"

section \<open>The builder invariant\<close>

text \<open>What the types of the Rust struct and the guards of its operations keep: map keys are unique,
  every string is valid UTF-8, and no empty alias, type or signature is stored.\<close>

definition builder_ok :: "index_builder \<Rightarrow> bool" where
  "builder_ok b \<longleftrightarrow>
     hm_ok (b_syms b) \<and> hm_ok (b_files b) \<and>
     (\<forall>(s, k, l, n) \<in> set (b_syms b). utf8_valid n) \<and>
     (\<forall>(f, p) \<in> set (b_files b). utf8_valid p) \<and>
     (\<forall>(s, a) \<in> set (b_aliases b). a \<noteq> [] \<and> utf8_valid a) \<and>
     (\<forall>(s, t) \<in> set (b_typed b). t \<noteq> [] \<and> utf8_valid t) \<and>
     (\<forall>(s, g) \<in> set (b_sig b). g \<noteq> [] \<and> utf8_valid g)"

datatype builder_op =
    AddXref u64 u8 u32 u32 | UpsertSym u64 u8 u8 bytes | SetSymName u64 bytes | MarkField u64
  | UpsertFile u32 bytes | AddInherit u64 u64 | AddAlias u64 bytes | AddCall u64 u64 u8
  | AddType u64 bytes | AddChildof u64 u64 | AddSig u64 bytes | DedupTables
  | MergeFrom index_builder | LocalizeFileIds

fun builder_step :: "unicode_tables \<Rightarrow> builder_op \<Rightarrow> index_builder \<Rightarrow> index_builder" where
  "builder_step U (AddXref s r f off) b = add_xref s r f off b"
| "builder_step U (UpsertSym s k l n) b = upsert_sym U s k l n b"
| "builder_step U (SetSymName s n) b = set_sym_name U s n b"
| "builder_step U (MarkField s) b = mark_field s b"
| "builder_step U (UpsertFile f p) b = upsert_file f p b"
| "builder_step U (AddInherit c p) b = add_inherit c p b"
| "builder_step U (AddAlias s a) b = add_alias s a b"
| "builder_step U (AddCall c d r) b = add_call c d r b"
| "builder_step U (AddType s t) b = add_type s t b"
| "builder_step U (AddChildof c p) b = add_childof c p b"
| "builder_step U (AddSig s g) b = add_sig s g b"
| "builder_step U DedupTables b = fst (dedup_tables b)"
| "builder_step U (MergeFrom other) b = merge_from U b other"
| "builder_step U LocalizeFileIds b = fst (localize_file_ids b)"

text \<open>The strings an operation receives are Rust strings.\<close>

fun op_ok :: "builder_op \<Rightarrow> bool" where
  "op_ok (UpsertSym s k l n) = utf8_valid n"
| "op_ok (SetSymName s n) = utf8_valid n"
| "op_ok (UpsertFile f p) = utf8_valid p"
| "op_ok (AddAlias s a) = utf8_valid a"
| "op_ok (AddType s t) = utf8_valid t"
| "op_ok (AddSig s g) = utf8_valid g"
| "op_ok (MergeFrom other) = builder_ok other"
| "op_ok _ = True"

text \<open>Builders reachable from \<^verbatim>\<open>IndexBuilder::new\<close>.\<close>

inductive reachable_builder :: "unicode_tables \<Rightarrow> index_builder \<Rightarrow> bool" for U where
  new: "reachable_builder U builder_new"
| step: "reachable_builder U b \<Longrightarrow> op_ok opn \<Longrightarrow> reachable_builder U (builder_step U opn b)"

lemmas builder_op_defs =
  add_xref_def upsert_sym_def set_sym_name_def mark_field_def upsert_file_def add_inherit_def
  add_alias_def add_call_def add_type_def add_childof_def add_sig_def dedup_tables_def merge_from_def
  localize_file_ids_def

section \<open>Refinement of symbol metadata\<close>

lemma refine_sym_assoc: "refine_sym U (refine_sym U a b) c = refine_sym U a (refine_sym U b c)"
  by (cases a; cases b; cases c) (auto simp: prefers_name_rank)

lemma refine_sym_idem: "refine_sym U a a = a"
  by (cases a) (simp add: prefers_name_rank)

text \<open>Two refinements agree whatever their order, as long as known kinds and languages do not
  conflict and the two names are not distinct degenerate names.\<close>

definition compatible_meta :: "unicode_tables \<Rightarrow> sym_meta \<Rightarrow> sym_meta \<Rightarrow> bool" where
  "compatible_meta U a b =
     (case (a, b) of ((k, l, n), (k', l', n')) \<Rightarrow>
        (k = kind_UNK \<or> k' = kind_UNK \<or> k = k') \<and> (l = lang_UNK \<or> l' = lang_UNK \<or> l = l') \<and>
        (name_rank U n = name_rank U n' \<longrightarrow> n = n'))"

lemma refine_sym_commute: "compatible_meta U a b \<Longrightarrow> refine_sym U a b = refine_sym U b a"
  by (cases a; cases b) (auto simp: prefers_name_rank compatible_meta_def)

lemma map_of_merge_syms_into:
  "hm_ok other \<Longrightarrow> map_of (merge_syms_into U m other) k =
     (case (map_of m k, map_of other k) of
        (Some a, Some v) \<Rightarrow> Some (refine_sym U a v) | (None, y) \<Rightarrow> y | (x, None) \<Rightarrow> x)"
proof (induction U m other rule: merge_syms_into.induct)
  case (1 U m)
  then show ?case by (simp split: option.splits)
next
  case (2 U m k' v other)
  then show ?case
    by (auto simp: dom_map_of_conv_image_fst [symmetric] split: option.splits)
qed

lemma map_of_merge_files_into:
  "hm_ok other \<Longrightarrow> map_of (merge_files_into m other) k = (map_of other ++ map_of m) k"
proof (induction m other rule: merge_files_into.induct)
  case (1 m)
  then show ?case by simp
next
  case (2 m k' v other)
  then show ?case
    by (auto simp: map_add_def dom_map_of_conv_image_fst [symmetric] split: option.splits)
qed

lemma hm_ok_merge_syms_into [simp]: "hm_ok m \<Longrightarrow> hm_ok (merge_syms_into U m other)"
  by (induction U m other rule: merge_syms_into.induct) simp_all

lemma hm_ok_merge_files_into [simp]: "hm_ok m \<Longrightarrow> hm_ok (merge_files_into m other)"
  by (induction m other rule: merge_files_into.induct) simp_all

abbreviation names_ok :: "(u64 \<times> sym_meta) list \<Rightarrow> bool" where
  "names_ok m \<equiv> \<forall>(s, k, l, n) \<in> set m. utf8_valid n"

abbreviation paths_ok :: "(u32 \<times> bytes) list \<Rightarrow> bool" where
  "paths_ok m \<equiv> \<forall>(f, p) \<in> set m. utf8_valid p"

lemma names_ok_entry:
  assumes "names_ok m" and "utf8_valid (snd (snd v))"
    and "\<And>k l n. utf8_valid n \<Longrightarrow> utf8_valid (snd (snd (f (k, l, n))))"
  shows "names_ok (hm_entry s f v m)"
proof -
  have "\<forall>(k, x) \<in> set (hm_entry s f v m). utf8_valid (snd (snd x))"
    by (rule hm_entry_all) (use assms in \<open>auto simp: split_beta\<close>)
  then show ?thesis by (simp add: split_beta)
qed

lemma names_ok_merge: "names_ok m \<Longrightarrow> names_ok other \<Longrightarrow> names_ok (merge_syms_into U m other)"
proof (induction U m other rule: merge_syms_into.induct)
  case (2 U m k v other)
  obtain a b c where v: "v = (a, b, c)" by (cases v)
  have "names_ok (hm_entry k (\<lambda>e. refine_sym U e v) v m)"
    by (rule names_ok_entry) (use 2(2,3) in \<open>auto simp: v\<close>)
  with 2 show ?case by simp
qed simp

lemma paths_ok_entry: "paths_ok m \<Longrightarrow> utf8_valid p \<Longrightarrow> paths_ok (hm_or_insert f p m)"
  using hm_entry_all [of m "\<lambda>_. utf8_valid" f p] by simp

lemma paths_ok_merge: "paths_ok m \<Longrightarrow> paths_ok other \<Longrightarrow> paths_ok (merge_files_into m other)"
proof (induction m other rule: merge_files_into.induct)
  case (2 m k v other)
  have "paths_ok (hm_or_insert k v m)"
    by (rule paths_ok_entry) (use 2(2,3) in auto)
  with 2 show ?case by simp
qed simp

lemma collect_files_inv:
  "hm_ok acc \<Longrightarrow> paths_ok acc \<Longrightarrow> paths_ok files \<Longrightarrow>
     hm_ok (collect_files g2l files acc) \<and> paths_ok (collect_files g2l files acc)"
proof (induction g2l files acc rule: collect_files.induct)
  case (2 g2l g p files acc)
  have "paths_ok (hm_insert (the (map_of g2l g)) p acc)"
    by (rule hm_entry_all) (use 2(3,4) in auto)
  with 2 show ?case by simp
qed simp

section \<open>Every operation keeps the invariant\<close>

lemma builder_ok_new: "builder_ok builder_new"
  by (simp add: builder_ok_def builder_new_def)

lemma builder_ok_upsert_sym: "builder_ok b \<Longrightarrow> utf8_valid n \<Longrightarrow> builder_ok (upsert_sym U s k l n b)"
  using names_ok_entry [of "b_syms b" "(k, l, n)" "\<lambda>e. refine_sym U e (k, l, n)" s]
  by (simp add: builder_ok_def upsert_sym_def)

lemma builder_ok_set_sym_name: "builder_ok b \<Longrightarrow> utf8_valid n \<Longrightarrow> builder_ok (set_sym_name U s n b)"
  using names_ok_entry [of "b_syms b" "(kind_UNK, lang_UNK, n)"
      "\<lambda>(k, l, m). (k, l, if prefers_name U m n then n else m)" s]
  by (simp add: builder_ok_def set_sym_name_def)

lemma builder_ok_mark_field: "builder_ok b \<Longrightarrow> builder_ok (mark_field s b)"
  using names_ok_entry [of "b_syms b" "(kind_FIELD, lang_UNK, [])" "\<lambda>(k, l, n). (kind_FIELD, l, n)" s]
  by (simp add: builder_ok_def mark_field_def)

lemma builder_ok_upsert_file: "builder_ok b \<Longrightarrow> utf8_valid p \<Longrightarrow> builder_ok (upsert_file f p b)"
  using paths_ok_entry [of "b_files b" p f] by (simp add: builder_ok_def upsert_file_def)

lemma builder_ok_merge_from: "builder_ok b \<Longrightarrow> builder_ok other \<Longrightarrow> builder_ok (merge_from U b other)"
  using names_ok_merge [of "b_syms b" "b_syms other" U] paths_ok_merge [of "b_files b" "b_files other"]
  by (auto simp: builder_ok_def merge_from_def)

lemma builder_ok_localize: "builder_ok b \<Longrightarrow> builder_ok (fst (localize_file_ids b))"
proof -
  assume ok: "builder_ok b"
  let ?f = "collect_files (g2l_map (b_files b)) (b_files b) []"
  have "hm_ok ?f \<and> paths_ok ?f"
    by (rule collect_files_inv) (use ok in \<open>simp_all add: builder_ok_def\<close>)
  moreover have "fst (localize_file_ids b) = b\<lparr> b_xrefs := b_xrefs (fst (localize_file_ids b)), b_files := ?f \<rparr>"
    by (simp add: localize_file_ids_def Let_def)
  ultimately show ?thesis
    using ok unfolding builder_ok_def by (metis (no_types, lifting) index_builder.select_convs
        index_builder.surjective index_builder.update_convs(1,3))
qed

lemma builder_ok_step: "builder_ok b \<Longrightarrow> op_ok opn \<Longrightarrow> builder_ok (builder_step U opn b)"
proof (cases opn)
  case (UpsertSym s k l n)
  then show "builder_ok b \<Longrightarrow> op_ok opn \<Longrightarrow> ?thesis" by (simp add: builder_ok_upsert_sym)
next
  case (SetSymName s n)
  then show "builder_ok b \<Longrightarrow> op_ok opn \<Longrightarrow> ?thesis" by (simp add: builder_ok_set_sym_name)
next
  case (MarkField s)
  then show "builder_ok b \<Longrightarrow> op_ok opn \<Longrightarrow> ?thesis" by (simp add: builder_ok_mark_field)
next
  case (UpsertFile f p)
  then show "builder_ok b \<Longrightarrow> op_ok opn \<Longrightarrow> ?thesis" by (simp add: builder_ok_upsert_file)
next
  case (MergeFrom other)
  then show "builder_ok b \<Longrightarrow> op_ok opn \<Longrightarrow> ?thesis" by (simp add: builder_ok_merge_from)
next
  case LocalizeFileIds
  then show "builder_ok b \<Longrightarrow> op_ok opn \<Longrightarrow> ?thesis" by (simp add: builder_ok_localize)
qed (auto simp: builder_ok_def add_xref_def add_inherit_def add_alias_def add_call_def add_type_def
      add_childof_def add_sig_def dedup_tables_def Let_def)

lemma reachable_builder_ok: "reachable_builder U b \<Longrightarrow> builder_ok b"
  by (induction rule: reachable_builder.induct) (auto simp: builder_ok_new builder_ok_step)

end
