(* ===== verification/S2_Trigram.thy ===== *)
theory S2_Trigram
  imports S2_Names
begin

text \<open>
  The build side of the trigram substring index (\<open>src/crates/scry2/src/writer.rs\<close>,
  \<^verbatim>\<open>build_trigram_index\<close>): the two passes over the alpha-sorted names table, the dictionary and
  the block-skip regions of gap-delta varints. Writes into the postings buffer are bounds-checked,
  so \<open>None\<close> is a panic of the build.
\<close>

type_synonym tri = "u8 \<times> u8 \<times> u8"

definition to_ascii_lowercase :: "u8 \<Rightarrow> u8" where
  "to_ascii_lowercase b = (if 0x41 \<le> b \<and> b \<le> 0x5A then b + 0x20 else b)"

fun windows3 :: "bytes \<Rightarrow> tri list" where
  "windows3 (a # b # c # r) = (a, b, c) # windows3 (b # c # r)"
| "windows3 _ = []"

fun tri_bytes :: "tri \<Rightarrow> bytes" where
  "tri_bytes (a, b, c) = [a, b, c]"

text \<open>\<^verbatim>\<open>&blob[off..off + len]\<close> for a name row.\<close>

fun name_slice :: "bytes \<Rightarrow> name_row \<Rightarrow> bytes option" where
  "name_slice blob (off, len, s) = slice_of blob (unat off) (unat off + unat len)"

text \<open>The distinct consecutive trigrams of one name, as \<^verbatim>\<open>visit\<close> hands them on
  (\<^verbatim>\<open>last_tri\<close> skips a window equal to the one before).\<close>

definition name_trigrams :: "bytes \<Rightarrow> tri list" where
  "name_trigrams s =
     (if length s < 3 then [] else remdups_adj (windows3 (map to_ascii_lowercase s)))"

fun visit_from :: "nat \<Rightarrow> name_row list \<Rightarrow> bytes \<Rightarrow> (tri \<times> u32) list option" where
  "visit_from i [] blob = Some []"
| "visit_from i (row # rows) blob =
     (case name_slice blob row of
        None \<Rightarrow> None
      | Some s \<Rightarrow>
          (case visit_from (Suc i) rows blob of
             None \<Rightarrow> None
           | Some evs \<Rightarrow> Some (map (\<lambda>t. (t, of_nat i)) (name_trigrams s) @ evs)))"

definition visit :: "name_row list \<Rightarrow> bytes \<Rightarrow> (tri \<times> u32) list option" where
  "visit by_name blob = visit_from 0 (take (min (length by_name) 4294967295) by_name) blob"

section \<open>Pass 1\<close>

text \<open>\<^verbatim>\<open>Acc { count, block_bytes, last }\<close>.\<close>

type_synonym acc = "nat \<times> nat \<times> u32"

definition delta_of :: "nat \<Rightarrow> u32 \<Rightarrow> u32 \<Rightarrow> u32" where
  "delta_of n prev row = (if n mod TRIGRAM_BLOCK = 0 then row else row - prev)"

fun acc_visit :: "u32 \<Rightarrow> acc \<Rightarrow> acc" where
  "acc_visit row (cnt, block_bytes, prev) =
     (if cnt \<noteq> 0 \<and> prev = row then (cnt, block_bytes, prev)
      else (cnt + 1, block_bytes + varint_len (delta_of cnt prev row), row))"

fun pass1 :: "(tri \<times> u32) list \<Rightarrow> (tri \<times> acc) list \<Rightarrow> (tri \<times> acc) list" where
  "pass1 [] acc = acc"
| "pass1 ((t, row) # evs) acc =
     pass1 evs (hm_entry t (acc_visit row) (acc_visit row (0, 0, - 1)) acc)"

section \<open>Region offsets and the dictionary\<close>

definition n_blocks :: "nat \<Rightarrow> nat" where
  "n_blocks cnt = (cnt + TRIGRAM_BLOCK - 1) div TRIGRAM_BLOCK"

definition enc_trigram :: "tri \<times> nat \<times> nat \<times> nat \<Rightarrow> bytes" where
  "enc_trigram r = (case r of (t, post_off, post_len, cnt) \<Rightarrow>
     tri_bytes t @ [0] @ be64 (of_nat post_off) @ be32 (of_nat post_len) @ be32 (of_nat cnt))"

text \<open>One dictionary row per key in order; the prev component is \<^verbatim>\<open>total\<close>.\<close>

fun assign_regions ::
    "(tri \<times> acc) list \<Rightarrow> tri list \<Rightarrow> nat \<Rightarrow> (tri \<times> nat \<times> nat \<times> nat) list \<times> nat" where
  "assign_regions acc [] tot = ([], tot)"
| "assign_regions acc (t # ks) tot =
     (let (cnt, block_bytes, prev) = the (map_of acc t);
          region_len = n_blocks cnt * SKIP_ENTRY + block_bytes;
          (rows, tot') = assign_regions acc ks (tot + region_len)
      in ((t, tot, region_len, cnt) # rows, tot'))"

section \<open>Pass 2\<close>

definition copy_at :: "bytes \<Rightarrow> nat \<Rightarrow> bytes \<Rightarrow> bytes option" where
  "copy_at buf i bs =
     (if i + length bs \<le> length buf then Some (take i buf @ bs @ drop (i + length bs) buf) else None)"

function put_varint :: "bytes \<Rightarrow> nat \<Rightarrow> u32 \<Rightarrow> (bytes \<times> nat) option" where
  "put_varint buf cursor v =
     (if cursor < length buf then
        (if 0x80 \<le> v then put_varint (buf[cursor := ucast v OR 0x80]) (cursor + 1) (drop_bit 7 v)
         else Some (buf[cursor := ucast v], cursor + 1))
      else None)"
  by pat_completeness auto
termination
  by (relation "measure (\<lambda>(buf, cursor, v). unat v)") (simp_all add: unat_shr7_less)

declare put_varint.simps [simp del]

text \<open>\<^verbatim>\<open>W { written, block_cursor, last }\<close>; \<open>regions\<close> gives each trigram its region start and
  final count (\<^verbatim>\<open>region_of\<close> and \<^verbatim>\<open>counts\<close>).\<close>

type_synonym wstate = "nat \<times> nat \<times> u32"

text \<open>Writing one posting: the block offset when a block starts, the gap-delta varint, and the
  block's running maximum.\<close>

definition write_posting :: "nat \<Rightarrow> nat \<Rightarrow> nat \<Rightarrow> u32 \<Rightarrow> u32 \<Rightarrow> bytes \<Rightarrow> (bytes \<times> nat) option" where
  "write_posting start written cursor prev row post = do {
     let skip_entry = start + written div TRIGRAM_BLOCK * SKIP_ENTRY;
     post1 \<leftarrow> (if written mod TRIGRAM_BLOCK = 0
               then copy_at post (skip_entry + 4) (be32 (of_nat (cursor - start)))
               else Some post);
     (post2, cursor') \<leftarrow> put_varint post1 cursor (delta_of written prev row);
     post3 \<leftarrow> copy_at post2 skip_entry (be32 row);
     Some (post3, cursor')
   }"

definition pass2_step ::
    "(tri \<times> nat \<times> nat \<times> nat) list \<Rightarrow> tri \<Rightarrow> u32 \<Rightarrow> bytes \<times> (tri \<times> wstate) list \<Rightarrow>
       (bytes \<times> (tri \<times> wstate) list) option" where
  "pass2_step regions t row st =
     (case (map_of regions t, st) of
        (None, _) \<Rightarrow> None
      | (Some (start, _, cnt), (post, wst)) \<Rightarrow>
          (let (written, cursor, prev) =
                 (case map_of wst t of
                    Some w \<Rightarrow> w | None \<Rightarrow> (0, start + n_blocks cnt * SKIP_ENTRY, - 1))
           in if written \<noteq> 0 \<and> prev = row then Some (post, wst)
              else map_option (\<lambda>(post', cursor'). (post', hm_insert t (written + 1, cursor', row) wst))
                     (write_posting start written cursor prev row post)))"

fun pass2 ::
    "(tri \<times> nat \<times> nat \<times> nat) list \<Rightarrow> (tri \<times> u32) list \<Rightarrow> bytes \<times> (tri \<times> wstate) list \<Rightarrow>
       (bytes \<times> (tri \<times> wstate) list) option" where
  "pass2 regions [] st = Some st"
| "pass2 regions ((t, row) # evs) st =
     (case pass2_step regions t row st of None \<Rightarrow> None | Some st' \<Rightarrow> pass2 regions evs st')"

definition build_trigram_index :: "name_row list \<Rightarrow> bytes \<Rightarrow> (bytes \<times> bytes) option" where
  "build_trigram_index by_name blob = do {
     evs \<leftarrow> visit by_name blob;
     let acc = pass1 evs [];
     let keys = sort (map fst acc);
     let (rows, tot) = assign_regions acc keys 0;
     (post, _) \<leftarrow> pass2 rows evs (replicate tot 0, []);
     Some (concat (map enc_trigram rows), post)
   }"

end
