(* ===== verification/S2_Writer.thy ===== *)
theory S2_Writer
  imports S2_Builder S2_Trigram
begin

text \<open>
  \<^verbatim>\<open>IndexBuilder::finish\<close> (\<open>src/crates/scry2/src/writer.rs\<close>): sorting and deduplicating the
  tables, laying the strings out in the blob, the section layout, and the sequence of positioned
  writes that produces the file. The file is the byte string on disk after \<^verbatim>\<open>set_len\<close>; writing to
  the temporary name and renaming it are not modelled.
\<close>

section \<open>Tables ready to be written\<close>

record tables =
  t_xrefs :: "xref_row list"
  t_syms :: "sym_row list"
  t_names :: "name_row list"
  t_files :: "file_row list"
  t_inh :: "inh_row list"
  t_inhrev :: "inh_row list"
  t_calls :: "call_row list"
  t_crev :: "call_row list"
  t_typed :: "type_row list"
  t_childrev :: "inh_row list"
  t_sig :: "type_row list"
  t_blob :: bytes
  t_dict :: bytes
  t_post :: bytes

text \<open>Appending clamped strings to the blob: the loops that push \<^verbatim>\<open>(blob.len(), s.len())\<close> and
  extend the blob.\<close>

fun lay_strings :: "bytes \<Rightarrow> bytes list \<Rightarrow> (u64 \<times> u16) list \<times> bytes" where
  "lay_strings blob [] = ([], blob)"
| "lay_strings blob (s # ss) =
     (let c = clamp_blob_str s;
          (ps, blob') = lay_strings (blob @ c) ss
      in ((of_nat (length blob), of_nat (length c)) # ps, blob'))"

text \<open>The collapse of a \<open>(sym, string)\<close>-sorted table to its first row per symbol.\<close>

fun first_per_sym :: "u64 option \<Rightarrow> (u64 \<times> bytes) list \<Rightarrow> (u64 \<times> bytes) list" where
  "first_per_sym lst [] = []"
| "first_per_sym lst ((s, t) # r) =
     (if lst = Some s then first_per_sym lst r else (s, t) # first_per_sym (Some s) r)"

text \<open>The bytes of a name row; the rows the writer sorts point into the blob.\<close>

fun name_bytes :: "bytes \<Rightarrow> name_row \<Rightarrow> bytes" where
  "name_bytes blob (off, len, s) = take (unat len) (drop (unat off) blob)"

fun name_sym :: "name_row \<Rightarrow> u64" where
  "name_sym (off, len, s) = s"

definition sort_names :: "bytes \<Rightarrow> name_row list \<Rightarrow> name_row list" where
  "sort_names blob rows = sort_key (\<lambda>r. (name_bytes blob r, name_sym r)) rows"

definition swap_inh :: "inh_row list \<Rightarrow> inh_row list" where
  "swap_inh rows = sort (map (\<lambda>(c, p). (p, c)) rows)"

definition swap_calls :: "call_row list \<Rightarrow> call_row list" where
  "swap_calls rows = sort (map (\<lambda>(caller, callee, role). (callee, caller, role)) rows)"

definition sorted_syms :: "index_builder \<Rightarrow> (u64 \<times> sym_meta) list" where
  "sorted_syms b = sort_key fst (b_syms b)"

definition var_syms :: "(u64 \<times> sym_meta) list \<Rightarrow> u64 list" where
  "var_syms syms = map fst (filter (\<lambda>(s, k, l, n). k = kind_VARIABLE) syms)"

definition kept_aliases :: "(u64 \<times> sym_meta) list \<Rightarrow> (u64 \<times> bytes) list \<Rightarrow> (u64 \<times> bytes) list" where
  "kept_aliases syms aliases = sort_dedup (filter (\<lambda>(s, a). s \<notin> set (var_syms syms)) aliases)"

text \<open>The logical content of a file, before its strings are laid out: the sorted tables of
  \<^verbatim>\<open>finish\<close>, or the merged tables of \<^verbatim>\<open>write_merged_snapshot\<close>.\<close>

record content =
  c_xrefs :: "xref_row list"
  c_syms :: "(u64 \<times> sym_meta) list"
  c_aliases :: "(u64 \<times> bytes) list"
  c_files :: "(u32 \<times> bytes) list"
  c_inh :: "inh_row list"
  c_calls :: "call_row list"
  c_typed :: "(u64 \<times> bytes) list"
  c_childrev :: "inh_row list"
  c_sig :: "(u64 \<times> bytes) list"

definition finish_content :: "index_builder \<Rightarrow> content" where
  "finish_content b =
     \<lparr> c_xrefs = sort_dedup (b_xrefs b), c_syms = sorted_syms b,
       c_aliases = kept_aliases (sorted_syms b) (b_aliases b), c_files = sort_key fst (b_files b),
       c_inh = sort_dedup (b_inherits b), c_calls = sort_dedup (b_calls b),
       c_typed = first_per_sym None (sort_dedup (b_typed b)),
       c_childrev = sort_dedup (b_childof b),
       c_sig = first_per_sym None (sort_dedup (b_sig b)) \<rparr>"

text \<open>The string layout, the string-bearing rows and the trigram index.\<close>

definition layout_tables :: "content \<Rightarrow> tables option" where
  "layout_tables c =
     (let (name_pos, blob1) = lay_strings [] (map (\<lambda>(s, k, l, n). n) (c_syms c));
          (alias_pos, blob2) = lay_strings blob1 (map snd (c_aliases c));
          (path_pos, blob3) = lay_strings blob2 (map snd (c_files c));
          (typed_pos, blob4) = lay_strings blob3 (map snd (c_typed c));
          (sig_pos, blob5) = lay_strings blob4 (map snd (c_sig c));
          by_name = sort_names blob5
            (map2 (\<lambda>(s, m) (off, len). (off, len, s)) (c_syms c) name_pos @
             map2 (\<lambda>(s, a) (off, len). (off, len, s)) (c_aliases c) alias_pos)
      in do {
        (dict, post) \<leftarrow> build_trigram_index by_name blob5;
        Some \<lparr> t_xrefs = c_xrefs c,
               t_syms = map2 (\<lambda>(s, k, l, n) (off, len). (s, k, l, off, len)) (c_syms c) name_pos,
               t_names = by_name,
               t_files = map2 (\<lambda>(f, p) (off, len). (f, off, len)) (c_files c) path_pos,
               t_inh = c_inh c, t_inhrev = swap_inh (c_inh c),
               t_calls = c_calls c, t_crev = swap_calls (c_calls c),
               t_typed = map2 (\<lambda>(s, t) (off, len). (s, off, len)) (c_typed c) typed_pos,
               t_childrev = c_childrev c,
               t_sig = map2 (\<lambda>(s, t) (off, len). (s, off, len)) (c_sig c) sig_pos,
               t_blob = blob5, t_dict = dict, t_post = post \<rparr>
      })"

definition finish_tables :: "index_builder \<Rightarrow> tables option" where
  "finish_tables b = layout_tables (finish_content b)"

section \<open>Section layout and the file\<close>

text \<open>The fourteen sections in file order.\<close>

definition sections :: "tables \<Rightarrow> bytes list" where
  "sections t =
     [concat (map enc_xref (t_xrefs t)), concat (map enc_sym (t_syms t)),
      concat (map enc_name (t_names t)), concat (map enc_file (t_files t)),
      concat (map enc_inh (t_inh t)), concat (map enc_inh (t_inhrev t)),
      concat (map enc_call (t_calls t)), concat (map enc_call (t_crev t)),
      concat (map enc_type (t_typed t)), concat (map enc_inh (t_childrev t)),
      concat (map enc_type (t_sig t)), t_blob t, t_dict t, t_post t]"

text \<open>Each section starts at \<^verbatim>\<open>pad_up\<close> of the end of the one before, in u64 arithmetic.\<close>

fun section_offsets :: "u64 \<Rightarrow> bytes list \<Rightarrow> u64 list" where
  "section_offsets start [] = []"
| "section_offsets start (d # ds) =
     (let off = pad_up start in off # section_offsets (off + of_nat (length d)) ds)"

definition make_header :: "tables \<Rightarrow> header" where
  "make_header t =
     (let off = (\<lambda>i. section_offsets (of_nat HEADER_LEN) (sections t) ! i)
      in header_default\<lparr> magic := MAGIC, version := VERSION,
           xrefs_off := off 0, xrefs_n := of_nat (length (t_xrefs t)),
           syms_off := off 1, syms_n := of_nat (length (t_syms t)),
           names_off := off 2, names_n := of_nat (length (t_names t)),
           files_off := off 3, files_n := of_nat (length (t_files t)),
           inh_off := off 4, inh_n := of_nat (length (t_inh t)),
           inhrev_off := off 5, inhrev_n := of_nat (length (t_inhrev t)),
           calls_off := off 6, calls_n := of_nat (length (t_calls t)),
           crev_off := off 7, crev_n := of_nat (length (t_crev t)),
           typed_off := off 8, typed_n := of_nat (length (t_typed t)),
           childrev_off := off 9, childrev_n := of_nat (length (t_childrev t)),
           sig_off := off 10, sig_n := of_nat (length (t_sig t)),
           blob_off := off 11, blob_len := of_nat (length (t_blob t)),
           trigram_dict_off := off 12, trigram_dict_n := of_nat (length (t_dict t) div TRIGRAM_LEN),
           trigram_post_off := off 13, trigram_post_len := of_nat (length (t_post t)) \<rparr>)"

text \<open>A positioned write: a seek past the end materialises zeros only when bytes follow.\<close>

definition write_at :: "bytes \<Rightarrow> nat \<times> bytes \<Rightarrow> bytes" where
  "write_at f w =
     (case w of (off, d) \<Rightarrow>
        if d = [] then f
        else take off (f @ replicate (off - length f) 0) @ d @ drop (off + length d) f)"

definition set_len :: "bytes \<Rightarrow> nat \<Rightarrow> bytes" where
  "set_len f n = take n (f @ replicate (n - length f) 0)"

definition write_tables :: "tables \<Rightarrow> bytes" where
  "write_tables t =
     (let offs = section_offsets (of_nat HEADER_LEN) (sections t);
          h = make_header t;
          f = foldl write_at [] ((0, header_bytes h) # zip (map unat offs) (sections t))
      in set_len f (unat (trigram_post_off h + trigram_post_len h)))"

definition finish :: "index_builder \<Rightarrow> bytes option" where
  "finish b = map_option write_tables (finish_tables b)"

end
