(* ===== verification/S2_Reader.thy ===== *)
theory S2_Reader
  imports S2_Trigram
begin

text \<open>
  The reader (\<open>src/crates/scry2/src/reader.rs\<close>): opening and validating a mapped file, the raw
  section slices, every lookup by name, symbol, file or edge, and the whole-table iterators. A
  slice or index out of range is the panic \<open>None\<close>; an \<^verbatim>\<open>Option\<close> result of the source is the
  inner option.
\<close>

record index =
  ix_map :: bytes
  ix_hdr :: header

section \<open>Opening\<close>

datatype section_name =
    Sec_xrefs | Sec_syms | Sec_names | Sec_files | Sec_inh | Sec_calls | Sec_crev | Sec_typed
  | Sec_childrev | Sec_inhrev | Sec_sig | Sec_trigram_dict | Sec_trigram_post | Sec_blob

datatype open_error =
    TooSmall nat | BadMagic | UnsupportedVersion u32 | SizeOverflow section_name
  | Exceeds section_name u64 u64 nat

definition checked_mul :: "u64 \<Rightarrow> u64 \<Rightarrow> u64 option" where
  "checked_mul a b = (if unat a * unat b < 2 ^ 64 then Some (a * b) else None)"

definition checked_add :: "u64 \<Rightarrow> u64 \<Rightarrow> u64 option" where
  "checked_add a b = (if unat a + unat b < 2 ^ 64 then Some (a + b) else None)"

definition header_sections :: "header \<Rightarrow> (section_name \<times> u64 \<times> u64 \<times> nat) list" where
  "header_sections h =
     [(Sec_xrefs, xrefs_off h, xrefs_n h, XREF_LEN), (Sec_syms, syms_off h, syms_n h, SYM_LEN),
      (Sec_names, names_off h, names_n h, NAME_LEN), (Sec_files, files_off h, files_n h, FILE_LEN),
      (Sec_inh, inh_off h, inh_n h, INH_LEN), (Sec_calls, calls_off h, calls_n h, CALL_LEN),
      (Sec_crev, crev_off h, crev_n h, CALL_LEN), (Sec_typed, typed_off h, typed_n h, TYPE_LEN),
      (Sec_childrev, childrev_off h, childrev_n h, INH_LEN),
      (Sec_inhrev, inhrev_off h, inhrev_n h, INH_LEN), (Sec_sig, sig_off h, sig_n h, TYPE_LEN),
      (Sec_trigram_dict, trigram_dict_off h, trigram_dict_n h, TRIGRAM_LEN),
      (Sec_trigram_post, trigram_post_off h, trigram_post_len h, 1),
      (Sec_blob, blob_off h, blob_len h, 1)]"

fun check_sections :: "nat \<Rightarrow> (section_name \<times> u64 \<times> u64 \<times> nat) list \<Rightarrow> open_error option" where
  "check_sections map_len [] = None"
| "check_sections map_len ((name, off, n, stride) # rest) =
     (case Option.bind (checked_mul n (of_nat stride)) (checked_add off) of
        None \<Rightarrow> Some (SizeOverflow name)
      | Some e \<Rightarrow>
          if map_len < unat e then Some (Exceeds name off e map_len)
          else check_sections map_len rest)"

definition index_open :: "bytes \<Rightarrow> open_error + index" where
  "index_open m =
     (if length m < HEADER_LEN then Inl (TooSmall (length m))
      else let hdr = header_of_bytes m in
        if magic hdr \<noteq> MAGIC then Inl BadMagic
        else if version hdr < MIN_VERSION \<or> VERSION < version hdr
          then Inl (UnsupportedVersion (version hdr))
        else case check_sections (length m) (header_sections hdr) of
          Some e \<Rightarrow> Inl e
        | None \<Rightarrow> Inr \<lparr> ix_map = m, ix_hdr = hdr \<rparr>)"

section \<open>Raw section slices\<close>

definition section_slice :: "index \<Rightarrow> u64 \<Rightarrow> u64 \<Rightarrow> nat \<Rightarrow> bytes option" where
  "section_slice ix off n len = slice_of (ix_map ix) (unat off) (unat off + unat n * len)"

definition xrefs_slice :: "index \<Rightarrow> bytes option" where
  "xrefs_slice ix = section_slice ix (xrefs_off (ix_hdr ix)) (xrefs_n (ix_hdr ix)) XREF_LEN"
definition syms_slice :: "index \<Rightarrow> bytes option" where
  "syms_slice ix = section_slice ix (syms_off (ix_hdr ix)) (syms_n (ix_hdr ix)) SYM_LEN"
definition names_slice :: "index \<Rightarrow> bytes option" where
  "names_slice ix = section_slice ix (names_off (ix_hdr ix)) (names_n (ix_hdr ix)) NAME_LEN"
definition files_slice :: "index \<Rightarrow> bytes option" where
  "files_slice ix = section_slice ix (files_off (ix_hdr ix)) (files_n (ix_hdr ix)) FILE_LEN"
definition inh_slice :: "index \<Rightarrow> bytes option" where
  "inh_slice ix = section_slice ix (inh_off (ix_hdr ix)) (inh_n (ix_hdr ix)) INH_LEN"
definition calls_slice :: "index \<Rightarrow> bytes option" where
  "calls_slice ix = section_slice ix (calls_off (ix_hdr ix)) (calls_n (ix_hdr ix)) CALL_LEN"
definition crev_slice :: "index \<Rightarrow> bytes option" where
  "crev_slice ix = section_slice ix (crev_off (ix_hdr ix)) (crev_n (ix_hdr ix)) CALL_LEN"
definition typed_slice :: "index \<Rightarrow> bytes option" where
  "typed_slice ix = section_slice ix (typed_off (ix_hdr ix)) (typed_n (ix_hdr ix)) TYPE_LEN"
definition inhrev_slice :: "index \<Rightarrow> bytes option" where
  "inhrev_slice ix = section_slice ix (inhrev_off (ix_hdr ix)) (inhrev_n (ix_hdr ix)) INH_LEN"
definition childrev_slice :: "index \<Rightarrow> bytes option" where
  "childrev_slice ix = section_slice ix (childrev_off (ix_hdr ix)) (childrev_n (ix_hdr ix)) INH_LEN"
definition sig_slice :: "index \<Rightarrow> bytes option" where
  "sig_slice ix = section_slice ix (sig_off (ix_hdr ix)) (sig_n (ix_hdr ix)) TYPE_LEN"
definition blob_slice :: "index \<Rightarrow> bytes option" where
  "blob_slice ix = section_slice ix (blob_off (ix_hdr ix)) (blob_len (ix_hdr ix)) 1"
definition trigram_dict_slice :: "index \<Rightarrow> bytes option" where
  "trigram_dict_slice ix =
     section_slice ix (trigram_dict_off (ix_hdr ix)) (trigram_dict_n (ix_hdr ix)) TRIGRAM_LEN"
definition trigram_post_slice :: "index \<Rightarrow> bytes option" where
  "trigram_post_slice ix =
     section_slice ix (trigram_post_off (ix_hdr ix)) (trigram_post_len (ix_hdr ix)) 1"

text \<open>\<^verbatim>\<open>"<bad utf8>"\<close>.\<close>

definition bad_utf8 :: bytes where
  "bad_utf8 = [0x3C, 0x62, 0x61, 0x64, 0x20, 0x75, 0x74, 0x66, 0x38, 0x3E]"

definition blob_str :: "index \<Rightarrow> u64 \<Rightarrow> u16 \<Rightarrow> bytes option" where
  "blob_str ix off len = do {
     blob \<leftarrow> blob_slice ix;
     s \<leftarrow> slice_of blob (unat off) (unat off + unat len);
     Some (if utf8_valid s then s else bad_utf8)
   }"

text \<open>\<^verbatim>\<open>u64::from_be_bytes(t[off..off + 8].try_into().unwrap())\<close> and its narrower siblings.\<close>

definition get_u64 :: "bytes \<Rightarrow> nat \<Rightarrow> u64 option" where
  "get_u64 t off = map_option of_be64 (slice_of t off (off + 8))"
definition get_u32 :: "bytes \<Rightarrow> nat \<Rightarrow> u32 option" where
  "get_u32 t off = map_option of_be32 (slice_of t off (off + 4))"
definition get_u16 :: "bytes \<Rightarrow> nat \<Rightarrow> u16 option" where
  "get_u16 t off = map_option of_be16 (slice_of t off (off + 2))"

section \<open>Names\<close>

text \<open>The name of row \<open>mid\<close> as the binary searches read it.\<close>

definition row_name :: "index \<Rightarrow> bytes \<Rightarrow> nat \<Rightarrow> bytes option" where
  "row_name ix names mid = do {
     no \<leftarrow> get_u64 names (mid * NAME_LEN);
     nl \<leftarrow> get_u16 names (mid * NAME_LEN + 8);
     blob_str ix no nl
   }"

definition sym_for_name :: "index \<Rightarrow> bytes \<Rightarrow> u64 option option" where
  "sym_for_name ix query = do {
     names \<leftarrow> names_slice ix;
     hit \<leftarrow> bsearch_loop (\<lambda>mid. map_option (\<lambda>n. cmp_of n query) (row_name ix names mid)) 0
              (unat (names_n (ix_hdr ix)));
     (case hit of None \<Rightarrow> Some None
      | Some mid \<Rightarrow> map_option Some (get_u64 names (mid * NAME_LEN + 10)))
   }"

text \<open>The walk over the contiguous run of rows named \<open>query\<close> from row \<open>i\<close>; \<open>k\<close> is
  \<^verbatim>\<open>n - i\<close>.\<close>

fun name_run :: "index \<Rightarrow> bytes \<Rightarrow> bytes \<Rightarrow> nat \<Rightarrow> nat \<Rightarrow> u64 list option" where
  "name_run ix names query i 0 = Some []"
| "name_run ix names query i (Suc k) =
     (case row_name ix names i of
        None \<Rightarrow> None
      | Some n \<Rightarrow>
          if n \<noteq> query then Some []
          else (case (get_u64 names (i * NAME_LEN + 10), name_run ix names query (Suc i) k) of
                  (Some s, Some ss) \<Rightarrow> Some (s # ss) | _ \<Rightarrow> None))"

definition syms_for_name :: "index \<Rightarrow> bytes \<Rightarrow> u64 list option" where
  "syms_for_name ix query = do {
     names \<leftarrow> names_slice ix;
     let n = unat (names_n (ix_hdr ix));
     lo \<leftarrow> lower_bound_loop (\<lambda>mid. map_option (\<lambda>m. m < query) (row_name ix names mid)) 0 n;
     out \<leftarrow> name_run ix names query lo (n - lo);
     Some (sort_dedup out)
   }"

fun prefix_run :: "index \<Rightarrow> bytes \<Rightarrow> bytes \<Rightarrow> nat \<Rightarrow> nat \<Rightarrow> nat \<Rightarrow> (bytes \<times> u64) list option" where
  "prefix_run ix names pre limit i 0 = Some []"
| "prefix_run ix names pre limit i (Suc k) =
     (case limit of 0 \<Rightarrow> Some []
      | Suc limit' \<Rightarrow>
          (case row_name ix names i of
             None \<Rightarrow> None
           | Some n \<Rightarrow>
               if \<not> starts_with n pre then Some []
               else (case (get_u64 names (i * NAME_LEN + 10), prefix_run ix names pre limit' (Suc i) k) of
                       (Some s, Some ss) \<Rightarrow> Some ((n, s) # ss) | _ \<Rightarrow> None)))"

definition names_with_prefix :: "index \<Rightarrow> bytes \<Rightarrow> nat \<Rightarrow> (bytes \<times> u64) list option" where
  "names_with_prefix ix pre limit = do {
     names \<leftarrow> names_slice ix;
     let n = unat (names_n (ix_hdr ix));
     lo \<leftarrow> lower_bound_loop (\<lambda>mid. map_option (\<lambda>m. m < pre) (row_name ix names mid)) 0 n;
     prefix_run ix names pre limit lo (n - lo)
   }"

section \<open>Symbols, types, signatures and files\<close>

text \<open>The exact-key binary search of \<^verbatim>\<open>sym_meta\<close>, \<^verbatim>\<open>type_of\<close>, \<^verbatim>\<open>sig_of\<close> and
  \<^verbatim>\<open>file_path\<close>: compare the first \<open>K\<close> bytes of the row with the big-endian key.\<close>

definition key_search :: "bytes \<Rightarrow> nat \<Rightarrow> nat \<Rightarrow> nat \<Rightarrow> bytes \<Rightarrow> nat option option" where
  "key_search t n W K key =
     bsearch_loop (\<lambda>mid. map_option (\<lambda>k. cmp_of k key) (slice_of t (mid * W) (mid * W + K))) 0 n"

definition sym_meta :: "index \<Rightarrow> u64 \<Rightarrow> (bytes \<times> u8 \<times> u8) option option" where
  "sym_meta ix s = do {
     syms \<leftarrow> syms_slice ix;
     hit \<leftarrow> key_search syms (unat (syms_n (ix_hdr ix))) SYM_LEN 8 (be64 s);
     (case hit of None \<Rightarrow> Some None
      | Some mid \<Rightarrow> do {
          kind \<leftarrow> index_of syms (mid * SYM_LEN + 8);
          lang \<leftarrow> index_of syms (mid * SYM_LEN + 9);
          no \<leftarrow> get_u64 syms (mid * SYM_LEN + 10);
          nl \<leftarrow> get_u16 syms (mid * SYM_LEN + 18);
          n \<leftarrow> blob_str ix no nl;
          Some (Some (n, kind, lang))
        })
   }"

definition string_of :: "index \<Rightarrow> bytes \<Rightarrow> nat \<Rightarrow> u64 \<Rightarrow> bytes option option" where
  "string_of ix t n s = do {
     hit \<leftarrow> key_search t n TYPE_LEN 8 (be64 s);
     (case hit of None \<Rightarrow> Some None
      | Some mid \<Rightarrow> do {
          so \<leftarrow> get_u64 t (mid * TYPE_LEN + 8);
          sl \<leftarrow> get_u16 t (mid * TYPE_LEN + 16);
          map_option Some (blob_str ix so sl)
        })
   }"

definition type_of :: "index \<Rightarrow> u64 \<Rightarrow> bytes option option" where
  "type_of ix s = do {
     typed \<leftarrow> typed_slice ix;
     string_of ix typed (unat (typed_n (ix_hdr ix))) s
   }"

definition sig_of :: "index \<Rightarrow> u64 \<Rightarrow> bytes option option" where
  "sig_of ix s = do {
     sg \<leftarrow> sig_slice ix;
     string_of ix sg (unat (sig_n (ix_hdr ix))) s
   }"

definition file_path :: "index \<Rightarrow> u32 \<Rightarrow> bytes option option" where
  "file_path ix f = do {
     files \<leftarrow> files_slice ix;
     hit \<leftarrow> key_search files (unat (files_n (ix_hdr ix))) FILE_LEN 4 (be32 f);
     (case hit of None \<Rightarrow> Some None
      | Some mid \<Rightarrow> do {
          po \<leftarrow> get_u64 files (mid * FILE_LEN + 4);
          pl \<leftarrow> get_u16 files (mid * FILE_LEN + 12);
          map_option Some (blob_str ix po pl)
        })
   }"

section \<open>Cross references\<close>

definition get_xref :: "bytes \<Rightarrow> nat \<Rightarrow> xref_row option" where
  "get_xref t off = do {
     s \<leftarrow> get_u64 t off;
     role \<leftarrow> index_of t (off + 8);
     file \<leftarrow> get_u32 t (off + 9);
     xoff \<leftarrow> get_u32 t (off + 13);
     Some (s, role, file, xoff)
   }"

text \<open>\<^verbatim>\<open>xrefs(sym, role_lo, role_hi)\<close> with its iterator drained; \<open>[lo..<hi]\<close> is empty when
  \<open>hi \<le> lo\<close>, as \<^verbatim>\<open>XrefIter::next\<close> stops at \<^verbatim>\<open>idx >= end\<close>.\<close>

definition xrefs :: "index \<Rightarrow> u64 \<Rightarrow> u8 \<Rightarrow> u8 \<Rightarrow> xref_row list option" where
  "xrefs ix s role_lo role_hi = do {
     t \<leftarrow> xrefs_slice ix;
     let tot = unat (xrefs_n (ix_hdr ix));
     let start_key = be64 s @ [role_lo] @ replicate 8 0;
     let end_key = (if role_hi = 255 then be64 (s + 1) @ [0] @ replicate 8 0
                    else be64 s @ [role_hi + 1] @ replicate 8 0);
     lo \<leftarrow> lower_bound t tot XREF_LEN start_key;
     hi \<leftarrow> lower_bound t tot XREF_LEN end_key;
     those (map (\<lambda>i. get_xref t (i * XREF_LEN)) [lo..<hi])
   }"

fun first_path :: "index \<Rightarrow> xref_row list \<Rightarrow> bytes option option" where
  "first_path ix [] = Some None"
| "first_path ix ((s, r, file, off) # rest) =
     (case file_path ix file of
        None \<Rightarrow> None
      | Some (Some p) \<Rightarrow> Some (Some p)
      | Some None \<Rightarrow> first_path ix rest)"

definition sym_def_path :: "index \<Rightarrow> u64 \<Rightarrow> bytes option option" where
  "sym_def_path ix s = Option.bind (xrefs ix s role_DECL role_DEF) (first_path ix)"

fun def_loc :: "(u32 \<times> u32) option \<Rightarrow> xref_row list \<Rightarrow> (u32 \<times> u32) option" where
  "def_loc decl [] = decl"
| "def_loc decl ((s, r, file, off) # rest) =
     (if r = role_DEF then Some (file, off)
      else if r = role_DECL \<and> decl = None then def_loc (Some (file, off)) rest
      else def_loc decl rest)"

definition sym_def_loc :: "index \<Rightarrow> u64 \<Rightarrow> (u32 \<times> u32) option option" where
  "sym_def_loc ix s = map_option (def_loc None) (xrefs ix s role_DECL role_DEF)"

section \<open>Edges\<close>

text \<open>The range scan of the pair tables: \<^verbatim>\<open>Vec::with_capacity(hi - lo)\<close> panics when the end key
  wrapped around to a smaller bound.\<close>

definition pair_range :: "bytes \<Rightarrow> nat \<Rightarrow> u64 \<Rightarrow> u64 list option" where
  "pair_range t n key = do {
     lo \<leftarrow> lower_bound t n INH_LEN (be64 key @ replicate 8 0);
     hi \<leftarrow> lower_bound t n INH_LEN (be64 (key + 1) @ replicate 8 0);
     (if hi < lo then None
      else those (map (\<lambda>i. get_u64 t (i * INH_LEN + 8)) [lo..<hi]))
   }"

definition inherits_of :: "index \<Rightarrow> u64 \<Rightarrow> u64 list option" where
  "inherits_of ix child = do {
     t \<leftarrow> inh_slice ix; pair_range t (unat (inh_n (ix_hdr ix))) child }"

definition inherited_by :: "index \<Rightarrow> u64 \<Rightarrow> u64 list option" where
  "inherited_by ix parent = do {
     t \<leftarrow> inhrev_slice ix; pair_range t (unat (inhrev_n (ix_hdr ix))) parent }"

definition members :: "index \<Rightarrow> u64 \<Rightarrow> u64 list option" where
  "members ix parent = do {
     t \<leftarrow> childrev_slice ix; pair_range t (unat (childrev_n (ix_hdr ix))) parent }"

definition get_call :: "bytes \<Rightarrow> nat \<Rightarrow> (u64 \<times> u8) option" where
  "get_call t off = do { c \<leftarrow> get_u64 t (off + 8); role \<leftarrow> index_of t (off + 16); Some (c, role) }"

definition call_range :: "bytes \<Rightarrow> nat \<Rightarrow> u64 \<Rightarrow> (u64 \<times> u8) list option" where
  "call_range t n key = do {
     lo \<leftarrow> lower_bound t n CALL_LEN (be64 key @ replicate 9 0);
     hi \<leftarrow> lower_bound t n CALL_LEN (be64 (key + 1) @ replicate 9 0);
     (if hi < lo then None else those (map (\<lambda>i. get_call t (i * CALL_LEN)) [lo..<hi]))
   }"

definition calls_from :: "index \<Rightarrow> u64 \<Rightarrow> (u64 \<times> u8) list option" where
  "calls_from ix caller = do {
     t \<leftarrow> calls_slice ix; call_range t (unat (calls_n (ix_hdr ix))) caller }"

definition called_by :: "index \<Rightarrow> u64 \<Rightarrow> (u64 \<times> u8) list option" where
  "called_by ix callee = do {
     t \<leftarrow> crev_slice ix; call_range t (unat (crev_n (ix_hdr ix))) callee }"

section \<open>Whole-table iterators\<close>

text \<open>\<^verbatim>\<open>from_utf8(&blob[off..off + len]).unwrap_or("")\<close>.\<close>

definition blob_or_empty :: "bytes \<Rightarrow> u64 \<Rightarrow> u16 \<Rightarrow> bytes option" where
  "blob_or_empty blob off len =
     map_option (\<lambda>s. if utf8_valid s then s else []) (slice_of blob (unat off) (unat off + unat len))"

definition iter_rows :: "nat \<Rightarrow> nat \<Rightarrow> (nat \<Rightarrow> 'a option) \<Rightarrow> 'a list option" where
  "iter_rows n W dec = those (map (\<lambda>i. dec (i * W)) [0..<n])"

definition iter_xrefs :: "index \<Rightarrow> xref_row list option" where
  "iter_xrefs ix = do {
     t \<leftarrow> xrefs_slice ix;
     iter_rows (unat (xrefs_n (ix_hdr ix))) XREF_LEN (get_xref t) }"

definition iter_syms :: "index \<Rightarrow> (u64 \<times> u8 \<times> u8 \<times> bytes) list option" where
  "iter_syms ix = do {
     t \<leftarrow> syms_slice ix; blob \<leftarrow> blob_slice ix;
     iter_rows (unat (syms_n (ix_hdr ix))) SYM_LEN (\<lambda>off. do {
       s \<leftarrow> get_u64 t off; kind \<leftarrow> index_of t (off + 8); lang \<leftarrow> index_of t (off + 9);
       no \<leftarrow> get_u64 t (off + 10); nl \<leftarrow> get_u16 t (off + 18);
       name \<leftarrow> blob_or_empty blob no nl;
       Some (s, kind, lang, name) }) }"

definition iter_files :: "index \<Rightarrow> (u32 \<times> bytes) list option" where
  "iter_files ix = do {
     t \<leftarrow> files_slice ix; blob \<leftarrow> blob_slice ix;
     iter_rows (unat (files_n (ix_hdr ix))) FILE_LEN (\<lambda>off. do {
       f \<leftarrow> get_u32 t off; po \<leftarrow> get_u64 t (off + 4); pl \<leftarrow> get_u16 t (off + 12);
       p \<leftarrow> blob_or_empty blob po pl;
       Some (f, p) }) }"

definition get_pair :: "bytes \<Rightarrow> nat \<Rightarrow> (u64 \<times> u64) option" where
  "get_pair t off = do { a \<leftarrow> get_u64 t off; b \<leftarrow> get_u64 t (off + 8); Some (a, b) }"

definition iter_inherits :: "index \<Rightarrow> (u64 \<times> u64) list option" where
  "iter_inherits ix = do {
     t \<leftarrow> inh_slice ix; iter_rows (unat (inh_n (ix_hdr ix))) INH_LEN (get_pair t) }"

definition iter_calls :: "index \<Rightarrow> call_row list option" where
  "iter_calls ix = do {
     t \<leftarrow> calls_slice ix;
     iter_rows (unat (calls_n (ix_hdr ix))) CALL_LEN (\<lambda>off. do {
       a \<leftarrow> get_u64 t off; b \<leftarrow> get_u64 t (off + 8); r \<leftarrow> index_of t (off + 16); Some (a, b, r) }) }"

definition get_string_row :: "bytes \<Rightarrow> bytes \<Rightarrow> nat \<Rightarrow> (u64 \<times> bytes) option" where
  "get_string_row t blob off = do {
     s \<leftarrow> get_u64 t off; so \<leftarrow> get_u64 t (off + 8); sl \<leftarrow> get_u16 t (off + 16);
     str \<leftarrow> blob_or_empty blob so sl;
     Some (s, str) }"

definition iter_typed :: "index \<Rightarrow> (u64 \<times> bytes) list option" where
  "iter_typed ix = do {
     t \<leftarrow> typed_slice ix; blob \<leftarrow> blob_slice ix;
     iter_rows (unat (typed_n (ix_hdr ix))) TYPE_LEN (get_string_row t blob) }"

definition iter_childrev :: "index \<Rightarrow> (u64 \<times> u64) list option" where
  "iter_childrev ix = do {
     t \<leftarrow> childrev_slice ix; iter_rows (unat (childrev_n (ix_hdr ix))) INH_LEN (get_pair t) }"

definition iter_sig :: "index \<Rightarrow> (u64 \<times> bytes) list option" where
  "iter_sig ix = do {
     t \<leftarrow> sig_slice ix; blob \<leftarrow> blob_slice ix;
     iter_rows (unat (sig_n (ix_hdr ix))) TYPE_LEN (get_string_row t blob) }"

text \<open>\<^verbatim>\<open>iter_aliases\<close>: the name rows that are not their symbol's canonical \<open>(off, len)\<close>.
  \<^verbatim>\<open>canon\<close> is filled in row order, a later row of the same symbol replacing an earlier one.\<close>

definition canon_map :: "index \<Rightarrow> bytes \<Rightarrow> (u64 \<times> u64 \<times> u16) list option" where
  "canon_map ix t = map_option (\<lambda>rows. rev rows)
     (iter_rows (unat (syms_n (ix_hdr ix))) SYM_LEN (\<lambda>off. do {
        s \<leftarrow> get_u64 t off; no \<leftarrow> get_u64 t (off + 10); nl \<leftarrow> get_u16 t (off + 18);
        Some (s, no, nl) }))"

definition iter_aliases :: "index \<Rightarrow> (u64 \<times> bytes) list option" where
  "iter_aliases ix = do {
     st \<leftarrow> syms_slice ix;
     canon \<leftarrow> canon_map ix st;
     t \<leftarrow> names_slice ix; blob \<leftarrow> blob_slice ix;
     rows \<leftarrow> iter_rows (unat (names_n (ix_hdr ix))) NAME_LEN (\<lambda>off. do {
       no \<leftarrow> get_u64 t off; nl \<leftarrow> get_u16 t (off + 8); s \<leftarrow> get_u64 t (off + 10);
       (if map_of canon s = Some (no, nl) then Some None
        else map_option (\<lambda>str. if utf8_valid str then Some (s, str) else None)
               (slice_of blob (unat no) (unat no + unat nl))) });
     Some (List.map_filter id rows)
   }"

lemmas slice_defs =
  xrefs_slice_def syms_slice_def names_slice_def files_slice_def inh_slice_def calls_slice_def
  crev_slice_def typed_slice_def inhrev_slice_def childrev_slice_def sig_slice_def blob_slice_def
  trigram_dict_slice_def trigram_post_slice_def section_slice_def

section \<open>What opening guarantees\<close>

text \<open>Whatever the bytes, a section that passed the check lies inside the map, in exact arithmetic.\<close>

lemma check_sections_sound:
  assumes "check_sections m L = None" and "(name, off, n, stride) \<in> set L" and "stride < 2 ^ 64"
  shows "unat off + unat n * stride \<le> m"
  using assms
proof (induction m L rule: check_sections.induct)
  case (2 m name' off' n' stride' rest)
  show ?case
  proof (cases "(name, off, n, stride) = (name', off', n', stride')")
    case True
    have st: "unat (of_nat stride :: u64) = stride" using 2(4) by (simp add: unat_of_nat_small)
    from 2(2) True obtain p e where p: "checked_mul n (of_nat stride) = Some p"
        and e: "checked_add off p = Some e" and le: "unat e \<le> m"
      by (auto split: option.splits if_splits simp: bind_eq_Some_conv)
    have "unat p = unat n * stride"
      using p st by (auto simp: checked_mul_def unat_word_ariths split: if_splits)
    moreover have "unat e = unat off + unat p"
      using e by (auto simp: checked_add_def unat_word_ariths split: if_splits)
    ultimately show ?thesis using le by simp
  next
    case False
    with 2 show ?thesis by (auto split: option.splits if_splits)
  qed
qed simp

lemma open_header: "index_open m = Inr ix \<Longrightarrow> ix_map ix = m \<and> HEADER_LEN \<le> length m \<and>
    check_sections (length m) (header_sections (ix_hdr ix)) = None"
  by (auto simp: index_open_def Let_def split: if_splits option.splits)

lemma open_sections:
  assumes "index_open m = Inr ix" and "(name, off, n, W) \<in> set (header_sections (ix_hdr ix))"
  shows "\<exists>d. section_slice ix off n W = Some d \<and> length d = unat n * W"
proof -
  have "W < 2 ^ 64" using assms(2) by (auto simp: header_sections_def len_defs)
  then have "unat off + unat n * W \<le> length m"
    using open_header [OF assms(1)] assms(2) by (intro check_sections_sound) auto
  then show ?thesis
    using open_header [OF assms(1)] by (simp add: section_slice_def slice_of_def)
qed

lemma those_total: "\<forall>x \<in> set xs. f x \<noteq> None \<Longrightarrow> \<exists>ys. those (map f xs) = Some ys \<and> length ys = length xs"
proof (induction xs)
  case (Cons x xs)
  then obtain y ys where "f x = Some y" "those (map f xs) = Some ys" "length ys = length xs" by auto
  then show ?case by simp
qed simp

lemma get_xref_total: "off + 17 \<le> length t \<Longrightarrow> get_xref t off \<noteq> None"
  by (simp add: get_xref_def get_u64_def get_u32_def slice_of_def index_of_def)

lemma xrefs_in_bounds:
  assumes "index_open m = Inr ix"
  shows "\<exists>rows. xrefs ix s role_lo role_hi = Some rows \<and> length rows \<le> unat (xrefs_n (ix_hdr ix))"
proof -
  let ?n = "unat (xrefs_n (ix_hdr ix))"
  have "(Sec_xrefs, xrefs_off (ix_hdr ix), xrefs_n (ix_hdr ix), XREF_LEN) \<in> set (header_sections (ix_hdr ix))"
    by (simp add: header_sections_def)
  from open_sections [OF assms this] obtain t where t: "xrefs_slice ix = Some t" "length t = ?n * XREF_LEN"
    by (auto simp: xrefs_slice_def)
  define a where "a = be64 s @ role_lo # replicate 8 0"
  define b where "b = (if role_hi = 255 then be64 (s + 1) @ 0 # replicate 8 0 else be64 s @ (role_hi + 1) # replicate 8 0)"
  obtain lo hi where lb: "lower_bound t ?n XREF_LEN a = Some lo" "lower_bound t ?n XREF_LEN b = Some hi" "hi \<le> ?n"
    using lower_bound_total [of ?n XREF_LEN t] t(2) by (metis order_refl)
  have "get_xref t (i * XREF_LEN) \<noteq> None" if "i < hi" for i
  proof (rule get_xref_total)
    have "(i + 1) * XREF_LEN \<le> ?n * XREF_LEN" using that lb(3) by (intro mult_right_mono) auto
    then show "i * XREF_LEN + 17 \<le> length t" by (simp add: t(2) XREF_LEN_def)
  qed
  then obtain rows where rows: "those (map (\<lambda>i. get_xref t (i * XREF_LEN)) [lo..<hi]) = Some rows" "length rows = hi - lo"
    using those_total [of "[lo..<hi]" "\<lambda>i. get_xref t (i * XREF_LEN)"] by auto
  then have "xrefs ix s role_lo role_hi = Some rows"
    using lb by (simp only: xrefs_def t Let_def append.simps a_def [symmetric] b_def [symmetric] bind.bind_lunit)
  then show ?thesis using rows lb(3) by auto
qed

end
