(* ===== verification/S2_Layout.thy ===== *)
theory S2_Layout
  imports S2_Writer S2_Reader
begin

text \<open>
  What the writer lays out is what the reader finds: the page-aligned sections do not overlap, the
  file covers every declared section, \<^verbatim>\<open>Index::open\<close> accepts the header and each raw section slice
  of the opened index is the table the writer serialised.
\<close>

text \<open>The size bound under which no u64 offset of the layout wraps.\<close>

definition tables_fit :: "tables \<Rightarrow> bool" where
  "tables_fit t \<longleftrightarrow>
     HEADER_LEN + sum_list (map length (sections t)) + 15 * PAGE < 2 ^ 64 \<and>
     TRIGRAM_LEN dvd length (t_dict t)"

definition opened :: "tables \<Rightarrow> index" where
  "opened t = \<lparr> ix_map = write_tables t, ix_hdr = make_header t \<rparr>"

section \<open>Offsets\<close>

fun nat_offsets :: "nat \<Rightarrow> bytes list \<Rightarrow> nat list" where
  "nat_offsets start [] = []"
| "nat_offsets start (d # ds) = pad_up_nat start # nat_offsets (pad_up_nat start + length d) ds"

lemma length_section_offsets [simp]: "length (section_offsets start ds) = length ds"
  by (induction ds arbitrary: start) (simp_all add: Let_def)

lemma section_offsets_unat:
  assumes "start + sum_list (map length ds) + length ds * 4096 < 2 ^ 64"
  shows "map unat (section_offsets (of_nat start) ds) = nat_offsets start ds"
  using assms
proof (induction ds arbitrary: start)
  case Nil
  then show ?case by simp
next
  case (Cons d ds)
  have start: "unat (of_nat start :: u64) = start"
    using Cons.prems by (simp add: unat_of_nat_small)
  have off: "unat (pad_up (of_nat start)) = pad_up_nat start"
    using pad_up_unat [of "of_nat start"] Cons.prems start by simp
  have lt: "pad_up_nat start < start + 4096" by (rule pad_up_nat_lt)
  then have "pad_up_nat start + length d < 2 ^ 64" using Cons.prems by simp
  then have "pad_up (of_nat start) + of_nat (length d) = of_nat (pad_up_nat start + length d)"
    by (simp flip: off)
  moreover have "map unat (section_offsets (of_nat (pad_up_nat start + length d)) ds) =
      nat_offsets (pad_up_nat start + length d) ds"
    using Cons.prems lt by (intro Cons.IH) simp
  ultimately show ?case using off by (simp add: Let_def)
qed

section \<open>Positioned writes\<close>

fun laid :: "nat \<Rightarrow> (nat \<times> bytes) list \<Rightarrow> bool" where
  "laid e [] = True"
| "laid e ((off, d) # ws) = (e \<le> off \<and> laid (off + length d) ws)"

fun laid_end :: "nat \<Rightarrow> (nat \<times> bytes) list \<Rightarrow> nat" where
  "laid_end e [] = e"
| "laid_end e ((off, d) # ws) = laid_end (off + length d) ws"

lemma laid_end_ge: "laid e ws \<Longrightarrow> e \<le> laid_end e ws"
  by (induction e ws rule: laid.induct) auto

lemma laid_mem_end: "laid e ws \<Longrightarrow> (off, d) \<in> set ws \<Longrightarrow> off + length d \<le> laid_end e ws"
proof (induction e ws rule: laid.induct)
  case (2 e off' d' ws)
  then show ?case using laid_end_ge [of "off' + length d'" ws] by auto
qed simp

lemma foldl_write_laid:
  "laid e ws \<Longrightarrow> length f \<le> e \<Longrightarrow>
     \<exists>rest. foldl write_at f ws = f @ rest \<and> length (f @ rest) \<le> laid_end e ws \<and>
       (\<forall>(off, d) \<in> set ws. d \<noteq> [] \<longrightarrow> slice_of (f @ rest) off (off + length d) = Some d)"
proof (induction e ws arbitrary: f rule: laid.induct)
  case (1 e)
  then show ?case by simp
next
  case (2 e off d ws)
  show ?case
  proof (cases "d = []")
    case True
    have "\<exists>rest. foldl write_at f ws = f @ rest \<and> length (f @ rest) \<le> laid_end (off + length d) ws \<and>
       (\<forall>(off, d) \<in> set ws. d \<noteq> [] \<longrightarrow> slice_of (f @ rest) off (off + length d) = Some d)"
      using 2 by (intro "2.IH") auto
    with True show ?thesis by (auto simp: write_at_def [of f])
  next
    case False
    define g where "g = f @ replicate (off - length f) 0 @ d"
    have g: "write_at f (off, d) = g"
      using 2 False by (simp add: write_at_def g_def)
    have len: "length g = off + length d" using 2 by (simp add: g_def)
    have "\<exists>rest. foldl write_at g ws = g @ rest \<and> length (g @ rest) \<le> laid_end (off + length d) ws \<and>
       (\<forall>(off, d) \<in> set ws. d \<noteq> [] \<longrightarrow> slice_of (g @ rest) off (off + length d) = Some d)"
      using 2 len by (intro "2.IH") auto
    then obtain rest where r: "foldl write_at g ws = g @ rest"
        "length (g @ rest) \<le> laid_end (off + length d) ws"
        "\<forall>(off, d) \<in> set ws. d \<noteq> [] \<longrightarrow> slice_of (g @ rest) off (off + length d) = Some d"
      by blast
    have "slice_of (g @ rest) off (off + length d) = Some d"
      using slice_of_mid [of off "f @ replicate (off - length f) 0" _ d rest] 2 by (simp add: g_def)
    then show ?thesis
      using r g by (intro exI [of _ "replicate (off - length f) 0 @ d @ rest"]) (auto simp: g_def)
  qed
qed

lemma set_len_laid:
  assumes "laid 0 ws" and "(off, d) \<in> set ws"
  shows "slice_of (set_len (foldl write_at [] ws) (laid_end 0 ws)) off (off + length d) = Some d"
proof -
  obtain F where F: "foldl write_at [] ws = F" "length F \<le> laid_end 0 ws"
      "\<forall>(off, d) \<in> set ws. d \<noteq> [] \<longrightarrow> slice_of F off (off + length d) = Some d"
    using foldl_write_laid [OF assms(1), of "[]"] by auto
  have S: "set_len F (laid_end 0 ws) = F @ replicate (laid_end 0 ws - length F) 0"
    using F(2) by (simp add: set_len_def)
  show ?thesis
  proof (cases "d = []")
    case True
    have "off \<le> laid_end 0 ws" using laid_mem_end [OF assms] by simp
    then show ?thesis using F True by (simp add: S slice_of_def)
  next
    case False
    then have "slice_of F off (off + length d) = Some d" using F(3) assms(2) by auto
    moreover from this have "off + length d \<le> length F" by (auto dest: slice_of_SomeD)
    ultimately show ?thesis using F by (simp add: S slice_of_append1)
  qed
qed

lemma length_set_len [simp]: "length (set_len f n) = n"
  by (simp add: set_len_def)

lemma laid_nat_offsets: "e \<le> start \<Longrightarrow> laid e (zip (nat_offsets start ds) ds)"
proof (induction ds arbitrary: start e)
  case (Cons d ds)
  then show ?case using pad_up_nat_ge [of start] by (auto intro: order_trans)
qed simp

section \<open>The written file\<close>

lemma length_sections [simp]: "length (sections t) = 14"
  by (simp add: sections_def)

lemma sections_nonempty: "sections t \<noteq> []"
  by (simp add: sections_def)

abbreviation sec_off :: "tables \<Rightarrow> nat \<Rightarrow> u64" where
  "sec_off t i \<equiv> section_offsets (of_nat HEADER_LEN) (sections t) ! i"

lemma make_header_fields [simp]:
  "xrefs_off (make_header t) = sec_off t 0" "xrefs_n (make_header t) = of_nat (length (t_xrefs t))"
  "syms_off (make_header t) = sec_off t 1" "syms_n (make_header t) = of_nat (length (t_syms t))"
  "names_off (make_header t) = sec_off t 2" "names_n (make_header t) = of_nat (length (t_names t))"
  "files_off (make_header t) = sec_off t 3" "files_n (make_header t) = of_nat (length (t_files t))"
  "inh_off (make_header t) = sec_off t 4" "inh_n (make_header t) = of_nat (length (t_inh t))"
  "inhrev_off (make_header t) = sec_off t 5" "inhrev_n (make_header t) = of_nat (length (t_inhrev t))"
  "calls_off (make_header t) = sec_off t 6" "calls_n (make_header t) = of_nat (length (t_calls t))"
  "crev_off (make_header t) = sec_off t 7" "crev_n (make_header t) = of_nat (length (t_crev t))"
  "typed_off (make_header t) = sec_off t 8" "typed_n (make_header t) = of_nat (length (t_typed t))"
  "childrev_off (make_header t) = sec_off t 9" "childrev_n (make_header t) = of_nat (length (t_childrev t))"
  "sig_off (make_header t) = sec_off t 10" "sig_n (make_header t) = of_nat (length (t_sig t))"
  "blob_off (make_header t) = sec_off t 11" "blob_len (make_header t) = of_nat (length (t_blob t))"
  "trigram_dict_off (make_header t) = sec_off t 12"
  "trigram_dict_n (make_header t) = of_nat (length (t_dict t) div TRIGRAM_LEN)"
  "trigram_post_off (make_header t) = sec_off t 13" "trigram_post_len (make_header t) = of_nat (length (t_post t))"
  "magic (make_header t) = MAGIC" "version (make_header t) = VERSION"
  by (simp_all add: make_header_def Let_def)

lemma make_header_sizes [simp]: "length (magic (make_header t)) = 8" "length (reserved (make_header t)) = 16"
  by simp (simp add: make_header_def header_default_def Let_def)

definition file_writes :: "tables \<Rightarrow> (nat \<times> bytes) list" where
  "file_writes t = (0, header_bytes (make_header t)) #
     zip (map unat (section_offsets (of_nat HEADER_LEN) (sections t))) (sections t)"

lemma offsets_unat:
  "tables_fit t \<Longrightarrow>
     map unat (section_offsets (of_nat HEADER_LEN) (sections t)) = nat_offsets HEADER_LEN (sections t)"
  by (rule section_offsets_unat) (simp add: tables_fit_def PAGE_def)

lemma laid_file_writes: "tables_fit t \<Longrightarrow> laid 0 (file_writes t)"
  using laid_nat_offsets [of HEADER_LEN HEADER_LEN "sections t"]
  by (simp add: file_writes_def offsets_unat length_header_bytes)

lemma laid_end_zip:
  "ds \<noteq> [] \<Longrightarrow> length offs = length ds \<Longrightarrow>
     laid_end e (zip offs ds) = offs ! (length ds - 1) + length (last ds)"
  by (induction offs ds arbitrary: e rule: list_induct2') (auto simp: nth_Cons')

lemma nat_offsets_end:
  "ds \<noteq> [] \<Longrightarrow> laid_end e (zip (nat_offsets start ds) ds) \<le> start + sum_list (map length ds) + length ds * 4096"
proof (induction ds arbitrary: start e)
  case (Cons d ds)
  show ?case
  proof (cases "ds = []")
    case True
    then show ?thesis using pad_up_nat_lt [of start] by simp
  next
    case False
    have "laid_end (pad_up_nat start + length d) (zip (nat_offsets (pad_up_nat start + length d) ds) ds)
        \<le> pad_up_nat start + length d + sum_list (map length ds) + length ds * 4096"
      by (rule Cons.IH [OF False])
    then show ?thesis using pad_up_nat_lt [of start] by simp
  qed
qed simp

lemma write_tables_eq:
  assumes "tables_fit t"
  shows "write_tables t = set_len (foldl write_at [] (file_writes t)) (laid_end 0 (file_writes t))"
    and "laid_end 0 (file_writes t) < 2 ^ 64"
proof -
  let ?offs = "section_offsets (of_nat HEADER_LEN) (sections t)"
  have last: "last (sections t) = t_post t" by (simp add: sections_def)
  have end1: "laid_end 0 (file_writes t) = unat (?offs ! 13) + length (t_post t)"
    by (simp add: file_writes_def laid_end_zip last sections_nonempty)
  have "laid_end 0 (file_writes t) \<le> HEADER_LEN + sum_list (map length (sections t)) + 14 * 4096"
    using nat_offsets_end [OF sections_nonempty, of _ HEADER_LEN t] assms
    by (simp add: file_writes_def offsets_unat)
  then show bound: "laid_end 0 (file_writes t) < 2 ^ 64"
    using assms by (simp add: tables_fit_def PAGE_def)
  have "unat (?offs ! 13 + of_nat (length (t_post t))) = unat (?offs ! 13) + length (t_post t)"
    using bound end1 by (simp add: unat_word_ariths unat_of_nat_small)
  then show "write_tables t = set_len (foldl write_at [] (file_writes t)) (laid_end 0 (file_writes t))"
    by (simp add: write_tables_def end1 Let_def) (simp add: file_writes_def)
qed

lemma section_at:
  assumes "tables_fit t" and "i < 14"
  shows "slice_of (write_tables t) (unat (section_offsets (of_nat HEADER_LEN) (sections t) ! i))
    (unat (section_offsets (of_nat HEADER_LEN) (sections t) ! i) + length (sections t ! i)) =
    Some (sections t ! i)"
proof -
  have "(unat (section_offsets (of_nat HEADER_LEN) (sections t) ! i), sections t ! i) \<in> set (file_writes t)"
    using assms(2) by (auto simp: file_writes_def in_set_zip intro!: exI [of _ i])
  then show ?thesis
    using set_len_laid [OF laid_file_writes [OF assms(1)]] by (simp add: write_tables_eq(1) assms(1))
qed

lemma header_at:
  assumes "tables_fit t"
  shows "slice_of (write_tables t) 0 HEADER_LEN = Some (header_bytes (make_header t))"
proof -
  have "(0, header_bytes (make_header t)) \<in> set (file_writes t)" by (simp add: file_writes_def)
  then show ?thesis
    using set_len_laid [OF laid_file_writes [OF assms], of 0 "header_bytes (make_header t)"] assms
    by (simp add: write_tables_eq(1) length_header_bytes)
qed

lemma header_of_written:
  assumes "tables_fit t"
  shows "header_of_bytes (write_tables t) = make_header t" and "HEADER_LEN \<le> length (write_tables t)"
proof -
  from header_at [OF assms] have "take HEADER_LEN (write_tables t) = header_bytes (make_header t)"
      and len: "HEADER_LEN \<le> length (write_tables t)"
    by (auto simp: slice_of_def split: if_splits)
  then have "write_tables t = header_bytes (make_header t) @ drop HEADER_LEN (write_tables t)"
    by (metis append_take_drop_id)
  then show "header_of_bytes (write_tables t) = make_header t"
    using header_round_trip [of "make_header t" "drop HEADER_LEN (write_tables t)"] by simp
  show "HEADER_LEN \<le> length (write_tables t)" by (rule len)
qed

section \<open>Opening the written file\<close>

lemma check_sections_None:
  assumes "\<forall>(name, off, n, stride) \<in> set L.
      stride < 2 ^ 64 \<and> unat off + unat n * stride \<le> m" and "m < 2 ^ 64"
  shows "check_sections m L = None"
  using assms
proof (induction m L rule: check_sections.induct)
  case (2 m name off n stride rest)
  then have st: "stride < 2 ^ 64" and le: "unat off + unat n * stride \<le> m" by auto
  have lt: "unat n * stride < 2 ^ 64" "unat off + unat n * stride < 2 ^ 64" using le 2(3) by auto
  have s: "unat (of_nat stride :: u64) = stride" using st by (simp add: unat_of_nat_small)
  have mul: "unat (n * of_nat stride) = unat n * stride"
    using lt s by (simp add: unat_word_ariths)
  have "checked_mul n (of_nat stride) = Some (n * of_nat stride)"
    using lt s by (simp add: checked_mul_def)
  moreover have "checked_add off (n * of_nat stride) = Some (off + n * of_nat stride)"
    using lt mul by (simp add: checked_add_def)
  moreover have "unat (off + n * of_nat stride) = unat off + unat n * stride"
    using lt mul by (simp add: unat_word_ariths)
  ultimately show ?case using 2 le by simp
qed simp

lemma section_len_le: "d \<in> set ds \<Longrightarrow> length d \<le> sum_list (map length ds)"
  by (induction ds) auto

text \<open>Row counts survive the u64 header field.\<close>

lemma row_count:
  assumes "tables_fit t" and "d \<in> set (sections t)" and "length d = n * W" and "0 < W"
  shows "unat (of_nat n :: u64) = n"
proof -
  have "n \<le> length d" using assms(3,4) by (simp add: Suc_le_eq)
  also have "\<dots> < 2 ^ 64"
    using section_len_le [OF assms(2)] assms(1) by (simp add: tables_fit_def)
  finally show ?thesis by (simp add: unat_of_nat_small)
qed

lemma sections_in [simp]:
  "concat (map enc_xref (t_xrefs t)) \<in> set (sections t)" "concat (map enc_sym (t_syms t)) \<in> set (sections t)"
  "concat (map enc_name (t_names t)) \<in> set (sections t)" "concat (map enc_file (t_files t)) \<in> set (sections t)"
  "concat (map enc_inh (t_inh t)) \<in> set (sections t)" "concat (map enc_inh (t_inhrev t)) \<in> set (sections t)"
  "concat (map enc_call (t_calls t)) \<in> set (sections t)" "concat (map enc_call (t_crev t)) \<in> set (sections t)"
  "concat (map enc_type (t_typed t)) \<in> set (sections t)" "concat (map enc_inh (t_childrev t)) \<in> set (sections t)"
  "concat (map enc_type (t_sig t)) \<in> set (sections t)" "t_blob t \<in> set (sections t)"
  "t_dict t \<in> set (sections t)" "t_post t \<in> set (sections t)"
  by (simp_all add: sections_def)

lemmas table_lengths =
  xref_table.length_table sym_table.length_table name_table.length_table file_table.length_table
  inh_table.length_table call_table.length_table type_table.length_table

lemma counts_unat:
  assumes "tables_fit t"
  shows "unat (of_nat (length (t_xrefs t)) :: u64) = length (t_xrefs t)"
    "unat (of_nat (length (t_syms t)) :: u64) = length (t_syms t)"
    "unat (of_nat (length (t_names t)) :: u64) = length (t_names t)"
    "unat (of_nat (length (t_files t)) :: u64) = length (t_files t)"
    "unat (of_nat (length (t_inh t)) :: u64) = length (t_inh t)"
    "unat (of_nat (length (t_inhrev t)) :: u64) = length (t_inhrev t)"
    "unat (of_nat (length (t_calls t)) :: u64) = length (t_calls t)"
    "unat (of_nat (length (t_crev t)) :: u64) = length (t_crev t)"
    "unat (of_nat (length (t_typed t)) :: u64) = length (t_typed t)"
    "unat (of_nat (length (t_childrev t)) :: u64) = length (t_childrev t)"
    "unat (of_nat (length (t_sig t)) :: u64) = length (t_sig t)"
    "unat (of_nat (length (t_blob t)) :: u64) = length (t_blob t)"
    "unat (of_nat (length (t_dict t) div TRIGRAM_LEN) :: u64) = length (t_dict t) div TRIGRAM_LEN"
    "unat (of_nat (length (t_post t)) :: u64) = length (t_post t)"
proof -
  show "unat (of_nat (length (t_xrefs t)) :: u64) = length (t_xrefs t)"
    by (rule row_count [OF assms _ xref_table.length_table, of "t_xrefs t"]) (simp_all add: len_defs)
  show "unat (of_nat (length (t_syms t)) :: u64) = length (t_syms t)"
    by (rule row_count [OF assms _ sym_table.length_table, of "t_syms t"]) (simp_all add: len_defs)
  show "unat (of_nat (length (t_names t)) :: u64) = length (t_names t)"
    by (rule row_count [OF assms _ name_table.length_table, of "t_names t"]) (simp_all add: len_defs)
  show "unat (of_nat (length (t_files t)) :: u64) = length (t_files t)"
    by (rule row_count [OF assms _ file_table.length_table, of "t_files t"]) (simp_all add: len_defs)
  show "unat (of_nat (length (t_inh t)) :: u64) = length (t_inh t)"
    by (rule row_count [OF assms _ inh_table.length_table, of "t_inh t"]) (simp_all add: len_defs)
  show "unat (of_nat (length (t_inhrev t)) :: u64) = length (t_inhrev t)"
    by (rule row_count [OF assms _ inh_table.length_table, of "t_inhrev t"]) (simp_all add: len_defs)
  show "unat (of_nat (length (t_calls t)) :: u64) = length (t_calls t)"
    by (rule row_count [OF assms _ call_table.length_table, of "t_calls t"]) (simp_all add: len_defs)
  show "unat (of_nat (length (t_crev t)) :: u64) = length (t_crev t)"
    by (rule row_count [OF assms _ call_table.length_table, of "t_crev t"]) (simp_all add: len_defs)
  show "unat (of_nat (length (t_typed t)) :: u64) = length (t_typed t)"
    by (rule row_count [OF assms _ type_table.length_table, of "t_typed t"]) (simp_all add: len_defs)
  show "unat (of_nat (length (t_childrev t)) :: u64) = length (t_childrev t)"
    by (rule row_count [OF assms _ inh_table.length_table, of "t_childrev t"]) (simp_all add: len_defs)
  show "unat (of_nat (length (t_sig t)) :: u64) = length (t_sig t)"
    by (rule row_count [OF assms _ type_table.length_table, of "t_sig t"]) (simp_all add: len_defs)
  show "unat (of_nat (length (t_blob t)) :: u64) = length (t_blob t)"
    by (rule row_count [OF assms, of "t_blob t" _ 1]) simp_all
  show "unat (of_nat (length (t_post t)) :: u64) = length (t_post t)"
    by (rule row_count [OF assms, of "t_post t" _ 1]) simp_all
  show "unat (of_nat (length (t_dict t) div TRIGRAM_LEN) :: u64) = length (t_dict t) div TRIGRAM_LEN"
    by (rule row_count [OF assms, of "t_dict t" _ TRIGRAM_LEN])
      (use assms in \<open>simp_all add: tables_fit_def TRIGRAM_LEN_def\<close>)
qed

text \<open>The section the header declares is the section that was written.\<close>

lemma section_declared:
  assumes "tables_fit t" and "i < 14" and "sections t ! i = d" and "length d = unat n * W"
  shows "section_slice (opened t) (sec_off t i) n W = Some d"
    and "unat (sec_off t i) + unat n * W \<le> length (write_tables t)"
  using section_at [OF assms(1,2)] assms(3,4)
  by (auto simp: section_slice_def opened_def dest: slice_of_SomeD)

lemma sections_nth:
  "sections t ! 0 = concat (map enc_xref (t_xrefs t))"
  "sections t ! 1 = concat (map enc_sym (t_syms t))"
  "sections t ! 2 = concat (map enc_name (t_names t))"
  "sections t ! 3 = concat (map enc_file (t_files t))"
  "sections t ! 4 = concat (map enc_inh (t_inh t))"
  "sections t ! 5 = concat (map enc_inh (t_inhrev t))"
  "sections t ! 6 = concat (map enc_call (t_calls t))"
  "sections t ! 7 = concat (map enc_call (t_crev t))"
  "sections t ! 8 = concat (map enc_type (t_typed t))"
  "sections t ! 9 = concat (map enc_inh (t_childrev t))"
  "sections t ! 10 = concat (map enc_type (t_sig t))"
  "sections t ! 11 = t_blob t"
  "sections t ! 12 = t_dict t"
  "sections t ! 13 = t_post t"
  by (simp_all add: sections_def)

lemma declared_lengths:
  assumes "tables_fit t"
  shows "length (concat (map enc_xref (t_xrefs t))) = unat (xrefs_n (make_header t)) * XREF_LEN"
    "length (concat (map enc_sym (t_syms t))) = unat (syms_n (make_header t)) * SYM_LEN"
    "length (concat (map enc_name (t_names t))) = unat (names_n (make_header t)) * NAME_LEN"
    "length (concat (map enc_file (t_files t))) = unat (files_n (make_header t)) * FILE_LEN"
    "length (concat (map enc_inh (t_inh t))) = unat (inh_n (make_header t)) * INH_LEN"
    "length (concat (map enc_inh (t_inhrev t))) = unat (inhrev_n (make_header t)) * INH_LEN"
    "length (concat (map enc_call (t_calls t))) = unat (calls_n (make_header t)) * CALL_LEN"
    "length (concat (map enc_call (t_crev t))) = unat (crev_n (make_header t)) * CALL_LEN"
    "length (concat (map enc_type (t_typed t))) = unat (typed_n (make_header t)) * TYPE_LEN"
    "length (concat (map enc_inh (t_childrev t))) = unat (childrev_n (make_header t)) * INH_LEN"
    "length (concat (map enc_type (t_sig t))) = unat (sig_n (make_header t)) * TYPE_LEN"
    "length (t_blob t) = unat (blob_len (make_header t)) * 1"
    "length (t_dict t) = unat (trigram_dict_n (make_header t)) * TRIGRAM_LEN"
    "length (t_post t) = unat (trigram_post_len (make_header t)) * 1"
  using assms by (simp_all add: table_lengths counts_unat) (simp add: tables_fit_def)

lemma opened_slices:
  assumes "tables_fit t"
  shows "xrefs_slice (opened t) = Some (concat (map enc_xref (t_xrefs t)))"
    "syms_slice (opened t) = Some (concat (map enc_sym (t_syms t)))"
    "names_slice (opened t) = Some (concat (map enc_name (t_names t)))"
    "files_slice (opened t) = Some (concat (map enc_file (t_files t)))"
    "inh_slice (opened t) = Some (concat (map enc_inh (t_inh t)))"
    "inhrev_slice (opened t) = Some (concat (map enc_inh (t_inhrev t)))"
    "calls_slice (opened t) = Some (concat (map enc_call (t_calls t)))"
    "crev_slice (opened t) = Some (concat (map enc_call (t_crev t)))"
    "typed_slice (opened t) = Some (concat (map enc_type (t_typed t)))"
    "childrev_slice (opened t) = Some (concat (map enc_inh (t_childrev t)))"
    "sig_slice (opened t) = Some (concat (map enc_type (t_sig t)))"
    "blob_slice (opened t) = Some (t_blob t)"
    "trigram_dict_slice (opened t) = Some (t_dict t)"
    "trigram_post_slice (opened t) = Some (t_post t)"
proof -
  note declared = section_declared(1) [OF assms]
  have hdr: "ix_hdr (opened t) = make_header t" by (simp add: opened_def)
  show "xrefs_slice (opened t) = Some (concat (map enc_xref (t_xrefs t)))"
    unfolding xrefs_slice_def hdr make_header_fields(1)
    by (rule declared [OF _ sections_nth(1) declared_lengths(1) [OF assms]]) simp
  show "syms_slice (opened t) = Some (concat (map enc_sym (t_syms t)))"
    unfolding syms_slice_def hdr make_header_fields(3)
    by (rule declared [OF _ sections_nth(2) declared_lengths(2) [OF assms]]) simp
  show "names_slice (opened t) = Some (concat (map enc_name (t_names t)))"
    unfolding names_slice_def hdr make_header_fields(5)
    by (rule declared [OF _ sections_nth(3) declared_lengths(3) [OF assms]]) simp
  show "files_slice (opened t) = Some (concat (map enc_file (t_files t)))"
    unfolding files_slice_def hdr make_header_fields(7)
    by (rule declared [OF _ sections_nth(4) declared_lengths(4) [OF assms]]) simp
  show "inh_slice (opened t) = Some (concat (map enc_inh (t_inh t)))"
    unfolding inh_slice_def hdr make_header_fields(9)
    by (rule declared [OF _ sections_nth(5) declared_lengths(5) [OF assms]]) simp
  show "inhrev_slice (opened t) = Some (concat (map enc_inh (t_inhrev t)))"
    unfolding inhrev_slice_def hdr make_header_fields(11)
    by (rule declared [OF _ sections_nth(6) declared_lengths(6) [OF assms]]) simp
  show "calls_slice (opened t) = Some (concat (map enc_call (t_calls t)))"
    unfolding calls_slice_def hdr make_header_fields(13)
    by (rule declared [OF _ sections_nth(7) declared_lengths(7) [OF assms]]) simp
  show "crev_slice (opened t) = Some (concat (map enc_call (t_crev t)))"
    unfolding crev_slice_def hdr make_header_fields(15)
    by (rule declared [OF _ sections_nth(8) declared_lengths(8) [OF assms]]) simp
  show "typed_slice (opened t) = Some (concat (map enc_type (t_typed t)))"
    unfolding typed_slice_def hdr make_header_fields(17)
    by (rule declared [OF _ sections_nth(9) declared_lengths(9) [OF assms]]) simp
  show "childrev_slice (opened t) = Some (concat (map enc_inh (t_childrev t)))"
    unfolding childrev_slice_def hdr make_header_fields(19)
    by (rule declared [OF _ sections_nth(10) declared_lengths(10) [OF assms]]) simp
  show "sig_slice (opened t) = Some (concat (map enc_type (t_sig t)))"
    unfolding sig_slice_def hdr make_header_fields(21)
    by (rule declared [OF _ sections_nth(11) declared_lengths(11) [OF assms]]) simp
  show "blob_slice (opened t) = Some (t_blob t)"
    unfolding blob_slice_def hdr make_header_fields(23)
    by (rule declared [OF _ sections_nth(12) declared_lengths(12) [OF assms]]) simp
  show "trigram_dict_slice (opened t) = Some (t_dict t)"
    unfolding trigram_dict_slice_def hdr make_header_fields(25)
    by (rule declared [OF _ sections_nth(13) declared_lengths(13) [OF assms]]) simp
  show "trigram_post_slice (opened t) = Some (t_post t)"
    unfolding trigram_post_slice_def hdr make_header_fields(27)
    by (rule declared [OF _ sections_nth(14) declared_lengths(14) [OF assms]]) simp
qed

lemma sections_covered:
  assumes "tables_fit t"
  shows "\<forall>(name, off, n, stride) \<in> set (header_sections (make_header t)).
    stride < 2 ^ 64 \<and> unat off + unat n * stride \<le> length (write_tables t)"
proof -
  note covered = section_declared(2) [OF assms _ sections_nth(1) declared_lengths(1) [OF assms]]
    section_declared(2) [OF assms _ sections_nth(2) declared_lengths(2) [OF assms]]
    section_declared(2) [OF assms _ sections_nth(3) declared_lengths(3) [OF assms]]
    section_declared(2) [OF assms _ sections_nth(4) declared_lengths(4) [OF assms]]
    section_declared(2) [OF assms _ sections_nth(5) declared_lengths(5) [OF assms]]
    section_declared(2) [OF assms _ sections_nth(6) declared_lengths(6) [OF assms]]
    section_declared(2) [OF assms _ sections_nth(7) declared_lengths(7) [OF assms]]
    section_declared(2) [OF assms _ sections_nth(8) declared_lengths(8) [OF assms]]
    section_declared(2) [OF assms _ sections_nth(9) declared_lengths(9) [OF assms]]
    section_declared(2) [OF assms _ sections_nth(10) declared_lengths(10) [OF assms]]
    section_declared(2) [OF assms _ sections_nth(11) declared_lengths(11) [OF assms]]
    section_declared(2) [OF assms _ sections_nth(12) declared_lengths(12) [OF assms]]
    section_declared(2) [OF assms _ sections_nth(13) declared_lengths(13) [OF assms]]
    section_declared(2) [OF assms _ sections_nth(14) declared_lengths(14) [OF assms]]
  then show ?thesis
    by (simp add: header_sections_def len_defs del: make_header_fields(2,4,6,8,10,12,14,16,18,20,22,24,26,28))
qed

lemma open_written:
  assumes "tables_fit t"
  shows "index_open (write_tables t) = Inr (opened t)"
proof -
  have "length (write_tables t) < 2 ^ 64"
    using write_tables_eq [OF assms] by simp
  then have "check_sections (length (write_tables t)) (header_sections (make_header t)) = None"
    by (rule check_sections_None [OF sections_covered [OF assms]])
  then show ?thesis
    using header_of_written [OF assms]
    by (simp add: index_open_def opened_def Let_def VERSION_def MIN_VERSION_def)
qed

end
