(* ===== verification/S2_Postings.thy ===== *)
theory S2_Postings
  imports S2_Trigram
begin

text \<open>
  The two-pass build of the trigram index is correct: it never panics, the dictionary lists every
  trigram in order, and the postings blob is the concatenation, in dictionary order, of the
  reference region of each trigram's ascending posting list.
\<close>

section \<open>Reference regions\<close>

text \<open>The packed blocks: gap deltas, the base reset at every block start.\<close>

fun gap_bytes :: "nat \<Rightarrow> u32 \<Rightarrow> u32 list \<Rightarrow> bytes" where
  "gap_bytes n prev [] = []"
| "gap_bytes n prev (r # rs) = write_varint [] (delta_of n prev r) @ gap_bytes (Suc n) r rs"

abbreviation packed :: "u32 list \<Rightarrow> bytes" where
  "packed ps \<equiv> gap_bytes 0 (- 1) ps"

definition skip_entry :: "nat \<Rightarrow> u32 list \<Rightarrow> nat \<Rightarrow> bytes" where
  "skip_entry nb ps j =
     be32 (ps ! (min (TRIGRAM_BLOCK * (j + 1)) (length ps) - 1)) @
     be32 (of_nat (nb * SKIP_ENTRY + length (packed (take (TRIGRAM_BLOCK * j) ps))))"

definition skip_table :: "nat \<Rightarrow> u32 list \<Rightarrow> bytes" where
  "skip_table nb ps = concat (map (skip_entry nb ps) [0..<n_blocks (length ps)])"

definition region :: "u32 list \<Rightarrow> bytes" where
  "region ps = skip_table (n_blocks (length ps)) ps @ packed ps"

text \<open>The posting list of a trigram in an event stream.\<close>

definition plist :: "tri \<Rightarrow> (tri \<times> u32) list \<Rightarrow> u32 list" where
  "plist t evs = remdups_adj (map snd (filter (\<lambda>e. fst e = t) evs))"

section \<open>Pass 1\<close>

lemma acc_fold:
  "c \<noteq> 0 \<Longrightarrow> fold acc_visit rs (c, bb, prev) =
     (let qs = tl (remdups_adj (prev # rs))
      in (c + length qs, bb + length (gap_bytes c prev qs), last (prev # qs)))"
proof (induction rs arbitrary: c bb prev)
  case (Cons r rs)
  obtain qs where qs: "remdups_adj (r # rs) = r # qs"
    by (metis hd_remdups_adj list.distinct(1) list.exhaust_sel list.sel(1) remdups_adj_Nil_iff)
  show ?case
  proof (cases "prev = r")
    case True
    with Cons show ?thesis by simp
  next
    case False
    with Cons.IH [of "Suc c"] Cons.prems qs show ?thesis
      by (simp add: Let_def length_write_varint)
  qed
qed simp

lemma acc_fold_start:
  assumes "rs \<noteq> []"
  shows "fold acc_visit rs (0, 0, - 1) =
    (length (remdups_adj rs), length (packed (remdups_adj rs)), last (remdups_adj rs))"
proof -
  obtain r rs' where rs: "rs = r # rs'" using assms by (cases rs) auto
  obtain qs where qs: "remdups_adj (r # rs') = r # qs"
    by (metis hd_remdups_adj list.distinct(1) list.exhaust_sel list.sel(1) remdups_adj_Nil_iff)
  then show ?thesis
    using acc_fold [of 1 rs' "varint_len (delta_of 0 (- 1) r)" r]
    by (simp add: rs length_write_varint Let_def)
qed

lemma pass1_lookup:
  "map_of (pass1 evs acc) t =
     (if map snd (filter (\<lambda>e. fst e = t) evs) = [] then map_of acc t
      else Some (fold acc_visit (map snd (filter (\<lambda>e. fst e = t) evs))
        (case map_of acc t of None \<Rightarrow> (0, 0, - 1) | Some a \<Rightarrow> a)))"
proof (induction evs acc rule: pass1.induct)
  case (2 t' row evs acc)
  then show ?case by (auto split: option.splits)
qed simp

lemma pass1_keys: "fst ` set (pass1 evs acc) = fst ` set evs \<union> fst ` set acc"
  by (induction evs acc rule: pass1.induct) auto

lemma pass1_distinct: "hm_ok acc \<Longrightarrow> hm_ok (pass1 evs acc)"
  by (induction evs acc rule: pass1.induct) auto

lemma pass1_result:
  assumes "t \<in> fst ` set evs"
  shows "map_of (pass1 evs []) t =
    Some (length (plist t evs), length (packed (plist t evs)), last (plist t evs))"
proof -
  have "map snd (filter (\<lambda>e. fst e = t) evs) \<noteq> []" using assms by (auto simp: filter_empty_conv)
  then show ?thesis by (simp add: pass1_lookup acc_fold_start plist_def del: map_is_Nil_conv)
qed

section \<open>Writes into the postings buffer\<close>

lemma copy_at_mid:
  "length X = length bs \<Longrightarrow> i = length A \<Longrightarrow> copy_at (A @ X @ B) i bs = Some (A @ bs @ B)"
  by (simp add: copy_at_def)

lemma put_varint_eq:
  "cursor + varint_len v \<le> length buf \<Longrightarrow>
     put_varint buf cursor v =
       Some (take cursor buf @ write_varint [] v @ drop (cursor + varint_len v) buf, cursor + varint_len v)"
proof (induction buf cursor v rule: put_varint.induct)
  case (1 buf cursor v)
  have lt: "cursor < length buf" using 1(2) varint_len_u32(1) [of v] by simp
  show ?case
  proof (cases "0x80 \<le> v")
    case True
    let ?b = "ucast v OR 0x80 :: u8"
    have w: "write_varint [] v = ?b # write_varint [] (drop_bit 7 v)" "varint_len v = Suc (varint_len (drop_bit 7 v))"
      using True write_varint_append [of "[?b]" "drop_bit 7 v"]
      by (simp_all add: write_varint.simps [of "[]" v] varint_len_unfold [of v])
    have "put_varint (buf[cursor := ?b]) (cursor + 1) (drop_bit 7 v) =
        Some (take (cursor + 1) (buf[cursor := ?b]) @ write_varint [] (drop_bit 7 v) @
          drop (cursor + 1 + varint_len (drop_bit 7 v)) (buf[cursor := ?b]), cursor + 1 + varint_len (drop_bit 7 v))"
      using 1(2) w(2) by (intro 1(1) [OF lt True]) simp
    moreover have "take (cursor + 1) (buf[cursor := ?b]) = take cursor buf @ [?b]"
      using lt by (simp add: take_Suc_conv_app_nth)
    moreover have "drop (cursor + 1 + k) (buf[cursor := ?b]) = drop (cursor + 1 + k) buf" for k
      by (simp add: drop_update_cancel)
    ultimately show ?thesis using True lt w by (subst put_varint.simps) simp
  next
    case False
    then show ?thesis
      using lt by (subst put_varint.simps)
        (simp add: write_varint.simps [of "[]" v] varint_len_unfold [of v] upd_conv_take_nth_drop)
  qed
qed

lemma put_varint_mid:
  "length X = varint_len v \<Longrightarrow> i = length A \<Longrightarrow>
     put_varint (A @ X @ B) i v = Some (A @ write_varint [] v @ B, i + varint_len v)"
  by (subst put_varint_eq) simp_all

section \<open>Growing one region\<close>

text \<open>The state of a region of \<open>L\<close> bytes and \<open>nb\<close> blocks while \<open>ps\<close> has been written.\<close>

definition part :: "nat \<Rightarrow> nat \<Rightarrow> u32 list \<Rightarrow> bytes" where
  "part nb L ps =
     skip_table nb ps @ replicate ((nb - n_blocks (length ps)) * SKIP_ENTRY) 0 @
     packed ps @ replicate (L - nb * SKIP_ENTRY - length (packed ps)) 0"

lemma block_bounds: "n < 128 * (n div 128 + 1)" "128 * (n div 128) \<le> (n::nat)"
  by (simp_all add: dividend_less_times_div)

lemma n_blocks_Suc: "n_blocks (Suc n) = Suc (n div TRIGRAM_BLOCK)"
proof -
  have "(Suc n + 128 - 1) div 128 = Suc (n div 128)" by simp
  then show ?thesis by (simp add: n_blocks_def TRIGRAM_BLOCK_def)
qed

lemma n_blocks_eq: "n_blocks n = n div TRIGRAM_BLOCK + (if n mod TRIGRAM_BLOCK = 0 then 0 else 1)"
proof (cases n)
  case 0
  then show ?thesis by (simp add: n_blocks_def TRIGRAM_BLOCK_def)
next
  case (Suc m)
  show ?thesis
    unfolding Suc n_blocks_Suc by (simp add: TRIGRAM_BLOCK_def div_Suc mod_Suc)
qed

lemma gap_bytes_append:
  "gap_bytes n prev (xs @ ys) = gap_bytes n prev xs @ gap_bytes (n + length xs) (last (prev # xs)) ys"
  by (induction xs arbitrary: n prev) simp_all

lemma packed_snoc:
  "packed (ps @ [r]) = packed ps @ write_varint [] (delta_of (length ps) (if ps = [] then - 1 else last ps) r)"
  by (simp add: gap_bytes_append)

lemma length_skip_entry [simp]: "length (skip_entry nb ps j) = SKIP_ENTRY"
  by (simp add: skip_entry_def SKIP_ENTRY_def)

lemma length_concat_skip [simp]: "length (concat (map (skip_entry nb ps) js)) = length js * SKIP_ENTRY"
  by (induction js) simp_all

lemma skip_entry_prefix:
  assumes "TRIGRAM_BLOCK * (j + 1) \<le> length ps"
  shows "skip_entry nb (ps @ qs) j = skip_entry nb ps j"
  using assms by (simp add: skip_entry_def nth_append TRIGRAM_BLOCK_def min_def)

abbreviation full_entries :: "nat \<Rightarrow> u32 list \<Rightarrow> bytes" where
  "full_entries nb ps \<equiv> concat (map (skip_entry nb ps) [0..<length ps div TRIGRAM_BLOCK])"

abbreviation block_off :: "nat \<Rightarrow> u32 list \<Rightarrow> u32" where
  "block_off nb ps \<equiv>
     of_nat (nb * SKIP_ENTRY + length (packed (take (TRIGRAM_BLOCK * (length ps div TRIGRAM_BLOCK)) ps)))"

lemma skip_table_open:
  assumes "length ps mod TRIGRAM_BLOCK \<noteq> 0"
  shows "skip_table nb ps = full_entries nb ps @ be32 (last ps) @ be32 (block_off nb ps)"
proof -
  let ?n = "length ps"
  have "?n < 128 * (?n div 128 + 1)" by (rule block_bounds)
  moreover have "ps \<noteq> []" using assms by auto
  ultimately show ?thesis
    using assms by (simp add: skip_table_def n_blocks_eq skip_entry_def TRIGRAM_BLOCK_def last_conv_nth min_def)
qed

lemma skip_table_full:
  assumes "length ps mod TRIGRAM_BLOCK = 0"
  shows "skip_table nb ps = full_entries nb ps" and "block_off nb ps = of_nat (nb * SKIP_ENTRY + length (packed ps))"
proof -
  show "skip_table nb ps = full_entries nb ps" using assms by (simp add: skip_table_def n_blocks_eq)
  have "TRIGRAM_BLOCK * (length ps div TRIGRAM_BLOCK) = length ps" using assms by auto
  then show "block_off nb ps = of_nat (nb * SKIP_ENTRY + length (packed ps))" by simp
qed

lemma skip_table_snoc:
  "skip_table nb (ps @ [r]) = full_entries nb ps @ be32 r @ be32 (block_off nb ps)"
proof -
  let ?n = "length ps" and ?j = "length ps div TRIGRAM_BLOCK"
  have "skip_entry nb (ps @ [r]) j = skip_entry nb ps j" if "j < ?j" for j
  proof (rule skip_entry_prefix)
    have "TRIGRAM_BLOCK * (j + 1) \<le> TRIGRAM_BLOCK * ?j" using that by (intro mult_left_mono) auto
    also have "\<dots> \<le> ?n" by simp
    finally show "TRIGRAM_BLOCK * (j + 1) \<le> ?n" .
  qed
  then have "concat (map (skip_entry nb (ps @ [r])) [0..<?j]) = full_entries nb ps"
    by (intro arg_cong [of _ _ concat] map_cong) auto
  moreover have "\<not> 128 * (?n div 128 + 1) \<le> ?n" "128 * (?n div 128) \<le> ?n"
    using block_bounds [of ?n] by simp_all
  then have "skip_entry nb (ps @ [r]) ?j = be32 r @ be32 (block_off nb ps)"
    by (simp add: skip_entry_def TRIGRAM_BLOCK_def min_def nth_append)
  ultimately show ?thesis
    by (simp add: skip_table_def n_blocks_Suc)
qed

text \<open>One posting written into its region, in a buffer \<open>A @ region @ B\<close>.\<close>

lemma grow_part:
  fixes A B :: bytes
  assumes nb: "n_blocks (length ps + 1) \<le> nb" and L: "nb * SKIP_ENTRY + length (packed (ps @ [r])) \<le> L"
    and prev: "prev = (if ps = [] then - 1 else last ps)"
  shows "write_posting (length A) (length ps) (length A + nb * SKIP_ENTRY + length (packed ps)) prev r
      (A @ part nb L ps @ B) =
    Some (A @ part nb L (ps @ [r]) @ B, length A + nb * SKIP_ENTRY + length (packed (ps @ [r])))"
proof -
  let ?S = "full_entries nb ps" and ?j = "length ps div TRIGRAM_BLOCK"
  define cur where "cur = length A + nb * SKIP_ENTRY + length (packed ps)"
  define entry where "entry = length A + length ps div TRIGRAM_BLOCK * SKIP_ENTRY"
  define delta where "delta = delta_of (length ps) prev r"
  define Z where "Z = replicate ((nb - Suc ?j) * SKIP_ENTRY) (0::u8)"
  define Y where "Y = replicate (L - nb * SKIP_ENTRY - length (packed (ps @ [r]))) (0::u8)"
  define X where "X = replicate (varint_len delta) (0::u8)"
  define old where "old = (if length ps mod TRIGRAM_BLOCK = 0 then replicate 4 (0::u8) else be32 (last ps))"
  define off where "off = (if length ps mod TRIGRAM_BLOCK = 0 then replicate 4 (0::u8) else be32 (block_off nb ps))"
  have len_packed: "length (packed (ps @ [r])) = length (packed ps) + varint_len delta"
    by (simp add: packed_snoc length_write_varint delta_def prev)
  have j: "Suc ?j \<le> nb" using nb by (simp add: n_blocks_Suc)
  have tail: "replicate (L - (nb * SKIP_ENTRY + length (packed ps))) (0::u8) = X @ Y"
    using L len_packed by (simp add: X_def Y_def flip: replicate_add)
  have before: "part nb L ps = ?S @ old @ off @ Z @ packed ps @ X @ Y"
  proof (cases "length ps mod TRIGRAM_BLOCK = 0")
    case True
    have "(nb - ?j) * SKIP_ENTRY = 4 + (4 + (nb - Suc ?j) * SKIP_ENTRY)"
      using j by (simp add: SKIP_ENTRY_def Suc_diff_le diff_mult_distrib)
    then have "replicate ((nb - ?j) * SKIP_ENTRY) (0::u8) = replicate 4 0 @ replicate 4 0 @ Z"
      by (simp only: Z_def replicate_add)
    then show ?thesis
      using True by (simp add: part_def skip_table_full tail old_def off_def n_blocks_eq)
  next
    case False
    then show ?thesis
      by (simp add: part_def skip_table_open tail old_def off_def n_blocks_eq Z_def)
  qed
  have after: "part nb L (ps @ [r]) = ?S @ be32 r @ be32 (block_off nb ps) @ Z @ (packed ps @ write_varint [] delta) @ Y"
    by (simp add: part_def skip_table_snoc n_blocks_Suc Z_def packed_snoc delta_def prev)
      (simp add: Y_def packed_snoc prev)
  have entry: "length (A @ ?S) = entry" by (simp add: entry_def)
  have S4: "length old = 4" "length off = 4" by (simp_all add: old_def off_def)
  have post1: "(if length ps mod TRIGRAM_BLOCK = 0
      then copy_at (A @ part nb L ps @ B) (entry + 4) (be32 (of_nat (cur - length A)))
      else Some (A @ part nb L ps @ B)) =
      Some ((A @ ?S @ old @ be32 (block_off nb ps) @ Z @ packed ps) @ X @ (Y @ B))"
  proof (cases "length ps mod TRIGRAM_BLOCK = 0")
    case True
    have "copy_at ((A @ ?S @ old) @ off @ (Z @ packed ps @ X @ Y @ B)) (entry + 4) (be32 (of_nat (cur - length A))) =
        Some ((A @ ?S @ old) @ be32 (of_nat (cur - length A)) @ (Z @ packed ps @ X @ Y @ B))"
      using entry S4 by (intro copy_at_mid) simp_all
    moreover have "of_nat (cur - length A) = block_off nb ps"
      using skip_table_full(2) [OF True] by (simp add: cur_def)
    ultimately show ?thesis using True before by simp
  next
    case False
    then show ?thesis using before by (simp add: off_def)
  qed
  have "length (A @ ?S @ old @ be32 (block_off nb ps) @ Z @ packed ps) = cur"
    using entry S4 j by (simp add: cur_def entry_def Z_def SKIP_ENTRY_def diff_mult_distrib)
  then have post2: "put_varint ((A @ ?S @ old @ be32 (block_off nb ps) @ Z @ packed ps) @ X @ (Y @ B)) cur delta =
      Some ((A @ ?S @ old @ be32 (block_off nb ps) @ Z @ packed ps) @ write_varint [] delta @ (Y @ B), cur + varint_len delta)"
    by (intro put_varint_mid) (simp_all add: X_def)
  have post3: "copy_at ((A @ ?S) @ old @ (be32 (block_off nb ps) @ Z @ packed ps @ write_varint [] delta @ Y @ B)) entry (be32 r) =
      Some ((A @ ?S) @ be32 r @ (be32 (block_off nb ps) @ Z @ packed ps @ write_varint [] delta @ Y @ B))"
    using entry S4 by (intro copy_at_mid) simp_all
  show ?thesis
    unfolding write_posting_def Let_def cur_def [symmetric] entry_def [symmetric] delta_def [symmetric]
      post1 bind.bind_lunit post2
    using post3 len_packed by (simp add: after cur_def)
qed

section \<open>Posting lists of event prefixes\<close>

lemma remdups_adj_snoc:
  "remdups_adj (xs @ [x]) = (if xs \<noteq> [] \<and> last xs = x then remdups_adj xs else remdups_adj xs @ [x])"
  by (induction xs rule: remdups_adj.induct) auto

lemma plist_snoc:
  "plist t (d @ [(t', row)]) =
     (if t' \<noteq> t \<or> plist t d \<noteq> [] \<and> last (plist t d) = row then plist t d else plist t d @ [row])"
  by (auto simp: plist_def remdups_adj_snoc last_remdups_adj)

lemma plist_prefix: "\<exists>qs. plist t (d @ e) = plist t d @ qs"
proof (induction e rule: rev_induct)
  case (snoc x e)
  then obtain qs where "plist t (d @ e) = plist t d @ qs" by blast
  then show ?case using plist_snoc [of t "d @ e" "fst x" "snd x"] by (cases x) auto
qed simp

lemma plist_empty: "plist t d = [] \<longleftrightarrow> t \<notin> fst ` set d"
  by (auto simp: plist_def filter_empty_conv)

lemma n_blocks_mono: "m \<le> n \<Longrightarrow> n_blocks m \<le> n_blocks n"
  by (simp add: n_blocks_def TRIGRAM_BLOCK_def div_le_mono)

lemma length_region: "length (region ps) = n_blocks (length ps) * SKIP_ENTRY + length (packed ps)"
  by (simp add: region_def skip_table_def)

lemma part_full: "part (n_blocks (length ps)) (length (region ps)) ps = region ps"
  by (simp add: part_def region_def skip_table_def)

lemma part_empty: "nb * SKIP_ENTRY \<le> L \<Longrightarrow> part nb L [] = replicate L 0"
  by (simp add: part_def skip_table_def n_blocks_def TRIGRAM_BLOCK_def flip: replicate_add)

lemma length_part:
  assumes "n_blocks (length ps) \<le> nb" and "nb * SKIP_ENTRY + length (packed ps) \<le> L"
  shows "length (part nb L ps) = L"
proof -
  have "n_blocks (length ps) * SKIP_ENTRY \<le> nb * SKIP_ENTRY" using assms(1) by (rule mult_le_mono1)
  then have "n_blocks (length ps) * SKIP_ENTRY \<le> L" using assms(2) by linarith
  then show ?thesis using assms by (simp add: part_def skip_table_def diff_mult_distrib)
qed

section \<open>Dictionary rows\<close>

fun dict_rows :: "(tri \<Rightarrow> u32 list) \<Rightarrow> nat \<Rightarrow> tri list \<Rightarrow> (tri \<times> nat \<times> nat \<times> nat) list" where
  "dict_rows PS tot [] = []"
| "dict_rows PS tot (t # ks) =
     (t, tot, length (region (PS t)), length (PS t)) # dict_rows PS (tot + length (region (PS t))) ks"

abbreviation regions_len :: "(tri \<Rightarrow> u32 list) \<Rightarrow> tri list \<Rightarrow> nat" where
  "regions_len PS ks \<equiv> sum_list (map (\<lambda>t. length (region (PS t))) ks)"

lemma assign_regions_eq:
  assumes "\<And>t. t \<in> set ks \<Longrightarrow> \<exists>l. map_of acc t = Some (length (PS t), length (packed (PS t)), l)"
  shows "assign_regions acc ks tot = (dict_rows PS tot ks, tot + regions_len PS ks)"
  using assms
proof (induction ks arbitrary: tot)
  case (Cons t ks)
  obtain l where "map_of acc t = Some (length (PS t), length (packed (PS t)), l)"
    using Cons.prems [OF list.set_intros(1)] by blast
  moreover have "assign_regions acc ks tot' = (dict_rows PS tot' ks, tot' + regions_len PS ks)" for tot'
    using Cons.prems [OF list.set_intros(2)] by (rule Cons.IH)
  ultimately show ?case by (simp add: Let_def length_region add.assoc)
qed simp

lemma dict_rows_keys: "map fst (dict_rows PS tot ks) = ks"
  by (induction ks arbitrary: tot) simp_all

lemma dict_rows_lookup:
  "t \<notin> set ks1 \<Longrightarrow> map_of (dict_rows PS tot (ks1 @ t # ks2)) t =
     Some (tot + regions_len PS ks1, length (region (PS t)), length (PS t))"
  by (induction ks1 arbitrary: tot) auto

section \<open>Pass 2\<close>

abbreviation buffer :: "(tri \<Rightarrow> u32 list) \<Rightarrow> tri list \<Rightarrow> (tri \<times> u32) list \<Rightarrow> bytes" where
  "buffer PS ks d \<equiv>
     concat (map (\<lambda>t. part (n_blocks (length (PS t))) (length (region (PS t))) (plist t d)) ks)"

definition pass2_inv ::
    "(tri \<Rightarrow> u32 list) \<Rightarrow> tri list \<Rightarrow> (tri \<times> u32) list \<Rightarrow> bytes \<times> (tri \<times> wstate) list \<Rightarrow> bool" where
  "pass2_inv PS ks d st \<longleftrightarrow> fst st = buffer PS ks d \<and>
     (\<forall>ks1 t ks2. ks = ks1 @ t # ks2 \<longrightarrow> map_of (snd st) t =
        (if plist t d = [] then None
         else Some (length (plist t d),
           regions_len PS ks1 + n_blocks (length (PS t)) * SKIP_ENTRY + length (packed (plist t d)),
           last (plist t d))))"

text \<open>What is left of an event stream bounds what has been written.\<close>

lemma plist_fits:
  assumes "plist t (d @ e) = plist t d @ qs" and "ps = plist t (d @ e)"
  shows "n_blocks (length (plist t d)) \<le> n_blocks (length ps)"
    and "n_blocks (length ps) * SKIP_ENTRY + length (packed (plist t d)) \<le> length (region ps)"
  using assms by (simp_all add: n_blocks_mono length_region gap_bytes_append)

lemma buffer_other:
  "t \<notin> set ks \<Longrightarrow> buffer PS ks (d @ [(t, row)]) = buffer PS ks d"
  by (intro arg_cong [of _ _ concat] map_cong) (auto simp: plist_snoc)

lemma length_buffer:
  assumes "\<And>t. t \<in> set ks \<Longrightarrow> PS t = plist t (d @ e)"
  shows "length (buffer PS ks d) = regions_len PS ks"
proof -
  have "length (part (n_blocks (length (PS t))) (length (region (PS t))) (plist t d)) = length (region (PS t))"
    if "t \<in> set ks" for t
    using plist_prefix [of t d e] plist_fits [of t d e] assms [OF that] by (metis length_part)
  then show ?thesis by (simp add: length_concat comp_def cong: map_cong)
qed

lemma pass2_step_inv:
  assumes inv: "pass2_inv PS ks d st" and ks: "distinct ks" "t \<in> set ks"
    and PS: "\<And>t. PS t = plist t ((d @ [(t0, row)]) @ e)" and t: "t0 = t"
  shows "\<exists>st'. pass2_step (dict_rows PS 0 ks) t row st = Some st' \<and> pass2_inv PS ks (d @ [(t, row)]) st'"
proof -
  obtain ks1 ks2 where split: "ks = ks1 @ t # ks2" using ks(2) by (meson split_list)
  have notin: "t \<notin> set ks1" "t \<notin> set ks2" using ks(1) split by auto
  obtain post wst where st: "st = (post, wst)" by (cases st)
  let ?ps = "plist t d" and ?nb = "n_blocks (length (PS t))" and ?L = "length (region (PS t))"
  let ?A = "buffer PS ks1 d" and ?B = "buffer PS ks2 d"
  have lenA: "length ?A = regions_len PS ks1"
    using PS t by (intro length_buffer [where e = "(t0, row) # e"]) simp
  have post: "post = ?A @ part ?nb ?L ?ps @ ?B" using inv by (simp add: pass2_inv_def st split)
  have wst: "map_of wst t = (if ?ps = [] then None
      else Some (length ?ps, length ?A + ?nb * SKIP_ENTRY + length (packed ?ps), last ?ps))"
    using inv [unfolded pass2_inv_def, THEN conjunct2, rule_format, OF split] by (simp only: lenA st snd_conv)
  have row: "map_of (dict_rows PS 0 ks) t = Some (length ?A, ?L, length (PS t))"
    using dict_rows_lookup [OF notin(1), of PS 0 ks2] by (simp add: split lenA)
  have written: "(case map_of wst t of Some w \<Rightarrow> w | None \<Rightarrow> (0, length ?A + ?nb * SKIP_ENTRY, - 1)) =
      (length ?ps, length ?A + ?nb * SKIP_ENTRY + length (packed ?ps), if ?ps = [] then - 1 else last ?ps)"
    by (simp add: wst)
  show ?thesis
  proof (cases "?ps \<noteq> [] \<and> last ?ps = row")
    case True
    then have same: "plist t' (d @ [(t, row)]) = plist t' d" for t' by (auto simp: plist_snoc)
    have "pass2_step (dict_rows PS 0 ks) t row st = Some st"
      using True by (simp add: pass2_step_def row st written)
    then show ?thesis using inv by (simp add: pass2_inv_def same)
  next
    case False
    then have new: "plist t (d @ [(t, row)]) = ?ps @ [row]" by (auto simp: plist_snoc)
    obtain qs where qs: "plist t ((d @ [(t, row)]) @ e) = (?ps @ [row]) @ qs"
      using plist_prefix [of t "d @ [(t, row)]" e] new by auto
    have nb: "n_blocks (length ?ps + 1) \<le> ?nb" and L: "?nb * SKIP_ENTRY + length (packed (?ps @ [row])) \<le> ?L"
      using plist_fits [of t "d @ [(t, row)]" e qs "PS t"] qs PS [of t] t by (simp_all add: new)
    define w' where "w' = (length ?ps + 1, length ?A + ?nb * SKIP_ENTRY + length (packed (?ps @ [row])), row)"
    have "pass2_step (dict_rows PS 0 ks) t row st =
        Some (?A @ part ?nb ?L (?ps @ [row]) @ ?B, hm_insert t w' wst)"
      using grow_part [OF nb L refl, of ?A ?B] False
      by (simp add: pass2_step_def row st written post w'_def) blast
    moreover have "?A @ part ?nb ?L (?ps @ [row]) @ ?B = buffer PS ks (d @ [(t, row)])"
      using notin by (simp add: split new buffer_other)
    moreover have "pass2_inv PS ks (d @ [(t, row)]) (buffer PS ks (d @ [(t, row)]), hm_insert t w' wst)"
      unfolding pass2_inv_def
    proof (intro conjI allI impI)
      fix ks1' t' ks2' assume split': "ks = ks1' @ t' # ks2'"
      show "map_of (snd (buffer PS ks (d @ [(t, row)]), hm_insert t w' wst)) t' =
        (if plist t' (d @ [(t, row)]) = [] then None
         else Some (length (plist t' (d @ [(t, row)])),
           regions_len PS ks1' + n_blocks (length (PS t')) * SKIP_ENTRY + length (packed (plist t' (d @ [(t, row)]))),
           last (plist t' (d @ [(t, row)]))))"
      proof (cases "t' = t")
        case True
        have "ks1' = ks1" using ks(1) split split' True
          by (metis append_Cons_eq_iff notin)
        then show ?thesis
          using True new lenA by (simp add: w'_def split: option.split)
      next
        case False
        then show ?thesis
          using inv [unfolded pass2_inv_def, THEN conjunct2, rule_format, OF split'] by (simp add: st plist_snoc)
      qed
    qed simp
    ultimately show ?thesis by auto
  qed
qed

lemma pass2_inv_all:
  assumes "pass2_inv PS ks d st" and "distinct ks" and "fst ` set e \<subseteq> set ks"
    and "\<And>t. PS t = plist t (d @ e)"
  shows "\<exists>st'. pass2 (dict_rows PS 0 ks) e st = Some st' \<and> pass2_inv PS ks (d @ e) st'"
  using assms
proof (induction e arbitrary: d st)
  case (Cons x e)
  obtain t row where x: "x = (t, row)" by (cases x)
  have PS: "PS t' = plist t' ((d @ [(t, row)]) @ e)" for t' using Cons.prems(4) [of t'] x by simp
  obtain st1 where st1: "pass2_step (dict_rows PS 0 ks) t row st = Some st1" "pass2_inv PS ks (d @ [(t, row)]) st1"
    using pass2_step_inv [OF Cons.prems(1,2) _ PS refl] Cons.prems(3) x by auto
  from Cons.IH [OF st1(2) Cons.prems(2) _ PS] Cons.prems(3)
  show ?case by (auto simp: x st1(1))
qed auto

lemma pass2_result:
  assumes "distinct ks" and "fst ` set evs \<subseteq> set ks" and PS: "PS = (\<lambda>t. plist t evs)"
  shows "\<exists>wst. pass2 (dict_rows PS 0 ks) evs (replicate (regions_len PS ks) 0, []) =
    Some (concat (map (\<lambda>t. region (PS t)) ks), wst)"
proof -
  have "part (n_blocks (length (PS t))) (length (region (PS t))) [] = replicate (length (region (PS t))) 0" for t
    by (rule part_empty) (simp add: length_region)
  then have "buffer PS ks [] = concat (map (\<lambda>t. replicate (length (region (PS t))) 0) ks)"
    by (simp add: plist_def)
  also have "\<dots> = replicate (regions_len PS ks) 0"
    by (induction ks) (simp_all add: replicate_add)
  finally have "pass2_inv PS ks [] (replicate (regions_len PS ks) 0, [])"
    by (simp add: pass2_inv_def plist_def)
  then obtain st' where st': "pass2 (dict_rows PS 0 ks) evs (replicate (regions_len PS ks) 0, []) = Some st'"
      "pass2_inv PS ks evs st'"
    using pass2_inv_all [of PS ks "[]" "(replicate (regions_len PS ks) 0, [])" evs] assms(1,2) PS by fastforce
  moreover have "buffer PS ks evs = concat (map (\<lambda>t. region (PS t)) ks)"
    by (simp add: PS part_full)
  ultimately show ?thesis by (cases st') (simp add: pass2_inv_def)
qed

section \<open>The whole build\<close>

lemma visit_from_Some:
  assumes "\<forall>r \<in> set rows. name_slice blob r \<noteq> None"
  shows "visit_from i rows blob \<noteq> None"
  using assms by (induction i rows blob rule: visit_from.induct) (auto split: option.splits)

theorem build_regions:
  assumes "visit by_name blob = Some evs"
  defines "ks \<equiv> sort_dedup (map fst evs)" and "PS \<equiv> \<lambda>t. plist t evs"
  shows "build_trigram_index by_name blob =
    Some (concat (map enc_trigram (dict_rows PS 0 ks)), concat (map (\<lambda>t. region (PS t)) ks))"
proof -
  have keys: "sort (map fst (pass1 evs [])) = ks"
    unfolding ks_def by (rule sort_dedup_unique)
      (simp_all add: pass1_distinct distinct_sort pass1_keys)
  have "\<exists>l. map_of (pass1 evs []) t = Some (length (PS t), length (packed (PS t)), l)" if "t \<in> set ks" for t
    using pass1_result [of t evs] that by (auto simp: ks_def PS_def)
  then have assign: "assign_regions (pass1 evs []) ks 0 = (dict_rows PS 0 ks, regions_len PS ks)"
    using assign_regions_eq [of ks "pass1 evs []" PS 0] by simp
  obtain wst where "pass2 (dict_rows PS 0 ks) evs (replicate (regions_len PS ks) 0, []) =
      Some (concat (map (\<lambda>t. region (PS t)) ks), wst)"
    using pass2_result [of ks evs PS] by (auto simp: ks_def PS_def)
  then show ?thesis
    by (simp add: build_trigram_index_def assms(1) keys assign Let_def)
qed

end
