(* ===== verification/S2_Query.thy ===== *)
theory S2_Query
  imports S2_Layout S2_Postings
begin

text \<open>
  What the reader's lookups return on an index the writer laid out, at the level of the serialised
  tables: the decoders invert the row images, the range scans are filters of the sorted table and
  the exact-key searches are map lookups.
\<close>

section \<open>Decoding rows\<close>

context fixed_rows
begin

lemma get_row_u64:
  assumes "i < length rows" and "a + 8 \<le> W"
  shows "get_u64 (concat (map enc rows)) (i * W + a) = get_u64 (enc (rows ! i)) a"
  using row_slice [OF assms(1), of a "a + 8"] assms(2) by (simp add: get_u64_def add.assoc)

lemma get_row_u32:
  assumes "i < length rows" and "a + 4 \<le> W"
  shows "get_u32 (concat (map enc rows)) (i * W + a) = get_u32 (enc (rows ! i)) a"
  using row_slice [OF assms(1), of a "a + 4"] assms(2) by (simp add: get_u32_def add.assoc)

lemma get_row_u16:
  assumes "i < length rows" and "a + 2 \<le> W"
  shows "get_u16 (concat (map enc rows)) (i * W + a) = get_u16 (enc (rows ! i)) a"
  using row_slice [OF assms(1), of a "a + 2"] assms(2) by (simp add: get_u16_def add.assoc)

lemma get_row_u64_0: "i < length rows \<Longrightarrow> 8 \<le> W \<Longrightarrow>
    get_u64 (concat (map enc rows)) (i * W) = get_u64 (enc (rows ! i)) 0"
  using get_row_u64 [of i rows 0] by simp

lemma get_row_u32_0: "i < length rows \<Longrightarrow> 4 \<le> W \<Longrightarrow>
    get_u32 (concat (map enc rows)) (i * W) = get_u32 (enc (rows ! i)) 0"
  using get_row_u32 [of i rows 0] by simp

lemma iter_rows_table:
  assumes "\<And>i. i < length rows \<Longrightarrow> dec (i * W) = Some (g (rows ! i))"
  shows "iter_rows (length rows) W dec = Some (map g rows)"
proof -
  have "those (map (\<lambda>i. dec (i * W)) [0..<length rows]) = Some (map g (map ((!) rows) [0..<length rows]))"
    by (rule those_rows) (simp_all add: assms)
  then show ?thesis unfolding iter_rows_def map_nth .
qed

end

lemma get_be [simp]:
  "get_u64 (be64 a @ r) 0 = Some a" "get_u32 (be32 b @ r) 0 = Some b" "get_u16 (be16 c @ r) 0 = Some c"
  by (simp_all add: get_u64_def get_u32_def get_u16_def slice_simps)

lemma get_be_end [simp]:
  "get_u64 (be64 a) 0 = Some a" "get_u32 (be32 b) 0 = Some b" "get_u16 (be16 c) 0 = Some c"
  using get_be [where r = "[]"] by simp_all

lemma get_skip:
  "length xs \<le> n \<Longrightarrow> get_u64 (xs @ ys) n = get_u64 ys (n - length xs)"
  "length xs \<le> n \<Longrightarrow> get_u32 (xs @ ys) n = get_u32 ys (n - length xs)"
  "length xs \<le> n \<Longrightarrow> get_u16 (xs @ ys) n = get_u16 ys (n - length xs)"
  by (simp_all add: get_u64_def get_u32_def get_u16_def slice_simps Suc_diff_le)

lemma get_skip_Cons:
  "0 < n \<Longrightarrow> get_u64 (x # ys) n = get_u64 ys (n - 1)"
  "0 < n \<Longrightarrow> get_u32 (x # ys) n = get_u32 ys (n - 1)"
  "0 < n \<Longrightarrow> get_u16 (x # ys) n = get_u16 ys (n - 1)"
  using get_skip [of "[x]" n ys] by simp_all

lemma index_of_Cons: "index_of (x # xs) 0 = Some x" "0 < i \<Longrightarrow> index_of (x # xs) i = index_of xs (i - 1)"
  by (auto simp: index_of_def)

text \<open>Row widths in side conditions, without unfolding them in the addresses.\<close>

lemma width_le [simp]:
  "n \<le> XREF_LEN \<longleftrightarrow> n \<le> 17" "n \<le> SYM_LEN \<longleftrightarrow> n \<le> 20" "n \<le> NAME_LEN \<longleftrightarrow> n \<le> 18"
  "n \<le> FILE_LEN \<longleftrightarrow> n \<le> 14" "n \<le> INH_LEN \<longleftrightarrow> n \<le> 16" "n \<le> CALL_LEN \<longleftrightarrow> n \<le> 17"
  "n \<le> TYPE_LEN \<longleftrightarrow> n \<le> 18"
  "n < XREF_LEN \<longleftrightarrow> n < 17" "n < SYM_LEN \<longleftrightarrow> n < 20" "n < CALL_LEN \<longleftrightarrow> n < 17"
  by (simp_all add: len_defs)

lemmas get_simps = get_skip get_skip_Cons slice_simps index_of_Cons
  xref_table.get_row_u64_0 xref_table.get_row_u32 xref_table.row_index
  sym_table.get_row_u64_0 sym_table.get_row_u64 sym_table.get_row_u16 sym_table.row_index
  name_table.get_row_u64_0 name_table.get_row_u64 name_table.get_row_u16
  file_table.get_row_u32_0 file_table.get_row_u64 file_table.get_row_u16
  inh_table.get_row_u64_0 inh_table.get_row_u64
  call_table.get_row_u64_0 call_table.get_row_u64 call_table.row_index
  type_table.get_row_u64_0 type_table.get_row_u64 type_table.get_row_u16

lemma get_xref_row:
  assumes "i < length rows"
  shows "get_xref (concat (map enc_xref rows)) (i * XREF_LEN) = Some (rows ! i)"
  using assms by (cases "rows ! i") (simp add: get_xref_def get_simps)

lemma get_pair_row:
  assumes "i < length rows"
  shows "get_pair (concat (map enc_inh rows)) (i * INH_LEN) = Some (rows ! i)"
    and "get_u64 (concat (map enc_inh rows)) (i * INH_LEN + 8) = Some (snd (rows ! i))"
  using assms by (cases "rows ! i", simp add: get_pair_def get_simps)+

lemma get_call_row:
  assumes "i < length rows"
  shows "get_call (concat (map enc_call rows)) (i * CALL_LEN) = Some (snd (rows ! i))"
  using assms by (cases "rows ! i") (simp add: get_call_def get_simps)

section \<open>Range scans\<close>

lemma be_nat_zero: "be_nat k 0 = replicate k 0"
  by (induction k) (simp_all add: replicate_append_same)

lemma key_images:
  "enc_xref (s, r, 0, 0) = be64 s @ r # replicate 8 0"
  "enc_inh (s, 0) = be64 s @ replicate 8 0"
  "enc_call (s, 0, 0) = be64 s @ replicate 9 0"
proof -
  have zero: "be32 0 = replicate 4 0" "be64 0 = replicate 8 0"
    by (simp_all add: be32_def be64_def be_nat_zero)
  have "replicate 8 (0::u8) = replicate 4 0 @ replicate 4 0" "replicate 9 (0::u8) = replicate 8 0 @ [0]"
    by (simp_all add: eval_nat_numeral)
  then show "enc_xref (s, r, 0, 0) = be64 s @ r # replicate 8 0"
      "enc_inh (s, 0) = be64 s @ replicate 8 0" "enc_call (s, 0, 0) = be64 s @ replicate 9 0"
    by (simp_all only: enc_xref.simps enc_inh.simps enc_call.simps zero append.simps)
qed

lemma xrefs_table:
  assumes fit: "tables_fit t" and sorted: "sorted (t_xrefs t)" and key: "s \<noteq> - 1 \<or> role_hi \<noteq> 255"
  shows "xrefs (opened t) s role_lo role_hi =
    Some (filter (\<lambda>(s', r, f, off). s' = s \<and> role_lo \<le> r \<and> r \<le> role_hi) (t_xrefs t))"
proof -
  define a :: xref_row where "a = (s, role_lo, 0, 0)"
  define b :: xref_row where "b = (if role_hi = 255 then (s + 1, 0, 0, 0) else (s, role_hi + 1, 0, 0))"
  have keys: "be64 s @ role_lo # replicate 8 0 = enc_xref a"
      "(if role_hi = 255 then be64 (s + 1) @ 0 # replicate 8 0
        else be64 s @ (role_hi + 1) # replicate 8 0) = enc_xref b"
    by (simp_all only: a_def b_def if_distrib [of enc_xref] key_images)
  have mem: "a \<le> (s', r, f, off) \<and> (s', r, f, off) < b \<longleftrightarrow> s' = s \<and> role_lo \<le> r \<and> r \<le> role_hi"
    for s' r f off
  proof -
    have max: "- 1 = (255::u8)" by simp
    then have "r \<le> 255" using word_n1_ge [of r] by (simp only:)
    show ?thesis
      using key less_succ_iff [of s s'] less_succ_iff [of role_hi r] max \<open>r \<le> 255\<close> by (auto simp: a_def b_def)
  qed
  obtain lo hi where lb: "lower_bound (concat (map enc_xref (t_xrefs t))) (length (t_xrefs t)) XREF_LEN (enc_xref a) = Some lo"
      "lower_bound (concat (map enc_xref (t_xrefs t))) (length (t_xrefs t)) XREF_LEN (enc_xref b) = Some hi"
    using xref_table.lower_bound_rows [OF sorted] by blast
  note scan = xref_table.scan_rows [OF sorted lb]
  have "those (map (\<lambda>i. get_xref (concat (map enc_xref (t_xrefs t))) (i * XREF_LEN)) [lo..<hi]) =
      Some (map id (map ((!) (t_xrefs t)) [lo..<hi]))"
    by (rule xref_table.those_rows) (simp_all add: get_xref_row scan)
  moreover have "filter (\<lambda>r. a \<le> r \<and> r < b) (t_xrefs t) =
      filter (\<lambda>(s', r, f, off). s' = s \<and> role_lo \<le> r \<and> r \<le> role_hi) (t_xrefs t)"
    using mem by (intro filter_cong) auto
  moreover have "unat (xrefs_n (ix_hdr (opened t))) = length (t_xrefs t)"
    using fit by (simp add: opened_def counts_unat)
  ultimately show ?thesis
    by (simp only: xrefs_def opened_slices(1) [OF fit] Let_def append.simps keys lb bind.bind_lunit scan
        list.map_id)
qed

text \<open>The pair tables: below the largest key the scan returns the second components of the key's
  rows; at the largest key the end needle has wrapped to zero.\<close>

lemma pair_range_table:
  assumes "sorted rows" and "key \<noteq> - 1"
  shows "pair_range (concat (map enc_inh rows)) (length rows) key =
    Some (map snd (filter (\<lambda>(a, b). a = key) rows))"
proof -
  have le: "(key, 0 :: u64) \<le> (key + 1, 0)" using less_succ_iff [OF assms(2), of key] by simp
  have mem: "(key, 0) \<le> r \<and> r < (key + 1, 0 :: u64) \<longleftrightarrow> (case r of (a, b) \<Rightarrow> a = key)" for r
    using less_succ_iff [OF assms(2), of "fst r"] by (cases r) auto
  obtain lo hi where lb: "lower_bound (concat (map enc_inh rows)) (length rows) INH_LEN (enc_inh (key, 0)) = Some lo"
      "lower_bound (concat (map enc_inh rows)) (length rows) INH_LEN (enc_inh (key + 1, 0)) = Some hi"
    using inh_table.lower_bound_rows [OF assms(1)] by blast
  note scan = inh_table.range_scan [OF assms(1) le lb]
  have "those (map (\<lambda>i. get_u64 (concat (map enc_inh rows)) (i * INH_LEN + 8)) [lo..<hi]) =
      Some (map snd (map ((!) rows) [lo..<hi]))"
    by (rule inh_table.those_rows) (simp_all add: get_pair_row scan)
  then show ?thesis
    using scan lb by (simp add: pair_range_def key_images [symmetric] mem del: enc_inh.simps)
qed

lemma pair_range_max:
  assumes "sorted rows"
  shows "pair_range (concat (map enc_inh rows)) (length rows) (- 1) =
    (if \<exists>r \<in> set rows. fst r \<noteq> - 1 then None else Some [])"
proof -
  have first: "length (takeWhile (\<lambda>r. r < (- 1, 0)) rows) = 0 \<longleftrightarrow> \<not> (\<exists>r \<in> set rows. fst r \<noteq> - 1)"
  proof -
    have "takeWhile (\<lambda>r. r < (- 1, 0)) rows = filter (\<lambda>r. r < (- 1, 0)) rows"
      using takeWhile_less_filter [of id] assms by simp
    then show ?thesis by (auto simp: filter_empty_conv less_le)
  qed
  have zero: "takeWhile (\<lambda>r. r < (0, 0 :: u64)) rows = []" for rows :: "(u64 \<times> u64) list"
    by (cases rows) auto
  show ?thesis
    using first inh_table.lower_bound_rows [OF assms, of "(- 1, 0)"] inh_table.lower_bound_rows [OF assms, of "(0, 0)"]
    by (auto simp: pair_range_def key_images [symmetric] zero simp del: enc_inh.simps)
qed

lemma call_range_table:
  assumes "sorted rows" and "key \<noteq> - 1"
  shows "call_range (concat (map enc_call rows)) (length rows) key =
    Some (map snd (filter (\<lambda>(a, b, r). a = key) rows))"
proof -
  have le: "(key, 0 :: u64, 0 :: u8) \<le> (key + 1, 0, 0)" using less_succ_iff [OF assms(2), of key] by simp
  have mem: "(key, 0, 0) \<le> r \<and> r < (key + 1, 0 :: u64, 0 :: u8) \<longleftrightarrow> (case r of (a, b, c) \<Rightarrow> a = key)" for r
    using less_succ_iff [OF assms(2), of "fst r"] by (cases r) auto
  obtain lo hi where lb: "lower_bound (concat (map enc_call rows)) (length rows) CALL_LEN (enc_call (key, 0, 0)) = Some lo"
      "lower_bound (concat (map enc_call rows)) (length rows) CALL_LEN (enc_call (key + 1, 0, 0)) = Some hi"
    using call_table.lower_bound_rows [OF assms(1)] by blast
  note scan = call_table.range_scan [OF assms(1) le lb]
  have "those (map (\<lambda>i. get_call (concat (map enc_call rows)) (i * CALL_LEN)) [lo..<hi]) =
      Some (map snd (map ((!) rows) [lo..<hi]))"
    by (rule call_table.those_rows) (simp_all add: get_call_row scan)
  then show ?thesis
    using scan lb by (simp add: call_range_def key_images [symmetric] mem case_prod_beta' del: enc_call.simps)
qed

lemma call_range_max:
  assumes "sorted rows"
  shows "call_range (concat (map enc_call rows)) (length rows) (- 1) =
    (if \<exists>r \<in> set rows. fst r \<noteq> - 1 then None else Some [])"
proof -
  have first: "length (takeWhile (\<lambda>r. r < (- 1, 0, 0)) rows) = 0 \<longleftrightarrow> \<not> (\<exists>r \<in> set rows. fst r \<noteq> - 1)"
  proof -
    have "takeWhile (\<lambda>r. r < (- 1, 0, 0)) rows = filter (\<lambda>r. r < (- 1, 0, 0)) rows"
      using takeWhile_less_filter [of id] assms by simp
    then show ?thesis by (auto simp: filter_empty_conv less_le)
  qed
  have zero: "takeWhile (\<lambda>r. r < (0, 0 :: u64, 0 :: u8)) rows = []" for rows :: "(u64 \<times> u64 \<times> u8) list"
    by (cases rows) auto
  show ?thesis
    using first call_table.lower_bound_rows [OF assms, of "(- 1, 0, 0)"]
      call_table.lower_bound_rows [OF assms, of "(0, 0, 0)"]
    by (auto simp: call_range_def key_images [symmetric] zero simp del: enc_call.simps)
qed

section \<open>Exact-key searches\<close>

lemma map_of_nth_key:
  assumes "distinct (map fst rows)" and "i < length rows" and "fst (rows ! i) = k"
  shows "map_of rows k = Some (snd (rows ! i))"
  using assms map_of_is_SomeI [of rows k "snd (rows ! i)"] by (metis nth_mem prod.collapse)

lemma sym_meta_table:
  assumes fit: "tables_fit t" and "sorted (map fst (t_syms t))" and "distinct (map fst (t_syms t))"
  shows "sym_meta (opened t) s =
    (case map_of (t_syms t) s of
       None \<Rightarrow> Some None
     | Some (k, l, off, len) \<Rightarrow> map_option (\<lambda>n. Some (n, k, l)) (blob_str (opened t) off len))"
proof -
  have n: "unat (syms_n (ix_hdr (opened t))) = length (t_syms t)"
    using fit by (simp add: opened_def counts_unat)
  from sym_table.bsearch_rows [OF assms(2), of s] show ?thesis
  proof (elim disjE exE conjE)
    fix i assume i: "i < length (t_syms t)" "fst (t_syms t ! i) = s"
      and hit: "bsearch_loop (\<lambda>mid. map_option (\<lambda>k'. cmp_of k' (be64 s))
        (slice_of (concat (map enc_sym (t_syms t))) (mid * SYM_LEN) (mid * SYM_LEN + 8))) 0
        (length (t_syms t)) = Some (Some i)"
    obtain k l off len where row: "t_syms t ! i = (s, k, l, off, len)"
      using i(2) by (cases "t_syms t ! i") auto
    then show ?thesis
      using map_of_nth_key [OF assms(3) i] hit n i(1)
      by (simp add: sym_meta_def key_search_def opened_slices [OF fit] get_simps)
        (cases "blob_str (opened t) off len"; simp)
  next
    assume "s \<notin> fst ` set (t_syms t)"
      and "bsearch_loop (\<lambda>mid. map_option (\<lambda>k'. cmp_of k' (be64 s))
        (slice_of (concat (map enc_sym (t_syms t))) (mid * SYM_LEN) (mid * SYM_LEN + 8))) 0
        (length (t_syms t)) = Some None"
    then show ?thesis
      using n by (simp add: sym_meta_def key_search_def opened_slices [OF fit] map_of_eq_None_iff [THEN iffD2])
  qed
qed

lemma string_of_table:
  assumes "sorted (map fst rows)" and "distinct (map fst rows)"
  shows "string_of ix (concat (map enc_type rows)) (length rows) s =
    (case map_of rows s of
       None \<Rightarrow> Some None | Some (off, len) \<Rightarrow> map_option Some (blob_str ix off len))"
proof -
  from type_table.bsearch_rows [OF assms(1), of s] show ?thesis
  proof (elim disjE exE conjE)
    fix i assume i: "i < length rows" "fst (rows ! i) = s"
      and hit: "bsearch_loop (\<lambda>mid. map_option (\<lambda>k'. cmp_of k' (be64 s))
        (slice_of (concat (map enc_type rows)) (mid * TYPE_LEN) (mid * TYPE_LEN + 8))) 0
        (length rows) = Some (Some i)"
    obtain off len where row: "rows ! i = (s, off, len)"
      using i(2) by (cases "rows ! i") auto
    then show ?thesis
      using map_of_nth_key [OF assms(2) i] hit i(1)
      by (simp add: string_of_def key_search_def get_simps)
  next
    assume "s \<notin> fst ` set rows"
      and "bsearch_loop (\<lambda>mid. map_option (\<lambda>k'. cmp_of k' (be64 s))
        (slice_of (concat (map enc_type rows)) (mid * TYPE_LEN) (mid * TYPE_LEN + 8))) 0
        (length rows) = Some None"
    then show ?thesis
      by (simp add: string_of_def key_search_def map_of_eq_None_iff [THEN iffD2])
  qed
qed

lemma file_path_table:
  assumes fit: "tables_fit t" and "sorted (map fst (t_files t))" and "distinct (map fst (t_files t))"
  shows "file_path (opened t) f =
    (case map_of (t_files t) f of
       None \<Rightarrow> Some None | Some (off, len) \<Rightarrow> map_option Some (blob_str (opened t) off len))"
proof -
  have n: "unat (files_n (ix_hdr (opened t))) = length (t_files t)"
    using fit by (simp add: opened_def counts_unat)
  from file_table.bsearch_rows [OF assms(2), of f] show ?thesis
  proof (elim disjE exE conjE)
    fix i assume i: "i < length (t_files t)" "fst (t_files t ! i) = f"
      and hit: "bsearch_loop (\<lambda>mid. map_option (\<lambda>k'. cmp_of k' (be32 f))
        (slice_of (concat (map enc_file (t_files t))) (mid * FILE_LEN) (mid * FILE_LEN + 4))) 0
        (length (t_files t)) = Some (Some i)"
    obtain off len where row: "t_files t ! i = (f, off, len)"
      using i(2) by (cases "t_files t ! i") auto
    then show ?thesis
      using map_of_nth_key [OF assms(3) i] hit n i(1)
      by (simp add: file_path_def key_search_def opened_slices [OF fit] get_simps)
  next
    assume "f \<notin> fst ` set (t_files t)"
      and "bsearch_loop (\<lambda>mid. map_option (\<lambda>k'. cmp_of k' (be32 f))
        (slice_of (concat (map enc_file (t_files t))) (mid * FILE_LEN) (mid * FILE_LEN + 4))) 0
        (length (t_files t)) = Some None"
    then show ?thesis
      using n by (simp add: file_path_def key_search_def opened_slices [OF fit] map_of_eq_None_iff [THEN iffD2])
  qed
qed

section \<open>Name searches\<close>

text \<open>The names table as the searches see it, once every row's string is readable.\<close>

definition names_readable :: "tables \<Rightarrow> bool" where
  "names_readable t \<longleftrightarrow>
     (\<forall>r \<in> set (t_names t). blob_str (opened t) (fst r) (fst (snd r)) = Some (name_bytes (t_blob t) r))"

lemma row_name_table:
  assumes "names_readable t" and "i < length (t_names t)"
  shows "row_name (opened t) (concat (map enc_name (t_names t))) i = Some (name_bytes (t_blob t) (t_names t ! i))"
    and "get_u64 (concat (map enc_name (t_names t))) (i * NAME_LEN + 10) = Some (name_sym (t_names t ! i))"
proof -
  obtain off len s where r: "t_names t ! i = (off, len, s)" by (cases "t_names t ! i")
  have "t_names t ! i \<in> set (t_names t)" using assms(2) by simp
  then have "blob_str (opened t) off len = Some (name_bytes (t_blob t) (off, len, s))"
    using assms(1) r by (auto simp: names_readable_def)
  then show "row_name (opened t) (concat (map enc_name (t_names t))) i = Some (name_bytes (t_blob t) (t_names t ! i))"
    using assms(2) by (simp add: row_name_def get_simps r)
  show "get_u64 (concat (map enc_name (t_names t))) (i * NAME_LEN + 10) = Some (name_sym (t_names t ! i))"
    using assms(2) by (simp add: get_simps r)
qed

text \<open>In a table sorted by \<open>f\<close>, the rows of an interval of keys that starts at \<open>k\<close> are the run
  that a walk from the lower bound of \<open>k\<close> visits.\<close>

lemma run_block:
  assumes "sorted (map f xs)" and ge: "\<And>z. P z \<Longrightarrow> k \<le> z"
    and convex: "\<And>y z. P z \<Longrightarrow> k \<le> y \<Longrightarrow> y \<le> z \<Longrightarrow> P y"
  shows "takeWhile (\<lambda>x. P (f x)) (dropWhile (\<lambda>x. f x < k) xs) = filter (\<lambda>x. P (f x)) xs"
  using assms(1)
proof (induction xs)
  case (Cons x xs)
  show ?case
  proof (cases "f x < k")
    case True
    with Cons show ?thesis using ge [of "f x"] by auto
  next
    case False
    have block: "takeWhile (\<lambda>x. P (f x)) ys = filter (\<lambda>x. P (f x)) ys"
      if "sorted (map f ys)" "\<forall>y \<in> set ys. k \<le> f y" for ys
      using that
    proof (induction ys)
      case (Cons y ys)
      show ?case
      proof (cases "P (f y)")
        case False
        then have "\<forall>z \<in> set ys. \<not> P (f z)"
          using Cons.prems convex [of _ "f y"] by auto
        with False show ?thesis by (simp add: filter_empty_conv)
      qed (use Cons in auto)
    qed simp
    have "\<forall>y \<in> set (x # xs). k \<le> f y" using Cons.prems False by fastforce
    from block [OF Cons.prems this] show ?thesis using False by simp
  qed
qed simp

lemmas equal_block = run_block [where P = "\<lambda>z. z = k" and k = k for k, simplified]

lemma drop_length_takeWhile: "drop (length (takeWhile P xs)) xs = dropWhile P xs"
  by (simp add: dropWhile_eq_drop)

lemma name_lower_bound:
  assumes "names_readable t" and "sorted (map (name_bytes (t_blob t)) (t_names t))"
  shows "lower_bound_loop (\<lambda>mid. map_option (\<lambda>m. m < q)
      (row_name (opened t) (concat (map enc_name (t_names t))) mid)) 0 (length (t_names t)) =
    Some (length (takeWhile (\<lambda>r. name_bytes (t_blob t) r < q) (t_names t)))"
  by (rule lower_bound_loop_list [OF assms(2)]) (simp add: row_name_table assms(1))

lemma name_run_table:
  assumes "names_readable t" and "i + k = length (t_names t)"
  shows "name_run (opened t) (concat (map enc_name (t_names t))) q i k =
    Some (map name_sym (takeWhile (\<lambda>r. name_bytes (t_blob t) r = q) (drop i (t_names t))))"
  using assms(2)
proof (induction k arbitrary: i)
  case (Suc k)
  then have "drop i (t_names t) = t_names t ! i # drop (Suc i) (t_names t)"
    by (simp add: Cons_nth_drop_Suc)
  with Suc row_name_table [OF assms(1), of i] show ?case by simp
qed simp

lemma syms_for_name_table:
  assumes fit: "tables_fit t" and "names_readable t" and "sorted (map (name_bytes (t_blob t)) (t_names t))"
  shows "syms_for_name (opened t) q =
    Some (sort_dedup (map name_sym (filter (\<lambda>r. name_bytes (t_blob t) r = q) (t_names t))))"
proof -
  have n: "unat (names_n (ix_hdr (opened t))) = length (t_names t)"
    using fit by (simp add: opened_def counts_unat)
  show ?thesis
    using name_run_table [OF assms(2), of "length (takeWhile (\<lambda>r. name_bytes (t_blob t) r < q) (t_names t))"]
    by (simp add: syms_for_name_def opened_slices [OF fit] n name_lower_bound assms Let_def
        length_takeWhile_le drop_length_takeWhile equal_block)
qed

lemma sym_for_name_table:
  assumes fit: "tables_fit t" and "names_readable t" and "sorted (map (name_bytes (t_blob t)) (t_names t))"
  shows "(\<exists>s. sym_for_name (opened t) q = Some (Some s) \<and>
            (\<exists>r \<in> set (t_names t). name_bytes (t_blob t) r = q \<and> name_sym r = s)) \<or>
    (sym_for_name (opened t) q = Some None \<and> (\<forall>r \<in> set (t_names t). name_bytes (t_blob t) r \<noteq> q))"
proof -
  have n: "unat (names_n (ix_hdr (opened t))) = length (t_names t)"
    using fit by (simp add: opened_def counts_unat)
  have "(\<exists>i < length (t_names t). bsearch_loop (\<lambda>mid. map_option (\<lambda>n. cmp_of n q)
        (row_name (opened t) (concat (map enc_name (t_names t))) mid)) 0 (length (t_names t)) = Some (Some i) \<and>
        name_bytes (t_blob t) (t_names t ! i) = q) \<or>
      (bsearch_loop (\<lambda>mid. map_option (\<lambda>n. cmp_of n q)
        (row_name (opened t) (concat (map enc_name (t_names t))) mid)) 0 (length (t_names t)) = Some None \<and>
        q \<notin> name_bytes (t_blob t) ` set (t_names t))"
    by (rule bsearch_loop_list [OF assms(3)]) (simp add: row_name_table assms(2))
  then show ?thesis
  proof (elim disjE exE conjE)
    fix i assume i: "i < length (t_names t)" "name_bytes (t_blob t) (t_names t ! i) = q"
      and "bsearch_loop (\<lambda>mid. map_option (\<lambda>n. cmp_of n q)
        (row_name (opened t) (concat (map enc_name (t_names t))) mid)) 0 (length (t_names t)) = Some (Some i)"
    then have "sym_for_name (opened t) q = Some (Some (name_sym (t_names t ! i)))"
      using row_name_table(2) [OF assms(2) i(1)] by (simp add: sym_for_name_def opened_slices [OF fit] n)
    then show ?thesis using i nth_mem by blast
  qed (auto simp: sym_for_name_def opened_slices [OF fit] n)
qed

lemma starts_with_interval:
  "starts_with y p \<Longrightarrow> p \<le> x \<Longrightarrow> x \<le> y \<Longrightarrow> starts_with x p"
proof (induction p arbitrary: x y)
  case (Cons a p)
  then show ?case by (cases x; cases y) (auto simp: starts_with_def)
qed (simp add: starts_with_def)

lemma starts_with_ge: "starts_with x p \<Longrightarrow> p \<le> x"
proof (induction p arbitrary: x)
  case (Cons a p)
  then show ?case by (cases x) (auto simp: starts_with_def)
qed simp

lemmas prefix_block =
  run_block [where P = "\<lambda>z. starts_with z p" and k = p for p, OF _ starts_with_ge starts_with_interval]

lemma prefix_run_table:
  assumes "names_readable t" and "i + k = length (t_names t)"
  shows "prefix_run (opened t) (concat (map enc_name (t_names t))) p limit i k =
    Some (map (\<lambda>r. (name_bytes (t_blob t) r, name_sym r))
      (take limit (takeWhile (\<lambda>r. starts_with (name_bytes (t_blob t) r) p) (drop i (t_names t)))))"
  using assms(2)
proof (induction k arbitrary: i limit)
  case (Suc k)
  then have "drop i (t_names t) = t_names t ! i # drop (Suc i) (t_names t)"
    by (simp add: Cons_nth_drop_Suc)
  with Suc row_name_table [OF assms(1), of i] show ?case by (simp split: nat.split)
qed simp

lemma names_with_prefix_table:
  assumes fit: "tables_fit t" and "names_readable t" and "sorted (map (name_bytes (t_blob t)) (t_names t))"
  shows "names_with_prefix (opened t) p limit =
    Some (map (\<lambda>r. (name_bytes (t_blob t) r, name_sym r))
      (take limit (filter (\<lambda>r. starts_with (name_bytes (t_blob t) r) p) (t_names t))))"
proof -
  have n: "unat (names_n (ix_hdr (opened t))) = length (t_names t)"
    using fit by (simp add: opened_def counts_unat)
  show ?thesis
    using prefix_run_table [OF assms(2), of "length (takeWhile (\<lambda>r. name_bytes (t_blob t) r < p) (t_names t))"]
    by (simp add: names_with_prefix_def opened_slices [OF fit] n name_lower_bound assms Let_def
        length_takeWhile_le drop_length_takeWhile prefix_block)
qed

end
