(* ===== verification/S2_Index.thy ===== *)
theory S2_Index
  imports S2_Query
begin

text \<open>
  Write, open, query: what a lookup on the file of \<^verbatim>\<open>IndexBuilder::finish\<close> returns, in terms of
  the builder's tables, through the content both producers of a file share.
\<close>

section \<open>The string blob\<close>

abbreviation blob_at :: "bytes \<Rightarrow> u64 \<times> u16 \<Rightarrow> bytes option" where
  "blob_at B p \<equiv> slice_of B (unat (fst p)) (unat (fst p) + unat (snd p))"

lemma lay_strings_eq:
  "snd (lay_strings blob ss) = blob @ concat (map clamp_blob_str ss)"
  "length (fst (lay_strings blob ss)) = length ss"
  by (induction ss arbitrary: blob) (simp_all add: Let_def split_beta)

lemma lay_strings_at:
  assumes "length (snd (lay_strings blob ss) @ ext) < 2 ^ 64"
  shows "map (blob_at (snd (lay_strings blob ss) @ ext)) (fst (lay_strings blob ss)) =
    map (\<lambda>s. Some (clamp_blob_str s)) ss"
  using assms
proof (induction ss arbitrary: blob)
  case (Cons s ss)
  let ?c = "clamp_blob_str s" and ?r = "concat (map clamp_blob_str ss) @ ext"
  have "length blob < 2 ^ 64" using Cons.prems by (simp add: lay_strings_eq Let_def split_beta)
  then have off: "unat (of_nat (length blob) :: u64) = length blob"
    and len: "unat (of_nat (length ?c) :: u16) = length ?c"
    using length_clamp [of s] by (simp_all add: unat_of_nat_small)
  have "slice_of (blob @ ?c @ ?r) (length blob) (length blob + length ?c) = Some ?c"
    by (rule slice_of_mid) simp_all
  moreover have "map (blob_at ((blob @ ?c) @ ?r)) (fst (lay_strings (blob @ ?c) ss)) =
      map (\<lambda>s. Some (clamp_blob_str s)) ss"
    using Cons.IH [of "blob @ ?c"] Cons.prems by (simp add: lay_strings_eq Let_def split_beta)
  ultimately show ?case
    by (simp add: off len lay_strings_eq Let_def split_beta)
qed simp

text \<open>Every position lies inside the stretch its call appended.\<close>

lemma lay_strings_bounds:
  assumes "length (snd (lay_strings blob ss)) < 2 ^ 64" and "q \<in> set (fst (lay_strings blob ss))"
  shows "length blob \<le> unat (fst q)" and "unat (fst q) + unat (snd q) \<le> length (snd (lay_strings blob ss))"
  using assms
proof (induction ss arbitrary: blob)
  case (Cons s ss)
  let ?c = "clamp_blob_str s"
  have len: "unat (of_nat (length blob) :: u64) = length blob" "unat (of_nat (length ?c) :: u16) = length ?c"
    if "length (snd (lay_strings blob (s # ss))) < 2 ^ 64" for blob
    using that length_clamp [of s] by (simp_all add: unat_of_nat_small lay_strings_eq Let_def split_beta)
  {
    case 1
    then show ?case using Cons.IH(1) [of "blob @ ?c"] len [OF 1(1)]
      by (auto simp: Let_def split_beta simp del: unsigned_of_nat)
  next
    case 2
    then show ?case using Cons.IH(2) [of "blob @ ?c"] len
      by (auto simp: Let_def split_beta) (simp add: lay_strings_eq)
  }
qed simp_all

lemma blob_str_opened:
  assumes "tables_fit t"
  shows "blob_str (opened t) off len =
    map_option (\<lambda>s. if utf8_valid s then s else bad_utf8) (blob_at (t_blob t) (off, len))"
  by (simp add: blob_str_def opened_slices [OF assms] map_conv_bind_option comp_def)

text \<open>Looking a row up and reading its string is looking the entry up and clamping its string.\<close>

lemma sym_rows_lookup:
  assumes "map (blob_at B) ps = map (\<lambda>(s, k, l, n). Some (clamp_blob_str n)) syms"
  shows "(case map_of (map2 (\<lambda>(s, k, l, n) (off, len). (s, k, l, off, len)) syms ps) s of
       None \<Rightarrow> Some None
     | Some (k, l, off, len) \<Rightarrow> map_option (\<lambda>n. Some (n, k, l)) (blob_at B (off, len))) =
    Some (map_option (\<lambda>(k, l, n). (clamp_blob_str n, k, l)) (map_of syms s))"
  using assms
proof (induction syms arbitrary: ps)
  case (Cons x syms)
  then obtain p ps' where "ps = p # ps'" by (cases ps) auto
  with Cons show ?case by (cases x; cases p) auto
qed simp

lemma string_rows_lookup:
  assumes "map (blob_at B) ps = map (\<lambda>(s, n). Some (clamp_blob_str n)) rows"
  shows "(case map_of (map2 (\<lambda>(s, n) (off, len). (s, off, len)) rows ps) s of
       None \<Rightarrow> Some None
     | Some (off, len) \<Rightarrow> map_option Some (blob_at B (off, len))) =
    Some (map_option clamp_blob_str (map_of rows s))"
  using assms
proof (induction rows arbitrary: ps)
  case (Cons x rows)
  then obtain p ps' where "ps = p # ps'" by (cases ps) auto
  with Cons show ?case by (cases x; cases p) auto
qed simp

lemma map_fst_sym_rows:
  "length ps = length syms \<Longrightarrow> map fst (map2 (\<lambda>(s, k, l, n) (off, len). (s, k, l, off, len)) syms ps) = map fst syms"
  by (induction ps syms rule: list_induct2) auto

lemma map_fst_string_rows:
  "length ps = length rows \<Longrightarrow> map fst (map2 (\<lambda>(s, n) (off, len). (s, off, len)) rows ps) = map fst rows"
  by (induction ps rows rule: list_induct2) auto

section \<open>The laid-out tables\<close>

lemma blob_fits: "tables_fit t \<Longrightarrow> length (t_blob t) < 2 ^ 64"
  using section_len_le [of "t_blob t" "sections t"] by (simp add: tables_fit_def)

lemma layout_strings:
  assumes "layout_tables c = Some t" and "tables_fit t"
  obtains name_pos alias_pos path_pos typed_pos sig_pos where
    "map (blob_at (t_blob t)) name_pos = map (\<lambda>(s, k, l, n). Some (clamp_blob_str n)) (c_syms c)"
    "map (blob_at (t_blob t)) alias_pos = map (\<lambda>(s, n). Some (clamp_blob_str n)) (c_aliases c)"
    "map (blob_at (t_blob t)) path_pos = map (\<lambda>(s, n). Some (clamp_blob_str n)) (c_files c)"
    "map (blob_at (t_blob t)) typed_pos = map (\<lambda>(s, n). Some (clamp_blob_str n)) (c_typed c)"
    "map (blob_at (t_blob t)) sig_pos = map (\<lambda>(s, n). Some (clamp_blob_str n)) (c_sig c)"
    "t_syms t = map2 (\<lambda>(s, k, l, n) (off, len). (s, k, l, off, len)) (c_syms c) name_pos"
    "t_names t = sort_names (t_blob t)
       (map2 (\<lambda>(s, m) (off, len). (off, len, s)) (c_syms c) name_pos @
        map2 (\<lambda>(s, a) (off, len). (off, len, s)) (c_aliases c) alias_pos)"
    "t_files t = map2 (\<lambda>(s, n) (off, len). (s, off, len)) (c_files c) path_pos"
    "t_typed t = map2 (\<lambda>(s, n) (off, len). (s, off, len)) (c_typed c) typed_pos"
    "t_sig t = map2 (\<lambda>(s, n) (off, len). (s, off, len)) (c_sig c) sig_pos"
    "\<forall>q \<in> set name_pos. \<forall>r \<in> set alias_pos. unat (fst q) + unat (snd q) \<le> unat (fst r)"
proof -
  obtain p1 B1 p2 B2 p3 B3 p4 B4 p5 B5 where
    l: "lay_strings [] (map (\<lambda>(s, k, l, n). n) (c_syms c)) = (p1, B1)" "lay_strings B1 (map snd (c_aliases c)) = (p2, B2)"
       "lay_strings B2 (map snd (c_files c)) = (p3, B3)" "lay_strings B3 (map snd (c_typed c)) = (p4, B4)"
       "lay_strings B4 (map snd (c_sig c)) = (p5, B5)"
    by (metis surj_pair)
  have fields: "t_blob t = B5" "t_syms t = map2 (\<lambda>(s, k, l, n) (off, len). (s, k, l, off, len)) (c_syms c) p1"
     "t_names t = sort_names B5 (map2 (\<lambda>(s, m) (off, len). (off, len, s)) (c_syms c) p1 @
        map2 (\<lambda>(s, a) (off, len). (off, len, s)) (c_aliases c) p2)"
     "t_files t = map2 (\<lambda>(s, n) (off, len). (s, off, len)) (c_files c) p3"
     "t_typed t = map2 (\<lambda>(s, n) (off, len). (s, off, len)) (c_typed c) p4"
     "t_sig t = map2 (\<lambda>(s, n) (off, len). (s, off, len)) (c_sig c) p5"
    using assms(1) by (auto simp: layout_tables_def l Let_def bind_eq_Some_conv)
  have B: "B2 = B1 @ concat (map clamp_blob_str (map snd (c_aliases c)))"
      "B3 = B2 @ concat (map clamp_blob_str (map snd (c_files c)))"
      "B4 = B3 @ concat (map clamp_blob_str (map snd (c_typed c)))"
      "B5 = B4 @ concat (map clamp_blob_str (map snd (c_sig c)))"
    using lay_strings_eq(1) l(2-5) by (metis snd_conv)+
  have len: "length B5 < 2 ^ 64" using blob_fits [OF assms(2)] by (simp add: fields)
  have at: "map (blob_at B5) ps = map (\<lambda>s. Some (clamp_blob_str s)) ss"
    if "lay_strings b ss = (ps, b')" "B5 = b' @ ext" for b b' ss ps ext
    using lay_strings_at [of b ss ext] that len by simp
  have apart: "unat (fst q) + unat (snd q) \<le> unat (fst r)" if "q \<in> set p1" "r \<in> set p2" for q r
    using lay_strings_bounds(2) [of "[]" "map (\<lambda>(s, k, l, n). n) (c_syms c)" q]
      lay_strings_bounds(1) [of B1 "map snd (c_aliases c)" r] that len B by (simp add: l)
  show ?thesis
  proof (rule that)
    show "map (blob_at (t_blob t)) p1 = map (\<lambda>(s, k, l, n). Some (clamp_blob_str n)) (c_syms c)"
      using at [OF l(1)] B by (simp add: fields split_beta comp_def)
    show "map (blob_at (t_blob t)) p2 = map (\<lambda>(s, n). Some (clamp_blob_str n)) (c_aliases c)"
      using at [OF l(2)] B by (simp add: fields split_beta comp_def)
    show "map (blob_at (t_blob t)) p3 = map (\<lambda>(s, n). Some (clamp_blob_str n)) (c_files c)"
      using at [OF l(3)] B by (simp add: fields split_beta comp_def)
    show "map (blob_at (t_blob t)) p4 = map (\<lambda>(s, n). Some (clamp_blob_str n)) (c_typed c)"
      using at [OF l(4)] B by (simp add: fields split_beta comp_def)
    show "map (blob_at (t_blob t)) p5 = map (\<lambda>(s, n). Some (clamp_blob_str n)) (c_sig c)"
      using at [OF l(5), of "[]"] B by (simp add: fields split_beta comp_def)
  qed (simp_all add: fields apart)
qed

lemma layout_rows:
  assumes "layout_tables c = Some t"
  shows "t_xrefs t = c_xrefs c" "t_inh t = c_inh c" "t_inhrev t = swap_inh (c_inh c)"
    "t_calls t = c_calls c" "t_crev t = swap_calls (c_calls c)" "t_childrev t = c_childrev c"
  using assms by (auto simp: layout_tables_def Let_def bind_eq_Some_conv split: prod.splits)

text \<open>What both producers of a content guarantee.\<close>

definition content_ok :: "content \<Rightarrow> bool" where
  "content_ok c \<longleftrightarrow>
     sorted (c_xrefs c) \<and> sorted (c_inh c) \<and> sorted (c_calls c) \<and> sorted (c_childrev c) \<and>
     sorted (map fst (c_syms c)) \<and> hm_ok (c_syms c) \<and> names_ok (c_syms c) \<and>
     sorted (map fst (c_files c)) \<and> hm_ok (c_files c) \<and> paths_ok (c_files c) \<and>
     sorted (map fst (c_typed c)) \<and> hm_ok (c_typed c) \<and>
     (\<forall>(s, n) \<in> set (c_typed c). n \<noteq> [] \<and> utf8_valid n) \<and>
     sorted (map fst (c_sig c)) \<and> hm_ok (c_sig c) \<and>
     (\<forall>(s, n) \<in> set (c_sig c). n \<noteq> [] \<and> utf8_valid n) \<and>
     (\<forall>(s, n) \<in> set (c_aliases c). n \<noteq> [] \<and> utf8_valid n)"

lemma content_valid:
  assumes "content_ok c"
  shows "names_ok (c_syms c)" "paths_ok (c_files c)" "\<forall>(s, n) \<in> set (c_typed c). utf8_valid n"
    "\<forall>(s, n) \<in> set (c_sig c). utf8_valid n" "\<forall>(s, n) \<in> set (c_aliases c). utf8_valid n"
proof -
  show "names_ok (c_syms c)" and "paths_ok (c_files c)" using assms by (simp_all add: content_ok_def)
  show "\<forall>(s, n) \<in> set (c_typed c). utf8_valid n"
    "\<forall>(s, n) \<in> set (c_sig c). utf8_valid n" "\<forall>(s, n) \<in> set (c_aliases c). utf8_valid n"
    using assms by (auto simp: content_ok_def)
qed

text \<open>The name table as (name, symbol) pairs: canonical names and kept aliases, clamped, in order.\<close>

definition name_entries :: "content \<Rightarrow> (bytes \<times> u64) list" where
  "name_entries c =
     sort (map (\<lambda>(s, k, l, n). (clamp_blob_str n, s)) (c_syms c) @
           map (\<lambda>(s, a). (clamp_blob_str a, s)) (c_aliases c))"

abbreviation name_entry :: "bytes \<Rightarrow> name_row \<Rightarrow> bytes \<times> u64" where
  "name_entry B r \<equiv> (name_bytes B r, name_sym r)"

lemma map_sort_key: "map f (sort_key f xs) = sort (map f xs)"
proof (rule properties_for_sort [symmetric])
  show "sorted (map f (sort_key f xs))" by simp
  show "mset (map f (sort_key f xs)) = mset (map f xs)" by simp
qed

lemma name_bytes_at: "blob_at B (off, len) = Some n \<Longrightarrow> name_bytes B (off, len, s) = n"
  by (auto simp: slice_of_def split: if_splits)

lemma name_rows_entries:
  assumes "map (blob_at B) ps = map (\<lambda>(s, v). Some (g v)) rows"
  shows "map (name_entry B) (map2 (\<lambda>(s, m) (off, len). (off, len, s)) rows ps) = map (\<lambda>(s, v). (g v, s)) rows"
    and "\<forall>r \<in> set (map2 (\<lambda>(s, m) (off, len). (off, len, s)) rows ps).
      blob_at B (fst r, fst (snd r)) = Some (name_bytes B r) \<and> (\<exists>(s, v) \<in> set rows. name_bytes B r = g v)"
  using assms
proof (induction rows arbitrary: ps)
  case (Cons x rows)
  {
    case 1
    then obtain off len ps' where ps: "ps = (off, len) # ps'" by (cases ps) auto
    with 1 Cons(1) [of ps'] name_bytes_at [of B off len] show ?case by (cases x) auto
  next
    case 2
    then obtain off len ps' where ps: "ps = (off, len) # ps'" by (cases ps) auto
    with 2 Cons(2) [of ps'] name_bytes_at [of B off len] show ?case by (cases x) auto
  }
qed simp_all

lemma sorted_map_fst: "sorted (xs :: ('a::linorder \<times> 'b::linorder) list) \<Longrightarrow> sorted (map fst xs)"
  by (induction xs) (auto simp: less_eq_prod_def)

lemma layout_names:
  assumes "layout_tables c = Some t" and "tables_fit t" and "content_ok c"
  shows "map (name_entry (t_blob t)) (t_names t) = name_entries c"
    and "names_readable t" and "sorted (map (name_bytes (t_blob t)) (t_names t))"
    and "\<forall>r \<in> set (t_names t). blob_at (t_blob t) (fst r, fst (snd r)) = Some (name_bytes (t_blob t) r) \<and>
      utf8_valid (name_bytes (t_blob t) r)"
proof -
  obtain p q where p: "map (blob_at (t_blob t)) p = map (\<lambda>(s, k, l, n). Some (clamp_blob_str n)) (c_syms c)"
    and q: "map (blob_at (t_blob t)) q = map (\<lambda>(s, n). Some (clamp_blob_str n)) (c_aliases c)"
    and names: "t_names t = sort_names (t_blob t)
       (map2 (\<lambda>(s, m) (off, len). (off, len, s)) (c_syms c) p @
        map2 (\<lambda>(s, a) (off, len). (off, len, s)) (c_aliases c) q)"
    by (rule layout_strings [OF assms(1,2)]) (rule that; assumption)
  have p': "map (blob_at (t_blob t)) p = map (\<lambda>(s, v). Some (case v of (k, l, n) \<Rightarrow> clamp_blob_str n)) (c_syms c)"
    using p by (simp add: split_beta)
  show entries: "map (name_entry (t_blob t)) (t_names t) = name_entries c"
    using name_rows_entries(1) [OF p'] name_rows_entries(1) [OF q]
    by (simp add: names sort_names_def map_sort_key name_entries_def case_prod_unfold)
  show at: "\<forall>r \<in> set (t_names t). blob_at (t_blob t) (fst r, fst (snd r)) = Some (name_bytes (t_blob t) r) \<and>
      utf8_valid (name_bytes (t_blob t) r)"
    using name_rows_entries(2) [OF p'] name_rows_entries(2) [OF q] content_valid [OF assms(3)]
    by (fastforce simp: names sort_names_def clamp_valid)
  then show "names_readable t"
    unfolding names_readable_def blob_str_opened [OF assms(2)] by simp
  have "sorted (map (name_entry (t_blob t)) (t_names t))" by (simp add: entries name_entries_def)
  then show "sorted (map (name_bytes (t_blob t)) (t_names t))"
    using sorted_map_fst [of "map (name_entry (t_blob t)) (t_names t)"] by (simp add: comp_def)
qed

section \<open>Lookups on a content\<close>

definition content_fits :: "content \<Rightarrow> tables \<Rightarrow> bool" where
  "content_fits c t \<longleftrightarrow> content_ok c \<and> layout_tables c = Some t \<and> tables_fit t"

lemma content_fitsD:
  assumes "content_fits c t"
  shows "content_ok c" and "layout_tables c = Some t" and "tables_fit t"
  using assms by (simp_all add: content_fits_def)

lemma opened_counts:
  assumes "tables_fit t"
  shows "unat (inh_n (ix_hdr (opened t))) = length (t_inh t)"
    "unat (inhrev_n (ix_hdr (opened t))) = length (t_inhrev t)"
    "unat (childrev_n (ix_hdr (opened t))) = length (t_childrev t)"
    "unat (calls_n (ix_hdr (opened t))) = length (t_calls t)"
    "unat (crev_n (ix_hdr (opened t))) = length (t_crev t)"
    "unat (typed_n (ix_hdr (opened t))) = length (t_typed t)"
    "unat (sig_n (ix_hdr (opened t))) = length (t_sig t)"
    "unat (xrefs_n (ix_hdr (opened t))) = length (t_xrefs t)"
    "unat (syms_n (ix_hdr (opened t))) = length (t_syms t)"
    "unat (files_n (ix_hdr (opened t))) = length (t_files t)"
    "unat (names_n (ix_hdr (opened t))) = length (t_names t)"
  using assms by (simp_all add: opened_def counts_unat)

lemma xrefs_content:
  assumes "content_fits c t" and "s \<noteq> - 1 \<or> role_hi \<noteq> 255"
  shows "xrefs (opened t) s role_lo role_hi =
    Some (filter (\<lambda>(s', r, f, off). s' = s \<and> role_lo \<le> r \<and> r \<le> role_hi) (c_xrefs c))"
proof -
  note ok = content_fitsD [OF assms(1)]
  have "sorted (t_xrefs t)" using ok by (simp add: layout_rows content_ok_def)
  from xrefs_table [OF ok(3) this assms(2)] show ?thesis by (simp only: layout_rows [OF ok(2)])
qed

lemma edges_content:
  assumes "content_fits c t"
  shows "inherits_of (opened t) k = pair_range (concat (map enc_inh (c_inh c))) (length (c_inh c)) k"
    "inherited_by (opened t) k = pair_range (concat (map enc_inh (swap_inh (c_inh c)))) (length (swap_inh (c_inh c))) k"
    "members (opened t) k = pair_range (concat (map enc_inh (c_childrev c))) (length (c_childrev c)) k"
    "calls_from (opened t) k = call_range (concat (map enc_call (c_calls c))) (length (c_calls c)) k"
    "called_by (opened t) k = call_range (concat (map enc_call (swap_calls (c_calls c)))) (length (swap_calls (c_calls c))) k"
  using content_fitsD [OF assms]
  by (simp_all add: inherits_of_def inherited_by_def members_def calls_from_def called_by_def
      opened_slices opened_counts layout_rows)

lemma sorted_swap [simp]: "sorted (swap_inh rows)" "sorted (swap_calls crows)"
  by (simp_all add: swap_inh_def swap_calls_def)

lemma sym_meta_content:
  assumes "content_fits c t"
  shows "sym_meta (opened t) s =
    Some (map_option (\<lambda>(k, l, n). (clamp_blob_str n, k, l)) (map_of (c_syms c) s))"
proof -
  note ok = content_fitsD [OF assms]
  obtain p where p: "map (blob_at (t_blob t)) p = map (\<lambda>(s, k, l, n). Some (clamp_blob_str n)) (c_syms c)"
    and syms: "t_syms t = map2 (\<lambda>(s, k, l, n) (off, len). (s, k, l, off, len)) (c_syms c) p"
    by (rule layout_strings [OF ok(2,3)]) (rule that; assumption)
  have len: "length p = length (c_syms c)" using arg_cong [OF p, of length] by simp
  have fst: "map fst (t_syms t) = map fst (c_syms c)" unfolding syms by (rule map_fst_sym_rows [OF len])
  have readable: "blob_str (opened t) off len = blob_at (t_blob t) (off, len)"
    if "map_of (t_syms t) s = Some (k, l, off, len)" for k l off len
  proof -
    have "(off, len) \<in> set p" using map_of_SomeD [OF that] by (auto simp: syms dest: set_zip_rightD)
    then have "blob_at (t_blob t) (off, len) \<in> set (map (blob_at (t_blob t)) p)" by (force simp only: set_map)
    then obtain n where "blob_at (t_blob t) (off, len) = Some (clamp_blob_str n)" "utf8_valid n"
      using ok(1) by (auto simp: p content_ok_def)
    then show ?thesis by (simp add: blob_str_opened [OF ok(3)] clamp_valid)
  qed
  have "sym_meta (opened t) s = (case map_of (t_syms t) s of None \<Rightarrow> Some None
     | Some (k, l, off, len) \<Rightarrow> map_option (\<lambda>n. Some (n, k, l)) (blob_at (t_blob t) (off, len)))"
    using ok(1) by (subst sym_meta_table [OF ok(3)])
      (auto simp: fst content_ok_def readable split: option.split)
  then show ?thesis unfolding syms sym_rows_lookup [OF p] .
qed

lemma string_table_content:
  assumes "tables_fit t" and "map (blob_at (t_blob t)) p = map (\<lambda>(s, n). Some (clamp_blob_str n)) rows"
    and "trows = map2 (\<lambda>(s, n) (off, len). (s, off, len)) rows p" and "\<forall>(s, n) \<in> set rows. utf8_valid n"
  shows "(case map_of trows s of None \<Rightarrow> Some None
      | Some (off, len) \<Rightarrow> map_option Some (blob_str (opened t) off len)) =
    Some (map_option clamp_blob_str (map_of rows s))"
    and "map fst trows = map fst rows"
proof -
  have len: "length p = length rows" using arg_cong [OF assms(2), of length] by simp
  show "map fst trows = map fst rows" unfolding assms(3) by (rule map_fst_string_rows [OF len])
  have readable: "blob_str (opened t) off len = blob_at (t_blob t) (off, len)"
    if "map_of trows s = Some (off, len)" for off len
  proof -
    have "(off, len) \<in> set p" using map_of_SomeD [OF that] by (auto simp: assms(3) dest: set_zip_rightD)
    then have "blob_at (t_blob t) (off, len) \<in> set (map (blob_at (t_blob t)) p)" by (force simp only: set_map)
    then obtain n where "blob_at (t_blob t) (off, len) = Some (clamp_blob_str n)" "utf8_valid n"
      using assms(4) by (auto simp: assms(2))
    then show ?thesis by (simp add: blob_str_opened [OF assms(1)] clamp_valid)
  qed
  have "(case map_of trows s of None \<Rightarrow> Some None
      | Some (off, len) \<Rightarrow> map_option Some (blob_str (opened t) off len)) =
    (case map_of trows s of None \<Rightarrow> Some None
      | Some (off, len) \<Rightarrow> map_option Some (blob_at (t_blob t) (off, len)))"
    by (auto simp: readable split: option.split)
  then show "(case map_of trows s of None \<Rightarrow> Some None
      | Some (off, len) \<Rightarrow> map_option Some (blob_str (opened t) off len)) =
    Some (map_option clamp_blob_str (map_of rows s))"
    using string_rows_lookup [OF assms(2), of s] by (simp only: assms(3))
qed

lemma strings_content:
  assumes "content_fits c t"
  shows "file_path (opened t) f = Some (map_option clamp_blob_str (map_of (c_files c) f))"
    and "type_of (opened t) s = Some (map_option clamp_blob_str (map_of (c_typed c) s))"
    and "sig_of (opened t) s = Some (map_option clamp_blob_str (map_of (c_sig c) s))"
proof -
  note ok = content_fitsD [OF assms]
  obtain p q r where
    p: "map (blob_at (t_blob t)) p = map (\<lambda>(s, n). Some (clamp_blob_str n)) (c_files c)"
      "t_files t = map2 (\<lambda>(s, n) (off, len). (s, off, len)) (c_files c) p"
    and q: "map (blob_at (t_blob t)) q = map (\<lambda>(s, n). Some (clamp_blob_str n)) (c_typed c)"
      "t_typed t = map2 (\<lambda>(s, n) (off, len). (s, off, len)) (c_typed c) q"
    and r: "map (blob_at (t_blob t)) r = map (\<lambda>(s, n). Some (clamp_blob_str n)) (c_sig c)"
      "t_sig t = map2 (\<lambda>(s, n) (off, len). (s, off, len)) (c_sig c) r"
    by (rule layout_strings [OF ok(2,3)]) (rule that; assumption)
  note valid = content_valid [OF ok(1)]
  note P = string_table_content [OF ok(3) p valid(2)] and Q = string_table_content [OF ok(3) q valid(3)]
    and R = string_table_content [OF ok(3) r valid(4)]
  show "file_path (opened t) f = Some (map_option clamp_blob_str (map_of (c_files c) f))"
    using ok(1) P file_path_table [OF ok(3)] by (simp add: content_ok_def)
  show "type_of (opened t) s = Some (map_option clamp_blob_str (map_of (c_typed c) s))"
    using ok(1) Q string_of_table [of "t_typed t"]
    by (simp add: content_ok_def type_of_def opened_slices ok(3) opened_counts)
  show "sig_of (opened t) s = Some (map_option clamp_blob_str (map_of (c_sig c) s))"
    using ok(1) R string_of_table [of "t_sig t"]
    by (simp add: content_ok_def sig_of_def opened_slices ok(3) opened_counts)
qed

lemma names_content:
  assumes "content_fits c t"
  shows "syms_for_name (opened t) q = Some (sort_dedup (map snd (filter (\<lambda>(n, s). n = q) (name_entries c))))"
    and "names_with_prefix (opened t) p limit =
      Some (take limit (filter (\<lambda>(n, s). starts_with n p) (name_entries c)))"
    and "(\<exists>s. sym_for_name (opened t) q = Some (Some s) \<and> (q, s) \<in> set (name_entries c)) \<or>
      (sym_for_name (opened t) q = Some None \<and> q \<notin> fst ` set (name_entries c))"
proof -
  note ok = content_fitsD [OF assms]
  note nm = layout_names [OF ok(2,3,1)]
  show "syms_for_name (opened t) q = Some (sort_dedup (map snd (filter (\<lambda>(n, s). n = q) (name_entries c))))"
    by (simp add: syms_for_name_table [OF ok(3) nm(2,3)] filter_map comp_def flip: nm(1))
  show "names_with_prefix (opened t) p limit =
      Some (take limit (filter (\<lambda>(n, s). starts_with n p) (name_entries c)))"
    by (simp add: names_with_prefix_table [OF ok(3) nm(2,3)] filter_map comp_def take_map flip: nm(1))
  show "(\<exists>s. sym_for_name (opened t) q = Some (Some s) \<and> (q, s) \<in> set (name_entries c)) \<or>
      (sym_for_name (opened t) q = Some None \<and> q \<notin> fst ` set (name_entries c))"
    using sym_for_name_table [OF ok(3) nm(2,3), of q] by (auto simp flip: nm(1))
qed

section \<open>The content of a builder\<close>

lemma first_per_sym_props:
  assumes "sorted rows" and "\<And>l. lst = Some l \<Longrightarrow> \<forall>r \<in> set rows. l \<le> fst r"
  shows "set (first_per_sym lst rows) \<subseteq> set rows"
    and "sorted (map fst (first_per_sym lst rows))" and "hm_ok (first_per_sym lst rows)"
    and "\<And>l. lst = Some l \<Longrightarrow> l \<notin> fst ` set (first_per_sym lst rows)"
    and "map_of (first_per_sym lst rows) k = (if lst = Some k then None else map_of rows k)"
proof -
  have "set (first_per_sym lst rows) \<subseteq> set rows \<and> sorted (map fst (first_per_sym lst rows)) \<and>
      hm_ok (first_per_sym lst rows) \<and> (\<forall>l. lst = Some l \<longrightarrow> l \<notin> fst ` set (first_per_sym lst rows)) \<and>
      map_of (first_per_sym lst rows) k = (if lst = Some k then None else map_of rows k)"
    using assms
  proof (induction lst rows rule: first_per_sym.induct)
    case (2 lst s t r)
    show ?case
    proof (cases "lst = Some s")
      case True
      with 2 show ?thesis by auto
    next
      case False
      have r: "\<forall>x \<in> set r. s \<le> fst x" "sorted r"
        using 2(3) by (auto simp: less_eq_prod_def simp del: sorted_wrt.simps) (use 2(3) in auto)
      then have IH: "set (first_per_sym (Some s) r) \<subseteq> set r" "sorted (map fst (first_per_sym (Some s) r))"
          "hm_ok (first_per_sym (Some s) r)" "s \<notin> fst ` set (first_per_sym (Some s) r)"
          "map_of (first_per_sym (Some s) r) k = (if s = k then None else map_of r k)"
        using 2(2) [OF False] by auto
      have "l \<notin> fst ` set (first_per_sym (Some s) r)" if "lst = Some l" for l
      proof -
        have "l < s" using 2(4) [OF that] that False by (auto simp: order.strict_iff_order)
        then show ?thesis using IH(1) r(1) by fastforce
      qed
      then show ?thesis using IH r False by (auto simp: map_of_eq_None_iff [symmetric])
    qed
  qed simp
  then show "set (first_per_sym lst rows) \<subseteq> set rows"
    and "sorted (map fst (first_per_sym lst rows))" and "hm_ok (first_per_sym lst rows)"
    and "\<And>l. lst = Some l \<Longrightarrow> l \<notin> fst ` set (first_per_sym lst rows)"
    and "map_of (first_per_sym lst rows) k = (if lst = Some k then None else map_of rows k)"
    by blast+
qed

text \<open>The lexicographically least string recorded for a symbol.\<close>

definition least_string :: "(u64 \<times> bytes) list \<Rightarrow> u64 \<Rightarrow> bytes option" where
  "least_string rows s =
     (case filter (\<lambda>r. fst r = s) rows of [] \<Rightarrow> None | rs \<Rightarrow> Some (Min (snd ` set rs)))"

lemma least_string_eq:
  "least_string rows s =
     (if filter (\<lambda>r. fst r = s) rows = [] then None
      else Some (Min (snd ` set (filter (\<lambda>r. fst r = s) rows))))"
  by (cases "filter (\<lambda>r. fst r = s) rows") (simp_all only: least_string_def list.case if_True if_False list.distinct refl)

lemma map_of_sorted_least: "sorted rows \<Longrightarrow> map_of rows s = least_string rows s"
proof (induction rows)
  case (Cons x rows)
  show ?case
  proof (cases "fst x = s")
    case True
    have "snd x \<le> snd y" if "y \<in> set rows" "fst y = s" for y
      using Cons.prems that True by (auto simp: less_eq_prod_def)
    then have "Min (snd ` insert x {y \<in> set rows. fst y = s}) = snd x"
      by (intro Min_eqI) auto
    then show ?thesis using True by (cases x) (simp add: least_string_def)
  next
    case False
    then show ?thesis using Cons by (cases x) (simp add: least_string_def)
  qed
qed (simp add: least_string_def)

lemma least_string_cong:
  assumes "set rows = set rows'"
  shows "least_string rows s = least_string rows' s"
proof -
  have "set (filter (\<lambda>r. fst r = s) rows) = set (filter (\<lambda>r. fst r = s) rows')"
    using assms by auto
  moreover from this have "(filter (\<lambda>r. fst r = s) rows = []) = (filter (\<lambda>r. fst r = s) rows' = [])"
    by (metis set_empty)
  ultimately show ?thesis
    by (simp only: least_string_eq)
qed

lemma map_of_first_per_sym: "map_of (first_per_sym None (sort_dedup rows)) s = least_string rows s"
  using first_per_sym_props(5) [of "sort_dedup rows" None s] least_string_cong [of "sort_dedup rows" rows s]
  by (simp add: map_of_sorted_least)

lemma sort_key_fst_map:
  assumes "hm_ok m"
  shows "sorted (map fst (sort_key fst m))" and "hm_ok (sort_key fst m)"
    and "map_of (sort_key fst m) = map_of m" and "set (sort_key fst m) = set m"
proof -
  show sorted: "sorted (map fst (sort_key fst m))" by simp
  have "mset (map fst (sort_key fst m)) = mset (map fst m)" by simp
  then show ok: "hm_ok (sort_key fst m)" using assms by (metis mset_eq_imp_distinct_iff)
  show "set (sort_key fst m) = set m" by simp
  then show "map_of (sort_key fst m) = map_of m" using assms ok by (intro map_of_inject_set [THEN iffD2])
qed

lemma content_ok_finish:
  assumes "builder_ok b"
  shows "content_ok (finish_content b)"
proof -
  have sub: "set (first_per_sym None (sort_dedup rows)) \<subseteq> set rows" for rows
    using first_per_sym_props(1) [of "sort_dedup rows" None] by simp
  have typed: "\<forall>(s, n) \<in> set (first_per_sym None (sort_dedup (b_typed b))). n \<noteq> [] \<and> utf8_valid n"
    and sg: "\<forall>(s, n) \<in> set (first_per_sym None (sort_dedup (b_sig b))). n \<noteq> [] \<and> utf8_valid n"
    using assms sub [of "b_typed b"] sub [of "b_sig b"] unfolding builder_ok_def by blast+
  have ok: "hm_ok (b_syms b)" "hm_ok (b_files b)" "names_ok (b_syms b)" "paths_ok (b_files b)"
      "\<forall>(s, n) \<in> set (b_aliases b). n \<noteq> [] \<and> utf8_valid n"
    using assms by (auto simp: builder_ok_def)
  have collapsed: "sorted (map fst (first_per_sym None (sort_dedup rows)))"
      "hm_ok (first_per_sym None (sort_dedup rows))" for rows :: "(u64 \<times> bytes) list"
    using first_per_sym_props(2,3) [of "sort_dedup rows" None] by simp_all
  show ?thesis
    using typed sg ok sort_key_fst_map [OF ok(1)] sort_key_fst_map [OF ok(2)]
    by (auto simp: collapsed content_ok_def finish_content_def sorted_syms_def kept_aliases_def)
qed

end
