(* ===== verification/S2_Fits.thy ===== *)
theory S2_Fits
  imports S2_Index
begin

text \<open>
  Writing always succeeds: from a builder whose tables weigh less than 64 bits of file offsets, the
  build of the trigram index does not panic and every section offset is exact. The weight bounds the
  trigram sections by the size of the names.
\<close>

section \<open>Size of the trigram sections\<close>

lemma length_windows3: "length (windows3 s) \<le> length s"
  by (induction s rule: windows3.induct) simp_all

lemma length_name_trigrams: "length (name_trigrams s) \<le> length s"
proof -
  have "length (remdups_adj (windows3 (map to_ascii_lowercase s))) \<le> length (map to_ascii_lowercase s)"
    by (rule order_trans [OF remdups_adj_length length_windows3])
  then show ?thesis by (simp add: name_trigrams_def)
qed

lemma length_visit_from:
  "visit_from i rows blob = Some evs \<Longrightarrow> length evs \<le> sum_list (map (\<lambda>r. length (name_bytes blob r)) rows)"
proof (induction i rows blob arbitrary: evs rule: visit_from.induct)
  case (2 i row rows blob)
  then obtain s evs' where s: "name_slice blob row = Some s" and e: "visit_from (Suc i) rows blob = Some evs'"
      "evs = map (\<lambda>t. (t, of_nat i)) (name_trigrams s) @ evs'"
    by (auto split: option.splits)
  have "name_bytes blob row = s"
    using s by (cases row) (auto simp: slice_of_def split: if_splits)
  then show ?case using 2(1) [OF s e(1)] e(2) length_name_trigrams [of s] by simp
qed simp

lemma sum_list_take_le: "sum_list (map f (take n xs)) \<le> sum_list (map (f :: 'a \<Rightarrow> nat) xs)"
proof -
  have "sum_list (map f xs) = sum_list (map f (take n xs)) + sum_list (map f (drop n xs))"
    by (metis append_take_drop_id map_append sum_list_append)
  then show ?thesis by simp
qed

lemma length_visit:
  "visit by_name blob = Some evs \<Longrightarrow> length evs \<le> sum_list (map (\<lambda>r. length (name_bytes blob r)) by_name)"
  using length_visit_from [of 0 _ blob evs] sum_list_take_le unfolding visit_def
  by (metis (no_types, lifting) order_trans)

lemma length_gap_bytes: "length (gap_bytes n prev ps) \<le> 5 * length ps"
proof (induction ps arbitrary: n prev)
  case (Cons r ps)
  have "length (gap_bytes (Suc n) r ps) \<le> 5 * length ps" by (rule Cons.IH)
  then show ?case
    using varint_len_u32(2) [of "delta_of n prev r"] by (simp add: length_write_varint)
qed simp

lemma n_blocks_le: "n_blocks n \<le> n"
  by (cases n) (simp_all add: n_blocks_Suc TRIGRAM_BLOCK_def, simp add: n_blocks_def TRIGRAM_BLOCK_def)

lemma length_region_le: "length (region ps) \<le> 13 * length ps"
  using n_blocks_le [of "length ps"] length_gap_bytes [of 0 "- 1" ps]
  by (simp add: length_region SKIP_ENTRY_def)

lemma sum_plist_le:
  "distinct ks \<Longrightarrow> sum_list (map (\<lambda>t. length (plist t evs)) ks) \<le> length evs"
proof (induction ks arbitrary: evs)
  case (Cons t ks)
  have "plist t' evs = plist t' (filter (\<lambda>e. fst e \<noteq> t) evs)" if "t' \<in> set ks" for t'
  proof -
    have "filter (\<lambda>e. fst e = t') evs = filter (\<lambda>e. fst e = t') (filter (\<lambda>e. fst e \<noteq> t) evs)"
      using that Cons.prems by (auto intro!: filter_cong)
    then show ?thesis by (simp add: plist_def)
  qed
  then have "sum_list (map (\<lambda>t'. length (plist t' evs)) ks) =
      sum_list (map (\<lambda>t'. length (plist t' (filter (\<lambda>e. fst e \<noteq> t) evs))) ks)"
    by (intro arg_cong [of _ _ sum_list] map_cong) auto
  also have "\<dots> \<le> length (filter (\<lambda>e. fst e \<noteq> t) evs)" using Cons by simp
  finally have rest: "sum_list (map (\<lambda>t'. length (plist t' evs)) ks) \<le> length (filter (\<lambda>e. fst e \<noteq> t) evs)" .
  have "length (plist t evs) \<le> length (filter (\<lambda>e. fst e = t) evs)"
    unfolding plist_def by (rule order_trans [OF remdups_adj_length]) simp
  with rest sum_length_filter_compl [of "\<lambda>e. fst e = t" evs] show ?case by simp
qed simp

lemma build_size:
  assumes "visit by_name blob = Some evs"
  obtains dict post where "build_trigram_index by_name blob = Some (dict, post)"
    and "TRIGRAM_LEN dvd length dict" and "length dict + length post \<le> 33 * length evs"
proof -
  let ?ks = "sort_dedup (map fst evs)" and ?PS = "\<lambda>t. plist t evs"
  have len_dict: "length (concat (map enc_trigram (dict_rows PS tot ks))) = TRIGRAM_LEN * length ks" for PS tot ks
    by (induction ks arbitrary: tot) (auto simp: enc_trigram_def TRIGRAM_LEN_def)
  have "length ?ks \<le> length evs"
    using card_length [of "map fst evs"] distinct_card [of ?ks] by simp
  moreover have "length (concat (map (\<lambda>t. region (?PS t)) ?ks)) \<le> sum_list (map (\<lambda>t. 13 * length (?PS t)) ?ks)"
    by (simp add: length_concat comp_def) (intro sum_list_mono length_region_le)
  moreover have "\<dots> = 13 * sum_list (map (\<lambda>t. length (?PS t)) ?ks)" by (simp add: sum_list_const_mult)
  moreover have "sum_list (map (\<lambda>t. length (?PS t)) ?ks) \<le> length evs" by (rule sum_plist_le) simp
  ultimately show ?thesis
    using that build_regions [OF assms] len_dict [of ?PS 0 ?ks] by (simp add: TRIGRAM_LEN_def)
qed

section \<open>The layout succeeds\<close>

definition content_blob :: "content \<Rightarrow> bytes" where
  "content_blob c =
     concat (map clamp_blob_str
       (map (\<lambda>(s, k, l, n). n) (c_syms c) @ map snd (c_aliases c) @ map snd (c_files c) @
        map snd (c_typed c) @ map snd (c_sig c)))"

text \<open>A bound on the bytes of all sections.\<close>

definition content_weight :: "content \<Rightarrow> nat" where
  "content_weight c =
     17 * length (c_xrefs c) + 38 * length (c_syms c) + 18 * length (c_aliases c) + 14 * length (c_files c) +
     32 * length (c_inh c) + 34 * length (c_calls c) + 18 * length (c_typed c) + 16 * length (c_childrev c) +
     18 * length (c_sig c) + 34 * length (content_blob c)"

definition content_bounded :: "content \<Rightarrow> bool" where
  "content_bounded c \<longleftrightarrow> content_weight c + 61696 < 2 ^ 64"

lemma sum_lengths_names:
  "sum_list (map (\<lambda>(s, k, l, n). length (clamp_blob_str n)) (c_syms c)) +
   sum_list (map (\<lambda>(s, n). length (clamp_blob_str n)) (c_aliases c)) \<le> length (content_blob c)"
  by (simp add: content_blob_def length_concat comp_def case_prod_unfold)

lemma sum_list_sort_key: "sum_list (map f (sort_key g xs)) = (sum_list (map f xs) :: nat)"
  by (metis mset_map mset_sort sum_mset_sum_list)

lemma layout_total:
  assumes "content_ok c" and "content_bounded c"
  shows "\<exists>t. content_fits c t"
proof -
  obtain p1 B1 p2 B2 p3 B3 p4 B4 p5 B5 where
    l: "lay_strings [] (map (\<lambda>(s, k, l, n). n) (c_syms c)) = (p1, B1)" "lay_strings B1 (map snd (c_aliases c)) = (p2, B2)"
       "lay_strings B2 (map snd (c_files c)) = (p3, B3)" "lay_strings B3 (map snd (c_typed c)) = (p4, B4)"
       "lay_strings B4 (map snd (c_sig c)) = (p5, B5)"
    by (metis surj_pair)
  have B: "B1 = concat (map clamp_blob_str (map (\<lambda>(s, k, l, n). n) (c_syms c)))"
      "B2 = B1 @ concat (map clamp_blob_str (map snd (c_aliases c)))"
      "B3 = B2 @ concat (map clamp_blob_str (map snd (c_files c)))"
      "B4 = B3 @ concat (map clamp_blob_str (map snd (c_typed c)))"
      "B5 = B4 @ concat (map clamp_blob_str (map snd (c_sig c)))"
    using lay_strings_eq(1) l by (metis snd_conv append_Nil)+
  have B5: "B5 = content_blob c" by (simp add: B content_blob_def)
  have pos: "length p1 = length (c_syms c)" "length p2 = length (c_aliases c)" "length p3 = length (c_files c)"
      "length p4 = length (c_typed c)" "length p5 = length (c_sig c)"
    using lay_strings_eq(2) l by (metis fst_conv length_map)+
  have len: "length B5 < 2 ^ 64" using assms(2) by (simp add: B5 content_bounded_def content_weight_def)
  have at: "map (blob_at B5) ps = map (\<lambda>s. Some (clamp_blob_str s)) ss"
    if "lay_strings b ss = (ps, b')" "B5 = b' @ ext" for b b' ss ps ext
    using lay_strings_at [of b ss ext] that len by simp
  have p1: "map (blob_at B5) p1 = map (\<lambda>(s, v). Some (case v of (k, l, n) \<Rightarrow> clamp_blob_str n)) (c_syms c)"
    using at [OF l(1)] B by (simp add: case_prod_unfold comp_def)
  have p2: "map (blob_at B5) p2 = map (\<lambda>(s, n). Some (clamp_blob_str n)) (c_aliases c)"
    using at [OF l(2)] B by (simp add: case_prod_unfold comp_def)
  define by_name where "by_name = sort_names B5
            (map2 (\<lambda>(s, m) (off, len). (off, len, s)) (c_syms c) p1 @
             map2 (\<lambda>(s, a) (off, len). (off, len, s)) (c_aliases c) p2)"
  have readable: "name_slice B5 r \<noteq> None" if "r \<in> set by_name" for r
  proof -
    have "r \<in> set (map2 (\<lambda>(s, m) (off, len). (off, len, s)) (c_syms c) p1) \<or>
        r \<in> set (map2 (\<lambda>(s, a) (off, len). (off, len, s)) (c_aliases c) p2)"
      using that by (simp only: by_name_def sort_names_def set_sort set_append Un_iff)
    then have "blob_at B5 (fst r, fst (snd r)) = Some (name_bytes B5 r)"
      using name_rows_entries(2) [OF p1] name_rows_entries(2) [OF p2] by blast
    moreover obtain off len s where "r = (off, len, s)" by (rule prod_cases3)
    ultimately show ?thesis by simp
  qed
  then have "visit by_name B5 \<noteq> None"
    unfolding visit_def by (intro visit_from_Some) (auto dest: in_set_takeD)
  then obtain evs where evs: "visit by_name B5 = Some evs" by blast
  then obtain dict post where build: "build_trigram_index by_name B5 = Some (dict, post)"
      "TRIGRAM_LEN dvd length dict" "length dict + length post \<le> 33 * length evs"
    by (rule build_size)
  let ?rows1 = "map2 (\<lambda>(s, m) (off, len). (off, len, s)) (c_syms c) p1"
  let ?rows2 = "map2 (\<lambda>(s, a) (off, len). (off, len, s)) (c_aliases c) p2"
  have sums: "sum_list (map (\<lambda>r. length (name_bytes B5 r)) ?rows1) =
        sum_list (map (\<lambda>(s, k, l, n). length (clamp_blob_str n)) (c_syms c))"
      "sum_list (map (\<lambda>r. length (name_bytes B5 r)) ?rows2) =
        sum_list (map (\<lambda>(s, n). length (clamp_blob_str n)) (c_aliases c))"
    using arg_cong [OF name_rows_entries(1) [OF p1], of "\<lambda>l. sum_list (map (\<lambda>e. length (fst e)) l)"]
      arg_cong [OF name_rows_entries(1) [OF p2], of "\<lambda>l. sum_list (map (\<lambda>e. length (fst e)) l)"]
    by (simp_all add: comp_def case_prod_unfold)
  have "length evs \<le> sum_list (map (\<lambda>r. length (name_bytes B5 r)) (?rows1 @ ?rows2))"
    using length_visit [OF evs] unfolding by_name_def sort_names_def sum_list_sort_key .
  also have "\<dots> \<le> length B5"
    unfolding map_append sum_list_append sums using sum_lengths_names [of c] by (simp only: B5)
  finally have tri: "length dict + length post \<le> 33 * length B5" using build(3) by linarith
  obtain t where t: "layout_tables c = Some t" "t_blob t = B5" "t_dict t = dict" "t_post t = post" "t_names t = by_name"
      "length (t_syms t) = length (c_syms c)" "length (t_files t) = length (c_files c)"
      "length (t_typed t) = length (c_typed c)" "length (t_sig t) = length (c_sig c)"
    using build(1) pos by (simp add: layout_tables_def l Let_def by_name_def [symmetric])
  have names: "length (t_names t) = length (c_syms c) + length (c_aliases c)"
    using pos by (simp add: t by_name_def sort_names_def)
  have "sum_list (map length (sections t)) \<le> content_weight c"
    using tri names layout_rows [OF t(1)] t
    by (simp add: sections_def content_weight_def table_lengths len_defs swap_inh_def swap_calls_def B5)
  then have "tables_fit t"
    using assms(2) build(2) by (simp add: tables_fit_def content_bounded_def t HEADER_LEN_def PAGE_def)
  then show ?thesis using t(1) assms(1) by (auto simp: content_fits_def)
qed

text \<open>\<open>ix\<close> is the index opened on the file that \<^verbatim>\<open>finish\<close> writes from the well-formed builder
  \<open>b\<close> of bounded size.\<close>

definition indexed :: "index_builder \<Rightarrow> index \<Rightarrow> bool" where
  "indexed b ix \<longleftrightarrow> builder_ok b \<and> content_bounded (finish_content b) \<and>
     (case finish b of None \<Rightarrow> False | Some file \<Rightarrow> index_open file = Inr ix)"

lemma indexedE:
  assumes "indexed b ix"
  obtains t where "content_fits (finish_content b) t" and "ix = opened t" and "builder_ok b"
proof -
  have ok: "builder_ok b" and bd: "content_bounded (finish_content b)" using assms by (simp_all add: indexed_def)
  obtain t where t: "content_fits (finish_content b) t"
    using layout_total [OF content_ok_finish [OF ok] bd] by blast
  then have "finish b = Some (write_tables t)" "index_open (write_tables t) = Inr (opened t)"
    by (simp_all add: content_fits_def finish_def finish_tables_def open_written)
  then have "ix = opened t" using assms by (simp add: indexed_def)
  with t ok that show ?thesis by blast
qed

text \<open>Every well-formed builder of bounded size has an index.\<close>

lemma index_exists:
  assumes "builder_ok b" and "content_bounded (finish_content b)"
  shows "\<exists>file ix. finish b = Some file \<and> index_open file = Inr ix \<and> indexed b ix \<and> ix_map ix = file"
proof -
  obtain t where "content_fits (finish_content b) t"
    using layout_total [OF content_ok_finish [OF assms(1)] assms(2)] by blast
  then have "finish b = Some (write_tables t)" "index_open (write_tables t) = Inr (opened t)"
    by (simp_all add: content_fits_def finish_def finish_tables_def open_written)
  then show ?thesis using assms by (simp add: indexed_def opened_def)
qed

end
