(* ===== verification/S2_Skiplist.thy ===== *)
theory S2_Skiplist
  imports S2_Fits
begin

text \<open>
  The trigram postings as the reader probes them (\<open>src/crates/scry2/src/reader.rs\<close>): the posting
  descriptors, the full decode of the driver list and the block-skip membership probe with its
  galloping search. On a region the writer produced, decoding gives the posting list back and the
  probe decides membership, whatever forward cursor the caller resumes from.
\<close>

section \<open>Reading the trigram sections\<close>

record posting =
  p_off :: nat
  p_len :: nat
  p_count :: nat

text \<open>\<^verbatim>\<open>fn name_row\<close>.\<close>

definition read_name_row :: "bytes \<Rightarrow> bytes \<Rightarrow> u32 \<Rightarrow> (bytes \<times> u64) option" where
  "read_name_row names blob row_id = do {
     off \<leftarrow> get_u64 names (unat row_id * NAME_LEN);
     len \<leftarrow> get_u16 names (unat row_id * NAME_LEN + 8);
     s \<leftarrow> get_u64 names (unat row_id * NAME_LEN + 10);
     name \<leftarrow> slice_of blob (unat off) (unat off + unat len);
     Some (name, s)
   }"

definition dict_key :: "bytes \<Rightarrow> nat \<Rightarrow> tri option" where
  "dict_key dict row = do {
     a \<leftarrow> index_of dict row; b \<leftarrow> index_of dict (row + 1); c \<leftarrow> index_of dict (row + 2); Some (a, b, c) }"

definition trigram_lookup :: "index \<Rightarrow> bytes \<Rightarrow> tri \<Rightarrow> posting option option" where
  "trigram_lookup ix dict t = do {
     hit \<leftarrow> bsearch_loop (\<lambda>mid. map_option (\<lambda>k. cmp_of k t) (dict_key dict (mid * TRIGRAM_LEN))) 0
              (unat (trigram_dict_n (ix_hdr ix)));
     (case hit of None \<Rightarrow> Some None
      | Some mid \<Rightarrow> do {
          off \<leftarrow> get_u64 dict (mid * TRIGRAM_LEN + 4);
          len \<leftarrow> get_u32 dict (mid * TRIGRAM_LEN + 12);
          cnt \<leftarrow> get_u32 dict (mid * TRIGRAM_LEN + 16);
          Some (Some \<lparr> p_off = unat off, p_len = unat len, p_count = unat cnt \<rparr>)
        })
   }"

text \<open>\<^verbatim>\<open>for i in 0..this\<close>: \<open>first\<close> is \<^verbatim>\<open>i == 0\<close>, \<open>k\<close> the iterations left.\<close>

fun block_ids :: "bytes \<Rightarrow> nat \<Rightarrow> u32 \<Rightarrow> bool \<Rightarrow> nat \<Rightarrow> (u32 list \<times> nat) option" where
  "block_ids post pos acc first 0 = Some ([], pos)"
| "block_ids post pos acc first (Suc k) =
     (case read_varint post pos of
        None \<Rightarrow> None
      | Some (delta, used) \<Rightarrow>
          let acc' = (if first then delta else acc + delta)
          in (case block_ids post (pos + used) acc' False k of
                None \<Rightarrow> None | Some (ids, pos') \<Rightarrow> Some (acc' # ids, pos')))"

function postings_loop :: "bytes \<Rightarrow> nat \<Rightarrow> nat \<Rightarrow> u32 list option" where
  "postings_loop post pos remaining =
     (if remaining = 0 then Some []
      else (case block_ids post pos 0 True (min remaining TRIGRAM_BLOCK) of
              None \<Rightarrow> None
            | Some (ids, pos') \<Rightarrow>
                map_option (\<lambda>rest. ids @ rest) (postings_loop post pos' (remaining - min remaining TRIGRAM_BLOCK))))"
  by pat_completeness auto
termination
  by (relation "measure (\<lambda>(post, pos, remaining). remaining)") (auto simp: TRIGRAM_BLOCK_def)

declare postings_loop.simps [simp del]

definition trigram_postings :: "bytes \<Rightarrow> posting \<Rightarrow> u32 list option" where
  "trigram_postings post p = postings_loop post (p_off p + n_blocks (p_count p) * SKIP_ENTRY) (p_count p)"

section \<open>The membership probe\<close>

definition max_id_at :: "bytes \<Rightarrow> posting \<Rightarrow> nat \<Rightarrow> u32 option" where
  "max_id_at post p b = get_u32 post (p_off p + b * SKIP_ENTRY)"

definition block_off_at :: "bytes \<Rightarrow> posting \<Rightarrow> nat \<Rightarrow> nat option" where
  "block_off_at post p b = map_option unat (get_u32 post (p_off p + b * SKIP_ENTRY + 4))"

text \<open>The exponential phase; \<open>k\<close> is the exponent of \<^verbatim>\<open>step\<close>. Block counts are below \<open>2 ^ 25\<close>, so
  neither \<^verbatim>\<open>step *= 2\<close> nor the saturating addition leaves the range of \<^verbatim>\<open>usize\<close>.\<close>

function gallop :: "(nat \<Rightarrow> bool option) \<Rightarrow> nat \<Rightarrow> nat \<Rightarrow> nat \<Rightarrow> nat \<Rightarrow> (nat \<times> nat) option" where
  "gallop below nb lo k hi =
     (if hi < nb then
        (case below hi of
           None \<Rightarrow> None
         | Some True \<Rightarrow> gallop below nb hi (Suc k) (hi + 2 ^ Suc k)
         | Some False \<Rightarrow> Some (lo, hi))
      else Some (lo, hi))"
  by pat_completeness auto
termination
  by (relation "measure (\<lambda>(below, nb, lo, k, hi). nb - hi)") (auto intro!: diff_less_mono2)

declare gallop.simps [simp del]

text \<open>The first block at or after the hint whose maximum is not below the candidate.\<close>

definition probe_block :: "(nat \<Rightarrow> bool option) \<Rightarrow> nat \<Rightarrow> nat \<Rightarrow> nat option" where
  "probe_block below nb hint =
     (let lo = min hint nb
      in if lo < nb then
           (case below lo of
              None \<Rightarrow> None
            | Some False \<Rightarrow> Some lo
            | Some True \<Rightarrow> do {
                (lo', hi) \<leftarrow> gallop below nb lo 0 (lo + 1);
                lower_bound_loop below (lo' + 1) (min hi nb)
              })
         else Some lo)"

lemma read_varint_loop_progress: "read_varint_loop buf v shift i = Some (w, j) \<Longrightarrow> i < j"
proof (induction buf v shift i rule: read_varint_loop.induct)
  case (1 buf v shift i)
  from "1.prems" have step: "i < length buf"
    by (simp add: read_varint_loop.simps [of buf v shift i] split: if_splits)
  show ?case
  proof (cases "buf ! i AND 0x80 = 0")
    case True
    with step "1.prems" show ?thesis
      by (auto simp: read_varint_loop.simps [of buf v shift i] Let_def)
  next
    case False
    with step "1.prems" show ?thesis
      using "1.IH" [OF step refl refl False] by (simp add: read_varint_loop.simps [of buf v shift i] Let_def)
  qed
qed

lemma read_varint_used:
  assumes "read_varint buf pos = Some (v, used)"
  shows "0 < used" and "pos < length buf"
proof -
  from assms obtain j where j: "read_varint_loop buf 0 0 pos = Some (v, j)" and "used = j - pos"
    by (auto simp: read_varint_def)
  with read_varint_loop_progress [OF j] show "0 < used" by simp
  show "pos < length buf"
    using j by (rule contrapos_pp) (simp add: read_varint_loop.simps [of buf 0 0 pos])
qed

text \<open>The walk over one block.\<close>

function walk_block :: "bytes \<Rightarrow> nat \<Rightarrow> nat \<Rightarrow> u32 \<Rightarrow> bool \<Rightarrow> u32 \<Rightarrow> bool option" where
  "walk_block post pos block_end acc first cand =
     (if pos < block_end then
        (case read_varint post pos of
           None \<Rightarrow> None
         | Some (delta, used) \<Rightarrow>
             let acc' = (if first then delta else acc + delta)
             in if acc' = cand then Some True
                else if cand < acc' then Some False
                else walk_block post (pos + used) block_end acc' False cand)
      else Some False)"
  by pat_completeness auto
termination
  by (relation "measure (\<lambda>(post, pos, block_end, acc, first, cand). block_end - pos)")
    (auto dest: read_varint_used)

declare walk_block.simps [simp del]

definition trigram_contains :: "bytes \<Rightarrow> posting \<Rightarrow> u32 \<Rightarrow> nat \<Rightarrow> (bool \<times> nat) option" where
  "trigram_contains post p cand hint =
     (let nb = n_blocks (p_count p)
      in if nb = 0 then Some (False, 0)
         else do {
           lo \<leftarrow> probe_block (\<lambda>b. map_option (\<lambda>m. m < cand) (max_id_at post p b)) nb hint;
           (if nb \<le> lo then Some (False, nb)
            else do {
              m \<leftarrow> max_id_at post p lo;
              (if m < cand then Some (False, nb)
               else do {
                 block_off \<leftarrow> block_off_at post p lo;
                 block_end \<leftarrow> (if lo + 1 < nb then map_option (\<lambda>e. p_off p + e) (block_off_at post p (lo + 1))
                               else Some (p_off p + p_len p));
                 found \<leftarrow> walk_block post (p_off p + block_off) block_end 0 True cand;
                 Some (found, lo)
               })
            })
         })"

section \<open>Decoding a region\<close>

text \<open>Where a descriptor points: the region of the posting list \<open>ps\<close>, all of whose offsets fit 32
  bits.\<close>

definition posting_at :: "bytes \<Rightarrow> posting \<Rightarrow> u32 list \<Rightarrow> bool" where
  "posting_at post p ps \<longleftrightarrow>
     (\<exists>A B. post = A @ region ps @ B \<and>
        p = \<lparr> p_off = length A, p_len = length (region ps), p_count = length ps \<rparr>) \<and>
     length (region ps) < 2 ^ 32"

lemma gap_bytes_rebase:
  "n mod TRIGRAM_BLOCK = 0 \<Longrightarrow> gap_bytes n prev rs = gap_bytes n prev' rs"
  by (cases rs) (simp_all add: delta_of_def)

lemma gap_bytes_shift:
  "n mod TRIGRAM_BLOCK = m mod TRIGRAM_BLOCK \<Longrightarrow> gap_bytes n prev rs = gap_bytes m prev rs"
proof (induction rs arbitrary: n m prev)
  case (Cons r rs)
  have "Suc n mod TRIGRAM_BLOCK = Suc m mod TRIGRAM_BLOCK"
    using Cons.prems by (metis mod_Suc_eq)
  then have "gap_bytes (Suc n) r rs = gap_bytes (Suc m) r rs" by (rule Cons.IH)
  moreover have "delta_of n prev r = delta_of m prev r" unfolding delta_of_def Cons.prems ..
  ultimately show ?case by simp
qed simp

lemma packed_split:
  "packed ps = packed (take (TRIGRAM_BLOCK * j) ps) @ packed (drop (TRIGRAM_BLOCK * j) ps)"
proof (cases "TRIGRAM_BLOCK * j \<le> length ps")
  case True
  have "packed ps = packed (take (TRIGRAM_BLOCK * j) ps @ drop (TRIGRAM_BLOCK * j) ps)" by simp
  also have "\<dots> = packed (take (TRIGRAM_BLOCK * j) ps) @
      gap_bytes (TRIGRAM_BLOCK * j) (last (- 1 # take (TRIGRAM_BLOCK * j) ps)) (drop (TRIGRAM_BLOCK * j) ps)"
    using True by (simp only: gap_bytes_append length_take) simp
  also have "gap_bytes (TRIGRAM_BLOCK * j) (last (- 1 # take (TRIGRAM_BLOCK * j) ps)) (drop (TRIGRAM_BLOCK * j) ps) =
      packed (drop (TRIGRAM_BLOCK * j) ps)"
    by (subst gap_bytes_rebase [of _ _ _ "- 1"], simp) (rule gap_bytes_shift, simp)
  finally show ?thesis .
qed simp

text \<open>The walk of the decoder over part of one block: \<open>first\<close> says that the next entry starts it.\<close>

lemma block_ids_gaps:
  assumes "first = (n mod TRIGRAM_BLOCK = 0)" and "first \<or> acc = prev"
    and "n mod TRIGRAM_BLOCK + length rs \<le> TRIGRAM_BLOCK"
  shows "block_ids (A @ gap_bytes n prev rs @ B) (length A) acc first (length rs) =
    Some (rs, length A + length (gap_bytes n prev rs))"
  using assms
proof (induction rs arbitrary: A n prev acc first)
  case (Cons r rs)
  let ?v = "write_varint [] (delta_of n prev r)"
  have acc: "(if first then delta_of n prev r else acc + delta_of n prev r) = r"
    using Cons.prems(1,2) by (auto simp: delta_of_def)
  have read: "read_varint (A @ (?v @ gap_bytes (Suc n) r rs) @ B) (length A) = Some (delta_of n prev r, length ?v)"
    using read_write_varint [of A "delta_of n prev r" "gap_bytes (Suc n) r rs @ B"] by (simp add: length_write_varint)
  have "block_ids ((A @ ?v) @ gap_bytes (Suc n) r rs @ B) (length (A @ ?v)) r False (length rs) =
      Some (rs, length (A @ ?v) + length (gap_bytes (Suc n) r rs))"
  proof (cases "rs = []")
    case False
    then have "n mod TRIGRAM_BLOCK + 1 < TRIGRAM_BLOCK" using Cons.prems(3) by (cases rs) auto
    then have "Suc n mod TRIGRAM_BLOCK = Suc (n mod TRIGRAM_BLOCK)" by (simp add: mod_Suc)
    with Cons.prems(3) show ?thesis by (intro Cons.IH) simp_all
  qed simp
  with read acc show ?case by (simp add: Let_def)
qed simp

lemma postings_loop_packed:
  "postings_loop (A @ packed rs @ B) (length A) (length rs) = Some rs"
proof (induction "length rs" arbitrary: A rs rule: less_induct)
  case less
  let ?k = "min (length rs) TRIGRAM_BLOCK"
  show ?case
  proof (cases "rs = []")
    case False
    have split: "packed rs = packed (take ?k rs) @ packed (drop ?k rs)"
      using packed_split [of rs 1] by (cases "length rs \<le> TRIGRAM_BLOCK") (simp_all add: min_def)
    have "block_ids (A @ packed (take ?k rs) @ (packed (drop ?k rs) @ B)) (length A) 0 True (length (take ?k rs)) =
        Some (take ?k rs, length A + length (packed (take ?k rs)))"
      by (rule block_ids_gaps) simp_all
    moreover have "postings_loop ((A @ packed (take ?k rs)) @ packed (drop ?k rs) @ B)
        (length (A @ packed (take ?k rs))) (length (drop ?k rs)) = Some (drop ?k rs)"
      using False by (intro less) (simp add: TRIGRAM_BLOCK_def)
    ultimately show ?thesis
      using False by (subst postings_loop.simps) (simp add: split)
  qed (simp add: postings_loop.simps)
qed

lemma trigram_postings_eq:
  assumes "posting_at post p ps"
  shows "trigram_postings post p = Some ps"
proof -
  obtain A B where post: "post = A @ region ps @ B" and p: "p_off p = length A" "p_count p = length ps"
    using assms by (auto simp: posting_at_def)
  let ?S = "skip_table (n_blocks (length ps)) ps"
  have "length ?S = n_blocks (length ps) * SKIP_ENTRY" by (simp add: skip_table_def)
  with postings_loop_packed [of "A @ ?S" ps B] show ?thesis
    by (simp add: trigram_postings_def post p region_def)
qed

section \<open>The skip table\<close>

interpretation skip_rows: fixed_rows "skip_entry nb ps" SKIP_ENTRY for nb ps
  by unfold_locales simp

definition block_max :: "u32 list \<Rightarrow> nat \<Rightarrow> u32" where
  "block_max ps j = ps ! (min (TRIGRAM_BLOCK * (j + 1)) (length ps) - 1)"

definition block_of :: "u32 list \<Rightarrow> nat \<Rightarrow> u32 list" where
  "block_of ps j = take TRIGRAM_BLOCK (drop (TRIGRAM_BLOCK * j) ps)"

lemma get_u32_embed:
  "i + 4 \<le> length X \<Longrightarrow> get_u32 (A @ X @ B) (length A + i) = get_u32 X i"
  by (simp add: get_u32_def slice_simps add.assoc)

lemma skip_table_reads:
  assumes "posting_at post p ps" and "j < n_blocks (length ps)"
  shows "max_id_at post p j = Some (block_max ps j)"
    and "block_off_at post p j =
      Some (n_blocks (length ps) * SKIP_ENTRY + length (packed (take (TRIGRAM_BLOCK * j) ps)))"
proof -
  obtain A B where post: "post = A @ region ps @ B" and p: "p_off p = length A" "p_count p = length ps"
    and small: "length (region ps) < 2 ^ 32"
    using assms(1) by (auto simp: posting_at_def)
  let ?nb = "n_blocks (length ps)"
  let ?S = "skip_table ?nb ps"
  have len: "length ?S = ?nb * SKIP_ENTRY" by (simp add: skip_table_def)
  have entry: "(j + 1) * SKIP_ENTRY \<le> length ?S"
    unfolding len using assms(2) by (intro mult_right_mono) auto
  have S: "?S = concat (map (skip_entry ?nb ps) [0..<?nb])" by (simp add: skip_table_def)
  have at: "get_u32 post (length A + (j * SKIP_ENTRY + a)) = get_u32 (skip_entry ?nb ps j) a"
    if "a + 4 \<le> SKIP_ENTRY" for a
  proof -
    have "get_u32 post (length A + (j * SKIP_ENTRY + a)) = get_u32 ?S (j * SKIP_ENTRY + a)"
      using get_u32_embed [of "j * SKIP_ENTRY + a" ?S A "packed ps @ B"] entry that by (simp add: post region_def)
    also have "\<dots> = get_u32 (skip_entry ?nb ps j) a"
      using skip_rows.get_row_u32 [of j "[0..<?nb]" a] assms(2) that by (simp add: S)
    finally show ?thesis .
  qed
  show "max_id_at post p j = Some (block_max ps j)"
    using at [of 0] by (simp add: max_id_at_def p SKIP_ENTRY_def skip_entry_def get_u32_def slice_simps block_max_def)
  have "length (packed (take (TRIGRAM_BLOCK * j) ps)) \<le> length (packed ps)"
    using packed_split [of ps j] by (metis le_add1 length_append)
  then have "?nb * SKIP_ENTRY + length (packed (take (TRIGRAM_BLOCK * j) ps)) < 2 ^ 32"
    using small by (simp add: length_region)
  then have "unat (of_nat (?nb * SKIP_ENTRY + length (packed (take (TRIGRAM_BLOCK * j) ps))) :: u32) =
      ?nb * SKIP_ENTRY + length (packed (take (TRIGRAM_BLOCK * j) ps))"
    by (simp add: unat_of_nat_small del: of_nat_add of_nat_mult)
  moreover have "get_u32 (skip_entry ?nb ps j) 4 =
      Some (of_nat (?nb * SKIP_ENTRY + length (packed (take (TRIGRAM_BLOCK * j) ps))))"
    by (simp add: skip_entry_def get_u32_def slice_simps del: of_nat_add of_nat_mult)
  ultimately show "block_off_at post p j = Some (?nb * SKIP_ENTRY + length (packed (take (TRIGRAM_BLOCK * j) ps)))"
    using at [of 4] by (simp add: block_off_at_def p SKIP_ENTRY_def add.assoc del: of_nat_add of_nat_mult)
qed

section \<open>Probing is membership\<close>

lemma gallop_brackets:
  assumes "\<And>i. i < nb \<Longrightarrow> below i = Some (P i)" and "P lo" and "lo < hi" and "lo < nb"
  shows "\<exists>lo' hi'. gallop below nb lo k hi = Some (lo', hi') \<and> P lo' \<and> lo \<le> lo' \<and> lo' < hi' \<and> lo' < nb \<and>
    (hi' < nb \<longrightarrow> \<not> P hi')"
  using assms
proof (induction below nb lo k hi rule: gallop.induct)
  case (1 below nb lo k hi)
  show ?case
  proof (cases "hi < nb \<and> P hi")
    case True
    then have hi: "hi < nb" "below hi = Some True" using "1.prems"(1) by auto
    have "\<exists>lo' hi'. gallop below nb hi (Suc k) (hi + 2 ^ Suc k) = Some (lo', hi') \<and> P lo' \<and> hi \<le> lo' \<and>
        lo' < hi' \<and> lo' < nb \<and> (hi' < nb \<longrightarrow> \<not> P hi')"
      using True "1.prems"(1) by (intro "1.IH" [OF hi refl]) auto
    then show ?thesis
      unfolding gallop.simps [of below nb lo k hi] using hi "1.prems"(3)
      by (auto intro: less_imp_le order_trans)
  next
    case False
    then show ?thesis
      unfolding gallop.simps [of below nb lo k hi] using "1.prems" by auto
  qed
qed

lemma probe_block_first:
  assumes below: "\<And>i. i < nb \<Longrightarrow> below i = Some (P i)" and mono: "\<And>i j. i \<le> j \<Longrightarrow> j < nb \<Longrightarrow> P j \<Longrightarrow> P i"
    and hint: "\<And>i. i < hint \<Longrightarrow> i < nb \<Longrightarrow> P i"
  shows "\<exists>b. probe_block below nb hint = Some b \<and> b \<le> nb \<and> (\<forall>i < b. P i) \<and> (\<forall>i. b \<le> i \<and> i < nb \<longrightarrow> \<not> P i)"
proof (cases "hint < nb \<and> P hint")
  case False
  then have "probe_block below nb hint = Some (min hint nb)"
    using below by (auto simp: probe_block_def Let_def min_def)
  moreover have "\<not> P i" if "min hint nb \<le> i" "i < nb" for i
    using that False mono [of hint i] by (auto simp: min_def split: if_splits)
  ultimately show ?thesis using hint by auto
next
  case True
  then have lo: "min hint nb = hint" "hint < nb" "below hint = Some True" using below by auto
  obtain lo' hi' where g: "gallop below nb hint 0 (hint + 1) = Some (lo', hi')" "P lo'" "lo' < hi'" "lo' < nb"
      "hi' < nb \<longrightarrow> \<not> P hi'"
    using gallop_brackets [of nb below P hint "hint + 1" 0, OF below] True by auto
  have "\<exists>p. lower_bound_loop below (lo' + 1) (min hi' nb) = Some p \<and> lo' + 1 \<le> p \<and> p \<le> min hi' nb \<and>
      (\<forall>i. lo' + 1 \<le> i \<and> i < p \<longrightarrow> P i) \<and> (\<forall>i. p \<le> i \<and> i < min hi' nb \<longrightarrow> \<not> P i)"
    by (rule lower_bound_loop_partition) (use g below mono in auto)
  then obtain p where p: "lower_bound_loop below (lo' + 1) (min hi' nb) = Some p" "lo' + 1 \<le> p" "p \<le> min hi' nb"
      "\<forall>i. lo' + 1 \<le> i \<and> i < p \<longrightarrow> P i" "\<forall>i. p \<le> i \<and> i < min hi' nb \<longrightarrow> \<not> P i" by blast
  have "P i" if "i < p" for i using that p(4) mono [of i lo'] g by (cases "i \<le> lo'") auto
  moreover have "\<not> P i" if "p \<le> i" "i < nb" for i
    using that p(5) g(5) mono [of hi' i] by (cases "i < hi'") auto
  ultimately show ?thesis
    using lo g(1) p by (auto simp: probe_block_def Let_def)
qed

text \<open>Block maxima of an ascending list.\<close>

lemma block_index:
  assumes "j < n_blocks n"
  shows "TRIGRAM_BLOCK * j < n" and "min (TRIGRAM_BLOCK * (j + 1)) n - 1 < n" and "TRIGRAM_BLOCK * j \<le> min (TRIGRAM_BLOCK * (j + 1)) n - 1"
proof -
  have "j * 128 < n" using assms by (simp add: n_blocks_def TRIGRAM_BLOCK_def)
  then show "TRIGRAM_BLOCK * j < n" "min (TRIGRAM_BLOCK * (j + 1)) n - 1 < n"
      "TRIGRAM_BLOCK * j \<le> min (TRIGRAM_BLOCK * (j + 1)) n - 1"
    by (auto simp: TRIGRAM_BLOCK_def)
qed

lemma block_max_mono:
  assumes "sorted ps" and "i \<le> j" and "j < n_blocks (length ps)"
  shows "block_max ps i \<le> block_max ps j"
  unfolding block_max_def using assms(1) block_index(2) [OF assms(3)]
  by (intro sorted_nth_mono) (use assms(2) in \<open>auto intro!: diff_le_mono min.mono mult_left_mono\<close>)

lemma nth_in_block:
  assumes "TRIGRAM_BLOCK * j \<le> i" and "i < TRIGRAM_BLOCK * (j + 1)" and "i < length ps"
  shows "ps ! i \<in> set (block_of ps j)"
proof -
  have "i - TRIGRAM_BLOCK * j < length (block_of ps j)" "block_of ps j ! (i - TRIGRAM_BLOCK * j) = ps ! i"
    using assms by (auto simp: block_of_def)
  then show ?thesis by (metis nth_mem)
qed

lemma block_of_range:
  assumes "sorted ps" and "j < n_blocks (length ps)" and "c \<in> set ps"
    and "\<And>i. i < j \<Longrightarrow> block_max ps i < c" and "c \<le> block_max ps j"
  shows "c \<in> set (block_of ps j)"
proof -
  obtain i where i: "i < length ps" "c = ps ! i" using assms(3) by (auto simp: in_set_conv_nth)
  have lower: "TRIGRAM_BLOCK * j \<le> i"
  proof (rule ccontr)
    assume less: "\<not> TRIGRAM_BLOCK * j \<le> i"
    then have "j \<noteq> 0" by (cases j) auto
    then have j: "j - 1 < j" "j - 1 + 1 = j" "j - 1 < n_blocks (length ps)" using assms(2) by auto
    have "TRIGRAM_BLOCK * j \<le> length ps" using block_index(1) [OF assms(2)] by simp
    then have "block_max ps (j - 1) = ps ! (TRIGRAM_BLOCK * j - 1)"
      unfolding block_max_def j(2) by (simp add: min_absorb1)
    moreover have "ps ! i \<le> ps ! (TRIGRAM_BLOCK * j - 1)"
      using less \<open>TRIGRAM_BLOCK * j \<le> length ps\<close> by (intro sorted_nth_mono [OF assms(1)]) auto
    ultimately show False using assms(4) [OF j(1)] i(2) by simp
  qed
  show ?thesis
  proof (cases "i < TRIGRAM_BLOCK * (j + 1)")
    case True
    with nth_in_block lower i show ?thesis by blast
  next
    case False
    then have m: "block_max ps j = ps ! (TRIGRAM_BLOCK * (j + 1) - 1)"
      using i(1) by (simp add: block_max_def min_absorb1)
    moreover have "ps ! (TRIGRAM_BLOCK * (j + 1) - 1) \<le> ps ! i"
      using False i(1) by (intro sorted_nth_mono [OF assms(1)]) auto
    ultimately have "c = ps ! (TRIGRAM_BLOCK * (j + 1) - 1)" using assms(5) i(2) by simp
    then show ?thesis
      using nth_in_block [of j "TRIGRAM_BLOCK * (j + 1) - 1" ps] False i(1) by (simp add: TRIGRAM_BLOCK_def)
  qed
qed

lemma n_blocks_cover: "n \<le> TRIGRAM_BLOCK * n_blocks n"
  by (cases n) (simp_all add: n_blocks_Suc TRIGRAM_BLOCK_def)

lemma last_block_max:
  assumes "sorted ps" and "c \<in> set ps"
  shows "0 < n_blocks (length ps)" and "c \<le> block_max ps (n_blocks (length ps) - 1)"
proof -
  obtain i where i: "i < length ps" "c = ps ! i" using assms(2) by (auto simp: in_set_conv_nth)
  then show nb: "0 < n_blocks (length ps)" using n_blocks_cover [of "length ps"] by (cases "n_blocks (length ps)") auto
  then have "block_max ps (n_blocks (length ps) - 1) = ps ! (length ps - 1)"
    using n_blocks_cover [of "length ps"] by (simp add: block_max_def min_absorb2)
  then show "c \<le> block_max ps (n_blocks (length ps) - 1)"
    using i sorted_nth_mono [OF assms(1), of i "length ps - 1"] by simp
qed

lemma packed_blocks:
  "packed ps = packed (take (TRIGRAM_BLOCK * j) ps) @ packed (block_of ps j) @ packed (drop (TRIGRAM_BLOCK * (j + 1)) ps)"
  "packed (take (TRIGRAM_BLOCK * (j + 1)) ps) = packed (take (TRIGRAM_BLOCK * j) ps) @ packed (block_of ps j)"
proof -
  have "packed (drop (TRIGRAM_BLOCK * j) ps) = packed (block_of ps j) @ packed (drop (TRIGRAM_BLOCK * (j + 1)) ps)"
    using packed_split [of "drop (TRIGRAM_BLOCK * j) ps" 1] by (simp add: block_of_def)
  with packed_split [of ps j]
  show "packed ps = packed (take (TRIGRAM_BLOCK * j) ps) @ packed (block_of ps j) @ packed (drop (TRIGRAM_BLOCK * (j + 1)) ps)"
    by simp
  have "drop (TRIGRAM_BLOCK * j) (take (TRIGRAM_BLOCK * (j + 1)) ps) = block_of ps j"
    by (simp add: block_of_def drop_take)
  with packed_split [of "take (TRIGRAM_BLOCK * (j + 1)) ps" j]
  show "packed (take (TRIGRAM_BLOCK * (j + 1)) ps) = packed (take (TRIGRAM_BLOCK * j) ps) @ packed (block_of ps j)"
    by (simp add: min_absorb1)
qed

lemma walk_block_gaps:
  assumes "sorted rs" and "distinct rs" and "first = (n mod TRIGRAM_BLOCK = 0)" and "first \<or> acc = prev"
    and "n mod TRIGRAM_BLOCK + length rs \<le> TRIGRAM_BLOCK"
  shows "walk_block (A @ gap_bytes n prev rs @ B) (length A) (length A + length (gap_bytes n prev rs)) acc first cand =
    Some (cand \<in> set rs)"
  using assms
proof (induction rs arbitrary: A n prev acc first)
  case (Cons r rs)
  let ?v = "write_varint [] (delta_of n prev r)"
  have acc: "(if first then delta_of n prev r else acc + delta_of n prev r) = r"
    using Cons.prems(3,4) by (auto simp: delta_of_def)
  have pos: "0 < length ?v" using varint_len_u32(1) [of "delta_of n prev r"] by (simp add: length_write_varint)
  have read: "read_varint (A @ (?v @ gap_bytes (Suc n) r rs) @ B) (length A) = Some (delta_of n prev r, length ?v)"
    using read_write_varint [of A "delta_of n prev r" "gap_bytes (Suc n) r rs @ B"] by (simp add: length_write_varint)
  have IH: "walk_block ((A @ ?v) @ gap_bytes (Suc n) r rs @ B) (length (A @ ?v))
      (length (A @ ?v) + length (gap_bytes (Suc n) r rs)) r False cand = Some (cand \<in> set rs)"
  proof (cases "rs = []")
    case False
    then have "n mod TRIGRAM_BLOCK + 1 < TRIGRAM_BLOCK" using Cons.prems(5) by (cases rs) auto
    then have "Suc n mod TRIGRAM_BLOCK = Suc (n mod TRIGRAM_BLOCK)" by (simp add: mod_Suc)
    with Cons.prems show ?thesis by (intro Cons.IH) simp_all
  qed (simp add: walk_block.simps)
  have "cand \<notin> set rs" if "cand < r" using that Cons.prems(1) by auto
  with read acc IH pos show ?case
    by (subst walk_block.simps) (auto simp: Let_def add.assoc)
qed (simp add: walk_block.simps)

theorem trigram_contains_eq:
  assumes at: "posting_at post p ps" and ps: "sorted ps" "distinct ps"
    and hint: "\<And>i. i < hint \<Longrightarrow> i < n_blocks (length ps) \<Longrightarrow> block_max ps i < cand"
  shows "\<exists>b. trigram_contains post p cand hint = Some (cand \<in> set ps, b) \<and>
    (\<forall>i. i < b \<and> i < n_blocks (length ps) \<longrightarrow> block_max ps i < cand)"
proof -
  let ?nb = "n_blocks (length ps)"
  obtain A B where post: "post = A @ region ps @ B"
    and p: "p_off p = length A" "p_count p = length ps" "p_len p = length (region ps)"
    using at by (auto simp: posting_at_def)
  have mono: "block_max ps i < cand" if "i \<le> j" "j < ?nb" "block_max ps j < cand" for i j
    using block_max_mono [OF ps(1) that(1,2)] that(3) by simp
  have "\<exists>b. probe_block (\<lambda>b. map_option (\<lambda>m. m < cand) (max_id_at post p b)) ?nb hint = Some b \<and> b \<le> ?nb \<and>
      (\<forall>i < b. block_max ps i < cand) \<and> (\<forall>i. b \<le> i \<and> i < ?nb \<longrightarrow> \<not> block_max ps i < cand)"
    by (rule probe_block_first) (use skip_table_reads(1) [OF at] hint mono in auto)
  then obtain b where b: "probe_block (\<lambda>b. map_option (\<lambda>m. m < cand) (max_id_at post p b)) ?nb hint = Some b" "b \<le> ?nb"
      "\<forall>i < b. block_max ps i < cand" "\<forall>i. b \<le> i \<and> i < ?nb \<longrightarrow> \<not> block_max ps i < cand"
    by blast
  have none: "cand \<notin> set ps" if "b = ?nb"
  proof
    assume "cand \<in> set ps"
    note last_block_max [OF ps(1) this]
    moreover from this(1) have "block_max ps (?nb - 1) < cand" using b(3) that by simp
    ultimately show False by simp
  qed
  show ?thesis
  proof (cases "b < ?nb")
    case False
    with b none show ?thesis
      by (auto simp: trigram_contains_def p Let_def)
  next
    case True
    then have max: "cand \<le> block_max ps b" using b(4) by auto
    let ?S = "skip_table ?nb ps" and ?pre = "packed (take (TRIGRAM_BLOCK * b) ps)"
    have mem: "cand \<in> set (block_of ps b) \<longleftrightarrow> cand \<in> set ps"
      using block_of_range [OF ps(1) True _ _ max] b(3) by (auto simp: block_of_def dest: in_set_takeD in_set_dropD)
    have blocks: "packed ps = ?pre @ packed (block_of ps b) @ packed (drop (TRIGRAM_BLOCK * (b + 1)) ps)"
        "packed (take (TRIGRAM_BLOCK * (b + 1)) ps) = ?pre @ packed (block_of ps b)"
      by (rule packed_blocks)+
    then have split: "post = (A @ ?S @ ?pre) @ packed (block_of ps b) @ (packed (drop (TRIGRAM_BLOCK * (b + 1)) ps) @ B)"
      by (simp add: post region_def)
    have S: "length ?S = ?nb * SKIP_ENTRY" by (simp add: skip_table_def)
    have walk: "walk_block post (length A + (?nb * SKIP_ENTRY + length ?pre))
        (length A + (?nb * SKIP_ENTRY + length ?pre) + length (packed (block_of ps b))) 0 True cand = Some (cand \<in> set ps)"
      using walk_block_gaps [of "block_of ps b" True 0 0 "- 1" "A @ ?S @ ?pre"
          "packed (drop (TRIGRAM_BLOCK * (b + 1)) ps) @ B" cand] ps mem S
      unfolding split [symmetric] by (simp add: block_of_def sorted_wrt_take sorted_wrt_drop)
    have fin: "(if b + 1 < ?nb then map_option (\<lambda>e. p_off p + e) (block_off_at post p (b + 1)) else Some (p_off p + p_len p)) =
        Some (length A + (?nb * SKIP_ENTRY + length ?pre) + length (packed (block_of ps b)))"
    proof (cases "b + 1 < ?nb")
      case True
      then show ?thesis using skip_table_reads(2) [OF at True] blocks(2) by (simp add: p)
    next
      case False
      then have "?nb = b + 1" using True by simp
      then have "length ps \<le> TRIGRAM_BLOCK * (b + 1)" using n_blocks_cover [of "length ps"] by (simp only:)
      then show ?thesis using False blocks by (simp add: p length_region)
    qed
    have "\<not> block_max ps b < cand" using max by simp
    then show ?thesis
      using True b walk fin skip_table_reads [OF at True]
      by (simp add: trigram_contains_def p Let_def)
  qed
qed

end
