(* ===== verification/S2_Substring.thy ===== *)
theory S2_Substring
  imports S2_Skiplist "HOL-Library.Sublist"
begin

text \<open>
  Substring search over the names table (\<open>src/crates/scry2/src/reader.rs\<close>): the trigram
  intersection with its driver list and forward cursors, and the parallel linear scan it falls
  back to. \<^verbatim>\<open>memchr::memmem::Finder\<close> is a third-party crate: \<open>memmem\<close> is a parameter, needle first,
  and \<open>memmem_ok\<close> states its documented behaviour. The number of cores is a parameter too.
\<close>

section \<open>The search\<close>

type_synonym finder = "bytes \<Rightarrow> bytes \<Rightarrow> nat option"

definition memmem_ok :: "finder \<Rightarrow> bool" where
  "memmem_ok memmem \<longleftrightarrow> (\<forall>needle hay. memmem needle hay \<noteq> None \<longleftrightarrow> sublist needle hay)"

text \<open>The per-candidate verification; \<open>needle\<close> is already folded when \<open>ignore_case\<close>.\<close>

definition verify :: "finder \<Rightarrow> bytes \<Rightarrow> bool \<Rightarrow> bytes \<Rightarrow> bool" where
  "verify memmem needle ignore_case name =
     (memmem needle (if ignore_case then map to_ascii_lowercase name else name) \<noteq> None)"

text \<open>\<^verbatim>\<open>for (k, op) in others.iter().enumerate()\<close>: probe every other list, stop at the first miss.\<close>

fun probe_all :: "bytes \<Rightarrow> posting list \<Rightarrow> u32 \<Rightarrow> nat list \<Rightarrow> (bool \<times> nat list) option" where
  "probe_all post [] cand cursors = Some (True, cursors)"
| "probe_all post (op # ops) cand [] = None"
| "probe_all post (op # ops) cand (c # cs) =
     (case trigram_contains post op cand c of
        None \<Rightarrow> None
      | Some (found, block_idx) \<Rightarrow>
          if found then map_option (\<lambda>(r, cs'). (r, block_idx # cs')) (probe_all post ops cand cs)
          else Some (False, block_idx # cs))"

fun intersect_loop ::
    "(u32 \<Rightarrow> (bytes \<times> u64) option) \<Rightarrow> (bytes \<Rightarrow> bool) \<Rightarrow> bytes \<Rightarrow> posting list \<Rightarrow> nat \<Rightarrow>
     u32 list \<Rightarrow> nat list \<Rightarrow> u64 set \<Rightarrow> u64 list \<Rightarrow> u64 list option" where
  "intersect_loop row hit post others limit [] cursors seen out = Some out"
| "intersect_loop row hit post others limit (cand # ids) cursors seen out =
     (case probe_all post others cand cursors of
        None \<Rightarrow> None
      | Some (in_all, cursors') \<Rightarrow>
          if \<not> in_all then intersect_loop row hit post others limit ids cursors' seen out
          else (case row cand of
                  None \<Rightarrow> None
                | Some (name, s) \<Rightarrow>
                    if hit name \<and> s \<notin> seen then
                      (if limit \<le> length out + 1 then Some (out @ [s])
                       else intersect_loop row hit post others limit ids cursors' (insert s seen) (out @ [s]))
                    else intersect_loop row hit post others limit ids cursors' seen out))"

text \<open>\<^verbatim>\<open>for tri in tris\<close>: \<open>Some None\<close> when a trigram is missing.\<close>

fun resolve_all :: "index \<Rightarrow> bytes \<Rightarrow> tri list \<Rightarrow> posting list option option" where
  "resolve_all ix dict [] = Some (Some [])"
| "resolve_all ix dict (t # ts) =
     (case trigram_lookup ix dict t of
        None \<Rightarrow> None
      | Some None \<Rightarrow> Some None
      | Some (Some p) \<Rightarrow> map_option (map_option ((#) p)) (resolve_all ix dict ts))"

text \<open>\<^verbatim>\<open>min_by_key\<close> returns the first of several minima.\<close>

fun driver_index :: "posting list \<Rightarrow> nat" where
  "driver_index [] = 0"
| "driver_index [p] = 0"
| "driver_index (p # q # ps) =
     (let i = driver_index (q # ps) in if p_count p \<le> p_count ((q # ps) ! i) then 0 else Suc i)"

section \<open>The linear scan\<close>

text \<open>One worker: rows \<open>i, i + 1, \<dots>\<close> (\<open>k\<close> of them), stopping at \<open>limit\<close> matches.\<close>

fun scan_chunk :: "(bytes \<Rightarrow> bool) \<Rightarrow> bytes \<Rightarrow> bytes \<Rightarrow> nat \<Rightarrow> nat \<Rightarrow> nat \<Rightarrow> u64 list \<Rightarrow> u64 list option" where
  "scan_chunk hit names blob limit i 0 loc = Some loc"
| "scan_chunk hit names blob limit i (Suc k) loc =
     (case do { off \<leftarrow> get_u64 names (i * NAME_LEN);
                len \<leftarrow> get_u16 names (i * NAME_LEN + 8);
                slice_of blob (unat off) (unat off + unat len) } of
        None \<Rightarrow> None
      | Some row \<Rightarrow>
          if hit row then
            (case get_u64 names (i * NAME_LEN + 10) of
               None \<Rightarrow> None
             | Some s \<Rightarrow> if limit \<le> length loc + 1 then Some (loc @ [s])
                         else scan_chunk hit names blob limit (Suc i) k (loc @ [s]))
          else scan_chunk hit names blob limit (Suc i) k loc)"

text \<open>The final loop over the parts, with the \<^verbatim>\<open>seen\<close> set.\<close>

fun collect_syms :: "nat \<Rightarrow> u64 set \<Rightarrow> u64 list \<Rightarrow> u64 list \<Rightarrow> u64 list" where
  "collect_syms limit seen out [] = out"
| "collect_syms limit seen out (s # ss) =
     (if s \<in> seen then collect_syms limit seen out ss
      else if limit \<le> length out + 1 then out @ [s]
      else collect_syms limit (insert s seen) (out @ [s]) ss)"

text \<open>\<^verbatim>\<open>threads = available_parallelism().clamp(1, n)\<close> and the half-open row ranges of the workers.\<close>

definition worker_ranges :: "nat \<Rightarrow> nat \<Rightarrow> (nat \<times> nat) list" where
  "worker_ranges cores n =
     (let threads = max 1 (min cores n); chunk = (n + threads - 1) div threads
      in filter (\<lambda>(lo, hi). lo < hi) (map (\<lambda>t. (t * chunk, min ((t + 1) * chunk) n)) [0..<threads]))"

definition syms_matching_substring_linear ::
    "finder \<Rightarrow> nat \<Rightarrow> index \<Rightarrow> bytes \<Rightarrow> nat \<Rightarrow> bool \<Rightarrow> u64 list option" where
  "syms_matching_substring_linear memmem cores ix nb limit ignore_case =
     (let n = unat (names_n (ix_hdr ix))
      in if nb = [] \<or> n = 0 \<or> limit = 0 then Some []
         else do {
           names \<leftarrow> names_slice ix;
           blob \<leftarrow> blob_slice ix;
           let needle = (if ignore_case then map to_ascii_lowercase nb else nb);
           parts \<leftarrow> those (map (\<lambda>(lo, hi).
             scan_chunk (verify memmem needle ignore_case) names blob limit lo (hi - lo) []) (worker_ranges cores n));
           Some (collect_syms limit {} [] (concat parts))
         })"

definition syms_matching_substring_trigram ::
    "finder \<Rightarrow> nat \<Rightarrow> index \<Rightarrow> bytes \<Rightarrow> nat \<Rightarrow> bool \<Rightarrow> u64 list option" where
  "syms_matching_substring_trigram memmem cores ix needle limit ignore_case = do {
     names \<leftarrow> names_slice ix;
     blob \<leftarrow> blob_slice ix;
     dict \<leftarrow> trigram_dict_slice ix;
     post \<leftarrow> trigram_post_slice ix;
     let lower_needle = map to_ascii_lowercase needle;
     resolved \<leftarrow> resolve_all ix dict (sort_dedup (windows3 lower_needle));
     (case resolved of
        None \<Rightarrow> Some []
      | Some posts \<Rightarrow>
          if posts = [] then syms_matching_substring_linear memmem cores ix needle limit ignore_case
          else do {
          let d = driver_index posts;
          driver_ids \<leftarrow> trigram_postings post (posts ! d);
          let others = take d posts @ drop (Suc d) posts;
          intersect_loop (read_name_row names blob)
            (verify memmem (if ignore_case then lower_needle else needle) ignore_case)
            post others limit driver_ids (replicate (length others) 0) {} []
        })
   }"

definition syms_matching_substring_impl ::
    "finder \<Rightarrow> nat \<Rightarrow> index \<Rightarrow> bytes \<Rightarrow> nat \<Rightarrow> bool \<Rightarrow> u64 list option" where
  "syms_matching_substring_impl memmem cores ix needle limit ignore_case =
     (if needle = [] \<or> unat (names_n (ix_hdr ix)) = 0 \<or> limit = 0 then Some []
      else if 3 \<le> length needle \<and> 0 < trigram_dict_n (ix_hdr ix)
      then syms_matching_substring_trigram memmem cores ix needle limit ignore_case
      else syms_matching_substring_linear memmem cores ix needle limit ignore_case)"

definition syms_matching_substring :: "finder \<Rightarrow> nat \<Rightarrow> index \<Rightarrow> bytes \<Rightarrow> nat \<Rightarrow> u64 list option" where
  "syms_matching_substring memmem cores ix needle limit =
     syms_matching_substring_impl memmem cores ix needle limit False"

definition syms_matching_substring_ci :: "finder \<Rightarrow> nat \<Rightarrow> index \<Rightarrow> bytes \<Rightarrow> nat \<Rightarrow> u64 list option" where
  "syms_matching_substring_ci memmem cores ix needle limit =
     syms_matching_substring_impl memmem cores ix needle limit True"

section \<open>The specification\<close>

text \<open>A list without the repetitions of earlier elements and of those in \<open>S\<close>.\<close>

fun distinct_from :: "'a set \<Rightarrow> 'a list \<Rightarrow> 'a list" where
  "distinct_from S [] = []"
| "distinct_from S (x # xs) = (if x \<in> S then distinct_from S xs else x # distinct_from (insert x S) xs)"

definition name_matches :: "bool \<Rightarrow> bytes \<Rightarrow> bytes \<Rightarrow> bool" where
  "name_matches ignore_case needle name =
     (if ignore_case then sublist (map to_ascii_lowercase needle) (map to_ascii_lowercase name)
      else sublist needle name)"

lemma verify_matches:
  "memmem_ok memmem \<Longrightarrow>
     verify memmem (if ic then map to_ascii_lowercase needle else needle) ic = name_matches ic needle"
  by (auto simp: verify_def name_matches_def memmem_ok_def)

lemma set_distinct_from: "set (distinct_from S xs) = set xs - S"
  by (induction S xs rule: distinct_from.induct) auto

lemma distinct_distinct_from: "distinct (distinct_from S xs)"
  by (induction S xs rule: distinct_from.induct) (auto simp: set_distinct_from)

lemma distinct_from_id: "distinct xs \<Longrightarrow> set xs \<inter> S = {} \<Longrightarrow> distinct_from S xs = xs"
  by (induction S xs rule: distinct_from.induct) auto

lemma collect_syms_eq:
  "length out < limit \<Longrightarrow>
     collect_syms limit seen out ss = out @ take (limit - length out) (distinct_from seen ss)"
proof (induction limit seen out ss rule: collect_syms.induct)
  case (2 limit seen out s ss)
  then show ?case by (auto simp: take_Cons')
qed simp

section \<open>The intersection\<close>

definition cursor_ok :: "u32 list \<Rightarrow> nat \<Rightarrow> u32 \<Rightarrow> bool" where
  "cursor_ok ps c cand \<longleftrightarrow> (\<forall>i. i < c \<and> i < n_blocks (length ps) \<longrightarrow> block_max ps i < cand)"

lemma cursor_ok_mono: "cursor_ok ps c cand \<Longrightarrow> cand \<le> cand' \<Longrightarrow> cursor_ok ps c cand'"
  by (auto simp: cursor_ok_def intro: order.strict_trans2)

definition posting_ok :: "bytes \<Rightarrow> posting \<Rightarrow> u32 list \<Rightarrow> bool" where
  "posting_ok post p ps \<longleftrightarrow> posting_at post p ps \<and> sorted ps \<and> distinct ps"

lemma probe_all_eq:
  assumes "list_all2 (posting_ok post) others pss" and "list_all2 (\<lambda>ps c. cursor_ok ps c cand) pss cs"
  shows "\<exists>cs'. probe_all post others cand cs = Some (\<forall>ps \<in> set pss. cand \<in> set ps, cs') \<and>
    list_all2 (\<lambda>ps c. cursor_ok ps c cand) pss cs'"
  using assms
proof (induction others pss arbitrary: cs rule: list_all2_induct)
  case (Cons p ops ps pss)
  obtain c cs0 where cs: "cs = c # cs0" "cursor_ok ps c cand" "list_all2 (\<lambda>ps c. cursor_ok ps c cand) pss cs0"
    using Cons.prems by (cases cs) auto
  obtain b where b: "trigram_contains post p cand c = Some (cand \<in> set ps, b)" "cursor_ok ps b cand"
    using trigram_contains_eq [of post p ps c cand] Cons.hyps(1) cs(2) by (auto simp: posting_ok_def cursor_ok_def)
  obtain cs' where cs': "probe_all post ops cand cs0 = Some (\<forall>ps \<in> set pss. cand \<in> set ps, cs')"
      "list_all2 (\<lambda>ps c. cursor_ok ps c cand) pss cs'"
    using Cons.IH [OF cs(3)] by blast
  show ?case
    using b cs cs' by (cases "cand \<in> set ps") auto
qed auto

lemma intersect_loop_eq:
  assumes "list_all2 (posting_ok post) others pss" and "sorted ids" and "distinct ids"
    and "\<forall>cand \<in> set ids. list_all2 (\<lambda>ps c. cursor_ok ps c cand) pss cs"
    and "\<forall>cand \<in> set ids. row cand = Some (f cand)" and "length out < limit"
  shows "intersect_loop row hit post others limit ids cs seen out =
    Some (out @ take (limit - length out) (distinct_from seen
      (map (\<lambda>cand. snd (f cand)) (filter (\<lambda>cand. (\<forall>ps \<in> set pss. cand \<in> set ps) \<and> hit (fst (f cand))) ids))))"
  using assms(2-)
proof (induction ids arbitrary: cs seen out)
  case (Cons cand ids)
  obtain cs' where cs': "probe_all post others cand cs = Some (\<forall>ps \<in> set pss. cand \<in> set ps, cs')"
      "list_all2 (\<lambda>ps c. cursor_ok ps c cand) pss cs'"
    using probe_all_eq [OF assms(1), of cand cs] Cons.prems(3) by auto
  have ok: "\<forall>cand' \<in> set ids. list_all2 (\<lambda>ps c. cursor_ok ps c cand') pss cs'"
    using cs'(2) Cons.prems(1) by (auto elim!: list_all2_mono intro: cursor_ok_mono)
  obtain name s where f: "f cand = (name, s)" by (cases "f cand")
  have IH: "intersect_loop row hit post others limit ids cs' seen' out' =
    Some (out' @ take (limit - length out') (distinct_from seen'
      (map (\<lambda>cand. snd (f cand)) (filter (\<lambda>cand. (\<forall>ps \<in> set pss. cand \<in> set ps) \<and> hit (fst (f cand))) ids))))"
    if "length out' < limit" for seen' out'
    using Cons.prems ok that by (intro Cons.IH) auto
  show ?case
  proof (cases "limit \<le> length out + 1")
    case True
    then show ?thesis
      using cs'(1) Cons.prems(4,5) f IH by (auto simp: take_Cons')
  next
    case False
    then show ?thesis
      using cs'(1) Cons.prems(4,5) f IH by (auto simp: take_Cons')
  qed
qed simp

section \<open>Posting lists of a names table\<close>

text \<open>The rows of a list of names, numbered from \<open>i\<close>, that hold a trigram.\<close>

definition rows_with :: "tri \<Rightarrow> nat \<Rightarrow> bytes list \<Rightarrow> nat list" where
  "rows_with t i ns = map fst (filter (\<lambda>(j, n). t \<in> set (name_trigrams n)) (enumerate i ns))"

lemma rows_with_simps [simp]:
  "rows_with t i [] = []"
  "rows_with t i (n # ns) = (if t \<in> set (name_trigrams n) then [i] else []) @ rows_with t (Suc i) ns"
  by (simp_all add: rows_with_def)

lemma rows_with_bounds: "j \<in> set (rows_with t i ns) \<Longrightarrow> i \<le> j \<and> j < i + length ns"
  by (induction ns arbitrary: i) (force split: if_splits)+

lemma in_rows_with: "j \<in> set (rows_with t 0 ns) \<longleftrightarrow> j < length ns \<and> t \<in> set (name_trigrams (ns ! j))"
  by (auto simp: rows_with_def image_iff in_set_enumerate_eq Bex_def)

lemma sorted_rows_with: "sorted (rows_with t i ns)" "distinct (rows_with t i ns)"
proof -
  have "sorted (map fst (filter P (enumerate i ns)))" "distinct (map fst (filter P (enumerate i ns)))" for P
    by (simp_all add: sorted_filter distinct_map_filter)
  then show "sorted (rows_with t i ns)" "distinct (rows_with t i ns)" by (simp_all add: rows_with_def)
qed

lemma remdups_adj_replicate_append:
  "x \<notin> set ys \<Longrightarrow> remdups_adj (replicate k x @ ys) = (if k = 0 then [] else [x]) @ remdups_adj ys"
proof (induction k)
  case (Suc k)
  then show ?case by (cases k; cases ys) auto
qed simp

lemma of_nat_eq_small:
  assumes "x < 2 ^ 32" and "y < 2 ^ 32"
  shows "(of_nat x :: u32) = of_nat y \<longleftrightarrow> x = y"
proof
  assume "(of_nat x :: u32) = of_nat y"
  then have "unat (of_nat x :: u32) = unat (of_nat y :: u32)" by simp
  then show "x = y" using assms by (simp add: unat_of_nat_small)
qed simp

lemma plist_visit_from:
  assumes "visit_from i rows blob = Some evs" and "i + length rows \<le> 2 ^ 32"
  shows "plist t evs = map of_nat (rows_with t i (map (name_bytes blob) rows))"
  using assms
proof (induction i rows blob arbitrary: evs rule: visit_from.induct)
  case (2 i row rows blob)
  then obtain s evs' where s: "name_slice blob row = Some s" and e: "visit_from (Suc i) rows blob = Some evs'"
      "evs = map (\<lambda>t. (t, of_nat i)) (name_trigrams s) @ evs'"
    by (auto split: option.splits)
  have name: "name_bytes blob row = s"
    using s by (cases row) (auto simp: slice_of_def split: if_splits)
  have IH: "plist t evs' = map of_nat (rows_with t (Suc i) (map (name_bytes blob) rows))"
    using 2 s e(1) by simp
  have "set (map snd (filter (\<lambda>e. fst e = t) evs')) = set (plist t evs')" by (simp add: plist_def)
  also have "\<dots> = of_nat ` set (rows_with t (Suc i) (map (name_bytes blob) rows))" by (simp add: IH)
  finally have "(of_nat i :: u32) \<notin> set (map snd (filter (\<lambda>e. fst e = t) evs'))"
    using "2.prems"(2) by (auto simp: of_nat_eq_small dest!: rows_with_bounds)
  moreover have "map snd (filter (\<lambda>e. fst e = t) (map (\<lambda>t. (t, of_nat i :: u32)) ts)) =
      replicate (count_list ts t) (of_nat i)" for ts
    by (induction ts) auto
  ultimately have "plist t evs = (if count_list (name_trigrams s) t = 0 then [] else [of_nat i]) @ plist t evs'"
    by (simp add: plist_def e(2) remdups_adj_replicate_append)
  then show ?case by (simp add: IH name count_list_0_iff)
qed (simp add: plist_def)

section \<open>Looking a trigram up\<close>

interpretation trigram_table: fixed_rows enc_trigram TRIGRAM_LEN
  by unfold_locales (auto simp: enc_trigram_def TRIGRAM_LEN_def)

lemma sorted_of_nat:
  assumes "sorted xs" and "distinct xs" and "\<forall>x \<in> set xs. x < 2 ^ 32"
  shows "sorted (map of_nat xs :: u32 list)" and "distinct (map of_nat xs :: u32 list)"
proof -
  have "sorted_wrt (\<lambda>x y. (of_nat x :: u32) \<le> of_nat y) xs"
  proof (rule sorted_wrt_mono_rel [OF _ assms(1)])
    fix x y assume "x \<in> set xs" "y \<in> set xs" "x \<le> y"
    moreover from this have "x < 2 ^ 32" "y < 2 ^ 32" using assms(3) by blast+
    ultimately show "(of_nat x :: u32) \<le> of_nat y" by (simp add: word_le_nat_alt unat_of_nat_small)
  qed
  then show "sorted (map of_nat xs :: u32 list)" by (simp add: sorted_map)
  have "inj_on (of_nat :: nat \<Rightarrow> u32) (set xs)"
    using assms(3) by (intro inj_onI) (simp add: of_nat_eq_small)
  then show "distinct (map of_nat xs :: u32 list)" using assms(2) by (simp add: distinct_map)
qed

lemma length_rows_with: "length (rows_with t i ns) \<le> length ns"
  by (induction ns arbitrary: i) (simp_all add: le_SucI)

lemma dict_rows_nth:
  "i < length ks \<Longrightarrow> dict_rows PS tot ks ! i =
     (ks ! i, tot + regions_len PS (take i ks), length (region (PS (ks ! i))), length (PS (ks ! i)))"
proof (induction ks arbitrary: i tot)
  case (Cons k ks)
  then show ?case by (cases i) auto
qed simp

lemma length_dict_rows [simp]: "length (dict_rows PS tot ks) = length ks"
  by (induction ks arbitrary: tot) simp_all

lemma dict_key_row:
  assumes "i < length rows"
  shows "dict_key (concat (map enc_trigram rows)) (i * TRIGRAM_LEN) = Some (fst (rows ! i))"
proof -
  obtain a b c off len cnt where r: "rows ! i = ((a, b, c), off, len, cnt)"
    by (cases "rows ! i") (metis prod_cases3)
  have lt: "0 < TRIGRAM_LEN" "1 < TRIGRAM_LEN" "2 < TRIGRAM_LEN" by (simp_all add: TRIGRAM_LEN_def)
  show ?thesis
    using trigram_table.row_index [OF assms lt(1)] trigram_table.row_index [OF assms lt(2)]
      trigram_table.row_index [OF assms lt(3)]
    by (simp add: dict_key_def r enc_trigram_def index_of_def)
qed

lemma dict_row_fields:
  assumes "i < length rows" and "rows ! i = (t, off, len, cnt)"
  shows "get_u64 (concat (map enc_trigram rows)) (i * TRIGRAM_LEN + 4) = Some (of_nat off)"
    and "get_u32 (concat (map enc_trigram rows)) (i * TRIGRAM_LEN + 12) = Some (of_nat len)"
    and "get_u32 (concat (map enc_trigram rows)) (i * TRIGRAM_LEN + 16) = Some (of_nat cnt)"
proof -
  obtain K where enc: "enc_trigram (rows ! i) = K @ be64 (of_nat off) @ be32 (of_nat len) @ be32 (of_nat cnt)"
    and len: "length K = 4"
    by (cases t) (auto simp: enc_trigram_def assms(2) intro: that [of "tri_bytes t @ [0]"])
  note at = trigram_table.get_row_u64 [OF assms(1)] trigram_table.get_row_u32 [OF assms(1)]
  show "get_u64 (concat (map enc_trigram rows)) (i * TRIGRAM_LEN + 4) = Some (of_nat off)"
    using at(1) [of 4] len by (simp only: enc) (simp add: TRIGRAM_LEN_def get_u64_def slice_simps)
  show "get_u32 (concat (map enc_trigram rows)) (i * TRIGRAM_LEN + 12) = Some (of_nat len)"
    using at(2) [of 12] len by (simp only: enc) (simp add: TRIGRAM_LEN_def get_u32_def slice_simps)
  show "get_u32 (concat (map enc_trigram rows)) (i * TRIGRAM_LEN + 16) = Some (of_nat cnt)"
    using at(2) [of 16] len by (simp only: enc) (simp add: TRIGRAM_LEN_def get_u32_def slice_simps)
qed

text \<open>A table whose row numbers fit the 32-bit postings.\<close>

definition names_small :: "'a list \<Rightarrow> bool" where
  "names_small ns \<longleftrightarrow> 13 * length ns < 2 ^ 32"

lemma plist_visit:
  assumes "visit rows blob = Some evs" and "names_small rows"
  shows "plist t evs = map of_nat (rows_with t 0 (map (name_bytes blob) rows))"
    and "sorted (plist t evs)" and "distinct (plist t evs)" and "length (region (plist t evs)) < 2 ^ 32"
    and "length (plist t evs) < 2 ^ 32"
proof -
  have n: "length rows < 2 ^ 32" "min (length rows) 4294967295 = length rows"
    using assms(2) by (simp_all add: names_small_def)
  then show eq: "plist t evs = map of_nat (rows_with t 0 (map (name_bytes blob) rows))"
    using plist_visit_from [of 0 rows blob evs t] assms(1) by (simp add: visit_def)
  have small: "\<forall>j \<in> set (rows_with t 0 (map (name_bytes blob) rows)). j < 2 ^ 32"
    using n(1) rows_with_bounds by (metis add_0 length_map order.strict_trans)
  show "sorted (plist t evs)" "distinct (plist t evs)"
    unfolding eq by (rule sorted_of_nat [OF sorted_rows_with small])+
  have len: "length (plist t evs) \<le> length rows"
    using length_rows_with [of t 0 "map (name_bytes blob) rows"] by (simp add: eq)
  with n(1) show "length (plist t evs) < 2 ^ 32" by simp
  show "length (region (plist t evs)) < 2 ^ 32"
    using length_region_le [of "plist t evs"] len assms(2) by (simp add: names_small_def)
qed

lemma concat_split_nth:
  "i < length ks \<Longrightarrow> concat (map g ks) = concat (map g (take i ks)) @ g (ks ! i) @ concat (map g (drop (Suc i) ks))"
  by (metis id_take_nth_drop concat.simps(2) concat_append list.map(2) map_append)

lemma trigram_lookup_table:
  assumes fit: "tables_fit t" and build: "build_trigram_index (t_names t) (t_blob t) = Some (t_dict t, t_post t)"
    and vis: "visit (t_names t) (t_blob t) = Some evs" and small: "names_small (t_names t)"
  shows "\<exists>r. trigram_lookup (opened t) (t_dict t) tri = Some r \<and>
    (case r of None \<Rightarrow> plist tri evs = [] | Some p \<Rightarrow> plist tri evs \<noteq> [] \<and> posting_ok (t_post t) p (plist tri evs))"
proof -
  define ks where "ks = sort_dedup (map fst evs)"
  define rows where "rows = dict_rows (\<lambda>t. plist t evs) 0 ks"
  have dict: "t_dict t = concat (map enc_trigram rows)" and post: "t_post t = concat (map (\<lambda>t. region (plist t evs)) ks)"
    using build build_regions [OF vis] by (simp_all add: rows_def ks_def)
  have len: "length rows = length ks" by (simp add: rows_def)
  have n: "unat (trigram_dict_n (ix_hdr (opened t))) = length rows"
    using counts_unat(13) [OF fit] trigram_table.length_table [of rows]
    by (simp add: opened_def make_header_fields dict TRIGRAM_LEN_def)
  have keys: "map fst rows = ks" by (simp add: rows_def dict_rows_keys)
  have "sorted (map fst rows)" by (simp add: keys ks_def)
  from bsearch_loop_list [OF this, of "\<lambda>mid. map_option (\<lambda>k. cmp_of k tri) (dict_key (t_dict t) (mid * TRIGRAM_LEN))" tri]
  consider i where "i < length rows" "fst (rows ! i) = tri"
      "bsearch_loop (\<lambda>mid. map_option (\<lambda>k. cmp_of k tri) (dict_key (t_dict t) (mid * TRIGRAM_LEN))) 0 (length rows) = Some (Some i)"
    | "tri \<notin> fst ` set rows"
      "bsearch_loop (\<lambda>mid. map_option (\<lambda>k. cmp_of k tri) (dict_key (t_dict t) (mid * TRIGRAM_LEN))) 0 (length rows) = Some None"
    by (auto simp: dict dict_key_row)
  then show ?thesis
  proof cases
    case 1
    have i: "i < length ks" "ks ! i = tri" using 1(1,2) keys len by (auto simp flip: nth_map)
    let ?ps = "plist tri evs" and ?A = "concat (map (\<lambda>t. region (plist t evs)) (take i ks))"
    have A: "length ?A = regions_len (\<lambda>t. plist t evs) (take i ks)" by (simp add: length_concat comp_def)
    have row: "rows ! i = (tri, length ?A, length (region ?ps), length ?ps)"
      using dict_rows_nth [OF i(1), of "\<lambda>t. plist t evs" 0] i(2) A by (simp add: rows_def)
    have split: "t_post t = ?A @ region ?ps @ concat (map (\<lambda>t. region (plist t evs)) (drop (Suc i) ks))"
      using concat_split_nth [OF i(1), of "\<lambda>t. region (plist t evs)"] i(2) by (simp add: post)
    have "length (t_post t) < 2 ^ 64"
      using counts_unat(14) [OF fit] unsigned_less [of "of_nat (length (t_post t)) :: u64", where ?'a = nat]
      by (simp add: len_bit0)
    then have "length ?A < 2 ^ 64" by (simp add: split)
    then have u: "unat (of_nat (length ?A) :: u64) = length ?A"
        "unat (of_nat (length (region ?ps)) :: u32) = length (region ?ps)"
        "unat (of_nat (length ?ps) :: u32) = length ?ps"
      using plist_visit(4,5) [OF vis small, of tri] by (simp_all add: unat_of_nat_small)
    have "trigram_lookup (opened t) (t_dict t) tri =
        Some (Some \<lparr> p_off = length ?A, p_len = length (region ?ps), p_count = length ?ps \<rparr>)"
      using 1(3) n dict_row_fields [OF 1(1) row] u by (simp add: trigram_lookup_def dict)
    moreover have "posting_ok (t_post t) \<lparr> p_off = length ?A, p_len = length (region ?ps), p_count = length ?ps \<rparr> ?ps"
      unfolding posting_ok_def posting_at_def
      using plist_visit(2,3,4) [OF vis small, of tri] split by blast
    moreover have "tri \<in> set ks" using i nth_mem by blast
    then have "?ps \<noteq> []" by (simp add: plist_empty ks_def)
    ultimately show ?thesis by simp
  next
    case 2
    have "tri \<notin> set ks" using 2(1) by (simp flip: keys)
    then have "tri \<notin> fst ` set evs" by (simp add: ks_def)
    then show ?thesis using 2(2) n by (simp add: trigram_lookup_def plist_empty)
  qed
qed

section \<open>Trigrams are a necessary condition\<close>

lemma windows3_append: "set (windows3 xs) \<subseteq> set (windows3 (xs @ ys))" "set (windows3 ys) \<subseteq> set (windows3 (xs @ ys))"
proof -
  show "set (windows3 xs) \<subseteq> set (windows3 (xs @ ys))"
    by (induction xs rule: windows3.induct) auto
  have step: "set (windows3 ys) \<subseteq> set (windows3 (x # ys))" for x and ys :: bytes
    by (cases ys rule: windows3.cases) auto
  show "set (windows3 ys) \<subseteq> set (windows3 (xs @ ys))"
  proof (induction xs)
    case (Cons x xs)
    with step [of "xs @ ys" x] show ?case by simp
  qed simp
qed

lemma windows3_sublist:
  assumes "sublist xs ys"
  shows "set (windows3 xs) \<subseteq> set (windows3 ys)"
proof -
  obtain ps ss where "ys = ps @ xs @ ss" using assms by (auto simp: sublist_def)
  then show ?thesis using windows3_append(1) [of xs ss] windows3_append(2) [of "xs @ ss" ps] by simp
qed

lemma set_name_trigrams: "set (name_trigrams s) = set (windows3 (map to_ascii_lowercase s))"
proof (cases "length s < 3")
  case True
  then have "length (map to_ascii_lowercase s) < 3" by simp
  then have "windows3 (map to_ascii_lowercase s) = []"
    by (cases "map to_ascii_lowercase s" rule: windows3.cases) auto
  with True show ?thesis by (simp add: name_trigrams_def)
qed (simp add: name_trigrams_def)

lemma windows3_nonempty: "3 \<le> length s \<Longrightarrow> windows3 (map to_ascii_lowercase s) \<noteq> []"
  by (cases "map to_ascii_lowercase s" rule: windows3.cases) auto

lemma matches_trigrams:
  assumes "name_matches ic needle name"
  shows "set (windows3 (map to_ascii_lowercase needle)) \<subseteq> set (name_trigrams name)"
proof -
  have "sublist (map to_ascii_lowercase needle) (map to_ascii_lowercase name)"
  proof (cases ic)
    case False
    then obtain ps ss where "name = ps @ needle @ ss" using assms by (auto simp: name_matches_def sublist_def)
    then show ?thesis by (simp add: sublist_def) blast
  qed (use assms in \<open>simp add: name_matches_def\<close>)
  then show ?thesis using windows3_sublist by (simp add: set_name_trigrams)
qed

section \<open>The trigram path\<close>

lemma rows_with_filter: "rows_with t 0 ns = filter (\<lambda>j. t \<in> set (name_trigrams (ns ! j))) [0..<length ns]"
proof (rule sorted_distinct_set_unique [OF sorted_rows_with])
  show "set (rows_with t 0 ns) = set (filter (\<lambda>j. t \<in> set (name_trigrams (ns ! j))) [0..<length ns])"
    by (auto simp: in_rows_with)
qed (simp_all add: sorted_wrt_filter)

lemma map_filter_nth: "map g (filter P xs) = map (\<lambda>i. g (xs ! i)) (filter (\<lambda>i. P (xs ! i)) [0..<length xs])"
proof -
  have "map g (filter P (map ((!) xs) [0..<length xs])) = map (\<lambda>i. g (xs ! i)) (filter (\<lambda>i. P (xs ! i)) [0..<length xs])"
    by (simp only: filter_map map_map comp_def)
  then show ?thesis by (simp add: map_nth)
qed

lemma resolve_all_eq:
  assumes "\<And>tri. \<exists>r. trigram_lookup ix dict tri = Some r \<and>
    (case r of None \<Rightarrow> PS tri = [] | Some p \<Rightarrow> PS tri \<noteq> [] \<and> posting_ok post p (PS tri))"
  shows "\<exists>r. resolve_all ix dict ts = Some r \<and>
    (case r of None \<Rightarrow> \<exists>tri \<in> set ts. PS tri = [] | Some posts \<Rightarrow> list_all2 (posting_ok post) posts (map PS ts))"
proof (induction ts)
  case (Cons t ts)
  obtain r where r: "resolve_all ix dict ts = Some r"
      "case r of None \<Rightarrow> \<exists>tri \<in> set ts. PS tri = [] | Some posts \<Rightarrow> list_all2 (posting_ok post) posts (map PS ts)"
    using Cons by blast
  obtain q where q: "trigram_lookup ix dict t = Some q"
      "case q of None \<Rightarrow> PS t = [] | Some p \<Rightarrow> PS t \<noteq> [] \<and> posting_ok post p (PS t)"
    using assms by blast
  show ?case using r q by (cases q; cases r) auto
qed simp

lemma driver_index_less: "ps \<noteq> [] \<Longrightarrow> driver_index ps < length ps"
  by (induction ps rule: driver_index.induct) (auto simp: Let_def)

lemma read_name_row_table:
  assumes "\<forall>r \<in> set (t_names t). blob_at (t_blob t) (fst r, fst (snd r)) = Some (name_bytes (t_blob t) r)"
    and "i < length (t_names t)"
  shows "get_u64 (concat (map enc_name (t_names t))) (i * NAME_LEN) = Some (fst (t_names t ! i))"
    and "get_u16 (concat (map enc_name (t_names t))) (i * NAME_LEN + 8) = Some (fst (snd (t_names t ! i)))"
    and "get_u64 (concat (map enc_name (t_names t))) (i * NAME_LEN + 10) = Some (name_sym (t_names t ! i))"
    and "slice_of (t_blob t) (unat (fst (t_names t ! i)))
      (unat (fst (t_names t ! i)) + unat (fst (snd (t_names t ! i)))) = Some (name_bytes (t_blob t) (t_names t ! i))"
proof -
  obtain off len s where r: "t_names t ! i = (off, len, s)" by (rule prod_cases3)
  show "get_u64 (concat (map enc_name (t_names t))) (i * NAME_LEN) = Some (fst (t_names t ! i))"
    "get_u16 (concat (map enc_name (t_names t))) (i * NAME_LEN + 8) = Some (fst (snd (t_names t ! i)))"
    "get_u64 (concat (map enc_name (t_names t))) (i * NAME_LEN + 10) = Some (name_sym (t_names t ! i))"
    using assms(2) r by (simp_all add: get_simps)
  show "slice_of (t_blob t) (unat (fst (t_names t ! i)))
      (unat (fst (t_names t ! i)) + unat (fst (snd (t_names t ! i)))) = Some (name_bytes (t_blob t) (t_names t ! i))"
    using assms by simp
qed

text \<open>What a search may return at most: the symbols of the matching rows, in row order.\<close>

definition matching_syms :: "bool \<Rightarrow> bytes \<Rightarrow> (bytes \<times> u64) list \<Rightarrow> u64 list" where
  "matching_syms ignore_case needle entries =
     map snd (filter (\<lambda>(n, s). name_matches ignore_case needle n) entries)"

lemma substring_trigram_content:
  assumes c: "content_fits c t" and mm: "memmem_ok memmem" and small: "names_small (name_entries c)"
    and needle: "3 \<le> length needle" and limit: "0 < limit"
  shows "syms_matching_substring_trigram memmem cores (opened t) needle limit ic =
    Some (take limit (distinct_from {} (matching_syms ic needle (name_entries c))))"
proof -
  note ok = content_fitsD [OF c]
  note nm = layout_names [OF ok(2,3,1)]
  note sl = opened_slices [OF ok(3)]
  let ?rows = "t_names t" and ?B = "t_blob t"
  let ?ns = "map (name_bytes ?B) ?rows"
  let ?n = "length ?rows"
  have entries: "name_entries c = map (name_entry ?B) ?rows" using nm(1) by simp
  have small': "names_small ?rows" using small by (simp add: entries names_small_def)
  have build: "build_trigram_index ?rows ?B = Some (t_dict t, t_post t)"
    using ok(2) by (auto simp: layout_tables_def Let_def bind_eq_Some_conv split: prod.splits)
  then obtain evs where vis: "visit ?rows ?B = Some evs" by (auto simp: build_trigram_index_def bind_eq_Some_conv)
  define PS where "PS = (\<lambda>tri. plist tri evs)"
  have PS: "PS tri = map of_nat (rows_with tri 0 ?ns)" "sorted (PS tri)" "distinct (PS tri)" for tri
    using plist_visit [OF vis small', of tri] by (simp_all add: PS_def)
  have n32: "?n < 2 ^ 32" using small' by (simp add: names_small_def)
  have mem: "(of_nat i :: u32) \<in> set (PS tri) \<longleftrightarrow> tri \<in> set (name_trigrams (?ns ! i))" if "i < ?n" for i tri
  proof -
    have "(of_nat i :: u32) \<in> set (PS tri) \<longleftrightarrow> i \<in> set (rows_with tri 0 ?ns)"
    proof
      assume "(of_nat i :: u32) \<in> set (PS tri)"
      then obtain x where x: "x \<in> set (rows_with tri 0 ?ns)" "(of_nat i :: u32) = of_nat x" by (auto simp: PS(1))
      then have "x < 2 ^ 32" using rows_with_bounds [OF x(1)] n32 by simp
      then show "i \<in> set (rows_with tri 0 ?ns)" using x that n32 by (simp add: of_nat_eq_small)
    qed (simp add: PS(1))
    then show ?thesis using that by (simp add: in_rows_with)
  qed
  let ?ts = "sort_dedup (windows3 (map to_ascii_lowercase needle))"
  have ts: "?ts \<noteq> []" using windows3_nonempty [OF needle] by (metis set_empty set_sort_dedup)
  have nec: "tri \<in> set (name_trigrams (?ns ! i))" if "name_matches ic needle (?ns ! i)" "tri \<in> set ?ts" for i tri
    using matches_trigrams [OF that(1)] that(2) by auto
  define f where "f = (\<lambda>cand :: u32. name_entry ?B (?rows ! unat cand))"
  have row: "read_name_row (concat (map enc_name ?rows)) ?B cand = Some (f cand)" if "unat cand < ?n" for cand
    using read_name_row_table [OF _ that] nm(4) by (simp add: read_name_row_def f_def)
  have spec: "matching_syms ic needle (name_entries c) =
      map (\<lambda>i. name_sym (?rows ! i)) (filter (\<lambda>i. name_matches ic needle (?ns ! i)) [0..<?n])"
  proof -
    have "matching_syms ic needle (name_entries c) =
        map name_sym (filter (\<lambda>r. name_matches ic needle (name_bytes ?B r)) ?rows)"
      by (simp add: matching_syms_def entries filter_map comp_def)
    also have "\<dots> = map (\<lambda>i. name_sym (?rows ! i)) (filter (\<lambda>i. name_matches ic needle (name_bytes ?B (?rows ! i))) [0..<?n])"
      by (rule map_filter_nth)
    also have "filter (\<lambda>i. name_matches ic needle (name_bytes ?B (?rows ! i))) [0..<?n] =
        filter (\<lambda>i. name_matches ic needle (?ns ! i)) [0..<?n]"
      by (rule filter_cong) simp_all
    finally show ?thesis .
  qed
  obtain r where r: "resolve_all (opened t) (t_dict t) ?ts = Some r"
      "case r of None \<Rightarrow> \<exists>tri \<in> set ?ts. PS tri = [] | Some posts \<Rightarrow> list_all2 (posting_ok (t_post t)) posts (map PS ?ts)"
    using resolve_all_eq [of "opened t" "t_dict t" PS "t_post t" ?ts] trigram_lookup_table [OF ok(3) build vis small']
    unfolding PS_def by blast
  show ?thesis
  proof (cases r)
    case None
    then obtain tri where tri: "tri \<in> set ?ts" "PS tri = []" using r(2) by auto
    then have "\<not> name_matches ic needle (?ns ! i)" if "i < ?n" for i
      using nec [of i tri] mem [OF that, of tri] by auto
    then have "filter (\<lambda>i. name_matches ic needle (?ns ! i)) [0..<?n] = []" by (simp add: filter_empty_conv)
    then show ?thesis
      using r(1) None by (simp add: syms_matching_substring_trigram_def sl Let_def spec)
  next
    case (Some posts)
    have la: "list_all2 (posting_ok (t_post t)) posts (map PS ?ts)" using r(2) Some by simp
    have len: "length posts = length ?ts" using list_all2_lengthD [OF la] by simp
    then have ne: "posts \<noteq> []" using ts by auto
    define d where "d = driver_index posts"
    have d: "d < length posts" using driver_index_less [OF ne] by (simp add: d_def)
    let ?others = "take d posts @ drop (Suc d) posts" and ?pss = "take d (map PS ?ts) @ drop (Suc d) (map PS ?ts)"
    have others: "list_all2 (posting_ok (t_post t)) ?others ?pss"
      using la by (intro list_all2_appendI list_all2_takeI list_all2_dropI)
    have "posting_ok (t_post t) (posts ! d) (PS (?ts ! d))"
      using list_all2_nthD [OF la d] d len by simp
    then have driver: "trigram_postings (t_post t) (posts ! d) = Some (PS (?ts ! d))"
      by (simp add: posting_ok_def trigram_postings_eq)
    have ids: "\<forall>cand \<in> set (PS (?ts ! d)). unat cand < ?n"
      using n32 by (auto simp: PS(1) unat_of_nat_small dest!: rows_with_bounds)
    have sub: "set ?pss \<subseteq> PS ` set ?ts" by (auto dest: in_set_takeD in_set_dropD)
    have "list_all2 (\<lambda>ps c. cursor_ok ps c cand) ?pss (replicate (length ?others) 0)" for cand
      using list_all2_lengthD [OF others] by (auto simp: list_all2_conv_all_nth cursor_ok_def)
    then have "intersect_loop (read_name_row (concat (map enc_name ?rows)) ?B) (name_matches ic needle)
        (t_post t) ?others limit (PS (?ts ! d)) (replicate (length ?others) 0) {} [] =
      Some ([] @ take (limit - length ([] :: u64 list)) (distinct_from {} (map (\<lambda>cand. snd (f cand)) (filter (\<lambda>cand.
        (\<forall>ps \<in> set ?pss. cand \<in> set ps) \<and> name_matches ic needle (fst (f cand))) (PS (?ts ! d))))))"
      using row ids limit by (intro intersect_loop_eq [OF others PS(2,3)]) auto
    also have "map (\<lambda>cand. snd (f cand)) (filter (\<lambda>cand.
        (\<forall>ps \<in> set ?pss. cand \<in> set ps) \<and> name_matches ic needle (fst (f cand))) (PS (?ts ! d))) =
      matching_syms ic needle (name_entries c)"
    proof -
      have u: "unat (of_nat i :: u32) = i" if "i < ?n" for i using that n32 by (simp add: unat_of_nat_small)
      have td: "?ts ! d \<in> set ?ts" using d len by (metis nth_mem)
      have all: "\<forall>ps \<in> set ?pss. of_nat i \<in> set ps" if "i < ?n" "name_matches ic needle (?ns ! i)" for i
      proof
        fix ps assume "ps \<in> set ?pss"
        then obtain tri where "tri \<in> set ?ts" "ps = PS tri" using sub by blast
        with nec [OF that(2)] mem [OF that(1)] show "of_nat i \<in> set ps" by blast
      qed
      have iff: "(?ts ! d \<in> set (name_trigrams (?ns ! i)) \<and> (\<forall>ps \<in> set ?pss. of_nat i \<in> set ps) \<and>
          name_matches ic needle (fst (f (of_nat i)))) = name_matches ic needle (?ns ! i)" if "i < ?n" for i
      proof -
        have "fst (f (of_nat i)) = ?ns ! i" using that u [OF that] by (simp add: f_def)
        then show ?thesis using nec [OF _ td, of i] all [OF that] by metis
      qed
      have shift: "map (\<lambda>cand. snd (f cand)) (filter Q (PS (?ts ! d))) =
          map (\<lambda>i. snd (f (of_nat i))) (filter (\<lambda>i. ?ts ! d \<in> set (name_trigrams (?ns ! i)) \<and> Q (of_nat i)) [0..<?n])" for Q
        by (simp only: PS(1) rows_with_filter filter_map map_map comp_def filter_filter length_map)
      show ?thesis
        unfolding spec shift by (rule map_cong [OF filter_cong [OF refl iff]]) (simp_all add: f_def u)
    qed
    finally show ?thesis
      using r(1) Some ne driver
      by (simp add: syms_matching_substring_trigram_def sl Let_def verify_matches [OF mm] flip: d_def)
  qed
qed

section \<open>The linear path\<close>

lemma scan_chunk_eq:
  assumes rows: "\<forall>r \<in> set (t_names t). blob_at (t_blob t) (fst r, fst (snd r)) = Some (name_bytes (t_blob t) r)"
    and "i + k \<le> length (t_names t)" and "length loc < limit"
  shows "scan_chunk hit (concat (map enc_name (t_names t))) (t_blob t) limit i k loc =
    Some (loc @ take (limit - length loc)
      (map name_sym (filter (\<lambda>r. hit (name_bytes (t_blob t) r)) (take k (drop i (t_names t))))))"
  using assms(2-)
proof (induction k arbitrary: i loc)
  case (Suc k)
  have i: "i < length (t_names t)" using Suc.prems(1) by simp
  then have split: "take (Suc k) (drop i (t_names t)) = t_names t ! i # take k (drop (Suc i) (t_names t))"
    by (simp add: Cons_nth_drop_Suc [symmetric])
  note read = read_name_row_table [OF rows i]
  have IH: "scan_chunk hit (concat (map enc_name (t_names t))) (t_blob t) limit (Suc i) k loc' =
    Some (loc' @ take (limit - length loc')
      (map name_sym (filter (\<lambda>r. hit (name_bytes (t_blob t) r)) (take k (drop (Suc i) (t_names t))))))"
    if "length loc' < limit" for loc'
    using Suc.prems(1) that by (intro Suc.IH) simp_all
  show ?case
    using Suc.prems(2) IH read
    by (cases "limit \<le> length loc + 1") (simp_all add: split take_Cons' del: take_Suc)
qed simp

lemma concat_chunks:
  "concat (map (\<lambda>t. take (min ((t + 1) * c) (length xs) - t * c) (drop (t * c) xs)) [0..<m]) = take (m * c) xs"
proof (induction m)
  case (Suc m)
  have "take (min ((m + 1) * c) (length xs) - m * c) (drop (m * c) xs) = take c (drop (m * c) xs)"
    by (cases "(m + 1) * c \<le> length xs") (simp_all add: min_def)
  with Suc show ?case by (simp add: take_add add.commute [of c])
qed simp

lemma concat_map_filter_empty: "(\<And>x. x \<in> set xs \<Longrightarrow> \<not> P x \<Longrightarrow> g x = []) \<Longrightarrow> concat (map g (filter P xs)) = concat (map g xs)"
  by (induction xs) auto

lemma take_concat_take: "take n (concat (map (take n) xss)) = take n (concat xss)"
proof (induction xss)
  case (Cons xs xss)
  have "take (n - length xs) (concat (map (take n) xss)) = take (n - length xs) (take n (concat (map (take n) xss)))"
    by simp
  also have "\<dots> = take (n - length xs) (concat xss)" by (simp add: Cons)
  finally show ?case by (simp add: min_def)
qed simp

lemma div_ceil_cover:
  fixes n t :: nat
  assumes "0 < t"
  shows "n \<le> t * ((n + t - 1) div t)"
proof -
  have "0 < t" by (rule assms)
  then have "(n + t - 1) mod t < t" by (rule mod_less_divisor)
  then show ?thesis using mult_div_mod_eq [of t "n + t - 1"] by linarith
qed

text \<open>The parts of the workers: each holds the first \<open>limit\<close> matches of its rows, repetitions
  included, and the rows of the workers are consecutive.\<close>

lemma linear_parts:
  assumes c: "content_fits c t" and mm: "memmem_ok memmem" and needle: "needle \<noteq> []" and limit: "0 < limit"
  shows "\<exists>parts. concat parts = matching_syms ic needle (name_entries c) \<and>
    syms_matching_substring_linear memmem cores (opened t) needle limit ic =
      Some (take limit (distinct_from {} (concat (map (take limit) parts))))"
proof -
  note ok = content_fitsD [OF c]
  note nm = layout_names [OF ok(2,3,1)]
  note sl = opened_slices [OF ok(3)]
  let ?rows = "t_names t" and ?B = "t_blob t"
  let ?n = "length ?rows"
  let ?hits = "\<lambda>rs. map name_sym (filter (\<lambda>r. name_matches ic needle (name_bytes ?B r)) rs)"
  have n: "unat (names_n (ix_hdr (opened t))) = ?n"
    using counts_unat(3) [OF ok(3)] by (simp add: opened_def make_header_fields)
  have spec: "matching_syms ic needle (name_entries c) = ?hits ?rows"
    by (simp add: matching_syms_def flip: nm(1)) (simp add: filter_map comp_def)
  show ?thesis
  proof (cases "?n = 0")
    case True
    then show ?thesis
      using n by (intro exI [of _ "[]"]) (simp add: syms_matching_substring_linear_def spec)
  next
    case False
    define threads where "threads = max 1 (min cores ?n)"
    define chunk where "chunk = (?n + threads - 1) div threads"
    let ?range = "\<lambda>t. (t * chunk, min ((t + 1) * chunk) ?n)"
    define ranges where "ranges = filter (\<lambda>(lo, hi). lo < hi) (map ?range [0..<threads])"
    define part where "part = (\<lambda>(lo, hi). ?hits (take (hi - lo) (drop lo ?rows)))"
    have ranges: "worker_ranges cores ?n = ranges"
      by (simp add: worker_ranges_def ranges_def Let_def chunk_def threads_def)
    have bounds: "lo < hi \<and> hi \<le> ?n" if "(lo, hi) \<in> set ranges" for lo hi
      using that by (auto simp: ranges_def)
    have "threads * chunk \<ge> ?n" unfolding chunk_def by (rule div_ceil_cover) (simp add: threads_def)
    then have rows: "concat (map (\<lambda>t. take (min ((t + 1) * chunk) ?n - t * chunk) (drop (t * chunk) ?rows)) [0..<threads]) = ?rows"
      by (simp only: concat_chunks) simp
    have "?hits (concat (map g ts)) = concat (map (\<lambda>t. ?hits (g t)) ts)" for g :: "nat \<Rightarrow> name_row list" and ts
      by (induction ts) simp_all
    from this [of "\<lambda>t. take (min ((t + 1) * chunk) ?n - t * chunk) (drop (t * chunk) ?rows)" "[0..<threads]"]
    have "?hits ?rows = concat (map part (map ?range [0..<threads]))"
      by (simp only: rows part_def map_map comp_def prod.case)
    also have "\<dots> = concat (map part ranges)"
      unfolding ranges_def by (rule concat_map_filter_empty [symmetric]) (auto simp: part_def)
    finally have hits: "concat (map part ranges) = ?hits ?rows" by simp
    have "those (map (\<lambda>(lo, hi). scan_chunk (name_matches ic needle) (concat (map enc_name ?rows)) ?B limit lo (hi - lo) []) ranges) =
        Some (map (\<lambda>r. take limit (part r)) ranges)"
    proof (rule those_map_Some)
      fix r assume "r \<in> set ranges"
      moreover obtain lo hi where r: "r = (lo, hi)" by (cases r)
      ultimately have "lo < hi" "hi \<le> ?n" using bounds by blast+
      with r show "(case r of (lo, hi) \<Rightarrow>
          scan_chunk (name_matches ic needle) (concat (map enc_name ?rows)) ?B limit lo (hi - lo) []) = Some (take limit (part r))"
        using scan_chunk_eq [of t lo "hi - lo" "[]" limit "name_matches ic needle"] nm(4) limit by (simp add: part_def)
    qed
    then have "those (map (\<lambda>(lo, hi). scan_chunk (name_matches ic needle) (concat (map enc_name ?rows)) ?B limit lo (hi - lo) []) ranges) =
        Some (map (take limit) (map part ranges))"
      by (simp add: comp_def)
    then have "syms_matching_substring_linear memmem cores (opened t) needle limit ic =
        Some (collect_syms limit {} [] (concat (map (take limit) (map part ranges))))"
      using n needle limit False sl
      by (simp add: syms_matching_substring_linear_def Let_def verify_matches [OF mm] ranges)
    then show ?thesis
      using hits limit spec by (intro exI [of _ "map part ranges"]) (simp add: collect_syms_eq)
  qed
qed

text \<open>Whatever the number of workers, the result is sound and free of repetitions; it is the
  serial answer when no symbol matches twice or all matches fit the limit.\<close>

lemma distinct_concat_take: "distinct (concat xss) \<Longrightarrow> distinct (concat (map (take n) xss))"
proof (induction xss)
  case (Cons xs xss)
  have "set (concat (map (take n) xss)) \<subseteq> set (concat xss)" by (auto dest: in_set_takeD)
  with Cons show ?case by (auto dest!: in_set_takeD)
qed simp

lemma substring_linear_content:
  assumes "content_fits c t" and "memmem_ok memmem" and "needle \<noteq> []" and "0 < limit"
  shows "\<exists>out. syms_matching_substring_linear memmem cores (opened t) needle limit ic = Some out \<and>
      distinct out \<and> length out \<le> limit \<and> set out \<subseteq> set (matching_syms ic needle (name_entries c)) \<and>
      (matching_syms ic needle (name_entries c) \<noteq> [] \<longrightarrow> out \<noteq> []) \<and>
      (distinct (matching_syms ic needle (name_entries c)) \<or> length (matching_syms ic needle (name_entries c)) \<le> limit \<longrightarrow>
        out = take limit (distinct_from {} (matching_syms ic needle (name_entries c))))"
proof -
  let ?m = "matching_syms ic needle (name_entries c)"
  obtain parts where parts: "concat parts = ?m"
      "syms_matching_substring_linear memmem cores (opened t) needle limit ic =
        Some (take limit (distinct_from {} (concat (map (take limit) parts))))"
    using linear_parts [OF assms, of ic cores] by blast
  let ?l = "concat (map (take limit) parts)"
  have sub: "set ?l \<subseteq> set ?m" unfolding parts(1) [symmetric] by (auto dest: in_set_takeD)
  have few: "?l = ?m" if "length ?m \<le> limit"
  proof -
    have "length p \<le> limit" if "p \<in> set parts" for p
      using \<open>length ?m \<le> limit\<close> that split_list [OF that] by (auto simp flip: parts(1))
    then show ?thesis unfolding parts(1) [symmetric] by (metis map_idI take_all_iff)
  qed
  have one: "take limit (distinct_from {} ?l) = take limit (distinct_from {} ?m)" if "distinct ?m"
    using that distinct_concat_take [of parts limit] take_concat_take [of limit parts]
    by (simp add: parts(1) distinct_from_id)
  have "?l \<noteq> []" if "?m \<noteq> []"
    using that take_concat_take [of limit parts] assms(4) unfolding parts(1) by (metis not_gr_zero take_Nil take_eq_Nil)
  then have "distinct_from {} ?l \<noteq> []" if "?m \<noteq> []" using that set_distinct_from [of "{}" ?l] by (metis Diff_empty set_empty)
  moreover have "set (take limit (distinct_from {} ?l)) \<subseteq> set ?m"
    using set_take_subset [of limit "distinct_from {} ?l"] sub unfolding set_distinct_from by blast
  ultimately show ?thesis
    using parts(2) few one assms(4) distinct_distinct_from [of "{}" ?l] by auto
qed

section \<open>The whole search\<close>

lemma substring_content:
  assumes c: "content_fits c t" and mm: "memmem_ok memmem" and small: "names_small (name_entries c)"
    and needle: "needle \<noteq> []" and limit: "0 < limit"
    and exact: "3 \<le> length needle \<or> distinct (matching_syms ic needle (name_entries c)) \<or>
      length (matching_syms ic needle (name_entries c)) \<le> limit"
  shows "syms_matching_substring_impl memmem cores (opened t) needle limit ic =
    Some (take limit (distinct_from {} (matching_syms ic needle (name_entries c))))"
proof (cases "0 < unat (names_n (ix_hdr (opened t))) \<and> 3 \<le> length needle \<and> 0 < trigram_dict_n (ix_hdr (opened t))")
  case True
  then show ?thesis
    using needle limit substring_trigram_content [OF c mm small _ limit, of needle cores ic]
    by (simp add: syms_matching_substring_impl_def)
next
  case False
  let ?m = "matching_syms ic needle (name_entries c)"
  have "?m = []" if len: "3 \<le> length needle"
  proof (cases "trigram_dict_n (ix_hdr (opened t)) = 0")
    case True
    obtain tri tris where tris: "sort_dedup (windows3 (map to_ascii_lowercase needle)) = tri # tris"
      using windows3_nonempty [OF len] by (metis neq_Nil_conv set_empty set_sort_dedup)
    have "syms_matching_substring_trigram memmem cores (opened t) needle limit ic = Some []"
      by (simp add: syms_matching_substring_trigram_def opened_slices [OF content_fitsD(3) [OF c]] tris
          trigram_lookup_def True bsearch_loop.simps)
    then have "distinct_from {} ?m = []"
      using substring_trigram_content [OF c mm small len limit, of cores ic] limit by simp
    then show ?thesis using set_distinct_from [of "{}" ?m] by simp
  next
    case False
    with \<open>\<not> (0 < unat (names_n (ix_hdr (opened t))) \<and> 3 \<le> length needle \<and> 0 < trigram_dict_n (ix_hdr (opened t)))\<close> len
    have "unat (names_n (ix_hdr (opened t))) = 0" by (simp add: word_greater_zero_iff)
    moreover note ok = content_fitsD [OF c]
    ultimately have "t_names t = []"
      using counts_unat(3) [OF ok(3)] by (simp add: opened_def make_header_fields)
    then show ?thesis by (simp add: matching_syms_def flip: layout_names(1) [OF ok(2,3,1)])
  qed
  then have "distinct ?m \<or> length ?m \<le> limit" using exact by auto
  moreover have "syms_matching_substring_impl memmem cores (opened t) needle limit ic =
      syms_matching_substring_linear memmem cores (opened t) needle limit ic"
    using False needle limit by (auto simp: syms_matching_substring_impl_def syms_matching_substring_linear_def)
  moreover obtain out where "syms_matching_substring_linear memmem cores (opened t) needle limit ic = Some out"
      "distinct ?m \<or> length ?m \<le> limit \<longrightarrow> out = take limit (distinct_from {} ?m)"
    using substring_linear_content [OF c mm needle limit] by blast
  ultimately show ?thesis by simp
qed

end
