(* ===== verification/S2_Reply.thy ===== *)
theory S2_Reply
  imports S2_Names
begin

text \<open>
  Reply shapes (\<open>src/crates/scry2/src/reply.rs\<close>): one record per row type, the reply envelope, the
  names of roles, kinds and languages, and the text rendering of a reply as the lines it puts on
  stdout and on stderr. The JSON form is the \<^verbatim>\<open>serde_json\<close> crate's, a parameter here.
\<close>

section \<open>Text\<close>

text \<open>An ASCII literal of the source, and the formatting macros it is used with: \<^verbatim>\<open>{}\<close> on an
  integer, \<^verbatim>\<open>{:016x}\<close> and the left-aligned \<^verbatim>\<open>{:<n}\<close>, which counts characters.\<close>

definition lit :: "string \<Rightarrow> bytes" where
  "lit s = map of_char s"

fun dec_digits :: "nat \<Rightarrow> bytes" where
  "dec_digits n =
     (if n < 10 then [of_nat (48 + n)] else dec_digits (n div 10) @ [of_nat (48 + n mod 10)])"

declare dec_digits.simps [simp del]

definition hex_digit :: "nat \<Rightarrow> u8" where
  "hex_digit d = (if d < 10 then of_nat (48 + d) else of_nat (87 + d))"

fun hex_pad :: "nat \<Rightarrow> nat \<Rightarrow> bytes" where
  "hex_pad 0 n = []"
| "hex_pad (Suc k) n = hex_pad k (n div 16) @ [hex_digit (n mod 16)]"

definition pad_right :: "nat \<Rightarrow> bytes \<Rightarrow> bytes" where
  "pad_right n s = s @ replicate (n - length (utf8_chars s)) 0x20"

section \<open>Rows\<close>

record xref_hit =
  xh_role :: bytes
  xh_file :: bytes
  xh_off :: u32

record symbol_group =
  sg_name :: bytes
  sg_kind :: bytes
  sg_lang :: bytes
  sg_typed :: "bytes option"
  sg_sig :: "bytes option"
  sg_rows :: "xref_hit list"

record type_hit =
  th_name :: bytes
  th_kind :: bytes
  th_lang :: bytes
  th_typed :: bytes

record sig_hit =
  sh_name :: bytes
  sh_kind :: bytes
  sh_lang :: bytes
  sh_sig :: bytes

record member_hit =
  mh_name :: bytes
  mh_kind :: bytes
  mh_lang :: bytes
  mh_sig :: "bytes option"

record call_node =
  cn_id :: u32
  cn_parent :: "u32 option"
  cn_hop :: nat
  cn_dir :: bytes
  cn_name :: bytes
  cn_kind :: bytes
  cn_def :: "bytes option"

record inh_hit =
  ih_name :: bytes
  ih_def :: "bytes option"

record name_hit =
  nh_name :: bytes
  nh_sym :: bytes

datatype reply =
    Reply_Stat u64 u64 u64 u64 u64
  | Reply_Xrefs "symbol_group list" nat bool
  | Reply_Names "name_hit list" nat
  | Reply_Inh "inh_hit list" nat
  | Reply_Callgraph "call_node list" nat bool
  | Reply_Inheritance "call_node list" nat bool
  | Reply_Type "type_hit list" nat bool
  | Reply_Sig "sig_hit list" nat bool
  | Reply_Members bytes "member_hit list" nat bool
  | Reply_Error bytes

section \<open>Names of roles, kinds and languages\<close>

definition role_str :: "u8 \<Rightarrow> bytes" where
  "role_str r =
     (if r = role_DECL then lit ''decl'' else if r = role_DEF then lit ''def''
      else if r = role_REF then lit ''ref'' else if r = role_CALL then lit ''call''
      else lit ''?'')"

definition kind_str :: "u8 \<Rightarrow> bytes" where
  "kind_str k =
     (if k = kind_FUNCTION then lit ''fn'' else if k = kind_TYPE then lit ''type''
      else if k = kind_VARIABLE then lit ''var'' else if k = kind_FIELD then lit ''field''
      else if k = kind_PACKAGE then lit ''pkg'' else lit ''?'')"

definition lang_str :: "u8 \<Rightarrow> bytes" where
  "lang_str l =
     (if l = lang_CXX then lit ''cxx'' else if l = lang_JAVA then lit ''java''
      else if l = lang_JVM then lit ''jvm'' else if l = lang_GO then lit ''go''
      else if l = lang_PROTO then lit ''proto'' else if l = lang_RUST then lit ''rust''
      else if l = lang_KOTLIN then lit ''kt'' else lit ''?'')"

section \<open>Printing\<close>

definition cap_note :: "nat \<Rightarrow> bytes" where
  "cap_note shown =
     lit ''(showing '' @ dec_digits shown @ lit ''; --limit cap reached, more exist '' @
     [0xE2, 0x80, 0x94] @ lit '' raise --limit)''"

text \<open>\<^verbatim>\<open># {name}  [{kind}/{lang}]\<close> and the footer lines.\<close>

definition title_line :: "bytes \<Rightarrow> bytes \<Rightarrow> bytes \<Rightarrow> bytes" where
  "title_line name kind lang = lit ''# '' @ name @ lit ''  ['' @ kind @ lit ''/'' @ lang @ lit '']''"

definition capped :: "bool \<Rightarrow> nat \<Rightarrow> bytes list" where
  "capped truncated tot = (if truncated then [cap_note tot] else [])"

definition hits_line :: "nat \<Rightarrow> bytes" where
  "hits_line tot = lit ''hits='' @ dec_digits tot"

definition group_lines :: "symbol_group \<Rightarrow> bytes list" where
  "group_lines g =
     [title_line (sg_name g) (sg_kind g) (sg_lang g) @
        (case sg_typed g of Some t \<Rightarrow> lit ''  : '' @ t | None \<Rightarrow> [])] @
     (case sg_sig g of Some s \<Rightarrow> [lit ''  sig: '' @ s] | None \<Rightarrow> []) @
     map (\<lambda>r. lit ''  '' @ xh_role r @ lit '' '' @ xh_file r @ lit ''@'' @ dec_digits (unat (xh_off r)))
       (sg_rows g)"

definition node_line :: "call_node \<Rightarrow> bytes" where
  "node_line n =
     lit ''  id='' @ pad_right 3 (dec_digits (unat (cn_id n))) @ lit '' parent='' @
     pad_right 3 (case cn_parent n of Some p \<Rightarrow> dec_digits (unat p) | None \<Rightarrow> lit ''-'') @
     lit '' hop='' @ dec_digits (cn_hop n) @ lit '' '' @ pad_right 4 (cn_dir n) @ lit '' '' @
     pad_right 9 (cn_kind n) @ lit '' '' @ cn_name n @
     (case cn_def n of Some loc \<Rightarrow> lit ''  '' @ loc | None \<Rightarrow> [])"

text \<open>\<open>emit\<close> as the pair of the lines printed to stdout and to stderr.\<close>

fun emit_text :: "reply \<Rightarrow> bytes list \<times> bytes list" where
  "emit_text (Reply_Stat xs ss fs inhs calls) =
     ([lit ''xrefs:  '' @ dec_digits (unat xs), lit ''syms:   '' @ dec_digits (unat ss),
       lit ''files:  '' @ dec_digits (unat fs), lit ''inhs:   '' @ dec_digits (unat inhs),
       lit ''calls:  '' @ dec_digits (unat calls)], [])"
| "emit_text (Reply_Xrefs groups tot truncated) =
     (concat (map group_lines groups), capped truncated tot @ [hits_line tot])"
| "emit_text (Reply_Type hits tot truncated) =
     (concat (map (\<lambda>h. [title_line (th_name h) (th_kind h) (th_lang h), lit ''  '' @ th_typed h]) hits),
      capped truncated tot @ [hits_line tot])"
| "emit_text (Reply_Sig hits tot truncated) =
     (concat (map (\<lambda>h. [title_line (sh_name h) (sh_kind h) (sh_lang h), lit ''  '' @ sh_sig h]) hits),
      capped truncated tot @ [hits_line tot])"
| "emit_text (Reply_Members container ms tot truncated) =
     ((lit ''# '' @ container) #
        map (\<lambda>m. lit ''  '' @ mh_name m @ lit '' ['' @ mh_kind m @ lit ''/'' @ mh_lang m @ lit '']'' @
               (case mh_sig m of Some s \<Rightarrow> lit ''  '' @ s | None \<Rightarrow> [])) ms,
      capped truncated tot @ [lit ''members='' @ dec_digits tot])"
| "emit_text (Reply_Inheritance nodes tot truncated) =
     (map node_line nodes,
      (if truncated
       then [lit ''(showing '' @ dec_digits (length nodes) @ lit ''; --max-syms cap reached, more exist '' @
             [0xE2, 0x80, 0x94] @ lit '' raise --max-syms)'']
       else []) @ [hits_line tot])"
| "emit_text (Reply_Inh hits tot) =
     (map (\<lambda>h. ih_name h @ (case ih_def h of Some loc \<Rightarrow> lit ''  '' @ loc | None \<Rightarrow> [])) hits,
      [hits_line tot])"
| "emit_text (Reply_Names hits tot) =
     (map (\<lambda>h. nh_sym h @ lit ''  '' @ nh_name h) hits, [hits_line tot])"
| "emit_text (Reply_Callgraph nodes tot truncated) =
     (map node_line nodes,
      (if truncated then [lit ''(callgraph truncated)''] else []) @ [hits_line tot])"
| "emit_text (Reply_Error e) = ([], [lit ''error: '' @ e])"

definition emit :: "(reply \<Rightarrow> bytes) \<Rightarrow> reply \<Rightarrow> bool \<Rightarrow> bytes list \<times> bytes list" where
  "emit to_json r as_json = (if as_json then ([to_json r], []) else emit_text r)"

section \<open>Lemmas\<close>

lemma dec_digits_nonempty [simp]: "dec_digits n \<noteq> []"
  by (subst dec_digits.simps) simp

text \<open>Printing a number loses nothing.\<close>

lemma of_nat_digit: "d < 10 \<Longrightarrow> unat (of_nat (48 + d) :: u8) = 48 + d"
  by (subst unat_of_nat_small) simp_all

fun dec_value :: "bytes \<Rightarrow> nat" where
  "dec_value bs = foldl (\<lambda>v b. 10 * v + (unat b - 48)) 0 bs"

lemma dec_value_digits: "dec_value (dec_digits n) = n"
proof (induction n rule: dec_digits.induct)
  case (1 n)
  show ?case
  proof (cases "n < 10")
    case True
    then show ?thesis by (subst dec_digits.simps) (simp add: of_nat_digit del: of_nat_add)
  next
    case False
    with 1 show ?thesis by (subst dec_digits.simps) (simp add: of_nat_digit del: of_nat_add)
  qed
qed

lemma dec_digits_inject [simp]: "dec_digits m = dec_digits n \<longleftrightarrow> m = n"
  using dec_value_digits by metis

lemma length_hex_pad [simp]: "length (hex_pad k n) = k"
  by (induction k arbitrary: n) simp_all

end
