(* ===== verification/S2_Server.thy ===== *)
theory S2_Server
  imports S2_Substring S2_Reply
begin

text \<open>
  The query server (\<open>src/crates/scry2/src/server.rs\<close>): requests, the path filter, one handler per
  verb, the breadth-first forests of \<^verbatim>\<open>callgraph\<close> and \<^verbatim>\<open>inheritance\<close>, the dispatcher and the
  request loop. A handler is \<open>None\<close> when a reader call panics. \<open>memmem\<close> and \<open>cores\<close> are the
  parameters of the substring search; the JSON codec of the request loop is a parameter.
\<close>

section \<open>Requests\<close>

datatype request =
    Req_Stat
  | Req_Def bytes bool bool nat "bytes option" "bytes option"
  | Req_Type bytes bool nat
  | Req_Sig bytes bool nat
  | Req_Members bytes bool nat
  | Req_Ref bytes bool bool nat nat "bytes option" "bytes option" "bytes option"
  | Req_Callers bytes bool bool nat nat "bytes option" "bytes option" "bytes option"
  | Req_Super bytes bool nat "bytes option" "bytes option"
  | Req_Sub bytes bool nat "bytes option" "bytes option"
  | Req_Callgraph bytes bytes nat nat bool nat "bytes option" "bytes option" "bytes option"
  | Req_Inheritance bytes bytes nat nat bool nat "bytes option" "bytes option" "bytes option"

section \<open>Path filters\<close>

record path_filter =
  pf_in :: "bytes option"
  pf_not_in :: "bytes option"
  pf_def_in :: "bytes option"

text \<open>\<^verbatim>\<open>haystack.contains(needle)\<close> on strings.\<close>

abbreviation contains :: "bytes \<Rightarrow> bytes \<Rightarrow> bool" where
  "contains hay needle \<equiv> sublist needle hay"

definition passes :: "path_filter \<Rightarrow> bytes \<Rightarrow> bool" where
  "passes filt path =
     (if (case pf_in filt of Some s \<Rightarrow> s \<noteq> [] \<and> \<not> contains path s | None \<Rightarrow> False) then False
      else if (case pf_not_in filt of Some s \<Rightarrow> s \<noteq> [] \<and> contains path s | None \<Rightarrow> False) then False
      else True)"

definition has_in_out :: "path_filter \<Rightarrow> bool" where
  "has_in_out filt =
     ((case pf_in filt of Some s \<Rightarrow> s \<noteq> [] | None \<Rightarrow> False) \<or>
      (case pf_not_in filt of Some s \<Rightarrow> s \<noteq> [] | None \<Rightarrow> False))"

section \<open>Names\<close>

text \<open>\<^verbatim>\<open>name.rsplit('#').next()\<close>: the part after the last \<^verbatim>\<open>#\<close>, the whole name when there is none.\<close>

definition rsplit_hash :: "bytes \<Rightarrow> bytes" where
  "rsplit_hash name = rev (takeWhile (\<lambda>c. c \<noteq> 0x23) (rev name))"

definition logical_key :: "bytes \<Rightarrow> bytes" where
  "logical_key name = (if starts_with name kythe_scheme then rsplit_hash name else name)"

definition def_loc_str :: "index \<Rightarrow> u64 \<Rightarrow> bytes option option" where
  "def_loc_str ix s = do {
     loc \<leftarrow> sym_def_loc ix s;
     (case loc of None \<Rightarrow> Some None
      | Some (file, off) \<Rightarrow> do {
          path \<leftarrow> file_path ix file;
          Some (map_option (\<lambda>p. p @ lit ''@'' @ dec_digits (unat off)) path) })
   }"

definition display_name :: "index \<Rightarrow> u64 \<Rightarrow> bytes \<Rightarrow> bytes option" where
  "display_name ix s name =
     (if \<not> starts_with name kythe_scheme then Some name
      else do {
        loc \<leftarrow> sym_def_loc ix s;
        at \<leftarrow> (case loc of None \<Rightarrow> Some None
               | Some (file, off) \<Rightarrow>
                   map_option (map_option (\<lambda>p. lit ''anon@'' @ p @ lit ''@'' @ dec_digits (unat off)))
                     (file_path ix file));
        (case at of Some shown \<Rightarrow> Some shown
         | None \<Rightarrow> let sg = rsplit_hash name in Some (if sg = [] then name else sg))
      })"

definition name_of :: "index \<Rightarrow> u64 \<Rightarrow> bytes option" where
  "name_of ix s = do {
     m \<leftarrow> sym_meta ix s;
     Some (case m of Some (n, _, _) \<Rightarrow> n | None \<Rightarrow> lit ''<sym '' @ hex_pad 16 (unat s) @ lit ''>'')
   }"

definition kind_of :: "index \<Rightarrow> u64 \<Rightarrow> bytes option" where
  "kind_of ix s = do {
     m \<leftarrow> sym_meta ix s;
     Some (kind_str (case m of Some (_, k, _) \<Rightarrow> k | None \<Rightarrow> 0))
   }"

text \<open>\<^verbatim>\<open>ix.sym_meta(sym).unwrap_or(("?", 0, 0))\<close>.\<close>

definition meta_or_unknown :: "index \<Rightarrow> u64 \<Rightarrow> (bytes \<times> u8 \<times> u8) option" where
  "meta_or_unknown ix s = map_option (\<lambda>m. case m of Some t \<Rightarrow> t | None \<Rightarrow> (lit ''?'', 0, 0)) (sym_meta ix s)"

section \<open>Cross-reference queries\<close>

definition SUBSTR_AGG_CAP :: nat where "SUBSTR_AGG_CAP = 64"
definition USIZE_MAX :: nat where "USIZE_MAX = 2 ^ 64 - 1"

text \<open>The row loop of one symbol: the rows so far, the running total, and whether \<^verbatim>\<open>max_hits\<close> was
  reached (\<^verbatim>\<open>break 'outer\<close>).\<close>

fun xref_hits ::
    "index \<Rightarrow> path_filter \<Rightarrow> nat \<Rightarrow> xref_row list \<Rightarrow> xref_hit list \<Rightarrow> nat \<Rightarrow> (xref_hit list \<times> nat \<times> bool) option" where
  "xref_hits ix filt max_hits [] rows tot = Some (rows, tot, False)"
| "xref_hits ix filt max_hits ((_, r, file, off) # rest) rows tot = do {
     p \<leftarrow> file_path ix file;
     let path = (case p of Some p \<Rightarrow> p | None \<Rightarrow> lit ''?'');
     (if \<not> passes filt path then xref_hits ix filt max_hits rest rows tot
      else let rows' = rows @ [\<lparr> xh_role = role_str r, xh_file = path, xh_off = off \<rparr>] in
        if max_hits \<le> Suc tot then Some (rows', Suc tot, True)
        else xref_hits ix filt max_hits rest rows' (Suc tot))
   }"

definition def_in_ok :: "index \<Rightarrow> path_filter \<Rightarrow> u64 \<Rightarrow> bool option" where
  "def_in_ok ix filt s =
     (case pf_def_in filt of
        None \<Rightarrow> Some True
      | Some needle \<Rightarrow>
          if needle = [] then Some True
          else map_option (\<lambda>p. case p of Some path \<Rightarrow> contains path needle | None \<Rightarrow> False) (sym_def_path ix s))"

definition symbol_header :: "index \<Rightarrow> bool \<Rightarrow> u64 \<Rightarrow> symbol_group option" where
  "symbol_header ix with_type s = do {
     (sname, knd, lng) \<leftarrow> meta_or_unknown ix s;
     typed \<leftarrow> (if with_type then type_of ix s else Some None);
     sg \<leftarrow> (if with_type then sig_of ix s else Some None);
     Some \<lparr> sg_name = sname, sg_kind = kind_str knd, sg_lang = lang_str lng, sg_typed = typed,
             sg_sig = sg, sg_rows = [] \<rparr>
   }"

fun xref_groups ::
    "index \<Rightarrow> u8 \<Rightarrow> u8 \<Rightarrow> nat \<Rightarrow> path_filter \<Rightarrow> bool \<Rightarrow> u64 list \<Rightarrow> symbol_group list \<Rightarrow> nat \<Rightarrow> bool \<Rightarrow>
     (symbol_group list \<times> nat \<times> bool) option" where
  "xref_groups ix role_lo role_hi max_hits filt with_type [] groups tot truncated =
     Some (groups, tot, truncated)"
| "xref_groups ix role_lo role_hi max_hits filt with_type (s # ss) groups tot truncated = do {
     def_ok \<leftarrow> def_in_ok ix filt s;
     (if \<not> def_ok then xref_groups ix role_lo role_hi max_hits filt with_type ss groups tot truncated
      else do {
        g \<leftarrow> symbol_header ix with_type s;
        xs \<leftarrow> xrefs ix s role_lo role_hi;
        (rows, tot', stop) \<leftarrow> xref_hits ix filt max_hits xs [] tot;
        (if stop then Some (groups @ [g\<lparr> sg_rows := rows \<rparr>], tot', True)
         else xref_groups ix role_lo role_hi max_hits filt with_type ss
                (if rows \<noteq> [] then groups @ [g\<lparr> sg_rows := rows \<rparr>] else groups) tot' truncated)
      })
   }"

definition do_xrefs ::
    "finder \<Rightarrow> nat \<Rightarrow> index \<Rightarrow> bytes \<Rightarrow> bool \<Rightarrow> bool \<Rightarrow> nat \<Rightarrow> u8 \<times> u8 \<Rightarrow> nat \<Rightarrow> path_filter \<Rightarrow> bool \<Rightarrow> reply option" where
  "do_xrefs memmem cores ix name substr ignore_case sym_cap roles max_hits filt with_type = do {
     let (role_lo, role_hi) = roles;
     syms \<leftarrow> (if substr then
               (if ignore_case then syms_matching_substring_ci memmem cores ix name sym_cap
                else syms_matching_substring memmem cores ix name sym_cap)
             else syms_for_name ix name);
     (groups, tot, truncated) \<leftarrow>
       xref_groups ix role_lo role_hi max_hits filt with_type syms [] 0 (substr \<and> sym_cap \<le> length syms);
     Some (Reply_Xrefs groups tot truncated)
   }"

section \<open>Types, signatures and members\<close>

text \<open>The name resolution of \<^verbatim>\<open>do_type\<close>, \<^verbatim>\<open>do_sig\<close>, \<^verbatim>\<open>do_members\<close> (with the cap \<^verbatim>\<open>limit.max(SUBSTR_AGG_CAP)\<close>)
  and of \<^verbatim>\<open>do_inh\<close>, \<^verbatim>\<open>do_callgraph\<close>, \<^verbatim>\<open>do_inheritance\<close>.\<close>

definition resolve_name :: "finder \<Rightarrow> nat \<Rightarrow> index \<Rightarrow> bytes \<Rightarrow> bool \<Rightarrow> nat \<Rightarrow> u64 list option" where
  "resolve_name memmem cores ix name substr cap =
     (if substr then syms_matching_substring memmem cores ix name cap else syms_for_name ix name)"

fun type_hits :: "index \<Rightarrow> nat \<Rightarrow> u64 list \<Rightarrow> (bytes \<times> bytes) set \<Rightarrow> type_hit list \<Rightarrow> type_hit list option" where
  "type_hits ix limit [] seen hits = Some hits"
| "type_hits ix limit (s # ss) seen hits = do {
     ty \<leftarrow> type_of ix s;
     (case ty of None \<Rightarrow> type_hits ix limit ss seen hits
      | Some ty \<Rightarrow> do {
          (sname, knd, lng) \<leftarrow> meta_or_unknown ix s;
          (if (logical_key sname, ty) \<in> seen then type_hits ix limit ss seen hits
           else let hits' = hits @ [\<lparr> th_name = sname, th_kind = kind_str knd, th_lang = lang_str lng, th_typed = ty \<rparr>] in
             if limit \<le> length hits' then Some hits'
             else type_hits ix limit ss (insert (logical_key sname, ty) seen) hits')
        })
   }"

definition do_type :: "finder \<Rightarrow> nat \<Rightarrow> index \<Rightarrow> bytes \<Rightarrow> bool \<Rightarrow> nat \<Rightarrow> reply option" where
  "do_type memmem cores ix name substr limit = do {
     syms \<leftarrow> resolve_name memmem cores ix name substr (max limit SUBSTR_AGG_CAP);
     hits \<leftarrow> type_hits ix limit syms {} [];
     Some (Reply_Type hits (length hits) (limit \<le> length hits))
   }"

fun sig_hits :: "index \<Rightarrow> nat \<Rightarrow> u64 list \<Rightarrow> (bytes \<times> bytes) set \<Rightarrow> sig_hit list \<Rightarrow> sig_hit list option" where
  "sig_hits ix limit [] seen hits = Some hits"
| "sig_hits ix limit (s # ss) seen hits = do {
     sg \<leftarrow> sig_of ix s;
     (case sg of None \<Rightarrow> sig_hits ix limit ss seen hits
      | Some sg \<Rightarrow> do {
          (sname, knd, lng) \<leftarrow> meta_or_unknown ix s;
          (if (logical_key sname, sg) \<in> seen then sig_hits ix limit ss seen hits
           else let hits' = hits @ [\<lparr> sh_name = sname, sh_kind = kind_str knd, sh_lang = lang_str lng, sh_sig = sg \<rparr>] in
             if limit \<le> length hits' then Some hits'
             else sig_hits ix limit ss (insert (logical_key sname, sg) seen) hits')
        })
   }"

definition do_sig :: "finder \<Rightarrow> nat \<Rightarrow> index \<Rightarrow> bytes \<Rightarrow> bool \<Rightarrow> nat \<Rightarrow> reply option" where
  "do_sig memmem cores ix name substr limit = do {
     syms \<leftarrow> resolve_name memmem cores ix name substr (max limit SUBSTR_AGG_CAP);
     hits \<leftarrow> sig_hits ix limit syms {} [];
     Some (Reply_Sig hits (length hits) (limit \<le> length hits))
   }"

definition is_container :: "u8 \<Rightarrow> bool" where
  "is_container k \<longleftrightarrow> k = kind_TYPE \<or> k = kind_PACKAGE"

text \<open>The two nested loops of \<^verbatim>\<open>do_members\<close> with their shared state: the child symbols seen, the
  rendered keys, the hits, and whether the limit was reached.\<close>

record member_state =
  ms_seen :: "u64 set"
  ms_rendered :: "(bytes \<times> bytes \<times> bytes option) set"
  ms_members :: "member_hit list"

fun member_hits :: "index \<Rightarrow> nat \<Rightarrow> u64 list \<Rightarrow> member_state \<Rightarrow> (member_state \<times> bool) option" where
  "member_hits ix limit [] st = Some (st, False)"
| "member_hits ix limit (child # cs) st =
     (if child \<in> ms_seen st then member_hits ix limit cs st
      else let st1 = st\<lparr> ms_seen := insert child (ms_seen st) \<rparr> in do {
        (mname, mkind, mlang) \<leftarrow> meta_or_unknown ix child;
        sg \<leftarrow> sig_of ix child;
        let key = (logical_key mname, kind_str mkind, sg);
        (if key \<in> ms_rendered st1 then member_hits ix limit cs st1
         else let st2 = st1\<lparr> ms_rendered := insert key (ms_rendered st1),
                ms_members := ms_members st1 @
                  [\<lparr> mh_name = mname, mh_kind = kind_str mkind, mh_lang = lang_str mlang, mh_sig = sg \<rparr>] \<rparr> in
           if limit \<le> length (ms_members st2) then Some (st2, True)
           else member_hits ix limit cs st2)
      })"

fun container_hits ::
    "index \<Rightarrow> nat \<Rightarrow> u64 list \<Rightarrow> bytes \<Rightarrow> member_state \<Rightarrow> (bytes \<times> member_state \<times> bool) option" where
  "container_hits ix limit [] container st = Some (container, st, False)"
| "container_hits ix limit (s # ss) container st = do {
     (cname, ckind, _) \<leftarrow> meta_or_unknown ix s;
     (if \<not> is_container ckind then container_hits ix limit ss container st
      else do {
        cs \<leftarrow> members ix s;
        (st', stop) \<leftarrow> member_hits ix limit cs st;
        (if stop then Some (cname, st', True) else container_hits ix limit ss cname st')
      })
   }"

definition do_members :: "finder \<Rightarrow> nat \<Rightarrow> index \<Rightarrow> bytes \<Rightarrow> bool \<Rightarrow> nat \<Rightarrow> reply option" where
  "do_members memmem cores ix name substr limit = do {
     syms \<leftarrow> resolve_name memmem cores ix name substr (max limit SUBSTR_AGG_CAP);
     (container, st, truncated) \<leftarrow>
       container_hits ix limit syms name \<lparr> ms_seen = {}, ms_rendered = {}, ms_members = [] \<rparr>;
     Some (Reply_Members container (ms_members st) (length (ms_members st)) truncated)
   }"

end
