(* ===== verification/S2_Walk.thy ===== *)
theory S2_Walk
  imports S2_Forest
begin

text \<open>
  The invariants of the breadth-first forest. A ghost list gives the symbol each node was made for;
  \<open>tree_ok\<close> relates it to the tables, \<open>grown\<close> is what one stretch of the traversal adds at a hop,
  and \<open>levels_spec\<close> puts the levels together: soundness, coverage, order and the \<^verbatim>\<open>max_syms\<close>
  budget.
\<close>

section \<open>Invariants\<close>

definition key_of :: "walk \<Rightarrow> u64 \<Rightarrow> bytes option" where
  "key_of w s = map_option logical_key (w_name w s)"

definition edge :: "walk \<Rightarrow> bytes \<Rightarrow> u64 \<Rightarrow> u64 \<Rightarrow> bool" where
  "edge w dir s t \<longleftrightarrow>
     (dir = lit ''up'' \<and> w_go_up w \<and> (\<exists>ts. w_up w s = Some ts \<and> t \<in> set ts)) \<or>
     (dir = lit ''down'' \<and> w_go_down w \<and> (\<exists>ts. w_down w s = Some ts \<and> t \<in> set ts))"

definition node_ok :: "walk \<Rightarrow> nat \<Rightarrow> u64 \<Rightarrow> call_node \<Rightarrow> bool" where
  "node_ok w i s n \<longleftrightarrow> cn_id n = of_nat i \<and> w_kind w s = Some (cn_kind n) \<and> w_def w s = Some (cn_def n) \<and>
     (\<exists>name. w_name w s = Some name \<and> w_show w s name = Some (cn_name n))"

definition placed :: "walk \<Rightarrow> u64 set \<Rightarrow> call_node list \<Rightarrow> u64 list \<Rightarrow> nat \<Rightarrow> bool" where
  "placed w R nodes syms i \<longleftrightarrow>
     (cn_parent (nodes ! i) = None \<and> cn_hop (nodes ! i) = 0 \<and> cn_dir (nodes ! i) = lit ''root'' \<and> syms ! i \<in> R) \<or>
     (\<exists>p < i. cn_parent (nodes ! i) = Some (of_nat p) \<and> cn_hop (nodes ! i) = Suc (cn_hop (nodes ! p)) \<and>
        edge w (cn_dir (nodes ! i)) (syms ! p) (syms ! i) \<and> w_pass w (syms ! i) = Some True)"

definition covered :: "walk \<Rightarrow> u64 list \<Rightarrow> u64 \<Rightarrow> bool" where
  "covered w syms s \<longleftrightarrow> key_of w s \<in> key_of w ` set syms"

definition tables_ok :: "walk \<Rightarrow> forest \<Rightarrow> u64 list \<Rightarrow> bool" where
  "tables_ok w st syms \<longleftrightarrow>
     (\<forall>k. f_rendered st k \<noteq> None \<longleftrightarrow> Some k \<in> key_of w ` set syms) \<and>
     (\<forall>s. f_seen st s \<noteq> None \<longrightarrow> covered w syms s) \<and> None \<notin> key_of w ` set syms"

definition tree_ok :: "walk \<Rightarrow> u64 set \<Rightarrow> call_node list \<Rightarrow> u64 list \<Rightarrow> bool" where
  "tree_ok w R nodes syms \<longleftrightarrow>
     length syms = length nodes \<and> distinct (map (key_of w) syms) \<and>
     (\<forall>i < length nodes. node_ok w i (syms ! i) (nodes ! i)) \<and>
     (\<forall>i < length nodes. placed w R nodes syms i) \<and> sorted (map cn_hop nodes)"

lemma tree_empty: "tree_ok w R [] []"
  by (simp add: tree_ok_def)

lemma tables_empty: "tables_ok w \<lparr> f_seen = Map.empty, f_nodes = [], f_rendered = Map.empty \<rparr> []"
  by (simp add: tables_ok_def)

lemma covered_append: "covered w syms s \<Longrightarrow> covered w (syms @ xs) s"
  by (auto simp: covered_def)

lemma placed_append:
  assumes "placed w R nodes syms i" and "i < length nodes" and "length syms = length nodes"
  shows "placed w R (nodes @ ns) (syms @ xs) i"
proof -
  have at: "(nodes @ ns) ! j = nodes ! j" "(syms @ xs) ! j = syms ! j" if "j \<le> i" for j
    using that assms(2,3) by (simp_all add: nth_append)
  from assms(1) [unfolded placed_def] show ?thesis
  proof (elim disjE exE conjE)
    fix p assume "p < i" "cn_parent (nodes ! i) = Some (of_nat p)" "cn_hop (nodes ! i) = Suc (cn_hop (nodes ! p))"
      "edge w (cn_dir (nodes ! i)) (syms ! p) (syms ! i)" "w_pass w (syms ! i) = Some True"
    then show ?thesis unfolding placed_def by (intro disjI2 exI [of _ p]) (simp add: at)
  qed (simp add: at placed_def)
qed

lemma tree_snoc:
  assumes "tree_ok w R nodes syms" and "key_of w s \<notin> key_of w ` set syms" and "node_ok w (length nodes) s n"
    and "placed w R (nodes @ [n]) (syms @ [s]) (length nodes)" and "\<forall>m \<in> set nodes. cn_hop m \<le> cn_hop n"
  shows "tree_ok w R (nodes @ [n]) (syms @ [s])"
  using assms placed_append [of w R nodes syms _ "[n]" "[s]"]
  by (auto simp: tree_ok_def less_Suc_eq nth_append sorted_append)

section \<open>Admission\<close>

lemma admit_cases:
  assumes adm: "admit w s parent dir hop st = Some (r, st')" and ok: "tables_ok w st syms"
  obtains (old) "r = None" "tables_ok w st' syms" "f_nodes st' = f_nodes st" "covered w syms s"
    | (new) n where "r = Some (of_nat (length (f_nodes st)))" "tables_ok w st' (syms @ [s])"
        "f_nodes st' = f_nodes st @ [n]" "key_of w s \<notin> key_of w ` set syms"
        "node_ok w (length (f_nodes st)) s n" "cn_parent n = parent" "cn_dir n = dir" "cn_hop n = hop"
proof (cases "f_seen st s = None")
  case False
  with adm ok show ?thesis by (intro old) (auto simp: admit_def tables_ok_def)
next
  case unseen: True
  with adm obtain name where name: "w_name w s = Some name" by (auto simp: admit_def bind_eq_Some_conv)
  then have key: "key_of w s = Some (logical_key name)" by (simp add: key_of_def)
  show ?thesis
  proof (cases "f_rendered st (logical_key name)")
    case (Some e)
    then have "key_of w s \<in> key_of w ` set syms" using ok key by (auto simp: tables_ok_def)
    with Some adm ok unseen name show ?thesis
      by (intro old) (auto simp: admit_def tables_ok_def covered_def split: if_splits)
  next
    case None
    with adm unseen name obtain def shown knd where
      parts: "w_def w s = Some def" "w_show w s name = Some shown" "w_kind w s = Some knd"
      by (auto simp: admit_def bind_eq_Some_conv Let_def)
    have fresh: "key_of w s \<notin> key_of w ` set syms" using None ok key unfolding tables_ok_def by metis
    have res: "(r, st') = (Some (of_nat (length (f_nodes st))),
         \<lparr> f_seen = (f_seen st)(s \<mapsto> of_nat (length (f_nodes st))),
           f_nodes = f_nodes st @
             [\<lparr> cn_id = of_nat (length (f_nodes st)), cn_parent = parent, cn_hop = hop, cn_dir = dir,
                cn_name = shown, cn_kind = knd, cn_def = def \<rparr>],
           f_rendered = (f_rendered st)(logical_key name \<mapsto> of_nat (length (f_nodes st))) \<rparr>)"
      using adm unseen name None parts by (auto simp: admit_def Let_def)
    show ?thesis
    proof (rule new)
      show "tables_ok w st' (syms @ [s])"
        using res ok key by (auto simp: tables_ok_def covered_def)
    qed (use res fresh parts name in \<open>auto simp: node_ok_def\<close>)
  qed
qed

lemma admit_total:
  assumes "w_name w s \<noteq> None" "w_kind w s \<noteq> None" "w_def w s \<noteq> None" "\<And>n. w_show w s n \<noteq> None"
  shows "admit w s parent dir hop st \<noteq> None"
proof -
  obtain name where "w_name w s = Some name" using assms(1) by blast
  with assms(2,3) assms(4) [of name] show ?thesis by (auto simp: admit_def Let_def split: option.splits)
qed

section \<open>Stretches of the traversal\<close>

text \<open>The entries a frontier gets for the nodes from position \<open>a\<close> on.\<close>

definition entries_from :: "nat \<Rightarrow> u64 list \<Rightarrow> (u64 \<times> u32) list" where
  "entries_from a syms = map (\<lambda>i. (syms ! i, of_nat i)) [a..<length syms]"

lemma entries_snoc: "a \<le> length syms \<Longrightarrow> entries_from a (syms @ [s]) = entries_from a syms @ [(s, of_nat (length syms))]"
  by (auto simp: entries_from_def nth_append)

text \<open>What a stretch at hop \<open>h\<close> does: it appends nodes of that hop, keeps the tables and the tree,
  and respects the budget.\<close>

definition budget :: "nat \<Rightarrow> nat \<Rightarrow> nat \<Rightarrow> bool \<Rightarrow> bool" where
  "budget m old new stop \<longleftrightarrow>
     (stop \<longrightarrow> old < new \<and> m \<le> new) \<and> (old < new \<longrightarrow> new \<le> max m (Suc old)) \<and> (\<not> stop \<and> old < new \<longrightarrow> new < m)"

definition grown :: "walk \<Rightarrow> u64 set \<Rightarrow> nat \<Rightarrow> forest \<Rightarrow> u64 list \<Rightarrow> forest \<Rightarrow> u64 list \<Rightarrow> bool" where
  "grown w R h st syms st' syms' \<longleftrightarrow>
     (\<exists>ns xs. f_nodes st' = f_nodes st @ ns \<and> syms' = syms @ xs \<and> (\<forall>n \<in> set ns. cn_hop n = h)) \<and>
     tables_ok w st' syms' \<and> tree_ok w R (f_nodes st') syms'"

lemma grown_refl: "tables_ok w st syms \<Longrightarrow> tree_ok w R (f_nodes st) syms \<Longrightarrow> grown w R h st syms st syms"
  by (simp add: grown_def)

lemma grown_trans: "grown w R h st syms st1 syms1 \<Longrightarrow> grown w R h st1 syms1 st2 syms2 \<Longrightarrow> grown w R h st syms st2 syms2"
  unfolding grown_def by (elim conjE exE) (simp, blast)

lemma budget_trans: "budget m a b stop1 \<Longrightarrow> \<not> stop1 \<Longrightarrow> budget m b c stop \<Longrightarrow> a \<le> b \<Longrightarrow> b \<le> c \<Longrightarrow> budget m a c stop"
  by (auto simp: budget_def)

lemma grownE:
  assumes "grown w R h st syms st' syms'"
  obtains ns xs where "f_nodes st' = f_nodes st @ ns" "syms' = syms @ xs" "\<forall>n \<in> set ns. cn_hop n = h"
    "tables_ok w st' syms'" "tree_ok w R (f_nodes st') syms'"
  using assms by (auto simp: grown_def)

lemma grown_covered: "grown w R h st syms st' syms' \<Longrightarrow> covered w syms s \<Longrightarrow> covered w syms' s"
  by (auto simp: grown_def intro: covered_append)

lemma tree_length: "tree_ok w R nodes syms \<Longrightarrow> length syms = length nodes"
  by (simp add: tree_ok_def)

definition hops_below :: "nat \<Rightarrow> forest \<Rightarrow> bool" where
  "hops_below h st \<longleftrightarrow> (\<forall>n \<in> set (f_nodes st). cn_hop n \<le> h)"

lemma grown_hops: "grown w R h st syms st' syms' \<Longrightarrow> hops_below h st \<Longrightarrow> hops_below h st'"
  by (auto simp: grown_def hops_below_def)

text \<open>One admission below the node at position \<open>p\<close>.\<close>

lemma admit_grown:
  assumes "admit w s (Some (of_nat p)) dir h st = Some (r, st')" and "tables_ok w st syms"
    and "tree_ok w R (f_nodes st) syms" and "hops_below h st"
    and p: "p < length syms" "Suc (cn_hop (f_nodes st ! p)) = h" and "edge w dir (syms ! p) s" and "w_pass w s = Some True"
  shows "\<exists>syms'. grown w R h st syms st' syms' \<and> covered w syms' s \<and>
    (case r of None \<Rightarrow> syms' = syms | Some i \<Rightarrow> i = of_nat (length syms) \<and> syms' = syms @ [s])"
  using assms(1,2)
proof (cases rule: admit_cases)
  case old
  then show ?thesis using assms(3) by (intro exI [of _ syms]) (simp add: grown_def)
next
  case (new n)
  have len: "length syms = length (f_nodes st)" by (rule tree_length [OF assms(3)])
  have "placed w R (f_nodes st @ [n]) (syms @ [s]) (length (f_nodes st))"
    unfolding placed_def
  proof (intro disjI2 exI [of _ p] conjI)
  qed (use new p assms(7,8) len in \<open>auto simp: nth_append\<close>)
  then have "tree_ok w R (f_nodes st @ [n]) (syms @ [s])"
    using new assms(3,4) by (intro tree_snoc) (auto simp: hops_below_def)
  with new len show ?thesis
    by (intro exI [of _ "syms @ [s]"]) (auto simp: grown_def covered_def)
qed

lemma visit_nbrs_grown:
  assumes "visit_nbrs w (of_nat p) dir h ss nxt st = Some (stop, nxt', st')" and "tables_ok w st syms"
    and "tree_ok w R (f_nodes st) syms" and "hops_below h st" and "nxt = entries_from a syms" and "a \<le> length syms"
    and "p < length syms" and "Suc (cn_hop (f_nodes st ! p)) = h" and "\<forall>s \<in> set ss. edge w dir (syms ! p) s"
  shows "\<exists>syms'. grown w R h st syms st' syms' \<and> nxt' = entries_from a syms' \<and>
    budget (w_max_syms w) (length (f_nodes st)) (length (f_nodes st')) stop \<and>
    (\<not> stop \<longrightarrow> (\<forall>s \<in> set ss. w_pass w s = Some True \<longrightarrow> covered w syms' s))"
  using assms
proof (induction ss arbitrary: nxt st syms)
  case Nil
  then show ?case by (intro exI [of _ syms]) (simp add: grown_refl budget_def)
next
  case (Cons s ss)
  from Cons.prems(1) obtain ok where ok: "w_pass w s = Some ok" by (auto simp: bind_eq_Some_conv)
  show ?case
  proof (cases ok)
    case False
    with Cons.prems ok Cons.IH [of nxt st syms] show ?thesis by auto
  next
    case True
    with Cons.prems(1) ok obtain r st1 where adm: "admit w s (Some (of_nat p)) dir h st = Some (r, st1)"
      by (auto simp: bind_eq_Some_conv)
    have e: "edge w dir (syms ! p) s" using Cons.prems(9) by simp
    obtain syms1 where g1: "grown w R h st syms st1 syms1" and cov: "covered w syms1 s"
      and r: "case r of None \<Rightarrow> syms1 = syms | Some i \<Rightarrow> i = of_nat (length syms) \<and> syms1 = syms @ [s]"
      using admit_grown [OF adm Cons.prems(2-4,7,8) e] ok True by auto
    from g1 obtain ns xs where n1: "f_nodes st1 = f_nodes st @ ns" "syms1 = syms @ xs"
      and ok1: "tables_ok w st1 syms1" "tree_ok w R (f_nodes st1) syms1" by (rule grownE)
    have len: "length syms = length (f_nodes st)" "length syms1 = length (f_nodes st1)"
      using tree_length Cons.prems(3) ok1(2) by blast+
    let ?nxt1 = "case r of None \<Rightarrow> nxt | Some i \<Rightarrow> nxt @ [(s, i)]"
    have nxt1: "?nxt1 = entries_from a syms1"
      using r Cons.prems(5,6) by (auto simp: entries_snoc split: option.splits)
    have grew: "length (f_nodes st1) = (if r = None then length (f_nodes st) else Suc (length (f_nodes st)))"
      using r len by (auto split: option.splits)
    show ?thesis
    proof (cases "r \<noteq> None \<and> w_max_syms w \<le> length (f_nodes st1)")
      case True
      then have "stop" "nxt' = ?nxt1" "st' = st1"
        using Cons.prems(1) ok \<open>ok\<close> adm by auto
      with g1 nxt1 grew True show ?thesis by (intro exI [of _ syms1]) (auto simp: budget_def)
    next
      case False
      then have rest: "visit_nbrs w (of_nat p) dir h ss ?nxt1 st1 = Some (stop, nxt', st')"
        using Cons.prems(1) ok \<open>ok\<close> adm by (auto split: option.splits)
      have p1: "p < length syms1" "Suc (cn_hop (f_nodes st1 ! p)) = h" "syms1 ! p = syms ! p" "a \<le> length syms1"
        using Cons.prems(6-8) n1 len by (auto simp: nth_append)
      have edges: "\<forall>s \<in> set ss. edge w dir (syms1 ! p) s" using Cons.prems(9) p1(3) by simp
      obtain syms2 where g2: "grown w R h st1 syms1 st' syms2" "nxt' = entries_from a syms2"
        and b2: "budget (w_max_syms w) (length (f_nodes st1)) (length (f_nodes st')) stop"
        and c2: "\<not> stop \<longrightarrow> (\<forall>s \<in> set ss. w_pass w s = Some True \<longrightarrow> covered w syms2 s)"
        using Cons.IH [OF rest ok1 grown_hops [OF g1 Cons.prems(4)] nxt1 p1(4,1,2) edges] by blast
      have b1: "budget (w_max_syms w) (length (f_nodes st)) (length (f_nodes st1)) False"
        using False grew by (auto simp: budget_def split: if_splits)
      have "length (f_nodes st1) \<le> length (f_nodes st')" using g2(1) by (auto simp: grown_def)
      with b1 b2 grew have "budget (w_max_syms w) (length (f_nodes st)) (length (f_nodes st')) stop"
        by (intro budget_trans [OF b1 _ b2]) auto
      with g1 g2 c2 grown_covered [OF g2(1) cov] show ?thesis
        by (intro exI [of _ syms2]) (auto intro: grown_trans)
    qed
  qed
qed

lemma visit_dir_grown:
  assumes "visit_dir w go edges dir h s (of_nat p) nxt st = Some (stop, nxt', st')" and "tables_ok w st syms"
    and "tree_ok w R (f_nodes st) syms" and "hops_below h st" and "nxt = entries_from a syms" and "a \<le> length syms"
    and "p < length syms" and "Suc (cn_hop (f_nodes st ! p)) = h" and "s = syms ! p"
    and "\<And>t. edge w dir s t \<longleftrightarrow> go \<and> (\<exists>ts. edges s = Some ts \<and> t \<in> set ts)"
  shows "\<exists>syms'. grown w R h st syms st' syms' \<and> nxt' = entries_from a syms' \<and>
    budget (w_max_syms w) (length (f_nodes st)) (length (f_nodes st')) stop \<and>
    (\<not> stop \<longrightarrow> (\<forall>t. edge w dir s t \<and> w_pass w t = Some True \<longrightarrow> covered w syms' t))"
proof (cases go)
  case True
  with assms(1) obtain ss where ss: "edges s = Some ss" "visit_nbrs w (of_nat p) dir h ss nxt st = Some (stop, nxt', st')"
    by (auto simp: visit_dir_def bind_eq_Some_conv)
  then have e: "edge w dir s t \<longleftrightarrow> t \<in> set ss" for t using True assms(10) by simp
  then have "\<forall>t \<in> set ss. edge w dir (syms ! p) t" using assms(9) by simp
  from visit_nbrs_grown [OF ss(2) assms(2-8) this] e show ?thesis by auto
next
  case False
  with assms show ?thesis by (intro exI [of _ syms]) (auto simp: visit_dir_def grown_refl budget_def)
qed

section \<open>Levels\<close>

definition front_ok :: "nat \<Rightarrow> call_node list \<Rightarrow> u64 list \<Rightarrow> (u64 \<times> u32) list \<Rightarrow> bool" where
  "front_ok h nodes syms frontier \<longleftrightarrow>
     (\<forall>(s, i) \<in> set frontier. \<exists>p < length syms. s = syms ! p \<and> i = of_nat p \<and> Suc (cn_hop (nodes ! p)) = h)"

lemma front_grown:
  assumes "front_ok h (f_nodes st) syms frontier" and "grown w R h' st syms st' syms'" and "length syms = length (f_nodes st)"
  shows "front_ok h (f_nodes st') syms' frontier"
proof -
  from assms(2) obtain ns xs where n: "f_nodes st' = f_nodes st @ ns" "syms' = syms @ xs" by (rule grownE)
  have keep: "p < length syms' \<and> syms' ! p = syms ! p \<and> f_nodes st' ! p = f_nodes st ! p" if "p < length syms" for p
    using that n assms(3) by (simp add: nth_append)
  show ?thesis unfolding front_ok_def
  proof clarify
    fix s i assume "(s, i) \<in> set frontier"
    then obtain p where "p < length syms" "s = syms ! p" "i = of_nat p" "Suc (cn_hop (f_nodes st ! p)) = h"
      using assms(1) by (auto simp: front_ok_def)
    with keep [of p] show "\<exists>p < length syms'. s = syms' ! p \<and> i = of_nat p \<and> Suc (cn_hop (f_nodes st' ! p)) = h"
      by (intro exI [of _ p]) simp
  qed
qed

lemma grown_length: "grown w R h st syms st' syms' \<Longrightarrow> length (f_nodes st) \<le> length (f_nodes st')"
  by (auto simp: grown_def)

text \<open>All edges of a node have been followed.\<close>

definition followed :: "walk \<Rightarrow> u64 list \<Rightarrow> u64 \<Rightarrow> bool" where
  "followed w syms s \<longleftrightarrow> (\<forall>dir t. edge w dir s t \<and> w_pass w t = Some True \<longrightarrow> covered w syms t)"

lemma followed_grown: "grown w R h st syms st' syms' \<Longrightarrow> followed w syms s \<Longrightarrow> followed w syms' s"
  using grown_covered by (fastforce simp: followed_def)

lemma edge_dirs:
  "edge w (lit ''up'') s t \<longleftrightarrow> w_go_up w \<and> (\<exists>ts. w_up w s = Some ts \<and> t \<in> set ts)"
  "edge w (lit ''down'') s t \<longleftrightarrow> w_go_down w \<and> (\<exists>ts. w_down w s = Some ts \<and> t \<in> set ts)"
  "edge w dir s t \<Longrightarrow> dir = lit ''up'' \<or> dir = lit ''down''"
  by (auto simp: edge_def lit_def)

lemma expand_grown:
  assumes "expand w h frontier nxt st = Some (stop, nxt', st')" and "tables_ok w st syms"
    and "tree_ok w R (f_nodes st) syms" and "hops_below h st" and "nxt = entries_from a syms" and "a \<le> length syms"
    and "front_ok h (f_nodes st) syms frontier"
  shows "\<exists>syms'. grown w R h st syms st' syms' \<and> nxt' = entries_from a syms' \<and>
    budget (w_max_syms w) (length (f_nodes st)) (length (f_nodes st')) stop \<and>
    (\<not> stop \<longrightarrow> (\<forall>(s, i) \<in> set frontier. followed w syms' s))"
  using assms
proof (induction frontier arbitrary: nxt st syms)
  case Nil
  then show ?case by (intro exI [of _ syms]) (simp add: grown_refl budget_def)
next
  case (Cons c frontier)
  obtain s i where c: "c = (s, i)" by (cases c)
  obtain p where p: "p < length syms" "s = syms ! p" "i = of_nat p" "Suc (cn_hop (f_nodes st ! p)) = h"
    using Cons.prems(7) by (auto simp: front_ok_def c)
  note len = tree_length [OF Cons.prems(3)]
  from Cons.prems(1) c p(3) obtain stop1 nxt1 st1 where
    v1: "visit_dir w (w_go_up w) (w_up w) (lit ''up'') h s (of_nat p) nxt st = Some (stop1, nxt1, st1)"
    by (auto simp: bind_eq_Some_conv)
  obtain syms1 where g1: "grown w R h st syms st1 syms1" "nxt1 = entries_from a syms1"
    and b1: "budget (w_max_syms w) (length (f_nodes st)) (length (f_nodes st1)) stop1"
    and c1: "\<not> stop1 \<longrightarrow> (\<forall>t. edge w (lit ''up'') s t \<and> w_pass w t = Some True \<longrightarrow> covered w syms1 t)"
    using visit_dir_grown [OF v1 Cons.prems(2-6) p(1,4,2) edge_dirs(1)] by blast
  show ?case
  proof (cases stop1)
    case True
    with v1 Cons.prems(1) c p(3) have "stop" "nxt' = nxt1" "st' = st1" by auto
    with g1 b1 True show ?thesis by (intro exI [of _ syms1]) simp
  next
    case False
    from g1(1) obtain ns xs where n1: "f_nodes st1 = f_nodes st @ ns" "syms1 = syms @ xs"
      and ok1: "tables_ok w st1 syms1" "tree_ok w R (f_nodes st1) syms1" by (rule grownE)
    have p1: "p < length syms1" "s = syms1 ! p" "Suc (cn_hop (f_nodes st1 ! p)) = h" "a \<le> length syms1"
      using p len n1 Cons.prems(6) by (auto simp: nth_append)
    from Cons.prems(1) c p(3) v1 False obtain stop2 nxt2 st2 where
      v2: "visit_dir w (w_go_down w) (w_down w) (lit ''down'') h s (of_nat p) nxt1 st1 = Some (stop2, nxt2, st2)"
      by (auto simp: bind_eq_Some_conv)
    obtain syms2 where g2: "grown w R h st1 syms1 st2 syms2" "nxt2 = entries_from a syms2"
      and b2: "budget (w_max_syms w) (length (f_nodes st1)) (length (f_nodes st2)) stop2"
      and c2: "\<not> stop2 \<longrightarrow> (\<forall>t. edge w (lit ''down'') s t \<and> w_pass w t = Some True \<longrightarrow> covered w syms2 t)"
      using visit_dir_grown [OF v2 ok1 grown_hops [OF g1(1) Cons.prems(4)] g1(2) p1(4,1,3,2) edge_dirs(2)] by blast
    note g12 = grown_trans [OF g1(1) g2(1)]
    have b12: "budget (w_max_syms w) (length (f_nodes st)) (length (f_nodes st2)) stop2"
      by (rule budget_trans [OF b1 False b2 grown_length [OF g1(1)] grown_length [OF g2(1)]])
    show ?thesis
    proof (cases stop2)
      case True
      with v1 v2 False Cons.prems(1) c p(3) have "stop" "nxt' = nxt2" "st' = st2" by auto
      with g12 g2(2) b12 True show ?thesis by (intro exI [of _ syms2]) simp
    next
      case no2: False
      with v1 v2 False Cons.prems(1) c p(3) have rest: "expand w h frontier nxt2 st2 = Some (stop, nxt', st')" by auto
      have ok2: "tables_ok w st2 syms2" "tree_ok w R (f_nodes st2) syms2" "a \<le> length syms2"
        using g2(1) p1(4) by (auto simp: grown_def)
      have front: "front_ok h (f_nodes st2) syms2 frontier"
        using Cons.prems(7) by (intro front_grown [OF _ g12 len]) (simp add: front_ok_def)
      obtain syms3 where g3: "grown w R h st2 syms2 st' syms3" "nxt' = entries_from a syms3"
        and b3: "budget (w_max_syms w) (length (f_nodes st2)) (length (f_nodes st')) stop"
        and c3: "\<not> stop \<longrightarrow> (\<forall>(s, i) \<in> set frontier. followed w syms3 s)"
        using Cons.IH [OF rest ok2(1,2) grown_hops [OF g12 Cons.prems(4)] g2(2) ok2(3) front] by blast
      have "followed w syms2 s"
        using c1 c2 False no2 edge_dirs(3) grown_covered [OF g2(1)] unfolding followed_def by metis
      then have "followed w syms3 s" by (rule followed_grown [OF g3(1)])
      moreover have "budget (w_max_syms w) (length (f_nodes st)) (length (f_nodes st')) stop"
        by (rule budget_trans [OF b12 no2 b3 grown_length [OF g12] grown_length [OF g3(1)]])
      ultimately show ?thesis
        using grown_trans [OF g12 g3(1)] g3(2) c3 c by (intro exI [of _ syms3]) auto
    qed
  qed
qed

text \<open>The edges of the node at position \<open>i\<close> lead to nodes at most one hop further.\<close>

definition explored :: "walk \<Rightarrow> call_node list \<Rightarrow> u64 list \<Rightarrow> nat \<Rightarrow> bool" where
  "explored w nodes syms i \<longleftrightarrow>
     (\<forall>dir t. edge w dir (syms ! i) t \<and> w_pass w t = Some True \<longrightarrow>
        (\<exists>j < length nodes. key_of w (syms ! j) = key_of w t \<and> cn_hop (nodes ! j) \<le> Suc (cn_hop (nodes ! i))))"

lemma explored_grown:
  assumes "explored w (f_nodes st) syms i" and "grown w R h st syms st' syms'" and "i < length (f_nodes st)"
    and "length syms = length (f_nodes st)"
  shows "explored w (f_nodes st') syms' i"
proof -
  from assms(2) obtain ns xs where n: "f_nodes st' = f_nodes st @ ns" "syms' = syms @ xs" by (rule grownE)
  have keep: "j < length (f_nodes st') \<and> syms' ! j = syms ! j \<and> f_nodes st' ! j = f_nodes st ! j"
    if "j < length (f_nodes st)" for j
    using that n assms(4) by (simp add: nth_append)
  show ?thesis unfolding explored_def
  proof (intro allI impI)
    fix dir t assume "edge w dir (syms' ! i) t \<and> w_pass w t = Some True"
    then obtain j where "j < length (f_nodes st)" "key_of w (syms ! j) = key_of w t"
        "cn_hop (f_nodes st ! j) \<le> Suc (cn_hop (f_nodes st ! i))"
      using assms(1) keep [OF assms(3)] by (auto simp: explored_def)
    with keep keep [OF assms(3)]
    show "\<exists>j < length (f_nodes st'). key_of w (syms' ! j) = key_of w t \<and> cn_hop (f_nodes st' ! j) \<le> Suc (cn_hop (f_nodes st' ! i))"
      by (intro exI [of _ j]) simp
  qed
qed

lemma followed_explored:
  assumes "followed w syms (syms ! i)" and "length syms = length nodes" and "\<forall>n \<in> set nodes. cn_hop n \<le> Suc (cn_hop (nodes ! i))"
  shows "explored w nodes syms i"
  unfolding explored_def
proof (intro allI impI)
  fix dir t assume "edge w dir (syms ! i) t \<and> w_pass w t = Some True"
  then have "key_of w t \<in> key_of w ` set syms" using assms(1) by (auto simp: followed_def covered_def)
  then obtain j where "j < length nodes" "key_of w (syms ! j) = key_of w t"
    using assms(2) by (auto simp: in_set_conv_nth)
  with assms(3) show "\<exists>j < length nodes. key_of w (syms ! j) = key_of w t \<and> cn_hop (nodes ! j) \<le> Suc (cn_hop (nodes ! i))"
    by (intro exI [of _ j]) simp
qed

text \<open>\<open>ready\<close> is the loop head before hop \<open>h\<close>: the frontier holds the nodes of hop \<open>h - 1\<close>, which
  come last, and every earlier node is explored.\<close>

definition ready :: "walk \<Rightarrow> u64 set \<Rightarrow> nat \<Rightarrow> nat \<Rightarrow> forest \<Rightarrow> u64 list \<Rightarrow> bool" where
  "ready w R h a st syms \<longleftrightarrow>
     tables_ok w st syms \<and> tree_ok w R (f_nodes st) syms \<and> a \<le> length syms \<and>
     (\<forall>i < a. Suc (cn_hop (f_nodes st ! i)) < h \<and> explored w (f_nodes st) syms i) \<and>
     (\<forall>i < length syms. a \<le> i \<longrightarrow> Suc (cn_hop (f_nodes st ! i)) = h)"

lemma readyD:
  assumes "ready w R h a st syms"
  shows "tables_ok w st syms" "tree_ok w R (f_nodes st) syms" "a \<le> length syms" "hops_below h st"
    "front_ok h (f_nodes st) syms (entries_from a syms)" "length syms = length (f_nodes st)"
proof -
  show len: "length syms = length (f_nodes st)" using assms tree_length by (auto simp: ready_def)
  show "hops_below h st" unfolding hops_below_def
  proof
    fix n assume "n \<in> set (f_nodes st)"
    then obtain i where "i < length syms" "n = f_nodes st ! i" using len by (auto simp: in_set_conv_nth)
    then show "cn_hop n \<le> h" using assms by (cases "i < a") (auto simp: ready_def)
  qed
  show "front_ok h (f_nodes st) syms (entries_from a syms)"
    using assms by (auto simp: ready_def front_ok_def entries_from_def)
qed (use assms in \<open>simp_all add: ready_def\<close>)

lemma ready_step:
  assumes "ready w R h a st syms" and "grown w R h st syms st' syms'"
    and "\<forall>(s, i) \<in> set (entries_from a syms). followed w syms' s"
  shows "ready w R (Suc h) (length syms) st' syms'"
proof -
  note r = readyD [OF assms(1)]
  from assms(2) obtain ns xs where n: "f_nodes st' = f_nodes st @ ns" "syms' = syms @ xs" "\<forall>n \<in> set ns. cn_hop n = h"
    and ok: "tables_ok w st' syms'" "tree_ok w R (f_nodes st') syms'" by (rule grownE)
  have len: "length syms' = length (f_nodes st')" by (rule tree_length [OF ok(2)])
  have old: "syms' ! i = syms ! i" "f_nodes st' ! i = f_nodes st ! i" if "i < length syms" for i
    using that n r(6) by (simp_all add: nth_append)
  have "Suc (cn_hop (f_nodes st' ! i)) < Suc h \<and> explored w (f_nodes st') syms' i" if i: "i < length syms" for i
  proof (cases "i < a")
    case True
    then show ?thesis
      using assms(1) old [OF i] explored_grown [OF _ assms(2) _ r(6)] i r(6) by (auto simp: ready_def)
  next
    case False
    then have h: "Suc (cn_hop (f_nodes st' ! i)) = h" using assms(1) old [OF i] i by (auto simp: ready_def)
    have "followed w syms' (syms' ! i)" using assms(3) False i old [OF i] by (force simp: entries_from_def)
    then have "explored w (f_nodes st') syms' i"
      using grown_hops [OF assms(2) r(4)] h by (intro followed_explored len) (auto simp: hops_below_def)
    with h show ?thesis by simp
  qed
  moreover have "Suc (cn_hop (f_nodes st' ! i)) = Suc h" if "i < length syms'" "length syms \<le> i" for i
    using that n len r(6) by (auto simp: nth_append)
  ultimately show ?thesis using ok n by (auto simp: ready_def)
qed

text \<open>The outcome of a whole traversal to \<open>depth\<close> from \<open>r\<close> root nodes.\<close>

definition forest_spec :: "walk \<Rightarrow> u64 set \<Rightarrow> nat \<Rightarrow> bool \<Rightarrow> call_node list \<Rightarrow> u64 list \<Rightarrow> bool" where
  "forest_spec w R depth truncated nodes syms \<longleftrightarrow>
     tree_ok w R nodes syms \<and> (\<forall>n \<in> set nodes. cn_hop n \<le> depth) \<and>
     (\<not> truncated \<longrightarrow> (\<forall>i < length nodes. cn_hop (nodes ! i) < depth \<longrightarrow> explored w nodes syms i))"

lemma levels_spec:
  assumes "levels w h k (entries_from a syms) st = Some (truncated, st')" and "ready w R h a st syms" and "0 < h"
  shows "\<exists>xs. forest_spec w R (h - 1 + k) truncated (f_nodes st') (syms @ xs) \<and>
    (\<exists>ns. f_nodes st' = f_nodes st @ ns \<and> (\<forall>n \<in> set ns. h \<le> cn_hop n)) \<and>
    budget (w_max_syms w) (length (f_nodes st)) (length (f_nodes st')) truncated"
  using assms
proof (induction k arbitrary: h a syms st)
  case 0
  have "cn_hop n \<le> h - 1" if n: "n \<in> set (f_nodes st)" for n
  proof -
    obtain i where "i < length syms" "n = f_nodes st ! i"
      using n readyD(6) [OF 0(2)] by (auto simp: in_set_conv_nth)
    then show ?thesis using 0(2) by (cases "i < a") (auto simp: ready_def)
  qed
  moreover have "explored w (f_nodes st) syms i" if "i < length syms" "cn_hop (f_nodes st ! i) < h - 1" for i
    using that 0(2) by (cases "i < a") (auto simp: ready_def)
  ultimately show ?case
    using 0 readyD(2,6) [OF 0(2)] by (intro exI [of _ "[]"]) (auto simp: forest_spec_def budget_def)
next
  case (Suc k)
  note r = readyD [OF Suc.prems(2)]
  from Suc.prems(1) obtain stop nxt st1 where e: "expand w h (entries_from a syms) [] st = Some (stop, nxt, st1)"
    by (auto simp: bind_eq_Some_conv)
  have nil: "[] = entries_from (length syms) syms" by (simp add: entries_from_def)
  obtain syms1 where g: "grown w R h st syms st1 syms1" "nxt = entries_from (length syms) syms1"
    and b: "budget (w_max_syms w) (length (f_nodes st)) (length (f_nodes st1)) stop"
    and c: "\<not> stop \<longrightarrow> (\<forall>(s, i) \<in> set (entries_from a syms). followed w syms1 s)"
    using expand_grown [OF e r(1,2,4) nil order_refl r(5)] by blast
  from g(1) obtain ns xs where n: "f_nodes st1 = f_nodes st @ ns" "syms1 = syms @ xs" "\<forall>n \<in> set ns. cn_hop n = h"
    and ok: "tables_ok w st1 syms1" "tree_ok w R (f_nodes st1) syms1" by (rule grownE)
  have hops: "cn_hop m \<le> h + k" if "m \<in> set (f_nodes st1)" for m
    using grown_hops [OF g(1) r(4)] that by (auto simp: hops_below_def)
  show ?case
  proof (cases stop)
    case True
    with e Suc.prems(1) have "truncated" "st' = st1" by auto
    with ok(2) hops b n True Suc.prems(3) show ?thesis
      by (intro exI [of _ xs]) (auto simp: forest_spec_def)
  next
    case False
    have step: "ready w R (Suc h) (length syms) st1 syms1"
      using ready_step [OF Suc.prems(2) g(1)] c False by blast
    show ?thesis
    proof (cases "nxt = []")
      case True
      with e Suc.prems(1) False have res: "\<not> truncated" "st' = st1" by auto
      have "length syms1 = length syms" using True g(2) n(2) by (auto simp: entries_from_def)
      then have "explored w (f_nodes st1) syms1 i" if "i < length (f_nodes st1)" for i
        using step that tree_length [OF ok(2)] by (auto simp: ready_def)
      with res ok(2) hops b n False Suc.prems(3) show ?thesis
        by (intro exI [of _ xs]) (auto simp: forest_spec_def)
    next
      case more: False
      with e Suc.prems(1) \<open>\<not> stop\<close> g(2) have rest: "levels w (Suc h) k (entries_from (length syms) syms1) st1 = Some (truncated, st')"
        by auto
      obtain ys ms where y: "forest_spec w R (Suc h - 1 + k) truncated (f_nodes st') (syms1 @ ys)"
          "f_nodes st' = f_nodes st1 @ ms" "\<forall>n \<in> set ms. Suc h \<le> cn_hop n"
          "budget (w_max_syms w) (length (f_nodes st1)) (length (f_nodes st')) truncated"
        using Suc.IH [OF rest step] by auto
      have "budget (w_max_syms w) (length (f_nodes st)) (length (f_nodes st')) truncated"
        using y(2) n(1) by (intro budget_trans [OF b False y(4)]) simp_all
      with y n Suc.prems(3) show ?thesis
        by (intro exI [of _ "xs @ ys"]) (auto intro!: exI [of _ "ns @ ms"])
    qed
  qed
qed

section \<open>Roots and the whole forest\<close>

lemma seed_roots_spec:
  assumes "seed_roots w roots (entries_from 0 syms) st = Some (frontier, st')" and "ready w R 1 0 st syms" and "set roots \<subseteq> R"
  shows "\<exists>xs. frontier = entries_from 0 (syms @ xs) \<and> ready w R 1 0 st' (syms @ xs) \<and>
    (\<forall>s \<in> set roots. covered w (syms @ xs) s) \<and> length xs \<le> length roots"
  using assms
proof (induction roots arbitrary: syms st)
  case Nil
  then show ?case by (intro exI [of _ "[]"]) simp
next
  case (Cons root roots)
  note r = readyD [OF Cons.prems(2)]
  from Cons.prems(1) obtain q st1 where adm: "admit w root None (lit ''root'') 0 st = Some (q, st1)"
    and rest: "seed_roots w roots (case q of Some nid \<Rightarrow> entries_from 0 syms @ [(root, nid)] | None \<Rightarrow> entries_from 0 syms) st1 = Some (frontier, st')"
    by (auto simp: bind_eq_Some_conv)
  from adm r(1) show ?case
  proof (cases rule: admit_cases)
    case old
    have "ready w R 1 0 st1 syms" using old Cons.prems(2) by (simp add: ready_def)
    then obtain xs where "frontier = entries_from 0 (syms @ xs)" "ready w R 1 0 st' (syms @ xs)"
        "\<forall>s \<in> set roots. covered w (syms @ xs) s" "length xs \<le> length roots"
      using Cons.IH [of syms st1] rest old Cons.prems(3) by auto
    then show ?thesis using covered_append [OF old(4), of xs] by (intro exI [of _ xs]) simp
  next
    case (new n)
    have zero: "cn_hop m = 0" if "m \<in> set (f_nodes st)" for m
      using that Cons.prems(2) r(6) by (auto simp: ready_def in_set_conv_nth)
    have "placed w R (f_nodes st @ [n]) (syms @ [root]) (length (f_nodes st))"
      using new Cons.prems(3) r(6) by (auto simp: placed_def nth_append)
    then have "tree_ok w R (f_nodes st @ [n]) (syms @ [root])"
      using new r(2) zero by (intro tree_snoc) auto
    then have "ready w R 1 0 st1 (syms @ [root])"
      using new Cons.prems(2) r(6) by (auto simp: ready_def nth_append)
    moreover have "seed_roots w roots (entries_from 0 (syms @ [root])) st1 = Some (frontier, st')"
      using rest new(1) r(6) by (simp add: entries_snoc)
    ultimately obtain xs where "frontier = entries_from 0 (syms @ [root] @ xs)" "ready w R 1 0 st' (syms @ [root] @ xs)"
        "\<forall>s \<in> set roots. covered w (syms @ [root] @ xs) s" "length xs \<le> length roots"
      using Cons.IH [of "syms @ [root]" st1] Cons.prems(3) by auto
    moreover have "covered w (syms @ [root] @ xs) root" by (simp add: covered_def)
    ultimately show ?thesis by (intro exI [of _ "root # xs"]) simp
  qed
qed

lemma grow_forest_spec:
  assumes "grow_forest w roots depth = Some (nodes, tot, truncated)"
  shows "\<exists>syms r. forest_spec w (set roots) depth truncated nodes syms \<and>
    (\<forall>s \<in> set roots. \<exists>j < length nodes. key_of w (syms ! j) = key_of w s \<and> cn_hop (nodes ! j) = 0) \<and>
    r = length (filter (\<lambda>n. cn_hop n = 0) nodes) \<and> r \<le> length roots \<and> tot = length nodes - r \<and>
    budget (w_max_syms w) r (length nodes) truncated"
proof -
  let ?st = "\<lparr> f_seen = Map.empty, f_nodes = [], f_rendered = Map.empty \<rparr>"
  from assms obtain frontier st st' where seed: "seed_roots w roots (entries_from 0 []) ?st = Some (frontier, st)"
    and lev: "levels w 1 depth frontier st = Some (truncated, st')"
    and res: "nodes = f_nodes st'" "tot = length nodes - length (filter (\<lambda>n. cn_hop n = 0) nodes)"
    by (auto simp: grow_forest_def bind_eq_Some_conv entries_from_def Let_def)
  have "ready w (set roots) 1 0 ?st []" using tables_empty tree_empty by (simp add: ready_def)
  from seed_roots_spec [OF seed this] obtain syms where front: "frontier = entries_from 0 syms"
    and ready: "ready w (set roots) 1 0 st syms" and cov: "\<forall>s \<in> set roots. covered w syms s"
    and few: "length syms \<le> length roots" by auto
  obtain xs ns where spec: "forest_spec w (set roots) depth truncated nodes (syms @ xs)"
    and ns: "nodes = f_nodes st @ ns" "\<forall>n \<in> set ns. 1 \<le> cn_hop n"
    and bud: "budget (w_max_syms w) (length (f_nodes st)) (length nodes) truncated"
    using levels_spec [OF lev [unfolded front] ready] res(1) by auto
  have zero: "\<forall>m \<in> set (f_nodes st). cn_hop m = 0"
    using ready readyD(6) [OF ready] by (auto simp: ready_def in_set_conv_nth)
  have "filter (\<lambda>n. cn_hop n = 0) nodes = f_nodes st"
    using ns zero by (auto simp: filter_id_conv filter_empty_conv)
  moreover have "\<exists>j < length nodes. key_of w ((syms @ xs) ! j) = key_of w s \<and> cn_hop (nodes ! j) = 0"
    if "s \<in> set roots" for s
  proof -
    have "key_of w s \<in> key_of w ` set syms" using cov that by (simp add: covered_def)
    then obtain j where "j < length syms" "key_of w (syms ! j) = key_of w s" by (auto simp: in_set_conv_nth)
    then show ?thesis
      using ns(1) zero readyD(6) [OF ready] by (intro exI [of _ j]) (auto simp: nth_append)
  qed
  ultimately show ?thesis
    using spec bud res(2) few readyD(6) [OF ready] by (intro exI [of _ "syms @ xs"] exI [of _ "length (f_nodes st)"]) auto
qed

end
