(* ===== verification/S2_Reach.thy ===== *)
theory S2_Reach
  imports S2_Walk
begin

text \<open>
  Distances in a traversal: every node is reached by as many passing edges as its hop says, and the
  interfaces \<open>logical_walks\<close> (closures that do not panic on a domain closed under edges: the
  traversal returns) and \<open>keyed_walks\<close> (logical duplicates have the same neighbours: the hop is the
  distance).
\<close>

section \<open>Distances\<close>

text \<open>A walk of \<open>n\<close> passing edges from the roots.\<close>

inductive reach :: "walk \<Rightarrow> u64 set \<Rightarrow> nat \<Rightarrow> u64 \<Rightarrow> bool" for w R where
  reach_root: "s \<in> R \<Longrightarrow> reach w R 0 s"
| reach_edge: "reach w R n s \<Longrightarrow> edge w dir s t \<Longrightarrow> w_pass w t = Some True \<Longrightarrow> reach w R (Suc n) t"

lemma forest_reach:
  assumes "forest_spec w R depth truncated nodes syms" and "i < length nodes"
  shows "reach w R (cn_hop (nodes ! i)) (syms ! i)"
  using assms(2)
proof (induction i rule: less_induct)
  case (less i)
  have "placed w R nodes syms i" using assms(1) less.prems by (simp add: forest_spec_def tree_ok_def)
  then show ?case unfolding placed_def
  proof (elim disjE exE conjE)
    fix p assume "p < i" "cn_hop (nodes ! i) = Suc (cn_hop (nodes ! p))"
      "edge w (cn_dir (nodes ! i)) (syms ! p) (syms ! i)" "w_pass w (syms ! i) = Some True"
    with less show ?thesis by (metis less_trans reach_edge)
  qed (simp add: reach_root)
qed

text \<open>The nodes show, each once, the names within \<open>depth\<close> edges of the roots, at their distance.\<close>

definition hops_are_distances :: "walk \<Rightarrow> u64 set \<Rightarrow> nat \<Rightarrow> (u64 \<Rightarrow> bytes) \<Rightarrow> call_node list \<Rightarrow> bool" where
  "hops_are_distances w R depth name nodes \<longleftrightarrow>
     distinct (map cn_name nodes) \<and>
     (\<forall>n t. reach w R n t \<and> n \<le> depth \<longrightarrow> (\<exists>node \<in> set nodes. cn_name node = name t)) \<and>
     (\<forall>node \<in> set nodes. (\<exists>t. cn_name node = name t \<and> reach w R (cn_hop node) t) \<and>
        (\<forall>n t. cn_name node = name t \<and> reach w R n t \<longrightarrow> cn_hop node \<le> n))"

lemma no_reach: "\<not> reach w {} n t"
proof
  assume "reach w {} n t"
  then show False by induction simp_all
qed

lemma hops_none: "hops_are_distances w (set []) depth name []"
  by (simp add: hops_are_distances_def no_reach)

text \<open>A family of traversals whose closures are total on a domain closed under edges, and in which
  symbols of one logical key have the same neighbours.\<close>

locale logical_walks =
  fixes ok :: "'p \<Rightarrow> bool" and wk :: "'p \<Rightarrow> walk" and dom :: "u64 set"
  assumes lookups: "ok p \<Longrightarrow> s \<in> dom \<Longrightarrow>
      w_name (wk p) s \<noteq> None \<and> w_kind (wk p) s \<noteq> None \<and> w_def (wk p) s \<noteq> None \<and>
      w_show (wk p) s n \<noteq> None \<and> w_pass (wk p) s \<noteq> None"
    and closed: "ok p \<Longrightarrow> s \<in> dom \<Longrightarrow>
      (\<exists>ts. w_up (wk p) s = Some ts \<and> set ts \<subseteq> dom) \<and> (\<exists>ts. w_down (wk p) s = Some ts \<and> set ts \<subseteq> dom)"
begin

lemma admit_ok: "ok p \<Longrightarrow> s \<in> dom \<Longrightarrow> \<exists>r st'. admit (wk p) s parent dir hop st = Some (r, st')"
  using admit_total [of "wk p" s] lookups [of p s] by (metis not_None_eq surj_pair)

lemma seed_ok: "ok p \<Longrightarrow> set roots \<subseteq> dom \<Longrightarrow> fst ` set frontier \<subseteq> dom \<Longrightarrow>
    \<exists>frontier' st'. seed_roots (wk p) roots frontier st = Some (frontier', st') \<and> fst ` set frontier' \<subseteq> dom"
proof (induction roots arbitrary: frontier st)
  case (Cons root roots)
  obtain r st1 where "admit (wk p) root None (lit ''root'') 0 st = Some (r, st1)"
    using admit_ok [OF Cons.prems(1)] Cons.prems(2) by fastforce
  moreover have "fst ` set (case r of Some nid \<Rightarrow> frontier @ [(root, nid)] | None \<Rightarrow> frontier) \<subseteq> dom"
    using Cons.prems(2,3) by (auto split: option.split)
  ultimately show ?case using Cons.IH [OF Cons.prems(1)] Cons.prems(2) by auto
qed auto

lemma visit_nbrs_ok: "ok p \<Longrightarrow> set ss \<subseteq> dom \<Longrightarrow> fst ` set nxt \<subseteq> dom \<Longrightarrow>
    \<exists>stop nxt' st'. visit_nbrs (wk p) i dir hop ss nxt st = Some (stop, nxt', st') \<and> fst ` set nxt' \<subseteq> dom"
proof (induction ss arbitrary: nxt st)
  case (Cons s ss)
  have s: "s \<in> dom" and ss: "set ss \<subseteq> dom" using Cons.prems(2) by auto
  obtain b where b: "w_pass (wk p) s = Some b" using lookups [OF Cons.prems(1) s] by blast
  obtain r st1 where a: "admit (wk p) s (Some i) dir hop st = Some (r, st1)"
    using admit_ok [OF Cons.prems(1) s] by blast
  note IH = Cons.IH [OF Cons.prems(1) ss]
  have "fst ` set (nxt @ [(s, j)]) \<subseteq> dom" for j using s Cons.prems(3) by auto
  with b a IH [OF Cons.prems(3)] IH [of "nxt @ [(s, j)]" for j] Cons.prems(3) show ?case
    by (cases b; cases r) auto
qed auto

lemma expand_ok: "ok p \<Longrightarrow> fst ` set frontier \<subseteq> dom \<Longrightarrow> fst ` set nxt \<subseteq> dom \<Longrightarrow>
    \<exists>stop nxt' st'. expand (wk p) hop frontier nxt st = Some (stop, nxt', st') \<and> fst ` set nxt' \<subseteq> dom"
proof (induction frontier arbitrary: nxt st)
  case (Cons c frontier)
  obtain s i where c: "c = (s, i)" by (cases c)
  have s: "s \<in> dom" using Cons.prems(2) by (simp add: c)
  obtain us ds where e: "w_up (wk p) s = Some us" "set us \<subseteq> dom" "w_down (wk p) s = Some ds" "set ds \<subseteq> dom"
    using closed [OF Cons.prems(1) s] by blast
  have dir: "\<exists>stop nxt' st'. visit_dir (wk p) go edges dir hop s i nxt st = Some (stop, nxt', st') \<and> fst ` set nxt' \<subseteq> dom"
    if "edges s = Some ts" "set ts \<subseteq> dom" "fst ` set nxt \<subseteq> dom" for go edges ts dir nxt st
  proof (cases go)
    case True
    then show ?thesis using visit_nbrs_ok [OF Cons.prems(1) that(2,3), of i dir hop st] that(1) by (simp add: visit_dir_def)
  next
    case False
    then show ?thesis using that(3) by (auto simp: visit_dir_def)
  qed
  obtain stop1 nxt1 st1 where 1: "visit_dir (wk p) (w_go_up (wk p)) (w_up (wk p)) (lit ''up'') hop s i nxt st = Some (stop1, nxt1, st1)"
      "fst ` set nxt1 \<subseteq> dom" using dir [of "w_up (wk p)", OF e(1,2) Cons.prems(3)] by blast
  obtain stop2 nxt2 st2 where 2: "visit_dir (wk p) (w_go_down (wk p)) (w_down (wk p)) (lit ''down'') hop s i nxt1 st1 = Some (stop2, nxt2, st2)"
      "fst ` set nxt2 \<subseteq> dom" using dir [of "w_down (wk p)", OF e(3,4) 1(2)] by blast
  show ?case using 1 2 Cons.IH [OF Cons.prems(1) _ 2(2)] Cons.prems(2) by (cases stop1; cases stop2) (auto simp: c)
qed auto

lemma levels_ok: "ok p \<Longrightarrow> fst ` set frontier \<subseteq> dom \<Longrightarrow> levels (wk p) hop k frontier st \<noteq> None"
proof (induction k arbitrary: hop frontier st)
  case (Suc k)
  obtain stop nxt st1 where "expand (wk p) hop frontier [] st = Some (stop, nxt, st1)" "fst ` set nxt \<subseteq> dom"
    using expand_ok [OF Suc.prems, of "[]" hop st] by auto
  with Suc show ?case by auto
qed simp

lemma grow_forest_ok:
  assumes "ok p" and "set roots \<subseteq> dom"
  shows "grow_forest (wk p) roots depth \<noteq> None"
proof -
  let ?st = "\<lparr> f_seen = Map.empty, f_nodes = [], f_rendered = Map.empty \<rparr>"
  obtain frontier st where "seed_roots (wk p) roots [] ?st = Some (frontier, st)" "fst ` set frontier \<subseteq> dom"
    using seed_ok [OF assms, of "[]" ?st] by auto
  with levels_ok [OF assms(1), of frontier 1 depth st] show ?thesis
    by (auto simp: grow_forest_def Let_def)
qed

end

locale keyed_walks = logical_walks +
  assumes same_edges: "ok p \<Longrightarrow> key_of (wk p) s = key_of (wk p) t \<Longrightarrow> edge (wk p) dir s u \<longleftrightarrow> edge (wk p) dir t u"
begin

lemma reach_shown:
  assumes "ok p" and "forest_spec (wk p) R depth False nodes syms"
    and "\<forall>s \<in> R. \<exists>j < length nodes. key_of (wk p) (syms ! j) = key_of (wk p) s \<and> cn_hop (nodes ! j) = 0"
    and "reach (wk p) R n t" and "n \<le> depth"
  shows "\<exists>j < length nodes. key_of (wk p) (syms ! j) = key_of (wk p) t \<and> cn_hop (nodes ! j) \<le> n"
  using assms(4,5)
proof (induction rule: reach.induct)
  case (reach_root s)
  then show ?case using assms(3) by fastforce
next
  case (reach_edge n s dir t)
  then obtain j where j: "j < length nodes" "key_of (wk p) (syms ! j) = key_of (wk p) s" "cn_hop (nodes ! j) \<le> n" by auto
  then have "explored (wk p) nodes syms j" using assms(2) reach_edge.prems by (simp add: forest_spec_def)
  moreover have "edge (wk p) dir (syms ! j) t" using same_edges [OF assms(1) j(2)] reach_edge.hyps(2) by simp
  ultimately obtain i where "i < length nodes" "key_of (wk p) (syms ! i) = key_of (wk p) t" "cn_hop (nodes ! i) \<le> Suc (cn_hop (nodes ! j))"
    using reach_edge.hyps(3) unfolding explored_def by blast
  with j(3) show ?case by (intro exI [of _ i]) simp
qed

lemma distances:
  assumes "ok p" and "forest_spec (wk p) R depth False nodes syms"
    and roots: "\<forall>s \<in> R. \<exists>j < length nodes. key_of (wk p) (syms ! j) = key_of (wk p) s \<and> cn_hop (nodes ! j) = 0"
    and key: "\<And>s. key_of (wk p) s = Some (name s)" and shown: "\<And>s. w_name (wk p) s = Some (name s)"
    and sho: "\<And>s. w_show (wk p) s (name s) = Some (name s)"
  shows "hops_are_distances (wk p) R depth name nodes"
proof -
  have tree: "length syms = length nodes" "distinct (map (key_of (wk p)) syms)"
      "\<And>i. i < length nodes \<Longrightarrow> node_ok (wk p) i (syms ! i) (nodes ! i)" "\<And>i. i < length nodes \<Longrightarrow> cn_hop (nodes ! i) \<le> depth"
    using assms(2) by (auto simp: forest_spec_def tree_ok_def)
  have nm: "cn_name (nodes ! i) = name (syms ! i)" if "i < length nodes" for i
    using tree(3) [OF that] shown sho by (auto simp: node_ok_def)
  have names: "map cn_name nodes = map name syms" using nm tree(1) by (simp add: list_eq_iff_nth_eq)
  have dist: "distinct (map name syms)" using tree(2) key by (simp add: distinct_map inj_on_def)
  have inj: "i = j" if "i < length nodes" "j < length nodes" "name (syms ! i) = name (syms ! j)" for i j
    using that dist tree(1) by (metis length_map nth_eq_iff_index_eq nth_map)
  have reachD: "\<exists>j < length nodes. name (syms ! j) = name t \<and> cn_hop (nodes ! j) \<le> n"
    if "reach (wk p) R n t" "n \<le> depth" for n t
    using reach_shown [OF assms(1,2) roots that] key by simp
  have cover: "\<exists>node \<in> set nodes. cn_name node = name t" if "reach (wk p) R n t" "n \<le> depth" for n t
    using reachD [OF that] nm by force
  have least: "cn_hop (nodes ! i) \<le> n" if "i < length nodes" "name (syms ! i) = name t" "reach (wk p) R n t" for i n t
  proof (cases "n \<le> depth")
    case True
    with reachD [OF that(3)] inj [OF that(1)] that(2) show ?thesis by metis
  next
    case False
    with tree(4) [OF that(1)] show ?thesis by simp
  qed
  show ?thesis unfolding hops_are_distances_def
  proof (intro conjI allI impI ballI)
    show "distinct (map cn_name nodes)" using names dist by simp
    show "\<exists>node \<in> set nodes. cn_name node = name t" if "reach (wk p) R n t \<and> n \<le> depth" for n t using cover that by blast
  next
    fix node assume "node \<in> set nodes"
    then obtain i where i: "i < length nodes" "node = nodes ! i" by (auto simp: in_set_conv_nth)
    then show "\<exists>t. cn_name node = name t \<and> reach (wk p) R (cn_hop node) t"
      using forest_reach [OF assms(2) i(1)] nm by blast
    show "cn_hop node \<le> n" if "cn_name node = name t \<and> reach (wk p) R n t" for n t
      using that least [OF i(1)] nm [OF i(1)] i(2) by metis
  qed
qed

end

end
