(* ===== verification/S2_Lookup.thy ===== *)
theory S2_Lookup
  imports S2_Fits S2_Substring
begin

text \<open>
  The reader's lookups on an index written from a builder, in terms of the builder: which symbols
  answer to a name, what the edge tables return for every key and at the largest one, and that no
  lookup panics. The server's theorems rest on these facts.
\<close>

section \<open>Names\<close>

text \<open>A symbol answers to its canonical name and, unless it is a variable, to its aliases.\<close>

definition named_by :: "index_builder \<Rightarrow> u64 \<Rightarrow> bytes \<Rightarrow> bool" where
  "named_by b s q \<longleftrightarrow>
     (\<exists>(s', k, l, n) \<in> set (b_syms b). s' = s \<and> clamp_blob_str n = q) \<or>
     (\<exists>(s', a) \<in> set (b_aliases b). s' = s \<and> clamp_blob_str a = q \<and> s \<notin> set (var_syms (b_syms b)))"

lemma name_entries_finish: "(q, s) \<in> set (name_entries (finish_content b)) \<longleftrightarrow> named_by b s q"
proof -
  have syms: "(q, s) \<in> (\<lambda>(s, k, l, n). (clamp_blob_str n, s)) ` set m \<longleftrightarrow>
      (\<exists>(s', k, l, n) \<in> set m. s' = s \<and> clamp_blob_str n = q)" for m :: "(u64 \<times> sym_meta) list"
    by force
  have aliases: "(q, s) \<in> (\<lambda>(s, a). (clamp_blob_str a, s)) ` {x \<in> set m. case x of (s, a) \<Rightarrow> s \<notin> V} \<longleftrightarrow>
      (\<exists>(s', a) \<in> set m. s' = s \<and> clamp_blob_str a = q \<and> s \<notin> V)" for V and m :: "(u64 \<times> bytes) list"
    by force
  have "set (var_syms (sorted_syms b)) = set (var_syms (b_syms b))"
    by (simp add: var_syms_def sorted_syms_def)
  then show ?thesis
    by (simp only: name_entries_def finish_content_def kept_aliases_def named_by_def content.select_convs
        set_sort set_append set_map set_sort_dedup set_filter Un_iff syms aliases)
      (simp only: sorted_syms_def set_sort)
qed

lemma sym_meta_indexed:
  assumes "indexed b ix"
  shows "sym_meta ix s = Some (map_option (\<lambda>(k, l, n). (clamp_blob_str n, k, l)) (map_of (b_syms b) s))"
  using assms
proof (rule indexedE)
  fix t assume t: "content_fits (finish_content b) t" "ix = opened t" and ok: "builder_ok b"
  have "map_of (sorted_syms b) = map_of (b_syms b)"
    using ok by (simp add: sorted_syms_def sort_key_fst_map builder_ok_def)
  then show ?thesis using sym_meta_content [OF t(1), of s] by (simp add: t(2) finish_content_def)
qed

lemma strings_indexed:
  assumes "indexed b ix"
  shows "file_path ix f = Some (map_option clamp_blob_str (map_of (b_files b) f))"
    and "type_of ix s = Some (map_option clamp_blob_str (least_string (b_typed b) s))"
    and "sig_of ix s = Some (map_option clamp_blob_str (least_string (b_sig b) s))"
proof -
  from assms obtain t where t: "content_fits (finish_content b) t" "ix = opened t" and ok: "builder_ok b" by (rule indexedE)
  have "map_of (sort_key fst (b_files b)) = map_of (b_files b)"
    using ok by (simp add: sort_key_fst_map builder_ok_def)
  then show "file_path ix f = Some (map_option clamp_blob_str (map_of (b_files b) f))"
      "type_of ix s = Some (map_option clamp_blob_str (least_string (b_typed b) s))"
      "sig_of ix s = Some (map_option clamp_blob_str (least_string (b_sig b) s))"
    using strings_content(1) [OF t(1), of f] strings_content(2,3) [OF t(1), of s]
    by (simp_all add: t(2) finish_content_def map_of_first_per_sym)
qed

lemma syms_for_name_indexed:
  assumes "indexed b ix"
  shows "\<exists>out. syms_for_name ix q = Some out \<and> sorted out \<and> distinct out \<and> set out = {s. named_by b s q}"
  using assms
proof (rule indexedE)
  fix t assume t: "content_fits (finish_content b) t" "ix = opened t"
  have "snd ` {x \<in> set (name_entries (finish_content b)). case x of (n, s) \<Rightarrow> n = q} = {s. named_by b s q}"
    using name_entries_finish [of q _ b] by force
  then show ?thesis using names_content(1) [OF t(1), of q] by (simp add: t(2))
qed

lemma xrefs_indexed:
  assumes "indexed b ix" and "s \<noteq> - 1 \<or> role_hi \<noteq> 255"
  shows "xrefs ix s role_lo role_hi =
    Some (filter (\<lambda>(s', r, f, off). s' = s \<and> role_lo \<le> r \<and> r \<le> role_hi) (sort_dedup (b_xrefs b)))"
  using assms(1)
proof (rule indexedE)
  fix t assume t: "content_fits (finish_content b) t" "ix = opened t"
  show ?thesis using xrefs_content [OF t(1) assms(2), of role_lo] by (simp add: t(2) finish_content_def)
qed

section \<open>Edges\<close>

text \<open>The rows of one key in a sorted table of pairs.\<close>

lemma key_rows:
  assumes "sorted rows" and "distinct rows"
  shows "sorted (map snd (filter (\<lambda>r. fst r = k) rows))" and "distinct (map snd (filter (\<lambda>r. fst r = k) rows))"
  using assms
  by (induction rows) (auto simp: less_eq_prod_def)

lemma swapped_rows:
  "map snd (filter (\<lambda>(a, b). a = k) (swap_inh (sort_dedup rows))) =
     sort_dedup (map fst (filter (\<lambda>(c, p). p = k) rows))"
  "map snd (filter (\<lambda>(a, b, r). a = k) (swap_calls (sort_dedup crows))) =
     sort_dedup (map (\<lambda>(c, d, r). (c, r)) (filter (\<lambda>(c, d, r). d = k) crows))"
proof -
  have inj: "inj_on (\<lambda>(c, p). (p, c)) A" "inj_on (\<lambda>(c, d, r). (d, c, r)) B" for A :: "inh_row set" and B :: "call_row set"
    by (auto simp: inj_on_def)
  have fst: "(\<lambda>(a, b). a = k) = (\<lambda>r. fst r = k)" "(\<lambda>(a, b, r). a = k) = (\<lambda>r. fst r = k)"
    by (auto simp: fun_eq_iff)
  have "sorted (swap_inh (sort_dedup rows))" "distinct (swap_inh (sort_dedup rows))"
      "sorted (swap_calls (sort_dedup crows))" "distinct (swap_calls (sort_dedup crows))"
    using inj by (simp_all add: swap_inh_def swap_calls_def distinct_map)
  note key = key_rows [OF this(1,2), of k] key_rows [OF this(3,4), of k]
  show "map snd (filter (\<lambda>(a, b). a = k) (swap_inh (sort_dedup rows))) =
      sort_dedup (map fst (filter (\<lambda>(c, p). p = k) rows))"
    unfolding fst by (rule sort_dedup_unique [OF key(1,2)]) (force simp: swap_inh_def)
  show "map snd (filter (\<lambda>(a, b, r). a = k) (swap_calls (sort_dedup crows))) =
      sort_dedup (map (\<lambda>(c, d, r). (c, r)) (filter (\<lambda>(c, d, r). d = k) crows))"
    unfolding fst by (rule sort_dedup_unique [OF key(3,4)]) (force simp: swap_calls_def)
qed

text \<open>What the edge tables answer for any key but the largest.\<close>

lemma edges_indexed:
  assumes "indexed b ix" and "k \<noteq> - 1"
  shows "inherits_of ix k = Some (map snd (filter (\<lambda>(c, p). c = k) (sort_dedup (b_inherits b))))"
    and "members ix k = Some (map snd (filter (\<lambda>(p, c). p = k) (sort_dedup (b_childof b))))"
    and "calls_from ix k = Some (map snd (filter (\<lambda>(c, d, r). c = k) (sort_dedup (b_calls b))))"
    and "inherited_by ix k = Some (sort_dedup (map fst (filter (\<lambda>(c, p). p = k) (b_inherits b))))"
    and "called_by ix k = Some (sort_dedup (map (\<lambda>(c, d, r). (c, r)) (filter (\<lambda>(c, d, r). d = k) (b_calls b))))"
proof -
  from assms(1) obtain t where t: "content_fits (finish_content b) t" "ix = opened t" by (rule indexedE)
  note rows = edges_content [OF t(1), of k, folded t(2)]
  have c: "c_inh (finish_content b) = sort_dedup (b_inherits b)" "c_childrev (finish_content b) = sort_dedup (b_childof b)"
      "c_calls (finish_content b) = sort_dedup (b_calls b)" by (simp_all add: finish_content_def)
  show "inherits_of ix k = Some (map snd (filter (\<lambda>(c, p). c = k) (sort_dedup (b_inherits b))))"
    "members ix k = Some (map snd (filter (\<lambda>(p, c). p = k) (sort_dedup (b_childof b))))"
    "calls_from ix k = Some (map snd (filter (\<lambda>(c, d, r). c = k) (sort_dedup (b_calls b))))"
    "inherited_by ix k = Some (sort_dedup (map fst (filter (\<lambda>(c, p). p = k) (b_inherits b))))"
    "called_by ix k = Some (sort_dedup (map (\<lambda>(c, d, r). (c, r)) (filter (\<lambda>(c, d, r). d = k) (b_calls b))))"
    by (simp_all only: rows c pair_range_table [OF sort_dedup_sorted assms(2)] call_range_table [OF sort_dedup_sorted assms(2)]
        pair_range_table [OF sorted_swap(1) assms(2)] call_range_table [OF sorted_swap(2) assms(2)] swapped_rows)
qed

lemma edges_indexed_max:
  assumes "indexed b ix"
  shows "inherits_of ix (- 1) = (if \<exists>(c, p) \<in> set (b_inherits b). c \<noteq> - 1 then None else Some [])"
    and "members ix (- 1) = (if \<exists>(p, c) \<in> set (b_childof b). p \<noteq> - 1 then None else Some [])"
    and "calls_from ix (- 1) = (if \<exists>(c, d, r) \<in> set (b_calls b). c \<noteq> - 1 then None else Some [])"
    and "inherited_by ix (- 1) = (if \<exists>(c, p) \<in> set (b_inherits b). p \<noteq> - 1 then None else Some [])"
    and "called_by ix (- 1) = (if \<exists>(c, d, r) \<in> set (b_calls b). d \<noteq> - 1 then None else Some [])"
proof -
  from assms(1) obtain t where t: "content_fits (finish_content b) t" "ix = opened t" by (rule indexedE)
  note rows = edges_content [OF t(1), of "- 1", folded t(2)]
  have c: "c_inh (finish_content b) = sort_dedup (b_inherits b)" "c_childrev (finish_content b) = sort_dedup (b_childof b)"
      "c_calls (finish_content b) = sort_dedup (b_calls b)" by (simp_all add: finish_content_def)
  have sets: "(\<exists>r \<in> set (sort_dedup (b_inherits b)). fst r \<noteq> - 1) = (\<exists>(c, p) \<in> set (b_inherits b). c \<noteq> - 1)"
      "(\<exists>r \<in> set (sort_dedup (b_childof b)). fst r \<noteq> - 1) = (\<exists>(p, c) \<in> set (b_childof b). p \<noteq> - 1)"
      "(\<exists>r \<in> set (sort_dedup (b_calls b)). fst r \<noteq> - 1) = (\<exists>(c, d, r) \<in> set (b_calls b). c \<noteq> - 1)"
      "(\<exists>r \<in> set (swap_inh (sort_dedup (b_inherits b))). fst r \<noteq> - 1) = (\<exists>(c, p) \<in> set (b_inherits b). p \<noteq> - 1)"
      "(\<exists>r \<in> set (swap_calls (sort_dedup (b_calls b))). fst r \<noteq> - 1) = (\<exists>(c, d, r) \<in> set (b_calls b). d \<noteq> - 1)"
    by (simp_all add: swap_inh_def swap_calls_def case_prod_unfold)
  show "inherits_of ix (- 1) = (if \<exists>(c, p) \<in> set (b_inherits b). c \<noteq> - 1 then None else Some [])"
    "members ix (- 1) = (if \<exists>(p, c) \<in> set (b_childof b). p \<noteq> - 1 then None else Some [])"
    "calls_from ix (- 1) = (if \<exists>(c, d, r) \<in> set (b_calls b). c \<noteq> - 1 then None else Some [])"
    "inherited_by ix (- 1) = (if \<exists>(c, p) \<in> set (b_inherits b). p \<noteq> - 1 then None else Some [])"
    "called_by ix (- 1) = (if \<exists>(c, d, r) \<in> set (b_calls b). d \<noteq> - 1 then None else Some [])"
    by (simp_all only: rows c pair_range_max [OF sort_dedup_sorted] call_range_max [OF sort_dedup_sorted]
        pair_range_max [OF sorted_swap(1)] call_range_max [OF sorted_swap(2)] sets)
qed

end
