(* ===== verification/S2_Dispatch.thy ===== *)
theory S2_Dispatch
  imports S2_Reach S2_Lookup
begin

text \<open>
  The dispatcher and the request loop (\<open>src/crates/scry2/src/server.rs\<close>: \<^verbatim>\<open>dispatch\<close>,
  \<^verbatim>\<open>handle_lines\<close>), and that every handler returns on an index written from a builder that does not
  use the symbol \<^verbatim>\<open>u64::MAX\<close>: the closures of the two traversals are instances of the
  \<open>logical_walks\<close> and \<open>keyed_walks\<close> interfaces.
\<close>

section \<open>Dispatch\<close>

fun dispatch :: "finder \<Rightarrow> nat \<Rightarrow> index \<Rightarrow> request \<Rightarrow> reply option" where
  "dispatch memmem cores ix Req_Stat =
     Some (Reply_Stat (xrefs_n (ix_hdr ix)) (syms_n (ix_hdr ix)) (files_n (ix_hdr ix)) (inh_n (ix_hdr ix))
       (calls_n (ix_hdr ix)))"
| "dispatch memmem cores ix (Req_Def name substr ignore_case limit in' not_in) =
     do_xrefs memmem cores ix name substr ignore_case limit (role_DECL, role_DEF) USIZE_MAX
       \<lparr> pf_in = in', pf_not_in = not_in, pf_def_in = None \<rparr> True"
| "dispatch memmem cores ix (Req_Type name substr limit) = do_type memmem cores ix name substr limit"
| "dispatch memmem cores ix (Req_Sig name substr limit) = do_sig memmem cores ix name substr limit"
| "dispatch memmem cores ix (Req_Members name substr limit) = do_members memmem cores ix name substr limit"
| "dispatch memmem cores ix (Req_Ref name substr ignore_case limit max_hits in' not_in def_in) =
     do_xrefs memmem cores ix name substr ignore_case (max limit SUBSTR_AGG_CAP) (0, 255) max_hits
       \<lparr> pf_in = in', pf_not_in = not_in, pf_def_in = def_in \<rparr> False"
| "dispatch memmem cores ix (Req_Callers name substr ignore_case limit max_hits in' not_in def_in) =
     do_xrefs memmem cores ix name substr ignore_case (max limit SUBSTR_AGG_CAP) (role_CALL, role_CALL) max_hits
       \<lparr> pf_in = in', pf_not_in = not_in, pf_def_in = def_in \<rparr> False"
| "dispatch memmem cores ix (Req_Super name substr limit in' not_in) =
     do_inh memmem cores ix name substr limit False
       \<lparr> pf_in = in', pf_not_in = not_in, pf_def_in = None \<rparr>"
| "dispatch memmem cores ix (Req_Sub name substr limit in' not_in) =
     do_inh memmem cores ix name substr limit True
       \<lparr> pf_in = in', pf_not_in = not_in, pf_def_in = None \<rparr>"
| "dispatch memmem cores ix (Req_Callgraph name direction depth max_syms substr root_limit in' not_in def_in) =
     do_callgraph memmem cores ix name direction depth max_syms substr root_limit
       \<lparr> pf_in = in', pf_not_in = not_in, pf_def_in = def_in \<rparr>"
| "dispatch memmem cores ix (Req_Inheritance name direction depth max_syms substr root_limit in' not_in def_in) =
     do_inheritance memmem cores ix name direction depth max_syms substr root_limit
       \<lparr> pf_in = in', pf_not_in = not_in, pf_def_in = def_in \<rparr>"

text \<open>The request loop on the lines of one connection. \<open>from_str\<close> and \<open>to_string\<close> are the JSON codec
  of \<^verbatim>\<open>serde_json\<close> on the trimmed line, as code points; the result is the lines written and whether
  the loop ended without an error. A line that is not UTF-8 makes \<^verbatim>\<open>read_line\<close> fail, a reply that
  cannot be encoded makes \<^verbatim>\<open>to_string\<close> fail. \<open>None\<close> is a panic.\<close>

fun handle_lines ::
    "unicode_tables \<Rightarrow> (nat list \<Rightarrow> bytes + request) \<Rightarrow> (reply \<Rightarrow> bytes option) \<Rightarrow> (request \<Rightarrow> reply option) \<Rightarrow>
     bytes list \<Rightarrow> (bytes list \<times> bool) option" where
  "handle_lines U from_str to_string disp [] = Some ([], True)"
| "handle_lines U from_str to_string disp (line # ls) =
     (if \<not> utf8_valid line then Some ([], False)
      else let trimmed = trim_chars U (utf8_chars line) in
        if trimmed = [] then handle_lines U from_str to_string disp ls
        else do {
          r \<leftarrow> (case from_str trimmed of
                  Inr req \<Rightarrow> disp req
                | Inl e \<Rightarrow> Some (Reply_Error (lit ''bad request: '' @ e)));
          (case to_string r of
             None \<Rightarrow> Some ([], False)
           | Some text \<Rightarrow> do {
               (out, ok) \<leftarrow> handle_lines U from_str to_string disp ls;
               Some (text # out, ok) })
        })"

section \<open>Lookups of the server\<close>

text \<open>No row of the builder mentions the symbol \<^verbatim>\<open>u64::MAX\<close>.\<close>

definition no_max :: "index_builder \<Rightarrow> bool" where
  "no_max b \<longleftrightarrow> - 1 \<notin> fst ` set (b_syms b) \<and> - 1 \<notin> fst ` set (b_aliases b) \<and>
     (\<forall>(c, d, r) \<in> set (b_calls b). c \<noteq> - 1 \<and> d \<noteq> - 1) \<and> (\<forall>(c, p) \<in> set (b_inherits b). c \<noteq> - 1 \<and> p \<noteq> - 1) \<and>
     (\<forall>(p, c) \<in> set (b_childof b). p \<noteq> - 1 \<and> c \<noteq> - 1)"

definition served :: "index_builder \<Rightarrow> index \<Rightarrow> bool" where
  "served b ix \<longleftrightarrow> indexed b ix \<and> no_max b \<and> names_small (name_entries (finish_content b))"

abbreviation syms_dom :: "u64 set" where
  "syms_dom \<equiv> - {- 1}"

definition unknown_name :: "u64 \<Rightarrow> bytes" where
  "unknown_name s = lit ''<sym '' @ hex_pad 16 (unat s) @ lit ''>''"

definition symbol_name :: "index_builder \<Rightarrow> u64 \<Rightarrow> bytes" where
  "symbol_name b s = (case map_of (b_syms b) s of Some (k, l, n) \<Rightarrow> clamp_blob_str n | None \<Rightarrow> unknown_name s)"

lemma xrefs_total: "indexed b ix \<Longrightarrow> \<exists>rows. xrefs ix s lo hi = Some rows"
proof -
  assume "indexed b ix"
  then obtain fl where "index_open fl = Inr ix" by (auto simp: indexed_def split: option.splits)
  from xrefs_in_bounds [OF this, of s lo hi] show ?thesis by blast
qed

lemma meta_indexed:
  assumes "indexed b ix"
  shows "name_of ix s = Some (symbol_name b s)"
    and "\<exists>k. kind_of ix s = Some k" and "\<exists>m. meta_or_unknown ix s = Some m"
  by (auto simp: name_of_def kind_of_def meta_or_unknown_def symbol_name_def unknown_name_def
      sym_meta_indexed [OF assms] split: option.split)

lemma first_path_total: "indexed b ix \<Longrightarrow> \<exists>p. first_path ix rows = Some p"
proof (induction ix rows rule: first_path.induct)
  case (2 ix s r fl off rest)
  then show ?case by (auto simp: strings_indexed [OF 2(2)] split: option.split)
qed simp

lemma locations_total:
  assumes "indexed b ix"
  shows "\<exists>p. sym_def_path ix s = Some p" and "\<exists>l. sym_def_loc ix s = Some l"
    and "\<exists>d. def_loc_str ix s = Some d" and "\<exists>n'. display_name ix s n = Some n'"
    and "\<exists>b. pass_sym ix filt s = Some b" and "\<exists>b. def_in_ok ix filt s = Some b"
proof -
  obtain rows where rows: "xrefs ix s role_DECL role_DEF = Some rows" using xrefs_total [OF assms] by blast
  show p: "\<exists>p. sym_def_path ix s = Some p"
    using first_path_total [OF assms, of rows] by (simp add: sym_def_path_def rows)
  show l: "\<exists>l. sym_def_loc ix s = Some l" by (simp add: sym_def_loc_def rows)
  show "\<exists>d. def_loc_str ix s = Some d" "\<exists>n'. display_name ix s n = Some n'"
    using l by (auto simp: def_loc_str_def display_name_def strings_indexed [OF assms] Let_def split: option.split)
  show "\<exists>b. pass_sym ix filt s = Some b" "\<exists>b. def_in_ok ix filt s = Some b"
    using p by (auto simp: pass_sym_def def_in_ok_def split: option.split)
qed

lemma named_not_max: "no_max b \<Longrightarrow> named_by b s q \<Longrightarrow> s \<noteq> - 1"
proof -
  assume nm: "no_max b" and "named_by b s q"
  then have "s \<in> fst ` set (b_syms b) \<union> fst ` set (b_aliases b)" by (auto simp: named_by_def intro: rev_image_eqI)
  with nm show "s \<noteq> - 1" by (auto simp only: no_max_def Un_iff)
qed

lemma symbol_edges:
  assumes "served b ix" and "s \<noteq> - 1"
  shows "\<exists>ts. inherits_of ix s = Some ts \<and> set ts \<subseteq> syms_dom" and "\<exists>ts. inherited_by ix s = Some ts \<and> set ts \<subseteq> syms_dom"
    and "\<exists>ts. members ix s = Some ts \<and> set ts \<subseteq> syms_dom"
    and "\<exists>ts. map_option (map fst) (calls_from ix s) = Some ts \<and> set ts \<subseteq> syms_dom"
    and "\<exists>ts. map_option (map fst) (called_by ix s) = Some ts \<and> set ts \<subseteq> syms_dom"
proof -
  have ix: "indexed b ix" and nm: "no_max b" using assms(1) by (simp_all add: served_def)
  show "\<exists>ts. inherits_of ix s = Some ts \<and> set ts \<subseteq> syms_dom" "\<exists>ts. inherited_by ix s = Some ts \<and> set ts \<subseteq> syms_dom"
    "\<exists>ts. members ix s = Some ts \<and> set ts \<subseteq> syms_dom"
    "\<exists>ts. map_option (map fst) (calls_from ix s) = Some ts \<and> set ts \<subseteq> syms_dom"
    "\<exists>ts. map_option (map fst) (called_by ix s) = Some ts \<and> set ts \<subseteq> syms_dom"
    using nm unfolding no_max_def by (auto simp: edges_indexed [OF ix assms(2)] image_iff)
qed

lemma substring_total:
  assumes "served b ix" and "memmem_ok memmem"
  shows "\<exists>out. syms_matching_substring_impl memmem cores ix needle limit ic = Some out \<and> set out \<subseteq> syms_dom"
proof -
  have small: "names_small (name_entries (finish_content b))" and nm: "no_max b" using assms(1) by (simp_all add: served_def)
  from assms(1) have "indexed b ix" by (simp add: served_def)
  then obtain t where t: "content_fits (finish_content b) t" "ix = opened t" by (rule indexedE)
  let ?m = "matching_syms ic needle (name_entries (finish_content b))"
  have m: "set ?m \<subseteq> syms_dom"
    using named_not_max [OF nm, of "- 1"] name_entries_finish [of _ _ b] by (auto simp: matching_syms_def)
  show ?thesis
  proof (cases "needle \<noteq> [] \<and> 0 < limit \<and> 3 \<le> length needle")
    case True
    then have "syms_matching_substring_impl memmem cores ix needle limit ic = Some (take limit (distinct_from {} ?m))"
      using substring_content [OF t(1) assms(2) small, of needle limit ic cores] by (simp add: t(2))
    moreover have "set (take limit (distinct_from {} ?m)) \<subseteq> set ?m"
      using set_take_subset [of limit "distinct_from {} ?m"] unfolding set_distinct_from by blast
    ultimately show ?thesis using m by (intro exI [of _ "take limit (distinct_from {} ?m)"]) blast
  next
    case False
    then show ?thesis
      using substring_linear_content [OF t(1) assms(2), of needle limit cores ic] m
      by (auto simp: syms_matching_substring_impl_def t(2))
  qed
qed

lemma resolve_total:
  assumes "served b ix" and "memmem_ok memmem"
  shows "\<exists>out. resolve_name memmem cores ix name substr cap = Some out \<and> set out \<subseteq> syms_dom"
    and "\<exists>out. syms_matching_substring_ci memmem cores ix name cap = Some out \<and> set out \<subseteq> syms_dom"
proof -
  have ix: "indexed b ix" and nm: "no_max b" using assms(1) by (simp_all add: served_def)
  obtain out where "syms_for_name ix name = Some out" "set out = {s. named_by b s name}"
    using syms_for_name_indexed [OF ix] by blast
  with named_not_max [OF nm] have "\<exists>out. syms_for_name ix name = Some out \<and> set out \<subseteq> syms_dom" by auto
  then show "\<exists>out. resolve_name memmem cores ix name substr cap = Some out \<and> set out \<subseteq> syms_dom"
    using substring_total [OF assms] by (auto simp: resolve_name_def syms_matching_substring_def)
  show "\<exists>out. syms_matching_substring_ci memmem cores ix name cap = Some out \<and> set out \<subseteq> syms_dom"
    using substring_total [OF assms] by (simp add: syms_matching_substring_ci_def)
qed

text \<open>The duplicates of a symbol: the symbols of the same canonical name, which include it when the
  index knows it.\<close>

lemma those_map_some: "(\<And>x. x \<in> set xs \<Longrightarrow> f x = Some (g x)) \<Longrightarrow> those (map f xs) = Some (map g xs)"
  by (induction xs) simp_all

lemma zip_map_filter: "map fst (filter (\<lambda>(s, k). k = key) (zip xs (map f xs))) = filter (\<lambda>s. f s = key) xs"
  by (induction xs) simp_all

lemma dup_syms_indexed:
  assumes "indexed b ix"
  shows "\<exists>cands. syms_for_name ix (symbol_name b rep) = Some cands \<and> set cands = {s. named_by b s (symbol_name b rep)} \<and>
    dup_syms ix rep = Some (let grp = filter (\<lambda>s. logical_key (symbol_name b s) = logical_key (symbol_name b rep)) cands
      in if rep \<in> set grp then grp else grp @ [rep])"
proof -
  obtain cands where c: "syms_for_name ix (symbol_name b rep) = Some cands" "set cands = {s. named_by b s (symbol_name b rep)}"
    using syms_for_name_indexed [OF assms] by blast
  have "those (map (\<lambda>s. map_option logical_key (name_of ix s)) cands) = Some (map (\<lambda>s. logical_key (symbol_name b s)) cands)"
    by (rule those_map_some) (simp add: meta_indexed [OF assms])
  then show ?thesis
    using c by (intro exI [of _ cands])
      (simp only: dup_syms_def meta_indexed(1) [OF assms] Let_def bind.bind_lunit zip_map_filter)
qed

lemma union_edges_total:
  assumes "served b ix" and "rep \<noteq> - 1" and "\<And>s. s \<noteq> - 1 \<Longrightarrow> \<exists>ts. edges s = Some ts \<and> set ts \<subseteq> syms_dom"
  shows "\<exists>ts. union_edges ix edges rep = Some ts \<and> set ts \<subseteq> syms_dom"
proof -
  have ix: "indexed b ix" and nm: "no_max b" using assms(1) by (simp_all add: served_def)
  obtain dups where d: "dup_syms ix rep = Some dups" "set dups \<subseteq> syms_dom"
  proof -
    obtain cands where c: "set cands = {s. named_by b s (symbol_name b rep)}"
      "dup_syms ix rep = Some (let grp = filter (\<lambda>s. logical_key (symbol_name b s) = logical_key (symbol_name b rep)) cands
        in if rep \<in> set grp then grp else grp @ [rep])"
      using dup_syms_indexed [OF ix, of rep] by blast
    then have "set cands \<subseteq> syms_dom" using named_not_max [OF nm] by auto
    then show ?thesis using that [OF c(2)] assms(2) by (auto simp: Let_def)
  qed
  have e: "edges s = Some (the (edges s)) \<and> set (the (edges s)) \<subseteq> syms_dom" if "s \<in> set dups" for s
  proof -
    have "s \<noteq> - 1" using d(2) that by blast
    from assms(3) [OF this] show ?thesis by auto
  qed
  then have "those (map edges dups) = Some (map (\<lambda>s. the (edges s)) dups)" by (intro those_map_some) blast
  moreover have "set (concat (map (\<lambda>s. the (edges s)) dups)) \<subseteq> syms_dom" using e by auto
  ultimately show ?thesis using d(1) by (simp add: union_edges_def)
qed

section \<open>The traversals as interfaces\<close>

text \<open>The parameters of a traversal: its index, filter, direction and budget.\<close>

type_synonym walk_args = "index \<times> path_filter \<times> bytes \<times> nat"

definition args_ok :: "walk_args \<Rightarrow> bool" where
  "args_ok = (\<lambda>(ix, _). \<exists>b. served b ix)"

interpretation callgraph: logical_walks args_ok "\<lambda>(ix, filt, dir, m). callgraph_walk ix filt dir m" syms_dom
proof
  fix p :: walk_args and s n
  assume "args_ok p" and s: "s \<in> syms_dom"
  then obtain b ix filt dir m where p: "p = (ix, filt, dir, m)" and sv: "served b ix" by (auto simp: args_ok_def)
  then have ix: "indexed b ix" by (simp add: served_def)
  let ?w = "(\<lambda>(ix, filt, dir, m). callgraph_walk ix filt dir m) p"
  show "w_name ?w s \<noteq> None \<and> w_kind ?w s \<noteq> None \<and> w_def ?w s \<noteq> None \<and> w_show ?w s n \<noteq> None \<and> w_pass ?w s \<noteq> None"
    using meta_indexed [OF ix, of s] locations_total [OF ix] by (simp add: p callgraph_walk_def)
  show "(\<exists>ts. w_up ?w s = Some ts \<and> set ts \<subseteq> syms_dom) \<and> (\<exists>ts. w_down ?w s = Some ts \<and> set ts \<subseteq> syms_dom)"
    using s union_edges_total [OF sv _ symbol_edges(4) [OF sv]] union_edges_total [OF sv _ symbol_edges(5) [OF sv]]
    by (simp add: p callgraph_walk_def callers_of_def callees_of_def)
qed

interpretation inheritance: logical_walks args_ok "\<lambda>(ix, filt, dir, m). inheritance_walk ix filt dir m" syms_dom
proof
  fix p :: walk_args and s n
  assume "args_ok p" and s: "s \<in> syms_dom"
  then obtain b ix filt dir m where p: "p = (ix, filt, dir, m)" and sv: "served b ix" by (auto simp: args_ok_def)
  then have ix: "indexed b ix" by (simp add: served_def)
  let ?w = "(\<lambda>(ix, filt, dir, m). inheritance_walk ix filt dir m) p"
  show "w_name ?w s \<noteq> None \<and> w_kind ?w s \<noteq> None \<and> w_def ?w s \<noteq> None \<and> w_show ?w s n \<noteq> None \<and> w_pass ?w s \<noteq> None"
    using meta_indexed [OF ix, of s] locations_total [OF ix] by (simp add: p inheritance_walk_def)
  show "(\<exists>ts. w_up ?w s = Some ts \<and> set ts \<subseteq> syms_dom) \<and> (\<exists>ts. w_down ?w s = Some ts \<and> set ts \<subseteq> syms_dom)"
    using s union_edges_total [OF sv _ symbol_edges(1) [OF sv]] union_edges_total [OF sv _ symbol_edges(2) [OF sv]]
    by (simp add: p inheritance_walk_def up_edges_def down_edges_def)
qed

text \<open>Names that are neither tickets nor the placeholder of an unknown symbol: then a logical key is
  the name itself, and the symbols of one key have the same duplicates and so the same edges.\<close>

definition readable :: "index_builder \<Rightarrow> bool" where
  "readable b \<longleftrightarrow> (\<forall>(s, k, l, n) \<in> set (b_syms b). \<not> starts_with n kythe_scheme \<and> \<not> starts_with n (lit ''<sym ''))"

lemma starts_with_clamp: "starts_with (clamp_blob_str n) p \<Longrightarrow> starts_with n p"
proof -
  assume "starts_with (clamp_blob_str n) p"
  moreover have "prefix (clamp_blob_str n) n" by (simp add: clamp_blob_str_def take_is_prefix)
  ultimately show ?thesis
    unfolding starts_with_def by (metis prefix_def prefix_order.trans take_is_prefix append_eq_conv_conj)
qed

lemma readable_name:
  assumes "readable b"
  shows "logical_key (symbol_name b s) = symbol_name b s"
    and "map_of (b_syms b) s \<noteq> None \<Longrightarrow> \<not> starts_with (symbol_name b s) (lit ''<sym '')"
    and "\<not> starts_with (symbol_name b s) kythe_scheme"
proof -
  have known: "\<not> starts_with (clamp_blob_str n) kythe_scheme \<and> \<not> starts_with (clamp_blob_str n) (lit ''<sym '')"
    if "map_of (b_syms b) s = Some (k, l, n)" for k l n
    using assms map_of_SomeD [OF that] starts_with_clamp by (auto simp: readable_def)
  have "\<not> starts_with (unknown_name s) kythe_scheme"
    by (simp add: unknown_name_def starts_with_def kythe_scheme_def lit_def)
  with known show "logical_key (symbol_name b s) = symbol_name b s"
    by (auto simp: symbol_name_def logical_key_def split: option.split)
  show "map_of (b_syms b) s \<noteq> None \<Longrightarrow> \<not> starts_with (symbol_name b s) (lit ''<sym '')"
    using known by (auto simp: symbol_name_def)
  show "\<not> starts_with (symbol_name b s) kythe_scheme"
    using known \<open>\<not> starts_with (unknown_name s) kythe_scheme\<close> by (auto simp: symbol_name_def split: option.split)
qed

lemma unat_hex_digit: "d < 16 \<Longrightarrow> unat (hex_digit d) = (if d < 10 then 48 + d else 87 + d)"
  by (simp add: hex_digit_def unat_of_nat_small del: of_nat_add)

lemma hex_digit_inject:
  assumes "a < 16" and "c < 16" and "hex_digit a = hex_digit c"
  shows "a = c"
  using arg_cong [OF assms(3), of unat] assms(1,2) by (auto simp: unat_hex_digit split: if_splits)

lemma hex_pad_inject: "hex_pad k m = hex_pad k n \<Longrightarrow> m < 16 ^ k \<Longrightarrow> n < 16 ^ k \<Longrightarrow> m = n"
proof (induction k arbitrary: m n)
  case (Suc k)
  then have "hex_pad k (m div 16) = hex_pad k (n div 16)" "hex_digit (m mod 16) = hex_digit (n mod 16)"
      "m div 16 < 16 ^ k" "n div 16 < 16 ^ k" by (simp_all add: div_less_iff_less_mult mult.commute)
  then have "m div 16 = n div 16" "m mod 16 = n mod 16"
    using Suc.IH hex_digit_inject [of "m mod 16" "n mod 16"] by simp_all
  then show ?case by (metis div_mult_mod_eq)
qed simp

lemma unknown_name_inject:
  assumes "unknown_name s = unknown_name t"
  shows "s = t"
proof -
  have "hex_pad 16 (unat s) = hex_pad 16 (unat t)" using assms by (simp add: unknown_name_def)
  moreover have "unat x < 16 ^ 16" for x :: u64 using unsigned_less [of x] by simp
  ultimately have "unat s = unat t" by (intro hex_pad_inject)
  then show ?thesis by (simp only: word_unat_eq_iff)
qed

lemma known_named: "indexed b ix \<Longrightarrow> map_of (b_syms b) s \<noteq> None \<Longrightarrow> named_by b s (symbol_name b s)"
  by (fastforce simp: named_by_def symbol_name_def dest: map_of_SomeD)

lemma dup_syms_same:
  assumes "indexed b ix" and "readable b" and "symbol_name b s = symbol_name b t"
  shows "dup_syms ix s = dup_syms ix t"
proof (cases "map_of (b_syms b) s = None \<or> map_of (b_syms b) t = None")
  case True
  have pre: "starts_with (unknown_name u) (lit ''<sym '')" for u by (simp add: unknown_name_def starts_with_def)
  have "map_of (b_syms b) s = None \<and> map_of (b_syms b) t = None"
    using True pre readable_name(2) [OF assms(2), of s] readable_name(2) [OF assms(2), of t] assms(3)
    by (metis option.case(1) symbol_name_def)
  then have "unknown_name s = unknown_name t" using assms(3) by (simp add: symbol_name_def)
  then show ?thesis using unknown_name_inject by blast
next
  case False
  then have "named_by b s (symbol_name b s)" "named_by b t (symbol_name b s)"
    using known_named [OF assms(1)] assms(3) by metis+
  then show ?thesis
    using dup_syms_indexed [OF assms(1), of s] dup_syms_indexed [OF assms(1), of t] assms(3)
    by (auto simp: Let_def)
qed

definition readable_args :: "walk_args \<Rightarrow> bool" where
  "readable_args = (\<lambda>(ix, _). \<exists>b. served b ix \<and> readable b)"

lemma readable_args_ok: "readable_args p \<Longrightarrow> args_ok p"
  by (auto simp: readable_args_def args_ok_def)

lemma union_edges_same:
  assumes "served b ix" and "readable b"
    and "map_option logical_key (name_of ix s) = map_option logical_key (name_of ix t)"
  shows "union_edges ix edges s = union_edges ix edges t"
proof -
  have ix: "indexed b ix" using assms(1) by (simp add: served_def)
  have "symbol_name b s = symbol_name b t"
    using assms(3) by (simp add: meta_indexed(1) [OF ix] readable_name(1) [OF assms(2)])
  from dup_syms_same [OF ix assms(2) this] show ?thesis by (simp only: union_edges_def)
qed

interpretation callgraph_keyed: keyed_walks readable_args "\<lambda>(ix, filt, dir, m). callgraph_walk ix filt dir m" syms_dom
proof
  fix p s t dir u
  assume p: "readable_args p"
    and key: "key_of ((\<lambda>(ix, filt, dir, m). callgraph_walk ix filt dir m) p) s = key_of ((\<lambda>(ix, filt, dir, m). callgraph_walk ix filt dir m) p) t"
  from p obtain b ix filt d m where "p = (ix, filt, d, m)" "served b ix" "readable b" by (auto simp: readable_args_def)
  with key union_edges_same [of b ix s t]
  show "edge ((\<lambda>(ix, filt, dir, m). callgraph_walk ix filt dir m) p) dir s u \<longleftrightarrow>
      edge ((\<lambda>(ix, filt, dir, m). callgraph_walk ix filt dir m) p) dir t u"
    by (simp add: edge_def key_of_def callgraph_walk_def callers_of_def callees_of_def)
qed (use callgraph.lookups callgraph.closed readable_args_ok in blast)+

interpretation inheritance_keyed: keyed_walks readable_args "\<lambda>(ix, filt, dir, m). inheritance_walk ix filt dir m" syms_dom
proof
  fix p s t dir u
  assume p: "readable_args p"
    and key: "key_of ((\<lambda>(ix, filt, dir, m). inheritance_walk ix filt dir m) p) s = key_of ((\<lambda>(ix, filt, dir, m). inheritance_walk ix filt dir m) p) t"
  from p obtain b ix filt d m where "p = (ix, filt, d, m)" "served b ix" "readable b" by (auto simp: readable_args_def)
  with key union_edges_same [of b ix s t]
  show "edge ((\<lambda>(ix, filt, dir, m). inheritance_walk ix filt dir m) p) dir s u \<longleftrightarrow>
      edge ((\<lambda>(ix, filt, dir, m). inheritance_walk ix filt dir m) p) dir t u"
    by (simp add: edge_def key_of_def inheritance_walk_def up_edges_def down_edges_def)
qed (use inheritance.lookups inheritance.closed readable_args_ok in blast)+

end
