(* ===== verification/S2_Handlers.thy ===== *)
theory S2_Handlers
  imports S2_Dispatch
begin

text \<open>
  What the handlers compute on an index written from a builder: the cross-reference handler collects
  a prefix of the passing rows of the selected symbols, the type, signature and member handlers a
  prefix of the distinct renderings, and every handler returns.
\<close>

section \<open>Cross references\<close>

definition row_path :: "index_builder \<Rightarrow> xref_row \<Rightarrow> bytes" where
  "row_path b = (\<lambda>(s, r, f, off). case map_of (b_files b) f of Some p \<Rightarrow> clamp_blob_str p | None \<Rightarrow> lit ''?'')"

definition row_hit :: "index_builder \<Rightarrow> xref_row \<Rightarrow> xref_hit" where
  "row_hit b = (\<lambda>(s, r, f, off). \<lparr> xh_role = role_str r, xh_file = row_path b (s, r, f, off), xh_off = off \<rparr>)"

text \<open>The hits of a list of rows, and those of one symbol in a role range.\<close>

definition row_hits :: "index_builder \<Rightarrow> path_filter \<Rightarrow> xref_row list \<Rightarrow> xref_hit list" where
  "row_hits b filt xs = map (row_hit b) (filter (\<lambda>x. passes filt (row_path b x)) xs)"

lemma row_hits_simps [simp]:
  "row_hits b filt [] = []"
  "row_hits b filt (x # xs) = (if passes filt (row_path b x) then row_hit b x # row_hits b filt xs else row_hits b filt xs)"
  by (simp_all add: row_hits_def)

lemma xref_hits_eq:
  assumes "indexed b ix"
  shows "xref_hits ix filt m xs rows tot =
    (let k = max 1 (m - tot); hs = row_hits b filt xs
     in Some (rows @ take k hs, tot + length (take k hs), k \<le> length hs))"
proof (induction xs arbitrary: rows tot)
  case (Cons x xs)
  obtain s r f off where x: "x = (s, r, f, off)" by (cases x)
  have step: "xref_hits ix filt m (x # xs) rows tot =
      (if \<not> passes filt (row_path b x) then xref_hits ix filt m xs rows tot
       else if m \<le> Suc tot then Some (rows @ [row_hit b x], Suc tot, True)
       else xref_hits ix filt m xs (rows @ [row_hit b x]) (Suc tot))"
    by (cases "map_of (b_files b) f") (simp_all add: x strings_indexed [OF assms] row_hit_def row_path_def Let_def)
  show ?case
  proof (cases "passes filt (row_path b x) \<and> \<not> m \<le> Suc tot")
    case True
    then have "max 1 (m - tot) = Suc (max 1 (m - Suc tot))" by (auto simp: max_def)
    with True Cons.IH [of "rows @ [row_hit b x]" "Suc tot"] show ?thesis
      unfolding step by (simp add: Let_def)
  next
    case False
    then show ?thesis unfolding step by (auto simp: Cons.IH Let_def max_def le_Suc_eq Suc_le_eq)
  qed
qed (simp add: Let_def)

definition symbol_hits :: "index_builder \<Rightarrow> index \<Rightarrow> u8 \<Rightarrow> u8 \<Rightarrow> path_filter \<Rightarrow> u64 \<Rightarrow> xref_hit list" where
  "symbol_hits b ix lo hi filt s = row_hits b filt (the (xrefs ix s lo hi))"

definition selected :: "index \<Rightarrow> path_filter \<Rightarrow> u64 list \<Rightarrow> u64 list" where
  "selected ix filt ss = filter (\<lambda>s. def_in_ok ix filt s = Some True) ss"

lemma symbol_header_total: "indexed b ix \<Longrightarrow> \<exists>g. symbol_header ix wt s = Some g \<and> sg_rows g = []"
  using meta_indexed(3) [of b ix s] strings_indexed(2,3) [of b ix] by (auto simp: symbol_header_def)

text \<open>What the group loop adds: the first \<open>k\<close> hits of the selected symbols, cut into one non-empty
  group per symbol, in order.\<close>

definition group_prefix ::
    "nat \<Rightarrow> (u64 \<Rightarrow> symbol_group) \<Rightarrow> (u64 \<Rightarrow> xref_hit list) \<Rightarrow> u64 list \<Rightarrow> symbol_group list \<Rightarrow> bool" where
  "group_prefix k hdr hits ss gs \<longleftrightarrow>
     concat (map sg_rows gs) = take k (concat (map hits ss)) \<and> (\<forall>g \<in> set gs. sg_rows g \<noteq> []) \<and>
     map (\<lambda>g. g\<lparr> sg_rows := [] \<rparr>) gs = take (length gs) (map hdr (filter (\<lambda>s. hits s \<noteq> []) ss))"

lemma group_prefix_Cons:
  assumes "group_prefix (k - length (hits s)) hdr hits ss gs" and "length (hits s) < k" and "sg_rows (hdr s) = []"
  shows "group_prefix k hdr hits (s # ss) (if hits s \<noteq> [] then (hdr s)\<lparr> sg_rows := hits s \<rparr> # gs else gs)"
  using assms by (auto simp: group_prefix_def)

lemma group_prefix_stop:
  assumes "0 < k" and "k \<le> length (hits s)" and "sg_rows (hdr s) = []"
  shows "group_prefix k hdr hits (s # ss) [(hdr s)\<lparr> sg_rows := take k (hits s) \<rparr>]"
  using assms by (auto simp: group_prefix_def)

lemma xref_groups_eq:
  assumes "indexed b ix"
  shows "\<exists>gs. xref_groups ix lo hi m filt wt ss groups tot tr =
      Some (groups @ gs, tot + length (concat (map sg_rows gs)),
        tr \<or> max 1 (m - tot) \<le> length (concat (map (symbol_hits b ix lo hi filt) (selected ix filt ss)))) \<and>
    group_prefix (max 1 (m - tot)) (\<lambda>s. the (symbol_header ix wt s)) (symbol_hits b ix lo hi filt) (selected ix filt ss) gs"
proof (induction ss arbitrary: groups tot)
  case Nil
  show ?case by (intro exI [of _ "[]"]) (simp add: selected_def group_prefix_def)
next
  case (Cons s ss)
  define hits where "hits = symbol_hits b ix lo hi filt"
  define hdr where "hdr = (\<lambda>s. the (symbol_header ix wt s))"
  define k where "k = max 1 (m - tot)"
  have k0: "0 < k" by (simp add: k_def)
  obtain ok where ok: "def_in_ok ix filt s = Some ok" using locations_total(6) [OF assms] by blast
  have g: "symbol_header ix wt s = Some (hdr s)" "sg_rows (hdr s) = []"
    using symbol_header_total [OF assms, of wt s] by (auto simp: hdr_def)
  obtain rows where rows: "xrefs ix s lo hi = Some rows" using xrefs_total [OF assms] by blast
  have xh: "xref_hits ix filt m rows [] tot = Some (take k (hits s), tot + length (take k (hits s)), k \<le> length (hits s))"
    by (simp add: xref_hits_eq [OF assms] Let_def hits_def symbol_hits_def rows k_def)
  show ?case
  proof (cases ok)
    case False
    then show ?thesis using Cons.IH ok by (simp add: selected_def)
  next
    case True
    then have sel: "selected ix filt (s # ss) = s # selected ix filt ss" using ok by (simp add: selected_def)
    show ?thesis unfolding k_def [symmetric] hits_def [symmetric] hdr_def [symmetric] sel
    proof (cases "k \<le> length (hits s)")
      case stop: True
      then show "\<exists>gs. xref_groups ix lo hi m filt wt (s # ss) groups tot tr =
          Some (groups @ gs, tot + length (concat (map sg_rows gs)), tr \<or> k \<le> length (concat (map hits (s # selected ix filt ss)))) \<and>
          group_prefix k hdr hits (s # selected ix filt ss) gs"
        using ok True g(1) rows xh group_prefix_stop [of k hits s hdr] k0 stop g(2)
        by (intro exI [of _ "[(hdr s)\<lparr> sg_rows := take k (hits s) \<rparr>]"]) simp
    next
      case go: False
      let ?new = "if hits s \<noteq> [] then [(hdr s)\<lparr> sg_rows := hits s \<rparr>] else []"
      let ?tot = "tot + length (hits s)"
      have k: "max 1 (m - ?tot) = k - length (hits s)" using go by (auto simp: k_def)
      obtain gs where gs: "xref_groups ix lo hi m filt wt ss (groups @ ?new) ?tot tr =
          Some ((groups @ ?new) @ gs, ?tot + length (concat (map sg_rows gs)),
            tr \<or> k - length (hits s) \<le> length (concat (map hits (selected ix filt ss))))"
        and pre: "group_prefix (k - length (hits s)) hdr hits (selected ix filt ss) gs"
        using Cons.IH [of "groups @ ?new" ?tot] unfolding k hits_def [symmetric] hdr_def [symmetric] by blast
      have "xref_groups ix lo hi m filt wt (s # ss) groups tot tr = xref_groups ix lo hi m filt wt ss (groups @ ?new) ?tot tr"
        using ok True g(1) rows xh go by simp
      then have "xref_groups ix lo hi m filt wt (s # ss) groups tot tr =
          Some (groups @ (?new @ gs), tot + length (concat (map sg_rows (?new @ gs))),
            tr \<or> k \<le> length (concat (map hits (s # selected ix filt ss))))"
        using gs go by auto
      moreover have "group_prefix k hdr hits (s # selected ix filt ss) (?new @ gs)"
        using group_prefix_Cons [of k hits s hdr "selected ix filt ss" gs] pre go g(2) by (cases "hits s = []") simp_all
      ultimately show "\<exists>gs. xref_groups ix lo hi m filt wt (s # ss) groups tot tr =
          Some (groups @ gs, tot + length (concat (map sg_rows gs)), tr \<or> k \<le> length (concat (map hits (s # selected ix filt ss)))) \<and>
          group_prefix k hdr hits (s # selected ix filt ss) gs" by blast
    qed
  qed
qed

section \<open>Types, signatures and members\<close>

text \<open>The first item of every key, in order, skipping the keys in \<open>S\<close>.\<close>

fun first_by_key :: "'k set \<Rightarrow> ('k \<times> 'h) list \<Rightarrow> 'h list" where
  "first_by_key S [] = []"
| "first_by_key S ((k, h) # xs) = (if k \<in> S then first_by_key S xs else h # first_by_key (insert k S) xs)"

lemma first_by_key_distinct:
  assumes "\<forall>(k, h) \<in> set xs. f h = k"
  shows "distinct (map f (first_by_key S xs)) \<and> set (map f (first_by_key S xs)) = fst ` set xs - S \<and>
    set (first_by_key S xs) \<subseteq> snd ` set xs"
  using assms by (induction S xs rule: first_by_key.induct) auto

text \<open>The metadata of a symbol as the handlers read it, and the items they render.\<close>

definition meta_of :: "index_builder \<Rightarrow> u64 \<Rightarrow> bytes \<times> u8 \<times> u8" where
  "meta_of b s = (case map_of (b_syms b) s of Some (k, l, n) \<Rightarrow> (clamp_blob_str n, k, l) | None \<Rightarrow> (lit ''?'', 0, 0))"

lemma meta_or_unknown_eq: "indexed b ix \<Longrightarrow> meta_or_unknown ix s = Some (meta_of b s)"
  by (auto simp: meta_or_unknown_def meta_of_def sym_meta_indexed split: option.split)

definition typed_items :: "index_builder \<Rightarrow> u64 list \<Rightarrow> ((bytes \<times> bytes) \<times> type_hit) list" where
  "typed_items b ss = List.map_filter (\<lambda>s. map_option (\<lambda>t. case meta_of b s of (n, k, l) \<Rightarrow>
     ((logical_key n, clamp_blob_str t), \<lparr> th_name = n, th_kind = kind_str k, th_lang = lang_str l, th_typed = clamp_blob_str t \<rparr>))
     (least_string (b_typed b) s)) ss"

definition sig_items :: "index_builder \<Rightarrow> u64 list \<Rightarrow> ((bytes \<times> bytes) \<times> sig_hit) list" where
  "sig_items b ss = List.map_filter (\<lambda>s. map_option (\<lambda>t. case meta_of b s of (n, k, l) \<Rightarrow>
     ((logical_key n, clamp_blob_str t), \<lparr> sh_name = n, sh_kind = kind_str k, sh_lang = lang_str l, sh_sig = clamp_blob_str t \<rparr>))
     (least_string (b_sig b) s)) ss"

definition member_item :: "index_builder \<Rightarrow> u64 \<Rightarrow> (bytes \<times> bytes \<times> bytes option) \<times> member_hit" where
  "member_item b s = (case meta_of b s of (n, k, l) \<Rightarrow>
     let sg = map_option clamp_blob_str (least_string (b_sig b) s)
     in ((logical_key n, kind_str k, sg), \<lparr> mh_name = n, mh_kind = kind_str k, mh_lang = lang_str l, mh_sig = sg \<rparr>))"

lemma map_filter_Cons: "List.map_filter f (x # xs) = (case f x of None \<Rightarrow> List.map_filter f xs | Some y \<Rightarrow> y # List.map_filter f xs)"
  by (simp add: List.map_filter_def split: option.split)

text \<open>How many more hits a loop that stops at \<open>limit\<close> takes after \<open>n\<close>.\<close>

definition room :: "nat \<Rightarrow> nat \<Rightarrow> nat" where
  "room limit n = max 1 (limit - n)"

lemma room_step: "take (room limit n) (x # xs) = (if limit \<le> Suc n then [x] else x # take (room limit (Suc n)) xs)"
proof (cases "limit \<le> Suc n")
  case False
  then have "room limit n = Suc (room limit (Suc n))" by (auto simp: room_def max_def)
  with False show ?thesis by simp
next
  case True
  then have "room limit n = 1" by (auto simp: room_def)
  with True show ?thesis by simp
qed

lemma type_hits_eq:
  assumes "indexed b ix"
  shows "type_hits ix limit ss seen hits = Some (hits @ take (room limit (length hits)) (first_by_key seen (typed_items b ss)))"
proof (induction ss arbitrary: seen hits)
  case Nil
  show ?case by (simp add: typed_items_def List.map_filter_simps)
next
  case (Cons s ss)
  note IH = Cons.IH [unfolded typed_items_def]
  obtain n k l where m: "meta_of b s = (n, k, l)" by (cases "meta_of b s")
  show ?case
    by (cases "least_string (b_typed b) s")
      (simp_all add: strings_indexed [OF assms] meta_or_unknown_eq [OF assms] m IH typed_items_def map_filter_Cons Let_def
        room_step del: take_Suc_Cons)
qed

lemma sig_hits_eq:
  assumes "indexed b ix"
  shows "sig_hits ix limit ss seen hits = Some (hits @ take (room limit (length hits)) (first_by_key seen (sig_items b ss)))"
proof (induction ss arbitrary: seen hits)
  case Nil
  show ?case by (simp add: sig_items_def List.map_filter_simps)
next
  case (Cons s ss)
  note IH = Cons.IH [unfolded sig_items_def]
  obtain n k l where m: "meta_of b s = (n, k, l)" by (cases "meta_of b s")
  show ?case
    by (cases "least_string (b_sig b) s")
      (simp_all add: strings_indexed [OF assms] meta_or_unknown_eq [OF assms] m IH sig_items_def map_filter_Cons Let_def
        room_step del: take_Suc_Cons)
qed

text \<open>The member loops: a child seen before has its rendering recorded, so \<^verbatim>\<open>seen\<close> never changes the
  result.\<close>

definition members_ok :: "index_builder \<Rightarrow> member_state \<Rightarrow> bool" where
  "members_ok b st \<longleftrightarrow> (\<forall>c \<in> ms_seen st. fst (member_item b c) \<in> ms_rendered st)"

lemma member_hits_eq:
  assumes "indexed b ix" and "members_ok b st"
  shows "\<exists>st' stop. member_hits ix limit cs st = Some (st', stop) \<and> members_ok b st' \<and>
    (let new = first_by_key (ms_rendered st) (map (member_item b) cs); k = room limit (length (ms_members st))
     in ms_members st' = ms_members st @ take k new \<and> (stop \<longleftrightarrow> k \<le> length new) \<and>
        (\<not> stop \<longrightarrow> ms_rendered st' = ms_rendered st \<union> fst ` member_item b ` set cs))"
  using assms(2)
proof (induction cs arbitrary: st)
  case Nil
  then show ?case by (auto simp: room_def)
next
  case (Cons c cs)
  obtain n k l where m: "meta_of b c = (n, k, l)" by (cases "meta_of b c")
  define sg where "sg = map_option clamp_blob_str (least_string (b_sig b) c)"
  define key where "key = (logical_key n, kind_str k, sg)"
  define hit where "hit = \<lparr> mh_name = n, mh_kind = kind_str k, mh_lang = lang_str l, mh_sig = sg \<rparr>"
  have item: "member_item b c = (key, hit)" by (simp add: member_item_def m key_def hit_def sg_def Let_def)
  define st1 where "st1 = st\<lparr> ms_seen := insert c (ms_seen st) \<rparr>"
  define st2 where "st2 = st1\<lparr> ms_rendered := insert key (ms_rendered st1), ms_members := ms_members st1 @ [hit] \<rparr>"
  have step: "member_hits ix limit (c # cs) st =
      (if c \<in> ms_seen st then member_hits ix limit cs st
       else if key \<in> ms_rendered st1 then member_hits ix limit cs st1
       else if limit \<le> length (ms_members st2) then Some (st2, True) else member_hits ix limit cs st2)"
    by (simp add: meta_or_unknown_eq [OF assms(1)] strings_indexed [OF assms(1)] m Let_def st1_def st2_def key_def hit_def sg_def)
  consider "c \<in> ms_seen st" | "c \<notin> ms_seen st" "key \<in> ms_rendered st" | "c \<notin> ms_seen st" "key \<notin> ms_rendered st" by blast
  then show ?case
  proof cases
    case 1
    then have "key \<in> ms_rendered st" using Cons.prems item by (auto simp: members_ok_def)
    with 1 Cons.IH [OF Cons.prems] show ?thesis unfolding step by (simp add: item Let_def insert_absorb)
  next
    case 2
    then have "members_ok b st1" using Cons.prems item by (auto simp: members_ok_def st1_def)
    from Cons.IH [OF this] 2 show ?thesis unfolding step by (simp add: item Let_def st1_def insert_absorb)
  next
    case 3
    then have ok2: "members_ok b st2" using Cons.prems item by (auto simp: members_ok_def st1_def st2_def)
    show ?thesis
    proof (cases "limit \<le> length (ms_members st2)")
      case True
      then have "room limit (length (ms_members st)) = 1" by (auto simp: room_def st2_def st1_def)
      with True 3 ok2 show ?thesis unfolding step by (auto simp: item Let_def st1_def st2_def)
    next
      case False
      then have "room limit (length (ms_members st)) = Suc (room limit (length (ms_members st2)))"
        by (auto simp: room_def st2_def st1_def max_def)
      with Cons.IH [OF ok2] False 3 show ?thesis unfolding step by (simp add: item Let_def st1_def st2_def)
    qed
  qed
qed

text \<open>The containers among the resolved symbols, with their members.\<close>

definition containers :: "index_builder \<Rightarrow> u64 list \<Rightarrow> u64 list" where
  "containers b ss = filter (\<lambda>s. is_container (fst (snd (meta_of b s)))) ss"

lemma first_by_key_append: "first_by_key S (xs @ ys) = first_by_key S xs @ first_by_key (S \<union> fst ` set xs) ys"
  by (induction S xs rule: first_by_key.induct) (auto simp: insert_absorb)

lemma container_hits_eq:
  assumes "served b ix" and "members_ok b st" and "set ss \<subseteq> syms_dom"
  shows "\<exists>container' st' stop. container_hits ix limit ss container st = Some (container', st', stop) \<and>
    (let new = first_by_key (ms_rendered st) (map (member_item b) (concat (map (\<lambda>s. the (members ix s)) (containers b ss))));
         k = room limit (length (ms_members st))
     in ms_members st' = ms_members st @ take k new \<and> (stop \<longleftrightarrow> k \<le> length new))"
  using assms(2,3)
proof (induction ss arbitrary: container st)
  case Nil
  then show ?case by (auto simp: containers_def room_def)
next
  case (Cons s ss)
  have ix: "indexed b ix" using assms(1) by (simp add: served_def)
  obtain n k l where m: "meta_of b s = (n, k, l)" by (cases "meta_of b s")
  show ?case
  proof (cases "is_container k")
    case False
    then have "container_hits ix limit (s # ss) container st = container_hits ix limit ss container st"
      "containers b (s # ss) = containers b ss"
      by (simp_all add: meta_or_unknown_eq [OF ix] m containers_def)
    with Cons.IH [OF Cons.prems(1)] Cons.prems(2) show ?thesis by simp
  next
    case True
    have "s \<noteq> - 1" using Cons.prems(2) by auto
    then obtain cs where cs: "members ix s = Some cs" using symbol_edges(3) [OF assms(1)] by blast
    define new where "new = first_by_key (ms_rendered st) (map (member_item b) cs)"
    obtain st1 stop where st1: "member_hits ix limit cs st = Some (st1, stop)" "members_ok b st1"
        "ms_members st1 = ms_members st @ take (room limit (length (ms_members st))) new"
        "stop \<longleftrightarrow> room limit (length (ms_members st)) \<le> length new"
        "\<not> stop \<longrightarrow> ms_rendered st1 = ms_rendered st \<union> fst ` member_item b ` set cs"
      using member_hits_eq [OF ix Cons.prems(1), of limit cs] by (auto simp: Let_def new_def)
    have conts: "containers b (s # ss) = s # containers b ss" using True by (simp add: containers_def m)
    have step: "container_hits ix limit (s # ss) container st =
        (if stop then Some (n, st1, True) else container_hits ix limit ss n st1)"
      using True st1(1) cs by (simp add: meta_or_unknown_eq [OF ix] m)
    define rest where "rest = map (member_item b) (concat (map (\<lambda>s. the (members ix s)) (containers b ss)))"
    have all: "first_by_key (ms_rendered st) (map (member_item b) (concat (map (\<lambda>s. the (members ix s)) (containers b (s # ss))))) =
        new @ first_by_key (ms_rendered st \<union> fst ` member_item b ` set cs) rest"
      by (simp add: conts cs first_by_key_append new_def rest_def)
    show ?thesis
    proof (cases stop)
      case True
      with st1 show ?thesis unfolding step all by (auto simp: Let_def)
    next
      case False
      then have len: "length new < room limit (length (ms_members st))" using st1(4) by simp
      then have r: "room limit (length (ms_members st) + length new) = room limit (length (ms_members st)) - length new"
        by (auto simp: room_def)
      from Cons.IH [OF st1(2), of n] Cons.prems(2) obtain c' st' stop' where
        rec: "container_hits ix limit ss n st1 = Some (c', st', stop')"
          "ms_members st' = ms_members st1 @ take (room limit (length (ms_members st1))) (first_by_key (ms_rendered st1) rest)"
          "stop' \<longleftrightarrow> room limit (length (ms_members st1)) \<le> length (first_by_key (ms_rendered st1) rest)"
        by (auto simp: Let_def rest_def)
      have "ms_rendered st1 = ms_rendered st \<union> fst ` member_item b ` set cs" using False st1(5) by simp
      with rec(2,3) st1(3) len show ?thesis
        unfolding step all using False rec(1) by (auto simp: Let_def r)
    qed
  qed
qed

section \<open>Supertypes and subtypes\<close>

definition passing :: "index \<Rightarrow> path_filter \<Rightarrow> u64 \<Rightarrow> bool" where
  "passing ix filt r \<longleftrightarrow> pass_sym ix filt r = Some True"

abbreviation symbol_key :: "index_builder \<Rightarrow> u64 \<Rightarrow> bytes" where
  "symbol_key b s \<equiv> logical_key (symbol_name b s)"

text \<open>\<open>groups\<close> sorts the symbols of \<open>S\<close> by logical key, \<open>order\<close> lists the keys.\<close>

definition grouped :: "index_builder \<Rightarrow> u64 set \<Rightarrow> bytes list \<Rightarrow> (bytes \<rightharpoonup> u64 list) \<Rightarrow> bool" where
  "grouped b S order groups \<longleftrightarrow> distinct order \<and> set order = symbol_key b ` S \<and> dom groups = set order \<and>
     (\<forall>lk ms. groups lk = Some ms \<longrightarrow> set ms = {r \<in> S. symbol_key b r = lk})"

definition inh_ok :: "index_builder \<Rightarrow> (u64 \<Rightarrow> bool) \<Rightarrow> inh_state \<Rightarrow> bool" where
  "inh_ok b P st \<longleftrightarrow> grouped b {r \<in> is_seen st. P r} (is_order st) (is_groups st)"

lemma grouped_new:
  assumes "grouped b S order groups" and "groups (symbol_key b r) = None"
  shows "grouped b (insert r S) (order @ [symbol_key b r]) (groups(symbol_key b r \<mapsto> [r]))"
proof -
  have new: "symbol_key b r \<notin> symbol_key b ` S" using assms by (auto simp: grouped_def)
  then have "{x \<in> insert r S. symbol_key b x = symbol_key b r} = {r}" by (auto simp: image_iff)
  with assms new show ?thesis unfolding grouped_def by (auto split: if_splits)
qed

lemma grouped_old:
  assumes "grouped b S order groups" and "groups (symbol_key b r) = Some ms"
  shows "grouped b (insert r S) order (groups(symbol_key b r \<mapsto> ms @ [r]))"
proof -
  have "symbol_key b r \<in> set order" using assms by (auto simp: grouped_def)
  with assms show ?thesis unfolding grouped_def by (auto split: if_splits)
qed

lemma insert_passing:
  "P r \<Longrightarrow> {x \<in> insert r S. P x} = insert r {x \<in> S. P x}" "\<not> P r \<Longrightarrow> {x \<in> insert r S. P x} = {x \<in> S. P x}"
  by auto

lemma inh_ok_skip: "inh_ok b P st \<Longrightarrow> \<not> P r \<Longrightarrow> inh_ok b P (st\<lparr> is_seen := insert r (is_seen st) \<rparr>)"
  by (simp add: inh_ok_def insert_passing del: insert_iff)

lemma inh_ok_add:
  assumes "inh_ok b P st" and "P r" and "lk = symbol_key b r" and "st1 = st\<lparr> is_seen := insert r (is_seen st) \<rparr>"
  shows "inh_ok b P (case is_groups st1 lk of
      None \<Rightarrow> st1\<lparr> is_groups := (is_groups st1)(lk \<mapsto> [r]), is_order := is_order st1 @ [lk] \<rparr>
    | Some ms \<Rightarrow> st1\<lparr> is_groups := (is_groups st1)(lk \<mapsto> ms @ [r]) \<rparr>)"
proof (cases "is_groups st1 lk")
  case None
  then show ?thesis
    using grouped_new [of b "{r \<in> is_seen st. P r}" "is_order st" "is_groups st" r] assms
    by (simp add: inh_ok_def insert_passing del: insert_iff)
next
  case (Some ms)
  then show ?thesis
    using grouped_old [of b "{r \<in> is_seen st. P r}" "is_order st" "is_groups st" r ms] assms
    by (simp add: inh_ok_def insert_passing del: insert_iff)
qed

lemma inh_related_eq:
  assumes "indexed b ix" and "inh_ok b (passing ix filt) st"
  shows "\<exists>st'. inh_related ix filt rs st = Some st' \<and> inh_ok b (passing ix filt) st' \<and> is_seen st' = is_seen st \<union> set rs"
  using assms(2)
proof (induction rs arbitrary: st)
  case (Cons r rs)
  show ?case
  proof (cases "r \<in> is_seen st")
    case True
    then show ?thesis using Cons.IH [OF Cons.prems] by (simp add: insert_absorb)
  next
    case False
    obtain p where p: "pass_sym ix filt r = Some p" using locations_total(5) [OF assms(1)] by blast
    have pass_iff: "passing ix filt r \<longleftrightarrow> p" by (simp add: passing_def p)
    from p have ok: "(if has_in_out filt then map_option (\<lambda>p. passes filt (case p of Some p \<Rightarrow> p | None \<Rightarrow> [])) (sym_def_path ix r)
        else Some True) = Some p" by (auto simp: pass_sym_def)
    define st1 where "st1 = st\<lparr> is_seen := insert r (is_seen st) \<rparr>"
    define st2 where "st2 = (case is_groups st1 (symbol_key b r) of
        None \<Rightarrow> st1\<lparr> is_groups := (is_groups st1)(symbol_key b r \<mapsto> [r]), is_order := is_order st1 @ [symbol_key b r] \<rparr>
      | Some ms \<Rightarrow> st1\<lparr> is_groups := (is_groups st1)(symbol_key b r \<mapsto> ms @ [r]) \<rparr>)"
    have step: "inh_related ix filt (r # rs) st = inh_related ix filt rs (if p then st2 else st1)"
      using False ok by (simp add: meta_indexed(1) [OF assms(1)] Let_def flip: st1_def st2_def)
    have "inh_ok b (passing ix filt) (if p then st2 else st1)"
      using inh_ok_skip [OF Cons.prems, of r, folded st1_def] inh_ok_add [OF Cons.prems _ refl st1_def, folded st2_def]
        pass_iff by simp
    moreover have "is_seen (if p then st2 else st1) = insert r (is_seen st)"
      by (auto simp: st1_def st2_def split: option.split)
    ultimately show ?thesis using Cons.IH unfolding step by fastforce
  qed
qed simp

lemma inh_collect_eq:
  assumes "served b ix" and "inh_ok b (passing ix filt) st" and "set ss \<subseteq> syms_dom"
  shows "\<exists>st'. inh_collect ix sub filt ss st = Some st' \<and> inh_ok b (passing ix filt) st' \<and>
    is_seen st' = is_seen st \<union> (\<Union>s \<in> set ss. set (the (if sub then inherited_by ix s else inherits_of ix s)))"
  using assms(2,3)
proof (induction ss arbitrary: st)
  case (Cons s ss)
  have ix: "indexed b ix" using assms(1) by (simp add: served_def)
  have "s \<noteq> - 1" using Cons.prems(2) by auto
  then obtain rs where rs: "(if sub then inherited_by ix s else inherits_of ix s) = Some rs"
    using symbol_edges(1,2) [OF assms(1)] by (metis (full_types))
  obtain st1 where st1: "inh_related ix filt rs st = Some st1" "inh_ok b (passing ix filt) st1" "is_seen st1 = is_seen st \<union> set rs"
    using inh_related_eq [OF ix Cons.prems(1)] by blast
  obtain st2 where "inh_collect ix sub filt ss st1 = Some st2" "inh_ok b (passing ix filt) st2"
      "is_seen st2 = is_seen st1 \<union> (\<Union>s \<in> set ss. set (the (if sub then inherited_by ix s else inherits_of ix s)))"
    using Cons.IH [OF st1(2)] Cons.prems(2) by auto
  with rs st1 show ?case by (intro exI [of _ st2]) (auto split: if_splits)
qed simp

lemma first_def_eq:
  assumes "indexed b ix"
  shows "\<exists>d. first_def ix ms = Some d \<and> (d \<noteq> None \<longleftrightarrow> (\<exists>m \<in> set ms. def_loc_str ix m \<noteq> Some None))"
proof (induction ms)
  case (Cons m ms)
  obtain d where "def_loc_str ix m = Some d" using locations_total(3) [OF assms] by blast
  with Cons show ?case by (cases d) auto
qed simp

lemma first_named_eq:
  assumes "indexed b ix"
  shows "\<exists>r. first_named ix ms = Some r \<and>
    (case r of Some m \<Rightarrow> m \<in> set ms \<and> \<not> starts_with (symbol_name b m) kythe_scheme
     | None \<Rightarrow> \<forall>m \<in> set ms. starts_with (symbol_name b m) kythe_scheme)"
proof (induction ms)
  case (Cons m ms)
  then show ?case by (auto simp: meta_indexed(1) [OF assms] split: option.splits)
qed simp

lemma inh_hit_total:
  assumes "indexed b ix" and "groups lk = Some ms" and "ms \<noteq> []"
  shows "\<exists>h. inh_hit_of ix groups lk = Some h \<and> (ih_def h \<noteq> None \<longleftrightarrow> (\<exists>m \<in> set ms. def_loc_str ix m \<noteq> Some None)) \<and>
    ((\<exists>m \<in> set ms. \<not> starts_with (symbol_name b m) kythe_scheme) \<longrightarrow>
     (\<exists>m \<in> set ms. \<not> starts_with (symbol_name b m) kythe_scheme \<and> ih_name h = symbol_name b m))"
proof -
  obtain d where d: "first_def ix ms = Some d" "d \<noteq> None \<longleftrightarrow> (\<exists>m \<in> set ms. def_loc_str ix m \<noteq> Some None)"
    using first_def_eq [OF assms(1)] by blast
  obtain q where q: "first_named ix ms = Some q"
      "case q of Some m \<Rightarrow> m \<in> set ms \<and> \<not> starts_with (symbol_name b m) kythe_scheme
       | None \<Rightarrow> \<forall>m \<in> set ms. starts_with (symbol_name b m) kythe_scheme"
    using first_named_eq [OF assms(1)] by blast
  define rep where "rep = (case q of Some m \<Rightarrow> m | None \<Rightarrow> ms ! 0)"
  have rep: "(case q of Some m \<Rightarrow> Some m | None \<Rightarrow> index_of ms 0) = Some rep"
    using assms(3) by (simp add: rep_def index_of_def split: option.split)
  obtain shown where sh: "display_name ix rep (symbol_name b rep) = Some shown" using locations_total(4) [OF assms(1)] by blast
  have "inh_hit_of ix groups lk = Some \<lparr> ih_name = shown, ih_def = d \<rparr>"
    using assms(2) d(1) q(1) rep sh by (simp add: inh_hit_of_def meta_indexed(1) [OF assms(1)])
  moreover have "\<exists>m \<in> set ms. \<not> starts_with (symbol_name b m) kythe_scheme \<and> shown = symbol_name b m"
    if "\<exists>m \<in> set ms. \<not> starts_with (symbol_name b m) kythe_scheme"
    using that q(2) sh by (cases q) (auto simp: rep_def display_name_def)
  ultimately show ?thesis using d(2) by simp
qed

end
