(* ===== verification/S2_Iter.thy ===== *)
theory S2_Iter
  imports S2_Fits
begin

text \<open>
  The whole-table iterators read back what was written, and replaying them into a builder
  (\<^verbatim>\<open>populate_from_index\<close>, \<^verbatim>\<open>populate_from_shard_remapped\<close> of
  \<open>src/crates/scry2/src/writer.rs\<close>) rebuilds the content of the file.
\<close>

section \<open>Replaying an index into a builder\<close>

text \<open>One source loop is one fold of the builder operation over the drained iterator; the order of
  the loops is the source's.\<close>

definition populate_from_index ::
    "unicode_tables \<Rightarrow> index \<Rightarrow> index_builder \<Rightarrow> index_builder option" where
  "populate_from_index U ix b = do {
     xs \<leftarrow> iter_xrefs ix;
     let b = fold (\<lambda>(s, role, file, offset). add_xref s role file offset) xs b;
     syms \<leftarrow> iter_syms ix;
     let b = fold (\<lambda>(s, kind, lang, name). upsert_sym U s kind lang name) syms b;
     files \<leftarrow> iter_files ix;
     let b = fold (\<lambda>(file, path). upsert_file file path) files b;
     inh \<leftarrow> iter_inherits ix;
     let b = fold (\<lambda>(child, parent). add_inherit child parent) inh b;
     calls \<leftarrow> iter_calls ix;
     let b = fold (\<lambda>(caller, callee, role). add_call caller callee role) calls b;
     aliases \<leftarrow> iter_aliases ix;
     let b = fold (\<lambda>(s, alias). add_alias s alias) aliases b;
     typed \<leftarrow> iter_typed ix;
     let b = fold (\<lambda>(s, ty). add_type s ty) typed b;
     childrev \<leftarrow> iter_childrev ix;
     let b = fold (\<lambda>(parent, child). add_childof child parent) childrev b;
     sg \<leftarrow> iter_sig ix;
     Some (fold (\<lambda>(s, g). add_sig s g) sg b)
   }"

text \<open>\<^verbatim>\<open>l2g\<close>: the shard's local file ids to the build's global ids; a path that the global map
  does not know leaves its id out.\<close>

fun l2g_map :: "(bytes \<Rightarrow> u32 option) \<Rightarrow> (u32 \<times> bytes) list \<Rightarrow> (u32 \<times> u32) list \<Rightarrow> (u32 \<times> u32) list" where
  "l2g_map global_of [] l2g = l2g"
| "l2g_map global_of ((local, path) # files) l2g =
     (case global_of path of
        Some g \<Rightarrow> l2g_map global_of files (hm_insert local g l2g)
      | None \<Rightarrow> l2g_map global_of files l2g)"

definition populate_from_shard_remapped ::
    "unicode_tables \<Rightarrow> index \<Rightarrow> (bytes \<Rightarrow> u32 option) \<Rightarrow> index_builder \<Rightarrow> index_builder option" where
  "populate_from_shard_remapped U shard global_of b = do {
     files \<leftarrow> iter_files shard;
     let l2g = map_of (l2g_map global_of files []);
     xs \<leftarrow> iter_xrefs shard;
     let b = fold (\<lambda>(s, role, file, offset) b.
               (case l2g file of None \<Rightarrow> b | Some g \<Rightarrow> add_xref s role g offset b)) xs b;
     syms \<leftarrow> iter_syms shard;
     let b = fold (\<lambda>(s, kind, lang, name). upsert_sym U s kind lang name) syms b;
     let b = fold (\<lambda>(local, path) b.
               (case l2g local of None \<Rightarrow> b | Some g \<Rightarrow> upsert_file g path b)) files b;
     inh \<leftarrow> iter_inherits shard;
     let b = fold (\<lambda>(child, parent). add_inherit child parent) inh b;
     calls \<leftarrow> iter_calls shard;
     let b = fold (\<lambda>(caller, callee, role). add_call caller callee role) calls b;
     aliases \<leftarrow> iter_aliases shard;
     let b = fold (\<lambda>(s, alias). add_alias s alias) aliases b;
     typed \<leftarrow> iter_typed shard;
     let b = fold (\<lambda>(s, ty). add_type s ty) typed b;
     childrev \<leftarrow> iter_childrev shard;
     let b = fold (\<lambda>(parent, child). add_childof child parent) childrev b;
     sg \<leftarrow> iter_sig shard;
     Some (fold (\<lambda>(s, g). add_sig s g) sg b)
   }"

section \<open>The plain iterators\<close>

lemma plain_iters_content:
  assumes "content_fits c t"
  shows "iter_xrefs (opened t) = Some (c_xrefs c)"
    and "iter_inherits (opened t) = Some (c_inh c)"
    and "iter_childrev (opened t) = Some (c_childrev c)"
    and "iter_calls (opened t) = Some (c_calls c)"
proof -
  note ok = content_fitsD [OF assms]
  note eqs = opened_slices [OF ok(3)] opened_counts [OF ok(3)] layout_rows [OF ok(2)]
  show "iter_xrefs (opened t) = Some (c_xrefs c)"
    using xref_table.iter_rows_table [of "c_xrefs c" "get_xref (concat (map enc_xref (c_xrefs c)))" id]
    by (simp add: iter_xrefs_def eqs get_xref_row)
  show "iter_inherits (opened t) = Some (c_inh c)"
    using inh_table.iter_rows_table [of "c_inh c" "get_pair (concat (map enc_inh (c_inh c)))" id]
    by (simp add: iter_inherits_def eqs get_pair_row)
  show "iter_childrev (opened t) = Some (c_childrev c)"
    using inh_table.iter_rows_table [of "c_childrev c" "get_pair (concat (map enc_inh (c_childrev c)))" id]
    by (simp add: iter_childrev_def eqs get_pair_row)
  have "iter_rows (length (c_calls c)) CALL_LEN
      (\<lambda>off. do { a \<leftarrow> get_u64 (concat (map enc_call (c_calls c))) off;
                  b \<leftarrow> get_u64 (concat (map enc_call (c_calls c))) (off + 8);
                  r \<leftarrow> index_of (concat (map enc_call (c_calls c))) (off + 16); Some (a, b, r) }) =
    Some (map id (c_calls c))"
  proof (rule call_table.iter_rows_table)
    fix i assume "i < length (c_calls c)"
    then show "do { a \<leftarrow> get_u64 (concat (map enc_call (c_calls c))) (i * CALL_LEN);
        b \<leftarrow> get_u64 (concat (map enc_call (c_calls c))) (i * CALL_LEN + 8);
        r \<leftarrow> index_of (concat (map enc_call (c_calls c))) (i * CALL_LEN + 16); Some (a, b, r) } =
        Some (id (c_calls c ! i))"
      by (cases "c_calls c ! i") (simp add: get_simps)
  qed
  then show "iter_calls (opened t) = Some (c_calls c)"
    by (simp add: iter_calls_def eqs)
qed

section \<open>The string iterators\<close>

lemma string_rows_iter:
  assumes "map (blob_at B) p = map (\<lambda>(s, n). Some (clamp_blob_str n)) rows"
    and "trows = map2 (\<lambda>(s, n) (off, len). (s, off, len)) rows p" and "\<forall>(s, n) \<in> set rows. utf8_valid n"
  shows "iter_rows (length trows) TYPE_LEN (get_string_row (concat (map enc_type trows)) B) =
    Some (map (\<lambda>(s, n). (s, clamp_blob_str n)) rows)"
proof -
  have len: "length p = length rows" using arg_cong [OF assms(1), of length] by simp
  have row: "blob_or_empty B off len = Some (clamp_blob_str n)"
    if "i < length rows" "rows ! i = (s, n)" "p ! i = (off, len)" for i s n off len
  proof -
    have "blob_at B (p ! i) = Some (clamp_blob_str n)"
      using arg_cong [OF assms(1), of "\<lambda>l. l ! i"] that \<open>length p = length rows\<close> by simp
    moreover have "utf8_valid n" using assms(3) nth_mem [OF that(1)] that(2) by auto
    ultimately show ?thesis using that(3) by (simp add: blob_or_empty_def clamp_valid)
  qed
  have "iter_rows (length trows) TYPE_LEN (get_string_row (concat (map enc_type trows)) B) =
    Some (map (\<lambda>(s, off, len). (s, the (blob_or_empty B off len))) trows)"
  proof (rule type_table.iter_rows_table)
    fix i assume i: "i < length trows"
    then have i': "i < length rows" "i < length p" by (simp_all add: assms(2) len)
    obtain s n where r: "rows ! i = (s, n)" by (cases "rows ! i")
    obtain off len where q: "p ! i = (off, len)" by (cases "p ! i")
    have t: "trows ! i = (s, off, len)" using i' by (simp add: assms(2) r q)
    show "get_string_row (concat (map enc_type trows)) B (i * TYPE_LEN) =
        Some (case trows ! i of (s, off, len) \<Rightarrow> (s, the (blob_or_empty B off len)))"
      using i row [OF i'(1) r q] by (simp add: get_string_row_def get_simps t)
  qed
  also have "map (\<lambda>(s, off, len). (s, the (blob_or_empty B off len))) trows =
      map (\<lambda>(s, n). (s, clamp_blob_str n)) rows"
    using len by (intro nth_equalityI)
      (auto simp: assms(2) split_beta row [OF _ surjective_pairing surjective_pairing])
  finally show ?thesis .
qed

lemma file_rows_iter:
  assumes "map (blob_at B) p = map (\<lambda>(s, n). Some (clamp_blob_str n)) rows"
    and "trows = map2 (\<lambda>(s, n) (off, len). (s, off, len)) rows p" and "\<forall>(s, n) \<in> set rows. utf8_valid n"
  shows "iter_rows (length trows) FILE_LEN (\<lambda>off. do {
       f \<leftarrow> get_u32 (concat (map enc_file trows)) off; po \<leftarrow> get_u64 (concat (map enc_file trows)) (off + 4);
       pl \<leftarrow> get_u16 (concat (map enc_file trows)) (off + 12);
       p \<leftarrow> blob_or_empty B po pl; Some (f, p) }) =
    Some (map (\<lambda>(s, n). (s, clamp_blob_str n)) rows)"
proof -
  have len: "length p = length rows" using arg_cong [OF assms(1), of length] by simp
  have row: "blob_or_empty B off len = Some (clamp_blob_str n)"
    if "i < length rows" "rows ! i = (s, n)" "p ! i = (off, len)" for i s n off len
  proof -
    have "blob_at B (p ! i) = Some (clamp_blob_str n)"
      using arg_cong [OF assms(1), of "\<lambda>l. l ! i"] that \<open>length p = length rows\<close> by simp
    moreover have "utf8_valid n" using assms(3) nth_mem [OF that(1)] that(2) by auto
    ultimately show ?thesis using that(3) by (simp add: blob_or_empty_def clamp_valid)
  qed
  have "iter_rows (length trows) FILE_LEN (\<lambda>off. do {
       f \<leftarrow> get_u32 (concat (map enc_file trows)) off; po \<leftarrow> get_u64 (concat (map enc_file trows)) (off + 4);
       pl \<leftarrow> get_u16 (concat (map enc_file trows)) (off + 12);
       p \<leftarrow> blob_or_empty B po pl; Some (f, p) }) =
    Some (map (\<lambda>(s, off, len). (s, the (blob_or_empty B off len))) trows)"
  proof (rule file_table.iter_rows_table)
    fix i assume i: "i < length trows"
    then have i': "i < length rows" "i < length p" by (simp_all add: assms(2) len)
    obtain s n where r: "rows ! i = (s, n)" by (cases "rows ! i")
    obtain off len where q: "p ! i = (off, len)" by (cases "p ! i")
    have t: "trows ! i = (s, off, len)" using i' by (simp add: assms(2) r q)
    show "do { f \<leftarrow> get_u32 (concat (map enc_file trows)) (i * FILE_LEN);
       po \<leftarrow> get_u64 (concat (map enc_file trows)) (i * FILE_LEN + 4);
       pl \<leftarrow> get_u16 (concat (map enc_file trows)) (i * FILE_LEN + 12);
       p \<leftarrow> blob_or_empty B po pl; Some (f, p) } =
        Some (case trows ! i of (s, off, len) \<Rightarrow> (s, the (blob_or_empty B off len)))"
      using i row [OF i'(1) r q] by (simp add: get_simps t)
  qed
  also have "map (\<lambda>(s, off, len). (s, the (blob_or_empty B off len))) trows =
      map (\<lambda>(s, n). (s, clamp_blob_str n)) rows"
    using len by (intro nth_equalityI)
      (auto simp: assms(2) split_beta row [OF _ surjective_pairing surjective_pairing])
  finally show ?thesis .
qed

lemma sym_rows_iter:
  assumes "map (blob_at B) p = map (\<lambda>(s, k, l, n). Some (clamp_blob_str n)) rows"
    and "trows = map2 (\<lambda>(s, k, l, n) (off, len). (s, k, l, off, len)) rows p" and "names_ok rows"
  shows "iter_rows (length trows) SYM_LEN (\<lambda>off. do {
       s \<leftarrow> get_u64 (concat (map enc_sym trows)) off; kind \<leftarrow> index_of (concat (map enc_sym trows)) (off + 8);
       lang \<leftarrow> index_of (concat (map enc_sym trows)) (off + 9);
       no \<leftarrow> get_u64 (concat (map enc_sym trows)) (off + 10);
       nl \<leftarrow> get_u16 (concat (map enc_sym trows)) (off + 18);
       name \<leftarrow> blob_or_empty B no nl;
       Some (s, kind, lang, name) }) =
    Some (map (\<lambda>(s, k, l, n). (s, k, l, clamp_blob_str n)) rows)"
proof -
  have len: "length p = length rows" using arg_cong [OF assms(1), of length] by simp
  have row: "blob_or_empty B (fst (p ! i)) (snd (p ! i)) = Some (clamp_blob_str (snd (snd (snd (rows ! i)))))"
    if "i < length rows" for i
  proof -
    have "blob_at B (p ! i) = Some (clamp_blob_str (snd (snd (snd (rows ! i)))))"
      using arg_cong [OF assms(1), of "\<lambda>l. l ! i"] that \<open>length p = length rows\<close> by (simp add: split_beta)
    moreover have "utf8_valid (snd (snd (snd (rows ! i))))" using assms(3) nth_mem [OF that] by (auto simp: split_beta)
    ultimately show ?thesis by (simp add: blob_or_empty_def clamp_valid)
  qed
  have t: "trows ! i = (fst (rows ! i), fst (snd (rows ! i)), fst (snd (snd (rows ! i))), p ! i)"
    if "i < length rows" for i
    using that len by (simp add: assms(2) split_beta)
  have "iter_rows (length trows) SYM_LEN (\<lambda>off. do {
       s \<leftarrow> get_u64 (concat (map enc_sym trows)) off; kind \<leftarrow> index_of (concat (map enc_sym trows)) (off + 8);
       lang \<leftarrow> index_of (concat (map enc_sym trows)) (off + 9);
       no \<leftarrow> get_u64 (concat (map enc_sym trows)) (off + 10);
       nl \<leftarrow> get_u16 (concat (map enc_sym trows)) (off + 18);
       name \<leftarrow> blob_or_empty B no nl;
       Some (s, kind, lang, name) }) =
    Some (map (\<lambda>(s, k, l, off, len). (s, k, l, the (blob_or_empty B off len))) trows)"
  proof (rule sym_table.iter_rows_table)
    fix i assume i: "i < length trows"
    then have i': "i < length rows" by (simp add: assms(2) len)
    show "do { s \<leftarrow> get_u64 (concat (map enc_sym trows)) (i * SYM_LEN);
       kind \<leftarrow> index_of (concat (map enc_sym trows)) (i * SYM_LEN + 8);
       lang \<leftarrow> index_of (concat (map enc_sym trows)) (i * SYM_LEN + 9);
       no \<leftarrow> get_u64 (concat (map enc_sym trows)) (i * SYM_LEN + 10);
       nl \<leftarrow> get_u16 (concat (map enc_sym trows)) (i * SYM_LEN + 18);
       name \<leftarrow> blob_or_empty B no nl;
       Some (s, kind, lang, name) } =
        Some (case trows ! i of (s, k, l, off, len) \<Rightarrow> (s, k, l, the (blob_or_empty B off len)))"
      using i row [OF i'] by (cases "p ! i") (simp add: get_simps t [OF i'])
  qed
  also have "map (\<lambda>(s, k, l, off, len). (s, k, l, the (blob_or_empty B off len))) trows =
      map (\<lambda>(s, k, l, n). (s, k, l, clamp_blob_str n)) rows"
    using len t row by (intro nth_equalityI) (auto simp: assms(2) split_beta)
  finally show ?thesis .
qed

lemma string_iters_content:
  assumes "content_fits c t"
  shows "iter_files (opened t) = Some (map (\<lambda>(f, p). (f, clamp_blob_str p)) (c_files c))"
    and "iter_syms (opened t) = Some (map (\<lambda>(s, k, l, n). (s, k, l, clamp_blob_str n)) (c_syms c))"
    and "iter_typed (opened t) = Some (map (\<lambda>(s, n). (s, clamp_blob_str n)) (c_typed c))"
    and "iter_sig (opened t) = Some (map (\<lambda>(s, n). (s, clamp_blob_str n)) (c_sig c))"
proof -
  note ok = content_fitsD [OF assms]
  note eqs = opened_slices [OF ok(3)] opened_counts [OF ok(3)]
  obtain n p q r where
    n: "map (blob_at (t_blob t)) n = map (\<lambda>(s, k, l, n). Some (clamp_blob_str n)) (c_syms c)"
      "t_syms t = map2 (\<lambda>(s, k, l, n) (off, len). (s, k, l, off, len)) (c_syms c) n"
    and p: "map (blob_at (t_blob t)) p = map (\<lambda>(s, n). Some (clamp_blob_str n)) (c_files c)"
      "t_files t = map2 (\<lambda>(s, n) (off, len). (s, off, len)) (c_files c) p"
    and q: "map (blob_at (t_blob t)) q = map (\<lambda>(s, n). Some (clamp_blob_str n)) (c_typed c)"
      "t_typed t = map2 (\<lambda>(s, n) (off, len). (s, off, len)) (c_typed c) q"
    and r: "map (blob_at (t_blob t)) r = map (\<lambda>(s, n). Some (clamp_blob_str n)) (c_sig c)"
      "t_sig t = map2 (\<lambda>(s, n) (off, len). (s, off, len)) (c_sig c) r"
    by (rule layout_strings [OF ok(2,3)]) (rule that; assumption)
  note valid = content_valid [OF ok(1)]
  show "iter_files (opened t) = Some (map (\<lambda>(f, p). (f, clamp_blob_str p)) (c_files c))"
    using file_rows_iter [OF p valid(2)] by (simp add: iter_files_def eqs)
  show "iter_syms (opened t) = Some (map (\<lambda>(s, k, l, n). (s, k, l, clamp_blob_str n)) (c_syms c))"
    using sym_rows_iter [OF n valid(1)] by (simp add: iter_syms_def eqs)
  show "iter_typed (opened t) = Some (map (\<lambda>(s, n). (s, clamp_blob_str n)) (c_typed c))"
    using string_rows_iter [OF q valid(3)] by (simp add: iter_typed_def eqs)
  show "iter_sig (opened t) = Some (map (\<lambda>(s, n). (s, clamp_blob_str n)) (c_sig c))"
    using string_rows_iter [OF r valid(4)] by (simp add: iter_sig_def eqs)
qed

section \<open>The alias iterator\<close>

lemma canon_map_table:
  assumes "tables_fit t" and "hm_ok (t_syms t)"
  shows "\<exists>canon. canon_map (opened t) (concat (map enc_sym (t_syms t))) = Some canon \<and>
    map_of canon = map_of (map (\<lambda>(s, k, l, off, len). (s, off, len)) (t_syms t))"
proof -
  have "iter_rows (length (t_syms t)) SYM_LEN (\<lambda>off. do {
        s \<leftarrow> get_u64 (concat (map enc_sym (t_syms t))) off;
        no \<leftarrow> get_u64 (concat (map enc_sym (t_syms t))) (off + 10);
        nl \<leftarrow> get_u16 (concat (map enc_sym (t_syms t))) (off + 18);
        Some (s, no, nl) }) = Some (map (\<lambda>(s, k, l, off, len). (s, off, len)) (t_syms t))"
  proof (rule sym_table.iter_rows_table)
    fix i assume "i < length (t_syms t)"
    then show "do { s \<leftarrow> get_u64 (concat (map enc_sym (t_syms t))) (i * SYM_LEN);
        no \<leftarrow> get_u64 (concat (map enc_sym (t_syms t))) (i * SYM_LEN + 10);
        nl \<leftarrow> get_u16 (concat (map enc_sym (t_syms t))) (i * SYM_LEN + 18);
        Some (s, no, nl) } = Some (case t_syms t ! i of (s, k, l, off, len) \<Rightarrow> (s, off, len))"
      by (cases "t_syms t ! i") (simp add: get_simps)
  qed
  moreover have "hm_ok (map (\<lambda>(s, k, l, off, len). (s, off, len)) (t_syms t))"
    using assms(2) by (simp add: comp_def split_beta)
  then have "map_of (rev (map (\<lambda>(s, k, l, off, len). (s, off, len)) (t_syms t))) =
      map_of (map (\<lambda>(s, k, l, off, len). (s, off, len)) (t_syms t))"
    by (intro map_of_inject_set [THEN iffD2]) (simp_all add: rev_map flip: rev_map)
  ultimately show ?thesis
    by (simp add: canon_map_def opened_counts assms(1))
qed

lemma map_filter_id: "List.map_filter id (map (\<lambda>x. if P x then None else Some (f x)) xs) = map f (filter (\<lambda>x. \<not> P x) xs)"
  by (induction xs) (simp_all add: map_filter_def)

text \<open>The rows that survive: aliases never share the position of their symbol's own name.\<close>

lemma iter_aliases_content:
  assumes "content_fits c t"
  shows "iter_aliases (opened t) =
    Some (map (\<lambda>(n, s). (s, n)) (sort (map (\<lambda>(s, a). (clamp_blob_str a, s)) (c_aliases c))))"
proof -
  note ok = content_fitsD [OF assms]
  let ?B = "t_blob t"
  obtain p q where p: "map (blob_at ?B) p = map (\<lambda>(s, k, l, n). Some (clamp_blob_str n)) (c_syms c)"
    and q: "map (blob_at ?B) q = map (\<lambda>(s, n). Some (clamp_blob_str n)) (c_aliases c)"
    and syms: "t_syms t = map2 (\<lambda>(s, k, l, n) (off, len). (s, k, l, off, len)) (c_syms c) p"
    and names: "t_names t = sort_names ?B
       (map2 (\<lambda>(s, m) (off, len). (off, len, s)) (c_syms c) p @
        map2 (\<lambda>(s, a) (off, len). (off, len, s)) (c_aliases c) q)"
    and apart: "\<forall>x \<in> set p. \<forall>y \<in> set q. unat (fst x) + unat (snd x) \<le> unat (fst y)"
    by (rule layout_strings [OF ok(2,3)]) (rule that; assumption)
  let ?A = "map2 (\<lambda>(s, m) (off, len). (off, len, s)) (c_syms c) p"
  let ?Q = "map2 (\<lambda>(s, a) (off, len). (off, len, s)) (c_aliases c) q"
  let ?pos = "map (\<lambda>(s, k, l, off, len). (s, off, len)) (t_syms t)"
  have len: "length p = length (c_syms c)" using arg_cong [OF p, of length] by simp
  have "hm_ok (t_syms t)" using ok(1) len unfolding syms by (subst map_fst_sym_rows) (simp_all add: content_ok_def)
  then obtain canon where canon: "canon_map (opened t) (concat (map enc_sym (t_syms t))) = Some canon"
      "map_of canon = map_of ?pos" and pos_ok: "hm_ok ?pos"
    using canon_map_table [OF ok(3)] by (auto simp: comp_def split_beta)
  define own where "own r = (map_of canon (name_sym r) = Some (fst r, fst (snd r)))" for r :: name_row
  have "own r" if mem: "r \<in> set ?A" for r
  proof -
    obtain s m off len where r: "r = (off, len, s)" and z: "((s, m), (off, len)) \<in> set (zip (c_syms c) p)"
      using mem by auto
    then have "(s, off, len) \<in> set ?pos" by (cases m) (force simp: syms)
    then show ?thesis using map_of_is_SomeI [OF pos_ok] by (simp add: own_def canon r)
  qed
  moreover have "\<not> own r" if mem: "r \<in> set ?Q" for r
  proof
    obtain s a off len where r: "r = (off, len, s)" and z: "((s, a), (off, len)) \<in> set (zip (c_aliases c) q)"
      using mem by auto
    assume "own r"
    then have "(s, off, len) \<in> set ?pos" by (auto simp: own_def canon r dest: map_of_SomeD)
    then have "(off, len) \<in> set p" by (auto simp: syms dest: set_zip_rightD)
    then have "unat len = 0" using apart set_zip_rightD [OF z] by fastforce
    moreover have "(off, len) \<in> set q" by (rule set_zip_rightD [OF z])
    then have "blob_at ?B (off, len) \<in> set (map (blob_at ?B) q)" by (force simp only: set_map)
    then obtain n where "blob_at ?B (off, len) = Some (clamp_blob_str n)" "n \<noteq> []" "utf8_valid n"
      using ok(1) by (auto simp: q content_ok_def)
    ultimately show False
      using clamp_nonempty [of n] by (auto simp: slice_of_def split: if_splits)
  qed
  ultimately have "filter (\<lambda>r. \<not> own r) ?A = []" and "filter (\<lambda>r. \<not> own r) ?Q = ?Q"
    by (auto simp only: filter_empty_conv filter_id_conv)
  then have others: "filter (\<lambda>r. \<not> own r) (t_names t) = sort_key (name_entry ?B) ?Q"
    by (simp only: names sort_names_def filter_sort filter_append append_Nil)
  have rows: "iter_rows (length (t_names t)) NAME_LEN (\<lambda>off. do {
       no \<leftarrow> get_u64 (concat (map enc_name (t_names t))) off;
       nl \<leftarrow> get_u16 (concat (map enc_name (t_names t))) (off + 8);
       s \<leftarrow> get_u64 (concat (map enc_name (t_names t))) (off + 10);
       (if map_of canon s = Some (no, nl) then Some None
        else map_option (\<lambda>str. if utf8_valid str then Some (s, str) else None)
               (slice_of ?B (unat no) (unat no + unat nl))) }) =
     Some (map (\<lambda>r. if own r then None else Some (name_sym r, name_bytes ?B r)) (t_names t))"
  proof (rule name_table.iter_rows_table)
    fix i assume i: "i < length (t_names t)"
    obtain off len s where r: "t_names t ! i = (off, len, s)" by (cases "t_names t ! i")
    have "blob_at ?B (off, len) = Some (name_bytes ?B (off, len, s))" "utf8_valid (name_bytes ?B (off, len, s))"
      using layout_names(4) [OF ok(2,3,1)] nth_mem [OF i] by (auto simp: r)
    then show "do { no \<leftarrow> get_u64 (concat (map enc_name (t_names t))) (i * NAME_LEN);
       nl \<leftarrow> get_u16 (concat (map enc_name (t_names t))) (i * NAME_LEN + 8);
       s \<leftarrow> get_u64 (concat (map enc_name (t_names t))) (i * NAME_LEN + 10);
       (if map_of canon s = Some (no, nl) then Some None
        else map_option (\<lambda>str. if utf8_valid str then Some (s, str) else None)
               (slice_of ?B (unat no) (unat no + unat nl))) } =
       Some (if own (t_names t ! i) then None else Some (name_sym (t_names t ! i), name_bytes ?B (t_names t ! i)))"
      using i by (simp add: get_simps r own_def)
  qed
  have "map (\<lambda>r. (name_sym r, name_bytes ?B r)) (sort_key (name_entry ?B) ?Q) =
      map (\<lambda>(n, s). (s, n)) (map (name_entry ?B) (sort_key (name_entry ?B) ?Q))"
    by simp
  then show ?thesis
    using rows others name_rows_entries(1) [OF q]
    by (simp only: iter_aliases_def opened_slices [OF ok(3)] opened_counts [OF ok(3)] canon bind.bind_lunit
        map_filter_id map_sort_key)
qed

section \<open>Replay\<close>

text \<open>The append-only operations append their rows in iteration order.\<close>

lemma fold_rows:
  "fold (\<lambda>(s, role, file, offset). add_xref s role file offset) xs b = b\<lparr> b_xrefs := b_xrefs b @ xs \<rparr>"
  "fold (\<lambda>(child, parent). add_inherit child parent) is b = b\<lparr> b_inherits := b_inherits b @ is \<rparr>"
  "fold (\<lambda>(caller, callee, role). add_call caller callee role) cs b = b\<lparr> b_calls := b_calls b @ cs \<rparr>"
  "fold (\<lambda>(parent, child). add_childof child parent) ps b = b\<lparr> b_childof := b_childof b @ ps \<rparr>"
     apply (induction xs arbitrary: b; auto simp: add_xref_def)
    apply (induction "is" arbitrary: b; auto simp: add_inherit_def)
   apply (induction cs arbitrary: b; auto simp: add_call_def)
  apply (induction ps arbitrary: b; auto simp: add_childof_def)
  done

lemma fold_strings:
  "\<forall>(s, n) \<in> set rows. n \<noteq> [] \<Longrightarrow>
     fold (\<lambda>(s, alias). add_alias s alias) rows b = b\<lparr> b_aliases := b_aliases b @ rows \<rparr>"
  "\<forall>(s, n) \<in> set rows. n \<noteq> [] \<Longrightarrow> fold (\<lambda>(s, ty). add_type s ty) rows b = b\<lparr> b_typed := b_typed b @ rows \<rparr>"
  "\<forall>(s, n) \<in> set rows. n \<noteq> [] \<Longrightarrow> fold (\<lambda>(s, g). add_sig s g) rows b = b\<lparr> b_sig := b_sig b @ rows \<rparr>"
    apply (induction rows arbitrary: b; auto simp: add_alias_def)
   apply (induction rows arbitrary: b; auto simp: add_type_def)
  apply (induction rows arbitrary: b; auto simp: add_sig_def)
  done

lemma fold_maps:
  "fold (\<lambda>(s, kind, lang, name). upsert_sym U s kind lang name) syms b =
     b\<lparr> b_syms := merge_syms_into U (b_syms b) syms \<rparr>"
  "fold (\<lambda>(file, path). upsert_file file path) files b = b\<lparr> b_files := merge_files_into (b_files b) files \<rparr>"
   apply (induction syms arbitrary: b; auto simp: upsert_sym_def)
  apply (induction files arbitrary: b; auto simp: upsert_file_def)
  done

text \<open>The builder that holds a content, its strings as the file stores them.\<close>

definition content_builder :: "content \<Rightarrow> index_builder" where
  "content_builder c =
     \<lparr> b_xrefs = c_xrefs c, b_syms = map (\<lambda>(s, k, l, n). (s, k, l, clamp_blob_str n)) (c_syms c),
       b_files = map (\<lambda>(f, p). (f, clamp_blob_str p)) (c_files c), b_inherits = c_inh c,
       b_aliases = map (\<lambda>(n, s). (s, n)) (sort (map (\<lambda>(s, a). (clamp_blob_str a, s)) (c_aliases c))),
       b_calls = c_calls c, b_typed = map (\<lambda>(s, n). (s, clamp_blob_str n)) (c_typed c),
       b_childof = c_childrev c, b_sig = map (\<lambda>(s, n). (s, clamp_blob_str n)) (c_sig c) \<rparr>"

text \<open>Replaying an index is merging in the builder that holds its content.\<close>

lemma populate_content:
  assumes "content_fits c t"
  shows "populate_from_index U (opened t) b = Some (merge_from U b (content_builder c))"
proof -
  note ok = content_fitsD(1) [OF assms]
  have al: "\<forall>(s, n) \<in> set (map (\<lambda>(n, s). (s, n)) (sort (map (\<lambda>(s, a). (clamp_blob_str a, s)) (c_aliases c)))). n \<noteq> []"
    and typed: "\<forall>(s, n) \<in> set (map (\<lambda>(s, n). (s, clamp_blob_str n)) (c_typed c)). n \<noteq> []"
    and sg: "\<forall>(s, n) \<in> set (map (\<lambda>(s, n). (s, clamp_blob_str n)) (c_sig c)). n \<noteq> []"
    using ok clamp_nonempty by (auto simp: content_ok_def)
  show ?thesis
    by (simp add: populate_from_index_def plain_iters_content [OF assms] string_iters_content [OF assms]
        iter_aliases_content [OF assms] fold_rows fold_maps Let_def del: set_map set_sort)
      (simp only: fold_strings(1) [OF al] fold_strings(2) [OF typed] fold_strings(3) [OF sg],
        simp add: merge_from_def content_builder_def)
qed

section \<open>Round trip through a file\<close>

lemma hm_entry_fresh: "k \<notin> fst ` set m \<Longrightarrow> hm_entry k f v m = m @ [(k, v)]"
  by (induction k f v m rule: hm_entry.induct) auto

lemma merge_syms_into_fresh: "hm_ok (m @ syms) \<Longrightarrow> merge_syms_into U m syms = m @ syms"
  by (induction U m syms rule: merge_syms_into.induct) (auto simp: hm_entry_fresh)

lemma merge_files_into_fresh: "hm_ok (m @ files) \<Longrightarrow> merge_files_into m files = m @ files"
  by (induction m files rule: merge_files_into.induct) (auto simp: hm_entry_fresh)

lemma merge_from_new:
  assumes "hm_ok (b_syms b)" and "hm_ok (b_files b)"
  shows "merge_from U builder_new b = b"
  using assms merge_syms_into_fresh [of "[]" "b_syms b" U] merge_files_into_fresh [of "[]" "b_files b"]
  by (simp add: merge_from_def builder_new_def)

text \<open>No string exceeds the 16-bit length field.\<close>

definition short_strings :: "content \<Rightarrow> bool" where
  "short_strings c \<longleftrightarrow>
     (\<forall>(s, k, l, n) \<in> set (c_syms c). length n \<le> 65535) \<and> (\<forall>(s, n) \<in> set (c_aliases c). length n \<le> 65535) \<and>
     (\<forall>(f, n) \<in> set (c_files c). length n \<le> 65535) \<and> (\<forall>(s, n) \<in> set (c_typed c). length n \<le> 65535) \<and>
     (\<forall>(s, n) \<in> set (c_sig c). length n \<le> 65535)"

lemma map_clamp_short:
  "\<forall>(s, n) \<in> set rows. length n \<le> 65535 \<Longrightarrow> map (\<lambda>(s, n). (s, clamp_blob_str n)) rows = rows"
  "\<forall>(s, k, l, n) \<in> set syms. length n \<le> 65535 \<Longrightarrow>
     map (\<lambda>(s, k, l, n). (s, k, l, clamp_blob_str n)) syms = syms"
  by (auto intro!: map_idI simp: clamp_id)

lemma sort_dedup_id: "sorted xs \<Longrightarrow> distinct xs \<Longrightarrow> sort_dedup xs = xs"
  by (simp add: sort_dedup_unique [symmetric])

lemma sort_dedup_sort_dedup [simp]: "sort_dedup (sort_dedup xs) = sort_dedup xs"
  by (simp add: sort_dedup_id)

lemma hm_ok_sorted: "sorted (map fst rows) \<Longrightarrow> hm_ok rows \<Longrightarrow> sorted rows \<and> distinct rows"
proof (induction rows)
  case (Cons r rows)
  then have "fst r < fst x" if "x \<in> set rows" for x using that by (fastforce simp: less_le)
  with Cons show ?case by (auto simp: less_eq_prod_def)
qed simp

lemma first_per_sym_id:
  assumes "hm_ok rows" and "\<And>l. lst = Some l \<Longrightarrow> l \<notin> fst ` set rows"
  shows "first_per_sym lst rows = rows"
  using assms by (induction lst rows rule: first_per_sym.induct) auto

lemma collapsed_again:
  assumes "sorted (map fst rows)" and "hm_ok rows"
  shows "first_per_sym None (sort_dedup rows) = rows"
  using hm_ok_sorted [OF assms] first_per_sym_id [OF assms(2), of None] by (simp add: sort_dedup_id)

text \<open>A content is closed under being written, replayed and finished again.\<close>

lemma finish_content_builder:
  assumes "builder_ok b" and "short_strings (finish_content b)"
  shows "finish_content (content_builder (finish_content b)) = finish_content b"
proof -
  let ?c = "finish_content b"
  have ok: "content_ok ?c" by (rule content_ok_finish [OF assms(1)])
  have syms: "b_syms (content_builder ?c) = sorted_syms b" and files: "b_files (content_builder ?c) = sort_key fst (b_files b)"
    and typed: "b_typed (content_builder ?c) = c_typed ?c" and sg: "b_sig (content_builder ?c) = c_sig ?c"
    using assms(2) by (simp_all add: content_builder_def short_strings_def map_clamp_short)
      (simp_all add: finish_content_def)
  have sorted: "sorted (map fst (sorted_syms b))" "sorted (map fst (sort_key fst (b_files b)))"
    by (simp_all add: sorted_syms_def)
  then have resort: "sorted_syms (content_builder ?c) = sorted_syms b"
      "sort_key fst (b_files (content_builder ?c)) = sort_key fst (b_files b)"
    by (simp_all add: sorted_syms_def [of "content_builder _"] syms files sort_key_id_if_sorted)
  have "(s, clamp_blob_str a) = (s, a)" if "(s, a) \<in> set (c_aliases ?c)" for s a
    using assms(2) that by (auto simp: short_strings_def clamp_id)
  then have "set (b_aliases (content_builder ?c)) = set (c_aliases ?c)"
    by (force simp: content_builder_def)
  then have aliases: "kept_aliases (sorted_syms b) (b_aliases (content_builder ?c)) = kept_aliases (sorted_syms b) (b_aliases b)"
    unfolding kept_aliases_def by (intro sort_dedup_unique) (auto simp: finish_content_def kept_aliases_def)
  have "first_per_sym None (sort_dedup (c_typed ?c)) = c_typed ?c" "first_per_sym None (sort_dedup (c_sig ?c)) = c_sig ?c"
    using ok by (simp_all add: content_ok_def collapsed_again)
  then show ?thesis
    using resort aliases typed sg
    by (simp add: finish_content_def [of "content_builder _"]) (simp add: content_builder_def finish_content_def)
qed

end
