(* ===== verification/S2_Merge.thy ===== *)
theory S2_Merge
  imports S2_Iter
begin

text \<open>
  The streaming merge (\<open>src/crates/scry2/src/writer.rs\<close>: the \<^verbatim>\<open>merge_*\<close> iterators,
  \<^verbatim>\<open>fold_sources\<close>, \<^verbatim>\<open>write_merged_snapshot\<close>, \<^verbatim>\<open>coalesce_shards_remapped\<close>,
  \<^verbatim>\<open>merge_group_global\<close>). A stream is the list of what it yields. The main result is the
  source's claim that merging on-disk sources with an in-memory delta writes the file that
  \<^verbatim>\<open>finish\<close> would write from a builder holding them all.
\<close>

section \<open>Two-way merges\<close>

text \<open>\<^verbatim>\<open>merge_sorted_dedup\<close> and \<^verbatim>\<open>merge_aliases_dedup\<close>: \<open>lst\<close> is the field \<^verbatim>\<open>last\<close>.\<close>

fun merge_sorted_dedup_from :: "'a::linorder option \<Rightarrow> 'a list \<Rightarrow> 'a list \<Rightarrow> 'a list" where
  "merge_sorted_dedup_from lst [] [] = []"
| "merge_sorted_dedup_from lst (x # a) [] =
     (if lst = Some x then merge_sorted_dedup_from lst a []
      else x # merge_sorted_dedup_from (Some x) a [])"
| "merge_sorted_dedup_from lst [] (y # b) =
     (if lst = Some y then merge_sorted_dedup_from lst [] b
      else y # merge_sorted_dedup_from (Some y) [] b)"
| "merge_sorted_dedup_from lst (x # a) (y # b) =
     (if x < y then
        (if lst = Some x then merge_sorted_dedup_from lst a (y # b)
         else x # merge_sorted_dedup_from (Some x) a (y # b))
      else if y < x then
        (if lst = Some y then merge_sorted_dedup_from lst (x # a) b
         else y # merge_sorted_dedup_from (Some y) (x # a) b)
      else
        (if lst = Some x then merge_sorted_dedup_from lst a b
         else x # merge_sorted_dedup_from (Some x) a b))"

definition merge_sorted_dedup :: "'a::linorder list \<Rightarrow> 'a list \<Rightarrow> 'a list" where
  "merge_sorted_dedup a b = merge_sorted_dedup_from None a b"

definition merge_aliases_dedup :: "(u64 \<times> bytes) list \<Rightarrow> (u64 \<times> bytes) list \<Rightarrow> (u64 \<times> bytes) list" where
  "merge_aliases_dedup a b = merge_sorted_dedup_from None a b"

text \<open>The keyed merges advance the smaller key and combine two rows of the same key.\<close>

fun merge_keyed :: "('v \<Rightarrow> 'v \<Rightarrow> 'v) \<Rightarrow> ('k::linorder \<times> 'v) list \<Rightarrow> ('k \<times> 'v) list \<Rightarrow> ('k \<times> 'v) list" where
  "merge_keyed f a [] = a"
| "merge_keyed f [] b = b"
| "merge_keyed f ((ka, x) # a) ((kb, y) # b) =
     (if ka < kb then (ka, x) # merge_keyed f a ((kb, y) # b)
      else if kb < ka then (kb, y) # merge_keyed f ((ka, x) # a) b
      else (ka, f x y) # merge_keyed f a b)"

definition merge_syms_refine ::
    "unicode_tables \<Rightarrow> (u64 \<times> sym_meta) list \<Rightarrow> (u64 \<times> sym_meta) list \<Rightarrow> (u64 \<times> sym_meta) list" where
  "merge_syms_refine U = merge_keyed (refine_sym U)"

definition merge_files_first_wins ::
    "(u32 \<times> bytes) list \<Rightarrow> (u32 \<times> bytes) list \<Rightarrow> (u32 \<times> bytes) list" where
  "merge_files_first_wins = merge_keyed (\<lambda>x y. x)"

definition pick :: "bytes \<Rightarrow> bytes \<Rightarrow> bytes" where
  "pick x y =
     (if x \<noteq> [] \<and> y = [] then x else if x = [] \<and> y \<noteq> [] then y else if x \<le> y then x else y)"

definition merge_typed_by_sym :: "(u64 \<times> bytes) list \<Rightarrow> (u64 \<times> bytes) list \<Rightarrow> (u64 \<times> bytes) list" where
  "merge_typed_by_sym = merge_keyed pick"

definition fold_sources :: "('r list \<Rightarrow> 'r list \<Rightarrow> 'r list) \<Rightarrow> 'r list list \<Rightarrow> 'r list" where
  "fold_sources merge streams = foldl merge [] streams"

section \<open>The merged snapshot\<close>

text \<open>The sections of \<^verbatim>\<open>write_merged_snapshot_inner\<close>: each folds the sources' streams and merges in
  the sorted delta; every source's aliases are gathered once.\<close>

definition delta_strings :: "(u64 \<times> bytes) list \<Rightarrow> (u64 \<times> bytes) list" where
  "delta_strings rows = sort_key fst (first_per_sym None (sort_dedup rows))"

definition gather_aliases :: "index list \<Rightarrow> (u64 \<times> bytes) list option" where
  "gather_aliases sources = do {
     source_aliases \<leftarrow> those (map iter_aliases sources);
     Some (sort_dedup (concat source_aliases))
   }"

definition merged_xrefs :: "index list \<Rightarrow> index_builder \<Rightarrow> xref_row list option" where
  "merged_xrefs sources self = do {
     xs \<leftarrow> those (map iter_xrefs sources);
     Some (merge_sorted_dedup (fold_sources merge_sorted_dedup xs) (sort_dedup (b_xrefs self)))
   }"

definition merged_syms :: "unicode_tables \<Rightarrow> index list \<Rightarrow> index_builder \<Rightarrow> (u64 \<times> sym_meta) list option" where
  "merged_syms U sources self = do {
     syms \<leftarrow> those (map iter_syms sources);
     Some (merge_syms_refine U (fold_sources (merge_syms_refine U) syms) (sort_key fst (b_syms self)))
   }"

definition kept_merged_aliases ::
    "(u64 \<times> sym_meta) list \<Rightarrow> (u64 \<times> bytes) list \<Rightarrow> index_builder \<Rightarrow> (u64 \<times> bytes) list" where
  "kept_merged_aliases syms prior_aliases self =
     filter (\<lambda>(s, a). s \<notin> set (var_syms syms)) (merge_aliases_dedup prior_aliases (sort_dedup (b_aliases self)))"

definition merged_files :: "index list \<Rightarrow> index_builder \<Rightarrow> (u32 \<times> bytes) list option" where
  "merged_files sources self = do {
     files \<leftarrow> those (map iter_files sources);
     Some (merge_files_first_wins (fold_sources merge_files_first_wins files) (sort_key fst (b_files self)))
   }"

definition merged_inherits :: "index list \<Rightarrow> index_builder \<Rightarrow> inh_row list option" where
  "merged_inherits sources self = do {
     inh \<leftarrow> those (map iter_inherits sources);
     Some (merge_sorted_dedup (fold_sources merge_sorted_dedup inh) (sort_dedup (b_inherits self)))
   }"

definition merged_calls :: "index list \<Rightarrow> index_builder \<Rightarrow> call_row list option" where
  "merged_calls sources self = do {
     calls \<leftarrow> those (map iter_calls sources);
     Some (merge_sorted_dedup (fold_sources merge_sorted_dedup calls) (sort_dedup (b_calls self)))
   }"

definition merged_typed :: "index list \<Rightarrow> index_builder \<Rightarrow> (u64 \<times> bytes) list option" where
  "merged_typed sources self = do {
     typed \<leftarrow> those (map iter_typed sources);
     Some (filter (\<lambda>(s, t). t \<noteq> [])
       (merge_typed_by_sym (fold_sources merge_typed_by_sym typed) (delta_strings (b_typed self))))
   }"

definition merged_childrev :: "index list \<Rightarrow> index_builder \<Rightarrow> inh_row list option" where
  "merged_childrev sources self = do {
     childrev \<leftarrow> those (map iter_childrev sources);
     Some (merge_sorted_dedup (fold_sources merge_sorted_dedup childrev) (sort_dedup (b_childof self)))
   }"

definition merged_sig :: "index list \<Rightarrow> index_builder \<Rightarrow> (u64 \<times> bytes) list option" where
  "merged_sig sources self = do {
     sg \<leftarrow> those (map iter_sig sources);
     Some (filter (\<lambda>(s, t). t \<noteq> [])
       (merge_typed_by_sym (fold_sources merge_typed_by_sym sg) (delta_strings (b_sig self))))
   }"

definition merge_content :: "unicode_tables \<Rightarrow> index list \<Rightarrow> index_builder \<Rightarrow> content option" where
  "merge_content U sources self = do {
     prior_aliases \<leftarrow> gather_aliases sources;
     xs \<leftarrow> merged_xrefs sources self;
     syms \<leftarrow> merged_syms U sources self;
     files \<leftarrow> merged_files sources self;
     inh \<leftarrow> merged_inherits sources self;
     calls \<leftarrow> merged_calls sources self;
     typed \<leftarrow> merged_typed sources self;
     childrev \<leftarrow> merged_childrev sources self;
     sg \<leftarrow> merged_sig sources self;
     Some \<lparr> c_xrefs = xs, c_syms = syms, c_aliases = kept_merged_aliases syms prior_aliases self,
            c_files = files, c_inh = inh, c_calls = calls, c_typed = typed, c_childrev = childrev, c_sig = sg \<rparr>
   }"

lemmas merged_section_defs =
  gather_aliases_def merged_xrefs_def merged_syms_def kept_merged_aliases_def merged_files_def merged_inherits_def
  merged_calls_def merged_typed_def merged_childrev_def merged_sig_def delta_strings_def

text \<open>The layout of the merge differs from \<^verbatim>\<open>finish\<close>: names are sorted and the trigram index is
  built as soon as the names and aliases are in the blob, before the other strings are appended.\<close>

definition layout_merged :: "content \<Rightarrow> tables option" where
  "layout_merged c =
     (let (name_pos, blob1) = lay_strings [] (map (\<lambda>(s, k, l, n). n) (c_syms c));
          (alias_pos, blob2) = lay_strings blob1 (map snd (c_aliases c));
          by_name = sort_names blob2
            (map2 (\<lambda>(s, m) (off, len). (off, len, s)) (c_syms c) name_pos @
             map2 (\<lambda>(s, a) (off, len). (off, len, s)) (c_aliases c) alias_pos)
      in do {
        (dict, post) \<leftarrow> build_trigram_index by_name blob2;
        let (path_pos, blob3) = lay_strings blob2 (map snd (c_files c));
        let (typed_pos, blob4) = lay_strings blob3 (map snd (c_typed c));
        let (sig_pos, blob5) = lay_strings blob4 (map snd (c_sig c));
        Some \<lparr> t_xrefs = c_xrefs c,
               t_syms = map2 (\<lambda>(s, k, l, n) (off, len). (s, k, l, off, len)) (c_syms c) name_pos,
               t_names = by_name,
               t_files = map2 (\<lambda>(f, p) (off, len). (f, off, len)) (c_files c) path_pos,
               t_inh = c_inh c, t_inhrev = swap_inh (c_inh c),
               t_calls = c_calls c, t_crev = swap_calls (c_calls c),
               t_typed = map2 (\<lambda>(s, t) (off, len). (s, off, len)) (c_typed c) typed_pos,
               t_childrev = c_childrev c,
               t_sig = map2 (\<lambda>(s, t) (off, len). (s, off, len)) (c_sig c) sig_pos,
               t_blob = blob5, t_dict = dict, t_post = post \<rparr>
      })"

text \<open>A placeholder header goes first; the final header is written over it after the last section.\<close>

definition write_deferred :: "tables \<Rightarrow> bytes" where
  "write_deferred t =
     (let offs = section_offsets (of_nat HEADER_LEN) (sections t);
          h = make_header t;
          placeholder = header_default\<lparr> magic := MAGIC, version := VERSION \<rparr>;
          f = foldl write_at [] ((0, header_bytes placeholder) # zip (map unat offs) (sections t));
          f = write_at f (0, header_bytes h)
      in set_len f (unat (trigram_post_off h + trigram_post_len h)))"

definition write_merged_snapshot :: "unicode_tables \<Rightarrow> index list \<Rightarrow> index_builder \<Rightarrow> bytes option" where
  "write_merged_snapshot U sources self = do {
     c \<leftarrow> merge_content U sources self;
     t \<leftarrow> layout_merged c;
     Some (write_deferred t)
   }"

section \<open>Coalescing shards\<close>

text \<open>The shards are the byte strings of the shard files; a file that does not open is the error
  result \<open>Inl\<close>.\<close>

fun coalesce_delta ::
    "unicode_tables \<Rightarrow> (bytes \<Rightarrow> u32 option) \<Rightarrow> bytes list \<Rightarrow> index_builder \<Rightarrow> (open_error + index_builder) option" where
  "coalesce_delta U global_of [] delta = Some (Inr delta)"
| "coalesce_delta U global_of (f # fs) delta =
     (case index_open f of
        Inl e \<Rightarrow> Some (Inl e)
      | Inr ix \<Rightarrow>
          (case populate_from_shard_remapped U ix global_of delta of
             None \<Rightarrow> None | Some delta' \<Rightarrow> coalesce_delta U global_of fs delta'))"

definition coalesce_shards_remapped ::
    "unicode_tables \<Rightarrow> bytes list \<Rightarrow> (bytes \<Rightarrow> u32 option) \<Rightarrow> (open_error + bytes) option" where
  "coalesce_shards_remapped U shards global_of =
     (case coalesce_delta U global_of shards builder_new of
        None \<Rightarrow> None
      | Some (Inl e) \<Rightarrow> Some (Inl e)
      | Some (Inr delta) \<Rightarrow> map_option Inr (write_merged_snapshot U [] delta))"

fun open_all :: "bytes list \<Rightarrow> open_error + index list" where
  "open_all [] = Inr []"
| "open_all (f # fs) =
     (case index_open f of
        Inl e \<Rightarrow> Inl e
      | Inr ix \<Rightarrow> (case open_all fs of Inl e \<Rightarrow> Inl e | Inr ixs \<Rightarrow> Inr (ix # ixs)))"

definition merge_group_global :: "unicode_tables \<Rightarrow> bytes list \<Rightarrow> (open_error + bytes) option" where
  "merge_group_global U sources =
     (case open_all sources of
        Inl e \<Rightarrow> Some (Inl e)
      | Inr ixs \<Rightarrow> map_option Inr (write_merged_snapshot U ixs builder_new))"

section \<open>Merges of sorted streams\<close>

lemma emit_smallest:
  assumes "set G = R - {v} \<and> sorted G \<and> distinct G" and "\<forall>x \<in> R. v \<le> x" and "\<And>l. lst = Some l \<Longrightarrow> l \<le> v"
  shows "set (if lst = Some v then G else v # G) = insert v R - set_option lst \<and>
    sorted (if lst = Some v then G else v # G) \<and> distinct (if lst = Some v then G else v # G)"
proof -
  have "R - set_option lst = R" if "lst \<noteq> Some v"
    using assms(2,3) that by (cases lst) fastforce+
  then show ?thesis using assms by (cases lst) auto
qed

lemma merge_sorted_dedup_from_props:
  assumes "sorted a" and "sorted b" and "\<And>l. lst = Some l \<Longrightarrow> \<forall>x \<in> set a \<union> set b. l \<le> x"
  shows "set (merge_sorted_dedup_from lst a b) = (set a \<union> set b) - set_option lst \<and>
    sorted (merge_sorted_dedup_from lst a b) \<and> distinct (merge_sorted_dedup_from lst a b)"
  using assms
proof (induction lst a b rule: merge_sorted_dedup_from.induct)
  case (1 lst)
  then show ?case by simp
next
  case (2 lst x a)
  have G: "set (merge_sorted_dedup_from (Some x) a []) = set a - {x} \<and>
      sorted (merge_sorted_dedup_from (Some x) a []) \<and> distinct (merge_sorted_dedup_from (Some x) a [])"
    using 2 by (cases "lst = Some x") auto
  show ?case using emit_smallest [OF G, of lst] 2(3-5) by (auto split: if_splits)
next
  case (3 lst y b)
  have G: "set (merge_sorted_dedup_from (Some y) [] b) = set b - {y} \<and>
      sorted (merge_sorted_dedup_from (Some y) [] b) \<and> distinct (merge_sorted_dedup_from (Some y) [] b)"
    using 3 by (cases "lst = Some y") auto
  show ?case using emit_smallest [OF G, of lst] 3(3-5) by (auto split: if_splits)
next
  case (4 lst x a y b)
  have le: "l \<le> x" "l \<le> y" if "lst = Some l" for l using 4(9) [OF that] by auto
  consider "x < y" | "y < x" | "x = y" by fastforce
  then show ?case
  proof cases
    case 1
    have G: "set (merge_sorted_dedup_from (Some x) a (y # b)) = set a \<union> set (y # b) - {x} \<and>
        sorted (merge_sorted_dedup_from (Some x) a (y # b)) \<and> distinct (merge_sorted_dedup_from (Some x) a (y # b))"
      using 4(1,2) [OF 1] 4(7,8) 1 by (cases "lst = Some x") fastforce+
    have "\<forall>z \<in> set a \<union> set (y # b). x \<le> z" using 4(7,8) 1 by fastforce
    note emit = emit_smallest [OF G this, of lst]
    have eq: "merge_sorted_dedup_from lst (x # a) (y # b) =
        (if lst = Some x then merge_sorted_dedup_from (Some x) a (y # b)
         else x # merge_sorted_dedup_from (Some x) a (y # b))" using 1 by simp
    show ?thesis unfolding eq using emit le by auto
  next
    case 2
    then have "\<not> x < y" by simp
    have G: "set (merge_sorted_dedup_from (Some y) (x # a) b) = set (x # a) \<union> set b - {y} \<and>
        sorted (merge_sorted_dedup_from (Some y) (x # a) b) \<and> distinct (merge_sorted_dedup_from (Some y) (x # a) b)"
      using 4(3,4) [OF \<open>\<not> x < y\<close> 2] 4(7,8) 2 by (cases "lst = Some y") fastforce+
    have "\<forall>z \<in> set (x # a) \<union> set b. y \<le> z" using 4(7,8) 2 by fastforce
    note emit = emit_smallest [OF G this, of lst]
    have eq: "merge_sorted_dedup_from lst (x # a) (y # b) =
        (if lst = Some y then merge_sorted_dedup_from (Some y) (x # a) b
         else y # merge_sorted_dedup_from (Some y) (x # a) b)" using 2 by auto
    show ?thesis unfolding eq using emit le by auto
  next
    case 3
    then have "\<not> x < y" "\<not> y < x" by simp_all
    have G: "set (merge_sorted_dedup_from (Some x) a b) = set a \<union> set b - {x} \<and>
        sorted (merge_sorted_dedup_from (Some x) a b) \<and> distinct (merge_sorted_dedup_from (Some x) a b)"
      using 4(5,6) [OF \<open>\<not> x < y\<close> \<open>\<not> y < x\<close>] 4(7,8) 3 by (cases "lst = Some x") fastforce+
    have "\<forall>z \<in> set a \<union> set b. x \<le> z" using 4(7,8) 3 by fastforce
    note emit = emit_smallest [OF G this, of lst]
    have eq: "merge_sorted_dedup_from lst (x # a) (y # b) =
        (if lst = Some x then merge_sorted_dedup_from (Some x) a b
         else x # merge_sorted_dedup_from (Some x) a b)" using 3 by auto
    show ?thesis unfolding eq using emit le 3 by auto
  qed
qed

lemma merge_sorted_dedup_eq:
  assumes "sorted a" and "sorted b"
  shows "merge_sorted_dedup a b = sort_dedup (a @ b)"
  using merge_sorted_dedup_from_props [OF assms, of None]
  by (intro sort_dedup_unique) (auto simp: merge_sorted_dedup_def)

lemma merge_aliases_dedup_eq:
  assumes "sorted a" and "sorted b"
  shows "merge_aliases_dedup a b = sort_dedup (a @ b)"
  using merge_sorted_dedup_eq [OF assms] by (simp add: merge_sorted_dedup_def merge_aliases_dedup_def)

lemma sort_dedup_cong: "set xs = set ys \<Longrightarrow> sort_dedup xs = sort_dedup ys"
  by (rule sort_dedup_unique) simp_all

lemma fold_sources_dedup:
  assumes "\<forall>xs \<in> set streams. sorted xs"
  shows "fold_sources merge_sorted_dedup streams = sort_dedup (concat streams)"
proof -
  have "foldl merge_sorted_dedup (sort_dedup acc) streams = sort_dedup (acc @ concat streams)" for acc
    using assms
  proof (induction streams arbitrary: acc)
    case (Cons xs streams)
    have "merge_sorted_dedup (sort_dedup acc) xs = sort_dedup (acc @ xs)"
      using Cons.prems by (subst merge_sorted_dedup_eq) (auto intro: sort_dedup_cong)
    then show ?case using Cons.IH [of "acc @ xs"] Cons.prems by simp
  qed simp
  from this [of "[]"] show ?thesis by (simp add: fold_sources_def sort_dedup_def)
qed

text \<open>The keyed merges keep the order and combine the two lookups.\<close>

definition comb :: "('v \<Rightarrow> 'v \<Rightarrow> 'v) \<Rightarrow> 'v option \<Rightarrow> 'v option \<Rightarrow> 'v option" where
  "comb f x y = (case (x, y) of (None, y) \<Rightarrow> y | (x, None) \<Rightarrow> x | (Some a, Some b) \<Rightarrow> Some (f a b))"

lemma comb_simps [simp]: "comb f None y = y" "comb f x None = x" "comb f (Some a) (Some b) = Some (f a b)"
  by (simp_all add: comb_def split: option.split)

lemma fst_merge_keyed: "fst ` set (merge_keyed f a b) = fst ` set a \<union> fst ` set b"
  by (induction f a b rule: merge_keyed.induct) auto

lemma merge_keyed_props:
  assumes "sorted (map fst a)" and "hm_ok a" and "sorted (map fst b)" and "hm_ok b"
  shows "sorted (map fst (merge_keyed f a b)) \<and> hm_ok (merge_keyed f a b) \<and>
    map_of (merge_keyed f a b) k = comb f (map_of a k) (map_of b k)"
  using assms
proof (induction f a b rule: merge_keyed.induct)
  case (3 f ka x a kb y b)
  have a: "\<forall>q \<in> set a. ka < fst q" and b: "\<forall>q \<in> set b. kb < fst q"
    using "3.prems" by (force simp: less_le)+
  have na: "map_of a j = None" if "j \<le> ka" for j
    using a that by (auto simp: map_of_eq_None_iff)
  have nb: "map_of b j = None" if "j \<le> kb" for j
    using b that by (auto simp: map_of_eq_None_iff)
  consider "ka < kb" | "kb < ka" | "ka = kb" by fastforce
  then show ?case
  proof cases
    case 1
    have "\<forall>q \<in> fst ` set (merge_keyed f a ((kb, y) # b)). ka < q"
      using a b 1 by (auto simp: fst_merge_keyed)
    then show ?thesis using 3(1) [OF 1] "3.prems" 1 nb [of ka] by fastforce
  next
    case 2
    then have "\<not> ka < kb" by simp
    have "\<forall>q \<in> fst ` set (merge_keyed f ((ka, x) # a) b). kb < q"
      using a b 2 by (auto simp: fst_merge_keyed)
    then show ?thesis using 3(2) [OF \<open>\<not> ka < kb\<close> 2] "3.prems" 2 na [of kb] by fastforce
  next
    case 3
    then have "\<not> ka < kb" "\<not> kb < ka" by simp_all
    have "\<forall>q \<in> fst ` set (merge_keyed f a b). ka < q"
      using a b 3 by (auto simp: fst_merge_keyed)
    then show ?thesis using "3.IH"(3) [OF \<open>\<not> ka < kb\<close> \<open>\<not> kb < ka\<close>] "3.prems" 3 by fastforce
  qed
qed simp_all

lemma fold_keyed_props:
  assumes "\<forall>xs \<in> set streams. sorted (map fst xs) \<and> hm_ok xs" and "sorted (map fst acc)" and "hm_ok acc"
  shows "sorted (map fst (foldl (merge_keyed f) acc streams)) \<and> hm_ok (foldl (merge_keyed f) acc streams) \<and>
    map_of (foldl (merge_keyed f) acc streams) k = foldl (comb f) (map_of acc k) (map (\<lambda>xs. map_of xs k) streams)"
  using assms
proof (induction streams arbitrary: acc)
  case (Cons xs streams)
  have xs: "sorted (map fst xs)" "hm_ok xs" using Cons.prems by auto
  show ?case
    using Cons.IH [of "merge_keyed f acc xs"] Cons.prems merge_keyed_props [OF Cons.prems(2,3) xs, of f k] by simp
qed simp

lemma sorted_hm_unique:
  assumes "sorted (map fst xs)" and "hm_ok xs" and "sorted (map fst ys)" and "hm_ok ys" and "map_of xs = map_of ys"
  shows "xs = (ys :: ('k::linorder \<times> 'v::linorder) list)"
proof -
  have "set xs = set ys" using assms(2,4,5) map_of_inject_set by blast
  then show ?thesis
    using hm_ok_sorted [OF assms(1,2)] hm_ok_sorted [OF assms(3,4)] by (intro sorted_distinct_set_unique) auto
qed

section \<open>The builder that holds everything\<close>

text \<open>Replaying the sources one after the other.\<close>

fun replay_all :: "unicode_tables \<Rightarrow> index list \<Rightarrow> index_builder \<Rightarrow> index_builder option" where
  "replay_all U [] b = Some b"
| "replay_all U (ix # ixs) b =
     (case populate_from_index U ix b of None \<Rightarrow> None | Some b' \<Rightarrow> replay_all U ixs b')"

lemma replay_all_contents:
  "list_all2 content_fits cs ts \<Longrightarrow>
     replay_all U (map opened ts) b = Some (foldl (merge_from U) b (map content_builder cs))"
  by (induction cs ts arbitrary: b rule: list_all2_induct) (simp_all add: populate_content)

lemma fold_merge_rows:
  "b_xrefs (foldl (merge_from U) b bs) = b_xrefs b @ concat (map b_xrefs bs)"
  "b_inherits (foldl (merge_from U) b bs) = b_inherits b @ concat (map b_inherits bs)"
  "b_aliases (foldl (merge_from U) b bs) = b_aliases b @ concat (map b_aliases bs)"
  "b_calls (foldl (merge_from U) b bs) = b_calls b @ concat (map b_calls bs)"
  "b_typed (foldl (merge_from U) b bs) = b_typed b @ concat (map b_typed bs)"
  "b_childof (foldl (merge_from U) b bs) = b_childof b @ concat (map b_childof bs)"
  "b_sig (foldl (merge_from U) b bs) = b_sig b @ concat (map b_sig bs)"
  by (induction bs arbitrary: b) (simp_all add: merge_from_def)

lemma merge_from_lookup:
  assumes "hm_ok (b_syms other)" and "hm_ok (b_files other)"
  shows "map_of (b_syms (merge_from U b other)) k = comb (refine_sym U) (map_of (b_syms b) k) (map_of (b_syms other) k)"
    and "map_of (b_files (merge_from U b other)) j = comb (\<lambda>x y. x) (map_of (b_files b) j) (map_of (b_files other) j)"
  using map_of_merge_syms_into [OF assms(1)] map_of_merge_files_into [OF assms(2)]
  by (simp_all add: merge_from_def comb_def map_add_def split: option.split)

lemma hm_ok_merge_from:
  "hm_ok (b_syms b) \<Longrightarrow> hm_ok (b_syms (merge_from U b x))"
  "hm_ok (b_files b) \<Longrightarrow> hm_ok (b_files (merge_from U b x))"
  by (simp_all add: merge_from_def)

lemma fold_merge_ok:
  "hm_ok (b_syms b) \<Longrightarrow> hm_ok (b_syms (foldl (merge_from U) b bs))"
  "hm_ok (b_files b) \<Longrightarrow> hm_ok (b_files (foldl (merge_from U) b bs))"
  by (induction bs arbitrary: b) (simp_all add: hm_ok_merge_from)

lemma fold_merge_maps:
  assumes "\<forall>x \<in> set bs. hm_ok (b_syms x) \<and> hm_ok (b_files x)"
  shows "map_of (b_syms (foldl (merge_from U) b bs)) k =
      foldl (comb (refine_sym U)) (map_of (b_syms b) k) (map (\<lambda>x. map_of (b_syms x) k) bs)"
    and "map_of (b_files (foldl (merge_from U) b bs)) j =
      foldl (comb (\<lambda>x y. x)) (map_of (b_files b) j) (map (\<lambda>x. map_of (b_files x) j) bs)"
  using assms by (induction bs arbitrary: b) (simp_all add: merge_from_lookup)

section \<open>Least strings\<close>

lemma least_string_Some: "least_string rows s = Some t \<Longrightarrow> (s, t) \<in> set rows"
proof -
  assume *: "least_string rows s = Some t"
  let ?m = "filter (\<lambda>r. fst r = s) rows"
  have "?m \<noteq> []" "t = Min (snd ` set ?m)" using * unfolding least_string_eq
    by (metis option.distinct(1), metis option.distinct(1) option.inject)
  then have "snd ` set ?m \<noteq> {}" and t: "t = Min (snd ` set ?m)" by (simp_all only: image_is_empty set_empty simp_thms)
  then have "t \<in> snd ` set ?m" unfolding t by (intro Min_in) simp
  then show "(s, t) \<in> set rows" by auto
qed

lemma least_string_append:
  "least_string (xs @ ys) s = comb min (least_string xs s) (least_string ys s)"
  by (auto simp: least_string_eq image_Un Min_Un simp del: set_filter)

lemma comb_cong:
  "(\<And>a b. x = Some a \<Longrightarrow> y = Some b \<Longrightarrow> f a b = g a b) \<Longrightarrow> comb f x y = comb g x y"
  by (cases x; cases y) simp_all

lemma pick_min: "x \<noteq> [] \<Longrightarrow> y \<noteq> [] \<Longrightarrow> pick x y = min x y"
  by (simp add: pick_def min_def)

lemma foldl_least:
  assumes "\<forall>rows \<in> set streams. sorted rows \<and> (\<forall>(s, t) \<in> set rows. t \<noteq> [])" and "\<forall>(s, t) \<in> set acc. t \<noteq> []"
  shows "foldl (comb pick) (least_string acc k) (map (\<lambda>rows. map_of rows k) streams) =
    least_string (acc @ concat streams) k"
  using assms
proof (induction streams arbitrary: acc)
  case (Cons rows streams)
  have "comb pick (least_string acc k) (map_of rows k) = least_string (acc @ rows) k"
  proof -
    have "map_of rows k = least_string rows k" using Cons.prems(1) by (simp add: map_of_sorted_least)
    moreover have "comb pick (least_string acc k) (least_string rows k) = comb min (least_string acc k) (least_string rows k)"
    proof (rule comb_cong)
      fix a b assume "least_string acc k = Some a" "least_string rows k = Some b"
      then have "(k, a) \<in> set acc" "(k, b) \<in> set rows" by (auto dest: least_string_Some)
      then have "a \<noteq> []" "b \<noteq> []" using Cons.prems by auto
      then show "pick a b = min a b" by (rule pick_min)
    qed
    ultimately show ?thesis by (simp add: least_string_append)
  qed
  moreover have "\<forall>(s, t) \<in> set (acc @ rows). t \<noteq> []" using Cons.prems by auto
  ultimately show ?case using Cons.IH [of "acc @ rows"] Cons.prems by simp
qed simp

section \<open>The merged content is the finished content\<close>

lemma those_contents:
  assumes "list_all2 content_fits cs ts" and "\<And>c t. content_fits c t \<Longrightarrow> g (opened t) = Some (h c)"
  shows "those (map g (map opened ts)) = Some (map h cs)"
  using assms(1) by (induction cs ts rule: list_all2_induct) (simp_all add: assms(2))

lemma list_all2_left: "list_all2 content_fits cs ts \<Longrightarrow> \<forall>c \<in> set cs. content_ok c"
  by (induction cs ts rule: list_all2_induct) (auto simp: content_fits_def)

lemma fold_sources_keyed:
  assumes "\<forall>xs \<in> set streams. sorted (map fst xs) \<and> hm_ok xs" and "sorted (map fst d)" and "hm_ok d"
  shows "sorted (map fst (merge_keyed f (fold_sources (merge_keyed f) streams) d))"
    and "hm_ok (merge_keyed f (fold_sources (merge_keyed f) streams) d)"
    and "map_of (merge_keyed f (fold_sources (merge_keyed f) streams) d) k =
      comb f (foldl (comb f) None (map (\<lambda>xs. map_of xs k) streams)) (map_of d k)"
proof -
  have F: "sorted (map fst (fold_sources (merge_keyed f) streams)) \<and> hm_ok (fold_sources (merge_keyed f) streams) \<and>
      map_of (fold_sources (merge_keyed f) streams) k = foldl (comb f) None (map (\<lambda>xs. map_of xs k) streams)"
    using fold_keyed_props [OF assms(1), of "[]" f k] by (simp add: fold_sources_def)
  then show "sorted (map fst (merge_keyed f (fold_sources (merge_keyed f) streams) d))"
    "hm_ok (merge_keyed f (fold_sources (merge_keyed f) streams) d)"
    "map_of (merge_keyed f (fold_sources (merge_keyed f) streams) d) k =
      comb f (foldl (comb f) None (map (\<lambda>xs. map_of xs k) streams)) (map_of d k)"
    using merge_keyed_props [of "fold_sources (merge_keyed f) streams" d f k] assms(2,3) by simp_all
qed

text \<open>Sections of plain rows.\<close>

lemma merged_rows:
  assumes "\<forall>xs \<in> set streams. sorted xs"
  shows "merge_sorted_dedup (fold_sources merge_sorted_dedup streams) (sort_dedup d) = sort_dedup (concat streams @ d)"
  using assms by (simp add: fold_sources_dedup merge_sorted_dedup_eq) (rule sort_dedup_cong, simp)

text \<open>Sections of one least string per symbol.\<close>

lemma merged_strings:
  assumes streams: "\<forall>rows \<in> set streams. sorted (map fst rows) \<and> hm_ok rows \<and> (\<forall>(s, t) \<in> set rows. t \<noteq> [])"
    and d: "\<forall>(s, t) \<in> set d. t \<noteq> []"
  shows "filter (\<lambda>(s, t). t \<noteq> [])
      (merge_typed_by_sym (fold_sources merge_typed_by_sym streams) (sort_key fst (first_per_sym None (sort_dedup d)))) =
    first_per_sym None (sort_dedup (concat streams @ d))"
proof -
  let ?d = "first_per_sym None (sort_dedup d)" and ?e = "first_per_sym None (sort_dedup (concat streams @ d))"
  have collapsed: "sorted (map fst (first_per_sym None (sort_dedup rows)))" "hm_ok (first_per_sym None (sort_dedup rows))"
    for rows :: "(u64 \<times> bytes) list"
    using first_per_sym_props(2,3) [of "sort_dedup rows" None] by simp_all
  have resort: "sort_key fst ?d = ?d" using collapsed by (simp add: sort_key_id_if_sorted)
  let ?m = "merge_keyed pick (fold_sources (merge_keyed pick) streams) ?d"
  have sorted: "\<forall>xs \<in> set streams. sorted (map fst xs) \<and> hm_ok xs" using streams by blast
  note M = fold_sources_keyed [OF sorted collapsed, of pick d]
  have sorted': "\<forall>rows \<in> set streams. sorted rows \<and> (\<forall>(s, t) \<in> set rows. t \<noteq> [])"
    using streams hm_ok_sorted by blast
  have ne: "\<forall>(s, t) \<in> set (concat streams). t \<noteq> []" using streams by fastforce
  have "map_of ?m k = least_string (concat streams @ d) k" for k
  proof -
    have "foldl (comb pick) None (map (\<lambda>xs. map_of xs k) streams) = least_string (concat streams) k"
      using foldl_least [OF sorted', of "[]" k] by (simp add: least_string_def)
    moreover have "comb pick (least_string (concat streams) k) (least_string d k) =
        comb min (least_string (concat streams) k) (least_string d k)"
    proof (rule comb_cong)
      fix a b assume "least_string (concat streams) k = Some a" "least_string d k = Some b"
      then have "(k, a) \<in> set (concat streams)" "(k, b) \<in> set d" by (auto dest: least_string_Some)
      then have "a \<noteq> []" "b \<noteq> []" using ne d by auto
      then show "pick a b = min a b" by (rule pick_min)
    qed
    ultimately show ?thesis by (simp add: M(3) map_of_first_per_sym least_string_append)
  qed
  then have eq: "?m = ?e"
    using M(1,2) collapsed [of "concat streams @ d"]
    by (intro sorted_hm_unique) (auto simp: map_of_first_per_sym)
  have "set ?e \<subseteq> set (concat streams @ d)" using first_per_sym_props(1) [of "sort_dedup (concat streams @ d)" None] by simp
  then have "filter (\<lambda>(s, t). t \<noteq> []) ?e = ?e" using ne d by (intro filter_True) fastforce
  then show ?thesis by (simp add: merge_typed_by_sym_def resort eq)
qed

text \<open>The streams a content yields.\<close>

lemma content_builder_streams:
  assumes "content_ok c"
  shows "sorted (map fst (b_syms (content_builder c)))" "hm_ok (b_syms (content_builder c))"
    "sorted (map fst (b_files (content_builder c)))" "hm_ok (b_files (content_builder c))"
    "sorted (map fst (b_typed (content_builder c)))" "hm_ok (b_typed (content_builder c))"
    "\<forall>(s, t) \<in> set (b_typed (content_builder c)). t \<noteq> []"
    "sorted (map fst (b_sig (content_builder c)))" "hm_ok (b_sig (content_builder c))"
    "\<forall>(s, t) \<in> set (b_sig (content_builder c)). t \<noteq> []"
  using assms clamp_nonempty
  by (auto simp: content_builder_def content_ok_def comp_def case_prod_unfold)

text \<open>The maps of the gathered builder, for source builders \<open>bs\<close> and a delta \<open>b\<close>.\<close>

abbreviation gathered :: "unicode_tables \<Rightarrow> index_builder list \<Rightarrow> index_builder" where
  "gathered U bs \<equiv> foldl (merge_from U) builder_new bs"

lemma builder_new_maps [simp]: "b_syms builder_new = []" "b_files builder_new = []"
  by (simp_all add: builder_new_def)

lemma gathered_ok: "hm_ok (b_syms (gathered U bs))" "hm_ok (b_files (gathered U bs))"
  by (rule fold_merge_ok; simp add: builder_new_def)+

lemma merged_maps:
  assumes src: "\<forall>x \<in> set bs. sorted (map fst (b_syms x)) \<and> hm_ok (b_syms x) \<and>
      sorted (map fst (b_files x)) \<and> hm_ok (b_files x)"
    and b: "hm_ok (b_syms b)" "hm_ok (b_files b)"
  shows "merge_syms_refine U (fold_sources (merge_syms_refine U) (map b_syms bs)) (sort_key fst (b_syms b)) =
      sorted_syms (merge_from U (gathered U bs) b)"
    and "merge_files_first_wins (fold_sources merge_files_first_wins (map b_files bs)) (sort_key fst (b_files b)) =
      sort_key fst (b_files (merge_from U (gathered U bs) b))"
proof -
  let ?B = "merge_from U (gathered U bs) b"
  have B_ok: "hm_ok (b_syms ?B)" "hm_ok (b_files ?B)" by (simp_all add: hm_ok_merge_from gathered_ok)
  have hm: "\<forall>x \<in> set bs. hm_ok (b_syms x) \<and> hm_ok (b_files x)" using src by blast
  have S: "\<forall>xs \<in> set (map b_syms bs). sorted (map fst xs) \<and> hm_ok xs"
      "\<forall>xs \<in> set (map b_files bs). sorted (map fst xs) \<and> hm_ok xs" using src by auto
  note M = fold_sources_keyed [OF S(1) sort_key_fst_map(1,2) [OF b(1)], of "refine_sym U"]
    and F = fold_sources_keyed [OF S(2) sort_key_fst_map(1,2) [OF b(2)], of "\<lambda>x y. x"]
  have "map_of (merge_keyed (refine_sym U) (fold_sources (merge_keyed (refine_sym U)) (map b_syms bs)) (sort_key fst (b_syms b))) =
      map_of (sort_key fst (b_syms ?B))"
    using M(3) fold_merge_maps(1) [OF hm, of U builder_new] merge_from_lookup(1) [OF b, of U "gathered U bs"]
    by (simp add: fun_eq_iff sort_key_fst_map B_ok b comp_def)
  then show "merge_syms_refine U (fold_sources (merge_syms_refine U) (map b_syms bs)) (sort_key fst (b_syms b)) = sorted_syms ?B"
    unfolding merge_syms_refine_def sorted_syms_def
    using M(1,2) sort_key_fst_map(1,2) [OF B_ok(1)] by (intro sorted_hm_unique) auto
  have "map_of (merge_keyed (\<lambda>x y. x) (fold_sources (merge_keyed (\<lambda>x y. x)) (map b_files bs)) (sort_key fst (b_files b))) =
      map_of (sort_key fst (b_files ?B))"
    using F(3) fold_merge_maps(2) [OF hm, of U builder_new] merge_from_lookup(2) [OF b, of U "gathered U bs"]
    by (simp add: fun_eq_iff sort_key_fst_map B_ok b comp_def)
  then show "merge_files_first_wins (fold_sources merge_files_first_wins (map b_files bs)) (sort_key fst (b_files b)) =
      sort_key fst (b_files ?B)"
    unfolding merge_files_first_wins_def
    using F(1,2) sort_key_fst_map(1,2) [OF B_ok(2)] by (intro sorted_hm_unique) auto
qed

lemma gathered_rows:
  "b_xrefs (merge_from U (gathered U bs) b) = concat (map b_xrefs bs) @ b_xrefs b"
  "b_inherits (merge_from U (gathered U bs) b) = concat (map b_inherits bs) @ b_inherits b"
  "b_aliases (merge_from U (gathered U bs) b) = concat (map b_aliases bs) @ b_aliases b"
  "b_calls (merge_from U (gathered U bs) b) = concat (map b_calls bs) @ b_calls b"
  "b_typed (merge_from U (gathered U bs) b) = concat (map b_typed bs) @ b_typed b"
  "b_childof (merge_from U (gathered U bs) b) = concat (map b_childof bs) @ b_childof b"
  "b_sig (merge_from U (gathered U bs) b) = concat (map b_sig bs) @ b_sig b"
  by (simp_all add: merge_from_def fold_merge_rows builder_new_def)

lemma merged_aliases:
  "filter (\<lambda>(s, a). s \<notin> V) (merge_aliases_dedup (sort_dedup xs) (sort_dedup ys)) =
     sort_dedup (filter (\<lambda>(s, a). s \<notin> V) (xs @ ys))"
  by (rule sort_dedup_unique) (auto simp: merge_aliases_dedup_eq intro: sorted_filter [where f = id, simplified])

text \<open>What the iterators of the sources yield are the tables of the replayed builders.\<close>

lemma source_streams:
  assumes "list_all2 content_fits cs ts"
  shows "those (map iter_xrefs (map opened ts)) = Some (map b_xrefs (map content_builder cs))"
    "those (map iter_syms (map opened ts)) = Some (map b_syms (map content_builder cs))"
    "those (map iter_files (map opened ts)) = Some (map b_files (map content_builder cs))"
    "those (map iter_inherits (map opened ts)) = Some (map b_inherits (map content_builder cs))"
    "those (map iter_aliases (map opened ts)) = Some (map b_aliases (map content_builder cs))"
    "those (map iter_calls (map opened ts)) = Some (map b_calls (map content_builder cs))"
    "those (map iter_typed (map opened ts)) = Some (map b_typed (map content_builder cs))"
    "those (map iter_childrev (map opened ts)) = Some (map b_childof (map content_builder cs))"
    "those (map iter_sig (map opened ts)) = Some (map b_sig (map content_builder cs))"
proof -
  have eq: "those (map g (map opened ts)) = Some (map h (map content_builder cs))"
    if "\<And>c t. content_fits c t \<Longrightarrow> g (opened t) = Some (h (content_builder c))" for g :: "index \<Rightarrow> 'r option" and h
    using those_contents [OF assms, of g "\<lambda>c. h (content_builder c)"] that by (simp add: comp_def)
  show "those (map iter_xrefs (map opened ts)) = Some (map b_xrefs (map content_builder cs))"
    by (rule eq) (simp add: plain_iters_content content_builder_def)
  show "those (map iter_syms (map opened ts)) = Some (map b_syms (map content_builder cs))"
    by (rule eq) (simp add: string_iters_content content_builder_def)
  show "those (map iter_files (map opened ts)) = Some (map b_files (map content_builder cs))"
    by (rule eq) (simp add: string_iters_content content_builder_def)
  show "those (map iter_inherits (map opened ts)) = Some (map b_inherits (map content_builder cs))"
    by (rule eq) (simp add: plain_iters_content content_builder_def)
  show "those (map iter_aliases (map opened ts)) = Some (map b_aliases (map content_builder cs))"
    by (rule eq) (simp add: iter_aliases_content content_builder_def)
  show "those (map iter_calls (map opened ts)) = Some (map b_calls (map content_builder cs))"
    by (rule eq) (simp add: plain_iters_content content_builder_def)
  show "those (map iter_typed (map opened ts)) = Some (map b_typed (map content_builder cs))"
    by (rule eq) (simp add: string_iters_content content_builder_def)
  show "those (map iter_childrev (map opened ts)) = Some (map b_childof (map content_builder cs))"
    by (rule eq) (simp add: plain_iters_content content_builder_def)
  show "those (map iter_sig (map opened ts)) = Some (map b_sig (map content_builder cs))"
    by (rule eq) (simp add: string_iters_content content_builder_def)
qed

lemma merge_content_eq:
  assumes fits: "list_all2 content_fits cs ts" and ok: "builder_ok b"
  shows "merge_content U (map opened ts) b =
    Some (finish_content (merge_from U (gathered U (map content_builder cs)) b))"
proof -
  let ?bs = "map content_builder cs"
  have cs: "\<forall>c \<in> set cs. content_ok c" by (rule list_all2_left [OF fits])
  note streams = content_builder_streams
  have each: "\<forall>x \<in> set (map h cs). Q x" if "\<And>c. content_ok c \<Longrightarrow> Q (h c)" for h :: "content \<Rightarrow> 'r" and Q
    using cs that by simp
  have typed: "\<forall>rows \<in> set (map b_typed ?bs). sorted (map fst rows) \<and> hm_ok rows \<and> (\<forall>(s, t) \<in> set rows. t \<noteq> [])"
    unfolding map_map by (rule each, unfold comp_apply, intro conjI streams)
  have sg: "\<forall>rows \<in> set (map b_sig ?bs). sorted (map fst rows) \<and> hm_ok rows \<and> (\<forall>(s, t) \<in> set rows. t \<noteq> [])"
    unfolding map_map by (rule each, unfold comp_apply, intro conjI streams)
  have maps: "\<forall>x \<in> set ?bs. sorted (map fst (b_syms x)) \<and> hm_ok (b_syms x) \<and>
      sorted (map fst (b_files x)) \<and> hm_ok (b_files x)"
    by (rule each) (simp only: streams simp_thms)
  have d: "\<forall>(s, t) \<in> set (b_typed b). t \<noteq> []" "\<forall>(s, t) \<in> set (b_sig b). t \<noteq> []"
      "hm_ok (b_syms b)" "hm_ok (b_files b)"
    using ok by (auto simp: builder_ok_def)
  have plain: "\<forall>xs \<in> set (map b_xrefs ?bs). sorted xs" "\<forall>xs \<in> set (map b_inherits ?bs). sorted xs"
      "\<forall>xs \<in> set (map b_calls ?bs). sorted xs" "\<forall>xs \<in> set (map b_childof ?bs). sorted xs"
    using cs by (auto simp: content_builder_def content_ok_def)
  show ?thesis
    unfolding merge_content_def merged_section_defs source_streams [OF fits] bind.bind_lunit Let_def
      merged_maps(1) [OF maps d(3,4)] merged_maps(2) [OF maps d(3,4), of U] merged_strings [OF typed d(1)] merged_strings [OF sg d(2)]
      merged_rows [OF plain(1)] merged_rows [OF plain(2)] merged_rows [OF plain(3)] merged_rows [OF plain(4)]
      merged_aliases
    by (simp only: finish_content_def kept_aliases_def gathered_rows)
qed

section \<open>The merge writes the same file\<close>

text \<open>Names that lie in the first part of the blob do not see what is appended after them.\<close>

lemma sort_key_cong: "(\<And>x. x \<in> set xs \<Longrightarrow> f x = g x) \<Longrightarrow> sort_key f xs = sort_key g xs"
proof (induction xs)
  case (Cons x xs)
  have "insort_key f x ys = insort_key g x ys" if "set ys \<subseteq> set xs" for ys
    using that Cons.prems by (induction ys) auto
  with Cons show ?case by simp
qed simp

lemma visit_from_append:
  "\<forall>r \<in> set rows. name_slice B r \<noteq> None \<Longrightarrow> visit_from i rows (B @ ext) = visit_from i rows B"
proof (induction i rows B rule: visit_from.induct)
  case (2 i row rows blob)
  obtain off len s where row: "row = (off, len, s)" by (rule prod_cases3)
  have "name_slice (blob @ ext) row = name_slice blob row"
    using 2(2) by (auto simp: row slice_of_append1 dest: slice_of_SomeD)
  with 2 show ?case by (auto split: option.split)
qed simp

lemma names_append:
  assumes "\<forall>r \<in> set rows. name_slice B r \<noteq> None"
  shows "sort_names (B @ ext) rows = sort_names B rows"
    and "build_trigram_index (sort_names B rows) (B @ ext) = build_trigram_index (sort_names B rows) B"
proof -
  have "name_bytes (B @ ext) r = name_bytes B r" if "r \<in> set rows" for r
  proof -
    obtain off len s where r: "r = (off, len, s)" by (rule prod_cases3)
    have "name_slice B r \<noteq> None" using assms that by blast
    then show ?thesis by (auto simp: r slice_of_def split: if_splits)
  qed
  then show "sort_names (B @ ext) rows = sort_names B rows"
    unfolding sort_names_def by (intro sort_key_cong) simp
  have "\<forall>r \<in> set (take n (sort_names B rows)). name_slice B r \<noteq> None" for n
    using assms in_set_takeD [of _ n "sort_names B rows"] unfolding sort_names_def set_sort by blast
  then have "visit (sort_names B rows) (B @ ext) = visit (sort_names B rows) B"
    unfolding visit_def by (intro visit_from_append) blast
  then show "build_trigram_index (sort_names B rows) (B @ ext) = build_trigram_index (sort_names B rows) B"
    by (simp add: build_trigram_index_def)
qed

lemma layout_merged_eq:
  assumes "content_bounded c"
  shows "layout_merged c = layout_tables c"
proof -
  obtain p1 B1 p2 B2 p3 B3 p4 B4 p5 B5 where
    l: "lay_strings [] (map (\<lambda>(s, k, l, n). n) (c_syms c)) = (p1, B1)" "lay_strings B1 (map snd (c_aliases c)) = (p2, B2)"
       "lay_strings B2 (map snd (c_files c)) = (p3, B3)" "lay_strings B3 (map snd (c_typed c)) = (p4, B4)"
       "lay_strings B4 (map snd (c_sig c)) = (p5, B5)"
    by (metis surj_pair)
  have B: "B1 = concat (map clamp_blob_str (map (\<lambda>(s, k, l, n). n) (c_syms c)))"
      "B2 = B1 @ concat (map clamp_blob_str (map snd (c_aliases c)))"
      "B3 = B2 @ concat (map clamp_blob_str (map snd (c_files c)))"
      "B4 = B3 @ concat (map clamp_blob_str (map snd (c_typed c)))"
      "B5 = B4 @ concat (map clamp_blob_str (map snd (c_sig c)))"
    using lay_strings_eq(1) l by (metis snd_conv append_Nil)+
  have "length B5 < 2 ^ 64"
    using assms by (simp add: B content_bounded_def content_weight_def content_blob_def)
  then have len: "length B2 < 2 ^ 64" by (simp add: B)
  have at: "map (blob_at B2) ps = map (\<lambda>s. Some (clamp_blob_str s)) ss"
    if "lay_strings b ss = (ps, b')" "B2 = b' @ ext" for b b' ss ps ext
    using lay_strings_at [of b ss ext] that len by simp
  have p1: "map (blob_at B2) p1 = map (\<lambda>(s, v). Some (case v of (k, l, n) \<Rightarrow> clamp_blob_str n)) (c_syms c)"
    using at [OF l(1) B(2)] by (simp add: case_prod_unfold comp_def)
  have p2: "map (blob_at B2) p2 = map (\<lambda>(s, n). Some (clamp_blob_str n)) (c_aliases c)"
    using at [OF l(2), of "[]"] by (simp add: case_prod_unfold comp_def)
  let ?rows = "map2 (\<lambda>(s, m) (off, len). (off, len, s)) (c_syms c) p1 @
      map2 (\<lambda>(s, a) (off, len). (off, len, s)) (c_aliases c) p2"
  have "name_slice B2 r \<noteq> None" if "r \<in> set ?rows" for r
  proof -
    have "blob_at B2 (fst r, fst (snd r)) = Some (name_bytes B2 r)"
      using that name_rows_entries(2) [OF p1] name_rows_entries(2) [OF p2] unfolding set_append by blast
    moreover obtain off len s where "r = (off, len, s)" by (rule prod_cases3)
    ultimately show ?thesis by simp
  qed
  then have "\<forall>r \<in> set ?rows. name_slice B2 r \<noteq> None" by blast
  note same = names_append [OF this, of "concat (map clamp_blob_str (map snd (c_files c)))
      @ concat (map clamp_blob_str (map snd (c_typed c))) @ concat (map clamp_blob_str (map snd (c_sig c)))"]
  have "B5 = B2 @ concat (map clamp_blob_str (map snd (c_files c)))
      @ concat (map clamp_blob_str (map snd (c_typed c))) @ concat (map clamp_blob_str (map snd (c_sig c)))"
    using B by simp
  with same show ?thesis
    by (simp add: layout_merged_def layout_tables_def l Let_def)
qed

text \<open>Overwriting the placeholder leaves the file that writing the header first gives.\<close>

lemma foldl_write_same_tail:
  "laid e ws \<Longrightarrow> length f \<le> e \<Longrightarrow> length g = length f \<Longrightarrow>
     \<exists>rest. foldl write_at f ws = f @ rest \<and> foldl write_at g ws = g @ rest"
proof (induction e ws arbitrary: f g rule: laid.induct)
  case (2 e off d ws)
  show ?case
  proof (cases "d = []")
    case True
    then show ?thesis using "2.IH" [of f g] "2.prems" by (simp add: write_at_def)
  next
    case False
    let ?pad = "replicate (off - length f) 0 @ d"
    have w: "write_at f (off, d) = f @ ?pad" "write_at g (off, d) = g @ ?pad"
      using "2.prems" False by (simp_all add: write_at_def)
    have "\<exists>rest. foldl write_at (f @ ?pad) ws = (f @ ?pad) @ rest \<and> foldl write_at (g @ ?pad) ws = (g @ ?pad) @ rest"
      using "2.prems" by (intro "2.IH") auto
    then show ?thesis using w by auto
  qed
qed simp

lemma write_deferred_eq:
  assumes "tables_fit t"
  shows "write_deferred t = write_tables t"
proof -
  let ?ws = "zip (map unat (section_offsets (of_nat HEADER_LEN) (sections t))) (sections t)"
  let ?p = "header_bytes (header_default\<lparr> magic := MAGIC, version := VERSION \<rparr>)" and ?h = "header_bytes (make_header t)"
  have len: "length ?p = HEADER_LEN" "length ?h = HEADER_LEN"
    by (simp_all add: length_header_bytes header_default_def)
  have "laid HEADER_LEN ?ws"
    using laid_nat_offsets [of HEADER_LEN HEADER_LEN "sections t"] assms by (simp add: offsets_unat)
  then obtain rest where rest: "foldl write_at ?p ?ws = ?p @ rest" "foldl write_at ?h ?ws = ?h @ rest"
    using foldl_write_same_tail [of HEADER_LEN ?ws ?p ?h] len by auto
  have first: "write_at [] (0, ?p) = ?p" "write_at [] (0, ?h) = ?h"
    by (auto simp: write_at_def)
  have "write_at (?p @ rest) (0, ?h) = ?h @ rest"
    using len by (auto simp: write_at_def HEADER_LEN_def)
  then show ?thesis
    by (simp add: write_deferred_def write_tables_def first rest Let_def)
qed

lemma builder_ok_content: "content_ok c \<Longrightarrow> builder_ok (content_builder c)"
  using content_builder_streams [of c] clamp_valid clamp_nonempty
  unfolding builder_ok_def by (auto simp: content_builder_def content_ok_def)

lemma builder_ok_gathered: "\<forall>x \<in> set bs. builder_ok x \<Longrightarrow> builder_ok b \<Longrightarrow> builder_ok (foldl (merge_from U) b bs)"
  by (induction bs arbitrary: b) (simp_all add: builder_ok_merge_from)

lemma write_merged_snapshot_eq:
  fixes U
  assumes "list_all2 content_fits cs ts" and "builder_ok b"
  defines "B \<equiv> merge_from U (gathered U (map content_builder cs)) b"
  assumes "content_bounded (finish_content B)"
  shows "write_merged_snapshot U (map opened ts) b = finish B" and "builder_ok B"
proof -
  have "\<forall>x \<in> set (map content_builder cs). builder_ok x"
    using list_all2_left [OF assms(1)] by (simp add: builder_ok_content)
  then show ok: "builder_ok B"
    unfolding B_def using assms(2) by (intro builder_ok_merge_from builder_ok_gathered) (simp_all add: builder_ok_new)
  obtain t where "content_fits (finish_content B) t"
    using layout_total [OF content_ok_finish [OF ok]] assms(4) by blast
  then have t: "layout_tables (finish_content B) = Some t" "tables_fit t" by (simp_all add: content_fits_def)
  have "merge_content U (map opened ts) b = Some (finish_content B)"
    unfolding B_def by (rule merge_content_eq [OF assms(1,2)])
  then show "write_merged_snapshot U (map opened ts) b = finish B"
    by (simp add: write_merged_snapshot_def layout_merged_eq [OF assms(4)] t write_deferred_eq finish_def finish_tables_def)
qed

text \<open>Stated over indexes: merging sources and a delta is finishing the builder that replayed them.\<close>

lemma indexed_contents:
  assumes "list_all2 indexed bs ixs"
  shows "\<exists>ts. list_all2 content_fits (map finish_content bs) ts \<and> ixs = map opened ts"
  using assms
proof (induction bs ixs rule: list_all2_induct)
  case (Cons b bs ix ixs)
  obtain t where "content_fits (finish_content b) t" "ix = opened t" using Cons(1) by (rule indexedE)
  moreover obtain ts where "list_all2 content_fits (map finish_content bs) ts" "ixs = map opened ts" using Cons(3) by blast
  ultimately show ?case by (intro exI [of _ "t # ts"]) simp
qed simp

lemma merged_is_finished:
  assumes "list_all2 indexed bs ixs" and "builder_ok b"
    and "replay_all U ixs builder_new = Some P" and "content_bounded (finish_content (merge_from U P b))"
  shows "write_merged_snapshot U ixs b = finish (merge_from U P b)" and "builder_ok (merge_from U P b)"
proof -
  obtain ts where ts: "list_all2 content_fits (map finish_content bs) ts" "ixs = map opened ts"
    using indexed_contents [OF assms(1)] by blast
  have P: "P = gathered U (map content_builder (map finish_content bs))"
    using replay_all_contents [OF ts(1), of U builder_new] assms(3) ts(2) by simp
  show "write_merged_snapshot U ixs b = finish (merge_from U P b)" "builder_ok (merge_from U P b)"
    using write_merged_snapshot_eq [OF ts(1) assms(2), of U] assms(4) by (simp_all add: P ts(2))
qed

lemma replay_all_total:
  assumes "list_all2 indexed bs ixs"
  shows "\<exists>P. replay_all U ixs b = Some P"
  using indexed_contents [OF assms] replay_all_contents by blast

end
