(* ===== verification/S2_Localize.thy ===== *)
theory S2_Localize
  imports S2_Merge
begin

text \<open>
  Local file ids (\<open>src/crates/scry2/src/writer.rs\<close>, \<^verbatim>\<open>localize_file_ids\<close>): the ids become the
  ranks of the sorted distinct paths, and every cross reference still names the same path.
\<close>

abbreviation file_paths :: "(u32 \<times> bytes) list \<Rightarrow> bytes list" where
  "file_paths files \<equiv> sort_dedup (map snd files)"

text \<open>The files table that the ranks describe.\<close>

definition ranked_files :: "(u32 \<times> bytes) list \<Rightarrow> (u32 \<times> bytes) list" where
  "ranked_files files = zip (map of_nat [0..<length (file_paths files)]) (file_paths files)"

text \<open>What the cross references say once their ids are resolved.\<close>

definition resolved_xrefs :: "index_builder \<Rightarrow> (u64 \<times> u8 \<times> bytes option \<times> u32) list" where
  "resolved_xrefs b = map (\<lambda>(s, r, f, off). (s, r, map_of (b_files b) f, off)) (b_xrefs b)"

lemma ids_distinct:
  assumes "n \<le> 2 ^ 32"
  shows "distinct (map of_nat [0..<n] :: u32 list)" and "sorted (map of_nat [0..<n] :: u32 list)"
proof -
  have small: "unat (of_nat i :: u32) = i" if "i < n" for i using that assms by (simp add: unat_of_nat_small)
  then have "inj_on (of_nat :: nat \<Rightarrow> u32) (set [0..<n])"
    by (intro inj_onI) (metis atLeastLessThan_iff set_upt)
  then show "distinct (map of_nat [0..<n] :: u32 list)" by (simp add: distinct_map)
  have "(of_nat i :: u32) \<le> of_nat j" if "i \<le> j" "j < n" for i j
    using that small [of i] small [of j] by (simp add: word_le_nat_alt)
  then show "sorted (map of_nat [0..<n] :: u32 list)" by (auto simp: sorted_iff_nth_mono)
qed

lemma local_ids_lookup:
  assumes "p \<in> set (map snd files)" and "length (file_paths files) \<le> 2 ^ 32"
  shows "\<exists>l. map_of (local_ids files) p = Some l \<and> map_of (ranked_files files) l = Some p"
proof -
  let ?ps = "file_paths files"
  let ?ids = "map of_nat [0..<length ?ps] :: u32 list"
  have "p \<in> set ?ps" using assms(1) by simp
  then obtain i where i: "i < length ?ps" "?ps ! i = p" unfolding in_set_conv_nth by blast
  have len: "length ?ids = length ?ps" by simp
  have "map_of (zip ?ps ?ids) (?ps ! i) = Some (?ids ! i)"
    using i(1) len by (intro map_of_zip_nth) simp_all
  moreover have "map_of (zip ?ids ?ps) (?ids ! i) = Some (?ps ! i)"
    using i(1) len ids_distinct(1) [OF assms(2)] by (intro map_of_zip_nth) simp_all
  ultimately show ?thesis using i(2) unfolding local_ids_def ranked_files_def Let_def by metis
qed

lemma ranked_files_inj:
  "map_of (ranked_files files) l = Some p \<Longrightarrow> map_of (ranked_files files) l = Some q \<Longrightarrow> p = q"
  by simp

lemma ranked_files_paths: "map_of (ranked_files files) l = Some p \<Longrightarrow> p \<in> set (map snd files)"
  by (auto simp: ranked_files_def dest!: map_of_SomeD set_zip_rightD)

lemma g2l_lookup:
  assumes "map_of files g = Some p" and "length (file_paths files) \<le> 2 ^ 32"
  shows "\<exists>l. map_of (g2l_map files) g = Some l \<and> map_of (ranked_files files) l = Some p"
proof -
  have "p \<in> set (map snd files)" using map_of_SomeD [OF assms(1)] by force
  moreover have "map_of (g2l_map files) g = map_option (\<lambda>p. the (map_of (local_ids files) p)) (map_of files g)"
    by (simp add: g2l_map_def map_of_map)
  ultimately show ?thesis using local_ids_lookup [OF _ assms(2)] assms(1) by fastforce
qed

text \<open>Collecting the files under their local ids, one source row at a time.\<close>

lemma collect_files_lookup:
  assumes "\<And>g p. (g, p) \<in> set files \<Longrightarrow> \<exists>l. map_of g2l g = Some l \<and> R l = Some p"
    and "\<And>l p. map_of acc l = Some p \<Longrightarrow> R l = Some p"
  shows "map_of (collect_files g2l files acc) l =
    (if \<exists>(g, p) \<in> set files. map_of g2l g = Some l then R l else map_of acc l)"
  using assms
proof (induction g2l files acc rule: collect_files.induct)
  case (2 g2l g p files acc)
  obtain k where k: "map_of g2l g = Some k" "R k = Some p" using "2.prems"(1) by auto
  have ins: "map_of (hm_insert k p acc) = (map_of acc)(k \<mapsto> p)" by (simp split: option.split)
  have "map_of (collect_files g2l files (hm_insert k p acc)) l =
      (if \<exists>(g, p) \<in> set files. map_of g2l g = Some l then R l else map_of (hm_insert k p acc) l)"
  proof (rule "2.IH" [unfolded k(1) option.sel])
    show "\<exists>l. map_of g2l g' = Some l \<and> R l = Some p'" if "(g', p') \<in> set files" for g' p'
      using that by (intro "2.prems"(1)) simp
    show "R l' = Some p'" if "map_of (hm_insert k p acc) l' = Some p'" for l' p'
      using that "2.prems"(2) k(2) unfolding ins by (auto split: if_splits)
  qed
  then show ?case using k unfolding ins by auto
qed simp

lemma localized_files:
  assumes "hm_ok (b_files b)" and "length (file_paths (b_files b)) \<le> 2 ^ 32"
  shows "map_of (b_files (fst (localize_file_ids b))) = map_of (ranked_files (b_files b))"
    and "snd (localize_file_ids b) = ranked_files (b_files b)"
proof -
  let ?f = "b_files b"
  let ?c = "collect_files (g2l_map ?f) ?f []"
  have g2l: "\<exists>l. map_of (g2l_map ?f) g = Some l \<and> map_of (ranked_files ?f) l = Some p" if "(g, p) \<in> set ?f" for g p
    using that assms by (intro g2l_lookup) simp_all
  have hit: "\<exists>(g, p) \<in> set ?f. map_of (g2l_map ?f) g = Some l" if l: "map_of (ranked_files ?f) l = Some p" for l p
  proof -
    obtain g where g: "(g, p) \<in> set ?f" using ranked_files_paths [OF l] by auto
    then obtain l' where l': "map_of (g2l_map ?f) g = Some l'" "map_of (ranked_files ?f) l' = Some p" using g2l by blast
    have "distinct (map snd (ranked_files ?f))" by (simp add: ranked_files_def)
    then have "l' = l" using l'(2) l by (metis map_of_SomeD eq_key_imp_eq_value distinct_map inj_onD snd_conv fst_conv)
    with g l'(1) show ?thesis by blast
  qed
  have "map_of ?c l = map_of (ranked_files ?f) l" for l
    using collect_files_lookup [of ?f "g2l_map ?f" "map_of (ranked_files ?f)" "[]" l, OF g2l] hit
    by (cases "map_of (ranked_files ?f) l") (auto split: if_splits)
  then have eq: "map_of ?c = map_of (ranked_files ?f)" ..
  then show "map_of (b_files (fst (localize_file_ids b))) = map_of (ranked_files ?f)"
    by (simp add: localize_file_ids_def Let_def)
  have "hm_ok acc \<Longrightarrow> hm_ok (collect_files g2l files acc)" for g2l files and acc :: "(u32 \<times> bytes) list"
    by (induction g2l files acc rule: collect_files.induct) simp_all
  then have "hm_ok ?c" by simp
  moreover have "map fst (ranked_files ?f) = map of_nat [0..<length (file_paths ?f)]" by (simp add: ranked_files_def)
  ultimately have "sort_key fst ?c = ranked_files ?f"
    using eq ids_distinct [OF assms(2)] by (intro sorted_hm_unique) (simp_all add: distinct_map sort_key_fst_map)
  then show "snd (localize_file_ids b) = ranked_files ?f" by (simp add: localize_file_ids_def Let_def)
qed

lemma localized_xrefs:
  assumes "hm_ok (b_files b)" and "length (file_paths (b_files b)) \<le> 2 ^ 32"
    and "\<forall>(s, r, f, off) \<in> set (b_xrefs b). f \<in> fst ` set (b_files b)"
  shows "resolved_xrefs (fst (localize_file_ids b)) = resolved_xrefs b"
proof -
  have "map_of (ranked_files (b_files b)) (case map_of (g2l_map (b_files b)) f of Some l \<Rightarrow> l | None \<Rightarrow> f) = map_of (b_files b) f"
    if known: "f \<in> fst ` set (b_files b)" for f
  proof -
    obtain p where p: "map_of (b_files b) f = Some p"
      using known by (cases "map_of (b_files b) f") (simp_all add: map_of_eq_None_iff)
    from g2l_lookup [OF p assms(2)] p show ?thesis by auto
  qed
  note same = this
  have "map ((\<lambda>(s, r, f, off). (s, r, map_of (ranked_files (b_files b)) f, off)) \<circ>
      (\<lambda>(s, r, f, off). (s, r, case map_of (g2l_map (b_files b)) f of Some l \<Rightarrow> l | None \<Rightarrow> f, off))) (b_xrefs b) =
    map (\<lambda>(s, r, f, off). (s, r, map_of (b_files b) f, off)) (b_xrefs b)"
  proof (rule map_cong [OF refl])
    fix x assume "x \<in> set (b_xrefs b)"
    moreover obtain s r f off where x: "x = (s, r, f, off)" by (rule prod_cases4)
    ultimately have "f \<in> fst ` set (b_files b)" using assms(3) by blast
    from same [OF this] show "((\<lambda>(s, r, f, off). (s, r, map_of (ranked_files (b_files b)) f, off)) \<circ>
      (\<lambda>(s, r, f, off). (s, r, case map_of (g2l_map (b_files b)) f of Some l \<Rightarrow> l | None \<Rightarrow> f, off))) x =
      (case x of (s, r, f, off) \<Rightarrow> (s, r, map_of (b_files b) f, off))" by (simp add: x)
  qed
  then show ?thesis
    using localized_files(1) [OF assms(1,2)] by (simp add: resolved_xrefs_def localize_file_ids_def Let_def)
qed

end
