(* ===== verification/S2_Partition.thy ===== *)
theory S2_Partition
  imports S2_Localize
begin

text \<open>
  Merging in groups (\<open>src/crates/scry2/src/writer.rs\<close>, \<^verbatim>\<open>coalesce_shards_remapped\<close> and
  \<^verbatim>\<open>merge_group_global\<close>): merging the merges of two groups writes the file that merging all the
  sources at once writes, provided a symbol that one group takes for a variable is a variable of the
  whole. The condition is needed, because a group drops the aliases of its variables.
\<close>

section \<open>What a content depends on\<close>

lemma var_syms_lookup: "hm_ok m \<Longrightarrow> set (var_syms m) = {s. \<exists>l n. map_of m s = Some (kind_VARIABLE, l, n)}"
  by (force simp: var_syms_def)

lemma strings_unique:
  assumes "\<And>s. least_string xs s = least_string ys s"
  shows "first_per_sym None (sort_dedup xs) = first_per_sym None (sort_dedup ys)"
  using first_per_sym_props(2,3) [of "sort_dedup xs" None] first_per_sym_props(2,3) [of "sort_dedup ys" None] assms
  by (intro sorted_hm_unique) (simp_all add: fun_eq_iff map_of_first_per_sym)

lemma finish_content_cong:
  assumes ok: "hm_ok (b_syms A)" "hm_ok (b_files A)" "hm_ok (b_syms B)" "hm_ok (b_files B)"
    and maps: "map_of (b_syms A) = map_of (b_syms B)" "map_of (b_files A) = map_of (b_files B)"
    and rows: "set (b_xrefs A) = set (b_xrefs B)" "set (b_inherits A) = set (b_inherits B)"
      "set (b_calls A) = set (b_calls B)" "set (b_childof A) = set (b_childof B)"
    and aliases: "\<And>s a. s \<notin> set (var_syms (b_syms B)) \<Longrightarrow> (s, a) \<in> set (b_aliases A) \<longleftrightarrow> (s, a) \<in> set (b_aliases B)"
    and strings: "\<And>s. least_string (b_typed A) s = least_string (b_typed B) s"
      "\<And>s. least_string (b_sig A) s = least_string (b_sig B) s"
  shows "finish_content A = finish_content B"
proof -
  have syms: "sorted_syms A = sorted_syms B"
    unfolding sorted_syms_def using ok maps
    by (intro sorted_hm_unique) (simp_all add: sort_key_fst_map distinct_map)
  have files: "sort_key fst (b_files A) = sort_key fst (b_files B)"
    using ok maps by (intro sorted_hm_unique) (simp_all add: sort_key_fst_map distinct_map)
  have "set (var_syms (sorted_syms B)) = set (var_syms (b_syms B))" by (simp add: var_syms_def sorted_syms_def)
  then have "kept_aliases (sorted_syms A) (b_aliases A) = kept_aliases (sorted_syms B) (b_aliases B)"
    unfolding kept_aliases_def syms using aliases by (intro sort_dedup_cong) auto
  then show ?thesis
    using rows by (simp add: finish_content_def syms files sort_dedup_cong [OF rows(1)] sort_dedup_cong [OF rows(2)]
        sort_dedup_cong [OF rows(3)] sort_dedup_cong [OF rows(4)] strings_unique [OF strings(1)] strings_unique [OF strings(2)])
qed

section \<open>Merging contents\<close>

lemma content_builder_maps:
  assumes "builder_ok b" and "short_strings (finish_content b)"
  defines "B \<equiv> content_builder (finish_content b)"
  shows "map_of (b_syms B) = map_of (b_syms b)" and "map_of (b_files B) = map_of (b_files b)"
    and "set (b_aliases B) = {(s, a) \<in> set (b_aliases b). s \<notin> set (var_syms (b_syms b))}"
    and "least_string (b_typed B) s = least_string (b_typed b) s" and "least_string (b_sig B) s = least_string (b_sig b) s"
proof -
  have ok: "hm_ok (b_syms b)" "hm_ok (b_files b)" using assms(1) by (simp_all add: builder_ok_def)
  have short: "b_syms B = sorted_syms b" "b_files B = sort_key fst (b_files b)"
      "b_typed B = first_per_sym None (sort_dedup (b_typed b))" "b_sig B = first_per_sym None (sort_dedup (b_sig b))"
    using assms(2) by (simp_all add: B_def content_builder_def short_strings_def map_clamp_short) (simp_all add: finish_content_def)
  show "map_of (b_syms B) = map_of (b_syms b)" "map_of (b_files B) = map_of (b_files b)"
    using ok by (simp_all add: short sorted_syms_def sort_key_fst_map)
  have least: "least_string (first_per_sym None (sort_dedup rows)) s = least_string rows s" for rows
  proof -
    have p: "sorted (map fst (first_per_sym None (sort_dedup rows)))" "hm_ok (first_per_sym None (sort_dedup rows))"
      using first_per_sym_props(2,3) [of "sort_dedup rows" None] by simp_all
    then have "sorted (first_per_sym None (sort_dedup rows))" using hm_ok_sorted by blast
    then show ?thesis using map_of_sorted_least map_of_first_per_sym by metis
  qed
  show "least_string (b_typed B) s = least_string (b_typed b) s" "least_string (b_sig B) s = least_string (b_sig b) s"
    by (simp_all add: short least)
  have "set (b_aliases B) = set (c_aliases (finish_content b))"
  proof -
    have "(s, clamp_blob_str a) = (s, a)" if "(s, a) \<in> set (c_aliases (finish_content b))" for s a
      using assms(2) that by (auto simp: short_strings_def clamp_id)
    then show ?thesis by (force simp: B_def content_builder_def)
  qed
  also have "\<dots> = {(s, a) \<in> set (b_aliases b). s \<notin> set (var_syms (b_syms b))}"
    by (auto simp: finish_content_def kept_aliases_def var_syms_def sorted_syms_def)
  finally show "set (b_aliases B) = {(s, a) \<in> set (b_aliases b). s \<notin> set (var_syms (b_syms b))}" .
qed

text \<open>A symbol that either part takes for a variable is a variable of the whole.\<close>

definition vars_agree :: "unicode_tables \<Rightarrow> index_builder \<Rightarrow> index_builder \<Rightarrow> bool" where
  "vars_agree U A B \<longleftrightarrow>
     set (var_syms (b_syms A)) \<union> set (var_syms (b_syms B)) \<subseteq> set (var_syms (b_syms (merge_from U A B)))"

lemma finish_content_merge:
  assumes A: "builder_ok A" "short_strings (finish_content A)" and B: "builder_ok B" "short_strings (finish_content B)"
    and vars: "vars_agree U A B"
  shows "finish_content (merge_from U (content_builder (finish_content A)) (content_builder (finish_content B))) =
    finish_content (merge_from U A B)"
proof -
  let ?A = "content_builder (finish_content A)" and ?B = "content_builder (finish_content B)"
  note mA = content_builder_maps [OF A] and mB = content_builder_maps [OF B]
  have ok: "builder_ok ?A" "builder_ok ?B"
    using builder_ok_content content_ok_finish A(1) B(1) by blast+
  have hm: "hm_ok (b_syms A)" "hm_ok (b_files A)" "hm_ok (b_syms B)" "hm_ok (b_files B)"
      "hm_ok (b_syms ?A)" "hm_ok (b_files ?A)" "hm_ok (b_syms ?B)" "hm_ok (b_files ?B)"
    using A(1) B(1) ok by (simp_all add: builder_ok_def)
  have rows: "b_xrefs ?A = sort_dedup (b_xrefs A)" "b_inherits ?A = sort_dedup (b_inherits A)"
      "b_calls ?A = sort_dedup (b_calls A)" "b_childof ?A = sort_dedup (b_childof A)"
      "b_xrefs ?B = sort_dedup (b_xrefs B)" "b_inherits ?B = sort_dedup (b_inherits B)"
      "b_calls ?B = sort_dedup (b_calls B)" "b_childof ?B = sort_dedup (b_childof B)"
    by (simp_all add: content_builder_def finish_content_def)
  show ?thesis
  proof (rule finish_content_cong)
    show "map_of (b_syms (merge_from U ?A ?B)) = map_of (b_syms (merge_from U A B))"
      "map_of (b_files (merge_from U ?A ?B)) = map_of (b_files (merge_from U A B))"
      using hm mA(1,2) mB(1,2) by (simp_all add: fun_eq_iff merge_from_lookup)
    show "(s, a) \<in> set (b_aliases (merge_from U ?A ?B)) \<longleftrightarrow> (s, a) \<in> set (b_aliases (merge_from U A B))"
      if "s \<notin> set (var_syms (b_syms (merge_from U A B)))" for s a
      using that vars mA(3) mB(3) by (auto simp: vars_agree_def merge_from_def)
    show "least_string (b_typed (merge_from U ?A ?B)) s = least_string (b_typed (merge_from U A B)) s"
      "least_string (b_sig (merge_from U ?A ?B)) s = least_string (b_sig (merge_from U A B)) s" for s
      by (simp_all add: merge_from_def least_string_append mA(4,5) mB(4,5))
  qed (simp_all add: hm hm_ok_merge_from, simp_all add: merge_from_def rows)
qed

section \<open>Regrouping a fold of merges\<close>

lemma foldl_comb:
  assumes "\<And>x y z. f (f x y) z = f x (f y z)"
  shows "foldl (comb f) x ys = comb f x (foldl (comb f) None ys)"
proof (induction ys arbitrary: x)
  case (Cons y ys)
  have assoc: "comb f (comb f x y) z = comb f x (comb f y z)" for x y z
    using assms by (cases x; cases y; cases z) simp_all
  have "foldl (comb f) x (y # ys) = comb f (comb f x y) (foldl (comb f) None ys)" using Cons [of "comb f x y"] by simp
  also have "\<dots> = comb f x (comb f y (foldl (comb f) None ys))" by (rule assoc)
  also have "comb f y (foldl (comb f) None ys) = foldl (comb f) y ys" by (rule Cons [symmetric])
  finally show ?case by simp
qed simp

lemma gathered_regroup:
  assumes P: "hm_ok (b_syms P)" "hm_ok (b_files P)" and bs: "\<forall>x \<in> set bs. builder_ok x"
  shows "finish_content (foldl (merge_from U) P bs) = finish_content (merge_from U P (gathered U bs))"
proof -
  have hm: "\<forall>x \<in> set bs. hm_ok (b_syms x) \<and> hm_ok (b_files x)" using bs by (simp add: builder_ok_def)
  note g = gathered_ok [of U bs]
  have flat: "b_xrefs (foldl (merge_from U) b bs) = b_xrefs b @ concat (map b_xrefs bs)"
      "b_inherits (foldl (merge_from U) b bs) = b_inherits b @ concat (map b_inherits bs)"
      "b_calls (foldl (merge_from U) b bs) = b_calls b @ concat (map b_calls bs)"
      "b_childof (foldl (merge_from U) b bs) = b_childof b @ concat (map b_childof bs)"
      "b_aliases (foldl (merge_from U) b bs) = b_aliases b @ concat (map b_aliases bs)"
      "b_typed (foldl (merge_from U) b bs) = b_typed b @ concat (map b_typed bs)"
      "b_sig (foldl (merge_from U) b bs) = b_sig b @ concat (map b_sig bs)" for b
    by (induction bs arbitrary: b) (simp_all add: merge_from_def)
  show ?thesis
  proof (rule finish_content_cong)
    show "map_of (b_syms (foldl (merge_from U) P bs)) = map_of (b_syms (merge_from U P (gathered U bs)))"
    proof
      fix k
      show "map_of (b_syms (foldl (merge_from U) P bs)) k = map_of (b_syms (merge_from U P (gathered U bs))) k"
        unfolding merge_from_lookup(1) [OF g] fold_merge_maps(1) [OF hm] builder_new_maps map_of.simps
        by (rule foldl_comb) (rule refine_sym_assoc)
    qed
    show "map_of (b_files (foldl (merge_from U) P bs)) = map_of (b_files (merge_from U P (gathered U bs)))"
    proof
      fix k
      show "map_of (b_files (foldl (merge_from U) P bs)) k = map_of (b_files (merge_from U P (gathered U bs))) k"
        unfolding merge_from_lookup(2) [OF g] fold_merge_maps(2) [OF hm] builder_new_maps map_of.simps
        by (rule foldl_comb) (rule refl)
    qed
  qed (simp_all add: fold_merge_ok hm_ok_merge_from P g, simp_all add: flat merge_from_def builder_new_def)
qed

section \<open>Two levels write what one level writes\<close>

lemma merge_from_empty: "merge_from U P builder_new = P"
  by (simp add: merge_from_def builder_new_def)

lemma merge_single_level:
  assumes "list_all2 indexed bs ixs" and "replay_all U ixs builder_new = Some P" and "content_bounded (finish_content P)"
  shows "write_merged_snapshot U ixs builder_new = finish P" and "builder_ok P"
  using merged_is_finished [OF assms(1) builder_ok_new assms(2)] assms(3) by (simp_all add: merge_from_empty)

lemma two_levels:
  assumes ix1: "list_all2 indexed bs1 ixs1" "replay_all U ixs1 builder_new = Some P1"
    and ix2: "list_all2 indexed bs2 ixs2" "replay_all U ixs2 builder_new = Some P2"
    and g1: "write_merged_snapshot U ixs1 builder_new = Some f1" "index_open f1 = Inr i1"
    and g2: "write_merged_snapshot U ixs2 builder_new = Some f2" "index_open f2 = Inr i2"
    and bd: "content_bounded (finish_content P1)" "content_bounded (finish_content P2)"
      "content_bounded (finish_content (merge_from U P1 P2))"
    and short: "short_strings (finish_content P1)" "short_strings (finish_content P2)" and vars: "vars_agree U P1 P2"
  shows "write_merged_snapshot U [i1, i2] builder_new = write_merged_snapshot U (ixs1 @ ixs2) builder_new"
proof -
  note m1 = merge_single_level [OF ix1 bd(1)] and m2 = merge_single_level [OF ix2 bd(2)]
  have idx: "list_all2 indexed [P1, P2] [i1, i2]"
    using m1(2) m2(2) g1 g2 bd by (simp add: indexed_def flip: m1(1) m2(1))
  let ?C1 = "content_builder (finish_content P1)" and ?C2 = "content_builder (finish_content P2)"
  have C: "builder_ok ?C1" "builder_ok ?C2" using m1(2) m2(2) by (simp_all add: builder_ok_content content_ok_finish)
  obtain ts where ts: "list_all2 content_fits (map finish_content [P1, P2]) ts" "[i1, i2] = map opened ts"
    using indexed_contents [OF idx] by (elim exE conjE) (rule that)
  have "foldl (merge_from U) builder_new (map content_builder (map finish_content [P1, P2])) = merge_from U ?C1 ?C2"
    using merge_from_new [of ?C1 U] C(1) by (simp add: builder_ok_def)
  then have Q: "replay_all U [i1, i2] builder_new = Some (merge_from U ?C1 ?C2)"
    unfolding ts(2) replay_all_contents [OF ts(1)] by simp
  have fQ: "finish_content (merge_from U ?C1 ?C2) = finish_content (merge_from U P1 P2)"
    by (rule finish_content_merge [OF m1(2) short(1) m2(2) short(2) vars])
  have two: "write_merged_snapshot U [i1, i2] builder_new = finish (merge_from U ?C1 ?C2)"
    by (rule merge_single_level(1) [OF idx Q]) (simp add: fQ bd)
  obtain us where us: "list_all2 content_fits (map finish_content bs1) us" "ixs1 = map opened us"
    using indexed_contents [OF ix1(1)] by blast
  obtain vs where vs: "list_all2 content_fits (map finish_content bs2) vs" "ixs2 = map opened vs"
    using indexed_contents [OF ix2(1)] by blast
  let ?B2 = "map content_builder (map finish_content bs2)"
  have P1: "P1 = gathered U (map content_builder (map finish_content bs1))"
    using replay_all_contents [OF us(1), of U builder_new] ix1(2) us(2) by simp
  have P2: "P2 = gathered U ?B2"
    using replay_all_contents [OF vs(1), of U builder_new] ix2(2) vs(2) by simp
  have "list_all2 content_fits (map finish_content (bs1 @ bs2)) (us @ vs)"
    using us(1) vs(1) by (simp add: list_all2_appendI)
  from replay_all_contents [OF this, of U builder_new]
  have R: "replay_all U (ixs1 @ ixs2) builder_new = Some (foldl (merge_from U) P1 ?B2)"
    by (simp add: us(2) vs(2) P1)
  have "\<forall>x \<in> set ?B2. builder_ok x" using list_all2_left [OF vs(1)] by (simp add: builder_ok_content)
  then have fR: "finish_content (foldl (merge_from U) P1 ?B2) = finish_content (merge_from U P1 P2)"
    using gathered_regroup [of P1 ?B2 U] m1(2) unfolding P2 builder_ok_def by blast
  have "list_all2 indexed (bs1 @ bs2) (ixs1 @ ixs2)" using ix1(1) ix2(1) by (rule list_all2_appendI)
  then have "write_merged_snapshot U (ixs1 @ ixs2) builder_new = finish (foldl (merge_from U) P1 ?B2)"
    by (rule merge_single_level(1) [OF _ R]) (unfold fR, rule bd)
  then show ?thesis using two fQ fR by (simp add: finish_def finish_tables_def)
qed

end
