(* ===== verification/S2_Sample.thy ===== *)
theory S2_Sample
  imports S2_Partition S2_Handlers
begin

text \<open>
  A small builder with at least one row in every table, on which the hypotheses of the index
  theorems hold, and its finished content.
\<close>

definition sample :: index_builder where
  "sample = \<lparr> b_xrefs = [(7, 1, 0, 5), (7, 2, 0, 9), (8, 0, 0, 1), (7, 1, 0, 5)],
     b_syms = [(8, 2, 1, [0x62]), (7, 1, 1, [0x61, 0x62, 0x63])], b_files = [(0, [0x66])],
     b_inherits = [(8, 7)], b_aliases = [(7, [0x78])], b_calls = [(8, 7, 3)],
     b_typed = [(7, [0x6A]), (7, [0x69])], b_childof = [(8, 7)], b_sig = [(7, [0x73])] \<rparr>"

lemma sample_ok: "builder_ok sample"
  by code_simp

lemma sample_content:
  "finish_content sample =
     \<lparr> c_xrefs = [(7, 1, 0, 5), (7, 2, 0, 9), (8, 0, 0, 1)],
       c_syms = [(7, 1, 1, [0x61, 0x62, 0x63]), (8, 2, 1, [0x62])],
       c_aliases = [(7, [0x78])], c_files = [(0, [0x66])], c_inh = [(8, 7)], c_calls = [(8, 7, 3)],
       c_typed = [(7, [0x69])], c_childrev = [(8, 7)], c_sig = [(7, [0x73])] \<rparr>"
  by code_simp

lemma sample_bounded: "content_bounded (finish_content sample)"
  by (simp add: sample_content content_bounded_def content_weight_def content_blob_def clamp_id)

lemma sample_indexed: "\<exists>ix. indexed sample ix"
  using index_exists [OF sample_ok sample_bounded] by blast

lemma sample_rows:
  "sort_dedup (b_xrefs sample) = [(7, 1, 0, 5), (7, 2, 0, 9), (8, 0, 0, 1)]"
  "sort_dedup (b_inherits sample) = [(8, 7)]" "sort_dedup (b_childof sample) = [(8, 7)]"
  "sort_dedup (b_calls sample) = [(8, 7, 3)]"
  using sample_content by (simp_all add: finish_content_def)

lemma sample_short: "short_strings (finish_content sample)"
  by (simp add: short_strings_def sample_content)

text \<open>A small Unicode table, and the builder that replaying the sample's index gives.\<close>

abbreviation ascii_tables :: unicode_tables where
  "ascii_tables \<equiv> \<lparr> is_alphanumeric = \<lambda>c. 97 \<le> c, is_whitespace = \<lambda>c. c = 32 \<rparr>"

definition sample_replayed :: index_builder where
  "sample_replayed = \<lparr> b_xrefs = [(7, 1, 0, 5), (7, 2, 0, 9), (8, 0, 0, 1)],
     b_syms = [(7, 1, 1, [0x61, 0x62, 0x63]), (8, 2, 1, [0x62])], b_files = [(0, [0x66])],
     b_inherits = [(8, 7)], b_aliases = [(7, [0x78])], b_calls = [(8, 7, 3)],
     b_typed = [(7, [0x69])], b_childof = [(8, 7)], b_sig = [(7, [0x73])] \<rparr>"

lemma sample_replayed_eq: "content_builder (finish_content sample) = sample_replayed"
  by (simp add: sample_content content_builder_def clamp_id sample_replayed_def)

lemma sample_replay:
  assumes "indexed sample ix"
  shows "replay_all ascii_tables [ix] builder_new = Some sample_replayed"
proof -
  from assms obtain t where t: "content_fits (finish_content sample) t" "ix = opened t" by (rule indexedE)
  have "builder_ok sample_replayed"
    using builder_ok_content [OF content_fitsD(1) [OF t(1)]] by (simp add: sample_replayed_eq)
  then show ?thesis
    using populate_content [OF t(1), of ascii_tables builder_new] merge_from_new [of sample_replayed ascii_tables]
    by (simp add: t(2) sample_replayed_eq builder_ok_def)
qed

lemma sample_replayed_content: "finish_content sample_replayed = finish_content sample"
  using finish_content_builder [OF sample_ok sample_short] by (simp add: sample_replayed_eq)

lemma sample_replayed_merge:
  "finish_content (merge_from ascii_tables sample_replayed sample_replayed) = finish_content sample"
  by code_simp

lemma sample_vars: "vars_agree ascii_tables sample_replayed sample_replayed"
  by code_simp

text \<open>A reference finder for the witnesses.\<close>

fun find_sub :: "bytes \<Rightarrow> bytes \<Rightarrow> nat option" where
  "find_sub needle [] = (if needle = [] then Some 0 else None)"
| "find_sub needle (x # xs) =
     (if take (length needle) (x # xs) = needle then Some 0 else map_option Suc (find_sub needle xs))"

lemma find_sub_ok: "memmem_ok find_sub"
proof -
  have "find_sub needle hay \<noteq> None \<longleftrightarrow> sublist needle hay" for needle hay
  proof (induction hay)
    case (Cons x xs)
    have "take (length needle) (x # xs) = needle \<longleftrightarrow> prefix needle (x # xs)" by (metis prefix_def append_take_drop_id append_eq_conv_conj)
    with Cons show ?case by (auto simp: sublist_Cons_right)
  qed simp
  then show ?thesis by (simp add: memmem_ok_def)
qed

lemma sample_entries: "name_entries (finish_content sample) = [([0x61, 0x62, 0x63], 7), ([0x62], 8), ([0x78], 7)]"
  by (simp add: name_entries_def sample_content clamp_id)

lemma sample_served:
  assumes "indexed sample ix"
  shows "served sample ix"
proof -
  have "no_max sample" by (simp add: no_max_def sample_def)
  moreover have "names_small (name_entries (finish_content sample))" by (simp add: sample_entries names_small_def)
  ultimately show ?thesis using assms by (simp add: served_def)
qed

text \<open>The call graph of the sample: symbol 8, named \<^verbatim>\<open>b\<close>, calls symbol 7, named \<^verbatim>\<open>abc\<close>.\<close>

abbreviation no_filter :: path_filter where
  "no_filter \<equiv> \<lparr> pf_in = None, pf_not_in = None, pf_def_in = None \<rparr>"

lemma syms_for_name_entries:
  assumes "indexed b ix"
  shows "syms_for_name ix q = Some (sort_dedup (map snd (filter (\<lambda>(n, s). n = q) (name_entries (finish_content b)))))"
  using assms by (rule indexedE) (simp add: names_content)

lemma sort_dedup_single [simp]: "sort_dedup [x] = [x]" "sort_dedup [] = []"
  by (simp_all add: sort_dedup_def)

lemma sample_names:
  "symbol_name sample 7 = [0x61, 0x62, 0x63]" "symbol_name sample 8 = [0x62]"
  "logical_key [0x61, 0x62, 0x63] = [0x61, 0x62, 0x63]" "logical_key [0x62] = [0x62]"
  by (simp_all add: symbol_name_def sample_def clamp_id logical_key_def starts_with_def kythe_scheme_def)

lemma sample_lookups:
  assumes "indexed sample ix"
  shows "syms_for_name ix [0x61, 0x62, 0x63] = Some [7]" "syms_for_name ix [0x62] = Some [8]"
    "called_by ix 7 = Some [(8, 3)]" "called_by ix 8 = Some []"
    "name_of ix 7 = Some [0x61, 0x62, 0x63]" "name_of ix 8 = Some [0x62]"
  using meta_indexed(1) [OF assms]
  by (simp_all add: syms_for_name_entries [OF assms] sample_entries edges_indexed [OF assms] sample_names)
    (simp_all add: sample_def)

lemma sample_callgraph:
  assumes "indexed sample ix"
  shows "seed_syms find_sub 4 ix [0x61, 0x62, 0x63] False 16 no_filter = Some [7]"
    and "\<exists>nodes. do_callgraph find_sub 4 ix [0x61, 0x62, 0x63] (lit ''up'') 3 200 False 16 no_filter =
      Some (Reply_Callgraph nodes 1 False)"
proof -
  note look = sample_lookups [OF assms]
  show seed: "seed_syms find_sub 4 ix [0x61, 0x62, 0x63] False 16 no_filter = Some [7]"
    by (simp add: seed_syms_def resolve_name_def look def_in_ok_def pass_sym_def has_in_out_def)
  have up: "callers_of ix 7 = Some [8]" "callers_of ix 8 = Some []"
    by (simp_all add: callers_of_def union_edges_def dup_syms_def look sample_names Let_def sort_dedup_def)
  obtain d7 d8 k7 k8 where loc: "def_loc_str ix 7 = Some d7" "def_loc_str ix 8 = Some d8" "kind_of ix 7 = Some k7" "kind_of ix 8 = Some k8"
    using locations_total(3) [OF assms] meta_indexed(2) [OF assms] by metis
  have dirs: "lit ''up'' \<noteq> lit ''down''" "lit ''up'' \<noteq> lit ''both''" by (simp_all add: lit_def)
  show "\<exists>nodes. do_callgraph find_sub 4 ix [0x61, 0x62, 0x63] (lit ''up'') 3 200 False 16 no_filter =
      Some (Reply_Callgraph nodes 1 False)"
    by (simp add: do_callgraph_def seed grow_forest_def admit_def callgraph_walk_def look sample_names loc up dirs
        pass_sym_def has_in_out_def visit_dir_def numeral_3_eq_3 Let_def)
qed

end
