(* ===== verification/S2_Service.thy ===== *)
theory S2_Service
  imports S2_Handlers S2_Sample
begin

text \<open>
  Properties of the query service: every request on a served index is answered, the reply of each
  verb is characterised in terms of the builder the index was written from, the breadth-first
  forests show exactly the logical symbols within their depth at their distance, and the request
  loop answers line by line.
\<close>

section \<open>Every request is answered\<close>

lemma those_nth: "those (map f xs) = Some ys \<Longrightarrow> length ys = length xs \<and> (\<forall>i < length xs. f (xs ! i) = Some (ys ! i))"
proof (induction xs arbitrary: ys)
  case (Cons x xs)
  then obtain y zs where "f x = Some y" "those (map f xs) = Some zs" "ys = y # zs" by (auto split: option.splits)
  with Cons.IH show ?case by (auto simp: less_Suc_eq_0_disj)
qed simp

lemma filter_m_total: "(\<And>x. \<exists>b. p x = Some b) \<Longrightarrow> \<exists>ys. filter_m p xs = Some ys \<and> set ys \<subseteq> set xs"
proof (induction xs)
  case (Cons x xs)
  obtain b where "p x = Some b" using Cons.prems by blast
  with Cons show ?case by fastforce
qed simp

lemma seed_total:
  assumes "served b ix" and "memmem_ok memmem"
  shows "\<exists>roots. seed_syms memmem cores ix name substr lim filt = Some roots \<and> set roots \<subseteq> syms_dom"
proof -
  have ix: "indexed b ix" using assms(1) by (simp add: served_def)
  obtain rs where "resolve_name memmem cores ix name substr lim = Some rs" "set rs \<subseteq> syms_dom"
    using resolve_total(1) [OF assms] by blast
  moreover obtain rs1 where "filter_m (def_in_ok ix filt) rs = Some rs1" "set rs1 \<subseteq> set rs"
    using filter_m_total [of "def_in_ok ix filt"] locations_total(6) [OF ix] by metis
  moreover obtain rs2 where "filter_m (pass_sym ix filt) rs1 = Some rs2" "set rs2 \<subseteq> set rs1"
    using filter_m_total [of "pass_sym ix filt"] locations_total(5) [OF ix] by metis
  ultimately show ?thesis by (auto simp: seed_syms_def)
qed

lemma graphs_total:
  assumes "served b ix" and "memmem_ok memmem"
  shows "do_callgraph memmem cores ix name dir depth m substr lim filt \<noteq> None"
    and "do_inheritance memmem cores ix name dir depth m substr lim filt \<noteq> None"
proof -
  obtain roots where r: "seed_syms memmem cores ix name substr lim filt = Some roots" "set roots \<subseteq> syms_dom"
    using seed_total [OF assms] by blast
  have ok: "args_ok (ix, filt, dir, m)" using assms(1) by (auto simp: args_ok_def)
  show "do_callgraph memmem cores ix name dir depth m substr lim filt \<noteq> None"
    using callgraph.grow_forest_ok [OF ok r(2), of depth] by (auto simp: do_callgraph_def r(1))
  show "do_inheritance memmem cores ix name dir depth m substr lim filt \<noteq> None"
    using inheritance.grow_forest_ok [OF ok r(2), of depth] by (auto simp: do_inheritance_def r(1))
qed

lemma do_xrefs_eq:
  assumes "indexed b ix" and "(if substr then if ic then syms_matching_substring_ci memmem cores ix name cap
      else syms_matching_substring memmem cores ix name cap else syms_for_name ix name) = Some syms"
  shows "\<exists>gs. do_xrefs memmem cores ix name substr ic cap (lo, hi) m filt wt =
      Some (Reply_Xrefs gs (length (concat (map sg_rows gs)))
        ((substr \<and> cap \<le> length syms) \<or>
         max 1 m \<le> length (concat (map (symbol_hits b ix lo hi filt) (selected ix filt syms))))) \<and>
    group_prefix (max 1 m) (\<lambda>s. the (symbol_header ix wt s)) (symbol_hits b ix lo hi filt) (selected ix filt syms) gs"
proof -
  from xref_groups_eq [OF assms(1), of lo hi m filt wt syms "[]" 0 "substr \<and> cap \<le> length syms"]
  obtain gs where gs: "xref_groups ix lo hi m filt wt syms [] 0 (substr \<and> cap \<le> length syms) =
      Some (gs, length (concat (map sg_rows gs)), (substr \<and> cap \<le> length syms) \<or>
        max 1 m \<le> length (concat (map (symbol_hits b ix lo hi filt) (selected ix filt syms))))"
    "group_prefix (max 1 m) (\<lambda>s. the (symbol_header ix wt s)) (symbol_hits b ix lo hi filt) (selected ix filt syms) gs"
    by auto
  then show ?thesis
    by (intro exI [of _ gs]) (simp only: do_xrefs_def assms(2) Let_def prod.case bind.bind_lunit simp_thms)
qed

lemma do_xrefs_total:
  assumes "served b ix" and "memmem_ok memmem"
  shows "do_xrefs memmem cores ix name substr ic cap roles m filt wt \<noteq> None"
proof -
  have ix: "indexed b ix" using assms(1) by (simp add: served_def)
  obtain lo hi where roles: "roles = (lo, hi)" by (cases roles)
  have "\<exists>syms. (if substr then if ic then syms_matching_substring_ci memmem cores ix name cap
      else syms_matching_substring memmem cores ix name cap else syms_for_name ix name) = Some syms"
    using resolve_total(1) [OF assms, of cores name substr cap] resolve_total(2) [OF assms, of cores name cap]
    by (auto simp: resolve_name_def)
  then show ?thesis using do_xrefs_eq [OF ix] by (fastforce simp: roles)
qed

lemma lists_total:
  assumes "served b ix" and "memmem_ok memmem"
  shows "do_type memmem cores ix name substr limit \<noteq> None" "do_sig memmem cores ix name substr limit \<noteq> None"
    "do_members memmem cores ix name substr limit \<noteq> None"
proof -
  have ix: "indexed b ix" using assms(1) by (simp add: served_def)
  obtain syms where s: "resolve_name memmem cores ix name substr (max limit SUBSTR_AGG_CAP) = Some syms" "set syms \<subseteq> syms_dom"
    using resolve_total(1) [OF assms] by blast
  show "do_type memmem cores ix name substr limit \<noteq> None" "do_sig memmem cores ix name substr limit \<noteq> None"
    by (simp_all add: do_type_def do_sig_def s(1) type_hits_eq [OF ix] sig_hits_eq [OF ix])
  have "members_ok b \<lparr> ms_seen = {}, ms_rendered = {}, ms_members = [] \<rparr>" by (simp add: members_ok_def)
  from container_hits_eq [OF assms(1) this s(2), of limit name]
  show "do_members memmem cores ix name substr limit \<noteq> None" by (auto simp: do_members_def s(1))
qed

lemma do_inh_eq:
  assumes "served b ix" and "memmem_ok memmem" and "resolve_name memmem cores ix name substr limit = Some syms"
    and "R = {r. passing ix filt r \<and> (\<exists>s \<in> set syms. r \<in> set (the (if sub then inherited_by ix s else inherits_of ix s)))}"
  shows "\<exists>hits order groups. do_inh memmem cores ix name substr limit sub filt = Some (Reply_Inh hits (length hits)) \<and>
    grouped b R order groups \<and> those (map (inh_hit_of ix groups) order) = Some hits"
proof -
  have ix: "indexed b ix" using assms(1) by (simp add: served_def)
  obtain syms' where "resolve_name memmem cores ix name substr limit = Some syms'" "set syms' \<subseteq> syms_dom"
    using resolve_total(1) [OF assms(1,2)] by blast
  then have dom: "set syms \<subseteq> syms_dom" using assms(3) by simp
  let ?st = "\<lparr> is_seen = {}, is_order = [], is_groups = Map.empty \<rparr>"
  have "inh_ok b (passing ix filt) ?st" by (simp add: inh_ok_def grouped_def)
  from inh_collect_eq [OF assms(1) this dom, of sub] obtain st where
    st: "inh_collect ix sub filt syms ?st = Some st" "inh_ok b (passing ix filt) st"
      "is_seen st = (\<Union>s \<in> set syms. set (the (if sub then inherited_by ix s else inherits_of ix s)))" by auto
  have "{r \<in> is_seen st. passing ix filt r} = R" unfolding st(3) assms(4) by blast
  then have g: "grouped b R (is_order st) (is_groups st)" using st(2) by (simp add: inh_ok_def)
  have "inh_hit_of ix (is_groups st) lk \<noteq> None" if lk: "lk \<in> set (is_order st)" for lk
  proof -
    obtain ms where ms: "is_groups st lk = Some ms" using g lk unfolding grouped_def by blast
    have "lk \<in> symbol_key b ` R" using g lk by (simp add: grouped_def)
    moreover have "set ms = {r \<in> R. symbol_key b r = lk}" using g ms by (simp add: grouped_def)
    ultimately have "ms \<noteq> []" by fastforce
    then show ?thesis using inh_hit_total [where groups = "is_groups st", OF ix ms] by fastforce
  qed
  then obtain hits where "those (map (inh_hit_of ix (is_groups st)) (is_order st)) = Some hits"
    using those_total [of "is_order st" "inh_hit_of ix (is_groups st)"] by blast
  with st(1) g assms(3) show ?thesis
    by (intro exI [of _ hits] exI [of _ "is_order st"] exI [of _ "is_groups st"]) (simp add: do_inh_def)
qed

lemma do_inh_total:
  assumes "served b ix" and "memmem_ok memmem"
  shows "do_inh memmem cores ix name substr limit sub filt \<noteq> None"
proof -
  obtain syms where "resolve_name memmem cores ix name substr limit = Some syms"
    using resolve_total(1) [OF assms] by blast
  from do_inh_eq [OF assms this refl] show ?thesis by blast
qed



section \<open>The breadth-first forests\<close>

text \<open>What a traversal from the seed roots shows.\<close>

lemma forest_reply:
  assumes "grow_forest w roots depth = Some (nodes, tot, truncated)"
  shows "\<exists>syms. forest_spec w (set roots) depth truncated nodes syms \<and>
    (\<forall>s \<in> set roots. \<exists>j < length nodes. key_of w (syms ! j) = key_of w s \<and> cn_hop (nodes ! j) = 0) \<and>
    tot = length (filter (\<lambda>n. cn_hop n \<noteq> 0) nodes) \<and> length nodes \<le> max (w_max_syms w) (Suc (length roots)) \<and>
    (truncated \<longrightarrow> w_max_syms w \<le> length nodes)"
proof -
  obtain syms r where spec: "forest_spec w (set roots) depth truncated nodes syms"
      "\<forall>s \<in> set roots. \<exists>j < length nodes. key_of w (syms ! j) = key_of w s \<and> cn_hop (nodes ! j) = 0"
      "r = length (filter (\<lambda>n. cn_hop n = 0) nodes)" "r \<le> length roots" "tot = length nodes - r"
      "budget (w_max_syms w) r (length nodes) truncated"
    using grow_forest_spec [OF assms] by blast
  have "length (filter (\<lambda>n. cn_hop n = 0) nodes) + length (filter (\<lambda>n. cn_hop n \<noteq> 0) nodes) = length nodes"
    by (rule sum_length_filter_compl)
  with spec(3,5) have tot: "tot = length (filter (\<lambda>n. cn_hop n \<noteq> 0) nodes)" by simp
  have "length nodes \<le> max (w_max_syms w) (Suc (length roots))"
    using spec(4,6) by (cases "r < length nodes") (auto simp: budget_def)
  with spec tot show ?thesis by (intro exI [of _ syms]) (auto simp: budget_def)
qed

lemma forest_none: "forest_spec w {} depth False [] []"
  by (simp add: forest_spec_def tree_empty)

text \<open>C36: The reply of \<^verbatim>\<open>callgraph\<close> is a spanning forest. There is a symbol for every node such that: ids are
  positions; a root is a seed symbol at hop 0, and every other node was reached from an earlier node,
  its parent, one hop closer, along a recorded caller or callee edge of the asked direction, and passes
  the path filter; hops never decrease along the reply and never exceed the depth; no two nodes share a
  logical key; every seed symbol is represented at hop 0; unless the reply is truncated, every passing
  neighbour of a node below the depth is represented at most one hop further. \<^verbatim>\<open>total\<close> counts the nodes
  that are no roots, and the number of nodes exceeds \<^verbatim>\<open>max_syms\<close> only by the roots and one.\<close>

theorem callgraph_forest:
  assumes "served b ix" and "memmem_ok memmem" and "w = callgraph_walk ix filt direction max_syms"
  shows "\<exists>roots nodes tot truncated syms.
    seed_syms memmem cores ix name substr root_limit filt = Some roots \<and>
    do_callgraph memmem cores ix name direction depth max_syms substr root_limit filt =
      Some (Reply_Callgraph nodes tot truncated) \<and>
    forest_spec w (set roots) depth truncated nodes syms \<and>
    (\<forall>s \<in> set roots. \<exists>j < length nodes. key_of w (syms ! j) = key_of w s \<and> cn_hop (nodes ! j) = 0) \<and>
    tot = length (filter (\<lambda>n. cn_hop n \<noteq> 0) nodes) \<and> length nodes \<le> max max_syms (Suc (length roots)) \<and>
    (truncated \<longrightarrow> max_syms \<le> length nodes)"
proof -
  obtain roots where r: "seed_syms memmem cores ix name substr root_limit filt = Some roots" "set roots \<subseteq> syms_dom"
    using seed_total [OF assms(1,2)] by blast
  have m: "w_max_syms w = max_syms" by (simp add: assms(3) callgraph_walk_def)
  show ?thesis
  proof (cases "roots = []")
    case True
    with r forest_none [of w depth] show ?thesis by (auto simp: do_callgraph_def)
  next
    case False
    have "args_ok (ix, filt, direction, max_syms)" using assms(1) by (auto simp: args_ok_def)
    from callgraph.grow_forest_ok [OF this r(2), of depth] obtain nodes tot truncated where
      g: "grow_forest w roots depth = Some (nodes, tot, truncated)" by (auto simp: assms(3))
    then have "do_callgraph memmem cores ix name direction depth max_syms substr root_limit filt =
        Some (Reply_Callgraph nodes tot truncated)"
      using False by (simp add: do_callgraph_def r(1) assms(3))
    with r(1) forest_reply [OF g] m show ?thesis by metis
  qed
qed

theorem callgraph_forest_witness:
  "\<exists>ix roots nodes tot truncated. served sample ix \<and>
     seed_syms find_sub 4 ix [0x61, 0x62, 0x63] False 16 \<lparr> pf_in = None, pf_not_in = None, pf_def_in = None \<rparr> = Some roots \<and>
     do_callgraph find_sub 4 ix [0x61, 0x62, 0x63] (lit ''up'') 3 200 False 16
       \<lparr> pf_in = None, pf_not_in = None, pf_def_in = None \<rparr> = Some (Reply_Callgraph nodes tot truncated) \<and>
     length nodes \<le> max 200 (Suc (length roots))"
proof -
  obtain ix where "indexed sample ix" using sample_indexed by blast
  then have "served sample ix" by (rule sample_served)
  with callgraph_forest [OF this find_sub_ok refl] show ?thesis by metis
qed

text \<open>The reply of \<^verbatim>\<open>inheritance\<close> is the same kind of spanning forest, over the recorded supertype and
  subtype edges, with tickets displayed by their definition site.\<close>

theorem inheritance_forest:
  assumes "served b ix" and "memmem_ok memmem" and "w = inheritance_walk ix filt direction max_syms"
  shows "\<exists>roots nodes tot truncated syms.
    seed_syms memmem cores ix name substr root_limit filt = Some roots \<and>
    do_inheritance memmem cores ix name direction depth max_syms substr root_limit filt =
      Some (Reply_Inheritance nodes tot truncated) \<and>
    forest_spec w (set roots) depth truncated nodes syms \<and>
    (\<forall>s \<in> set roots. \<exists>j < length nodes. key_of w (syms ! j) = key_of w s \<and> cn_hop (nodes ! j) = 0) \<and>
    tot = length (filter (\<lambda>n. cn_hop n \<noteq> 0) nodes) \<and> length nodes \<le> max max_syms (Suc (length roots)) \<and>
    (truncated \<longrightarrow> max_syms \<le> length nodes)"
proof -
  obtain roots where r: "seed_syms memmem cores ix name substr root_limit filt = Some roots" "set roots \<subseteq> syms_dom"
    using seed_total [OF assms(1,2)] by blast
  have m: "w_max_syms w = max_syms" by (simp add: assms(3) inheritance_walk_def)
  show ?thesis
  proof (cases "roots = []")
    case True
    with r forest_none [of w depth] show ?thesis by (auto simp: do_inheritance_def)
  next
    case False
    have "args_ok (ix, filt, direction, max_syms)" using assms(1) by (auto simp: args_ok_def)
    from inheritance.grow_forest_ok [OF this r(2), of depth] obtain nodes tot truncated where
      g: "grow_forest w roots depth = Some (nodes, tot, truncated)" by (auto simp: assms(3))
    then have "do_inheritance memmem cores ix name direction depth max_syms substr root_limit filt =
        Some (Reply_Inheritance nodes tot truncated)"
      using False by (simp add: do_inheritance_def r(1) assms(3))
    with r(1) forest_reply [OF g] m show ?thesis by metis
  qed
qed

theorem inheritance_forest_witness:
  "\<exists>ix roots nodes tot truncated. served sample ix \<and>
     seed_syms find_sub 4 ix [0x62] False 16 \<lparr> pf_in = None, pf_not_in = None, pf_def_in = None \<rparr> = Some roots \<and>
     do_inheritance find_sub 4 ix [0x62] (lit ''both'') 3 200 False 16
       \<lparr> pf_in = None, pf_not_in = None, pf_def_in = None \<rparr> = Some (Reply_Inheritance nodes tot truncated) \<and>
     length nodes \<le> max 200 (Suc (length roots))"
proof -
  obtain ix where "indexed sample ix" using sample_indexed by blast
  then have "served sample ix" by (rule sample_served)
  with inheritance_forest [OF this find_sub_ok refl] show ?thesis by metis
qed

text \<open>C37: With readable names, an untruncated \<^verbatim>\<open>callgraph\<close> or \<^verbatim>\<open>inheritance\<close> reply shows exactly the names
  of the symbols within \<open>depth\<close> passing edges of the seed symbols, each once, and the hop of a node is
  the length of a shortest such path.\<close>

theorem forest_distances:
  assumes "served b ix" and "readable b" and "seed_syms memmem cores ix name substr root_limit filt = Some roots"
  shows "(do_callgraph memmem cores ix name direction depth max_syms substr root_limit filt =
        Some (Reply_Callgraph nodes tot False) \<longrightarrow>
      hops_are_distances (callgraph_walk ix filt direction max_syms) (set roots) depth (symbol_name b) nodes) \<and>
    (do_inheritance memmem cores ix name direction depth max_syms substr root_limit filt =
        Some (Reply_Inheritance nodes tot False) \<longrightarrow>
      hops_are_distances (inheritance_walk ix filt direction max_syms) (set roots) depth (symbol_name b) nodes)"
proof -
  have ix: "indexed b ix" using assms(1) by (simp add: served_def)
  have ok: "readable_args (ix, filt, direction, max_syms)" using assms(1,2) by (auto simp: readable_args_def)
  have names: "name_of ix s = Some (symbol_name b s)" "logical_key (symbol_name b s) = symbol_name b s" for s
    using meta_indexed(1) [OF ix] readable_name(1) [OF assms(2)] by auto
  show ?thesis
  proof (intro conjI impI)
    assume "do_callgraph memmem cores ix name direction depth max_syms substr root_limit filt = Some (Reply_Callgraph nodes tot False)"
    then show "hops_are_distances (callgraph_walk ix filt direction max_syms) (set roots) depth (symbol_name b) nodes"
    proof (cases "roots = []")
      case False
      with \<open>do_callgraph memmem cores ix name direction depth max_syms substr root_limit filt = Some (Reply_Callgraph nodes tot False)\<close>
      have "grow_forest (callgraph_walk ix filt direction max_syms) roots depth = Some (nodes, tot, False)"
        by (auto simp: do_callgraph_def assms(3) bind_eq_Some_conv)
      from forest_reply [OF this] obtain syms where
        "forest_spec (callgraph_walk ix filt direction max_syms) (set roots) depth False nodes syms"
        "\<forall>s \<in> set roots. \<exists>j < length nodes. key_of (callgraph_walk ix filt direction max_syms) (syms ! j) =
          key_of (callgraph_walk ix filt direction max_syms) s \<and> cn_hop (nodes ! j) = 0" by blast
      from callgraph_keyed.distances [OF ok, simplified, OF this] show ?thesis
        by (simp add: key_of_def callgraph_walk_def names)
    qed (auto simp: do_callgraph_def assms(3) hops_none [simplified])
  next
    assume "do_inheritance memmem cores ix name direction depth max_syms substr root_limit filt = Some (Reply_Inheritance nodes tot False)"
    then show "hops_are_distances (inheritance_walk ix filt direction max_syms) (set roots) depth (symbol_name b) nodes"
    proof (cases "roots = []")
      case False
      with \<open>do_inheritance memmem cores ix name direction depth max_syms substr root_limit filt = Some (Reply_Inheritance nodes tot False)\<close>
      have "grow_forest (inheritance_walk ix filt direction max_syms) roots depth = Some (nodes, tot, False)"
        by (auto simp: do_inheritance_def assms(3) bind_eq_Some_conv)
      from forest_reply [OF this] obtain syms where
        "forest_spec (inheritance_walk ix filt direction max_syms) (set roots) depth False nodes syms"
        "\<forall>s \<in> set roots. \<exists>j < length nodes. key_of (inheritance_walk ix filt direction max_syms) (syms ! j) =
          key_of (inheritance_walk ix filt direction max_syms) s \<and> cn_hop (nodes ! j) = 0" by blast
      from inheritance_keyed.distances [OF ok, simplified, OF this] show ?thesis
        by (simp add: key_of_def inheritance_walk_def names display_name_def readable_name(3) [OF assms(2)])
    qed (auto simp: do_inheritance_def assms(3) hops_none [simplified])
  qed
qed

theorem forest_distances_witness:
  "\<exists>ix nodes. served sample ix \<and>
     do_callgraph find_sub 4 ix [0x61, 0x62, 0x63] (lit ''up'') 3 200 False 16 no_filter =
       Some (Reply_Callgraph nodes 1 False) \<and>
     hops_are_distances (callgraph_walk ix no_filter (lit ''up'') 200) {7} 3 (symbol_name sample) nodes"
proof -
  obtain ix where ix: "indexed sample ix" using sample_indexed by blast
  have r: "readable sample" by (simp add: readable_def sample_def starts_with_def kythe_scheme_def lit_def)
  obtain nodes where n: "do_callgraph find_sub 4 ix [0x61, 0x62, 0x63] (lit ''up'') 3 200 False 16 no_filter =
      Some (Reply_Callgraph nodes 1 False)" using sample_callgraph(2) [OF ix] by blast
  from forest_distances [OF sample_served [OF ix] r sample_callgraph(1) [OF ix], of "lit ''up''" 3 200 nodes 1] n
  have "hops_are_distances (callgraph_walk ix no_filter (lit ''up'') 200) (set [7]) 3 (symbol_name sample) nodes" by blast
  with n sample_served [OF ix] show ?thesis by auto
qed

text \<open>Two stub-jar copies of one function, with different tickets, an alias they share, and a caller of
  the second copy.\<close>

definition stub_copies :: index_builder where
  "stub_copies = builder_new\<lparr> b_syms := [(1, 1, 2, lit ''kythe:a#s''), (2, 1, 2, lit ''kythe:b#s''), (3, 1, 2, lit ''c'')],
     b_aliases := [(1, lit ''f''), (2, lit ''f'')], b_calls := [(3, 2, 3)] \<rparr>"

lemma stub_lit:
  "lit ''kythe:a#s'' = [0x6B, 0x79, 0x74, 0x68, 0x65, 0x3A, 0x61, 0x23, 0x73]"
  "lit ''kythe:b#s'' = [0x6B, 0x79, 0x74, 0x68, 0x65, 0x3A, 0x62, 0x23, 0x73]" "lit ''c'' = [0x63]" "lit ''f'' = [0x66]"
  by (simp_all add: lit_def)

lemma stub_content:
  "finish_content stub_copies =
     \<lparr> c_xrefs = [], c_syms = [(1, 1, 2, lit ''kythe:a#s''), (2, 1, 2, lit ''kythe:b#s''), (3, 1, 2, lit ''c'')],
       c_aliases = [(1, lit ''f''), (2, lit ''f'')], c_files = [], c_inh = [], c_calls = [(3, 2, 3)],
       c_typed = [], c_childrev = [], c_sig = [] \<rparr>"
  unfolding stub_copies_def stub_lit by code_simp

lemma stub_entries:
  "name_entries (finish_content stub_copies) =
     [(lit ''c'', 3), (lit ''f'', 1), (lit ''f'', 2), (lit ''kythe:a#s'', 1), (lit ''kythe:b#s'', 2)]"
  by (simp add: name_entries_def stub_content stub_lit clamp_id)

lemma stub_served: "\<exists>ix. served stub_copies ix"
proof -
  have "builder_ok stub_copies" unfolding stub_copies_def stub_lit by code_simp
  moreover have "content_bounded (finish_content stub_copies)"
    by (simp add: stub_content stub_lit content_bounded_def content_weight_def content_blob_def clamp_id)
  ultimately obtain ix where "indexed stub_copies ix" using index_exists by blast
  moreover have "no_max stub_copies" by (simp add: no_max_def stub_copies_def builder_new_def)
  moreover have "names_small (name_entries (finish_content stub_copies))" by (simp add: names_small_def stub_entries)
  ultimately show ?thesis by (auto simp: served_def)
qed

text \<open>Copies of one logical symbol whose tickets differ, as stub jars give them, share a node of the
  call graph, but the edges of the node are only those of the copies with the same ticket: here the
  second copy has a caller, and the reply for the name both copies answer to shows none and is not
  marked as truncated.\<close>

theorem copies_lose_edges:
  "\<exists>ix n. served stub_copies ix \<and> syms_for_name ix (lit ''f'') = Some [1, 2] \<and> called_by ix 2 = Some [(3, 3)] \<and>
     do_callgraph find_sub 4 ix (lit ''f'') (lit ''up'') 3 200 False 16 no_filter = Some (Reply_Callgraph [n] 0 False)"
proof -
  obtain ix where sv: "served stub_copies ix" using stub_served by blast
  then have ix: "indexed stub_copies ix" by (simp add: served_def)
  have names: "name_of ix 1 = Some (lit ''kythe:a#s'')" "name_of ix 2 = Some (lit ''kythe:b#s'')"
    by (simp_all add: meta_indexed(1) [OF ix] symbol_name_def stub_copies_def builder_new_def clamp_id stub_lit)
  have keys: "logical_key (lit ''kythe:a#s'') = lit ''s''" "logical_key (lit ''kythe:b#s'') = lit ''s''"
    by (simp_all add: logical_key_def rsplit_hash_def stub_lit starts_with_def kythe_scheme_def) (simp_all add: lit_def)
  have roots: "syms_for_name ix (lit ''f'') = Some [1, 2]" "syms_for_name ix (lit ''kythe:a#s'') = Some [1]"
    by (simp_all add: syms_for_name_entries [OF ix] stub_entries) (simp_all add: stub_lit sort_dedup_def)
  have calls: "called_by ix 1 = Some []" "called_by ix 2 = Some [(3, 3)]"
    by (simp_all add: edges_indexed [OF ix] stub_copies_def builder_new_def)
  have seed: "seed_syms find_sub 4 ix (lit ''f'') False 16 no_filter = Some [1, 2]"
    by (simp add: seed_syms_def resolve_name_def roots def_in_ok_def pass_sym_def has_in_out_def)
  have up: "callers_of ix 1 = Some []"
    by (simp add: callers_of_def union_edges_def dup_syms_def names roots keys calls Let_def)
  obtain d k where loc: "def_loc_str ix 1 = Some d" "kind_of ix 1 = Some k"
    using locations_total(3) [OF ix] meta_indexed(2) [OF ix] by metis
  have dirs: "lit ''up'' \<noteq> lit ''down''" "lit ''up'' \<noteq> lit ''both''" by (simp_all add: lit_def)
  have "\<exists>n. do_callgraph find_sub 4 ix (lit ''f'') (lit ''up'') 3 200 False 16 no_filter = Some (Reply_Callgraph [n] 0 False)"
    by (simp add: do_callgraph_def seed grow_forest_def admit_def callgraph_walk_def names keys loc up dirs
        visit_dir_def numeral_3_eq_3 Let_def)
  with sv roots calls show ?thesis by blast
qed

section \<open>Listings\<close>

text \<open>C38: \<^verbatim>\<open>do_xrefs\<close>, behind \<^verbatim>\<open>def\<close>, \<^verbatim>\<open>ref\<close> and \<^verbatim>\<open>callers\<close>: the rows of the reply are the first
  \<open>max_hits\<close> (at least one) of the recorded cross references of the resolved symbols, in symbol order
  and then in row order, whose role is in range and whose file passes the filter, restricted to symbols
  whose definition passes \<^verbatim>\<open>--def-in\<close>; they are cut into one non-empty group per symbol, headed by its
  metadata; \<^verbatim>\<open>total\<close> counts the rows, and \<^verbatim>\<open>truncated\<close> is set exactly when the hit limit was reached or
  the substring search returned as many symbols as it was allowed to.\<close>

theorem xrefs_reply:
  assumes "indexed b ix" and "(if substr then if ignore_case then syms_matching_substring_ci memmem cores ix name sym_cap
      else syms_matching_substring memmem cores ix name sym_cap else syms_for_name ix name) = Some syms"
    and "hits = symbol_hits b ix role_lo role_hi filt"
  shows "\<exists>groups. do_xrefs memmem cores ix name substr ignore_case sym_cap (role_lo, role_hi) max_hits filt with_type =
      Some (Reply_Xrefs groups (length (concat (map sg_rows groups)))
        ((substr \<and> sym_cap \<le> length syms) \<or> max 1 max_hits \<le> length (concat (map hits (selected ix filt syms))))) \<and>
    concat (map sg_rows groups) = take (max 1 max_hits) (concat (map hits (selected ix filt syms))) \<and>
    (\<forall>g \<in> set groups. sg_rows g \<noteq> []) \<and>
    map (\<lambda>g. g\<lparr> sg_rows := [] \<rparr>) groups =
      take (length groups) (map (\<lambda>s. the (symbol_header ix with_type s)) (filter (\<lambda>s. hits s \<noteq> []) (selected ix filt syms)))"
  using do_xrefs_eq [OF assms(1,2), of role_lo role_hi max_hits filt with_type]
  unfolding assms(3) [symmetric] group_prefix_def by blast

theorem xrefs_reply_witness:
  "\<exists>ix groups. indexed sample ix \<and>
     do_xrefs find_sub 4 ix [0x61, 0x62, 0x63] False False 16 (0, 255) 200 no_filter False = Some (Reply_Xrefs groups 2 False) \<and>
     map sg_rows groups = [[\<lparr> xh_role = lit ''def'', xh_file = [0x66], xh_off = 5 \<rparr>, \<lparr> xh_role = lit ''ref'', xh_file = [0x66], xh_off = 9 \<rparr>]]"
proof -
  obtain ix where ix: "indexed sample ix" using sample_indexed by blast
  have "(if False then if False then syms_matching_substring_ci find_sub 4 ix [0x61, 0x62, 0x63] 16
      else syms_matching_substring find_sub 4 ix [0x61, 0x62, 0x63] 16 else syms_for_name ix [0x61, 0x62, 0x63]) = Some [7]"
    by (simp add: sample_lookups [OF ix])
  note reply = xrefs_reply [OF ix this refl, of 0 255 200 no_filter False]
  have sel: "selected ix no_filter [7] = [7]" by (simp add: selected_def def_in_ok_def)
  have hits: "symbol_hits sample ix 0 255 no_filter 7 =
      [\<lparr> xh_role = lit ''def'', xh_file = [0x66], xh_off = 5 \<rparr>, \<lparr> xh_role = lit ''ref'', xh_file = [0x66], xh_off = 9 \<rparr>]"
    by (simp add: symbol_hits_def xrefs_indexed [OF ix] sample_rows row_hit_def row_path_def passes_def)
      (simp add: sample_def clamp_id role_str_def role_DECL_def role_DEF_def role_REF_def word_le_nat_alt)
  obtain groups where g: "do_xrefs find_sub 4 ix [0x61, 0x62, 0x63] False False 16 (0, 255) 200 no_filter False =
        Some (Reply_Xrefs groups (length (concat (map sg_rows groups))) False)"
      "concat (map sg_rows groups) = symbol_hits sample ix 0 255 no_filter 7" "\<forall>g \<in> set groups. sg_rows g \<noteq> []"
      "length groups = length (take (length groups) [the (symbol_header ix False 7)])"
    using reply unfolding sel by (auto simp: hits dest: arg_cong [of _ _ length])
  then obtain g where "groups = [g]" by (cases groups) (auto simp: hits min_def split: if_splits)
  with g ix show ?thesis by (auto simp: hits)
qed

text \<open>\<^verbatim>\<open>type\<close> and \<^verbatim>\<open>sig\<close>: the hits are the first \<open>limit\<close> (at least one) of the resolved symbols that
  have a recorded type, or signature, keeping only the first of those with equal logical key and equal
  text, each with the least text recorded for it; \<^verbatim>\<open>truncated\<close> is set as soon as \<open>limit\<close> hits are there,
  whether or not more exist.\<close>

theorem type_and_sig_reply:
  assumes "indexed b ix" and "resolve_name memmem cores ix name substr (max limit SUBSTR_AGG_CAP) = Some syms"
  shows "(let hits = take (max 1 limit) (first_by_key {} (typed_items b syms))
      in do_type memmem cores ix name substr limit = Some (Reply_Type hits (length hits) (limit \<le> length hits)) \<and>
         distinct (map (\<lambda>h. (logical_key (th_name h), th_typed h)) hits)) \<and>
    (let hits = take (max 1 limit) (first_by_key {} (sig_items b syms))
      in do_sig memmem cores ix name substr limit = Some (Reply_Sig hits (length hits) (limit \<le> length hits)) \<and>
         distinct (map (\<lambda>h. (logical_key (sh_name h), sh_sig h)) hits))"
proof -
  have t: "\<forall>(k, h) \<in> set (typed_items b syms). (logical_key (th_name h), th_typed h) = k"
    and g: "\<forall>(k, h) \<in> set (sig_items b syms). (logical_key (sh_name h), sh_sig h) = k"
    by (auto simp: typed_items_def sig_items_def List.map_filter_def split: prod.splits)
  have "do_type memmem cores ix name substr limit = Some (let hits = take (max 1 limit) (first_by_key {} (typed_items b syms))
      in Reply_Type hits (length hits) (limit \<le> length hits))"
    "do_sig memmem cores ix name substr limit = Some (let hits = take (max 1 limit) (first_by_key {} (sig_items b syms))
      in Reply_Sig hits (length hits) (limit \<le> length hits))"
    by (simp_all add: do_type_def do_sig_def assms(2) type_hits_eq [OF assms(1)] sig_hits_eq [OF assms(1)] room_def Let_def)
  moreover note distinct = first_by_key_distinct [OF t, of "{}", THEN conjunct1] first_by_key_distinct [OF g, of "{}", THEN conjunct1]
  ultimately show ?thesis by (simp add: Let_def distinct_take [OF distinct(1)] distinct_take [OF distinct(2)] flip: take_map)
qed

theorem type_and_sig_reply_witness:
  "\<exists>ix. indexed sample ix \<and> do_type find_sub 4 ix [0x61, 0x62, 0x63] False 16 =
     Some (Reply_Type [\<lparr> th_name = [0x61, 0x62, 0x63], th_kind = lit ''fn'', th_lang = lit ''cxx'', th_typed = [0x69] \<rparr>] 1 False)"
proof -
  obtain ix where ix: "indexed sample ix" using sample_indexed by blast
  have "resolve_name find_sub 4 ix [0x61, 0x62, 0x63] False (max 16 SUBSTR_AGG_CAP) = Some [7]"
    by (simp add: resolve_name_def sample_lookups [OF ix])
  from type_and_sig_reply [OF ix this]
  have "do_type find_sub 4 ix [0x61, 0x62, 0x63] False 16 =
      Some (Reply_Type [\<lparr> th_name = [0x61, 0x62, 0x63], th_kind = lit ''fn'', th_lang = lit ''cxx'', th_typed = [0x69] \<rparr>] 1 False)"
    by (simp add: Let_def typed_items_def map_filter_Cons List.map_filter_simps meta_of_def sample_def clamp_id least_string_def min_def
        kind_str_def kind_FUNCTION_def lang_str_def lang_CXX_def)
  with ix show ?thesis by blast
qed

text \<open>\<^verbatim>\<open>members\<close>: the hits are the first \<open>limit\<close> (at least one) of the recorded members of the resolved
  symbols that are types or packages, in order, keeping only the first of those that render to the same
  logical key, kind and signature.\<close>

theorem members_reply:
  assumes "served b ix" and "memmem_ok memmem"
    and "resolve_name memmem cores ix name substr (max limit SUBSTR_AGG_CAP) = Some syms"
    and "all = first_by_key {} (map (member_item b) (concat (map (\<lambda>s. the (members ix s)) (containers b syms))))"
  shows "\<exists>container. do_members memmem cores ix name substr limit =
      Some (Reply_Members container (take (max 1 limit) all) (length (take (max 1 limit) all)) (max 1 limit \<le> length all)) \<and>
    distinct (map (\<lambda>h. (logical_key (mh_name h), mh_kind h, mh_sig h)) (take (max 1 limit) all))"
proof -
  have dom: "set syms \<subseteq> syms_dom" using resolve_total(1) [OF assms(1,2)] assms(3) by (metis option.inject)
  let ?st = "\<lparr> ms_seen = {}, ms_rendered = {}, ms_members = [] \<rparr>"
  have "members_ok b ?st" by (simp add: members_ok_def)
  from container_hits_eq [OF assms(1) this dom, of limit name] obtain c st where
    h: "container_hits ix limit syms name ?st = Some (c, st, max 1 limit \<le> length all)" "ms_members st = take (max 1 limit) all"
    by (auto simp: Let_def room_def assms(4))
  have "\<forall>(k, h) \<in> set (map (member_item b) cs). (logical_key (mh_name h), mh_kind h, mh_sig h) = k" for cs
    by (auto simp: member_item_def Let_def split: prod.splits)
  from first_by_key_distinct [OF this, of "{}", THEN conjunct1]
  have "distinct (map (\<lambda>h. (logical_key (mh_name h), mh_kind h, mh_sig h)) all)" by (simp only: assms(4))
  from distinct_take [OF this, of "max 1 limit"] h show ?thesis
    by (intro exI [of _ c]) (simp add: do_members_def assms(3) flip: take_map)
qed

theorem members_reply_witness:
  "\<exists>ix container. served sample ix \<and> do_members find_sub 4 ix [0x62] False 16 =
     Some (Reply_Members container [\<lparr> mh_name = [0x61, 0x62, 0x63], mh_kind = lit ''fn'', mh_lang = lit ''cxx'', mh_sig = Some [0x73] \<rparr>] 1 False)"
proof -
  obtain ix where ix: "indexed sample ix" using sample_indexed by blast
  have "resolve_name find_sub 4 ix [0x62] False (max 16 SUBSTR_AGG_CAP) = Some [8]"
    by (simp add: resolve_name_def sample_lookups [OF ix])
  note reply = members_reply [OF sample_served [OF ix] find_sub_ok this refl]
  have c: "containers sample [8] = [8]"
    by (simp add: containers_def meta_of_def sample_def is_container_def kind_TYPE_def)
  have m: "members ix 8 = Some [7]" by (simp add: edges_indexed [OF ix] sample_rows)
  have "member_item sample 7 = (([0x61, 0x62, 0x63], lit ''fn'', Some [0x73]),
      \<lparr> mh_name = [0x61, 0x62, 0x63], mh_kind = lit ''fn'', mh_lang = lit ''cxx'', mh_sig = Some [0x73] \<rparr>)"
    by (simp add: member_item_def meta_of_def sample_def clamp_id least_string_def Let_def logical_key_def starts_with_def
        kythe_scheme_def kind_str_def kind_FUNCTION_def lang_str_def lang_CXX_def)
  with reply c m show ?thesis using sample_served [OF ix] by auto
qed

text \<open>\<^verbatim>\<open>super\<close> and \<^verbatim>\<open>sub\<close>: one hit per logical key of the recorded supertypes, or subtypes, of the
  resolved symbols that pass the filter; a hit has a definition site as soon as one copy of the symbol
  has one, and the name of a copy with a readable name as soon as there is one.\<close>

theorem super_sub_reply:
  assumes "served b ix" and "memmem_ok memmem" and "resolve_name memmem cores ix name substr limit = Some syms"
    and "R = {r. passing ix filt r \<and> (\<exists>s \<in> set syms. r \<in> set (the (if sub then inherited_by ix s else inherits_of ix s)))}"
  shows "\<exists>hits keys. do_inh memmem cores ix name substr limit sub filt = Some (Reply_Inh hits (length hits)) \<and>
    length hits = length keys \<and> distinct keys \<and> set keys = symbol_key b ` R \<and>
    (\<forall>i < length keys.
      (ih_def (hits ! i) \<noteq> None \<longleftrightarrow> (\<exists>m \<in> R. symbol_key b m = keys ! i \<and> def_loc_str ix m \<noteq> Some None)) \<and>
      ((\<exists>m \<in> R. symbol_key b m = keys ! i \<and> \<not> starts_with (symbol_name b m) kythe_scheme) \<longrightarrow>
       (\<exists>m \<in> R. symbol_key b m = keys ! i \<and> \<not> starts_with (symbol_name b m) kythe_scheme \<and> ih_name (hits ! i) = symbol_name b m)))"
proof -
  have ix: "indexed b ix" using assms(1) by (simp add: served_def)
  obtain hits keys groups where h: "do_inh memmem cores ix name substr limit sub filt = Some (Reply_Inh hits (length hits))"
      "grouped b R keys groups" "those (map (inh_hit_of ix groups) keys) = Some hits"
    using do_inh_eq [OF assms] by blast
  have len: "length hits = length keys" and nth: "\<And>i. i < length keys \<Longrightarrow> inh_hit_of ix groups (keys ! i) = Some (hits ! i)"
    using those_nth [OF h(3)] by simp_all
  have hit: "(ih_def (hits ! i) \<noteq> None \<longleftrightarrow> (\<exists>m \<in> {m \<in> R. symbol_key b m = keys ! i}. def_loc_str ix m \<noteq> Some None)) \<and>
      ((\<exists>m \<in> {m \<in> R. symbol_key b m = keys ! i}. \<not> starts_with (symbol_name b m) kythe_scheme) \<longrightarrow>
       (\<exists>m \<in> {m \<in> R. symbol_key b m = keys ! i}. \<not> starts_with (symbol_name b m) kythe_scheme \<and> ih_name (hits ! i) = symbol_name b m))"
    if i: "i < length keys" for i
  proof -
    have k: "keys ! i \<in> set keys" using i by simp
    then obtain ms where ms: "groups (keys ! i) = Some ms" using h(2) unfolding grouped_def by blast
    have set: "set ms = {m \<in> R. symbol_key b m = keys ! i}" using h(2) ms by (simp add: grouped_def)
    moreover have "keys ! i \<in> symbol_key b ` R" using h(2) k by (simp add: grouped_def)
    ultimately have "ms \<noteq> []" by fastforce
    from inh_hit_total [where groups = groups, OF ix ms this] nth [OF i] show ?thesis unfolding set by auto
  qed
  have "length hits = length keys \<and> distinct keys \<and> set keys = symbol_key b ` R"
    using len h(2) by (simp add: grouped_def)
  with h(1) hit show ?thesis by (intro exI [of _ hits] exI [of _ keys]) blast
qed

theorem super_sub_reply_witness:
  "\<exists>ix hits. served sample ix \<and> do_inh find_sub 4 ix [0x62] False 16 False no_filter = Some (Reply_Inh hits 1)"
proof -
  obtain ix where ix: "indexed sample ix" using sample_indexed by blast
  have "resolve_name find_sub 4 ix [0x62] False 16 = Some [8]"
    by (simp add: resolve_name_def sample_lookups [OF ix])
  note reply = super_sub_reply [OF sample_served [OF ix] find_sub_ok this refl, of False no_filter]
  have "{r. passing ix no_filter r \<and> (\<exists>s \<in> set [8]. r \<in> set (the (if False then inherited_by ix s else inherits_of ix s)))} = {7}"
    by (simp add: edges_indexed [OF ix] sample_rows passing_def pass_sym_def has_in_out_def)
  then obtain hits keys where "do_inh find_sub 4 ix [0x62] False 16 False no_filter = Some (Reply_Inh hits (length hits))"
      "length hits = length keys" "distinct keys" "set keys = {symbol_key sample 7}"
    using reply by auto
  moreover from this(3,4) have "length keys = 1" by (metis distinct_card card_1_singleton_iff One_nat_def)
  ultimately show ?thesis using sample_served [OF ix] by auto
qed

section \<open>The request loop\<close>

text \<open>On a connection whose lines are valid UTF-8, the request loop writes one reply per non-blank line,
  in order, and ends without an error: the answer of the dispatcher to a request that parses, and an
  error reply to one that does not.\<close>

theorem handle_lines_replies:
  assumes "\<And>req. disp req \<noteq> None" and "\<And>r. to_string r \<noteq> None" and "\<forall>line \<in> set ls. utf8_valid line"
  shows "handle_lines U from_str to_string disp ls =
    Some (map (\<lambda>line. the (to_string (case from_str (trim_chars U (utf8_chars line)) of
        Inr req \<Rightarrow> the (disp req) | Inl e \<Rightarrow> Reply_Error (lit ''bad request: '' @ e))))
      (filter (\<lambda>line. trim_chars U (utf8_chars line) \<noteq> []) ls), True)"
  using assms(3)
proof (induction ls)
  case (Cons line ls)
  obtain r where r: "(case from_str (trim_chars U (utf8_chars line)) of Inr req \<Rightarrow> disp req
      | Inl e \<Rightarrow> Some (Reply_Error (lit ''bad request: '' @ e))) = Some r"
    "r = (case from_str (trim_chars U (utf8_chars line)) of Inr req \<Rightarrow> the (disp req) | Inl e \<Rightarrow> Reply_Error (lit ''bad request: '' @ e))"
    using assms(1) by (cases "from_str (trim_chars U (utf8_chars line))") auto
  obtain out where "to_string r = Some out" using assms(2) by blast
  with Cons r show ?case by (simp add: Let_def)
qed simp

theorem handle_lines_replies_witness:
  "\<exists>ix r. served sample ix \<and> dispatch find_sub 4 ix Req_Stat = Some r \<and>
     handle_lines ascii_tables (\<lambda>t. if t = [0x73] then Inr Req_Stat else Inl []) (\<lambda>r. Some (case r of Reply_Error e \<Rightarrow> e | _ \<Rightarrow> [0x6B]))
       (dispatch find_sub 4 ix) [[0x20, 0x73, 0x20], [0x20], [0x7A]] = Some ([[0x6B], lit ''bad request: ''], True)"
proof -
  obtain ix where ix: "indexed sample ix" using sample_indexed by blast
  have "dispatch find_sub 4 ix req \<noteq> None" for req
    using do_xrefs_total [OF sample_served [OF ix] find_sub_ok] lists_total [OF sample_served [OF ix] find_sub_ok]
      do_inh_total [OF sample_served [OF ix] find_sub_ok] graphs_total [OF sample_served [OF ix] find_sub_ok]
    by (cases req) (simp_all add: not_None_eq [symmetric] del: not_None_eq)
  from handle_lines_replies [OF this, of "\<lambda>r. Some (case r of Reply_Error e \<Rightarrow> e | _ \<Rightarrow> [0x6B])"
      "[[0x20, 0x73, 0x20], [0x20], [0x7A]]" ascii_tables "\<lambda>t. if t = [0x73] then Inr Req_Stat else Inl []"]
  show ?thesis using sample_served [OF ix]
    by (auto simp: trim_chars_def utf8_cont_def intro!: exI [of _ ix])
qed

end
