(* ===== verification/S2_Alloc.thy ===== *)
theory S2_Alloc
  imports S2_Iter
begin

text \<open>
  File ids (\<open>src/crates/scry2/src/kythe.rs\<close>, \<^verbatim>\<open>FileIdAllocator\<close>): the table of paths with their id and
  the \<^verbatim>\<open>accessed\<close> flag, the next id, and every operation. The mutex makes each operation atomic, so the
  interleavings of the workers are the sequences of operations.
\<close>

record file_ids =
  fa_table :: "(bytes \<times> u32 \<times> bool) list"
  fa_next :: u32

definition file_ids_default :: file_ids where
  "file_ids_default = \<lparr> fa_table = [], fa_next = 0 \<rparr>"

definition intern :: "bytes \<Rightarrow> file_ids \<Rightarrow> u32 \<times> file_ids" where
  "intern p a =
     (case map_of (fa_table a) p of
        Some (i, _) \<Rightarrow> (i, a\<lparr> fa_table := hm_insert p (i, True) (fa_table a) \<rparr>)
      | None \<Rightarrow> (fa_next a, a\<lparr> fa_table := hm_insert p (fa_next a, True) (fa_table a), fa_next := fa_next a + 1 \<rparr>))"

fun seed_paths :: "bytes list \<Rightarrow> file_ids \<Rightarrow> file_ids" where
  "seed_paths [] a = a"
| "seed_paths (p # ps) a =
     seed_paths ps
       (if map_of (fa_table a) p = None
        then a\<lparr> fa_table := hm_insert p (fa_next a, False) (fa_table a), fa_next := fa_next a + 1 \<rparr>
        else a)"

fun seed_rows :: "(u32 \<times> bytes) list \<Rightarrow> file_ids \<Rightarrow> file_ids" where
  "seed_rows [] a = a"
| "seed_rows ((i, p) # rows) a =
     (let a' = a\<lparr> fa_table := hm_or_insert p (i, False) (fa_table a) \<rparr>
      in seed_rows rows (if fa_next a' \<le> i then a'\<lparr> fa_next := i + 1 \<rparr> else a'))"

definition seed_from :: "index \<Rightarrow> file_ids \<Rightarrow> file_ids option" where
  "seed_from ix a = map_option (\<lambda>rows. seed_rows rows a) (iter_files ix)"

text \<open>\<^verbatim>\<open>drain_into\<close> and \<^verbatim>\<open>push_to\<close> record the accessed paths in the builder.\<close>

fun push_rows :: "(bytes \<times> u32 \<times> bool) list \<Rightarrow> index_builder \<Rightarrow> index_builder" where
  "push_rows [] b = b"
| "push_rows ((p, i, accessed) # rows) b = push_rows rows (if accessed then upsert_file i p b else b)"

definition push_to :: "file_ids \<Rightarrow> index_builder \<Rightarrow> index_builder" where
  "push_to a b = push_rows (fa_table a) b"

definition drain_into :: "file_ids \<Rightarrow> index_builder \<Rightarrow> index_builder" where
  "drain_into a b = push_rows (fa_table a) b"

section \<open>Ids are stable and unique\<close>

text \<open>The id of a path, as later lookups see it.\<close>

definition id_of :: "file_ids \<Rightarrow> bytes \<Rightarrow> u32 option" where
  "id_of a p = map_option fst (map_of (fa_table a) p)"

text \<open>Paths are distinct valid strings, every id is below the next one, and no two paths share an id.\<close>

definition alloc_ok :: "file_ids \<Rightarrow> bool" where
  "alloc_ok a \<longleftrightarrow> hm_ok (fa_table a) \<and> (\<forall>p i. id_of a p = Some i \<longrightarrow> utf8_valid p \<and> i < fa_next a) \<and>
     (\<forall>p q i. id_of a p = Some i \<longrightarrow> id_of a q = Some i \<longrightarrow> p = q)"

lemma alloc_ok_default: "alloc_ok file_ids_default"
  by (simp add: alloc_ok_def file_ids_default_def id_of_def)

lemma fst_intern: "fst (intern p a) = (case id_of a p of Some i \<Rightarrow> i | None \<Rightarrow> fa_next a)"
  by (auto simp: intern_def id_of_def split: option.split)

lemma id_of_intern: "id_of (snd (intern p a)) = (id_of a)(p \<mapsto> fst (intern p a))"
  by (auto simp: intern_def id_of_def fun_eq_iff split: option.split)

lemma hm_ok_intern: "hm_ok (fa_table a) \<Longrightarrow> hm_ok (fa_table (snd (intern p a)))"
  by (auto simp: intern_def split: option.split)

text \<open>Putting a fresh id below the new bound keeps the invariant.\<close>

lemma alloc_ok_put:
  assumes "alloc_ok a" and "hm_ok (fa_table a')" and "id_of a' = (id_of a)(p \<mapsto> i)" and "utf8_valid p"
    and "i < fa_next a'" and "fa_next a \<le> fa_next a'" and "\<And>q. id_of a q = Some i \<Longrightarrow> q = p"
  shows "alloc_ok a'"
proof -
  have "j < fa_next a'" if "id_of a q = Some j" for q j
    using assms(1,6) that by (meson alloc_ok_def order.strict_trans2)
  then show ?thesis
    using assms by (auto simp: alloc_ok_def fun_upd_def split: if_splits)
qed

lemma next_intern: "fa_next (snd (intern p a)) = (if id_of a p = None then fa_next a + 1 else fa_next a)"
  by (auto simp: intern_def id_of_def split: option.split)

lemma alloc_ok_intern:
  assumes "alloc_ok a" and "utf8_valid p" and "fa_next a \<noteq> - 1"
  shows "alloc_ok (snd (intern p a))"
proof (rule alloc_ok_put [OF assms(1) hm_ok_intern id_of_intern assms(2)])
  show "hm_ok (fa_table a)" using assms(1) by (simp add: alloc_ok_def)
  have lt: "fa_next a < fa_next a + 1" using less_succ_iff [OF assms(3), of "fa_next a"] by simp
  then show "fst (intern p a) < fa_next (snd (intern p a))"
    using assms(1) by (auto simp: fst_intern next_intern alloc_ok_def split: option.split)
  show "fa_next a \<le> fa_next (snd (intern p a))" using lt by (simp add: next_intern less_imp_le)
  show "q = p" if "id_of a q = Some (fst (intern p a))" for q
    using assms(1) that by (auto simp: fst_intern alloc_ok_def split: option.splits)
qed

text \<open>\<open>a'\<close> knows every path of \<open>a\<close> under the same id.\<close>

definition extends :: "file_ids \<Rightarrow> file_ids \<Rightarrow> bool" where
  "extends a a' \<longleftrightarrow> (\<forall>p i. id_of a p = Some i \<longrightarrow> id_of a' p = Some i)"

lemma extends_refl [simp]: "extends a a"
  by (simp add: extends_def)

lemma extends_trans [trans]: "extends a b \<Longrightarrow> extends b c \<Longrightarrow> extends a c"
  by (simp add: extends_def)

lemma extends_intern: "extends a (snd (intern p a))"
  by (auto simp: extends_def id_of_intern fst_intern)

lemma seed_path_step:
  fixes a :: file_ids and p :: bytes
  defines "a' \<equiv> (if map_of (fa_table a) p = None
        then a\<lparr> fa_table := hm_insert p (fa_next a, False) (fa_table a), fa_next := fa_next a + 1 \<rparr>
        else a)"
  assumes "alloc_ok a" and "utf8_valid p" and "fa_next a \<noteq> - 1"
  shows "alloc_ok a'" and "extends a a'" and "id_of a' p \<noteq> None"
    and "unat (fa_next a') \<le> unat (fa_next a) + 1"
proof -
  have lt: "fa_next a < fa_next a + 1" using less_succ_iff [OF assms(4), of "fa_next a"] by simp
  show "extends a a'" by (auto simp: extends_def a'_def id_of_def)
  show "id_of a' p \<noteq> None" by (auto simp: a'_def id_of_def)
  show "unat (fa_next a') \<le> unat (fa_next a) + 1" by (simp add: a'_def unat_word_ariths)
  show "alloc_ok a'"
  proof (cases "map_of (fa_table a) p")
    case None
    then have a': "a' = a\<lparr> fa_table := hm_insert p (fa_next a, False) (fa_table a), fa_next := fa_next a + 1 \<rparr>"
      by (simp add: a'_def)
    show ?thesis
    proof (rule alloc_ok_put [OF assms(2) _ _ assms(3)])
      show "hm_ok (fa_table a')" using assms(2) by (simp add: a' alloc_ok_def)
      show "id_of a' = (id_of a)(p \<mapsto> fa_next a)" using None by (auto simp: a' id_of_def fun_eq_iff)
      show "fa_next a < fa_next a'" "fa_next a \<le> fa_next a'" using lt by (simp_all add: a' less_imp_le)
      show "q = p" if "id_of a q = Some (fa_next a)" for q using assms(2) that by (auto simp: alloc_ok_def)
    qed
  qed (simp add: a'_def assms(2))
qed

lemma seed_paths_ok:
  "alloc_ok a \<Longrightarrow> list_all utf8_valid ps \<Longrightarrow> unat (fa_next a) + length ps < 2 ^ 32 \<Longrightarrow>
    alloc_ok (seed_paths ps a) \<and> extends a (seed_paths ps a) \<and> (\<forall>p \<in> set ps. id_of (seed_paths ps a) p \<noteq> None)"
proof (induction ps arbitrary: a)
  case (Cons p ps)
  let ?a = "if map_of (fa_table a) p = None
        then a\<lparr> fa_table := hm_insert p (fa_next a, False) (fa_table a), fa_next := fa_next a + 1 \<rparr> else a"
  have "fa_next a \<noteq> - 1"
  proof
    assume "fa_next a = - 1"
    then have "unat (fa_next a) = 2 ^ 32 - 1" by (simp add: unsigned_minus_1_eq_mask mask_eq_exp_minus_1)
    then show False using Cons.prems(3) by simp
  qed
  note step = seed_path_step [OF Cons.prems(1) _ this, of p]
  have "alloc_ok (seed_paths ps ?a) \<and> extends ?a (seed_paths ps ?a) \<and> (\<forall>q \<in> set ps. id_of (seed_paths ps ?a) q \<noteq> None)"
    using step Cons.prems by (intro Cons.IH) auto
  moreover have "utf8_valid p" using Cons.prems(2) by simp
  ultimately show ?case using step extends_trans [of a ?a] by (auto simp: extends_def)
qed simp

text \<open>Rows of an index are compatible with the ids in use when no other path has their id.\<close>

definition compatible_rows :: "(u32 \<times> bytes) list \<Rightarrow> file_ids \<Rightarrow> bool" where
  "compatible_rows rows a \<longleftrightarrow>
     (\<forall>(i, p) \<in> set rows. utf8_valid p \<and> i \<noteq> - 1 \<and> (\<forall>q. id_of a q = Some i \<longrightarrow> q = p)) \<and>
     (\<forall>(i, p) \<in> set rows. \<forall>(j, q) \<in> set rows. i = j \<longrightarrow> p = q)"

lemma seed_row_step:
  fixes a :: file_ids and i :: u32 and p :: bytes
  defines "b \<equiv> a\<lparr> fa_table := hm_or_insert p (i, False) (fa_table a) \<rparr>"
  defines "a' \<equiv> (if fa_next b \<le> i then b\<lparr> fa_next := i + 1 \<rparr> else b)"
  assumes "alloc_ok a" and "utf8_valid p" and "i \<noteq> - 1" and "\<And>q. id_of a q = Some i \<Longrightarrow> q = p"
  shows "alloc_ok a'" and "extends a a'" and "id_of a' p \<noteq> None"
    and "\<And>q j. id_of a' q = Some j \<Longrightarrow> id_of a q = Some j \<or> q = p \<and> j = i"
proof -
  have ids: "id_of a' = (if id_of a p = None then (id_of a)(p \<mapsto> i) else id_of a)"
    by (auto simp: a'_def b_def id_of_def fun_eq_iff split: option.splits)
  show "extends a a'" "id_of a' p \<noteq> None" and "\<And>q j. id_of a' q = Some j \<Longrightarrow> id_of a q = Some j \<or> q = p \<and> j = i"
    by (auto simp: extends_def ids split: if_splits)
  have "i < i + 1" using less_succ_iff [OF assms(5), of i] by simp
  then have nxt: "i < fa_next a'" "fa_next a \<le> fa_next a'"
    by (auto simp: a'_def b_def not_le intro: less_imp_le order.strict_trans1 [THEN less_imp_le])
  have hm: "hm_ok (fa_table a')" using assms(3) by (simp add: a'_def b_def alloc_ok_def)
  show "alloc_ok a'"
  proof (cases "id_of a p")
    case None
    then have "id_of a' = (id_of a)(p \<mapsto> i)" by (simp add: ids)
    from alloc_ok_put [OF assms(3) hm this assms(4) nxt assms(6)] show ?thesis .
  next
    case (Some j)
    then have "j < fa_next a" using assms(3) by (simp add: alloc_ok_def)
    then have "id_of a' = (id_of a)(p \<mapsto> j)" "j < fa_next a'" using Some nxt(2) by (auto simp: ids fun_eq_iff)
    from alloc_ok_put [OF assms(3) hm this(1) assms(4) this(2) nxt(2)] show ?thesis
      using assms(3) Some by (auto simp: alloc_ok_def)
  qed
qed

lemma seed_rows_ok:
  "alloc_ok a \<Longrightarrow> compatible_rows rows a \<Longrightarrow>
    alloc_ok (seed_rows rows a) \<and> extends a (seed_rows rows a) \<and> (\<forall>(i, p) \<in> set rows. id_of (seed_rows rows a) p \<noteq> None)"
proof (induction rows arbitrary: a)
  case (Cons row rows)
  obtain i p where row: "row = (i, p)" by (cases row)
  let ?b = "a\<lparr> fa_table := hm_or_insert p (i, False) (fa_table a) \<rparr>"
  let ?a = "if fa_next ?b \<le> i then ?b\<lparr> fa_next := i + 1 \<rparr> else ?b"
  have "utf8_valid p" "i \<noteq> - 1" "\<And>q. id_of a q = Some i \<Longrightarrow> q = p"
    using Cons.prems(2) by (auto simp: compatible_rows_def row)
  note step = seed_row_step [OF Cons.prems(1) this]
  have "compatible_rows rows ?a"
    using Cons.prems(2) step(4) unfolding compatible_rows_def row by fastforce
  then have "alloc_ok (seed_rows rows ?a) \<and> extends ?a (seed_rows rows ?a) \<and>
      (\<forall>(i, p) \<in> set rows. id_of (seed_rows rows ?a) p \<noteq> None)"
    by (intro Cons.IH) (rule step(1))
  then show ?case using step(2,3) extends_trans [of a ?a] by (auto simp: row Let_def extends_def)
qed simp

section \<open>Interleavings of the workers\<close>

text \<open>One locked operation of some worker: interning a path, numbering the sorted paths of a run, or
  taking over the rows of an existing index.\<close>

inductive alloc_step :: "file_ids \<Rightarrow> file_ids \<Rightarrow> bool" where
  intern: "utf8_valid p \<Longrightarrow> fa_next a \<noteq> - 1 \<Longrightarrow> alloc_step a (snd (intern p a))"
| paths: "list_all utf8_valid ps \<Longrightarrow> unat (fa_next a) + length ps < 2 ^ 32 \<Longrightarrow> alloc_step a (seed_paths ps a)"
| rows: "compatible_rows rows a \<Longrightarrow> alloc_step a (seed_rows rows a)"

text \<open>A component whose steps only ever add keys to the map it shows to its clients.\<close>

locale growing_map =
  fixes step :: "'s \<Rightarrow> 's \<Rightarrow> bool" and ok :: "'s \<Rightarrow> bool" and view :: "'s \<Rightarrow> 'k \<Rightarrow> 'v option"
  assumes step_ok: "ok s \<Longrightarrow> step s s' \<Longrightarrow> ok s'"
    and step_grows: "ok s \<Longrightarrow> step s s' \<Longrightarrow> view s k = Some v \<Longrightarrow> view s' k = Some v"
begin

lemma run_grows: "step\<^sup>*\<^sup>* s s' \<Longrightarrow> ok s \<Longrightarrow> ok s' \<and> (\<forall>k v. view s k = Some v \<longrightarrow> view s' k = Some v)"
proof (induction rule: rtranclp_induct)
  case (step t u)
  then show ?case using step_ok [of t u] step_grows [of t u] by blast
qed simp

lemmas run_ok = run_grows [THEN conjunct1]
lemmas run_keeps = run_grows [THEN conjunct2, rule_format]

end

lemma alloc_step_sound: "alloc_step a a' \<Longrightarrow> alloc_ok a \<Longrightarrow> alloc_ok a' \<and> extends a a'"
proof (induction rule: alloc_step.induct)
  case (intern p a)
  then show ?case by (simp add: alloc_ok_intern extends_intern)
next
  case (paths ps a)
  then show ?case using seed_paths_ok by blast
next
  case (rows rows a)
  then show ?case using seed_rows_ok by blast
qed

interpretation allocator: growing_map alloc_step alloc_ok id_of
proof
  show "alloc_ok a'" if "alloc_ok a" "alloc_step a a'" for a a' using alloc_step_sound that by blast
  show "id_of a' p = Some i" if "alloc_ok a" "alloc_step a a'" "id_of a p = Some i" for a a' p i
    using alloc_step_sound that unfolding extends_def by blast
qed

end
