(* ===== verification/S2_Strings.thy ===== *)
theory S2_Strings
  imports S2_Reply
begin

text \<open>
  The string functions of the standard library that the decoder of \<open>src/crates/scry2/src/kythe.rs\<close>
  uses, on UTF-8 byte strings: lossy decoding, trimming, splitting and number parsing, each with the
  fact that it keeps strings valid.
\<close>

named_theorems utf8_intros \<open>functions that return valid strings\<close>

section \<open>Lossy decoding\<close>

text \<open>\<^verbatim>\<open>String::from_utf8_lossy\<close>: every maximal prefix of an encoded character that cannot be completed
  becomes one U+FFFD.\<close>

definition replacement :: bytes where
  "replacement = [0xEF, 0xBF, 0xBD]"

fun from_utf8_lossy :: "bytes \<Rightarrow> bytes" where
  "from_utf8_lossy [] = []"
| "from_utf8_lossy (b # bs) =
     (if b < 0x80 then b # from_utf8_lossy bs
      else if 0xC2 \<le> b \<and> b < 0xE0 then
        (case bs of [] \<Rightarrow> replacement
         | c # r \<Rightarrow> if utf8_cont c then b # c # from_utf8_lossy r else replacement @ from_utf8_lossy bs)
      else if 0xE0 \<le> b \<and> b < 0xF0 then
        (case bs of [] \<Rightarrow> replacement
         | c # r \<Rightarrow>
             if \<not> utf8_second3 b c then replacement @ from_utf8_lossy bs
             else (case r of [] \<Rightarrow> replacement
                   | d # r' \<Rightarrow> if utf8_cont d then b # c # d # from_utf8_lossy r'
                              else replacement @ from_utf8_lossy r))
      else if 0xF0 \<le> b \<and> b < 0xF5 then
        (case bs of [] \<Rightarrow> replacement
         | c # r \<Rightarrow>
             if \<not> utf8_second4 b c then replacement @ from_utf8_lossy bs
             else (case r of [] \<Rightarrow> replacement
                   | d # r' \<Rightarrow>
                       if \<not> utf8_cont d then replacement @ from_utf8_lossy r
                       else (case r' of [] \<Rightarrow> replacement
                             | e # r'' \<Rightarrow> if utf8_cont e then b # c # d # e # from_utf8_lossy r''
                                        else replacement @ from_utf8_lossy r')))
      else replacement @ from_utf8_lossy bs)"

section \<open>Trimming\<close>

text \<open>The characters of a valid string as the byte strings that encode them.\<close>

definition unit_length :: "u8 \<Rightarrow> nat" where
  "unit_length b = (if b < 0x80 then 1 else if b < 0xE0 then 2 else if b < 0xF0 then 3 else 4)"

function utf8_units :: "bytes \<Rightarrow> bytes list" where
  "utf8_units [] = []"
| "utf8_units (b # bs) = take (unit_length b) (b # bs) # utf8_units (drop (unit_length b) (b # bs))"
  by pat_completeness auto
termination
  by (relation "measure length") (auto simp: unit_length_def)

definition space_unit :: "unicode_tables \<Rightarrow> bytes \<Rightarrow> bool" where
  "space_unit U u = list_all (is_whitespace U) (utf8_chars u)"

definition trim_start :: "unicode_tables \<Rightarrow> bytes \<Rightarrow> bytes" where
  "trim_start U s = concat (dropWhile (space_unit U) (utf8_units s))"

definition trim_end :: "unicode_tables \<Rightarrow> bytes \<Rightarrow> bytes" where
  "trim_end U s = concat (rev (dropWhile (space_unit U) (rev (utf8_units s))))"

definition trim :: "unicode_tables \<Rightarrow> bytes \<Rightarrow> bytes" where
  "trim U s = trim_end U (trim_start U s)"

text \<open>\<^verbatim>\<open>trim_end_matches\<close> of an ASCII character, and of a nonempty ASCII string.\<close>

definition trim_end_char :: "u8 \<Rightarrow> bytes \<Rightarrow> bytes" where
  "trim_end_char c s = rev (dropWhile (\<lambda>b. b = c) (rev s))"

definition ends_with :: "bytes \<Rightarrow> bytes \<Rightarrow> bool" where
  "ends_with s p \<longleftrightarrow> starts_with (rev s) (rev p)"

definition strip_suffix :: "bytes \<Rightarrow> bytes \<Rightarrow> bytes option" where
  "strip_suffix s p = (if ends_with s p then Some (take (length s - length p) s) else None)"

definition strip_prefix :: "bytes \<Rightarrow> bytes \<Rightarrow> bytes option" where
  "strip_prefix s p = (if starts_with s p then Some (drop (length p) s) else None)"

function trim_end_str :: "bytes \<Rightarrow> bytes \<Rightarrow> bytes" where
  "trim_end_str p s =
     (if p \<noteq> [] \<and> s \<noteq> [] \<and> ends_with s p then trim_end_str p (take (length s - length p) s) else s)"
  by pat_completeness auto
termination
  by (relation "measure (\<lambda>(p, s). length s)") auto

declare trim_end_str.simps [simp del]

section \<open>Searching and splitting\<close>

text \<open>The text before the first, and after the last, occurrence of a nonempty pattern. With
  \<open>None\<close> for no occurrence these are \<^verbatim>\<open>split(p).next()\<close> and \<^verbatim>\<open>rsplit(p).next()\<close>.\<close>

fun before_first :: "bytes \<Rightarrow> bytes \<Rightarrow> bytes option" where
  "before_first p [] = None"
| "before_first p (b # bs) =
     (if starts_with (b # bs) p then Some [] else map_option ((#) b) (before_first p bs))"

fun after_last :: "bytes \<Rightarrow> bytes \<Rightarrow> bytes option" where
  "after_last p [] = None"
| "after_last p (b # bs) =
     (case after_last p bs of
        Some r \<Rightarrow> Some r
      | None \<Rightarrow> if starts_with (b # bs) p then Some (drop (length p) (b # bs)) else None)"

definition split_next :: "bytes \<Rightarrow> bytes \<Rightarrow> bytes" where
  "split_next p s = (case before_first p s of Some r \<Rightarrow> r | None \<Rightarrow> s)"

definition rsplit_next :: "bytes \<Rightarrow> bytes \<Rightarrow> bytes" where
  "rsplit_next p s = (case after_last p s of Some r \<Rightarrow> r | None \<Rightarrow> s)"

text \<open>\<^verbatim>\<open>[String]::join\<close>.\<close>

fun join :: "bytes \<Rightarrow> bytes list \<Rightarrow> bytes" where
  "join sep [] = []"
| "join sep [x] = x"
| "join sep (x # y # xs) = x @ sep @ join sep (y # xs)"

section \<open>Numbers\<close>

text \<open>\<^verbatim>\<open>str::parse::<u32>\<close>: an optional plus sign, at least one digit, no overflow.\<close>

fun digits_value :: "nat \<Rightarrow> bytes \<Rightarrow> nat option" where
  "digits_value acc [] = Some acc"
| "digits_value acc (b # bs) =
     (if 0x30 \<le> b \<and> b \<le> 0x39 then
        (let acc' = 10 * acc + (unat b - 48) in if acc' < 2 ^ 32 then digits_value acc' bs else None)
      else None)"

definition parse_u32 :: "bytes \<Rightarrow> u32 option" where
  "parse_u32 s =
     (let ds = (case s of [] \<Rightarrow> [] | b # r \<Rightarrow> if b = 0x2B then r else s)
      in if ds = [] then None else map_option of_nat (digits_value 0 ds))"

section \<open>Valid strings\<close>

lemma utf8_append: "utf8_valid a \<Longrightarrow> utf8_valid (a @ b) = utf8_valid b"
  by (induction a rule: utf8_induct) (auto simp: utf8_unit_def)

lemma utf8_appendI [intro, utf8_intros]: "utf8_valid a \<Longrightarrow> utf8_valid b \<Longrightarrow> utf8_valid (a @ b)"
  by (simp add: utf8_append)

lemma utf8_concat: "(\<And>x. x \<in> set xs \<Longrightarrow> utf8_valid x) \<Longrightarrow> utf8_valid (concat xs)"
  by (induction xs) (auto simp: utf8_append)

lemma utf8_split:
  assumes "utf8_valid (a @ b)" and "b = [] \<or> \<not> utf8_cont (hd b)"
  shows "utf8_valid a" and "utf8_valid b"
proof -
  have "is_char_boundary (a @ b) (length a)"
    using assms(2) by (cases b) (auto simp: is_char_boundary_def)
  from utf8_take_boundary [OF assms(1) this] show a: "utf8_valid a" by simp
  with assms(1) show "utf8_valid b" by (simp add: utf8_append)
qed

lemma ascii_not_cont: "b < 0x80 \<Longrightarrow> \<not> utf8_cont b"
  by (simp add: utf8_cont_def not_le)

lemma utf8_ascii: "list_all (\<lambda>b. b < 0x80) s \<Longrightarrow> utf8_valid s"
  by (induction s) auto

lemma utf8_lit [utf8_intros]: "list_all (\<lambda>c. of_char c < (0x80 :: u8)) s \<Longrightarrow> utf8_valid (lit s)"
  by (rule utf8_ascii) (simp add: lit_def list_all_iff)

text \<open>Both functions look at one character at a time: unfolding them at a fixed first byte leaves
  the rest alone.\<close>

lemma utf8_valid_replacement: "utf8_valid (replacement @ s) = utf8_valid s"
  by (simp add: replacement_def utf8_valid.simps(2) [of "0xEF"] utf8_second3_def utf8_cont_def)

declare from_utf8_lossy.simps(2) [simp del] utf8_valid.simps(2) [simp del]

lemma lead_cases [case_names 1 2 3 4 5]:
  fixes b :: u8
  obtains "b < 0x80" | "\<not> b < 0x80" "0xC2 \<le> b \<and> b < 0xE0" | "\<not> b < 0x80" "\<not> b < 0xE0" "0xE0 \<le> b \<and> b < 0xF0"
    | "\<not> b < 0x80" "\<not> b < 0xE0" "\<not> b < 0xF0" "0xF0 \<le> b \<and> b < 0xF5"
    | "\<not> b < 0x80" "\<not> (0xC2 \<le> b \<and> b < 0xE0)" "\<not> (0xE0 \<le> b \<and> b < 0xF0)" "\<not> (0xF0 \<le> b \<and> b < 0xF5)"
proof -
  have "b < 0xE0 \<or> 0xE0 \<le> b" "b < 0xF0 \<or> 0xF0 \<le> b" "0xE0 \<le> b \<Longrightarrow> \<not> b < 0xE0" "0xF0 \<le> b \<Longrightarrow> \<not> b < 0xE0"
    "0xF0 \<le> b \<Longrightarrow> \<not> b < 0xF0"
    by (auto simp: word_le_nat_alt word_less_nat_alt)
  then show thesis using that by blast
qed

lemma bad_lead:
  fixes b :: u8
  assumes "\<not> b < 0x80" "\<not> (0xC2 \<le> b \<and> b < 0xE0)" "\<not> (0xE0 \<le> b \<and> b < 0xF0)" "\<not> (0xF0 \<le> b \<and> b < 0xF5)"
  shows "from_utf8_lossy (b # bs) = replacement @ from_utf8_lossy bs" and "\<not> utf8_valid (b # bs)"
  by (simp_all only: from_utf8_lossy.simps utf8_valid.simps assms if_False not_False_eq_True)

lemma utf8_valid_lossy [utf8_intros, simp]: "utf8_valid (from_utf8_lossy s)"
proof (induction s rule: length_induct)
  case (1 s)
  show ?case
  proof (cases s)
    case (Cons b bs)
    have IH: "length t \<le> length bs \<Longrightarrow> utf8_valid (from_utf8_lossy t)" for t using 1 Cons by simp
    have rep: "utf8_valid replacement" using utf8_valid_replacement [of "[]"] by simp
    note unfold = from_utf8_lossy.simps(2) [of b] utf8_valid.simps(2) [of b] utf8_valid_replacement
    show ?thesis
    proof (cases b rule: lead_cases)
      case 5 then show ?thesis by (simp add: Cons bad_lead utf8_valid_replacement IH)
    qed (simp_all add: Cons unfold IH rep split: list.split)
  qed simp
qed

lemma from_utf8_lossy_id: "utf8_valid s \<Longrightarrow> from_utf8_lossy s = s"
proof (induction s rule: length_induct)
  case (1 s)
  show ?case
  proof (cases s)
    case (Cons b bs)
    have IH: "length t \<le> length bs \<Longrightarrow> utf8_valid t \<Longrightarrow> from_utf8_lossy t = t" for t using 1 Cons by simp
    have "utf8_valid (b # bs) \<Longrightarrow> from_utf8_lossy (b # bs) = b # bs"
    proof (cases b rule: lead_cases)
      case 5 then show "utf8_valid (b # bs) \<Longrightarrow> from_utf8_lossy (b # bs) = b # bs" by (simp add: bad_lead)
    qed (auto simp: from_utf8_lossy.simps(2) [of b] utf8_valid.simps(2) [of b] IH split: list.splits)
    then show ?thesis using Cons "1.prems" by simp
  qed simp
qed

section \<open>Trimming and splitting keep strings valid\<close>

lemma concat_units [simp]: "concat (utf8_units s) = s"
  by (induction s rule: utf8_units.induct) (simp_all add: append_take_drop_id flip: append_assoc)

lemma units_valid: "utf8_valid s \<Longrightarrow> u \<in> set (utf8_units s) \<Longrightarrow> utf8_valid u"
proof (induction s arbitrary: u rule: length_induct)
  case (1 s)
  show ?case
  proof (cases s)
    case (Cons b bs)
    let ?t = "take (unit_length b) s" and ?d = "drop (unit_length b) s"
    have "utf8_valid ?t \<and> utf8_valid ?d"
      using "1.prems"(1) unfolding Cons
      by (cases b rule: lead_cases)
        (auto simp: unit_length_def utf8_valid.simps(2) [of b] bad_lead split: list.splits)
    moreover have "length ?d < length s" by (simp add: Cons unit_length_def)
    ultimately have "u \<in> set (utf8_units ?d) \<Longrightarrow> utf8_valid u" using "1.IH" by blast
    with \<open>utf8_valid ?t \<and> utf8_valid ?d\<close> show ?thesis using "1.prems"(2) Cons by auto
  qed (use 1 in simp)
qed

lemma utf8_trim_start [utf8_intros]: "utf8_valid s \<Longrightarrow> utf8_valid (trim_start U s)"
  unfolding trim_start_def by (rule utf8_concat) (auto dest: set_dropWhileD units_valid)

lemma utf8_trim_end [utf8_intros]: "utf8_valid s \<Longrightarrow> utf8_valid (trim_end U s)"
  unfolding trim_end_def by (rule utf8_concat) (auto dest!: set_dropWhileD dest: units_valid)

lemma utf8_trim [utf8_intros]: "utf8_valid s \<Longrightarrow> utf8_valid (trim U s)"
  unfolding trim_def by (intro utf8_intros)

lemma trim_end_char_split: "\<exists>n. s = trim_end_char c s @ replicate n c"
proof -
  have "rev s = takeWhile (\<lambda>b. b = c) (rev s) @ dropWhile (\<lambda>b. b = c) (rev s)" by simp
  moreover have "takeWhile (\<lambda>b. b = c) (rev s) = replicate (length (takeWhile (\<lambda>b. b = c) (rev s))) c"
    by (rule replicate_eqI) (auto dest: set_takeWhileD)
  ultimately show ?thesis unfolding trim_end_char_def by (metis rev_append rev_replicate rev_rev_ident)
qed

lemma utf8_trim_end_char [utf8_intros]: "c < 0x80 \<Longrightarrow> utf8_valid s \<Longrightarrow> utf8_valid (trim_end_char c s)"
proof -
  assume c: "c < 0x80" and s: "utf8_valid s"
  obtain n where n: "s = trim_end_char c s @ replicate n c" using trim_end_char_split by blast
  with s have "utf8_valid (trim_end_char c s @ replicate n c)" by simp
  then show ?thesis by (rule utf8_split) (cases n, auto simp: ascii_not_cont [OF c])
qed

text \<open>A pattern that starts with an ASCII character is found at a character boundary.\<close>

abbreviation ascii :: "bytes \<Rightarrow> bool" where
  "ascii p \<equiv> p \<noteq> [] \<and> list_all (\<lambda>b. b < 0x80) p"

lemma utf8_around:
  assumes "ascii p" and "utf8_valid (a @ p @ r)"
  shows "utf8_valid a" and "utf8_valid r"
proof -
  have "\<not> utf8_cont (hd (p @ r))" using assms(1) by (cases p) (auto simp: ascii_not_cont)
  from utf8_split [OF assms(2)] this show "utf8_valid a" and "utf8_valid r"
    using assms(1) by (auto simp: utf8_append utf8_ascii)
qed

lemma starts_with_append: "starts_with s p \<longleftrightarrow> (\<exists>r. s = p @ r)"
  by (metis append_take_drop_id append_eq_conv_conj starts_with_def)

lemma ends_with_append: "ends_with s p \<longleftrightarrow> (\<exists>a. s = a @ p)"
  by (metis ends_with_def rev_append rev_rev_ident starts_with_append)

lemma before_first_Some: "before_first p s = Some r \<Longrightarrow> \<exists>t. s = r @ p @ t"
  by (induction s arbitrary: r) (auto simp: starts_with_append split: if_splits)

lemma after_last_Some: "after_last p s = Some r \<Longrightarrow> \<exists>t. s = t @ p @ r"
proof (induction s)
  case (Cons b s)
  show ?case
  proof (cases "after_last p s")
    case None
    with Cons.prems show ?thesis
      by (auto simp: starts_with_append split: if_splits intro: exI [of _ "[]"])
  next
    case (Some q)
    with Cons obtain t where "s = t @ p @ r" by auto
    then show ?thesis by (metis append_Cons)
  qed
qed simp

lemma utf8_split_next [utf8_intros]: "ascii p \<Longrightarrow> utf8_valid s \<Longrightarrow> utf8_valid (split_next p s)"
  by (auto simp: split_next_def split: option.split dest!: before_first_Some intro: utf8_around)

lemma utf8_rsplit_next [utf8_intros]: "ascii p \<Longrightarrow> utf8_valid s \<Longrightarrow> utf8_valid (rsplit_next p s)"
  by (auto simp: rsplit_next_def split: option.split dest!: after_last_Some intro: utf8_around)

lemma utf8_trim_end_str [utf8_intros]: "ascii p \<Longrightarrow> utf8_valid s \<Longrightarrow> utf8_valid (trim_end_str p s)"
proof (induction p s rule: trim_end_str.induct)
  case (1 p s)
  show ?case
  proof (cases "p \<noteq> [] \<and> s \<noteq> [] \<and> ends_with s p")
    case True
    then obtain a where "s = a @ p" by (auto simp: ends_with_append)
    then have "utf8_valid a" using 1(2,3) utf8_around(1) [of p a "[]"] by simp
    then have "utf8_valid (trim_end_str p (take (length s - length p) s))"
      using 1 True \<open>s = a @ p\<close> by simp
    then show ?thesis by (simp only: trim_end_str.simps [of p s] True if_True simp_thms)
  next
    case False
    then show ?thesis using 1(3) by (simp only: trim_end_str.simps [of p s] if_False)
  qed
qed

lemma utf8_join: "utf8_valid sep \<Longrightarrow> (\<And>x. x \<in> set xs \<Longrightarrow> utf8_valid x) \<Longrightarrow> utf8_valid (join sep xs)"
  by (induction sep xs rule: join.induct) (auto simp: utf8_append)

end
