(* ===== verification/S2_Proto.thy ===== *)
theory S2_Proto
  imports S2_Strings
begin

text \<open>
  The protobuf wire decoder of \<open>src/crates/scry2/src/kythe.rs\<close>: its three varint readers, the field
  readers, \<^verbatim>\<open>VName\<close> and \<^verbatim>\<open>Entry\<close>. A reader that returns \<^verbatim>\<open>Result\<close> gives \<open>Inl\<close> of the error, one that
  returns \<^verbatim>\<open>Option\<close> gives an option. Lengths are unsigned 64-bit numbers from the stream; positions in a
  buffer are natural numbers, and a sum that would overflow \<^verbatim>\<open>usize\<close> lies past every buffer.
\<close>

datatype kythe_error =
    TruncatedVarint nat
  | VarintTooLong
  | UnexpectedWire u64 u64
  | PastBuffer u64 u64
  | OversizeEntry u64
  | TruncatedEntry
  | DecodeEntry nat kythe_error

section \<open>Varints\<close>

text \<open>The loops run at most ten times; \<open>k\<close> is the number of rounds left.\<close>

fun varint_at :: "nat \<Rightarrow> bytes \<Rightarrow> nat \<Rightarrow> u64 \<Rightarrow> nat \<Rightarrow> (u64 \<times> nat) option" where
  "varint_at 0 buf pos val shift = None"
| "varint_at (Suc k) buf pos val shift =
     (if length buf \<le> pos then None
      else let b = buf ! pos; val' = val OR push_bit shift (ucast (b AND 0x7F))
           in if b AND 0x80 = 0 then Some (val', pos + 1) else varint_at k buf (pos + 1) val' (shift + 7))"

definition read_varint_at :: "bytes \<Rightarrow> nat \<Rightarrow> (u64 \<times> nat) option" where
  "read_varint_at buf pos = varint_at 10 buf pos 0 0"

fun varint_bytes :: "nat \<Rightarrow> bytes \<Rightarrow> nat \<Rightarrow> u64 \<Rightarrow> nat \<Rightarrow> kythe_error + u64 \<times> nat" where
  "varint_bytes 0 buf pos val shift = Inl VarintTooLong"
| "varint_bytes (Suc k) buf pos val shift =
     (if length buf \<le> pos then Inl (TruncatedVarint pos)
      else let b = buf ! pos; val' = val OR push_bit shift (ucast (b AND 0x7F))
           in if b AND 0x80 = 0 then Inr (val', pos + 1) else varint_bytes k buf (pos + 1) val' (shift + 7))"

definition read_varint_bytes :: "bytes \<Rightarrow> nat \<Rightarrow> kythe_error + u64 \<times> nat" where
  "read_varint_bytes buf pos = varint_bytes 10 buf pos 0 0"

text \<open>\<^verbatim>\<open>read_varint\<close> takes its bytes from the stream; at the end of the stream it returns \<^verbatim>\<open>Ok(None)\<close>
  before the first byte and an error after it. The result carries the rest of the stream.\<close>

fun varint_stream :: "nat \<Rightarrow> bytes \<Rightarrow> u64 \<Rightarrow> nat \<Rightarrow> kythe_error + (u64 \<times> bytes) option" where
  "varint_stream 0 s val i = Inl VarintTooLong"
| "varint_stream (Suc k) s val i =
     (case s of
        [] \<Rightarrow> if i = 0 then Inr None else Inl (TruncatedVarint i)
      | b # r \<Rightarrow>
          let val' = val OR push_bit (7 * i) (ucast (b AND 0x7F))
          in if b AND 0x80 = 0 then Inr (Some (val', r)) else varint_stream k r val' (Suc i))"

definition stream_varint :: "bytes \<Rightarrow> kythe_error + (u64 \<times> bytes) option" where
  "stream_varint s = varint_stream 10 s 0 0"

section \<open>Fields\<close>

text \<open>The payload \<^verbatim>\<open>&buf[vs..ve]\<close>.\<close>

definition payload :: "bytes \<Rightarrow> nat \<Rightarrow> nat \<Rightarrow> bytes" where
  "payload buf vs ve = take (ve - vs) (drop vs buf)"

text \<open>\<^verbatim>\<open>read_proto_field\<close>: field number, wire type, end and start of the payload.\<close>

definition read_proto_field :: "bytes \<Rightarrow> nat \<Rightarrow> (u32 \<times> u8 \<times> nat \<times> nat) option" where
  "read_proto_field buf pos =
     (case read_varint_at buf pos of
        None \<Rightarrow> None
      | Some (tag, p1) \<Rightarrow>
          let field = ucast (drop_bit 3 tag); wire = ucast (tag AND 7) in
          if wire = 0 then
            (case read_varint_at buf p1 of None \<Rightarrow> None | Some (_, p2) \<Rightarrow> Some (field, wire, p2, p1))
          else if wire = 1 then
            (if p1 + 8 \<le> length buf then Some (field, wire, p1 + 8, p1) else None)
          else if wire = 2 then
            (case read_varint_at buf p1 of
               None \<Rightarrow> None
             | Some (len, p2) \<Rightarrow>
                 if length buf < p2 + unat len then None else Some (field, wire, p2 + unat len, p2))
          else if wire = 5 then
            (if p1 + 4 \<le> length buf then Some (field, wire, p1 + 4, p1) else None)
          else None)"

text \<open>The length-delimited field that \<^verbatim>\<open>parse_entry\<close> and \<^verbatim>\<open>parse_vname\<close> read in each round: its number,
  its payload and the position after it.\<close>

definition len_field :: "bytes \<Rightarrow> nat \<Rightarrow> kythe_error + u64 \<times> bytes \<times> nat" where
  "len_field buf pos =
     (case read_varint_bytes buf pos of
        Inl e \<Rightarrow> Inl e
      | Inr (tag, p1) \<Rightarrow>
          let field = drop_bit 3 tag; wire = tag AND 7 in
          if wire \<noteq> 2 then Inl (UnexpectedWire wire field)
          else (case read_varint_bytes buf p1 of
                  Inl e \<Rightarrow> Inl e
                | Inr (len, p2) \<Rightarrow>
                    let end' = p2 + unat len in
                    if end' \<le> length buf then Inr (field, payload buf p2 end', end')
                    else Inl (PastBuffer field len)))"

subsection \<open>Readers stay inside the buffer and advance\<close>

lemma varint_at_bounds: "varint_at k buf pos val shift = Some (v, p) \<Longrightarrow> pos < p \<and> p \<le> length buf \<and> p \<le> pos + k"
  by (induction k arbitrary: pos val shift) (fastforce simp: Let_def split: if_splits)+

lemma read_varint_at_bounds:
  "read_varint_at buf pos = Some (v, p) \<Longrightarrow> pos < p \<and> p \<le> length buf \<and> p \<le> pos + 10"
  unfolding read_varint_at_def by (rule varint_at_bounds)

lemma varint_bytes_at:
  "varint_bytes k buf pos val shift = Inr r \<longleftrightarrow> varint_at k buf pos val shift = Some r"
  by (induction k buf pos val shift rule: varint_bytes.induct) (auto simp: Let_def)

lemma read_varint_bytes_at: "read_varint_bytes buf pos = Inr r \<longleftrightarrow> read_varint_at buf pos = Some r"
  by (simp add: read_varint_bytes_def read_varint_at_def varint_bytes_at)

lemma read_proto_field_bounds:
  "read_proto_field buf pos = Some (field, wire, ve, vs) \<Longrightarrow> pos < vs \<and> vs \<le> ve \<and> ve \<le> length buf"
  by (auto simp: read_proto_field_def Let_def split: option.splits if_splits dest!: read_varint_at_bounds)

lemma len_field_bounds:
  "len_field buf pos = Inr (field, sl, p) \<Longrightarrow> pos < p \<and> p \<le> length buf \<and> length sl < p - pos"
  by (auto simp: len_field_def payload_def Let_def read_varint_bytes_at less_diff_conv
      split: sum.splits if_splits dest!: read_varint_at_bounds)

section \<open>Names of nodes\<close>

record vname =
  vn_signature :: bytes
  vn_corpus :: bytes
  vn_root :: bytes
  vn_path :: bytes
  vn_language :: bytes

record entry =
  e_source :: vname
  e_edge_kind :: bytes
  e_target :: vname
  e_fact_name :: bytes
  e_fact_value :: bytes

definition vname_default :: vname where
  "vname_default = \<lparr> vn_signature = [], vn_corpus = [], vn_root = [], vn_path = [], vn_language = [] \<rparr>"

definition entry_default :: entry where
  "entry_default = \<lparr> e_source = vname_default, e_edge_kind = [], e_target = vname_default,
     e_fact_name = [], e_fact_value = [] \<rparr>"

definition to_symbol_string :: "vname \<Rightarrow> bytes" where
  "to_symbol_string v =
     lit ''kythe:'' @ vn_language v @ lit '':'' @ vn_corpus v @ lit ''#'' @ vn_root v @ lit ''#'' @ vn_path v @
     lit ''#'' @ vn_signature v"

definition vname_empty :: "vname \<Rightarrow> bool" where
  "vname_empty v \<longleftrightarrow> vn_signature v = [] \<and> vn_corpus v = [] \<and> vn_root v = [] \<and> vn_path v = [] \<and> vn_language v = []"

definition lang_byte :: "vname \<Rightarrow> u8" where
  "lang_byte v =
     (if vn_language v = lit ''c++'' then lang_CXX
      else if vn_language v = lit ''java'' then lang_JAVA
      else if vn_language v = lit ''jvm'' then lang_JVM
      else if vn_language v = lit ''go'' then lang_GO
      else if vn_language v = lit ''proto'' then lang_PROTO
      else if vn_language v = lit ''rust'' then lang_RUST
      else if vn_language v = lit ''kotlin'' then lang_KOTLIN
      else lang_UNK)"

section \<open>Messages\<close>

text \<open>The loop of \<^verbatim>\<open>parse_entry\<close> and \<^verbatim>\<open>parse_vname\<close>; \<open>put\<close> is the match on the field number.\<close>

function field_loop ::
    "(u64 \<Rightarrow> bytes \<Rightarrow> 's \<Rightarrow> kythe_error + 's) \<Rightarrow> bytes \<Rightarrow> nat \<Rightarrow> 's \<Rightarrow> kythe_error + 's" where
  "field_loop put buf pos m =
     (if pos < length buf then
        (case len_field buf pos of
           Inl e \<Rightarrow> Inl e
         | Inr (field, sl, pos') \<Rightarrow>
             (case put field sl m of Inl e \<Rightarrow> Inl e | Inr m' \<Rightarrow> field_loop put buf pos' m'))
      else Inr m)"
  by pat_completeness auto
termination
  by (relation "measure (\<lambda>(put, buf, pos, m). length buf - pos)") (auto dest!: len_field_bounds)

declare field_loop.simps [simp del]

definition put_vname :: "u64 \<Rightarrow> bytes \<Rightarrow> vname \<Rightarrow> kythe_error + vname" where
  "put_vname field sl v = Inr
     (if field = 1 then v\<lparr> vn_signature := from_utf8_lossy sl \<rparr>
      else if field = 2 then v\<lparr> vn_corpus := from_utf8_lossy sl \<rparr>
      else if field = 3 then v\<lparr> vn_root := from_utf8_lossy sl \<rparr>
      else if field = 4 then v\<lparr> vn_path := from_utf8_lossy sl \<rparr>
      else if field = 5 then v\<lparr> vn_language := from_utf8_lossy sl \<rparr>
      else v)"

definition parse_vname :: "bytes \<Rightarrow> kythe_error + vname" where
  "parse_vname buf = field_loop put_vname buf 0 vname_default"

definition put_entry :: "u64 \<Rightarrow> bytes \<Rightarrow> entry \<Rightarrow> kythe_error + entry" where
  "put_entry field sl e =
     (if field = 1 then map_sum id (\<lambda>v. e\<lparr> e_source := v \<rparr>) (parse_vname sl)
      else if field = 2 then Inr (e\<lparr> e_edge_kind := from_utf8_lossy sl \<rparr>)
      else if field = 3 then map_sum id (\<lambda>v. e\<lparr> e_target := v \<rparr>) (parse_vname sl)
      else if field = 4 then Inr (e\<lparr> e_fact_name := from_utf8_lossy sl \<rparr>)
      else if field = 5 then Inr (e\<lparr> e_fact_value := sl \<rparr>)
      else Inr e)"

definition parse_entry :: "bytes \<Rightarrow> kythe_error + entry" where
  "parse_entry buf = field_loop put_entry buf 0 entry_default"

end
