(* ===== verification/S2_Wire.thy ===== *)
theory S2_Wire
  imports S2_Proto
begin

text \<open>
  A reference encoder for the messages of the entry stream, as the protobuf encoding defines it, and
  the round trips through the decoder of \<open>S2_Proto\<close>.
\<close>

section \<open>Encoder\<close>

fun pb_varint :: "nat \<Rightarrow> bytes" where
  "pb_varint n = (if n < 128 then [of_nat n] else of_nat (128 + n mod 128) # pb_varint (n div 128))"

declare pb_varint.simps [simp del]

definition pb_field :: "nat \<Rightarrow> bytes \<Rightarrow> bytes" where
  "pb_field n p = pb_varint (8 * n + 2) @ pb_varint (length p) @ p"

text \<open>A message is its list of fields; empty fields are left out.\<close>

definition pb_message :: "(nat \<times> bytes) list \<Rightarrow> bytes" where
  "pb_message fs = concat (map (\<lambda>(n, p). pb_field n p) (filter (\<lambda>(n, p). p \<noteq> []) fs))"

definition enc_vname :: "vname \<Rightarrow> bytes" where
  "enc_vname v = pb_message
     [(1, vn_signature v), (2, vn_corpus v), (3, vn_root v), (4, vn_path v), (5, vn_language v)]"

definition enc_entry :: "entry \<Rightarrow> bytes" where
  "enc_entry e = pb_message
     [(1, enc_vname (e_source e)), (2, e_edge_kind e), (3, enc_vname (e_target e)),
      (4, e_fact_name e), (5, e_fact_value e)]"

text \<open>One frame of the stream.\<close>

definition enc_frame :: "entry \<Rightarrow> bytes" where
  "enc_frame e = pb_varint (length (enc_entry e)) @ enc_entry e"

definition vname_ok :: "vname \<Rightarrow> bool" where
  "vname_ok v \<longleftrightarrow> utf8_valid (vn_signature v) \<and> utf8_valid (vn_corpus v) \<and> utf8_valid (vn_root v) \<and>
     utf8_valid (vn_path v) \<and> utf8_valid (vn_language v)"

definition entry_ok :: "entry \<Rightarrow> bool" where
  "entry_ok e \<longleftrightarrow> vname_ok (e_source e) \<and> utf8_valid (e_edge_kind e) \<and> vname_ok (e_target e) \<and>
     utf8_valid (e_fact_name e)"

section \<open>Bytes of a varint\<close>

lemma low7: "unat ((b :: u8) AND 0x7F) = unat b mod 128"
proof -
  have "b AND 0x7F = take_bit 7 b" by (simp add: take_bit_eq_mask mask_eq_decr_exp)
  then show ?thesis by (simp add: unsigned_take_bit_eq take_bit_nat_def)
qed

lemma high_bit: "(b :: u8) AND 0x80 = 0 \<longleftrightarrow> unat b < 128"
proof -
  have "b AND 0x80 = 0 \<longleftrightarrow> \<not> bit b 7"
    using and_exp_eq_0_iff_not_bit [of b 7] by simp
  also have "bit b 7 \<longleftrightarrow> bit (unat b) 7" by (simp add: bit_unsigned_iff)
  also have "\<dots> \<longleftrightarrow> odd (unat b div 128)" by (simp add: bit_iff_odd)
  finally have "b AND 0x80 = 0 \<longleftrightarrow> even (unat b div 128)" by simp
  moreover have "unat b < 256" using unsigned_less [of b] by simp
  then have "unat b div 128 = (if unat b < 128 then 0 else 1)" by auto
  ultimately show ?thesis by simp
qed

lemma unat_or_push:
  assumes "unat a < 2 ^ s" and "m * 2 ^ s + unat a < 2 ^ 64"
  shows "unat (a OR push_bit s (of_nat m :: u64)) = unat a + m * 2 ^ s"
proof -
  have "unat (take_bit s a) = unat a" using assms(1) by (simp add: unsigned_take_bit_eq take_bit_nat_eq_self)
  then have "take_bit s a = a" by (rule unsigned_word_eqI)
  then have "bit a n \<Longrightarrow> n < s" for n by (metis bit_take_bit_iff)
  then have "a AND push_bit s (of_nat m) = 0"
    by (auto simp: bit_eq_iff bit_and_iff bit_push_bit_iff not_le)
  then have "a OR push_bit s (of_nat m) = a + push_bit s (of_nat m)"
    by (simp add: disjunctive_add_eq_or)
  also have "\<dots> = of_nat (unat a + m * 2 ^ s)" by (simp add: push_bit_eq_mult)
  finally have "unat (a OR push_bit s (of_nat m)) = unat (of_nat (unat a + m * 2 ^ s) :: u64)"
    by (rule arg_cong)
  also have "\<dots> = unat a + m * 2 ^ s" by (rule unat_of_nat_small) (use assms(2) in simp)
  finally show ?thesis .
qed

text \<open>Decoding an encoded number, from any accumulator and with rounds to spare.\<close>

lemma varint_at_pb:
  assumes "n < 128 ^ k" and "unat val < 2 ^ shift" and "n * 2 ^ shift + unat val < 2 ^ 64"
  shows "varint_at (Suc k) (pre @ pb_varint n @ rest) (length pre) val shift =
    Some (of_nat (unat val + n * 2 ^ shift), length pre + length (pb_varint n))"
  using assms
proof (induction n arbitrary: k pre val shift rule: pb_varint.induct)
  case (1 n)
  let ?m = "n mod 128" and ?b = "(if n < 128 then of_nat n else of_nat (128 + n mod 128)) :: u8"
  have b: "unat ?b = (if n < 128 then n else 128 + n mod 128)"
  proof -
    have "unat (of_nat (128 + n mod 128) :: u8) = 128 + n mod 128" by (rule unat_of_nat_small) simp
    then show ?thesis by (simp add: unat_of_nat_small)
  qed
  have low: "ucast (?b AND 0x7F) = (of_nat ?m :: u64)"
  proof -
    have "unat (?b AND 0x7F) = ?m" unfolding low7 b by simp
    then show ?thesis by (metis of_nat_unat)
  qed
  have m: "?m * 2 ^ shift + unat val < 2 ^ 64"
    using "1.prems"(3) by (meson add_less_cancel_right le_less_trans mod_less_eq_dividend mult_le_mono1 not_le)
  let ?val = "val OR push_bit shift (of_nat ?m :: u64)"
  have val: "unat ?val = unat val + ?m * 2 ^ shift" by (rule unat_or_push [OF "1.prems"(2) m])
  have vw: "?val = of_nat (unat val + ?m * 2 ^ shift)"
    using arg_cong [OF val, of "of_nat :: nat \<Rightarrow> u64"] by (simp only: of_nat_unat ucast_id)
  show ?case
  proof (cases "n < 128")
    case True
    then have "pb_varint n = [?b]" by (simp add: pb_varint.simps [of n])
    then show ?thesis using True low vw high_bit [of ?b] b
      by (simp only: varint_at.simps Let_def) (simp add: nth_append)
  next
    case False
    then have pb: "pb_varint n = ?b # pb_varint (n div 128)" by (simp add: pb_varint.simps [of n])
    obtain k' where k: "k = Suc k'" using "1.prems"(1) False by (cases k) auto
    have n: "n = 128 * (n div 128) + ?m" by simp
    have vn: "unat ?val + n div 128 * 2 ^ (shift + 7) = unat val + n * 2 ^ shift"
    proof -
      have "n * 2 ^ shift = (128 * (n div 128) + ?m) * 2 ^ shift" by simp
      also have "\<dots> = ?m * 2 ^ shift + n div 128 * 2 ^ (shift + 7)"
        by (simp only: power_add add_mult_distrib) simp
      finally show ?thesis using val by simp
    qed
    have "?m * 2 ^ shift \<le> 127 * 2 ^ shift" by (rule mult_le_mono1) simp
    then have "unat ?val < 128 * 2 ^ shift" using "1.prems"(2) val by linarith
    then have vlt: "unat ?val < 2 ^ (shift + 7)" by (simp add: power_add mult.commute)
    have "varint_at (Suc k') ((pre @ [?b]) @ pb_varint (n div 128) @ rest) (length (pre @ [?b])) ?val (shift + 7) =
        Some (of_nat (unat ?val + n div 128 * 2 ^ (shift + 7)), length (pre @ [?b]) + length (pb_varint (n div 128)))"
      proof (rule "1.IH" [OF False _ vlt])
      show "n div 128 < 128 ^ k'" using "1.prems"(1) k by (simp add: less_mult_imp_div_less mult.commute)
      show "n div 128 * 2 ^ (shift + 7) + unat ?val < 2 ^ 64" using vn "1.prems"(3) by linarith
    qed
    moreover have "unat ?val + n div 128 * 2 ^ (shift + 7) = unat val + n * 2 ^ shift" by (simp only: vn)
    ultimately show ?thesis using False low high_bit [of ?b] b pb k
      by (simp add: nth_append Let_def)
  qed
qed

lemma pb_varint_nonempty [simp]: "pb_varint n \<noteq> []"
  by (simp add: pb_varint.simps [of n])

lemma read_varint_at_pb:
  assumes "n < 2 ^ 63"
  shows "read_varint_at (pre @ pb_varint n @ rest) (length pre) = Some (of_nat n, length pre + length (pb_varint n))"
proof -
  have "n < 128 ^ 9" using assms by simp
  then show ?thesis
    using varint_at_pb [of n 9 0 0 pre rest] assms by (simp add: read_varint_at_def del: varint_at.simps)
qed

lemma varint_stream_at:
  "varint_at k s pos val (7 * i) = Some (v, p) \<Longrightarrow> varint_stream k (drop pos s) val i = Inr (Some (v, drop p s))"
proof (induction k arbitrary: pos val i)
  case (Suc k)
  then have pos: "pos < length s" by (auto split: if_splits)
  then have s: "drop pos s = s ! pos # drop (Suc pos) s" by (rule Cons_nth_drop_Suc [symmetric])
  show ?case
    using Suc.prems pos Suc.IH [of "Suc pos" _ "Suc i"] by (auto simp: s Let_def add.commute split: if_splits)
qed simp

lemma stream_varint_pb:
  assumes "n < 2 ^ 63"
  shows "stream_varint (pb_varint n @ rest) = Inr (Some (of_nat n, rest))"
  using varint_stream_at [of 10 "pb_varint n @ rest" 0 0 0] read_varint_at_pb [OF assms, of "[]" rest]
  by (simp add: stream_varint_def read_varint_at_def)

section \<open>Fields\<close>

lemma tag_parts:
  assumes "n < 2 ^ 29" and "w < 8"
  shows "drop_bit 3 (of_nat (8 * n + w) :: u64) = of_nat n" and "(of_nat (8 * n + w) :: u64) AND 7 = of_nat w"
proof -
  have u: "unat (of_nat (8 * n + w) :: u64) = 8 * n + w"
    by (rule unat_of_nat_small) (use assms in simp)
  show "drop_bit 3 (of_nat (8 * n + w) :: u64) = of_nat n"
  proof (rule unsigned_word_eqI)
    show "unat (drop_bit 3 (of_nat (8 * n + w) :: u64)) = unat (of_nat n :: u64)"
      unfolding unat_drop_bit u using assms by (simp add: unat_of_nat_small)
  qed
  have "(7 :: u64) = mask 3" by (simp add: mask_eq_decr_exp)
  then have "(of_nat (8 * n + w) :: u64) AND 7 = take_bit 3 (of_nat (8 * n + w))" by (simp add: take_bit_eq_mask)
  moreover have "unat (take_bit 3 (of_nat (8 * n + w) :: u64)) = w"
    using assms(2) by (simp only: unsigned_take_bit_eq u) (simp add: take_bit_nat_def)
  ultimately show "(of_nat (8 * n + w) :: u64) AND 7 = of_nat w"
    using assms(2) by (metis of_nat_unat ucast_id)
qed

lemma len_field_pb:
  assumes "n < 2 ^ 29" and "length p < 2 ^ 63"
  shows "len_field (pre @ pb_field n p @ rest) (length pre) =
    Inr (of_nat n, p, length pre + length (pb_field n p))"
proof -
  let ?buf = "pre @ pb_field n p @ rest"
  have "read_varint_at (pre @ pb_varint (8 * n + 2) @ pb_varint (length p) @ p @ rest) (length pre) =
      Some (of_nat (8 * n + 2), length pre + length (pb_varint (8 * n + 2)))"
    by (rule read_varint_at_pb) (use assms in simp)
  moreover have "read_varint_at ((pre @ pb_varint (8 * n + 2)) @ pb_varint (length p) @ p @ rest)
      (length (pre @ pb_varint (8 * n + 2))) =
      Some (of_nat (length p), length (pre @ pb_varint (8 * n + 2)) + length (pb_varint (length p)))"
    by (rule read_varint_at_pb) (use assms in simp)
  moreover have "unat (of_nat (length p) :: u64) = length p" by (rule unat_of_nat_small) (use assms in simp)
  ultimately show ?thesis
    using tag_parts [OF assms(1), of 2]
    by (simp add: len_field_def pb_field_def Let_def payload_def flip: read_varint_bytes_at)
qed

lemma pb_field_nonempty [simp]: "pb_field n p \<noteq> []"
  by (simp add: pb_field_def)

section \<open>Messages\<close>

text \<open>The field loop applies the match to each field of an encoded message, in order.\<close>

fun put_all :: "(u64 \<Rightarrow> bytes \<Rightarrow> 's \<Rightarrow> kythe_error + 's) \<Rightarrow> (nat \<times> bytes) list \<Rightarrow> 's \<Rightarrow> kythe_error + 's" where
  "put_all put [] m = Inr m"
| "put_all put ((n, p) # fs) m =
     (if p = [] then put_all put fs m
      else case put (of_nat n) p m of Inl e \<Rightarrow> Inl e | Inr m' \<Rightarrow> put_all put fs m')"

lemma field_loop_message:
  assumes "\<And>n p. (n, p) \<in> set fs \<Longrightarrow> n < 2 ^ 29 \<and> length p < 2 ^ 63"
  shows "field_loop put (pre @ pb_message fs) (length pre) m = put_all put fs m"
  using assms
proof (induction fs arbitrary: pre m)
  case Nil
  then show ?case by (simp add: pb_message_def field_loop.simps)
next
  case (Cons f fs)
  obtain n p where f: "f = (n, p)" by (cases f)
  show ?case
  proof (cases "p = []")
    case True
    then have "pb_message (f # fs) = pb_message fs" by (simp add: f pb_message_def)
    moreover have "field_loop put (pre @ pb_message fs) (length pre) m = put_all put fs m"
      using Cons.prems by (intro Cons.IH) auto
    ultimately show ?thesis using True f by simp
  next
    case False
    then have msg: "pb_message (f # fs) = pb_field n p @ pb_message fs" by (simp add: f pb_message_def)
    have lt: "length pre < length (pre @ pb_message (f # fs))"
      by (simp add: msg)
    have "field_loop put ((pre @ pb_field n p) @ pb_message fs) (length (pre @ pb_field n p)) m' = put_all put fs m'"
      for m' using Cons by (intro Cons.IH) auto
    moreover have "len_field (pre @ pb_field n p @ pb_message fs) (length pre) =
        Inr (of_nat n, p, length pre + length (pb_field n p))"
      using Cons.prems f by (intro len_field_pb) auto
    ultimately show ?thesis
      using False lt unfolding field_loop.simps [of put _ "length pre"] msg
      by (simp add: f split: sum.split)
  qed
qed

lemma parse_message:
  assumes "\<And>n p. (n, p) \<in> set fs \<Longrightarrow> n < 2 ^ 29 \<and> length p < 2 ^ 63"
  shows "field_loop put (pb_message fs) 0 m = put_all put fs m"
  using field_loop_message [OF assms, where pre = "[]"] by simp

lemma length_pb_message: "(n, p) \<in> set fs \<Longrightarrow> length p \<le> length (pb_message fs)"
proof (induction fs)
  case (Cons f fs)
  then show ?case by (cases f) (auto simp: pb_message_def pb_field_def)
qed simp

lemma put_all_step:
  "put (of_nat n) p m = Inr m' \<Longrightarrow> (p = [] \<Longrightarrow> m' = m) \<Longrightarrow> put_all put fs m' = r \<Longrightarrow>
    put_all put ((n, p) # fs) m = r"
  by auto

lemma parse_enc_vname:
  assumes "vname_ok v" and "length (enc_vname v) < 2 ^ 63"
  shows "parse_vname (enc_vname v) = Inr v"
proof -
  let ?fs = "[(1 :: nat, vn_signature v), (2, vn_corpus v), (3, vn_root v), (4, vn_path v), (5, vn_language v)]"
  have len: "length p < 2 ^ 63" if "(n, p) \<in> set ?fs" for n p
    using length_pb_message [OF that] assms(2) by (simp add: enc_vname_def)
  have "\<And>n p. (n, p) \<in> set ?fs \<Longrightarrow> n < 2 ^ 29" by (simp, elim disjE) simp_all
  with len have "\<And>n p. (n, p) \<in> set ?fs \<Longrightarrow> n < 2 ^ 29 \<and> length p < 2 ^ 63" by blast
  then have "parse_vname (enc_vname v) = put_all put_vname ?fs vname_default"
    unfolding parse_vname_def enc_vname_def by (rule parse_message)
  also have "put_all put_vname ?fs vname_default = Inr v"
  proof -
    obtain sg co ro pa la where v: "v = \<lparr> vn_signature = sg, vn_corpus = co, vn_root = ro, vn_path = pa, vn_language = la \<rparr>"
      by (cases v) auto
    let ?v = "\<lambda>a b c d e. \<lparr> vn_signature = a, vn_corpus = b, vn_root = c, vn_path = d, vn_language = e \<rparr>"
    note from_utf8_lossy_id [simp] put_vname_def [simp]
    show ?thesis
      using assms(1) unfolding v vname.simps vname_default_def vname_ok_def
      by (intro put_all_step [where m' = "?v sg [] [] [] []"] put_all_step [where m' = "?v sg co [] [] []"]
          put_all_step [where m' = "?v sg co ro [] []"] put_all_step [where m' = "?v sg co ro pa []"]
          put_all_step [where m' = "?v sg co ro pa la"]) simp_all
  qed
  finally show ?thesis .
qed

lemma enc_vname_empty: "enc_vname v = [] \<longleftrightarrow> v = vname_default"
  by (cases v) (auto simp: enc_vname_def pb_message_def vname_default_def)

lemma parse_enc_entry:
  assumes "entry_ok e" and "length (enc_entry e) < 2 ^ 63"
  shows "parse_entry (enc_entry e) = Inr e"
proof -
  let ?fs = "[(1 :: nat, enc_vname (e_source e)), (2, e_edge_kind e), (3, enc_vname (e_target e)),
      (4, e_fact_name e), (5, e_fact_value e)]"
  have len: "length p < 2 ^ 63" if "(n, p) \<in> set ?fs" for n p
    using length_pb_message [OF that] assms(2) by (simp add: enc_entry_def)
  have "\<And>n p. (n, p) \<in> set ?fs \<Longrightarrow> n < 2 ^ 29" by (simp, elim disjE) simp_all
  with len have "\<And>n p. (n, p) \<in> set ?fs \<Longrightarrow> n < 2 ^ 29 \<and> length p < 2 ^ 63" by blast
  then have "parse_entry (enc_entry e) = put_all put_entry ?fs entry_default"
    unfolding parse_entry_def enc_entry_def by (rule parse_message)
  moreover have "length (enc_vname (e_source e)) < 2 ^ 63" by (rule len [of 1]) simp
  then have "parse_vname (enc_vname (e_source e)) = Inr (e_source e)"
    using assms(1) by (intro parse_enc_vname) (simp_all add: entry_ok_def)
  moreover have "length (enc_vname (e_target e)) < 2 ^ 63" by (rule len [of 3]) simp
  then have "parse_vname (enc_vname (e_target e)) = Inr (e_target e)"
    using assms(1) by (intro parse_enc_vname) (simp_all add: entry_ok_def)
  moreover have "put_all put_entry ?fs entry_default = Inr e"
    if "parse_vname (enc_vname (e_source e)) = Inr (e_source e)"
      and "parse_vname (enc_vname (e_target e)) = Inr (e_target e)"
  proof -
    obtain s ek t fn fv where e: "e = \<lparr> e_source = s, e_edge_kind = ek, e_target = t, e_fact_name = fn, e_fact_value = fv \<rparr>"
      by (cases e) auto
    let ?e = "\<lambda>a b c d e. \<lparr> e_source = a, e_edge_kind = b, e_target = c, e_fact_name = d, e_fact_value = e \<rparr>"
    let ?v = vname_default
    note from_utf8_lossy_id [simp] put_entry_def [simp]
    show ?thesis
      using assms(1) that unfolding e entry.simps entry_default_def entry_ok_def
      by (intro put_all_step [where m' = "?e s [] ?v [] []"] put_all_step [where m' = "?e s ek ?v [] []"]
          put_all_step [where m' = "?e s ek t [] []"] put_all_step [where m' = "?e s ek t fn []"]
          put_all_step [where m' = "?e s ek t fn fv"]) (simp_all add: enc_vname_empty)
  qed
  ultimately show ?thesis by simp
qed

end
