(* ===== verification/S2_Marked.thy ===== *)
theory S2_Marked
  imports S2_Wire
begin

text \<open>
  MarkedSource rendering (\<open>src/crates/scry2/src/kythe.rs\<close>: \<^verbatim>\<open>parse_marked_source_fqn\<close> and its inner
  functions, \<^verbatim>\<open>typename_from_marked_source\<close>, \<^verbatim>\<open>is_degenerate_render\<close>, \<^verbatim>\<open>short_name\<close>,
  \<^verbatim>\<open>bare_param_name\<close>), and the proof that on an encoded tree it computes the name that the tree has by
  structural recursion.
\<close>

definition MS_BOX :: u32 where "MS_BOX = 0"
definition MS_TYPE :: u32 where "MS_TYPE = 1"
definition MS_PARAMETER :: u32 where "MS_PARAMETER = 2"
definition MS_IDENTIFIER :: u32 where "MS_IDENTIFIER = 3"
definition MS_CONTEXT :: u32 where "MS_CONTEXT = 4"
definition MS_INITIALIZER :: u32 where "MS_INITIALIZER = 5"
definition MS_MODIFIER :: u32 where "MS_MODIFIER = 12"
definition MS_LOOKUP_LO :: u32 where "MS_LOOKUP_LO = 6"
definition MS_LOOKUP_HI :: u32 where "MS_LOOKUP_HI = 11"

lemmas ms_defs = MS_BOX_def MS_TYPE_def MS_PARAMETER_def MS_IDENTIFIER_def MS_CONTEXT_def
  MS_INITIALIZER_def MS_MODIFIER_def MS_LOOKUP_LO_def MS_LOOKUP_HI_def

section \<open>Fields of a node\<close>

text \<open>The fields of a node up to the first malformed one, with number, wire type and payload. The
  source has this loop three times, in \<^verbatim>\<open>node_kind\<close>, \<^verbatim>\<open>fields\<close> and \<^verbatim>\<open>collect\<close>.\<close>

function proto_fields :: "bytes \<Rightarrow> nat \<Rightarrow> (u32 \<times> u8 \<times> bytes) list" where
  "proto_fields buf pos =
     (if pos < length buf then
        (case read_proto_field buf pos of
           None \<Rightarrow> []
         | Some (field, wire, ve, vs) \<Rightarrow> (field, wire, payload buf vs ve) # proto_fields buf ve)
      else [])"
  by pat_completeness auto
termination
  by (relation "measure (\<lambda>(buf, pos). length buf - pos)") (auto dest!: read_proto_field_bounds)

declare proto_fields.simps [simp del]

definition ms_node_kind :: "bytes \<Rightarrow> u32" where
  "ms_node_kind buf =
     (case find (\<lambda>(field, wire, _). field = 1 \<and> wire = 0) (proto_fields buf 0) of
        None \<Rightarrow> MS_BOX
      | Some (_, _, p) \<Rightarrow> (case read_varint_at p 0 of Some (v, _) \<Rightarrow> ucast v | None \<Rightarrow> MS_BOX))"

definition name_excluded :: "u32 \<Rightarrow> bool" where
  "name_excluded k \<longleftrightarrow> k \<in> {MS_TYPE, MS_PARAMETER, MS_INITIALIZER, MS_MODIFIER} \<or>
     MS_LOOKUP_LO \<le> k \<and> k \<le> MS_LOOKUP_HI"

record ms_strs =
  ms_pre :: bytes
  ms_joiner :: bytes
  ms_post :: bytes
  ms_add_final :: bool
  ms_kids :: "bytes list"

definition put_ms :: "ms_strs \<Rightarrow> u32 \<times> u8 \<times> bytes \<Rightarrow> ms_strs" where
  "put_ms m f = (case f of (field, wire, p) \<Rightarrow>
     (if field = 2 \<and> wire = 2 then m\<lparr> ms_pre := from_utf8_lossy p \<rparr>
      else if field = 3 \<and> wire = 2 then m\<lparr> ms_kids := ms_kids m @ [p] \<rparr>
      else if field = 4 \<and> wire = 2 then m\<lparr> ms_joiner := from_utf8_lossy p \<rparr>
      else if field = 5 \<and> wire = 2 then m\<lparr> ms_post := from_utf8_lossy p \<rparr>
      else if field = 10 \<and> wire = 0 then
        (case read_varint_at p 0 of Some (v, _) \<Rightarrow> m\<lparr> ms_add_final := (v \<noteq> 0) \<rparr> | None \<Rightarrow> m)
      else m))"

definition ms_empty :: ms_strs where
  "ms_empty = \<lparr> ms_pre = [], ms_joiner = [], ms_post = [], ms_add_final = False, ms_kids = [] \<rparr>"

definition ms_fields :: "bytes \<Rightarrow> ms_strs" where
  "ms_fields buf = foldl put_ms ms_empty (proto_fields buf 0)"

definition ms_children :: "bytes \<Rightarrow> bytes list" where
  "ms_children buf = [p. (field, wire, p) \<leftarrow> proto_fields buf 0, field = 3 \<and> wire = 2]"

lemma proto_fields_shorter: "(field, wire, p) \<in> set (proto_fields buf pos) \<Longrightarrow> length p < length buf"
proof (induction buf pos rule: proto_fields.induct)
  case (1 buf pos)
  show ?case
  proof (cases "pos < length buf \<and> read_proto_field buf pos \<noteq> None")
    case True
    then obtain f w ve vs where r: "read_proto_field buf pos = Some (f, w, ve, vs)" by auto
    then have "length (payload buf vs ve) < length buf"
      by (auto simp: payload_def dest: read_proto_field_bounds)
    then show ?thesis using 1 True r by (auto simp: proto_fields.simps [of buf pos])
  next
    case False
    then have "proto_fields buf pos = []" by (auto simp: proto_fields.simps [of buf pos] split: option.split)
    then show ?thesis using 1 by simp
  qed
qed

lemma foldl_put_ms_kids: "ms_kids (foldl put_ms m fs) = ms_kids m @ [p. (field, wire, p) \<leftarrow> fs, field = 3 \<and> wire = 2]"
  by (induction fs arbitrary: m) (auto simp: put_ms_def split: option.splits)

lemma ms_kids_children: "ms_kids (ms_fields buf) = ms_children buf"
  by (simp add: ms_fields_def foldl_put_ms_kids ms_empty_def ms_children_def)

lemma ms_children_shorter [termination_simp]: "c \<in> set (ms_children buf) \<Longrightarrow> length c < length buf"
  by (auto simp: ms_children_def dest: proto_fields_shorter)

lemma ms_kids_shorter [termination_simp]: "c \<in> set (ms_kids (ms_fields buf)) \<Longrightarrow> length c < length buf"
  by (simp add: ms_kids_children ms_children_shorter)

section \<open>Rendering\<close>

text \<open>The source appends to \<^verbatim>\<open>out\<close>; here each function returns the text it appends.\<close>

definition keep_kid :: "bool \<Rightarrow> u32 \<Rightarrow> bool" where
  "keep_kid ident ck = (if ident then ck = MS_IDENTIFIER else \<not> name_excluded ck)"

function render_name :: "bytes \<Rightarrow> bytes" where
  "render_name buf =
     (let n = ms_fields buf;
          ident = (ms_node_kind buf = MS_IDENTIFIER);
          kept = filter (\<lambda>c. keep_kid ident (ms_node_kind c)) (ms_kids n)
      in ms_pre n @ join (ms_joiner n) (map render_name kept) @
         (if kept \<noteq> [] \<and> ms_add_final n then ms_joiner n else []) @
         (if ident then [] else ms_post n))"
  by pat_completeness auto
termination
  by (relation "measure length") (auto simp: termination_simp)

function render_faithful :: "bytes \<Rightarrow> bytes" where
  "render_faithful buf =
     (let n = ms_fields buf
      in ms_pre n @ join (ms_joiner n) (map render_faithful (ms_kids n)) @
         (if ms_kids n \<noteq> [] \<and> ms_add_final n then ms_joiner n else []) @ ms_post n)"
  by pat_completeness auto
termination
  by (relation "measure length") (auto simp: termination_simp)

function ms_collect :: "bytes \<Rightarrow> bool \<Rightarrow> bytes" where
  "ms_collect buf is_root =
     (let kind = ms_node_kind buf in
      if \<not> is_root \<and> name_excluded kind then []
      else if kind = MS_CONTEXT \<or> kind = MS_IDENTIFIER then render_name buf
      else concat (map (\<lambda>c. ms_collect c False) (ms_children buf)))"
  by pat_completeness auto
termination
  by (relation "measure (\<lambda>(buf, _). length buf)") (auto simp: termination_simp)

declare render_name.simps [simp del] render_faithful.simps [simp del] ms_collect.simps [simp del]

definition is_name :: "bytes \<Rightarrow> bool" where
  "is_name s \<longleftrightarrow> s \<noteq> [] \<and> \<not> list_ex (\<lambda>b. b \<in> {0x0A, 0x0D, 0x7B, 0x7D, 0x3B}) s"

text \<open>What \<^verbatim>\<open>parse_marked_source_fqn\<close> does with the two renders.\<close>

definition fqn_of_renders :: "unicode_tables \<Rightarrow> bytes \<Rightarrow> bytes \<Rightarrow> bytes option" where
  "fqn_of_renders U collected full =
     (let name = trim_end U (trim_end_char 0x3A (trim U collected)) in
      if name \<noteq> [] then (if is_name name then Some name else None)
      else let full' = trim U full in if is_name full' then Some full' else None)"

definition parse_marked_source_fqn :: "unicode_tables \<Rightarrow> bytes \<Rightarrow> bytes option" where
  "parse_marked_source_fqn U buf = fqn_of_renders U (ms_collect buf True) (render_faithful buf)"

definition typename_from_marked_source :: "unicode_tables \<Rightarrow> bytes \<Rightarrow> bytes option" where
  "typename_from_marked_source U code =
     (case parse_marked_source_fqn U code of
        None \<Rightarrow> None
      | Some name \<Rightarrow>
          let trimmed = trim_end U (trim_end_str (lit ''<>'') name)
          in if trimmed = [] then None else Some trimmed)"

definition is_degenerate_render :: "unicode_tables \<Rightarrow> bytes \<Rightarrow> bool" where
  "is_degenerate_render U s =
     (let t = trim U s in t = [] \<or> \<not> list_ex (is_alphanumeric U) (utf8_chars t))"

definition short_name :: "bytes \<Rightarrow> bytes" where
  "short_name fqn = rsplit_next (lit ''.'') (rsplit_next (lit ''::'') fqn)"

definition bare_param_name :: "unicode_tables \<Rightarrow> bytes \<Rightarrow> bytes" where
  "bare_param_name U name =
     (case before_first (lit ''['') name of Some r \<Rightarrow> trim_end U r | None \<Rightarrow> name)"

section \<open>Renders are valid strings\<close>

lemma put_ms_valid:
  "utf8_valid (ms_pre m) \<and> utf8_valid (ms_joiner m) \<and> utf8_valid (ms_post m) \<Longrightarrow>
    utf8_valid (ms_pre (put_ms m f)) \<and> utf8_valid (ms_joiner (put_ms m f)) \<and> utf8_valid (ms_post (put_ms m f))"
  by (cases f) (auto simp: put_ms_def split: option.split)

lemma ms_fields_valid [utf8_intros]:
  "utf8_valid (ms_pre (ms_fields buf))" "utf8_valid (ms_joiner (ms_fields buf))" "utf8_valid (ms_post (ms_fields buf))"
proof -
  have "utf8_valid (ms_pre m) \<and> utf8_valid (ms_joiner m) \<and> utf8_valid (ms_post m) \<Longrightarrow>
      utf8_valid (ms_pre (foldl put_ms m fs)) \<and> utf8_valid (ms_joiner (foldl put_ms m fs)) \<and>
      utf8_valid (ms_post (foldl put_ms m fs))" for m fs
    by (induction fs arbitrary: m) (simp_all add: put_ms_valid)
  from this [of ms_empty "proto_fields buf 0"]
  show "utf8_valid (ms_pre (ms_fields buf))" "utf8_valid (ms_joiner (ms_fields buf))" "utf8_valid (ms_post (ms_fields buf))"
    by (simp_all add: ms_fields_def ms_empty_def)
qed

lemma utf8_if [utf8_intros]: "utf8_valid a \<Longrightarrow> utf8_valid b \<Longrightarrow> utf8_valid (if c then a else b)"
  by simp

lemma utf8_Nil [utf8_intros]: "utf8_valid []"
  by simp

lemma render_name_valid [utf8_intros]: "utf8_valid (render_name buf)"
proof (induction buf rule: render_name.induct)
  case (1 buf)
  then show ?case
    by (subst render_name.simps) (auto simp: Let_def intro!: utf8_intros utf8_join)
qed

lemma render_faithful_valid [utf8_intros]: "utf8_valid (render_faithful buf)"
proof (induction buf rule: render_faithful.induct)
  case (1 buf)
  then show ?case
    by (subst render_faithful.simps) (auto simp: Let_def intro!: utf8_intros utf8_join)
qed

lemma ms_collect_valid [utf8_intros]: "utf8_valid (ms_collect buf r)"
proof (induction buf r rule: ms_collect.induct)
  case (1 buf r)
  then show ?case
    by (subst ms_collect.simps) (auto simp: Let_def intro!: utf8_intros utf8_concat)
qed

lemma parse_marked_source_fqn_valid:
  assumes "parse_marked_source_fqn U buf = Some s"
  shows "utf8_valid s" and "is_name s"
proof -
  have "utf8_valid (trim_end U (trim_end_char 0x3A (trim U (ms_collect buf True))))"
    "utf8_valid (trim U (render_faithful buf))"
    by (intro utf8_intros; simp)+
  with assms show "utf8_valid s" and "is_name s"
    by (auto simp: parse_marked_source_fqn_def fqn_of_renders_def Let_def split: if_splits)
qed

lemma ascii_lits [simp]: "ascii (lit ''<>'')" "ascii (lit ''.'')" "ascii (lit ''::'')" "ascii (lit ''['')"
  by (simp_all add: lit_def)

lemma typename_valid: "typename_from_marked_source U code = Some s \<Longrightarrow> utf8_valid s \<and> s \<noteq> []"
  by (auto simp: typename_from_marked_source_def Let_def split: option.splits if_splits
      intro!: utf8_intros dest: parse_marked_source_fqn_valid)

lemma short_name_valid [utf8_intros]: "utf8_valid s \<Longrightarrow> utf8_valid (short_name s)"
  unfolding short_name_def by (intro utf8_intros) simp_all

lemma bare_param_name_valid [utf8_intros]: "utf8_valid s \<Longrightarrow> utf8_valid (bare_param_name U s)"
  by (auto simp: bare_param_name_def split: option.split dest!: before_first_Some
      intro!: utf8_trim_end intro: utf8_around [of "lit ''[''"])

section \<open>Names of trees\<close>

text \<open>A MarkedSource tree, its encoding, and its name by structural recursion.\<close>

datatype marked = Marked (mk_kind: nat) (mk_pre: bytes) (mk_kids: "marked list") (mk_joiner: bytes)
  (mk_post: bytes) (mk_final: bool)

definition pb_int :: "nat \<Rightarrow> nat \<Rightarrow> bytes" where
  "pb_int n v = (if v = 0 then [] else pb_varint (8 * n) @ pb_varint v)"

definition pb_str :: "nat \<Rightarrow> bytes \<Rightarrow> bytes" where
  "pb_str n s = (if s = [] then [] else pb_field n s)"

primrec enc_marked :: "marked \<Rightarrow> bytes" where
  "enc_marked (Marked k pre kids joiner post fin) =
     pb_int 1 k @ pb_str 2 pre @ concat (map (pb_field 3) (map enc_marked kids)) @ pb_str 4 joiner @
     pb_str 5 post @ pb_int 10 (if fin then 1 else 0)"

abbreviation mk_kind_of :: "marked \<Rightarrow> u32" where
  "mk_kind_of t \<equiv> of_nat (mk_kind t)"

primrec tree_name :: "marked \<Rightarrow> bytes" where
  "tree_name (Marked k pre kids joiner post fin) =
     (let ident = (of_nat k = MS_IDENTIFIER);
          kept = map snd (filter (\<lambda>(t, _). keep_kid ident (mk_kind_of t)) (map (\<lambda>t. (t, tree_name t)) kids))
      in pre @ join joiner kept @ (if kept \<noteq> [] \<and> fin then joiner else []) @ (if ident then [] else post))"

primrec tree_text :: "marked \<Rightarrow> bytes" where
  "tree_text (Marked k pre kids joiner post fin) =
     pre @ join joiner (map tree_text kids) @ (if kids \<noteq> [] \<and> fin then joiner else []) @ post"

primrec tree_collect :: "marked \<Rightarrow> bool \<Rightarrow> bytes" where
  "tree_collect (Marked k pre kids joiner post fin) is_root =
     (if \<not> is_root \<and> name_excluded (of_nat k) then []
      else if of_nat k = MS_CONTEXT \<or> of_nat k = MS_IDENTIFIER then tree_name (Marked k pre kids joiner post fin)
      else concat (map (\<lambda>t. tree_collect t False) kids))"

definition tree_fqn :: "unicode_tables \<Rightarrow> marked \<Rightarrow> bytes option" where
  "tree_fqn U t = fqn_of_renders U (tree_collect t True) (tree_text t)"

primrec marked_ok :: "marked \<Rightarrow> bool" where
  "marked_ok (Marked k pre kids joiner post fin) \<longleftrightarrow>
     k < 2 ^ 32 \<and> utf8_valid pre \<and> utf8_valid joiner \<and> utf8_valid post \<and> list_all marked_ok kids"

section \<open>Reading an encoded node\<close>

datatype wire_field = Num nat nat | Str nat bytes

fun wire_bytes :: "wire_field \<Rightarrow> bytes" where
  "wire_bytes (Num n v) = pb_varint (8 * n) @ pb_varint v"
| "wire_bytes (Str n p) = pb_field n p"

fun wire_read :: "wire_field \<Rightarrow> u32 \<times> u8 \<times> bytes" where
  "wire_read (Num n v) = (of_nat n, 0, pb_varint v)"
| "wire_read (Str n p) = (of_nat n, 2, p)"

fun wire_ok :: "wire_field \<Rightarrow> bool" where
  "wire_ok (Num n v) \<longleftrightarrow> n < 2 ^ 29 \<and> v < 2 ^ 63"
| "wire_ok (Str n p) \<longleftrightarrow> n < 2 ^ 29 \<and> length p < 2 ^ 63"

lemma ucast_of_nat: "n < 2 ^ 29 \<Longrightarrow> ucast (of_nat n :: u64) = (of_nat n :: u32)"
  by (simp add: unsigned_of_nat take_bit_nat_eq_self)

lemma read_proto_field_wire:
  assumes "wire_ok f"
  shows "\<exists>ve vs. read_proto_field (pre @ wire_bytes f @ rest) (length pre) =
      Some (fst (wire_read f), fst (snd (wire_read f)), ve, vs) \<and> ve = length pre + length (wire_bytes f) \<and>
      payload (pre @ wire_bytes f @ rest) vs ve = snd (snd (wire_read f))"
proof (cases f)
  case (Num n v)
  with assms have b: "n < 2 ^ 29" "v < 2 ^ 63" by simp_all
  have "read_varint_at (pre @ pb_varint (8 * n) @ pb_varint v @ rest) (length pre) =
      Some (of_nat (8 * n), length pre + length (pb_varint (8 * n)))"
    by (rule read_varint_at_pb) (use b in simp)
  moreover have "read_varint_at ((pre @ pb_varint (8 * n)) @ pb_varint v @ rest) (length (pre @ pb_varint (8 * n))) =
      Some (of_nat v, length (pre @ pb_varint (8 * n)) + length (pb_varint v))"
    by (rule read_varint_at_pb) (use b in simp)
  ultimately show ?thesis
    using tag_parts [OF b(1), of 0] ucast_of_nat [OF b(1)]
    by (simp add: Num read_proto_field_def Let_def payload_def)
next
  case (Str n p)
  with assms have b: "n < 2 ^ 29" "length p < 2 ^ 63" by simp_all
  have "read_varint_at (pre @ pb_varint (8 * n + 2) @ pb_varint (length p) @ p @ rest) (length pre) =
      Some (of_nat (8 * n + 2), length pre + length (pb_varint (8 * n + 2)))"
    by (rule read_varint_at_pb) (use b in simp)
  moreover have "read_varint_at ((pre @ pb_varint (8 * n + 2)) @ pb_varint (length p) @ p @ rest)
      (length (pre @ pb_varint (8 * n + 2))) =
      Some (of_nat (length p), length (pre @ pb_varint (8 * n + 2)) + length (pb_varint (length p)))"
    by (rule read_varint_at_pb) (use b in simp)
  moreover have "unat (of_nat (length p) :: u64) = length p" by (rule unat_of_nat_small) (use b in simp)
  ultimately show ?thesis
    using tag_parts [OF b(1), of 2] ucast_of_nat [OF b(1)]
    by (simp add: Str read_proto_field_def Let_def payload_def pb_field_def)
qed

lemma wire_bytes_nonempty [simp]: "wire_bytes f \<noteq> []"
  by (cases f) simp_all

lemma proto_fields_wire:
  "list_all wire_ok fs \<Longrightarrow> proto_fields (pre @ concat (map wire_bytes fs)) (length pre) = map wire_read fs"
proof (induction fs arbitrary: pre)
  case Nil
  then show ?case by (simp add: proto_fields.simps)
next
  case (Cons f fs)
  let ?rest = "concat (map wire_bytes fs)"
  obtain ve vs where "read_proto_field (pre @ wire_bytes f @ ?rest) (length pre) =
      Some (fst (wire_read f), fst (snd (wire_read f)), ve, vs)" "ve = length (pre @ wire_bytes f)"
      "payload (pre @ wire_bytes f @ ?rest) vs ve = snd (snd (wire_read f))"
    using read_proto_field_wire [of f pre ?rest] Cons.prems by auto
  with Cons.IH [of "pre @ wire_bytes f"] Cons.prems show ?case
    by (simp add: proto_fields.simps [of _ "length pre"])
qed

definition marked_fields :: "marked \<Rightarrow> wire_field list" where
  "marked_fields t =
     (if mk_kind t = 0 then [] else [Num 1 (mk_kind t)]) @ (if mk_pre t = [] then [] else [Str 2 (mk_pre t)]) @
     map (\<lambda>c. Str 3 (enc_marked c)) (mk_kids t) @ (if mk_joiner t = [] then [] else [Str 4 (mk_joiner t)]) @
     (if mk_post t = [] then [] else [Str 5 (mk_post t)]) @ (if mk_final t then [Num 10 1] else [])"

lemma enc_marked_fields: "enc_marked t = concat (map wire_bytes (marked_fields t))"
  by (cases t) (auto simp: marked_fields_def pb_int_def pb_str_def comp_def)

lemma length_concat_elem: "x \<in> set xs \<Longrightarrow> length (g x) \<le> length (concat (map g xs))"
  by (induction xs) auto

lemma marked_fields_ok:
  assumes "marked_ok t" and "length (enc_marked t) < 2 ^ 63"
  shows "list_all wire_ok (marked_fields t)"
proof -
  have "length (wire_bytes f) < 2 ^ 63" if "f \<in> set (marked_fields t)" for f
    using that assms(2) unfolding enc_marked_fields
    by (meson length_concat_elem le_less_trans)
  then have len: "Str n p \<in> set (marked_fields t) \<Longrightarrow> length p < 2 ^ 63" for n p
    by (force simp: pb_field_def)
  have str: "n < 2 ^ 29" if "Str n p \<in> set (marked_fields t)" for n p
    using that by (auto simp: marked_fields_def split: if_splits)
  have num: "n < 2 ^ 29 \<and> v < 2 ^ 63" if "Num n v \<in> set (marked_fields t)" for n v
    using that assms(1) by (cases t) (auto simp: marked_fields_def split: if_splits)
  have "wire_ok f" if "f \<in> set (marked_fields t)" for f
  proof (cases f)
    case (Num n v)
    then show ?thesis using num that by simp
  next
    case (Str n p)
    then show ?thesis using len [of n p] str [of n p] that by simp
  qed
  then show ?thesis by (simp add: list_all_iff)
qed

text \<open>The three readers of a node on an encoded tree.\<close>

abbreviation sized :: "marked \<Rightarrow> bool" where
  "sized t \<equiv> marked_ok t \<and> length (enc_marked t) < 2 ^ 63"

lemma sized_kid: "sized t \<Longrightarrow> c \<in> set (mk_kids t) \<Longrightarrow> sized c"
proof -
  assume t: "sized t" and c: "c \<in> set (mk_kids t)"
  have "Str 3 (enc_marked c) \<in> set (marked_fields t)" using c by (simp add: marked_fields_def)
  then have "wire_ok (Str 3 (enc_marked c))" using marked_fields_ok [of t] t by (auto simp: list_all_iff)
  moreover have "marked_ok c" using t c by (cases t) (auto simp: list_all_iff)
  ultimately show "sized c" by simp
qed

lemma proto_fields_marked: "sized t \<Longrightarrow> proto_fields (enc_marked t) 0 = map wire_read (marked_fields t)"
  using proto_fields_wire [of "marked_fields t" "[]"] marked_fields_ok [of t] by (simp add: enc_marked_fields)

lemma read_payload: "v < 2 ^ 63 \<Longrightarrow> read_varint_at (pb_varint v) 0 = Some (of_nat v, length (pb_varint v))"
  using read_varint_at_pb [of v "[]" "[]"] by simp

lemma ms_node_kind_marked: "sized t \<Longrightarrow> ms_node_kind (enc_marked t) = mk_kind_of t"
proof -
  assume t: "sized t"
  have "mk_kind t < 2 ^ 32" using t by (cases t) simp
  then have "mk_kind t < 2 ^ 63" and "ucast (of_nat (mk_kind t) :: u64) = mk_kind_of t"
    by (simp_all add: unsigned_of_nat take_bit_nat_eq_self)
  note kind = this
  show ?thesis
  proof (cases "mk_kind t = 0")
    case True
    then have "find (\<lambda>(field, wire, _). field = 1 \<and> wire = 0) (map wire_read (marked_fields t)) = None"
      by (auto simp: find_None_iff marked_fields_def)
    then show ?thesis unfolding ms_node_kind_def proto_fields_marked [OF t] by (simp add: True MS_BOX_def)
  next
    case False
    then have "marked_fields t = Num 1 (mk_kind t) # tl (marked_fields t)" by (simp add: marked_fields_def)
    then have "find (\<lambda>(field, wire, _). field = 1 \<and> wire = 0) (map wire_read (marked_fields t)) =
        Some (1, 0, pb_varint (mk_kind t))"
      by (metis (mono_tags, lifting) case_prod_conv find.simps(2) list.simps(9) of_nat_1 wire_read.simps(1))
    then show ?thesis unfolding ms_node_kind_def proto_fields_marked [OF t] using kind by (simp add: read_payload)
  qed
qed

lemma put_kind: "foldl put_ms m (map wire_read (if k = 0 then [] else [Num 1 k])) = m"
  by (simp add: put_ms_def)

lemma put_text:
  "utf8_valid s \<Longrightarrow> ms_pre m = [] \<Longrightarrow> foldl put_ms m (map wire_read (if s = [] then [] else [Str 2 s])) = m\<lparr> ms_pre := s \<rparr>"
  "utf8_valid s \<Longrightarrow> ms_joiner m = [] \<Longrightarrow> foldl put_ms m (map wire_read (if s = [] then [] else [Str 4 s])) = m\<lparr> ms_joiner := s \<rparr>"
  "utf8_valid s \<Longrightarrow> ms_post m = [] \<Longrightarrow> foldl put_ms m (map wire_read (if s = [] then [] else [Str 5 s])) = m\<lparr> ms_post := s \<rparr>"
  by (cases m, simp add: put_ms_def from_utf8_lossy_id)+

lemma put_kids: "foldl put_ms m (map wire_read (map (\<lambda>c. Str 3 (g c)) cs)) = m\<lparr> ms_kids := ms_kids m @ map g cs \<rparr>"
  by (induction cs arbitrary: m) (simp_all add: put_ms_def)

lemma put_final:
  "\<not> ms_add_final m \<Longrightarrow> foldl put_ms m (map wire_read (if b then [Num 10 1] else [])) = m\<lparr> ms_add_final := b \<rparr>"
  using read_payload [of 1] by (cases m) (simp add: put_ms_def)

lemma ms_fields_marked:
  assumes "sized t"
  shows "ms_fields (enc_marked t) = \<lparr> ms_pre = mk_pre t, ms_joiner = mk_joiner t, ms_post = mk_post t,
    ms_add_final = mk_final t, ms_kids = map enc_marked (mk_kids t) \<rparr>"
proof -
  have "utf8_valid (mk_pre t)" "utf8_valid (mk_joiner t)" "utf8_valid (mk_post t)"
    using assms by (cases t, simp)+
  then show ?thesis
    unfolding ms_fields_def proto_fields_marked [OF assms] marked_fields_def map_append foldl_append
      put_kind put_kids
    by (simp only: put_text put_final ms_empty_def ms_strs.simps append_Nil simp_thms)
qed

lemma tree_name_marked: "sized t \<Longrightarrow> render_name (enc_marked t) = tree_name t"
proof (induction t)
  case (Marked k pre kids joiner post fin)
  let ?t = "Marked k pre kids joiner post fin"
  have kid: "sized c" "render_name (enc_marked c) = tree_name c" if "c \<in> set kids" for c
    using that Marked sized_kid [OF Marked.prems] by auto
  have flt: "filter (\<lambda>b. keep_kid i (ms_node_kind b)) (map enc_marked kids) =
      map enc_marked (filter (\<lambda>c. keep_kid i (mk_kind_of c)) kids)" for i
    unfolding filter_map comp_def using kid by (intro arg_cong [where f = "map enc_marked"] filter_cong) (simp_all add: ms_node_kind_marked)
  have kept: "map render_name (map enc_marked (filter P kids)) = map tree_name (filter P kids)" for P
    using kid by simp
  have snd: "map snd (filter (\<lambda>(t, _). P t) (map (\<lambda>t. (t, tree_name t)) kids)) = map tree_name (filter P kids)" for P
    by (simp add: filter_map comp_def)
  show ?case
    unfolding render_name.simps [of "enc_marked ?t"] ms_fields_marked [OF Marked.prems]
      ms_node_kind_marked [OF Marked.prems] tree_name.simps ms_strs.simps marked.sel Let_def flt snd kept
    by simp
qed

lemma tree_text_marked: "sized t \<Longrightarrow> render_faithful (enc_marked t) = tree_text t"
proof (induction t)
  case (Marked k pre kids joiner post fin)
  have "map render_faithful (map enc_marked kids) = map tree_text kids"
    using Marked sized_kid [OF Marked.prems] by simp
  then show ?case
    unfolding render_faithful.simps [of "enc_marked (Marked k pre kids joiner post fin)"] ms_fields_marked [OF Marked.prems]
    by (simp only: Let_def ms_strs.simps marked.sel tree_text.simps) simp
qed

lemma tree_collect_marked: "sized t \<Longrightarrow> ms_collect (enc_marked t) r = tree_collect t r"
proof (induction t arbitrary: r)
  case (Marked k pre kids joiner post fin)
  let ?t = "Marked k pre kids joiner post fin"
  have "ms_children (enc_marked ?t) = map enc_marked kids"
    unfolding ms_kids_children [symmetric] ms_fields_marked [OF Marked.prems] by simp
  moreover have "map (\<lambda>c. ms_collect c False) (map enc_marked kids) = map (\<lambda>t. tree_collect t False) kids"
    using Marked sized_kid [OF Marked.prems] by simp
  ultimately show ?case
    unfolding ms_collect.simps [of "enc_marked ?t"] ms_node_kind_marked [OF Marked.prems] tree_name_marked [OF Marked.prems]
    by (simp only: Let_def tree_collect.simps marked.sel)
qed

lemma parse_marked_source_tree: "sized t \<Longrightarrow> parse_marked_source_fqn U (enc_marked t) = tree_fqn U t"
  by (simp add: parse_marked_source_fqn_def tree_fqn_def tree_collect_marked tree_text_marked)

end
