(* ===== verification/S2_Types.thy ===== *)
theory S2_Types
  imports S2_Marked
begin

text \<open>
  Type and signature rendering (\<open>src/crates/scry2/src/kythe.rs\<close>: \<^verbatim>\<open>TypeGraph\<close>, \<^verbatim>\<open>render_type\<close>,
  \<^verbatim>\<open>render_builtin_app\<close>, \<^verbatim>\<open>TypeSide\<close>, \<^verbatim>\<open>CuTypeGraph\<close>, \<^verbatim>\<open>render_signature\<close>). The renderer walks a graph
  that may be cyclic and stops at a depth cap; on a node that denotes a type tree within the cap it
  prints that tree.
\<close>

section \<open>The type graph\<close>

record 'k type_graph =
  node_kind :: "'k \<Rightarrow> bytes"
  node_code :: "'k \<Rightarrow> bytes option"
  node_params :: "'k \<Rightarrow> 'k list"
  builtin_op :: "'k \<Rightarrow> bytes"

definition TYPE_RENDER_MAX_DEPTH :: nat where "TYPE_RENDER_MAX_DEPTH = 64"

definition is_array_op :: "bytes \<Rightarrow> bool" where
  "is_array_op op \<longleftrightarrow> op = lit ''carr'' \<or> op = lit ''array''"

definition ptr_ref_decl_sym :: "bytes \<Rightarrow> bytes option" where
  "ptr_ref_decl_sym op =
     (if op = lit ''ptr'' then Some (lit ''*'')
      else if op = lit ''lvr'' then Some (lit ''&'')
      else if op = lit ''rvr'' then Some (lit ''&&'')
      else None)"

definition first_or_unknown :: "bytes list \<Rightarrow> bytes" where
  "first_or_unknown args = (case args of a # _ \<Rightarrow> a | [] \<Rightarrow> lit ''?'')"

definition render_builtin_app :: "bytes \<Rightarrow> bytes list \<Rightarrow> bytes" where
  "render_builtin_app op args =
     (let a0 = first_or_unknown args in
      if op = lit ''ptr'' then a0 @ lit '' *''
      else if op = lit ''lvr'' then a0 @ lit '' &''
      else if op = lit ''rvr'' then a0 @ lit '' &&''
      else if op = lit ''const'' then lit ''const '' @ a0
      else if op = lit ''volatile'' then lit ''volatile '' @ a0
      else if op = lit ''fn'' then a0 @ lit ''('' @ join (lit '', '') (tl args) @ lit '')''
      else if args = [] then op
      else op @ lit ''<'' @ join (lit '', '') args @ lit ''>'')"

text \<open>The end of \<^verbatim>\<open>render_type_rec\<close>: a named leaf, or a bare builtin.\<close>

definition render_leaf :: "unicode_tables \<Rightarrow> 'k type_graph \<Rightarrow> 'k \<Rightarrow> bytes option" where
  "render_leaf U g tk =
     (case Option.bind (node_code g tk) (typename_from_marked_source U) of
        Some name \<Rightarrow> Some (if node_kind g tk = lit ''tvar'' then short_name name else name)
      | None \<Rightarrow> if builtin_op g tk \<noteq> [] then Some (builtin_op g tk) else None)"

definition or_unknown :: "bytes option \<Rightarrow> bytes" where
  "or_unknown r = (case r of Some s \<Rightarrow> s | None \<Rightarrow> lit ''?'')"

definition type_app :: "bytes \<Rightarrow> bytes list \<Rightarrow> bytes" where
  "type_app head_name args =
     (if args = [] then head_name else head_name @ lit ''<'' @ join (lit '', '') args @ lit ''>'')"

definition is_builtin :: "'k type_graph \<Rightarrow> 'k \<Rightarrow> bool" where
  "is_builtin g tk \<longleftrightarrow> node_kind g tk = lit ''tbuiltin''"

function render_type_rec :: "unicode_tables \<Rightarrow> 'k type_graph \<Rightarrow> 'k \<Rightarrow> nat \<Rightarrow> bytes option"
  and array_element_render :: "unicode_tables \<Rightarrow> 'k type_graph \<Rightarrow> 'k \<Rightarrow> nat \<Rightarrow> bytes option" where
  "render_type_rec U g tk depth =
     (if TYPE_RENDER_MAX_DEPTH < depth then None
      else if node_kind g tk = lit ''tapp'' then
        (case node_params g tk of
           [] \<Rightarrow> Option.bind (node_code g tk) (typename_from_marked_source U)
         | head # rest \<Rightarrow>
             if is_builtin g head \<and> is_array_op (builtin_op g head) then
               Some ((case rest of [] \<Rightarrow> lit ''?''
                      | e # _ \<Rightarrow> or_unknown (render_type_rec U g e (depth + 1))) @ lit ''[]'')
             else
               (case (if is_builtin g head then
                        (case (ptr_ref_decl_sym (builtin_op g head), rest) of
                           (Some decl, arg # _) \<Rightarrow>
                             (case array_element_render U g arg depth of
                                Some elem \<Rightarrow> Some (elem @ lit '' ('' @ decl @ lit '')[]'')
                              | None \<Rightarrow> None)
                         | _ \<Rightarrow> None)
                      else None) of
                  Some s \<Rightarrow> Some s
                | None \<Rightarrow>
                    let args = map (\<lambda>a. or_unknown (render_type_rec U g a (depth + 1))) rest in
                    if is_builtin g head then Some (render_builtin_app (builtin_op g head) args)
                    else (case render_type_rec U g head (depth + 1) of
                            None \<Rightarrow> None
                          | Some head_name \<Rightarrow> Some (type_app head_name args))))
      else render_leaf U g tk)"
| "array_element_render U g tk depth =
     (if TYPE_RENDER_MAX_DEPTH < depth then None
      else if node_kind g tk \<noteq> lit ''tapp'' then None
      else (case node_params g tk of
              head # elem # _ \<Rightarrow>
                if is_builtin g head \<and> is_array_op (builtin_op g head)
                then render_type_rec U g elem (depth + 1) else None
            | _ \<Rightarrow> None))"
  by pat_completeness auto
termination
  by (relation "measure (case_sum (\<lambda>(U, g, tk, d). 2 * (65 - d) + 1) (\<lambda>(U, g, tk, d). 2 * (65 - d)))")
    (auto simp: TYPE_RENDER_MAX_DEPTH_def)

declare render_type_rec.simps [simp del] array_element_render.simps [simp del]

definition render_type :: "unicode_tables \<Rightarrow> 'k type_graph \<Rightarrow> 'k \<Rightarrow> bytes option" where
  "render_type U g tk = render_type_rec U g tk 0"

section \<open>The side table of a compilation unit\<close>

record type_side =
  ts_edges :: "(bytes \<times> bytes) list"
  ts_kind :: "(bytes \<times> bytes) list"
  ts_code :: "(bytes \<times> bytes) list"
  ts_params :: "(bytes \<times> (u32 \<times> bytes) list) list"
  ts_builtin_op :: "(bytes \<times> bytes) list"
  ts_functions :: "bytes list"

text \<open>\<^verbatim>\<open>BTreeMap::insert\<close> on the sorted list of its entries.\<close>

fun bt_insert :: "'k::linorder \<Rightarrow> 'v \<Rightarrow> ('k \<times> 'v) list \<Rightarrow> ('k \<times> 'v) list" where
  "bt_insert k v [] = [(k, v)]"
| "bt_insert k v ((k', x) # m) =
     (if k < k' then (k, v) # (k', x) # m
      else if k = k' then (k, v) # m
      else (k', x) # bt_insert k v m)"

definition cu_type_graph :: "type_side \<Rightarrow> bytes type_graph" where
  "cu_type_graph side =
     \<lparr> node_kind = (\<lambda>tk. case map_of (ts_kind side) tk of Some k \<Rightarrow> k | None \<Rightarrow> []),
       node_code = map_of (ts_code side),
       node_params = (\<lambda>tk. case map_of (ts_params side) tk of Some pm \<Rightarrow> map snd pm | None \<Rightarrow> []),
       builtin_op = (\<lambda>tk. case map_of (ts_builtin_op side) tk of Some op \<Rightarrow> op | None \<Rightarrow> []) \<rparr>"

text \<open>\<^verbatim>\<open>typed_of\<close>: the last typed edge of a node wins.\<close>

definition typed_of :: "type_side \<Rightarrow> bytes \<Rightarrow> bytes option" where
  "typed_of side = map_of (rev (ts_edges side))"

definition nonempty :: "bytes option \<Rightarrow> bytes option" where
  "nonempty r = (case r of Some s \<Rightarrow> if s = [] then None else Some s | None \<Rightarrow> None)"

definition return_type :: "unicode_tables \<Rightarrow> type_side \<Rightarrow> bytes \<Rightarrow> bytes option" where
  "return_type U side fn_key =
     nonempty (map_option (\<lambda>full. trim_end U (split_next (lit ''('') full))
       (Option.bind (typed_of side fn_key) (render_type U (cu_type_graph side))))"

definition node_fqn :: "unicode_tables \<Rightarrow> type_side \<Rightarrow> bytes \<Rightarrow> bytes option" where
  "node_fqn U side key = Option.bind (map_of (ts_code side) key) (parse_marked_source_fqn U)"

text \<open>One parameter: its text and whether a name was found.\<close>

definition param_part :: "unicode_tables \<Rightarrow> type_side \<Rightarrow> bytes \<Rightarrow> bytes \<times> bool" where
  "param_part U side pkey =
     (let pty = nonempty (Option.bind (typed_of side pkey) (render_type U (cu_type_graph side)));
          pname = nonempty (map_option (\<lambda>fqn. bare_param_name U (short_name fqn)) (node_fqn U side pkey))
      in (case (pty, pname) of
            (Some t, Some n) \<Rightarrow> t @ lit '' '' @ n
          | (Some t, None) \<Rightarrow> t
          | (None, Some n) \<Rightarrow> n
          | (None, None) \<Rightarrow> lit ''?'', pname \<noteq> None))"

definition render_signature :: "unicode_tables \<Rightarrow> type_side \<Rightarrow> bytes \<Rightarrow> bytes option" where
  "render_signature U side fn_key =
     (let fn_name = map_option short_name (node_fqn U side fn_key);
          ret_type = return_type U side fn_key
      in case map_of (ts_params side) fn_key of
           Some (p # ps) \<Rightarrow>
             let parts = map (param_part U side \<circ> snd) (p # ps) in
             if \<not> list_ex snd parts then None
             else let name = (case fn_name of Some n \<Rightarrow> n | None \<Rightarrow> []);
                      head = (case ret_type of
                                Some r \<Rightarrow> if name = [] then r else r @ lit '' '' @ name
                              | None \<Rightarrow> name)
                  in Some (head @ lit ''('' @ join (lit '', '') (map fst parts) @ lit '')'')
         | _ \<Rightarrow> (case (ret_type, fn_name) of
                   (Some r, Some n) \<Rightarrow> if n \<noteq> [] then Some (r @ lit '' '' @ n @ lit ''()'') else None
                 | _ \<Rightarrow> None))"

section \<open>Renders are valid strings\<close>

abbreviation valid_opt :: "bytes option \<Rightarrow> bool" where
  "valid_opt r \<equiv> (\<forall>s. r = Some s \<longrightarrow> utf8_valid s)"

lemma valid_lits [simp, utf8_intros]:
  "utf8_valid (lit ''?'')" "utf8_valid (lit ''*'')" "utf8_valid (lit ''&'')" "utf8_valid (lit ''&&'')"
  "utf8_valid (lit '' *'')" "utf8_valid (lit '' &'')" "utf8_valid (lit '' &&'')" "utf8_valid (lit ''const '')"
  "utf8_valid (lit ''volatile '')" "utf8_valid (lit ''('')" "utf8_valid (lit '')'')" "utf8_valid (lit ''<'')"
  "utf8_valid (lit ''>'')" "utf8_valid (lit '', '')" "utf8_valid (lit '' ('')" "utf8_valid (lit '')[]'')"
  "utf8_valid (lit ''[]'')" "utf8_valid (lit '' '')" "utf8_valid (lit ''()'')"
  by (simp_all add: lit_def utf8_ascii)

lemma first_or_unknown_valid [utf8_intros]: "(\<And>a. a \<in> set args \<Longrightarrow> utf8_valid a) \<Longrightarrow> utf8_valid (first_or_unknown args)"
  by (simp add: first_or_unknown_def split: list.split)

lemma render_builtin_app_valid [utf8_intros]:
  assumes "utf8_valid op" and args: "\<And>a. a \<in> set args \<Longrightarrow> utf8_valid a"
  shows "utf8_valid (render_builtin_app op args)"
proof -
  have "utf8_valid a" if "a \<in> set (tl args)" for a using that args by (cases args) auto
  then show ?thesis
    unfolding render_builtin_app_def Let_def
    by (intro utf8_if utf8_appendI utf8_join valid_lits assms(1) first_or_unknown_valid) (simp_all add: args)
qed

lemma type_app_valid [utf8_intros]:
  "utf8_valid h \<Longrightarrow> (\<And>a. a \<in> set args \<Longrightarrow> utf8_valid a) \<Longrightarrow> utf8_valid (type_app h args)"
  by (auto simp: type_app_def intro!: utf8_appendI utf8_join)

lemma or_unknown_valid [utf8_intros]: "valid_opt r \<Longrightarrow> utf8_valid (or_unknown r)"
  by (auto simp: or_unknown_def split: option.split)

lemma ptr_ref_decl_sym_valid: "valid_opt (ptr_ref_decl_sym op)"
  by (simp add: ptr_ref_decl_sym_def)

lemma bind_typename_valid: "valid_opt (Option.bind c (typename_from_marked_source U))"
  by (cases c) (auto dest: typename_valid)

lemma render_leaf_valid: "utf8_valid (builtin_op g tk) \<Longrightarrow> valid_opt (render_leaf U g tk)"
  using bind_typename_valid [of "node_code g tk" U]
  by (auto simp: render_leaf_def intro: utf8_intros split: option.splits)

text \<open>Induction from the depth cap downwards.\<close>

lemma depth_induct [case_names Cap Step]:
  assumes "\<And>d. TYPE_RENDER_MAX_DEPTH < d \<Longrightarrow> P d"
    and "\<And>d. d \<le> TYPE_RENDER_MAX_DEPTH \<Longrightarrow> P (Suc d) \<Longrightarrow> P d"
  shows "P d"
proof (induction "Suc TYPE_RENDER_MAX_DEPTH - d" arbitrary: d)
  case 0
  then show ?case using assms(1) by simp
next
  case (Suc n)
  then show ?case using assms(2) [of d] by (metis Suc_diff_Suc Suc_inject diff_Suc_Suc less_Suc_eq_le zero_less_Suc zero_less_diff)
qed

lemma array_element_valid:
  "(\<And>k. valid_opt (render_type_rec U g k (Suc d))) \<Longrightarrow> valid_opt (array_element_render U g tk d)"
  by (auto simp: array_element_render.simps [of U g tk d] split: list.splits if_splits)

lemma render_type_rec_valid:
  assumes "\<And>k. utf8_valid (builtin_op g k)"
  shows "valid_opt (render_type_rec U g tk d)"
proof (induction d arbitrary: tk rule: depth_induct)
  case (Cap d)
  then show ?case by (simp add: render_type_rec.simps)
next
  case (Step d)
  note arr = array_element_valid [OF Step(2)]
  have args: "utf8_valid a" if "a \<in> set (map (\<lambda>a. or_unknown (render_type_rec U g a (d + 1))) rest)" for a rest
    using that Step(2) by (auto intro!: or_unknown_valid)
  show ?case
  proof (cases "node_kind g tk = lit ''tapp''")
    case False
    then show ?thesis using render_leaf_valid [of g tk U] assms Step(1) by (simp add: render_type_rec.simps [of U g tk])
  next
    case True
    show ?thesis
    proof (cases "node_params g tk")
      case Nil
      then show ?thesis using bind_typename_valid [of "node_code g tk" U] Step(1) True
        by (simp add: render_type_rec.simps [of U g tk])
    next
      case (Cons head rest)
      define special where "special =
        (if is_builtin g head then
           (case (ptr_ref_decl_sym (builtin_op g head), rest) of
              (Some decl, arg # _) \<Rightarrow>
                (case array_element_render U g arg d of
                   Some elem \<Rightarrow> Some (elem @ lit '' ('' @ decl @ lit '')[]'')
                 | None \<Rightarrow> None)
            | _ \<Rightarrow> None)
         else None)"
      have "valid_opt special"
        using arr ptr_ref_decl_sym_valid [of "builtin_op g head"]
        by (auto simp: special_def intro!: utf8_appendI split: option.splits list.splits)
      then show ?thesis
        using Step args [of _ rest] assms
        unfolding render_type_rec.simps [of U g tk] Cons list.case special_def [symmetric]
        by (auto simp: True Let_def intro!: utf8_intros split: option.split list.split)
    qed
  qed
qed

text \<open>Validity of the strings a side table holds.\<close>

definition side_ok :: "type_side \<Rightarrow> bool" where
  "side_ok side \<longleftrightarrow> (\<forall>(k, op) \<in> set (ts_builtin_op side). utf8_valid op)"

lemma cu_builtin_op_valid: "side_ok side \<Longrightarrow> utf8_valid (builtin_op (cu_type_graph side) k)"
  by (auto simp: side_ok_def cu_type_graph_def dest: map_of_SomeD split: option.split)

lemma render_type_valid: "side_ok side \<Longrightarrow> valid_opt (render_type U (cu_type_graph side) k)"
  unfolding render_type_def by (rule render_type_rec_valid) (rule cu_builtin_op_valid)

lemma nonempty_Some: "nonempty r = Some s \<longleftrightarrow> r = Some s \<and> s \<noteq> []"
  by (auto simp: nonempty_def split: option.splits)

lemma node_fqn_valid: "valid_opt (node_fqn U side k)"
  by (auto simp: node_fqn_def bind_eq_Some_conv dest: parse_marked_source_fqn_valid)

lemma return_type_valid: "side_ok side \<Longrightarrow> valid_opt (return_type U side k)"
  using render_type_valid [of side U]
  by (auto simp: return_type_def nonempty_Some bind_eq_Some_conv lit_def intro!: utf8_trim_end utf8_split_next)

lemma param_part_valid:
  assumes "side_ok side"
  shows "utf8_valid (fst (param_part U side k))"
proof -
  let ?t = "nonempty (Option.bind (typed_of side k) (render_type U (cu_type_graph side)))"
  let ?n = "nonempty (map_option (\<lambda>fqn. bare_param_name U (short_name fqn)) (node_fqn U side k))"
  have "valid_opt ?t" using render_type_valid [OF assms] by (auto simp: nonempty_Some bind_eq_Some_conv)
  moreover have "valid_opt ?n" using node_fqn_valid [of U side k] by (auto simp: nonempty_Some intro!: utf8_intros)
  ultimately show ?thesis
    unfolding param_part_def Let_def fst_conv by (cases ?t; cases ?n) (auto intro!: utf8_appendI)
qed

lemma render_signature_valid:
  assumes "side_ok side"
  shows "valid_opt (render_signature U side k)"
proof -
  have name: "valid_opt (map_option short_name (node_fqn U side k))"
    using node_fqn_valid [of U side k] by (auto intro: utf8_intros)
  have parts: "utf8_valid (join (lit '', '') (map fst (map (param_part U side \<circ> snd) ps)))" for ps :: "(u32 \<times> bytes) list"
    using param_part_valid [OF assms] by (intro utf8_join) auto
  show ?thesis
    using name return_type_valid [OF assms, of U k] parts [of "the (map_of (ts_params side) k)"]
    unfolding render_signature_def Let_def
    by (auto intro!: utf8_appendI split: option.splits list.splits if_splits)
qed

section \<open>Type trees\<close>

text \<open>A type as a tree, its printed form, and the trees that the nodes of a graph denote.\<close>

datatype ty = TyName bytes | TyApp ty "ty list" | TyBuiltin bytes "ty list"

text \<open>The element type of an array.\<close>

fun array_elem :: "ty \<Rightarrow> ty option" where
  "array_elem (TyBuiltin op (e # _)) = (if is_array_op op then Some e else None)"
| "array_elem _ = None"

fun pretty :: "ty \<Rightarrow> bytes" where
  "pretty (TyName n) = n"
| "pretty (TyApp h args) = type_app (pretty h) (map pretty args)"
| "pretty (TyBuiltin op args) =
     (if is_array_op op then first_or_unknown (map pretty args) @ lit ''[]''
      else case (ptr_ref_decl_sym op, args) of
             (Some decl, TyBuiltin op' (e # es) # _) \<Rightarrow>
               if is_array_op op' then pretty e @ lit '' ('' @ decl @ lit '')[]''
               else render_builtin_app op (map pretty args)
           | _ \<Rightarrow> render_builtin_app op (map pretty args))"

primrec ty_height :: "ty \<Rightarrow> nat" where
  "ty_height (TyName n) = 0"
| "ty_height (TyApp h args) = Suc (max (ty_height h) (Max (set (0 # map ty_height args))))"
| "ty_height (TyBuiltin op args) = Suc (Max (set (0 # map ty_height args)))"

inductive denotes :: "unicode_tables \<Rightarrow> 'k type_graph \<Rightarrow> 'k \<Rightarrow> ty \<Rightarrow> bool" for U g where
  leaf: "node_kind g tk \<noteq> lit ''tapp'' \<Longrightarrow> render_leaf U g tk = Some n \<Longrightarrow> denotes U g tk (TyName n)"
| code: "node_kind g tk = lit ''tapp'' \<Longrightarrow> node_params g tk = [] \<Longrightarrow>
    Option.bind (node_code g tk) (typename_from_marked_source U) = Some n \<Longrightarrow> denotes U g tk (TyName n)"
| builtin: "node_kind g tk = lit ''tapp'' \<Longrightarrow> node_params g tk = head # args \<Longrightarrow> is_builtin g head \<Longrightarrow>
    list_all2 (denotes U g) args ts \<Longrightarrow> denotes U g tk (TyBuiltin (builtin_op g head) ts)"
| app: "node_kind g tk = lit ''tapp'' \<Longrightarrow> node_params g tk = head # args \<Longrightarrow> \<not> is_builtin g head \<Longrightarrow>
    denotes U g head h \<Longrightarrow> list_all2 (denotes U g) args ts \<Longrightarrow> denotes U g tk (TyApp h ts)"

inductive_cases denotes_builtinE: "denotes U g tk (TyBuiltin op ts)"

lemma pretty_builtin:
  "pretty (TyBuiltin op args) =
     (if is_array_op op then first_or_unknown (map pretty args) @ lit ''[]''
      else case (ptr_ref_decl_sym op, args) of
             (Some decl, a # _) \<Rightarrow>
               (case array_elem a of
                  Some e \<Rightarrow> pretty e @ lit '' ('' @ decl @ lit '')[]''
                | None \<Rightarrow> render_builtin_app op (map pretty args))
           | _ \<Rightarrow> render_builtin_app op (map pretty args))"
  by (auto split: option.splits list.splits ty.splits)

lemma height_arg: "t \<in> set ts \<Longrightarrow> d + ty_height (TyBuiltin op ts) \<le> n \<Longrightarrow> Suc d + ty_height t \<le> n"
  "t \<in> set ts \<Longrightarrow> d + ty_height (TyApp h ts) \<le> n \<Longrightarrow> Suc d + ty_height t \<le> n"
proof -
  have "ty_height t \<le> Max (set (0 # map ty_height ts))" if "t \<in> set ts" using that by (intro Max_ge) auto
  then show "t \<in> set ts \<Longrightarrow> d + ty_height (TyBuiltin op ts) \<le> n \<Longrightarrow> Suc d + ty_height t \<le> n"
    "t \<in> set ts \<Longrightarrow> d + ty_height (TyApp h ts) \<le> n \<Longrightarrow> Suc d + ty_height t \<le> n"
    by (auto simp del: Max_insert set_map list.set_map simp: max_def split: if_splits)
qed

text \<open>What the two renderers return on a node that denotes a tree.\<close>

definition prints :: "unicode_tables \<Rightarrow> 'k type_graph \<Rightarrow> 'k \<Rightarrow> ty \<Rightarrow> bool" where
  "prints U g tk t \<longleftrightarrow> (\<forall>d. d + ty_height t \<le> TYPE_RENDER_MAX_DEPTH \<longrightarrow>
     render_type_rec U g tk d = Some (pretty t) \<and> array_element_render U g tk d = map_option pretty (array_elem t))"

lemma printed_args:
  assumes "list_all2 (prints U g) args ts" and "\<And>t. t \<in> set ts \<Longrightarrow> Suc d + ty_height t \<le> TYPE_RENDER_MAX_DEPTH"
  shows "map (\<lambda>a. or_unknown (render_type_rec U g a (d + 1))) args = map pretty ts"
  using assms by (induction rule: list_all2_induct) (auto simp: prints_def or_unknown_def)

lemma denotes_prints: "denotes U g tk t \<Longrightarrow> prints U g tk t"
proof (induction rule: denotes.induct)
  case (leaf tk n)
  then show ?case by (simp add: prints_def render_type_rec.simps [of U g tk] array_element_render.simps [of U g tk])
next
  case (code tk n)
  then show ?case by (simp add: prints_def render_type_rec.simps [of U g tk] array_element_render.simps [of U g tk])
next
  case (builtin tk head args ts)
  have all: "list_all2 (prints U g) args ts" using builtin(4) by (rule list_all2_mono) simp
  show ?case unfolding prints_def
  proof (intro allI impI conjI)
    fix d
    assume d: "d + ty_height (TyBuiltin (builtin_op g head) ts) \<le> TYPE_RENDER_MAX_DEPTH"
    note args = printed_args [OF all height_arg(1) [OF _ d]]
    have cap: "\<not> TYPE_RENDER_MAX_DEPTH < d" using d by simp
    have arg: "array_element_render U g a d = map_option pretty (array_elem t)" if "args = a # as" "ts = t # ts'" for a as t ts'
      using all height_arg(1) [OF _ d, of t] that by (auto simp: prints_def)
    show "render_type_rec U g tk d = Some (pretty (TyBuiltin (builtin_op g head) ts))"
      using all args arg cap builtin(1-3)
      unfolding pretty_builtin render_type_rec.simps [of U g tk]
      by (cases args; cases ts) (auto simp: first_or_unknown_def split: option.splits)
    show "array_element_render U g tk d = map_option pretty (array_elem (TyBuiltin (builtin_op g head) ts))"
      using all cap builtin(1-3) height_arg(1) [OF _ d]
      by (cases args; cases ts) (auto simp: array_element_render.simps [of U g tk] prints_def)
  qed
next
  case (app tk head args h ts)
  have all: "list_all2 (prints U g) args ts" using app(6) by (rule list_all2_mono) simp
  show ?case unfolding prints_def
  proof (intro allI impI conjI)
    fix d
    assume d: "d + ty_height (TyApp h ts) \<le> TYPE_RENDER_MAX_DEPTH"
    note args = printed_args [OF all height_arg(2) [OF _ d]]
    have "Suc d + ty_height h \<le> TYPE_RENDER_MAX_DEPTH" using d by simp
    then have "render_type_rec U g head (d + 1) = Some (pretty h)" using app(5) by (simp add: prints_def)
    then show "render_type_rec U g tk d = Some (pretty (TyApp h ts))"
      using d args app(1-3) by (simp add: render_type_rec.simps [of U g tk])
    show "array_element_render U g tk d = map_option pretty (array_elem (TyApp h ts))"
      using app(1-3) by (simp add: array_element_render.simps [of U g tk] split: list.split)
  qed
qed

lemma render_type_denotes:
  "denotes U g tk t \<Longrightarrow> ty_height t \<le> TYPE_RENDER_MAX_DEPTH \<Longrightarrow> render_type U g tk = Some (pretty t)"
  using denotes_prints [of U g tk t] by (auto simp: prints_def render_type_def)

end
