(* ===== verification/S2_Ingest.thy ===== *)
theory S2_Ingest
  imports S2_Alloc S2_Types
begin

text \<open>
  Ingestion of an entry stream (\<open>src/crates/scry2/src/kythe.rs\<close>: \<^verbatim>\<open>IngestState\<close>, \<^verbatim>\<open>process_entry\<close>,
  \<^verbatim>\<open>flush_ready\<close>, \<^verbatim>\<open>emit_xref_resolved\<close>, \<^verbatim>\<open>innermost_containing\<close>, \<^verbatim>\<open>ingest_tolerant\<close>). The context holds the
  per-stream state, the builder, the file ids and the counters. The hash of a symbol string is the
  xxHash of a library and a parameter \<open>H\<close>; the stream is the byte string its reader delivers.
\<close>

section \<open>State\<close>

record anchor_accum =
  an_is_anchor :: bool
  an_path :: bytes
  an_start :: "u32 option"
  an_end :: "u32 option"
  an_pending :: "(vname \<times> u8) list"
  an_body_def_sym :: "u64 option"

definition anchor_default :: anchor_accum where
  "anchor_default = \<lparr> an_is_anchor = False, an_path = [], an_start = None, an_end = None,
     an_pending = [], an_body_def_sym = None \<rparr>"

record ingest_stats =
  n_entries :: nat
  n_anchors_flushed :: nat
  n_xrefs :: nat
  n_inherits :: nat
  n_aliases :: nat
  n_calls :: nat
  n_types :: nat
  n_childof :: nat
  n_sigs :: nat
  n_bridges :: nat
  n_defines_seen :: nat
  n_pending :: nat
  n_unresolved :: nat

definition stats_default :: ingest_stats where
  "stats_default = \<lparr> n_entries = 0, n_anchors_flushed = 0, n_xrefs = 0, n_inherits = 0, n_aliases = 0,
     n_calls = 0, n_types = 0, n_childof = 0, n_sigs = 0, n_bridges = 0, n_defines_seen = 0,
     n_pending = 0, n_unresolved = 0 \<rparr>"

type_synonym body_anchor = "u32 \<times> u32 \<times> u32 \<times> u64"
type_synonym call_site = "u32 \<times> u32 \<times> u64 \<times> u8"

record ingest =
  st_anchors :: "(bytes \<times> anchor_accum) list"
  st_bridges :: "(bytes \<times> bytes) list"
  st_bodies :: "body_anchor list"
  st_calls :: "call_site list"
  st_xrefs :: "xref_row list"
  st_aliases :: "(u64 \<times> bytes) list"
  st_inherits :: "inh_row list"
  st_parent_keys :: "bytes list"
  st_childof :: "inh_row list"
  st_types :: type_side
  in_builder :: index_builder
  in_files :: file_ids
  in_stats :: ingest_stats

definition type_side_default :: type_side where
  "type_side_default = \<lparr> ts_edges = [], ts_kind = [], ts_code = [], ts_params = [], ts_builtin_op = [], ts_functions = [] \<rparr>"

definition ingest_start :: "index_builder \<Rightarrow> file_ids \<Rightarrow> ingest" where
  "ingest_start b a = \<lparr> st_anchors = [], st_bridges = [], st_bodies = [], st_calls = [], st_xrefs = [],
     st_aliases = [], st_inherits = [], st_parent_keys = [], st_childof = [], st_types = type_side_default,
     in_builder = b, in_files = a, in_stats = stats_default \<rparr>"

section \<open>Kinds of edges and facts\<close>

definition edge_base :: "bytes \<Rightarrow> bytes" where
  "edge_base kind = split_next (lit ''.'') kind"

definition edge_to_role :: "bytes \<Rightarrow> u8 option" where
  "edge_to_role kind =
     (let base = edge_base kind in
      if base = lit ''/kythe/edge/defines/binding'' then Some role_DECL
      else if base = lit ''/kythe/edge/defines'' then Some role_DEF
      else if base = lit ''/kythe/edge/ref'' then Some role_REF
      else if base = lit ''/kythe/edge/ref/call'' then Some role_CALL
      else if base = lit ''/kythe/edge/ref/writes'' then Some role_REF
      else if base = lit ''/kythe/edge/ref/imports'' then Some role_REF
      else None)"

definition is_inherit_edge :: "bytes \<Rightarrow> bool" where
  "is_inherit_edge kind \<longleftrightarrow> edge_base kind \<in>
     {lit ''/kythe/edge/extends'', lit ''/kythe/edge/extends/private'', lit ''/kythe/edge/extends/protected'',
      lit ''/kythe/edge/extends/public'', lit ''/kythe/edge/overrides'', lit ''/kythe/edge/satisfies''}"

definition is_completes_edge :: "bytes \<Rightarrow> bool" where
  "is_completes_edge kind \<longleftrightarrow>
     edge_base kind \<in> {lit ''/kythe/edge/completes'', lit ''/kythe/edge/completes/uniquely''}"

definition is_childof_edge :: "bytes \<Rightarrow> bool" where
  "is_childof_edge kind \<longleftrightarrow> edge_base kind = lit ''/kythe/edge/childof''"

definition is_named_edge :: "bytes \<Rightarrow> bool" where
  "is_named_edge kind \<longleftrightarrow> edge_base kind = lit ''/kythe/edge/named''"

definition is_jvm_type_byte :: "u8 \<Rightarrow> bool" where
  "is_jvm_type_byte b \<longleftrightarrow> b \<in> {0x3B, 0x5B, 0x2F, 0x24, 0x5F} \<or> 0x61 \<le> b \<and> b \<le> 0x7A \<or> 0x41 \<le> b \<and> b \<le> 0x5A \<or>
     0x30 \<le> b \<and> b \<le> 0x39"

definition strip_jvm_method_descriptor :: "bytes \<Rightarrow> bytes option" where
  "strip_jvm_method_descriptor sg =
     (case after_last (lit ''('') sg of
        None \<Rightarrow> None
      | Some r \<Rightarrow>
          (case before_first (lit '')'') r of
             None \<Rightarrow> None
           | Some args \<Rightarrow>
               let ret = drop (length args + 1) r in
               if \<not> list_all is_jvm_type_byte args then None
               else if ret = [] \<or> \<not> list_all is_jvm_type_byte ret then None
               else Some (take (length sg - length r - 1) sg)))"

definition node_kind_byte :: "bytes \<Rightarrow> u8" where
  "node_kind_byte s =
     (if s = lit ''function'' then kind_FUNCTION
      else if s = lit ''record'' \<or> s = lit ''interface'' then kind_TYPE
      else if s = lit ''variable'' then kind_VARIABLE
      else if s = lit ''constant'' \<or> s = lit ''field'' then kind_FIELD
      else if s = lit ''package'' then kind_PACKAGE
      else kind_UNK)"

definition parse_ascii_u32 :: "bytes \<Rightarrow> u32 option" where
  "parse_ascii_u32 b = (if utf8_valid b then parse_u32 b else None)"

definition parse_param_ordinal :: "bytes \<Rightarrow> u32 option" where
  "parse_param_ordinal kind = Option.bind (strip_prefix kind (lit ''/kythe/edge/param.'')) parse_u32"

definition is_type_node_kind :: "bytes \<Rightarrow> bool" where
  "is_type_node_kind kind \<longleftrightarrow> kind \<in> {lit ''tapp'', lit ''tbuiltin'', lit ''tvar'', lit ''record'',
     lit ''interface'', lit ''sum'', lit ''talias''}"

definition builtin_op_of :: "bytes \<Rightarrow> bytes option" where
  "builtin_op_of sg =
     nonempty (case strip_suffix sg (lit ''#builtin'') of
                 Some op \<Rightarrow> Some op
               | None \<Rightarrow> before_first (lit ''#builtin'') sg)"

section \<open>Emitting cross references\<close>

text \<open>\<^verbatim>\<open>file_ids.intern\<close> followed by \<^verbatim>\<open>builder.upsert_file\<close>.\<close>

definition intern_file :: "bytes \<Rightarrow> ingest \<Rightarrow> u32 \<times> ingest" where
  "intern_file p cx =
     (let (i, a) = intern p (in_files cx)
      in (i, cx\<lparr> in_files := a, in_builder := upsert_file i p (in_builder cx) \<rparr>))"

definition emit_xref_resolved ::
    "(bytes \<Rightarrow> u64) \<Rightarrow> unicode_tables \<Rightarrow> vname \<Rightarrow> u8 \<Rightarrow> u32 \<Rightarrow> u32 \<Rightarrow> ingest \<Rightarrow> ingest" where
  "emit_xref_resolved H U target role file_id off cx =
     (if vname_empty target then cx
      else let sym_str = to_symbol_string target; s = H sym_str
           in cx\<lparr> in_builder := upsert_sym U s kind_UNK (lang_byte target) sym_str (in_builder cx),
                 st_xrefs := st_xrefs cx @ [(s, role, file_id, off)],
                 in_stats := (in_stats cx)\<lparr> n_xrefs := n_xrefs (in_stats cx) + 1 \<rparr> \<rparr>)"

definition note_call_site :: "u32 \<Rightarrow> u32 \<Rightarrow> u64 \<Rightarrow> u8 \<Rightarrow> ingest \<Rightarrow> ingest" where
  "note_call_site file_id start target_sym role cx =
     (if role = role_REF \<or> role = role_CALL
      then cx\<lparr> st_calls := st_calls cx @ [(file_id, start, target_sym, role)] \<rparr> else cx)"

text \<open>The loop of \<^verbatim>\<open>flush_ready\<close> over the pending targets.\<close>

fun flush_pending ::
    "(bytes \<Rightarrow> u64) \<Rightarrow> unicode_tables \<Rightarrow> u32 \<Rightarrow> u32 \<Rightarrow> (vname \<times> u8) list \<Rightarrow> anchor_accum \<Rightarrow> ingest \<Rightarrow> anchor_accum \<times> ingest" where
  "flush_pending H U file_id start [] a cx = (a, cx)"
| "flush_pending H U file_id start ((target, role) # pend) a cx =
     (let target_sym = H (to_symbol_string target);
          cx1 = note_call_site file_id start target_sym role
                  (emit_xref_resolved H U target role file_id start cx)
      in if role = role_DEF then
           (case an_end a of
              Some e \<Rightarrow>
                flush_pending H U file_id start pend (a\<lparr> an_body_def_sym := None \<rparr>)
                  (cx1\<lparr> st_bodies := st_bodies cx1 @ [(file_id, start, e, target_sym)] \<rparr>)
            | None \<Rightarrow> flush_pending H U file_id start pend (a\<lparr> an_body_def_sym := Some target_sym \<rparr>) cx1)
         else flush_pending H U file_id start pend a cx1)"

definition flush_ready ::
    "(bytes \<Rightarrow> u64) \<Rightarrow> unicode_tables \<Rightarrow> anchor_accum \<Rightarrow> ingest \<Rightarrow> anchor_accum \<times> ingest" where
  "flush_ready H U a cx =
     (case an_start a of
        None \<Rightarrow> (a, cx)
      | Some start \<Rightarrow>
          if \<not> an_is_anchor a then (a, cx)
          else let (file_id, cx1) = intern_file (an_path a) cx;
                   (a', cx2) = flush_pending H U file_id start (an_pending a) (a\<lparr> an_pending := [] \<rparr>) cx1
               in (a', cx2\<lparr> in_stats := (in_stats cx2)\<lparr> n_anchors_flushed := n_anchors_flushed (in_stats cx2) + 1 \<rparr> \<rparr>))"

section \<open>Entries\<close>

text \<open>\<^verbatim>\<open>anchors.entry(key).or_default()\<close>, and storing the accumulator back.\<close>

definition anchor_at :: "bytes \<Rightarrow> ingest \<Rightarrow> anchor_accum" where
  "anchor_at key cx = (case map_of (st_anchors cx) key of Some a \<Rightarrow> a | None \<Rightarrow> anchor_default)"

definition put_anchor :: "bytes \<Rightarrow> anchor_accum \<times> ingest \<Rightarrow> ingest" where
  "put_anchor key r = (case r of (a, cx) \<Rightarrow> cx\<lparr> st_anchors := hm_insert key a (st_anchors cx) \<rparr>)"

definition seed_path :: "bytes \<Rightarrow> anchor_accum \<Rightarrow> anchor_accum" where
  "seed_path p a = (if an_path a = [] then a\<lparr> an_path := p \<rparr> else a)"

definition named_edge :: "(bytes \<Rightarrow> u64) \<Rightarrow> bytes \<Rightarrow> bytes \<Rightarrow> ingest \<Rightarrow> ingest" where
  "named_edge H source_key raw cx =
     (let s = H source_key;
          new = (s, raw) # (case strip_jvm_method_descriptor raw of
                              Some stripped \<Rightarrow> if length stripped \<noteq> length raw then [(s, stripped)] else []
                            | None \<Rightarrow> [])
      in cx\<lparr> st_aliases := st_aliases cx @ new,
            in_stats := (in_stats cx)\<lparr> n_aliases := n_aliases (in_stats cx) + length new \<rparr> \<rparr>)"

definition inherit_edge :: "(bytes \<Rightarrow> u64) \<Rightarrow> bytes \<Rightarrow> bytes \<Rightarrow> ingest \<Rightarrow> ingest" where
  "inherit_edge H source_key parent_key cx =
     cx\<lparr> st_inherits := st_inherits cx @ [(H source_key, H parent_key)],
        st_parent_keys := (if parent_key \<in> set (st_parent_keys cx) then st_parent_keys cx
                           else st_parent_keys cx @ [parent_key]),
        in_stats := (in_stats cx)\<lparr> n_inherits := n_inherits (in_stats cx) + 1 \<rparr> \<rparr>"

definition xref_edge ::
    "(bytes \<Rightarrow> u64) \<Rightarrow> unicode_tables \<Rightarrow> bytes \<Rightarrow> bytes \<Rightarrow> vname \<Rightarrow> u8 \<Rightarrow> ingest \<Rightarrow> ingest" where
  "xref_edge H U source_key source_path target role cx =
     (let target_sym = H (to_symbol_string target);
          a0 = seed_path source_path (anchor_at source_key cx);
          a = (if role = role_DEF then a0\<lparr> an_body_def_sym := Some target_sym \<rparr> else a0)
      in put_anchor source_key
           (case an_start a of
              Some start \<Rightarrow>
                if an_is_anchor a then
                  (let (file_id, cx1) = intern_file (an_path a) cx;
                       cx2 = note_call_site file_id start target_sym role
                               (emit_xref_resolved H U target role file_id start cx1);
                       cx3 = (if role = role_DEF then
                                (case an_end a of
                                   Some e \<Rightarrow> cx2\<lparr> st_bodies := st_bodies cx2 @ [(file_id, start, e, target_sym)] \<rparr>
                                 | None \<Rightarrow> cx2)
                              else cx2)
                   in (a, cx3))
                else (a\<lparr> an_pending := an_pending a @ [(target, role)] \<rparr>, cx)
            | None \<Rightarrow> (a\<lparr> an_pending := an_pending a @ [(target, role)] \<rparr>, cx)))"

definition process_edge :: "(bytes \<Rightarrow> u64) \<Rightarrow> unicode_tables \<Rightarrow> entry \<Rightarrow> bytes \<Rightarrow> ingest \<Rightarrow> ingest" where
  "process_edge H U e source_key cx =
     (let kind = e_edge_kind e; target = e_target e; target_key = to_symbol_string target in
      if is_completes_edge kind \<and> \<not> vname_empty target then
        cx\<lparr> st_bridges := hm_insert source_key target_key (st_bridges cx) \<rparr>
      else if is_named_edge kind \<and> vn_signature target \<noteq> [] then named_edge H source_key (vn_signature target) cx
      else if is_inherit_edge kind \<and> \<not> vname_empty target then inherit_edge H source_key target_key cx
      else if kind = lit ''/kythe/edge/typed'' \<and> \<not> vname_empty target then
        cx\<lparr> st_types := (st_types cx)\<lparr> ts_edges := ts_edges (st_types cx) @ [(source_key, target_key)] \<rparr> \<rparr>
      else case parse_param_ordinal kind of
        Some ord \<Rightarrow>
          if vname_empty target then cx
          else cx\<lparr> st_types := (st_types cx)\<lparr> ts_params :=
                 hm_entry source_key (bt_insert ord target_key) (bt_insert ord target_key []) (ts_params (st_types cx)) \<rparr> \<rparr>
      | None \<Rightarrow>
          if is_childof_edge kind \<and> \<not> vname_empty target then
            cx\<lparr> st_childof := st_childof cx @ [(H source_key, H target_key)],
               in_stats := (in_stats cx)\<lparr> n_childof := n_childof (in_stats cx) + 1 \<rparr> \<rparr>
          else case edge_to_role kind of
            Some role \<Rightarrow> xref_edge H U source_key (vn_path (e_source e)) target role cx
          | None \<Rightarrow> cx)"

definition code_fact :: "(bytes \<Rightarrow> u64) \<Rightarrow> unicode_tables \<Rightarrow> bytes \<Rightarrow> bytes \<Rightarrow> ingest \<Rightarrow> ingest" where
  "code_fact H U source_key value cx =
     (let cx1 = (case parse_marked_source_fqn U value of
                   Some fqn \<Rightarrow>
                     if is_degenerate_render U fqn then cx
                     else cx\<lparr> st_aliases := st_aliases cx @ [(H source_key, fqn)],
                             in_stats := (in_stats cx)\<lparr> n_aliases := n_aliases (in_stats cx) + 1 \<rparr> \<rparr>
                 | None \<Rightarrow> cx)
      in cx1\<lparr> st_types := (st_types cx1)\<lparr> ts_code := hm_or_insert source_key value (ts_code (st_types cx1)) \<rparr> \<rparr>)"

definition node_fact :: "(bytes \<Rightarrow> u64) \<Rightarrow> unicode_tables \<Rightarrow> vname \<Rightarrow> bytes \<Rightarrow> bytes \<Rightarrow> ingest \<Rightarrow> ingest" where
  "node_fact H U src source_key value cx =
     (if value = lit ''anchor'' then
        put_anchor source_key
          (flush_ready H U (seed_path (vn_path src) ((anchor_at source_key cx)\<lparr> an_is_anchor := True \<rparr>)) cx)
      else
        let k = node_kind_byte value;
            cx1 = cx\<lparr> in_builder := upsert_sym U (H source_key) k (lang_byte src) source_key (in_builder cx) \<rparr>
        in if k = kind_FUNCTION
           then cx1\<lparr> st_types := (st_types cx1)\<lparr> ts_functions := ts_functions (st_types cx1) @ [source_key] \<rparr> \<rparr>
           else cx1)"

definition type_fact :: "vname \<Rightarrow> bytes \<Rightarrow> bytes \<Rightarrow> ingest \<Rightarrow> ingest" where
  "type_fact src source_key value cx =
     (if is_type_node_kind value then
        let t = (st_types cx)\<lparr> ts_kind := hm_insert source_key value (ts_kind (st_types cx)) \<rparr> in
        cx\<lparr> st_types :=
          (if value = lit ''tbuiltin'' then
             (case builtin_op_of (vn_signature src) of
                Some op \<Rightarrow> t\<lparr> ts_builtin_op := hm_insert source_key op (ts_builtin_op t) \<rparr>
              | None \<Rightarrow> t)
           else t) \<rparr>
      else cx)"

definition end_fact :: "bytes \<Rightarrow> u32 \<Rightarrow> ingest \<Rightarrow> ingest" where
  "end_fact source_key v cx =
     (let a = (anchor_at source_key cx)\<lparr> an_end := Some v \<rparr>
      in put_anchor source_key
           (case (an_is_anchor a, an_start a, an_body_def_sym a) of
              (True, Some start, Some s) \<Rightarrow>
                (let (file_id, cx1) = intern_file (an_path a) cx
                 in (a, cx1\<lparr> st_bodies := st_bodies cx1 @ [(file_id, start, v, s)] \<rparr>))
            | _ \<Rightarrow> (a, cx)))"

definition process_fact :: "(bytes \<Rightarrow> u64) \<Rightarrow> unicode_tables \<Rightarrow> entry \<Rightarrow> bytes \<Rightarrow> ingest \<Rightarrow> ingest" where
  "process_fact H U e source_key cx =
     (let fact = e_fact_name e; raw = e_fact_value e; value = (if utf8_valid raw then raw else []) in
      if fact = lit ''/kythe/code'' then code_fact H U source_key raw cx
      else if fact = lit ''/kythe/node/kind'' then
        type_fact (e_source e) source_key value (node_fact H U (e_source e) source_key value cx)
      else if fact = lit ''/kythe/subkind'' then
        (if value = lit ''field'' \<or> value = lit ''constant''
         then cx\<lparr> in_builder := mark_field (H source_key) (in_builder cx) \<rparr> else cx)
      else if fact = lit ''/kythe/loc/start'' then
        (case parse_ascii_u32 raw of
           Some v \<Rightarrow>
             put_anchor source_key
               (flush_ready H U ((seed_path (vn_path (e_source e)) (anchor_at source_key cx))\<lparr> an_start := Some v \<rparr>) cx)
         | None \<Rightarrow> cx)
      else if fact = lit ''/kythe/loc/end'' then
        (case parse_ascii_u32 raw of Some v \<Rightarrow> end_fact source_key v cx | None \<Rightarrow> cx)
      else cx)"

definition process_entry :: "(bytes \<Rightarrow> u64) \<Rightarrow> unicode_tables \<Rightarrow> entry \<Rightarrow> ingest \<Rightarrow> ingest" where
  "process_entry H U e cx =
     (if vname_empty (e_source e) then cx
      else let source_key = to_symbol_string (e_source e) in
        if e_edge_kind e \<noteq> [] then process_edge H U e source_key cx
        else process_fact H U e source_key cx)"

section \<open>Call sites\<close>

text \<open>\<^verbatim>\<open>slice::partition_point\<close> on a partitioned slice.\<close>

definition partition_point :: "('a \<Rightarrow> bool) \<Rightarrow> 'a list \<Rightarrow> nat" where
  "partition_point P xs = length (takeWhile P xs)"

text \<open>The backward scan from \<open>i\<close> down to \<open>file_start\<close>.\<close>

fun scan_back :: "body_anchor list \<Rightarrow> nat \<Rightarrow> u32 \<Rightarrow> nat \<Rightarrow> u64 option" where
  "scan_back bodies file_start off 0 = None"
| "scan_back bodies file_start off (Suc i) =
     (if file_start \<le> i then
        (case bodies ! i of (f, start, e, s) \<Rightarrow>
           if off < e then Some s else scan_back bodies file_start off i)
      else None)"

definition innermost_containing :: "body_anchor list \<Rightarrow> u32 \<Rightarrow> u32 \<Rightarrow> u64 option" where
  "innermost_containing bodies file_id off =
     scan_back bodies (partition_point (\<lambda>(f, _). f < file_id) bodies) off
       (partition_point (\<lambda>(f, s, _). (f, s) \<le> (file_id, off)) bodies)"

section \<open>The end of a stream\<close>

text \<open>The bridge from definition to declaration symbols: pairs of hashes, later pairs winning.\<close>

definition bridge_of :: "(bytes \<Rightarrow> u64) \<Rightarrow> (bytes \<times> bytes) list \<Rightarrow> (u64 \<times> u64) list" where
  "bridge_of H pairs = fold (\<lambda>(d, e). hm_insert (H d) (H e)) pairs []"

definition remap :: "(u64 \<times> u64) list \<Rightarrow> u64 \<Rightarrow> u64" where
  "remap br s = (case map_of br s of Some d \<Rightarrow> d | None \<Rightarrow> s)"

definition best_names :: "unicode_tables \<Rightarrow> (u64 \<times> bytes) list \<Rightarrow> (u64 \<times> bytes) list" where
  "best_names U als =
     fold (\<lambda>(s, n). hm_entry s (\<lambda>cur. if prefers_name U cur n then n else cur) n) als []"

text \<open>The supertypes, typed symbols and functions that render, with their text.\<close>

definition rendered_parents :: "unicode_tables \<Rightarrow> ingest \<Rightarrow> (bytes \<times> bytes) list" where
  "rendered_parents U cx =
     List.map_filter (\<lambda>key. map_option (Pair key) (render_type U (cu_type_graph (st_types cx)) key)) (st_parent_keys cx)"

definition rendered_types :: "unicode_tables \<Rightarrow> ingest \<Rightarrow> (bytes \<times> bytes) list" where
  "rendered_types U cx =
     List.map_filter (\<lambda>(src, tk). map_option (Pair src) (render_type U (cu_type_graph (st_types cx)) tk))
       (ts_edges (st_types cx))"

definition rendered_sigs :: "unicode_tables \<Rightarrow> ingest \<Rightarrow> (bytes \<times> bytes) list" where
  "rendered_sigs U cx =
     List.map_filter (\<lambda>fn_key. map_option (Pair fn_key) (render_signature U (st_types cx) fn_key))
       (ts_functions (st_types cx))"

text \<open>The call edges, with the enclosing function of each resolved call site.\<close>

definition sorted_bodies :: "ingest \<Rightarrow> body_anchor list" where
  "sorted_bodies cx = sort_key (\<lambda>(f, s, _, _). (f, s)) (st_bodies cx)"

definition resolved_calls :: "ingest \<Rightarrow> call_row list" where
  "resolved_calls cx =
     List.map_filter (\<lambda>(file_id, off, target, role).
       map_option (\<lambda>enc. (enc, target, role)) (innermost_containing (sorted_bodies cx) file_id off)) (st_calls cx)"

text \<open>The part of \<^verbatim>\<open>ingest_tolerant\<close> after the loop, section by section.\<close>

definition emit_rows :: "(bytes \<Rightarrow> u64) \<Rightarrow> unicode_tables \<Rightarrow> (u64 \<times> u64) list \<Rightarrow> ingest \<Rightarrow> index_builder \<Rightarrow> index_builder" where
  "emit_rows H U br cx b =
     (let b1 = fold (\<lambda>(s, role, file_id, off). add_xref (remap br s) role file_id off) (st_xrefs cx) b;
          als = map (\<lambda>(s, n). (remap br s, n)) (st_aliases cx);
          b2 = fold (\<lambda>(s, n). add_alias s n) als b1;
          b3 = fold (\<lambda>(s, n). set_sym_name U s n) (best_names U als) b2;
          b4 = fold (\<lambda>(c, p). add_inherit (remap br c) (remap br p)) (st_inherits cx) b3;
          b5 = fold (\<lambda>(key, n). set_sym_name U (remap br (H key)) n) (rendered_parents U cx) b4
      in fold (\<lambda>(c, p). add_childof (remap br c) (remap br p)) (st_childof cx) b5)"

definition emit_graph :: "(bytes \<Rightarrow> u64) \<Rightarrow> unicode_tables \<Rightarrow> (u64 \<times> u64) list \<Rightarrow> ingest \<Rightarrow> index_builder \<Rightarrow> index_builder" where
  "emit_graph H U br cx b =
     (let b1 = fold (\<lambda>(caller, callee, role). add_call (remap br caller) (remap br callee) role) (resolved_calls cx) b;
          b2 = fold (\<lambda>(src, t). add_type (remap br (H src)) t) (rendered_types U cx) b1
      in fold (\<lambda>(fn, sg). add_sig (remap br (H fn)) sg) (rendered_sigs U cx) b2)"

text \<open>Every symbol passed to \<^verbatim>\<open>remap\<close>; \<^verbatim>\<open>applied\<close> counts the ones with a bridge.\<close>

definition remapped_syms :: "(bytes \<Rightarrow> u64) \<Rightarrow> unicode_tables \<Rightarrow> ingest \<Rightarrow> u64 list" where
  "remapped_syms H U cx =
     map fst (st_xrefs cx) @ map fst (st_aliases cx) @ concat (map (\<lambda>(c, p). [c, p]) (st_inherits cx)) @
     map (H \<circ> fst) (rendered_parents U cx) @ concat (map (\<lambda>(c, p). [c, p]) (st_childof cx)) @
     concat (map (\<lambda>(c, d, _). [c, d]) (resolved_calls cx)) @ map (H \<circ> fst) (rendered_types U cx) @
     map (H \<circ> fst) (rendered_sigs U cx)"

definition final_stats :: "(bytes \<Rightarrow> u64) \<Rightarrow> unicode_tables \<Rightarrow> (u64 \<times> u64) list \<Rightarrow> ingest \<Rightarrow> ingest_stats" where
  "final_stats H U br cx = (in_stats cx)
     \<lparr> n_defines_seen := length (st_bodies cx),
       n_pending := length (st_calls cx),
       n_calls := n_calls (in_stats cx) + length (resolved_calls cx),
       n_unresolved := n_unresolved (in_stats cx) + (length (st_calls cx) - length (resolved_calls cx)),
       n_types := n_types (in_stats cx) + length (rendered_types U cx),
       n_sigs := n_sigs (in_stats cx) + length (rendered_sigs U cx),
       n_bridges := length (filter (\<lambda>s. map_of br s \<noteq> None) (remapped_syms H U cx)) \<rparr>"

definition ingest_finish :: "(bytes \<Rightarrow> u64) \<Rightarrow> unicode_tables \<Rightarrow> ingest \<Rightarrow> ingest" where
  "ingest_finish H U cx =
     (let br = bridge_of H (st_bridges cx)
      in cx\<lparr> in_builder := emit_graph H U br cx (emit_rows H U br cx (in_builder cx)),
            in_stats := final_stats H U br cx \<rparr>)"

section \<open>The entry stream\<close>

definition MAX_ENTRY_LEN :: nat where "MAX_ENTRY_LEN = 2 ^ 28"

definition count_entry :: "ingest \<Rightarrow> ingest" where
  "count_entry cx = cx\<lparr> in_stats := (in_stats cx)\<lparr> n_entries := n_entries (in_stats cx) + 1 \<rparr> \<rparr>"

lemma varint_stream_shorter: "varint_stream k s val i = Inr (Some (v, r)) \<Longrightarrow> length r < length s"
proof (induction k arbitrary: s val i)
  case (Suc k)
  then show ?case by (cases s) (auto simp: Let_def split: if_splits dest!: Suc.IH)
qed simp

lemma stream_varint_shorter: "stream_varint s = Inr (Some (v, r)) \<Longrightarrow> length r < length s"
  unfolding stream_varint_def by (rule varint_stream_shorter)

text \<open>The loop of \<^verbatim>\<open>ingest_tolerant\<close>: the error it fails with, if any, and the context it leaves. A tolerated
  error leaves the loop.\<close>

function ingest_loop ::
    "(bytes \<Rightarrow> u64) \<Rightarrow> unicode_tables \<Rightarrow> bool \<Rightarrow> bytes \<Rightarrow> ingest \<Rightarrow> kythe_error option \<times> ingest" where
  "ingest_loop H U tolerate s cx =
     (let fail = (\<lambda>e. (if tolerate then None else Some e, cx)) in
      case stream_varint s of
        Inl e \<Rightarrow> fail e
      | Inr None \<Rightarrow> (None, cx)
      | Inr (Some (len, r)) \<Rightarrow>
          if MAX_ENTRY_LEN < unat len then fail (OversizeEntry len)
          else if length r < unat len then fail TruncatedEntry
          else case parse_entry (take (unat len) r) of
                 Inl e \<Rightarrow> fail (DecodeEntry (n_entries (in_stats cx)) e)
               | Inr e \<Rightarrow> ingest_loop H U tolerate (drop (unat len) r) (process_entry H U e (count_entry cx)))"
  by pat_completeness auto
termination
  by (relation "measure (\<lambda>(H, U, tolerate, s, cx). length s)") (auto dest!: stream_varint_shorter)

declare ingest_loop.simps [simp del]

text \<open>The result, and the builder and file ids it leaves.\<close>

definition ingest_tolerant ::
    "(bytes \<Rightarrow> u64) \<Rightarrow> unicode_tables \<Rightarrow> bool \<Rightarrow> bytes \<Rightarrow> index_builder \<Rightarrow> file_ids \<Rightarrow>
     (kythe_error + ingest_stats) \<times> index_builder \<times> file_ids" where
  "ingest_tolerant H U tolerate s b a =
     (case ingest_loop H U tolerate s (ingest_start b a) of
        (Some e, cx) \<Rightarrow> (Inl e, in_builder cx, in_files cx)
      | (None, cx) \<Rightarrow> let cx' = ingest_finish H U cx in (Inr (in_stats cx'), in_builder cx', in_files cx'))"

definition ingest_stream ::
    "(bytes \<Rightarrow> u64) \<Rightarrow> unicode_tables \<Rightarrow> bytes \<Rightarrow> index_builder \<Rightarrow> file_ids \<Rightarrow>
     (kythe_error + ingest_stats) \<times> index_builder \<times> file_ids" where
  "ingest_stream H U s b a = ingest_tolerant H U False s b a"

end
