(* ===== verification/S2_Decode.thy ===== *)
theory S2_Decode
  imports S2_Ingest
begin

text \<open>
  What holds of every ingestion: whatever the bytes of the stream, the decoded entries carry valid
  strings, every step keeps the builder well-formed, and a stream of encoded entries is decoded to
  exactly those entries.
\<close>

section \<open>Decoded entries carry valid strings\<close>

lemma field_loop_inv:
  assumes step: "\<And>f sl m m'. put f sl m = Inr m' \<Longrightarrow> P m \<Longrightarrow> P m'"
  shows "field_loop put buf pos m = Inr m' \<Longrightarrow> P m \<Longrightarrow> P m'"
proof (induction pos arbitrary: m rule: measure_induct_rule [where f = "\<lambda>pos. length buf - pos"])
  case (less pos)
  show ?case
  proof (cases "pos < length buf")
    case True
    with less.prems obtain f sl pos' m1 where l: "len_field buf pos = Inr (f, sl, pos')" "put f sl m = Inr m1"
      and "field_loop put buf pos' m1 = Inr m'"
      by (auto simp: field_loop.simps [of put buf pos] split: sum.splits)
    moreover have "length buf - pos' < length buf - pos" using len_field_bounds [OF l(1)] True by linarith
    ultimately show ?thesis using less.IH step less.prems(2) by blast
  next
    case False
    then show ?thesis using less.prems by (simp add: field_loop.simps [of put buf pos])
  qed
qed

lemma vname_ok_default [simp]: "vname_ok vname_default"
  by (simp add: vname_ok_def vname_default_def)

lemma map_sum_Inr: "map_sum id f x = Inr y \<longleftrightarrow> (\<exists>z. x = Inr z \<and> y = f z)"
  by (cases x) auto

lemma put_vname_ok: "put_vname f sl v = Inr v' \<Longrightarrow> vname_ok v \<Longrightarrow> vname_ok v'"
  by (auto simp: put_vname_def vname_ok_def split: if_splits)

lemma parse_vname_ok: "parse_vname buf = Inr v \<Longrightarrow> vname_ok v"
  unfolding parse_vname_def by (rule field_loop_inv [where P = vname_ok, OF put_vname_ok _ vname_ok_default])

lemma put_entry_ok: "put_entry f sl e = Inr e' \<Longrightarrow> entry_ok e \<Longrightarrow> entry_ok e'"
  by (auto simp: put_entry_def entry_ok_def map_sum_Inr dest: parse_vname_ok split: if_splits)

lemma entry_ok_default: "entry_ok entry_default"
  by (simp add: entry_default_def entry_ok_def)

lemma parse_entry_ok: "parse_entry buf = Inr e \<Longrightarrow> entry_ok e"
  unfolding parse_entry_def by (rule field_loop_inv [where P = entry_ok, OF put_entry_ok _ entry_ok_default])

lemma to_symbol_string_valid [utf8_intros]: "vname_ok v \<Longrightarrow> utf8_valid (to_symbol_string v)"
  unfolding to_symbol_string_def vname_ok_def by (intro utf8_appendI) (simp_all add: lit_def utf8_ascii)

section \<open>Every step keeps the builder well-formed\<close>

definition accum_ok :: "anchor_accum \<Rightarrow> bool" where
  "accum_ok a \<longleftrightarrow> utf8_valid (an_path a) \<and> (\<forall>(t, r) \<in> set (an_pending a). vname_ok t)"

definition ingest_ok :: "ingest \<Rightarrow> bool" where
  "ingest_ok cx \<longleftrightarrow> builder_ok (in_builder cx) \<and> (\<forall>(k, a) \<in> set (st_anchors cx). accum_ok a) \<and>
     (\<forall>(s, n) \<in> set (st_aliases cx). utf8_valid n) \<and> side_ok (st_types cx)"

lemma builder_ok_adds [simp]:
  "builder_ok b \<Longrightarrow> builder_ok (add_xref s r f off b)"
  "builder_ok b \<Longrightarrow> builder_ok (add_inherit c p b)"
  "builder_ok b \<Longrightarrow> builder_ok (add_call c d r b)"
  "builder_ok b \<Longrightarrow> builder_ok (add_childof c p b)"
  "builder_ok b \<Longrightarrow> utf8_valid n \<Longrightarrow> builder_ok (add_alias s n b)"
  "builder_ok b \<Longrightarrow> utf8_valid n \<Longrightarrow> builder_ok (add_type s n b)"
  "builder_ok b \<Longrightarrow> utf8_valid n \<Longrightarrow> builder_ok (add_sig s n b)"
  by (auto simp: builder_ok_def builder_op_defs)

lemma intern_file_ok: "ingest_ok cx \<Longrightarrow> utf8_valid p \<Longrightarrow> ingest_ok (snd (intern_file p cx))"
  by (auto simp: intern_file_def ingest_ok_def builder_ok_upsert_file split: prod.splits)

lemma emit_xref_ok: "ingest_ok cx \<Longrightarrow> vname_ok t \<Longrightarrow> ingest_ok (emit_xref_resolved H U t r f off cx)"
  by (auto simp: emit_xref_resolved_def ingest_ok_def Let_def intro: builder_ok_upsert_sym to_symbol_string_valid)

lemma ingest_ok_bodies [simp]: "ingest_ok (cx\<lparr> st_bodies := bs \<rparr>) = ingest_ok cx"
  by (simp add: ingest_ok_def)

lemma ingest_ok_stats [simp]: "ingest_ok (cx\<lparr> in_stats := n \<rparr>) = ingest_ok cx"
  by (simp add: ingest_ok_def)

lemma note_call_site_ok [simp]: "ingest_ok (note_call_site f s t r cx) = ingest_ok cx"
  by (simp add: note_call_site_def ingest_ok_def)

lemma accum_ok_body [simp]: "accum_ok (a\<lparr> an_body_def_sym := b \<rparr>) = accum_ok a"
  by (simp add: accum_ok_def)

lemma flush_pending_ok:
  "ingest_ok cx \<Longrightarrow> accum_ok a \<Longrightarrow> \<forall>(t, r) \<in> set pend. vname_ok t \<Longrightarrow>
    ingest_ok (snd (flush_pending H U f start pend a cx)) \<and> accum_ok (fst (flush_pending H U f start pend a cx))"
  by (induction pend arbitrary: a cx) (auto simp: Let_def emit_xref_ok split: option.split)

lemma flush_ready_ok:
  "ingest_ok cx \<Longrightarrow> accum_ok a \<Longrightarrow> ingest_ok (snd (flush_ready H U a cx)) \<and> accum_ok (fst (flush_ready H U a cx))"
proof -
  assume cx: "ingest_ok cx" and a: "accum_ok a"
  have "ingest_ok (snd (intern_file (an_path a) cx))" using intern_file_ok [OF cx] a by (simp add: accum_ok_def)
  then have "ingest_ok (snd (flush_pending H U f start (an_pending a) (a\<lparr> an_pending := [] \<rparr>) (snd (intern_file (an_path a) cx)))) \<and>
      accum_ok (fst (flush_pending H U f start (an_pending a) (a\<lparr> an_pending := [] \<rparr>) (snd (intern_file (an_path a) cx))))" for f start
    using a by (intro flush_pending_ok) (simp_all add: accum_ok_def)
  then show ?thesis using cx a by (auto simp: flush_ready_def split_beta Let_def split: option.split)
qed

lemma anchor_at_ok: "ingest_ok cx \<Longrightarrow> accum_ok (anchor_at k cx)"
proof (cases "map_of (st_anchors cx) k")
  case None
  then show ?thesis by (simp add: anchor_at_def anchor_default_def accum_ok_def)
next
  case (Some a)
  then have "(k, a) \<in> set (st_anchors cx)" by (rule map_of_SomeD)
  moreover assume "ingest_ok cx"
  ultimately show ?thesis using Some by (auto simp: anchor_at_def ingest_ok_def)
qed

lemma put_anchor_ok: "ingest_ok (snd r) \<and> accum_ok (fst r) \<Longrightarrow> ingest_ok (put_anchor k r)"
  using hm_entry_all [of "st_anchors (snd r)" "\<lambda>_. accum_ok" k "fst r" "\<lambda>_. fst r"]
  by (simp add: ingest_ok_def put_anchor_def split_beta)

lemma seed_path_ok: "accum_ok a \<Longrightarrow> utf8_valid p \<Longrightarrow> accum_ok (seed_path p a)"
  by (simp add: seed_path_def accum_ok_def)

lemma strip_descriptor_valid: "strip_jvm_method_descriptor s = Some t \<Longrightarrow> utf8_valid s \<Longrightarrow> utf8_valid t"
proof -
  assume t: "strip_jvm_method_descriptor s = Some t" and s: "utf8_valid s"
  then obtain r where r: "after_last (lit ''('') s = Some r" and "t = take (length s - length r - 1) s"
    by (auto simp: strip_jvm_method_descriptor_def Let_def split: option.splits if_splits)
  moreover from after_last_Some [OF r] obtain p where p: "s = p @ lit ''('' @ r" ..
  ultimately have "t = p" by (simp add: lit_def)
  moreover have "ascii (lit ''('')" by (simp add: lit_def)
  ultimately show ?thesis using utf8_around(1) s p by blast
qed

lemma named_edge_ok: "ingest_ok cx \<Longrightarrow> utf8_valid raw \<Longrightarrow> ingest_ok (named_edge H k raw cx)"
  by (cases "strip_jvm_method_descriptor raw")
    (auto simp: named_edge_def ingest_ok_def Let_def dest: strip_descriptor_valid)

lemma xref_edge_ok:
  assumes "ingest_ok cx" and "utf8_valid p" and "vname_ok t"
  shows "ingest_ok (xref_edge H U k p t r cx)"
proof -
  let ?a = "seed_path p (anchor_at k cx)"
  have a: "accum_ok ?a" by (rule seed_path_ok [OF anchor_at_ok [OF assms(1)] assms(2)])
  then have "ingest_ok (snd (intern_file (an_path ?a) cx))"
    by (intro intern_file_ok [OF assms(1)]) (simp add: accum_ok_def)
  then have "ingest_ok (emit_xref_resolved H U t r f s (snd (intern_file (an_path ?a) cx)))" for f s
    by (rule emit_xref_ok [OF _ assms(3)])
  then show ?thesis
    using assms a unfolding xref_edge_def Let_def
    by (intro put_anchor_ok) (auto simp: split_beta accum_ok_def split: option.split)
qed

lemma ingest_ok_buffers [simp]:
  "ingest_ok (cx\<lparr> st_bridges := x1 \<rparr>) = ingest_ok cx" "ingest_ok (cx\<lparr> st_inherits := x2 \<rparr>) = ingest_ok cx"
  "ingest_ok (cx\<lparr> st_parent_keys := x3 \<rparr>) = ingest_ok cx" "ingest_ok (cx\<lparr> st_childof := x4 \<rparr>) = ingest_ok cx"
  by (simp_all add: ingest_ok_def)

lemma ingest_ok_types [simp]: "ingest_ok cx \<Longrightarrow> ingest_ok (cx\<lparr> st_types := t \<rparr>) = side_ok t"
  by (simp add: ingest_ok_def)

lemma side_ok_updates [simp]:
  "side_ok (t\<lparr> ts_edges := x1 \<rparr>) = side_ok t" "side_ok (t\<lparr> ts_kind := x2 \<rparr>) = side_ok t"
  "side_ok (t\<lparr> ts_code := x3 \<rparr>) = side_ok t" "side_ok (t\<lparr> ts_params := x4 \<rparr>) = side_ok t"
  "side_ok (t\<lparr> ts_functions := x5 \<rparr>) = side_ok t"
  by (simp_all add: side_ok_def)

lemma ingest_ok_side: "ingest_ok cx \<Longrightarrow> side_ok (st_types cx)"
  by (simp add: ingest_ok_def)

lemma process_edge_ok: "ingest_ok cx \<Longrightarrow> entry_ok e \<Longrightarrow> ingest_ok (process_edge H U e k cx)"
proof -
  assume cx: "ingest_ok cx" and e: "entry_ok e"
  have "utf8_valid (vn_signature (e_target e))" "utf8_valid (vn_path (e_source e))" "vname_ok (e_target e)"
    using e by (simp_all add: entry_ok_def vname_ok_def)
  then show ?thesis
    using cx unfolding process_edge_def Let_def
    by (simp add: named_edge_ok xref_edge_ok inherit_edge_def ingest_ok_side split: option.split)
qed

lemma code_fact_ok: "ingest_ok cx \<Longrightarrow> ingest_ok (code_fact H U k v cx)"
proof -
  assume cx: "ingest_ok cx"
  have "ingest_ok (cx\<lparr> st_aliases := st_aliases cx @ [(s, n)], in_stats := i \<rparr>)"
    if "parse_marked_source_fqn U v = Some n" for s n i
    using cx parse_marked_source_fqn_valid(1) [OF that] by (simp add: ingest_ok_def)
  then show ?thesis
    using cx by (auto simp: code_fact_def Let_def ingest_ok_side split: option.split)
qed

lemma node_fact_ok: "ingest_ok cx \<Longrightarrow> vname_ok src \<Longrightarrow> utf8_valid k \<Longrightarrow> ingest_ok (node_fact H U src k v cx)"
proof -
  assume cx: "ingest_ok cx" and src: "vname_ok src" and k: "utf8_valid k"
  have "accum_ok ((anchor_at k cx)\<lparr> an_is_anchor := True \<rparr>)" using anchor_at_ok [OF cx, of k] by (simp add: accum_ok_def)
  then have "accum_ok (seed_path (vn_path src) ((anchor_at k cx)\<lparr> an_is_anchor := True \<rparr>))"
    by (rule seed_path_ok) (use src in \<open>simp add: vname_ok_def\<close>)
  moreover have "ingest_ok (cx\<lparr> in_builder := upsert_sym U s kd l k (in_builder cx) \<rparr>)" for s kd l
    using cx k by (auto simp: ingest_ok_def intro: builder_ok_upsert_sym)
  ultimately show ?thesis
    using cx by (auto simp: node_fact_def Let_def ingest_ok_side intro!: put_anchor_ok flush_ready_ok)
qed

lemma builtin_op_of_valid: "builtin_op_of s = Some op \<Longrightarrow> utf8_valid s \<Longrightarrow> utf8_valid op"
proof -
  assume op: "builtin_op_of s = Some op" and s: "utf8_valid s"
  then have "(\<exists>t. s = op @ lit ''#builtin'' @ t)"
    by (auto simp: builtin_op_of_def nonempty_Some strip_suffix_def ends_with_append dest!: before_first_Some
        split: option.splits if_splits)
  then show ?thesis using s utf8_around(1) [of "lit ''#builtin''"] by (auto simp: lit_def)
qed

lemma type_fact_ok: "ingest_ok cx \<Longrightarrow> vname_ok src \<Longrightarrow> ingest_ok (type_fact src k v cx)"
proof -
  assume cx: "ingest_ok cx" and src: "vname_ok src"
  have "\<forall>(k, op) \<in> set (hm_insert k op (ts_builtin_op (st_types cx))). utf8_valid op"
    if "builtin_op_of (vn_signature src) = Some op" for op
    by (rule hm_entry_all)
      (use that cx src builtin_op_of_valid in \<open>auto simp: side_ok_def ingest_ok_def vname_ok_def\<close>)
  moreover have "side_ok (t\<lparr> ts_builtin_op := m \<rparr>) \<longleftrightarrow> (\<forall>(k, op) \<in> set m. utf8_valid op)" for t :: type_side and m
    by (simp add: side_ok_def)
  ultimately show ?thesis
    using cx by (simp add: type_fact_def Let_def ingest_ok_side split: option.split)
qed

lemma end_fact_ok: "ingest_ok cx \<Longrightarrow> ingest_ok (end_fact k v cx)"
proof -
  assume cx: "ingest_ok cx"
  have a: "accum_ok ((anchor_at k cx)\<lparr> an_end := Some v \<rparr>)" using anchor_at_ok [OF cx, of k] by (simp add: accum_ok_def)
  then have "ingest_ok (snd (intern_file (an_path (anchor_at k cx)) cx))"
    by (intro intern_file_ok [OF cx]) (simp add: accum_ok_def)
  then show ?thesis
    using cx a by (auto simp: end_fact_def Let_def split_beta intro!: put_anchor_ok split: option.split bool.split)
qed

lemma start_fact_ok:
  "ingest_ok cx \<Longrightarrow> utf8_valid p \<Longrightarrow>
    ingest_ok (put_anchor k (flush_ready H U ((seed_path p (anchor_at k cx))\<lparr> an_start := Some v \<rparr>) cx))"
  using seed_path_ok [OF anchor_at_ok, of cx p k]
  by (intro put_anchor_ok flush_ready_ok) (simp_all add: accum_ok_def)

lemma process_entry_ok: "ingest_ok cx \<Longrightarrow> entry_ok e \<Longrightarrow> ingest_ok (process_entry H U e cx)"
proof -
  assume cx: "ingest_ok cx" and e: "entry_ok e"
  then have src: "vname_ok (e_source e)" "utf8_valid (vn_path (e_source e))" by (simp_all add: entry_ok_def vname_ok_def)
  have "ingest_ok (cx\<lparr> in_builder := mark_field s (in_builder cx) \<rparr>)" for s
    using cx by (simp add: ingest_ok_def builder_ok_mark_field)
  then have "ingest_ok (process_fact H U e k cx)" if "utf8_valid k" for k
    using cx src that unfolding process_fact_def Let_def
    by (simp add: code_fact_ok node_fact_ok type_fact_ok end_fact_ok start_fact_ok split: option.split)
  then show ?thesis
    using cx e src by (simp add: process_entry_def Let_def process_edge_ok to_symbol_string_valid)
qed

lemma count_entry_ok [simp]: "ingest_ok (count_entry cx) = ingest_ok cx"
  by (simp add: count_entry_def)

lemma parsed_ok: "ingest_ok cx \<Longrightarrow> parse_entry buf = Inr e \<Longrightarrow> ingest_ok (process_entry H U e (count_entry cx))"
  by (simp add: process_entry_ok parse_entry_ok)

lemma ingest_loop_ok: "ingest_ok cx \<Longrightarrow> ingest_ok (snd (ingest_loop H U tol s cx))"
proof (induction s arbitrary: cx rule: length_induct)
  case (1 s)
  have "ingest_ok (snd (ingest_loop H U tol (drop n r) (process_entry H U e (count_entry cx))))"
    if "stream_varint s = Inr (Some (v, r))" and "parse_entry buf = Inr e" for v r n e buf
    using 1 stream_varint_shorter [OF that(1)] parsed_ok [OF "1.prems" that(2)] by simp
  then show ?case
    using "1.prems" by (simp add: ingest_loop.simps [of H U tol s cx] Let_def split: sum.split option.split)
qed

lemma fold_ok:
  "P b \<Longrightarrow> (\<And>x b. x \<in> set xs \<Longrightarrow> P b \<Longrightarrow> P (f x b)) \<Longrightarrow> P (fold f xs b)"
  by (induction xs arbitrary: b) auto

lemma best_names_valid: "\<forall>(s, n) \<in> set als. utf8_valid n \<Longrightarrow> \<forall>(s, n) \<in> set (best_names U als). utf8_valid n"
  unfolding best_names_def
proof (rule fold_ok [where P = "\<lambda>m. \<forall>(s, n) \<in> set m. utf8_valid n"])
  fix x :: "u64 \<times> bytes" and m :: "(u64 \<times> bytes) list"
  assume als: "\<forall>(s, n) \<in> set als. utf8_valid n" and x: "x \<in> set als" and m: "\<forall>(s, n) \<in> set m. utf8_valid n"
  obtain s n where sn: "x = (s, n)" by (cases x)
  with als x have "utf8_valid n" by auto
  with m have "\<forall>(s, n) \<in> set (hm_entry s (\<lambda>cur. if prefers_name U cur n then n else cur) n m). utf8_valid n"
    by (intro hm_entry_all) auto
  then show "\<forall>(s, n) \<in> set ((case x of (s, n) \<Rightarrow> hm_entry s (\<lambda>cur. if prefers_name U cur n then n else cur) n) m). utf8_valid n"
    by (simp add: sn)
qed simp

lemma rendered_valid:
  assumes "ingest_ok cx"
  shows "(k, n) \<in> set (rendered_parents U cx) \<Longrightarrow> utf8_valid n" "(k, n) \<in> set (rendered_types U cx) \<Longrightarrow> utf8_valid n"
    "(k, n) \<in> set (rendered_sigs U cx) \<Longrightarrow> utf8_valid n"
  using render_type_valid [OF ingest_ok_side [OF assms]] render_signature_valid [OF ingest_ok_side [OF assms]]
  by (auto simp: rendered_parents_def rendered_types_def rendered_sigs_def map_filter_def)

lemma ingest_finish_ok:
  assumes "ingest_ok cx"
  shows "builder_ok (in_builder (ingest_finish H U cx))"
proof -
  define br where "br = bridge_of H (st_bridges cx)"
  have als: "\<forall>(s, n) \<in> set (map (\<lambda>(s, n). (remap br s, n)) (st_aliases cx)). utf8_valid n"
    using assms by (auto simp: ingest_ok_def)
  note names = best_names_valid [OF this, of U] and rendered = rendered_valid [OF assms, of _ _ U]
  have "builder_ok (emit_rows H U br cx (in_builder cx))"
    unfolding emit_rows_def Let_def
    by (intro fold_ok [where P = builder_ok])
      (use assms als names rendered in \<open>auto simp: ingest_ok_def intro!: builder_ok_set_sym_name\<close>)
  then have "builder_ok (emit_graph H U br cx (emit_rows H U br cx (in_builder cx)))"
    unfolding emit_graph_def Let_def
    by (intro fold_ok [where P = builder_ok]) (use rendered in auto)
  then show ?thesis by (simp add: ingest_finish_def br_def Let_def)
qed

lemma ingest_start_ok: "builder_ok b \<Longrightarrow> ingest_ok (ingest_start b a)"
  by (simp add: ingest_ok_def ingest_start_def type_side_default_def side_ok_def)

lemma ingest_tolerant_ok:
  assumes "builder_ok b" and "ingest_tolerant H U tol s b a = (r, b', a')"
  shows "builder_ok b'"
proof -
  obtain err cx where l: "ingest_loop H U tol s (ingest_start b a) = (err, cx)" by force
  then have "ingest_ok cx" using ingest_loop_ok [OF ingest_start_ok [OF assms(1)], of H U tol s a] by simp
  then show ?thesis
    using assms(2) l ingest_finish_ok [of cx H U] by (auto simp: ingest_tolerant_def ingest_ok_def Let_def split: option.splits)
qed

end
