(* ===== verification/S2_Kzip.thy ===== *)
theory S2_Kzip
  imports S2_Decode
begin

text \<open>
  Compilation units of a kzip (\<open>src/crates/scry2/src/kzip.rs\<close>): the strict decoder and the encoder of the
  \<^verbatim>\<open>IndexedCompilation\<close> message, and the primary path of a unit. The \<^verbatim>\<open>VName\<close> of this module has the
  fields of the one of the entry decoder and shares its record.
\<close>

section \<open>Units\<close>

record file_info =
  fi_path :: bytes
  fi_digest :: bytes

record file_input =
  in_v_name :: vname
  in_info :: file_info

record compilation_unit =
  cu_v_name :: vname
  cu_required_input :: "file_input list"
  cu_argument :: "bytes list"
  cu_source_file :: "bytes list"
  cu_output_key :: bytes
  cu_working_directory :: bytes
  cu_entry_context :: bytes

record kzip_unit =
  u_sha :: bytes
  u_cu :: compilation_unit
  u_raw_proto :: "bytes option"

definition file_info_default :: file_info where
  "file_info_default = \<lparr> fi_path = [], fi_digest = [] \<rparr>"

definition file_input_default :: file_input where
  "file_input_default = \<lparr> in_v_name = vname_default, in_info = file_info_default \<rparr>"

definition compilation_unit_default :: compilation_unit where
  "compilation_unit_default = \<lparr> cu_v_name = vname_default, cu_required_input = [], cu_argument = [],
     cu_source_file = [], cu_output_key = [], cu_working_directory = [], cu_entry_context = [] \<rparr>"

definition cu_primary_path :: "compilation_unit \<Rightarrow> bytes option" where
  "cu_primary_path cu =
     (let own = (if vn_path (cu_v_name cu) \<noteq> [] then Some (vn_path (cu_v_name cu)) else None) in
      case cu_source_file cu of
        f # _ \<Rightarrow> Some f
      | [] \<Rightarrow>
          (case cu_required_input cu of
             ri # _ \<Rightarrow>
               if vn_path (in_v_name ri) \<noteq> [] then Some (vn_path (in_v_name ri))
               else if fi_path (in_info ri) \<noteq> [] then Some (fi_path (in_info ri))
               else own
           | [] \<Rightarrow> own))"

definition ascii_lower :: "u8 \<Rightarrow> u8" where
  "ascii_lower b = (if 0x41 \<le> b \<and> b \<le> 0x5A then b + 0x20 else b)"

definition unit_language :: "kzip_unit \<Rightarrow> bytes" where
  "unit_language u = map ascii_lower (vn_language (cu_v_name (u_cu u)))"

section \<open>Decoder\<close>

datatype kzip_error =
    Kz_TruncatedVarint nat
  | Kz_VarintTooLong
  | Kz_WireType u8 u32 nat
  | Kz_LenOverflow
  | Kz_TruncatedField nat
  | Kz_InvalidUtf8
  | Kz_Json bytes

fun kz_varint :: "nat \<Rightarrow> bytes \<Rightarrow> nat \<Rightarrow> u64 \<Rightarrow> nat \<Rightarrow> kzip_error + u64 \<times> nat" where
  "kz_varint 0 buf pos val shift = Inl Kz_VarintTooLong"
| "kz_varint (Suc k) buf pos val shift =
     (if length buf \<le> pos then Inl (Kz_TruncatedVarint pos)
      else let b = buf ! pos; val' = val OR push_bit shift (ucast (b AND 0x7F))
           in if b AND 0x80 = 0 then Inr (val', pos + 1) else kz_varint k buf (pos + 1) val' (shift + 7))"

definition kz_read_varint_bytes :: "bytes \<Rightarrow> nat \<Rightarrow> kzip_error + u64 \<times> nat" where
  "kz_read_varint_bytes buf pos = kz_varint 10 buf pos 0 0"

definition read_field_header :: "bytes \<Rightarrow> nat \<Rightarrow> kzip_error + u32 \<times> u8 \<times> u64 \<times> nat" where
  "read_field_header buf pos =
     (case kz_read_varint_bytes buf pos of
        Inl e \<Rightarrow> Inl e
      | Inr (tag, p1) \<Rightarrow>
          let field = ucast (drop_bit 3 tag); wire = ucast (tag AND 7) in
          if wire \<noteq> 2 then Inl (Kz_WireType wire field p1)
          else (case kz_read_varint_bytes buf p1 of
                  Inl e \<Rightarrow> Inl e
                | Inr (len, p2) \<Rightarrow> Inr (field, wire, len, p2)))"

definition kz_take :: "bytes \<Rightarrow> nat \<Rightarrow> u64 \<Rightarrow> kzip_error + bytes \<times> nat" where
  "kz_take buf pos len =
     (let e = pos + unat len in
      if 2 ^ 64 \<le> e then Inl Kz_LenOverflow
      else if length buf < e then Inl (Kz_TruncatedField pos)
      else Inr (payload buf pos e, e))"

lemma kz_varint_at: "kz_varint k buf pos val shift = Inr r \<longleftrightarrow> varint_at k buf pos val shift = Some r"
  by (induction k buf pos val shift rule: kz_varint.induct) (auto simp: Let_def)

lemma kz_read_varint_at: "kz_read_varint_bytes buf pos = Inr r \<longleftrightarrow> read_varint_at buf pos = Some r"
  by (simp add: kz_read_varint_bytes_def read_varint_at_def kz_varint_at)

lemma kz_field_bounds:
  "read_field_header buf pos = Inr (field, wire, len, p) \<Longrightarrow> kz_take buf p len = Inr (sl, p') \<Longrightarrow>
    pos < p' \<and> p' \<le> length buf \<and> length sl < p' - pos"
  by (auto simp: read_field_header_def kz_take_def payload_def Let_def kz_read_varint_at less_diff_conv
      split: sum.splits if_splits dest!: read_varint_at_bounds)

text \<open>The loop the five message decoders share; \<open>put\<close> is the match on the field and its wire type.\<close>

function kz_fields ::
    "(u32 \<Rightarrow> u8 \<Rightarrow> bytes \<Rightarrow> 's \<Rightarrow> kzip_error + 's) \<Rightarrow> bytes \<Rightarrow> nat \<Rightarrow> 's \<Rightarrow> kzip_error + 's" where
  "kz_fields put buf pos m =
     (if pos < length buf then
        (case read_field_header buf pos of
           Inl e \<Rightarrow> Inl e
         | Inr (field, wire, len, p) \<Rightarrow>
             (case kz_take buf p len of
                Inl e \<Rightarrow> Inl e
              | Inr (sl, p') \<Rightarrow>
                  (case put field wire sl m of Inl e \<Rightarrow> Inl e | Inr m' \<Rightarrow> kz_fields put buf p' m')))
      else Inr m)"
  by pat_completeness auto
termination
  by (relation "measure (\<lambda>(put, buf, pos, m). length buf - pos)") (auto dest!: kz_field_bounds)

declare kz_fields.simps [simp del]

definition kz_put_vname :: "u32 \<Rightarrow> u8 \<Rightarrow> bytes \<Rightarrow> vname \<Rightarrow> kzip_error + vname" where
  "kz_put_vname field wire sl v = Inr
     (if (field, wire) = (1, 2) then v\<lparr> vn_signature := from_utf8_lossy sl \<rparr>
      else if (field, wire) = (2, 2) then v\<lparr> vn_corpus := from_utf8_lossy sl \<rparr>
      else if (field, wire) = (3, 2) then v\<lparr> vn_root := from_utf8_lossy sl \<rparr>
      else if (field, wire) = (4, 2) then v\<lparr> vn_path := from_utf8_lossy sl \<rparr>
      else if (field, wire) = (5, 2) then v\<lparr> vn_language := from_utf8_lossy sl \<rparr>
      else v)"

definition kz_parse_vname :: "bytes \<Rightarrow> kzip_error + vname" where
  "kz_parse_vname buf = kz_fields kz_put_vname buf 0 vname_default"

definition put_file_info :: "u32 \<Rightarrow> u8 \<Rightarrow> bytes \<Rightarrow> file_info \<Rightarrow> kzip_error + file_info" where
  "put_file_info field wire sl i = Inr
     (if (field, wire) = (1, 2) then i\<lparr> fi_path := from_utf8_lossy sl \<rparr>
      else if (field, wire) = (2, 2) then i\<lparr> fi_digest := from_utf8_lossy sl \<rparr>
      else i)"

definition parse_file_info :: "bytes \<Rightarrow> kzip_error + file_info" where
  "parse_file_info buf = kz_fields put_file_info buf 0 file_info_default"

definition put_file_input :: "u32 \<Rightarrow> u8 \<Rightarrow> bytes \<Rightarrow> file_input \<Rightarrow> kzip_error + file_input" where
  "put_file_input field wire sl i =
     (if (field, wire) = (1, 2) then map_sum id (\<lambda>v. i\<lparr> in_v_name := v \<rparr>) (kz_parse_vname sl)
      else if (field, wire) = (2, 2) then map_sum id (\<lambda>v. i\<lparr> in_info := v \<rparr>) (parse_file_info sl)
      else Inr i)"

definition parse_file_input :: "bytes \<Rightarrow> kzip_error + file_input" where
  "parse_file_input buf = kz_fields put_file_input buf 0 file_input_default"

definition put_compilation_unit :: "u32 \<Rightarrow> u8 \<Rightarrow> bytes \<Rightarrow> compilation_unit \<Rightarrow> kzip_error + compilation_unit" where
  "put_compilation_unit field wire sl c =
     (if (field, wire) = (1, 2) then map_sum id (\<lambda>v. c\<lparr> cu_v_name := v \<rparr>) (kz_parse_vname sl)
      else if (field, wire) = (3, 2) then
        map_sum id (\<lambda>i. c\<lparr> cu_required_input := cu_required_input c @ [i] \<rparr>) (parse_file_input sl)
      else Inr
        (if (field, wire) = (5, 2) then c\<lparr> cu_argument := cu_argument c @ [from_utf8_lossy sl] \<rparr>
         else if (field, wire) = (6, 2) then c\<lparr> cu_source_file := cu_source_file c @ [from_utf8_lossy sl] \<rparr>
         else if (field, wire) = (7, 2) then c\<lparr> cu_output_key := from_utf8_lossy sl \<rparr>
         else if (field, wire) = (8, 2) then c\<lparr> cu_working_directory := from_utf8_lossy sl \<rparr>
         else if (field, wire) = (9, 2) then c\<lparr> cu_entry_context := from_utf8_lossy sl \<rparr>
         else c))"

definition parse_compilation_unit :: "bytes \<Rightarrow> kzip_error + compilation_unit" where
  "parse_compilation_unit buf = kz_fields put_compilation_unit buf 0 compilation_unit_default"

text \<open>An \<^verbatim>\<open>IndexedCompilation\<close> has the unit as its only field here.\<close>

definition put_indexed :: "u32 \<Rightarrow> u8 \<Rightarrow> bytes \<Rightarrow> compilation_unit \<Rightarrow> kzip_error + compilation_unit" where
  "put_indexed field wire sl c = (if (field, wire) = (1, 2) then parse_compilation_unit sl else Inr c)"

definition parse_indexed_compilation :: "bytes \<Rightarrow> kzip_error + compilation_unit" where
  "parse_indexed_compilation buf = kz_fields put_indexed buf 0 compilation_unit_default"

section \<open>Encoder\<close>

lemma kz_shr7_less: "0x80 \<le> (v :: u64) \<Longrightarrow> unat (drop_bit 7 v) < unat v"
  by (simp add: unat_drop_bit word_le_nat_alt)

function kz_write_varint :: "u64 \<Rightarrow> bytes" where
  "kz_write_varint v =
     (if 0x80 \<le> v then ((ucast v AND 0x7F) OR 0x80) # kz_write_varint (drop_bit 7 v) else [ucast v])"
  by pat_completeness auto
termination
  by (relation "measure unat") (simp_all add: kz_shr7_less)

declare kz_write_varint.simps [simp del]

definition write_tag_len :: "u32 \<Rightarrow> bytes \<Rightarrow> bytes" where
  "write_tag_len field data =
     kz_write_varint (push_bit 3 (ucast field) OR 2) @ kz_write_varint (of_nat (length data)) @ data"

text \<open>\<^verbatim>\<open>if !data.is_empty() { write_tag_len(field, data, out) }\<close>\<close>

definition write_some :: "u32 \<Rightarrow> bytes \<Rightarrow> bytes" where
  "write_some field data = (if data = [] then [] else write_tag_len field data)"

definition encode_vname :: "vname \<Rightarrow> bytes" where
  "encode_vname v = write_some 1 (vn_signature v) @ write_some 2 (vn_corpus v) @ write_some 3 (vn_root v) @
     write_some 4 (vn_path v) @ write_some 5 (vn_language v)"

definition encode_file_info :: "file_info \<Rightarrow> bytes" where
  "encode_file_info i = write_some 1 (fi_path i) @ write_some 2 (fi_digest i)"

definition encode_file_input :: "file_input \<Rightarrow> bytes" where
  "encode_file_input i = write_some 1 (encode_vname (in_v_name i)) @ write_some 2 (encode_file_info (in_info i))"

definition encode_compilation_unit :: "compilation_unit \<Rightarrow> bytes" where
  "encode_compilation_unit c =
     write_some 1 (encode_vname (cu_v_name c)) @
     concat (map (\<lambda>fi. write_tag_len 3 (encode_file_input fi)) (cu_required_input c)) @
     concat (map (write_tag_len 5) (cu_argument c)) @
     concat (map (write_tag_len 6) (cu_source_file c)) @
     write_some 7 (cu_output_key c) @ write_some 8 (cu_working_directory c) @ write_some 9 (cu_entry_context c)"

definition encode_indexed_compilation :: "compilation_unit \<Rightarrow> bytes" where
  "encode_indexed_compilation c = write_tag_len 1 (encode_compilation_unit c)"

definition to_proto_bytes :: "kzip_unit \<Rightarrow> bytes" where
  "to_proto_bytes u = (case u_raw_proto u of Some raw \<Rightarrow> raw | None \<Rightarrow> encode_indexed_compilation (u_cu u))"

section \<open>The encoder writes protobuf fields\<close>

lemma cont_byte64: "((ucast (v :: u64) :: u8) AND 0x7F) OR 0x80 = of_nat (128 + unat v mod 128)"
proof -
  let ?b = "(ucast v :: u8) AND 0x7F"
  have "unat (ucast v :: u8) = unat v mod 256" by (simp add: unsigned_ucast_eq take_bit_nat_def)
  moreover have "unat v mod 256 mod 128 = unat v mod 128" by (rule mod_mod_cancel) simp
  ultimately have b: "unat ?b = unat v mod 128" by (simp add: low7)
  then have "?b AND 0x80 = 0" by (simp add: high_bit)
  then have sum: "?b OR 0x80 = ?b + 0x80" by (simp add: disjunctive_add_eq_or)
  have "?b = of_nat (unat v mod 128)" using b by (metis of_nat_unat ucast_id)
  then show ?thesis unfolding sum by simp
qed

lemma kz_write_varint_pb: "kz_write_varint v = pb_varint (unat v)"
proof (induction v rule: kz_write_varint.induct)
  case (1 v)
  have le: "0x80 \<le> v \<longleftrightarrow> 128 \<le> unat v" by (simp add: word_le_nat_alt)
  show ?case
  proof (cases "0x80 \<le> v")
    case True
    then show ?thesis
      using 1 le by (simp add: kz_write_varint.simps [of v] pb_varint.simps [of "unat v"] cont_byte64 unat_drop_bit)
  next
    case False
    moreover have "(ucast v :: u8) = of_nat (unat v)" by simp
    ultimately show ?thesis using le by (simp add: kz_write_varint.simps [of v] pb_varint.simps [of "unat v"])
  qed
qed

lemma write_tag_len_pb:
  assumes "length p < 2 ^ 64"
  shows "write_tag_len 1 p = pb_field 1 p" "write_tag_len 2 p = pb_field 2 p" "write_tag_len 3 p = pb_field 3 p"
    "write_tag_len 4 p = pb_field 4 p" "write_tag_len 5 p = pb_field 5 p" "write_tag_len 6 p = pb_field 6 p"
    "write_tag_len 7 p = pb_field 7 p" "write_tag_len 8 p = pb_field 8 p" "write_tag_len 9 p = pb_field 9 p"
  using unat_of_nat_small [where ?'a = 64, of "length p"] assms
  by (simp_all add: write_tag_len_def pb_field_def kz_write_varint_pb)

section \<open>The decoder reads them back\<close>

fun kz_put_all :: "(u32 \<Rightarrow> u8 \<Rightarrow> bytes \<Rightarrow> 's \<Rightarrow> kzip_error + 's) \<Rightarrow> (nat \<times> bytes) list \<Rightarrow> 's \<Rightarrow> kzip_error + 's" where
  "kz_put_all put [] m = Inr m"
| "kz_put_all put ((n, p) # fs) m =
     (case put (of_nat n) 2 p m of Inl e \<Rightarrow> Inl e | Inr m' \<Rightarrow> kz_put_all put fs m')"

lemma kz_put_all_append:
  "kz_put_all put (xs @ ys) m = (case kz_put_all put xs m of Inl e \<Rightarrow> Inl e | Inr m' \<Rightarrow> kz_put_all put ys m')"
  by (induction put xs m rule: kz_put_all.induct) (auto split: sum.split)

definition pb_fields :: "(nat \<times> bytes) list \<Rightarrow> bytes" where
  "pb_fields fs = concat (map (\<lambda>(n, p). pb_field n p) fs)"

lemma kz_header_pb:
  assumes "n < 2 ^ 29" and "length p < 2 ^ 63" and "length (pre @ pb_field n p @ rest) < 2 ^ 64"
  shows "\<exists>len q. read_field_header (pre @ pb_field n p @ rest) (length pre) = Inr (of_nat n, 2, len, q) \<and>
    kz_take (pre @ pb_field n p @ rest) q len = Inr (p, length pre + length (pb_field n p))"
proof -
  let ?t = "pb_varint (8 * n + 2)" and ?l = "pb_varint (length p)"
  have tag: "read_varint_at (pre @ ?t @ ?l @ p @ rest) (length pre) = Some (of_nat (8 * n + 2), length pre + length ?t)"
    by (rule read_varint_at_pb) (use assms in simp)
  have len: "read_varint_at ((pre @ ?t) @ ?l @ p @ rest) (length (pre @ ?t)) =
      Some (of_nat (length p), length (pre @ ?t) + length ?l)"
    by (rule read_varint_at_pb) (use assms in simp)
  have u: "unat (of_nat (length p) :: u64) = length p" by (rule unat_of_nat_small) (use assms in simp)
  have field: "ucast (of_nat n :: u64) = (of_nat n :: u32)"
    using assms(1) by (simp add: unsigned_of_nat take_bit_nat_eq_self)
  have "read_field_header (pre @ pb_field n p @ rest) (length pre) =
      Inr (of_nat n, 2, of_nat (length p), length (pre @ ?t) + length ?l)"
    using tag len tag_parts [OF assms(1), of 2] field
    by (simp add: read_field_header_def pb_field_def Let_def flip: kz_read_varint_at)
  moreover have "kz_take (pre @ pb_field n p @ rest) (length (pre @ ?t) + length ?l) (of_nat (length p)) =
      Inr (p, length pre + length (pb_field n p))"
    using assms(3) by (simp add: kz_take_def u payload_def pb_field_def Let_def)
  ultimately show ?thesis by blast
qed

lemma kz_fields_rest:
  assumes "\<And>n p. (n, p) \<in> set fs \<Longrightarrow> n < 2 ^ 29 \<and> length p < 2 ^ 63" and "length (pre @ pb_fields fs @ rest) < 2 ^ 64"
  shows "kz_fields put (pre @ pb_fields fs @ rest) (length pre) m =
    (case kz_put_all put fs m of
       Inl e \<Rightarrow> Inl e
     | Inr m' \<Rightarrow> kz_fields put (pre @ pb_fields fs @ rest) (length pre + length (pb_fields fs)) m')"
  using assms
proof (induction fs arbitrary: pre m)
  case Nil
  then show ?case by (simp add: pb_fields_def)
next
  case (Cons f fs)
  obtain n p where f: "f = (n, p)" by (cases f)
  have msg: "pb_fields (f # fs) @ rest = pb_field n p @ pb_fields fs @ rest" by (simp add: f pb_fields_def)
  have len: "length pre + length (pb_fields (f # fs)) = length (pre @ pb_field n p) + length (pb_fields fs)"
    by (simp add: f pb_fields_def)
  have "kz_fields put ((pre @ pb_field n p) @ pb_fields fs @ rest) (length (pre @ pb_field n p)) m' =
      (case kz_put_all put fs m' of
         Inl e \<Rightarrow> Inl e
       | Inr m' \<Rightarrow> kz_fields put ((pre @ pb_field n p) @ pb_fields fs @ rest)
           (length (pre @ pb_field n p) + length (pb_fields fs)) m')" for m'
    using Cons.prems unfolding msg by (intro Cons.IH) auto
  moreover obtain k q where "read_field_header (pre @ pb_field n p @ pb_fields fs @ rest) (length pre) = Inr (of_nat n, 2, k, q)"
    "kz_take (pre @ pb_field n p @ pb_fields fs @ rest) q k = Inr (p, length pre + length (pb_field n p))"
    using kz_header_pb [OF _ _ Cons.prems(2) [unfolded msg]] Cons.prems(1) [of n p] by (auto simp: f)
  moreover have "length pre < length (pre @ pb_fields (f # fs) @ rest)" by (simp add: msg)
  ultimately show ?case
    unfolding kz_fields.simps [of put _ "length pre"] msg len by (simp add: f split: sum.split)
qed

lemma field_small: "(n, p) \<in> set fs \<Longrightarrow> length (pb_fields fs) < k \<Longrightarrow> length p < k"
proof -
  assume fs: "(n, p) \<in> set fs" "length (pb_fields fs) < k"
  then have "length (pb_field n p) \<le> length (pb_fields fs)"
    by (force simp: pb_fields_def length_concat intro!: member_le_sum_list)
  then show "length p < k" using fs(2) by (simp add: pb_field_def)
qed

lemma kz_parse_fields:
  assumes "\<And>n p. (n, p) \<in> set fs \<Longrightarrow> n < 2 ^ 29" and "length (pb_fields fs) < 2 ^ 63"
  shows "kz_fields put (pb_fields fs) 0 m = kz_put_all put fs m"
  using kz_fields_rest [of fs "[]" "[]" put m] assms field_small [OF _ assms(2)]
  by (auto simp: kz_fields.simps [of put "pb_fields fs" "length (pb_fields fs)"] split: sum.split)

text \<open>A field that is left out when its payload is empty.\<close>

definition opt_field :: "nat \<Rightarrow> bytes \<Rightarrow> (nat \<times> bytes) list" where
  "opt_field n p = (if p = [] then [] else [(n, p)])"

lemma kz_put_step:
  "put (of_nat n) 2 p m = Inr m' \<Longrightarrow> (p = [] \<Longrightarrow> m' = m) \<Longrightarrow> kz_put_all put fs m' = r \<Longrightarrow>
    kz_put_all put (opt_field n p @ fs) m = r"
  by (auto simp: opt_field_def)

lemma kz_put_last:
  "put (of_nat n) 2 p m = Inr m' \<Longrightarrow> (p = [] \<Longrightarrow> m' = m) \<Longrightarrow> kz_put_all put (opt_field n p) m = Inr m'"
  by (auto simp: opt_field_def)

lemma opt_field_range: "(n, p) \<in> set (opt_field k q) \<Longrightarrow> n = k"
  by (simp add: opt_field_def split: if_splits)

lemma pb_fields_append [simp]: "pb_fields (xs @ ys) = pb_fields xs @ pb_fields ys" "pb_fields [] = []"
  by (simp_all add: pb_fields_def)

lemma write_some_pb:
  assumes "length p < 2 ^ 64"
  shows "write_some 1 p = pb_fields (opt_field 1 p)" "write_some 2 p = pb_fields (opt_field 2 p)"
    "write_some 3 p = pb_fields (opt_field 3 p)" "write_some 4 p = pb_fields (opt_field 4 p)"
    "write_some 5 p = pb_fields (opt_field 5 p)" "write_some 7 p = pb_fields (opt_field 7 p)"
    "write_some 8 p = pb_fields (opt_field 8 p)" "write_some 9 p = pb_fields (opt_field 9 p)"
  using write_tag_len_pb [OF assms] by (simp_all add: write_some_def opt_field_def pb_fields_def)

text \<open>A payload is no longer than the field that carries it.\<close>

lemma write_tag_len_length: "length p \<le> length (write_tag_len n p)"
  by (simp add: write_tag_len_def)

lemma write_some_length: "length p \<le> length (write_some n p)"
  by (simp add: write_some_def write_tag_len_length)

section \<open>Round trips\<close>

definition file_info_ok :: "file_info \<Rightarrow> bool" where
  "file_info_ok i \<longleftrightarrow> utf8_valid (fi_path i) \<and> utf8_valid (fi_digest i)"

definition file_input_ok :: "file_input \<Rightarrow> bool" where
  "file_input_ok i \<longleftrightarrow> vname_ok (in_v_name i) \<and> file_info_ok (in_info i)"

definition cu_ok :: "compilation_unit \<Rightarrow> bool" where
  "cu_ok c \<longleftrightarrow> vname_ok (cu_v_name c) \<and> list_all file_input_ok (cu_required_input c) \<and>
     list_all utf8_valid (cu_argument c) \<and> list_all utf8_valid (cu_source_file c) \<and> utf8_valid (cu_output_key c) \<and>
     utf8_valid (cu_working_directory c) \<and> utf8_valid (cu_entry_context c)"

definition vname_fields :: "vname \<Rightarrow> (nat \<times> bytes) list" where
  "vname_fields v = opt_field 1 (vn_signature v) @ opt_field 2 (vn_corpus v) @ opt_field 3 (vn_root v) @
     opt_field 4 (vn_path v) @ opt_field 5 (vn_language v)"

definition file_info_fields :: "file_info \<Rightarrow> (nat \<times> bytes) list" where
  "file_info_fields i = opt_field 1 (fi_path i) @ opt_field 2 (fi_digest i)"

definition file_input_fields :: "file_input \<Rightarrow> (nat \<times> bytes) list" where
  "file_input_fields i = opt_field 1 (encode_vname (in_v_name i)) @ opt_field 2 (encode_file_info (in_info i))"

definition cu_fields :: "compilation_unit \<Rightarrow> (nat \<times> bytes) list" where
  "cu_fields c = opt_field 1 (encode_vname (cu_v_name c)) @ map (\<lambda>i. (3, encode_file_input i)) (cu_required_input c) @
     map (Pair 5) (cu_argument c) @ map (Pair 6) (cu_source_file c) @ opt_field 7 (cu_output_key c) @
     opt_field 8 (cu_working_directory c) @ opt_field 9 (cu_entry_context c)"

lemma small_append: "length (xs @ ys) < n \<longleftrightarrow> length xs + length ys < n"
  by simp

lemma write_some_small: "length (write_some n p) < k \<Longrightarrow> length p < k"
  using write_some_length [of p n] by linarith

lemma write_tag_small: "length (write_tag_len n p) < k \<Longrightarrow> length p < k"
  using write_tag_len_length [of p n] by linarith

lemma encode_vname_fields:
  assumes "length (encode_vname v) < 2 ^ 63"
  shows "encode_vname v = pb_fields (vname_fields v)"
proof -
  have "length (vn_signature v) < 2 ^ 64" "length (vn_corpus v) < 2 ^ 64" "length (vn_root v) < 2 ^ 64"
    "length (vn_path v) < 2 ^ 64" "length (vn_language v) < 2 ^ 64"
    using assms write_some_length [of "vn_signature v" 1] write_some_length [of "vn_corpus v" 2]
      write_some_length [of "vn_root v" 3] write_some_length [of "vn_path v" 4] write_some_length [of "vn_language v" 5]
    by (simp_all add: encode_vname_def)
  then show ?thesis by (simp add: encode_vname_def vname_fields_def write_some_pb)
qed

lemma parse_encode_vname:
  assumes "vname_ok v" and "length (encode_vname v) < 2 ^ 63"
  shows "kz_parse_vname (encode_vname v) = Inr v"
proof -
  note enc = encode_vname_fields [OF assms(2)]
  have "kz_parse_vname (encode_vname v) = kz_put_all kz_put_vname (vname_fields v) vname_default"
    using assms(2) unfolding kz_parse_vname_def enc
    by (intro kz_parse_fields) (auto simp: vname_fields_def dest!: opt_field_range)
  also have "\<dots> = Inr v"
  proof -
    obtain sg co ro pa la where v: "v = \<lparr> vn_signature = sg, vn_corpus = co, vn_root = ro, vn_path = pa, vn_language = la \<rparr>"
      by (cases v) auto
    let ?v = "\<lambda>a b c d e. \<lparr> vn_signature = a, vn_corpus = b, vn_root = c, vn_path = d, vn_language = e \<rparr>"
    note from_utf8_lossy_id [simp] kz_put_vname_def [simp]
    show ?thesis
      using assms(1) unfolding v vname_fields_def vname_default_def vname_ok_def vname.simps
      by (intro kz_put_step [where m' = "?v sg [] [] [] []"] kz_put_step [where m' = "?v sg co [] [] []"]
          kz_put_step [where m' = "?v sg co ro [] []"] kz_put_step [where m' = "?v sg co ro pa []"]
          kz_put_last [where m' = "?v sg co ro pa la"]) simp_all
  qed
  finally show ?thesis .
qed

lemma encode_file_info_fields:
  assumes "length (encode_file_info i) < 2 ^ 63"
  shows "encode_file_info i = pb_fields (file_info_fields i)"
proof -
  have "length (fi_path i) < 2 ^ 64" "length (fi_digest i) < 2 ^ 64"
    using assms write_some_length [of "fi_path i" 1] write_some_length [of "fi_digest i" 2]
    by (simp_all add: encode_file_info_def)
  then show ?thesis
    by (simp add: encode_file_info_def file_info_fields_def write_some_pb)
qed

lemma parse_encode_file_info:
  assumes "file_info_ok i" and "length (encode_file_info i) < 2 ^ 63"
  shows "parse_file_info (encode_file_info i) = Inr i"
proof -
  note enc = encode_file_info_fields [OF assms(2)]
  have "parse_file_info (encode_file_info i) = kz_put_all put_file_info (file_info_fields i) file_info_default"
    using assms(2) unfolding parse_file_info_def enc
    by (intro kz_parse_fields) (auto simp: file_info_fields_def dest!: opt_field_range)
  also have "\<dots> = Inr i"
    using assms(1) unfolding file_info_fields_def
    by (intro kz_put_step [where m' = "file_info_default\<lparr> fi_path := fi_path i \<rparr>"] kz_put_last)
      (simp_all add: put_file_info_def from_utf8_lossy_id file_info_ok_def file_info_default_def)
  finally show ?thesis .
qed

lemma encode_file_input_fields:
  assumes "length (encode_file_input i) < 2 ^ 63"
  shows "encode_file_input i = pb_fields (file_input_fields i)"
    and "length (encode_vname (in_v_name i)) < 2 ^ 63" and "length (encode_file_info (in_info i)) < 2 ^ 63"
proof -
  show small: "length (encode_vname (in_v_name i)) < 2 ^ 63" "length (encode_file_info (in_info i)) < 2 ^ 63"
    using assms write_some_length [of "encode_vname (in_v_name i)" 1] write_some_length [of "encode_file_info (in_info i)" 2]
    by (simp_all add: encode_file_input_def)
  then show "encode_file_input i = pb_fields (file_input_fields i)"
    by (simp add: encode_file_input_def file_input_fields_def write_some_pb)
qed

lemma encode_vname_Nil: "encode_vname v = [] \<longleftrightarrow> v = vname_default"
  by (cases v) (auto simp: encode_vname_def write_some_def write_tag_len_def vname_default_def kz_write_varint.simps)

lemma encode_file_info_Nil: "encode_file_info i = [] \<longleftrightarrow> i = file_info_default"
  by (cases i) (auto simp: encode_file_info_def write_some_def write_tag_len_def file_info_default_def kz_write_varint.simps)

lemma parse_encode_file_input:
  assumes "file_input_ok i" and "length (encode_file_input i) < 2 ^ 63"
  shows "parse_file_input (encode_file_input i) = Inr i"
proof -
  note enc = encode_file_input_fields [OF assms(2)]
  have sub: "kz_parse_vname (encode_vname (in_v_name i)) = Inr (in_v_name i)"
    "parse_file_info (encode_file_info (in_info i)) = Inr (in_info i)"
    using assms(1) enc(2,3) by (simp_all add: file_input_ok_def parse_encode_vname parse_encode_file_info)
  have "parse_file_input (encode_file_input i) = kz_put_all put_file_input (file_input_fields i) file_input_default"
    using assms(2) unfolding parse_file_input_def enc(1)
    by (intro kz_parse_fields) (auto simp: file_input_fields_def dest!: opt_field_range)
  also have "\<dots> = Inr i"
    unfolding file_input_fields_def
    by (intro kz_put_step [where m' = "file_input_default\<lparr> in_v_name := in_v_name i \<rparr>"] kz_put_last)
      (simp_all add: put_file_input_def sub file_input_default_def encode_vname_Nil encode_file_info_Nil)
  finally show ?thesis .
qed

lemma concat_fields:
  "(\<And>p. p \<in> set ps \<Longrightarrow> write_tag_len n (f p) = pb_field k (f p)) \<Longrightarrow>
    concat (map (\<lambda>p. write_tag_len n (f p)) ps) = pb_fields (map (\<lambda>p. (k, f p)) ps)"
  by (simp add: pb_fields_def comp_def cong: map_cong)

lemma in_concat_small:
  assumes "p \<in> set ps" and "length (concat (map (\<lambda>p. write_tag_len n (f p)) ps)) < k"
  shows "length (f p) < k"
proof -
  have "length (write_tag_len n (f p)) \<le> length (concat (map (\<lambda>p. write_tag_len n (f p)) ps))"
    using assms(1) by (force simp: length_concat intro!: member_le_sum_list)
  then show ?thesis using assms(2) write_tag_len_length [of "f p" n] by linarith
qed

lemma encode_cu_parts:
  assumes "length (encode_compilation_unit c) < 2 ^ 63"
  shows "encode_compilation_unit c = pb_fields (cu_fields c)"
    and "length (encode_vname (cu_v_name c)) < 2 ^ 63"
    and "\<And>i. i \<in> set (cu_required_input c) \<Longrightarrow> length (encode_file_input i) < 2 ^ 63"
proof -
  let ?in = "concat (map (\<lambda>fi. write_tag_len 3 (encode_file_input fi)) (cu_required_input c))"
  have parts: "length (write_some 1 (encode_vname (cu_v_name c))) < 2 ^ 63" "length ?in < 2 ^ 63"
    "length (concat (map (\<lambda>a. write_tag_len 5 a) (cu_argument c))) < 2 ^ 63"
    "length (concat (map (\<lambda>a. write_tag_len 6 a) (cu_source_file c))) < 2 ^ 63"
    "length (write_some 7 (cu_output_key c)) < 2 ^ 63" "length (write_some 8 (cu_working_directory c)) < 2 ^ 63"
    "length (write_some 9 (cu_entry_context c)) < 2 ^ 63"
    using assms unfolding encode_compilation_unit_def length_append by linarith+
  show vn: "length (encode_vname (cu_v_name c)) < 2 ^ 63" using parts(1) by (rule write_some_small)
  show inputs: "length (encode_file_input i) < 2 ^ 63" if "i \<in> set (cu_required_input c)" for i
    using in_concat_small [OF that parts(2)] .
  have "?in = pb_fields (map (\<lambda>i. (3, encode_file_input i)) (cu_required_input c))"
    by (rule concat_fields, rule write_tag_len_pb(3)) (use inputs in fastforce)
  moreover have "concat (map (\<lambda>a. write_tag_len 5 a) (cu_argument c)) = pb_fields (map (\<lambda>a. (5, a)) (cu_argument c))"
    by (rule concat_fields, rule write_tag_len_pb(5)) (use in_concat_small [OF _ parts(3)] in fastforce)
  moreover have "concat (map (\<lambda>a. write_tag_len 6 a) (cu_source_file c)) = pb_fields (map (\<lambda>a. (6, a)) (cu_source_file c))"
    by (rule concat_fields, rule write_tag_len_pb(6)) (use in_concat_small [OF _ parts(4)] in fastforce)
  moreover have "length (cu_output_key c) < 2 ^ 64" "length (cu_working_directory c) < 2 ^ 64"
    "length (cu_entry_context c) < 2 ^ 64"
    using parts(5-7) [THEN write_some_small] by simp_all
  ultimately show "encode_compilation_unit c = pb_fields (cu_fields c)"
    using vn unfolding encode_compilation_unit_def cu_fields_def by (simp add: write_some_pb)
qed

text \<open>The repeated fields append.\<close>

lemma put_inputs:
  assumes "\<And>i. i \<in> set is' \<Longrightarrow> parse_file_input (encode_file_input i) = Inr i"
  shows "kz_put_all put_compilation_unit (map (\<lambda>i. (3, encode_file_input i)) is' @ fs) c =
    kz_put_all put_compilation_unit fs (c\<lparr> cu_required_input := cu_required_input c @ is' \<rparr>)"
  using assms by (induction is' arbitrary: c) (simp_all add: put_compilation_unit_def)

lemma put_strings:
  assumes "list_all utf8_valid ps"
  shows "kz_put_all put_compilation_unit (map (Pair 5) ps @ fs) c =
      kz_put_all put_compilation_unit fs (c\<lparr> cu_argument := cu_argument c @ ps \<rparr>)"
    and "kz_put_all put_compilation_unit (map (Pair 6) ps @ fs) c =
      kz_put_all put_compilation_unit fs (c\<lparr> cu_source_file := cu_source_file c @ ps \<rparr>)"
  using assms by (induction ps arbitrary: c) (simp_all add: put_compilation_unit_def from_utf8_lossy_id)

lemma parse_encode_cu:
  assumes "cu_ok c" and "length (encode_compilation_unit c) < 2 ^ 63"
  shows "parse_compilation_unit (encode_compilation_unit c) = Inr c"
proof -
  note enc = encode_cu_parts [OF assms(2)]
  have ok: "vname_ok (cu_v_name c)" "list_all utf8_valid (cu_argument c)" "list_all utf8_valid (cu_source_file c)"
    "utf8_valid (cu_output_key c)" "utf8_valid (cu_working_directory c)" "utf8_valid (cu_entry_context c)"
    using assms(1) by (simp_all add: cu_ok_def)
  have inputs: "parse_file_input (encode_file_input i) = Inr i" if "i \<in> set (cu_required_input c)" for i
    using parse_encode_file_input [OF _ enc(3) [OF that]] assms(1) that by (auto simp: cu_ok_def list_all_iff)
  let ?c = "compilation_unit_default\<lparr> cu_v_name := cu_v_name c \<rparr>"
  let ?d = "?c\<lparr> cu_required_input := cu_required_input c, cu_argument := cu_argument c, cu_source_file := cu_source_file c \<rparr>"
  have "parse_compilation_unit (encode_compilation_unit c) =
      kz_put_all put_compilation_unit (cu_fields c) compilation_unit_default"
    using assms(2) unfolding parse_compilation_unit_def enc(1)
    by (intro kz_parse_fields) (auto simp: cu_fields_def dest!: opt_field_range)
  also have "\<dots> = Inr c"
    unfolding cu_fields_def
  proof (rule kz_put_step [where m' = ?c])
    show "put_compilation_unit (of_nat 1) 2 (encode_vname (cu_v_name c)) compilation_unit_default = Inr ?c"
      using parse_encode_vname [OF ok(1) enc(2)] by (simp add: put_compilation_unit_def)
    show "?c = compilation_unit_default" if "encode_vname (cu_v_name c) = []"
      using that by (simp add: encode_vname_Nil compilation_unit_default_def)
    have "kz_put_all put_compilation_unit (opt_field 7 (cu_output_key c) @ opt_field 8 (cu_working_directory c) @
        opt_field 9 (cu_entry_context c)) ?d = Inr c"
      using ok(4-6)
      by (intro kz_put_step [where m' = "?d\<lparr> cu_output_key := cu_output_key c \<rparr>"]
          kz_put_step [where m' = "?d\<lparr> cu_output_key := cu_output_key c, cu_working_directory := cu_working_directory c \<rparr>"] kz_put_last)
        (simp_all add: put_compilation_unit_def from_utf8_lossy_id compilation_unit_default_def)
    then show "kz_put_all put_compilation_unit (map (\<lambda>i. (3, encode_file_input i)) (cu_required_input c) @
        map (Pair 5) (cu_argument c) @ map (Pair 6) (cu_source_file c) @ opt_field 7 (cu_output_key c) @
        opt_field 8 (cu_working_directory c) @ opt_field 9 (cu_entry_context c)) ?c = Inr c"
      using put_inputs [OF inputs, of "cu_required_input c"] ok(2,3)
      by (simp add: put_strings compilation_unit_default_def)
  qed
  finally show ?thesis .
qed

lemma parse_encode_indexed:
  assumes "cu_ok c" and "length (encode_indexed_compilation c) < 2 ^ 63"
  shows "parse_indexed_compilation (encode_indexed_compilation c) = Inr c"
proof -
  have small: "length (encode_compilation_unit c) < 2 ^ 63"
    using assms(2) unfolding encode_indexed_compilation_def by (rule write_tag_small)
  then have "write_tag_len 1 (encode_compilation_unit c) = pb_field 1 (encode_compilation_unit c)"
    by (intro write_tag_len_pb) simp
  then have enc: "encode_indexed_compilation c = pb_fields [(1, encode_compilation_unit c)]"
    by (simp add: encode_indexed_compilation_def pb_fields_def)
  have "parse_indexed_compilation (encode_indexed_compilation c) =
      kz_put_all put_indexed [(1, encode_compilation_unit c)] compilation_unit_default"
    using assms(2) unfolding parse_indexed_compilation_def enc by (intro kz_parse_fields) auto
  then show ?thesis using parse_encode_cu [OF assms(1) small] by (simp add: put_indexed_def)
qed

end
