(* ===== verification/S2_Archive.thy ===== *)
theory S2_Archive
  imports S2_Kzip
begin

text \<open>
  Reading and writing kzip archives (\<open>src/crates/scry2/src/kzip.rs\<close>): the cheap look at a unit's primary
  path, \<^verbatim>\<open>read_units\<close> with and without a path filter, normalisation to proto units and the extraction of
  single units. An archive is the list of its entries, name and uncompressed content, in the order of
  the central directory: the zip library delivers it and takes it. The JSON decoder is the parameter \<open>J\<close>,
  and \<open>ord\<close> is the order in which a hash set is walked.
\<close>

type_synonym archive = "(bytes \<times> bytes) list"

section \<open>Looking at a proto unit\<close>

fun peek_varint_loop :: "nat \<Rightarrow> bytes \<Rightarrow> nat \<Rightarrow> u64 \<Rightarrow> nat \<Rightarrow> (u64 \<times> nat) option" where
  "peek_varint_loop 0 buf i val shift = None"
| "peek_varint_loop (Suc k) buf i val shift =
     (if i < length buf then
        (let b = buf ! i; val' = val OR push_bit shift (ucast (b AND 0x7F))
         in if b AND 0x80 = 0 then Some (val', i + 1) else peek_varint_loop k buf (i + 1) val' (shift + 7))
      else None)"

definition peek_varint :: "bytes \<Rightarrow> (u64 \<times> nat) option" where
  "peek_varint buf = peek_varint_loop 10 buf 0 0 0"

definition skip_proto_field :: "bytes \<Rightarrow> nat \<Rightarrow> u8 \<Rightarrow> nat option" where
  "skip_proto_field buf cur wire =
     (if wire = 0 then map_option (\<lambda>(_, n). cur + n) (peek_varint (drop cur buf))
      else if wire = 1 then (if cur + 8 \<le> length buf then Some (cur + 8) else None)
      else if wire = 2 then
        (case peek_varint (drop cur buf) of
           None \<Rightarrow> None
         | Some (len, n) \<Rightarrow> if length buf < cur + n + unat len then None else Some (cur + n + unat len))
      else if wire = 5 then (if cur + 4 \<le> length buf then Some (cur + 4) else None)
      else None)"

lemma peek_varint_loop_bounds: "peek_varint_loop k buf i val shift = Some (v, n) \<Longrightarrow> i < n \<and> n \<le> length buf"
  by (induction k arbitrary: i val shift) (fastforce simp: Let_def split: if_splits)+

lemma peek_varint_bounds: "peek_varint buf = Some (v, n) \<Longrightarrow> 0 < n \<and> n \<le> length buf"
  unfolding peek_varint_def by (rule peek_varint_loop_bounds)

lemma skip_proto_field_bounds: "skip_proto_field buf cur wire = Some c \<Longrightarrow> cur < c \<or> cur \<le> c \<and> c \<le> length buf"
  by (auto simp: skip_proto_field_def split: if_splits option.splits dest!: peek_varint_bounds)

function find_field_ld_truncating :: "bytes \<Rightarrow> nat \<Rightarrow> u32 \<Rightarrow> bytes option" where
  "find_field_ld_truncating buf cur target =
     (if cur < length buf then
        (case peek_varint (drop cur buf) of
           None \<Rightarrow> None
         | Some (tag, n) \<Rightarrow>
             let cur1 = cur + n; field = ucast (drop_bit 3 tag); wire = ucast (tag AND 7) in
             if field = target \<and> wire = 2 then
               (case peek_varint (drop cur1 buf) of
                  None \<Rightarrow> None
                | Some (len, ln) \<Rightarrow>
                    let cur2 = cur1 + ln; e = cur2 + unat len
                    in if 2 ^ 64 \<le> e then None else Some (payload buf cur2 (min e (length buf))))
             else (case skip_proto_field buf cur1 wire of
                     None \<Rightarrow> None
                   | Some c \<Rightarrow> find_field_ld_truncating buf c target))
      else None)"
  by pat_completeness auto
termination
  by (relation "measure (\<lambda>(buf, cur, target). length buf - cur)")
    (auto dest!: peek_varint_bounds skip_proto_field_bounds)

declare find_field_ld_truncating.simps [simp del]

definition find_first_field_string :: "bytes \<Rightarrow> u32 \<Rightarrow> bytes option" where
  "find_first_field_string buf target =
     (case find_field_ld_truncating buf 0 target of
        None \<Rightarrow> None
      | Some raw \<Rightarrow> if utf8_valid raw then Some raw else None)"

definition peek_proto_primary_path :: "bytes \<Rightarrow> bytes option" where
  "peek_proto_primary_path buf =
     (case find_field_ld_truncating buf 0 1 of
        None \<Rightarrow> None
      | Some cu \<Rightarrow>
          (case find_first_field_string cu 6 of
             Some s \<Rightarrow> Some s
           | None \<Rightarrow>
               (case find_field_ld_truncating cu 0 3 of
                  None \<Rightarrow> None
                | Some first_input \<Rightarrow>
                    (case find_field_ld_truncating first_input 0 1 of
                       None \<Rightarrow> None
                     | Some v \<Rightarrow>
                         (case find_first_field_string v 4 of
                            Some p \<Rightarrow> Some p
                          | None \<Rightarrow>
                              (case find_field_ld_truncating first_input 0 2 of
                                 None \<Rightarrow> None
                               | Some info \<Rightarrow>
                                   (case find_first_field_string info 1 of Some p \<Rightarrow> Some p | None \<Rightarrow> Some [])))))))"

section \<open>Looking at a JSON unit\<close>

text \<open>\<^verbatim>\<open>memmem\<close>: the position of the first window that equals the needle.\<close>

definition kz_memmem :: "bytes \<Rightarrow> bytes \<Rightarrow> nat option" where
  "kz_memmem hay needle =
     (if needle = [] \<or> length hay < length needle then None
      else find (\<lambda>i. take (length needle) (drop i hay) = needle) [0 ..< length hay - length needle + 1])"

definition ascii_ws :: "u8 \<Rightarrow> bool" where
  "ascii_ws b \<longleftrightarrow> b \<in> {0x20, 0x09, 0x0A, 0x0C, 0x0D}"

definition skip_ws :: "bytes \<Rightarrow> nat \<Rightarrow> nat" where
  "skip_ws buf p = p + length (takeWhile ascii_ws (drop p buf))"

text \<open>\<^verbatim>\<open>bytes.get(p) == Some(&b)\<close>\<close>

definition byte_is :: "bytes \<Rightarrow> nat \<Rightarrow> u8 \<Rightarrow> bool" where
  "byte_is buf p b \<longleftrightarrow> p < length buf \<and> buf ! p = b"

function close_quote :: "bytes \<Rightarrow> nat \<Rightarrow> nat" where
  "close_quote buf p =
     (if p < length buf \<and> buf ! p \<noteq> 0x22 then
        close_quote buf (if buf ! p = 0x5C \<and> p + 1 < length buf then p + 2 else p + 1)
      else p)"
  by pat_completeness auto
termination
  by (relation "measure (\<lambda>(buf, p). length buf - p)") auto

declare close_quote.simps [simp del]

text \<open>The string that opens at the quote at \<open>p\<close>, and the position after it.\<close>

definition quoted :: "bytes \<Rightarrow> nat \<Rightarrow> (bytes \<times> nat) option" where
  "quoted buf p =
     (if \<not> byte_is buf p 0x22 then None
      else let start = p + 1; e = close_quote buf start in
        if length buf \<le> e then None
        else let raw = payload buf start e in if utf8_valid raw then Some (raw, e + 1) else None)"

definition json_first_value_string_or_list :: "bytes \<Rightarrow> bytes \<Rightarrow> bytes option" where
  "json_first_value_string_or_list buf key =
     (case kz_memmem buf key of
        None \<Rightarrow> None
      | Some rel \<Rightarrow>
          let p = skip_ws buf (rel + length key) in
          if \<not> byte_is buf p 0x3A then None
          else let p1 = skip_ws buf (p + 1);
                   p2 = (if byte_is buf p1 0x5B then skip_ws buf (p1 + 1) else p1)
               in map_option fst (quoted buf p2))"

definition json_take_string_value :: "bytes \<Rightarrow> nat \<Rightarrow> (bytes \<times> nat) option" where
  "json_take_string_value buf from =
     (let p = skip_ws buf from in
      if \<not> byte_is buf p 0x3A then None else quoted buf (skip_ws buf (p + 1)))"

definition is_source_extension :: "bytes \<Rightarrow> bool" where
  "is_source_extension path \<longleftrightarrow>
     list_ex (\<lambda>e. ends_with path (lit e))
       [''.cc'', ''.cpp'', ''.cxx'', ''.c++'', ''.c'', ''.m'', ''.mm'', ''.java'', ''.kt'', ''.go'', ''.rs'',
        ''.proto'', ''.textpb'', ''.textproto'']"

lemma quoted_bounds: "quoted buf p = Some (v, e) \<Longrightarrow> p < e"
proof -
  have ge: "q \<le> close_quote buf q" for q
  proof (induction buf q rule: close_quote.induct)
    case (1 buf q)
    then show ?case by (subst close_quote.simps) auto
  qed
  show "quoted buf p = Some (v, e) \<Longrightarrow> p < e"
    using ge [of "p + 1"] by (auto simp: quoted_def Let_def split: if_splits)
qed

lemma json_take_bounds: "json_take_string_value buf from = Some (v, e) \<Longrightarrow> from < e"
  by (auto simp: json_take_string_value_def Let_def skip_ws_def split: if_splits dest!: quoted_bounds)

lemma find_mem: "find P xs = Some x \<Longrightarrow> x \<in> set xs"
  by (induction xs) (auto split: if_splits)

lemma memmem_room: "kz_memmem hay needle = Some i \<Longrightarrow> i + length needle \<le> length hay \<and> needle \<noteq> []"
proof -
  assume "kz_memmem hay needle = Some i"
  then have "needle \<noteq> []" "length needle \<le> length hay" and "i \<in> set [0 ..< length hay - length needle + 1]"
    unfolding kz_memmem_def by (auto simp del: upt_Suc split: if_splits dest: find_mem)
  then show ?thesis by auto
qed

function json_paths :: "bytes \<Rightarrow> nat \<Rightarrow> bytes option" where
  "json_paths buf cursor =
     (case kz_memmem (drop cursor buf) (lit ''\"path\"'') of
        None \<Rightarrow> None
      | Some rel \<Rightarrow>
          let after = cursor + rel + length (lit ''\"path\"'') in
          (case json_take_string_value buf after of
             Some (val, e) \<Rightarrow> if is_source_extension val then Some val else json_paths buf e
           | None \<Rightarrow> json_paths buf after))"
  by pat_completeness auto

termination
proof (relation "measure (\<lambda>(buf, cursor). length buf - cursor)")
  fix buf :: bytes and cursor rel after val e and x :: "bytes \<times> nat"
  assume a: "kz_memmem (drop cursor buf) (lit ''\"path\"'') = Some rel" "after = cursor + rel + length (lit ''\"path\"'')"
  then have lt: "cursor < after \<and> after \<le> length buf" using memmem_room [OF a(1)] by (auto simp: lit_def)
  then show "((buf, after), buf, cursor) \<in> measure (\<lambda>(buf, cursor). length buf - cursor)" by auto
  show "((buf, e), buf, cursor) \<in> measure (\<lambda>(buf, cursor). length buf - cursor)"
    if "json_take_string_value buf after = Some x" "(val, e) = x" for x
    using json_take_bounds [of buf after val e] that lt by auto
qed auto

definition peek_json_primary_path :: "bytes \<Rightarrow> bytes option" where
  "peek_json_primary_path buf =
     (case json_first_value_string_or_list buf (lit ''\"source_file\"'') of
        Some s \<Rightarrow> Some s
      | None \<Rightarrow>
          (case json_first_value_string_or_list buf (lit ''\"sourceFile\"'') of
             Some s \<Rightarrow> Some s
           | None \<Rightarrow> json_paths buf 0))"

definition peek_primary_path :: "bytes \<Rightarrow> bool \<Rightarrow> bytes option" where
  "peek_primary_path buf is_proto = (if is_proto then peek_proto_primary_path buf else peek_json_primary_path buf)"

section \<open>Reading units\<close>

definition kz_strip_prefix :: "bytes \<Rightarrow> bytes \<Rightarrow> bytes option" where
  "kz_strip_prefix name pre =
     (case strip_prefix name pre of
        None \<Rightarrow> None
      | Some after \<Rightarrow> if after = [] \<or> 0x2F \<in> set after then None else Some after)"

text \<open>The entries of the two unit directories, with their sha.\<close>

definition pbunit_entries :: "archive \<Rightarrow> (bytes \<times> bytes) list" where
  "pbunit_entries A =
     List.map_filter (\<lambda>(name, buf). map_option (\<lambda>sha. (sha, buf)) (kz_strip_prefix name (lit ''root/pbunits/''))) A"

definition json_entries :: "archive \<Rightarrow> (bytes \<times> bytes) list" where
  "json_entries A =
     List.map_filter (\<lambda>(name, buf).
       if kz_strip_prefix name (lit ''root/pbunits/'') = None
       then map_option (\<lambda>sha. (sha, buf)) (kz_strip_prefix name (lit ''root/units/'')) else None) A"

text \<open>\<^verbatim>\<open>read_to_string\<close> and \<^verbatim>\<open>serde_json::from_str\<close>.\<close>

definition decode_json :: "(bytes \<Rightarrow> kzip_error + compilation_unit) \<Rightarrow> bytes \<Rightarrow> kzip_error + compilation_unit" where
  "decode_json J buf = (if utf8_valid buf then J buf else Inl Kz_InvalidUtf8)"

fun decode_protos :: "(bytes \<times> bytes) list \<Rightarrow> kzip_error + kzip_unit list" where
  "decode_protos [] = Inr []"
| "decode_protos ((sha, buf) # es) =
     (case parse_indexed_compilation buf of
        Inl e \<Rightarrow> Inl e
      | Inr cu \<Rightarrow> map_sum id ((#) \<lparr> u_sha = sha, u_cu = cu, u_raw_proto = Some buf \<rparr>) (decode_protos es))"

fun decode_jsons ::
    "(bytes \<Rightarrow> kzip_error + compilation_unit) \<Rightarrow> bytes set \<Rightarrow> (bytes \<times> bytes) list \<Rightarrow> kzip_error + kzip_unit list" where
  "decode_jsons J proto_shas [] = Inr []"
| "decode_jsons J proto_shas ((sha, buf) # es) =
     (if sha \<in> proto_shas then decode_jsons J proto_shas es
      else case decode_json J buf of
             Inl e \<Rightarrow> Inl e
           | Inr cu \<Rightarrow> map_sum id ((#) \<lparr> u_sha = sha, u_cu = cu, u_raw_proto = None \<rparr>) (decode_jsons J proto_shas es))"

definition read_units :: "(bytes \<Rightarrow> kzip_error + compilation_unit) \<Rightarrow> archive \<Rightarrow> kzip_error + kzip_unit list" where
  "read_units J A =
     (case decode_protos (pbunit_entries A) of
        Inl e \<Rightarrow> Inl e
      | Inr us \<Rightarrow> map_sum id ((@) us) (decode_jsons J (u_sha ` set us) (json_entries A)))"

definition primary_or_empty :: "compilation_unit \<Rightarrow> bytes" where
  "primary_or_empty cu = (case cu_primary_path cu of Some p \<Rightarrow> p | None \<Rightarrow> [])"

definition peek_rejects :: "(bytes \<Rightarrow> bool) \<Rightarrow> bool \<Rightarrow> bytes \<Rightarrow> bool" where
  "peek_rejects accept is_proto buf \<longleftrightarrow>
     (case peek_primary_path buf is_proto of Some p \<Rightarrow> \<not> accept p | None \<Rightarrow> False)"

fun filter_protos :: "(bytes \<Rightarrow> bool) \<Rightarrow> (bytes \<times> bytes) list \<Rightarrow> kzip_error + kzip_unit list" where
  "filter_protos accept [] = Inr []"
| "filter_protos accept ((sha, buf) # es) =
     (if peek_rejects accept True buf then filter_protos accept es
      else case parse_indexed_compilation buf of
             Inl e \<Rightarrow> Inl e
           | Inr cu \<Rightarrow>
               if \<not> accept (primary_or_empty cu) then filter_protos accept es
               else map_sum id ((#) \<lparr> u_sha = sha, u_cu = cu, u_raw_proto = Some buf \<rparr>) (filter_protos accept es))"

fun filter_jsons ::
    "(bytes \<Rightarrow> kzip_error + compilation_unit) \<Rightarrow> (bytes \<Rightarrow> bool) \<Rightarrow> bytes set \<Rightarrow> (bytes \<times> bytes) list \<Rightarrow>
     kzip_error + kzip_unit list" where
  "filter_jsons J accept proto_shas [] = Inr []"
| "filter_jsons J accept proto_shas ((sha, buf) # es) =
     (if sha \<in> proto_shas then filter_jsons J accept proto_shas es
      else if \<not> utf8_valid buf then Inl Kz_InvalidUtf8
      else if peek_rejects accept False buf then filter_jsons J accept proto_shas es
      else case J buf of
             Inl e \<Rightarrow> Inl e
           | Inr cu \<Rightarrow>
               if \<not> accept (primary_or_empty cu) then filter_jsons J accept proto_shas es
               else map_sum id ((#) \<lparr> u_sha = sha, u_cu = cu, u_raw_proto = None \<rparr>)
                      (filter_jsons J accept proto_shas es))"

definition read_units_filtered ::
    "(bytes \<Rightarrow> kzip_error + compilation_unit) \<Rightarrow> (bytes \<Rightarrow> bool) \<Rightarrow> archive \<Rightarrow> kzip_error + kzip_unit list" where
  "read_units_filtered J accept A =
     (case filter_protos accept (pbunit_entries A) of
        Inl e \<Rightarrow> Inl e
      | Inr us \<Rightarrow> map_sum id ((@) us) (filter_jsons J accept (u_sha ` set us) (json_entries A)))"

section \<open>Writing archives\<close>

definition file_entry_name :: "bytes \<Rightarrow> bytes" where
  "file_entry_name digest = lit ''root/files/'' @ digest"

definition kz_directories :: archive where
  "kz_directories = [(lit ''root/'', []), (lit ''root/pbunits/'', []), (lit ''root/files/'', [])]"

text \<open>The digests of the required inputs, each once.\<close>

definition unit_digests :: "kzip_unit \<Rightarrow> bytes list" where
  "unit_digests u = filter (\<lambda>d. d \<noteq> []) (map (fi_digest \<circ> in_info) (cu_required_input (u_cu u)))"

definition needed_files :: "kzip_unit list \<Rightarrow> bytes list" where
  "needed_files us = remdups (concat (map unit_digests us))"

definition copy_blobs :: "archive \<Rightarrow> bytes list \<Rightarrow> archive" where
  "copy_blobs A ds =
     List.map_filter (\<lambda>d. map_option (Pair (file_entry_name d)) (map_of A (file_entry_name d))) ds"

definition write_normalized :: "(bytes list \<Rightarrow> bytes list) \<Rightarrow> archive \<Rightarrow> kzip_unit list \<Rightarrow> archive" where
  "write_normalized ord A us =
     kz_directories @ map (\<lambda>u. (lit ''root/pbunits/'' @ u_sha u, to_proto_bytes u)) us @
     copy_blobs A (ord (needed_files us))"

definition normalize_kzip ::
    "(bytes \<Rightarrow> kzip_error + compilation_unit) \<Rightarrow> (bytes list \<Rightarrow> bytes list) \<Rightarrow> archive \<Rightarrow> kzip_error + archive \<times> nat \<times> nat" where
  "normalize_kzip J ord A =
     (case read_units J A of
        Inl e \<Rightarrow> Inl e
      | Inr us \<Rightarrow> Inr (write_normalized ord A us, length us, length (needed_files us)))"

text \<open>\<^verbatim>\<open>SubKzipWriter::extract_with\<close>: the archive of one unit and the number of blobs copied.\<close>

definition extract_with :: "archive \<Rightarrow> kzip_unit \<Rightarrow> (compilation_unit \<Rightarrow> compilation_unit) \<Rightarrow> archive \<times> nat" where
  "extract_with A u transform =
     (let cu = transform (u_cu u);
          buf = (case u_raw_proto u of
                   Some raw \<Rightarrow> if cu = u_cu u then raw else encode_indexed_compilation cu
                 | None \<Rightarrow> encode_indexed_compilation cu);
          blobs = copy_blobs A (remdups (unit_digests u))
      in (kz_directories @ [(lit ''root/pbunits/'' @ u_sha u, buf)] @ blobs, length blobs))"

definition extract_unit :: "archive \<Rightarrow> kzip_unit \<Rightarrow> archive \<times> nat" where
  "extract_unit A u = extract_with A u id"

end
