(* ===== verification/S2_Units.thy ===== *)
theory S2_Units
  imports S2_Archive
begin

text \<open>
  What reading and writing archives guarantees: the cheap look at an encoded unit against the full
  decoder, filtered reading against filtering, and that units survive normalisation and extraction.
\<close>

section \<open>Looking into encoded messages\<close>

lemma peek_loop_at: "peek_varint_loop k buf i val shift = varint_at k buf i val shift"
  by (induction k buf i val shift rule: peek_varint_loop.induct) (auto simp: Let_def)

lemma peek_varint_pb:
  assumes "n < 2 ^ 63"
  shows "peek_varint (pb_varint n @ rest) = Some (of_nat n, length (pb_varint n))"
  using read_varint_at_pb [OF assms, of "[]" rest] by (simp add: peek_varint_def peek_loop_at read_varint_at_def)

lemma find_field_cons:
  assumes "n < 2 ^ 29" and "t < 2 ^ 29" and "length (pre @ pb_field n p @ rest) < 2 ^ 63"
  shows "find_field_ld_truncating (pre @ pb_field n p @ rest) (length pre) (of_nat t) =
    (if n = t then Some p
     else find_field_ld_truncating (pre @ pb_field n p @ rest) (length pre + length (pb_field n p)) (of_nat t))"
proof -
  let ?t = "pb_varint (8 * n + 2)" and ?l = "pb_varint (length p)"
  let ?buf = "pre @ pb_field n p @ rest" and ?cur = "length pre + length ?t"
  have len: "length p < 2 ^ 63" using assms(3) by (simp add: pb_field_def)
  have tag: "peek_varint (drop (length pre) ?buf) = Some (of_nat (8 * n + 2), length ?t)"
    using assms(1) peek_varint_pb [of "8 * n + 2" "?l @ p @ rest"] by (simp add: pb_field_def)
  have lens: "peek_varint (drop ?cur ?buf) = Some (of_nat (length p), length ?l)"
    using peek_varint_pb [OF len, of "p @ rest"] by (simp add: pb_field_def)
  have u: "unat (of_nat (length p) :: u64) = length p" by (rule unat_of_nat_small) (use len in simp)
  have field: "ucast (of_nat n :: u64) = (of_nat n :: u32)"
    using assms(1) by (simp add: unsigned_of_nat take_bit_nat_eq_self)
  have eq: "(of_nat n :: u32) = of_nat t \<longleftrightarrow> n = t"
  proof
    assume "(of_nat n :: u32) = of_nat t"
    then have "unat (of_nat n :: u32) = unat (of_nat t :: u32)" by simp
    moreover have "unat (of_nat n :: u32) = n" "unat (of_nat t :: u32) = t"
      by (rule unat_of_nat_small; use assms(1,2) in simp)+
    ultimately show "n = t" by simp
  qed simp
  have all: "?cur + length ?l + length p = length pre + length (pb_field n p)" by (simp add: pb_field_def)
  have skip: "skip_proto_field ?buf ?cur 2 = Some (length pre + length (pb_field n p))"
    using lens all by (simp add: skip_proto_field_def u)
  have pay: "payload ?buf (?cur + length ?l) (min (?cur + length ?l + length p) (length ?buf)) = p"
    by (simp add: payload_def pb_field_def)
  have fits: "?cur + length ?l + length p < 2 ^ 64" using assms(3) all by simp
  define buf k w where "buf = ?buf" and "k = length ?t" and "w = (of_nat (8 * n + 2) :: u64)"
  have w: "ucast (drop_bit 3 w) = (of_nat n :: u32)" "ucast (w AND 7) = (2 :: u8)"
    using tag_parts [OF assms(1), of 2] field by (simp_all add: w_def)
  have "length pre < length buf" by (simp add: buf_def)
  then show ?thesis
    using tag lens skip pay fits u eq w
    unfolding buf_def [symmetric] k_def [symmetric] w_def [symmetric]
    by (simp add: find_field_ld_truncating.simps [of buf "length pre"] Let_def)
qed

lemma find_field_fields:
  assumes "\<And>n p. (n, p) \<in> set fs \<Longrightarrow> n < 2 ^ 29" and "t < 2 ^ 29" and "length (pre @ pb_fields fs) < 2 ^ 63"
  shows "find_field_ld_truncating (pre @ pb_fields fs) (length pre) (of_nat t) = map_option snd (find (\<lambda>(n, p). n = t) fs)"
  using assms
proof (induction fs arbitrary: pre)
  case Nil
  then show ?case by (simp add: pb_fields_def find_field_ld_truncating.simps)
next
  case (Cons f fs)
  obtain n p where f: "f = (n, p)" by (cases f)
  have msg: "pb_fields (f # fs) = pb_field n p @ pb_fields fs" by (simp add: f pb_fields_def)
  have n: "n < 2 ^ 29" using Cons.prems(1) [of n p] by (simp add: f)
  have small: "length (pre @ pb_field n p @ pb_fields fs) < 2 ^ 63" using Cons.prems(3) unfolding msg .
  have "find_field_ld_truncating ((pre @ pb_field n p) @ pb_fields fs) (length (pre @ pb_field n p)) (of_nat t) =
      map_option snd (find (\<lambda>(n, p). n = t) fs)"
    using Cons.prems small by (intro Cons.IH) auto
  then show ?case using find_field_cons [OF n Cons.prems(2) small] unfolding msg by (simp add: f)
qed

lemma find_field_is:
  assumes "buf = pb_fields fs" and "list_all (\<lambda>(n, p). n < 2 ^ 29) fs" and "length buf < 2 ^ 63" and "t < 2 ^ 29"
    and "map_option snd (find (\<lambda>(n, p). n = t) fs) = r"
  shows "find_field_ld_truncating buf 0 (of_nat t) = r"
  using find_field_fields [of fs t "[]"] assms by (auto simp: list_all_iff)

lemmas find_field_at = find_field_is [where t = 1, unfolded of_nat_1] find_field_is [where t = 2, unfolded of_nat_numeral]
  find_field_is [where t = 3, unfolded of_nat_numeral] find_field_is [where t = 4, unfolded of_nat_numeral]
  find_field_is [where t = 6, unfolded of_nat_numeral]

text \<open>The paths the look finds in the encodings of the nested messages.\<close>

lemma find_opt: "find (\<lambda>(n, p). n = t) (opt_field k q @ fs) = (if k = t \<and> q \<noteq> [] then Some (k, q) else find (\<lambda>(n, p). n = t) fs)"
  "find (\<lambda>(n, p). n = t) (opt_field k q) = (if k = t \<and> q \<noteq> [] then Some (k, q) else None)"
  by (simp_all add: opt_field_def)

lemma find_append: "find P (xs @ ys) = (case find P xs of Some x \<Rightarrow> Some x | None \<Rightarrow> find P ys)"
  by (induction xs) simp_all

lemma find_pairs: "find (\<lambda>(n, p). n = t) (map (\<lambda>x. (k, f x)) xs) = (if k = t then (case xs of x # _ \<Rightarrow> Some (k, f x) | [] \<Rightarrow> None) else None)"
  by (induction xs) (auto split: list.split)

lemmas find_tags = find_opt find_append find_pairs find_pairs [where f = "\<lambda>x. x"]

lemma field_of_cu:
  assumes "length (encode_compilation_unit c) < 2 ^ 63"
  shows "find_field_ld_truncating (encode_compilation_unit c) 0 6 = (case cu_source_file c of f # _ \<Rightarrow> Some f | [] \<Rightarrow> None)"
    and "find_field_ld_truncating (encode_compilation_unit c) 0 3 =
      (case cu_required_input c of i # _ \<Rightarrow> Some (encode_file_input i) | [] \<Rightarrow> None)"
proof -
  have tags: "list_all (\<lambda>(n, p). n < 2 ^ 29) (cu_fields c)" by (auto simp: cu_fields_def list_all_iff opt_field_def)
  note look = find_field_at [OF encode_cu_parts(1) [OF assms] tags assms]
  show "find_field_ld_truncating (encode_compilation_unit c) 0 6 = (case cu_source_file c of f # _ \<Rightarrow> Some f | [] \<Rightarrow> None)"
    by (rule look(5)) (simp_all add: cu_fields_def find_tags split: list.split)
  show "find_field_ld_truncating (encode_compilation_unit c) 0 3 =
      (case cu_required_input c of i # _ \<Rightarrow> Some (encode_file_input i) | [] \<Rightarrow> None)"
    by (rule look(3)) (simp_all add: cu_fields_def find_tags split: list.split)
qed

lemma field_of_input:
  assumes "length (encode_file_input i) < 2 ^ 63"
  shows "find_field_ld_truncating (encode_file_input i) 0 1 =
      (if in_v_name i = vname_default then None else Some (encode_vname (in_v_name i)))"
    and "find_field_ld_truncating (encode_file_input i) 0 2 =
      (if in_info i = file_info_default then None else Some (encode_file_info (in_info i)))"
proof -
  have tags: "list_all (\<lambda>(n, p). n < 2 ^ 29) (file_input_fields i)" by (auto simp: file_input_fields_def opt_field_def)
  note look = find_field_at [OF encode_file_input_fields(1) [OF assms] tags assms]
  show "find_field_ld_truncating (encode_file_input i) 0 1 =
      (if in_v_name i = vname_default then None else Some (encode_vname (in_v_name i)))"
    by (rule look(1)) (simp_all add: file_input_fields_def find_tags encode_vname_Nil)
  show "find_field_ld_truncating (encode_file_input i) 0 2 =
      (if in_info i = file_info_default then None else Some (encode_file_info (in_info i)))"
    by (rule look(2)) (simp_all add: file_input_fields_def find_tags encode_file_info_Nil)
qed

lemma path_of_vname:
  assumes "vname_ok v" and "length (encode_vname v) < 2 ^ 63"
  shows "find_first_field_string (encode_vname v) 4 = (if vn_path v = [] then None else Some (vn_path v))"
proof -
  have tags: "list_all (\<lambda>(n, p). n < 2 ^ 29) (vname_fields v)" by (auto simp: vname_fields_def opt_field_def)
  have "find_field_ld_truncating (encode_vname v) 0 4 = (if vn_path v = [] then None else Some (vn_path v))"
    by (rule find_field_at(4) [OF encode_vname_fields [OF assms(2)] tags assms(2)])
      (simp_all add: vname_fields_def find_tags)
  then show ?thesis using assms(1) by (simp add: find_first_field_string_def vname_ok_def)
qed

lemma path_of_info:
  assumes "file_info_ok i" and "length (encode_file_info i) < 2 ^ 63"
  shows "find_first_field_string (encode_file_info i) 1 = (if fi_path i = [] then None else Some (fi_path i))"
proof -
  have tags: "list_all (\<lambda>(n, p). n < 2 ^ 29) (file_info_fields i)" by (auto simp: file_info_fields_def opt_field_def)
  have "find_field_ld_truncating (encode_file_info i) 0 1 = (if fi_path i = [] then None else Some (fi_path i))"
    by (rule find_field_at(1) [OF encode_file_info_fields [OF assms(2)] tags assms(2)])
      (simp_all add: file_info_fields_def find_tags)
  then show ?thesis using assms(1) by (simp add: find_first_field_string_def file_info_ok_def)
qed

lemma indexed_fields:
  assumes "length (encode_indexed_compilation c) < 2 ^ 63"
  shows "encode_indexed_compilation c = pb_fields [(1, encode_compilation_unit c)]"
    and "length (encode_compilation_unit c) < 2 ^ 63"
proof -
  show small: "length (encode_compilation_unit c) < 2 ^ 63"
    using assms unfolding encode_indexed_compilation_def by (rule write_tag_small)
  then have "write_tag_len 1 (encode_compilation_unit c) = pb_field 1 (encode_compilation_unit c)"
    by (intro write_tag_len_pb) simp
  then show "encode_indexed_compilation c = pb_fields [(1, encode_compilation_unit c)]"
    by (simp add: encode_indexed_compilation_def pb_fields_def)
qed

text \<open>What the look sees of an encoded unit.\<close>

lemma peek_encoded:
  assumes "cu_ok c" and "length (encode_indexed_compilation c) < 2 ^ 63"
  shows "peek_proto_primary_path (encode_indexed_compilation c) =
    (case cu_source_file c of
       f # _ \<Rightarrow> Some f
     | [] \<Rightarrow>
         (case cu_required_input c of
            [] \<Rightarrow> None
          | ri # _ \<Rightarrow>
              if in_v_name ri = vname_default then None
              else if vn_path (in_v_name ri) \<noteq> [] then Some (vn_path (in_v_name ri))
              else if in_info ri = file_info_default then None
              else Some (fi_path (in_info ri))))"
proof -
  note enc = indexed_fields [OF assms(2)]
  have unit: "find_field_ld_truncating (encode_indexed_compilation c) 0 1 = Some (encode_compilation_unit c)"
    by (rule find_field_at(1) [OF enc(1) _ assms(2)]) simp_all
  note cu = field_of_cu [OF enc(2)]
  show ?thesis
  proof (cases "cu_source_file c")
    case (Cons f fs)
    then have "utf8_valid f" using assms(1) by (simp add: cu_ok_def)
    then show ?thesis using Cons by (simp add: peek_proto_primary_path_def unit cu find_first_field_string_def)
  next
    case Nil
    show ?thesis
    proof (cases "cu_required_input c")
      case Nil': Nil
      then show ?thesis using Nil by (simp add: peek_proto_primary_path_def unit cu find_first_field_string_def)
    next
      case (Cons ri ris)
      have ok: "vname_ok (in_v_name ri)" "file_info_ok (in_info ri)"
        using assms(1) Cons by (simp_all add: cu_ok_def file_input_ok_def)
      have "length (encode_file_input ri) < 2 ^ 63" using encode_cu_parts(3) [OF enc(2)] Cons by simp
      note small = this encode_file_input_fields(2,3) [OF this]
      show ?thesis
        using Nil Cons field_of_input [OF small(1)] path_of_vname [OF ok(1) small(2)] path_of_info [OF ok(2) small(3)]
        by (simp add: peek_proto_primary_path_def unit cu find_first_field_string_def)
    qed
  qed
qed

section \<open>Filtered reading\<close>

definition accepted :: "(bytes \<Rightarrow> bool) \<Rightarrow> kzip_unit \<Rightarrow> bool" where
  "accepted accept u \<longleftrightarrow> accept (primary_or_empty (u_cu u))"

lemma accepted_unit [simp]: "accepted accept \<lparr> u_sha = sha, u_cu = cu, u_raw_proto = raw \<rparr> = accept (primary_or_empty cu)"
  by (simp add: accepted_def)

text \<open>The look rejects only units that the filter rejects.\<close>

definition peek_safe :: "(bytes \<Rightarrow> bool) \<Rightarrow> bool \<Rightarrow> bytes \<Rightarrow> compilation_unit \<Rightarrow> bool" where
  "peek_safe accept is_proto buf cu \<longleftrightarrow> (peek_rejects accept is_proto buf \<longrightarrow> \<not> accept (primary_or_empty cu))"

lemma map_sum_Inr_iff: "map_sum id f x = Inr y \<longleftrightarrow> (\<exists>z. x = Inr z \<and> y = f z)"
  by (cases x) auto

lemma filter_protos_eq:
  assumes "decode_protos es = Inr us"
    and "\<And>sha buf cu. (sha, buf) \<in> set es \<Longrightarrow> parse_indexed_compilation buf = Inr cu \<Longrightarrow> peek_safe accept True buf cu"
  shows "filter_protos accept es = Inr (filter (accepted accept) us)"
  using assms
proof (induction es arbitrary: us)
  case (Cons x es)
  obtain sha buf where x: "x = (sha, buf)" by (cases x)
  obtain cu vs where cu: "parse_indexed_compilation buf = Inr cu" "decode_protos es = Inr vs"
    "us = \<lparr> u_sha = sha, u_cu = cu, u_raw_proto = Some buf \<rparr> # vs"
    using Cons.prems(1) by (auto simp: x map_sum_Inr_iff split: sum.splits)
  have "filter_protos accept es = Inr (filter (accepted accept) vs)"
    using Cons.prems(2) by (intro Cons.IH cu(2)) auto
  moreover have "peek_safe accept True buf cu" using Cons.prems(2) cu(1) x by auto
  ultimately show ?case by (simp add: x cu peek_safe_def)
qed simp

text \<open>A JSON unit with a proto twin: skipped when the twin was kept, and rejected itself otherwise.\<close>

lemma filter_jsons_eq:
  assumes "decode_jsons J S es = Inr us" and "T \<subseteq> S"
    and "\<And>sha buf. (sha, buf) \<in> set es \<Longrightarrow> sha \<in> S - T \<Longrightarrow> \<exists>cu. decode_json J buf = Inr cu \<and> \<not> accept (primary_or_empty cu)"
    and "\<And>sha buf cu. (sha, buf) \<in> set es \<Longrightarrow> sha \<notin> S \<Longrightarrow> decode_json J buf = Inr cu \<Longrightarrow> peek_safe accept False buf cu"
  shows "filter_jsons J accept T es = Inr (filter (accepted accept) us)"
  using assms(1,3,4)
proof (induction es arbitrary: us)
  case (Cons x es)
  obtain sha buf where x: "x = (sha, buf)" by (cases x)
  have IH: "decode_jsons J S es = Inr vs \<Longrightarrow> filter_jsons J accept T es = Inr (filter (accepted accept) vs)" for vs
    using Cons.prems(2,3) by (intro Cons.IH) (blast intro: list.set_intros(2))+
  show ?case
  proof (cases "sha \<in> S")
    case True
    then have vs: "decode_jsons J S es = Inr us" using Cons.prems(1) by (simp add: x)
    show ?thesis
    proof (cases "sha \<in> T")
      case True
      then show ?thesis using IH [OF vs] by (simp add: x)
    next
      case False
      obtain cu where "decode_json J buf = Inr cu" "\<not> accept (primary_or_empty cu)"
        using Cons.prems(2) [of sha buf] True False x by auto
      then show ?thesis using False IH [OF vs] by (auto simp: x decode_json_def split: if_splits)
    qed
  next
    case False
    then obtain cu vs where cu: "decode_json J buf = Inr cu" "decode_jsons J S es = Inr vs"
      "us = \<lparr> u_sha = sha, u_cu = cu, u_raw_proto = None \<rparr> # vs"
      using Cons.prems(1) by (auto simp: x map_sum_Inr_iff split: sum.splits)
    have "peek_safe accept False buf cu" using Cons.prems(3) [OF _ False cu(1)] x by auto
    moreover have "sha \<notin> T" using False assms(2) by auto
    ultimately show ?thesis
      using IH [OF cu(2)] cu(1) by (auto simp: x cu(3) decode_json_def peek_safe_def split: if_splits)
  qed
qed simp

lemma decode_protos_shas: "decode_protos es = Inr us \<Longrightarrow> map u_sha us = map fst es"
  by (induction es arbitrary: us) (auto simp: map_sum_Inr_iff split: sum.splits)

text \<open>The JSON copy of a proto unit that the filter drops is dropped as well.\<close>

definition twins_agree :: "(bytes \<Rightarrow> kzip_error + compilation_unit) \<Rightarrow> (bytes \<Rightarrow> bool) \<Rightarrow> archive \<Rightarrow> bool" where
  "twins_agree J accept A \<longleftrightarrow> (\<forall>(sha, buf) \<in> set (json_entries A). sha \<in> fst ` set (pbunit_entries A) \<longrightarrow>
     (case decode_json J buf of
        Inl e \<Rightarrow> False
      | Inr cu \<Rightarrow> accept (primary_or_empty cu) \<longrightarrow>
          (\<exists>pbuf pcu. (sha, pbuf) \<in> set (pbunit_entries A) \<and> parse_indexed_compilation pbuf = Inr pcu \<and>
             accept (primary_or_empty pcu))))"

lemma decode_protos_mem:
  "decode_protos es = Inr us \<Longrightarrow> (sha, buf) \<in> set es \<Longrightarrow> parse_indexed_compilation buf = Inr cu \<Longrightarrow>
    \<lparr> u_sha = sha, u_cu = cu, u_raw_proto = Some buf \<rparr> \<in> set us"
  by (induction es arbitrary: us) (auto simp: map_sum_Inr_iff split: sum.splits)

lemma read_filtered:
  assumes "read_units J A = Inr us"
    and "\<And>sha buf cu. (sha, buf) \<in> set (pbunit_entries A) \<Longrightarrow> parse_indexed_compilation buf = Inr cu \<Longrightarrow> peek_safe accept True buf cu"
    and "\<And>sha buf cu. (sha, buf) \<in> set (json_entries A) \<Longrightarrow> decode_json J buf = Inr cu \<Longrightarrow> peek_safe accept False buf cu"
    and "twins_agree J accept A"
  shows "read_units_filtered J accept A = Inr (filter (accepted accept) us)"
proof -
  let ?P = "pbunit_entries A" and ?Q = "json_entries A"
  obtain ps js where d: "decode_protos ?P = Inr ps" "decode_jsons J (u_sha ` set ps) ?Q = Inr js" "us = ps @ js"
    using assms(1) by (auto simp: read_units_def map_sum_Inr_iff split: sum.splits)
  have shas: "u_sha ` set ps = fst ` set ?P"
    using decode_protos_shas [OF d(1)] by (metis set_map)
  let ?T = "u_sha ` set (filter (accepted accept) ps)"
  have "filter_jsons J accept ?T ?Q = Inr (filter (accepted accept) js)"
  proof (rule filter_jsons_eq [OF d(2)])
    show "?T \<subseteq> u_sha ` set ps" by auto
    show "\<exists>cu. decode_json J buf = Inr cu \<and> \<not> accept (primary_or_empty cu)"
      if e: "(sha, buf) \<in> set ?Q" "sha \<in> u_sha ` set ps - ?T" for sha buf
    proof -
      have "case decode_json J buf of Inl e \<Rightarrow> False | Inr cu \<Rightarrow> accept (primary_or_empty cu) \<longrightarrow>
          (\<exists>pbuf pcu. (sha, pbuf) \<in> set ?P \<and> parse_indexed_compilation pbuf = Inr pcu \<and> accept (primary_or_empty pcu))"
        using assms(4) e shas unfolding twins_agree_def by fast
      then obtain cu where cu: "decode_json J buf = Inr cu" "accept (primary_or_empty cu) \<Longrightarrow>
          \<exists>pbuf pcu. (sha, pbuf) \<in> set ?P \<and> parse_indexed_compilation pbuf = Inr pcu \<and> accept (primary_or_empty pcu)"
        by (auto split: sum.splits)
      have "sha \<in> ?T" if "accept (primary_or_empty cu)"
        using cu(2) [OF that] decode_protos_mem [OF d(1)] by (force simp: accepted_def)
      then show ?thesis using cu(1) e(2) by auto
    qed
  qed (use assms(3) in blast)
  then show ?thesis
    using filter_protos_eq [OF d(1) assms(2)] by (simp add: read_units_filtered_def d(3))
qed

section \<open>Normalisation and extraction\<close>

definition sha_ok :: "bytes \<Rightarrow> bool" where
  "sha_ok sha \<longleftrightarrow> sha \<noteq> [] \<and> 0x2F \<notin> set sha"

lemma strip_prefix_sha: "kz_strip_prefix name pre = Some sha \<Longrightarrow> sha_ok sha"
  by (auto simp: kz_strip_prefix_def sha_ok_def split: option.splits if_splits)

lemma pbunit_name: "sha_ok sha \<Longrightarrow> kz_strip_prefix (lit ''root/pbunits/'' @ sha) (lit ''root/pbunits/'') = Some sha"
  by (simp add: kz_strip_prefix_def strip_prefix_def sha_ok_def starts_with_def)

lemma other_names:
  "kz_strip_prefix (file_entry_name d) (lit ''root/pbunits/'') = None"
  "kz_strip_prefix (file_entry_name d) (lit ''root/units/'') = None"
  by (simp_all add: kz_strip_prefix_def strip_prefix_def file_entry_name_def starts_with_def lit_def)

lemma entries_append:
  "pbunit_entries (A @ B) = pbunit_entries A @ pbunit_entries B" "json_entries (A @ B) = json_entries A @ json_entries B"
  by (simp_all add: pbunit_entries_def json_entries_def List.map_filter_def)

lemma entries_dirs: "pbunit_entries kz_directories = []" "json_entries kz_directories = []"
  by (simp_all add: pbunit_entries_def json_entries_def kz_directories_def kz_strip_prefix_def strip_prefix_def
      starts_with_def lit_def map_filter_simps)

lemma entries_blobs: "pbunit_entries (copy_blobs A ds) = []" "json_entries (copy_blobs A ds) = []"
  by (induction ds)
    (simp_all add: pbunit_entries_def json_entries_def copy_blobs_def map_filter_simps other_names split: option.split)

lemma entries_units:
  "(\<And>u. u \<in> set us \<Longrightarrow> sha_ok (u_sha u)) \<Longrightarrow>
    pbunit_entries (map (\<lambda>u. (lit ''root/pbunits/'' @ u_sha u, f u)) us) = map (\<lambda>u. (u_sha u, f u)) us \<and>
    json_entries (map (\<lambda>u. (lit ''root/pbunits/'' @ u_sha u, f u)) us) = []"
  by (induction us) (simp_all add: pbunit_entries_def json_entries_def map_filter_simps pbunit_name)

lemma decode_protos_units:
  "(\<And>u. u \<in> set us \<Longrightarrow> parse_indexed_compilation (f u) = Inr (g u)) \<Longrightarrow>
    decode_protos (map (\<lambda>u. (u_sha u, f u)) us) =
      Inr (map (\<lambda>u. \<lparr> u_sha = u_sha u, u_cu = g u, u_raw_proto = Some (f u) \<rparr>) us)"
  by (induction us) simp_all

text \<open>Reading an archive laid out by one of the two writers.\<close>

lemma read_written:
  assumes "\<And>u. u \<in> set us \<Longrightarrow> sha_ok (u_sha u) \<and> parse_indexed_compilation (f u) = Inr (g u)"
  shows "read_units J (kz_directories @ map (\<lambda>u. (lit ''root/pbunits/'' @ u_sha u, f u)) us @ copy_blobs A ds) =
    Inr (map (\<lambda>u. \<lparr> u_sha = u_sha u, u_cu = g u, u_raw_proto = Some (f u) \<rparr>) us)"
  using assms entries_units [of us f] decode_protos_units [of us f g]
  by (simp add: read_units_def entries_append entries_dirs entries_blobs)

lemma blob_lookup:
  assumes "d \<in> set ds" and "d \<noteq> []"
  shows "map_of (kz_directories @ map (\<lambda>u. (lit ''root/pbunits/'' @ u_sha u, f u)) us @ copy_blobs A ds) (file_entry_name d) =
    map_of A (file_entry_name d)"
proof -
  have "map_of kz_directories (file_entry_name d) = None"
    using assms(2) by (simp add: kz_directories_def file_entry_name_def lit_def)
  moreover have "map_of (map (\<lambda>u. (lit ''root/pbunits/'' @ u_sha u, f u)) us) (file_entry_name d) = None"
    by (induction us) (simp_all add: file_entry_name_def lit_def)
  moreover have "map_of (copy_blobs A ds) (file_entry_name d) = (if d \<in> set ds then map_of A (file_entry_name d) else None)"
    by (induction ds) (auto simp: copy_blobs_def map_filter_simps file_entry_name_def split: option.split)
  ultimately show ?thesis using assms(1) by (simp add: map_add_def split: option.split)
qed

text \<open>Units as reading delivers them.\<close>

definition unit_ok :: "kzip_unit \<Rightarrow> bool" where
  "unit_ok u \<longleftrightarrow> sha_ok (u_sha u) \<and>
     (case u_raw_proto u of
        Some raw \<Rightarrow> parse_indexed_compilation raw = Inr (u_cu u)
      | None \<Rightarrow> cu_ok (u_cu u) \<and> length (encode_indexed_compilation (u_cu u)) < 2 ^ 63)"

lemma unit_ok_bytes: "unit_ok u \<Longrightarrow> sha_ok (u_sha u) \<and> parse_indexed_compilation (to_proto_bytes u) = Inr (u_cu u)"
  by (auto simp: unit_ok_def to_proto_bytes_def parse_encode_indexed split: option.splits)

end
