(* ===== verification/S2_Cache.thy ===== *)
theory S2_Cache
  imports S2_Units
begin

text \<open>
  The cache of per-unit shards (\<open>src/crates/scry2/src/cache.rs\<close>): the key of a unit, and the directory of
  shards with its operations. The 128-bit hash of the library is the parameter \<open>X\<close>; the shards directory is
  the association list of its files, the manifest lies beside it.
\<close>

section \<open>Keys\<close>

definition INGEST_SCHEMA_VERSION :: u32 where "INGEST_SCHEMA_VERSION = 2"

text \<open>\<^verbatim>\<open>Hasher\<close> collects length-prefixed fields.\<close>

definition add_u64 :: "u64 \<Rightarrow> bytes \<Rightarrow> bytes" where
  "add_u64 v buf = buf @ le64 v"

definition add_str :: "bytes \<Rightarrow> bytes \<Rightarrow> bytes" where
  "add_str s buf = buf @ le64 (of_nat (length s)) @ s"

text \<open>\<^verbatim>\<open>format!("{:032x}", h)\<close>\<close>

definition hex32 :: "128 word \<Rightarrow> bytes" where
  "hex32 h = hex_pad 32 (unat h)"

definition cache_indexers :: "bytes list" where
  "cache_indexers = map lit [''indexers/cxx_indexer'', ''indexers/go_indexer'', ''indexers/java_indexer.jar'',
     ''indexers/jvm_indexer.jar'', ''indexers/proto_indexer'', ''indexers/textproto_indexer'']"

text \<open>\<open>meta\<close> gives size and modification time of a file of the Kythe release, or nothing when it is absent.\<close>

definition tag_buffer :: "(bytes \<Rightarrow> (u64 \<times> u64) option) \<Rightarrow> bytes" where
  "tag_buffer meta =
     fold (\<lambda>rel buf. case meta rel of
        Some (len, mtime) \<Rightarrow> add_u64 mtime (add_u64 len (add_str rel buf))
      | None \<Rightarrow> add_u64 (- 1) (add_str rel buf)) cache_indexers []"

definition indexer_version_tag :: "(bytes \<Rightarrow> 128 word) \<Rightarrow> (bytes \<Rightarrow> (u64 \<times> u64) option) \<Rightarrow> bytes" where
  "indexer_version_tag X meta = hex32 (X (tag_buffer meta))"

text \<open>The sorted and deduplicated inputs, and the buffer that is hashed.\<close>

definition cu_inputs :: "compilation_unit \<Rightarrow> (bytes \<times> bytes) list" where
  "cu_inputs cu = sort_dedup (map (\<lambda>ri. (vn_path (in_v_name ri), fi_digest (in_info ri))) (cu_required_input cu))"

definition digest_buffer :: "compilation_unit \<Rightarrow> bytes \<Rightarrow> bytes" where
  "digest_buffer cu indexer_tag =
     (let b1 = add_str (vn_language (cu_v_name cu)) (add_str indexer_tag (add_u64 (ucast INGEST_SCHEMA_VERSION) []));
          b2 = fold add_str (cu_argument cu) (add_u64 (of_nat (length (cu_argument cu))) b1);
          inputs = cu_inputs cu
      in fold (\<lambda>(path, digest) buf. add_str digest (add_str path buf)) inputs (add_u64 (of_nat (length inputs)) b2))"

definition cu_content_digest :: "(bytes \<Rightarrow> 128 word) \<Rightarrow> compilation_unit \<Rightarrow> bytes \<Rightarrow> bytes" where
  "cu_content_digest X cu indexer_tag = hex32 (X (digest_buffer cu indexer_tag))"

section \<open>Shards\<close>

record shard_cache =
  sc_shards :: "(bytes \<times> bytes) list"
  sc_manifest :: "bytes option"

text \<open>The cache directory may be absent.\<close>

definition cache_open :: "shard_cache option \<Rightarrow> shard_cache" where
  "cache_open d = (case d of Some c \<Rightarrow> c | None \<Rightarrow> \<lparr> sc_shards = [], sc_manifest = None \<rparr>)"

definition cache_clear :: "shard_cache option \<Rightarrow> shard_cache option" where
  "cache_clear d = None"

definition shard_path :: "bytes \<Rightarrow> bytes" where
  "shard_path digest = digest @ lit ''.s2db''"

definition cache_contains :: "shard_cache \<Rightarrow> bytes \<Rightarrow> bool" where
  "cache_contains c digest =
     (case map_of (sc_shards c) (shard_path digest) of
        None \<Rightarrow> False
      | Some fl \<Rightarrow> (case index_open fl of Inl e \<Rightarrow> False | Inr ix \<Rightarrow> True))"

text \<open>\<^verbatim>\<open>store\<close> copies to a temporary file of the process and renames it; the rename fails when the
  temporary file is gone.\<close>

definition tmp_path :: "bytes \<Rightarrow> bytes \<Rightarrow> bytes" where
  "tmp_path pid digest = lit ''.'' @ digest @ lit ''.'' @ pid @ lit ''.tmp''"

definition cache_copy :: "bytes \<Rightarrow> bytes \<Rightarrow> shard_cache \<Rightarrow> shard_cache" where
  "cache_copy tmp src c = c\<lparr> sc_shards := hm_insert tmp src (sc_shards c) \<rparr>"

definition cache_rename :: "bytes \<Rightarrow> bytes \<Rightarrow> shard_cache \<Rightarrow> shard_cache option" where
  "cache_rename tmp dst c =
     (case map_of (sc_shards c) tmp of
        None \<Rightarrow> None
      | Some content \<Rightarrow>
          Some (c\<lparr> sc_shards := hm_insert dst content (filter (\<lambda>(n, _). n \<noteq> tmp) (sc_shards c)) \<rparr>))"

definition cache_store :: "bytes \<Rightarrow> bytes \<Rightarrow> bytes \<Rightarrow> shard_cache \<Rightarrow> shard_cache option" where
  "cache_store pid digest src c =
     cache_rename (tmp_path pid digest) (shard_path digest) (cache_copy (tmp_path pid digest) src c)"

text \<open>\<^verbatim>\<open>finalize\<close>: prune the shards that are not kept, then write the manifest.\<close>

definition pruned :: "bytes list \<Rightarrow> (bytes \<times> bytes) list \<Rightarrow> (bytes \<times> bytes) list" where
  "pruned kept shards =
     filter (\<lambda>(name, _). case strip_suffix name (lit ''.s2db'') of None \<Rightarrow> True | Some dg \<Rightarrow> dg \<in> set kept) shards"

definition manifest_lines :: "bytes list \<Rightarrow> bytes" where
  "manifest_lines kept = concat (map (\<lambda>l. l @ [0x0A]) (sort (map (\<lambda>d. d @ [0x09] @ shard_path d) kept)))"

definition cache_finalize :: "bytes list \<Rightarrow> shard_cache \<Rightarrow> shard_cache" where
  "cache_finalize kept c = c\<lparr> sc_shards := pruned kept (sc_shards c), sc_manifest := Some (manifest_lines kept) \<rparr>"

section \<open>Keys identify what they hash\<close>

lemma le64_inject [simp]: "le64 a = le64 b \<longleftrightarrow> a = b"
  by (metis le_inverse(2))

lemma le64_split: "le64 a @ xs = le64 b @ ys \<longleftrightarrow> a = b \<and> xs = ys"
  by (simp add: append_eq_append_conv)

lemma count_inject: "n < 2 ^ 64 \<Longrightarrow> m < 2 ^ 64 \<Longrightarrow> (of_nat n :: u64) = of_nat m \<longleftrightarrow> n = m"
proof -
  assume "n < 2 ^ 64" "m < 2 ^ 64"
  then have "unat (of_nat n :: u64) = n" "unat (of_nat m :: u64) = m" by (simp_all add: unat_of_nat_small)
  then show "(of_nat n :: u64) = of_nat m \<longleftrightarrow> n = m" by metis
qed

text \<open>The field that \<^verbatim>\<open>add_str\<close> appends.\<close>

definition str_field :: "bytes \<Rightarrow> bytes" where
  "str_field s = le64 (of_nat (length s)) @ s"

lemma str_split:
  "length s < 2 ^ 64 \<Longrightarrow> length t < 2 ^ 64 \<Longrightarrow> str_field s @ xs = str_field t @ ys \<longleftrightarrow> s = t \<and> xs = ys"
  by (auto simp: str_field_def le64_split count_inject append_eq_append_conv)

definition short :: "bytes list \<Rightarrow> bool" where
  "short ss \<longleftrightarrow> list_all (\<lambda>s. length s < 2 ^ 64) ss"

lemma fields_inject:
  "length ss = length ts \<Longrightarrow> short ss \<Longrightarrow> short ts \<Longrightarrow>
    concat (map str_field ss) @ xs = concat (map str_field ts) @ ys \<longleftrightarrow> ss = ts \<and> xs = ys"
  by (induction ss ts rule: list_induct2) (auto simp: short_def str_split)

text \<open>A count followed by as many fields.\<close>

lemma counted_inject:
  assumes "length ss < 2 ^ 64" and "length ts < 2 ^ 64" and "short ss" and "short ts"
  shows "le64 (of_nat (length ss)) @ concat (map str_field ss) @ xs = le64 (of_nat (length ts)) @ concat (map str_field ts) @ ys \<longleftrightarrow>
    ss = ts \<and> xs = ys"
  using assms fields_inject [of ss ts xs ys] by (auto simp: le64_split count_inject)

fun flat :: "(bytes \<times> bytes) list \<Rightarrow> bytes list" where
  "flat [] = []"
| "flat ((p, d) # ps) = p # d # flat ps"

lemma flat_inject: "flat ps = flat qs \<longleftrightarrow> ps = qs"
proof (induction ps arbitrary: qs rule: flat.induct)
  case 1
  show ?case by (cases qs rule: flat.cases) simp_all
next
  case (2 p d ps)
  then show ?case by (cases qs rule: flat.cases) simp_all
qed

lemma length_flat: "length (flat ps) = 2 * length ps"
  by (induction ps rule: flat.induct) simp_all

lemma digest_buffer_fields:
  "digest_buffer cu tag = le64 2 @ str_field tag @ str_field (vn_language (cu_v_name cu)) @
     le64 (of_nat (length (cu_argument cu))) @ concat (map str_field (cu_argument cu)) @
     le64 (of_nat (length (cu_inputs cu))) @ concat (map str_field (flat (cu_inputs cu)))"
proof -
  have "fold add_str ss buf = buf @ concat (map str_field ss)" for ss buf
    by (induction ss arbitrary: buf) (simp_all add: add_str_def str_field_def)
  moreover have "fold (\<lambda>(p, d) buf. add_str d (add_str p buf)) ps buf = buf @ concat (map str_field (flat ps))" for ps buf
    by (induction ps arbitrary: buf rule: flat.induct) (simp_all add: add_str_def str_field_def)
  ultimately show ?thesis
    by (simp add: digest_buffer_def add_u64_def add_str_def str_field_def INGEST_SCHEMA_VERSION_def Let_def)
qed

text \<open>Strings and lists of a unit that fit the length fields.\<close>

definition cu_fits :: "compilation_unit \<Rightarrow> bytes \<Rightarrow> bool" where
  "cu_fits cu tag \<longleftrightarrow> short [tag, vn_language (cu_v_name cu)] \<and> short (cu_argument cu) \<and> short (flat (cu_inputs cu)) \<and>
     length (cu_argument cu) < 2 ^ 64 \<and> length (cu_inputs cu) < 2 ^ 64"

lemma digest_buffer_inject:
  assumes "cu_fits cu tag" and "cu_fits cu' tag'"
  shows "digest_buffer cu tag = digest_buffer cu' tag' \<longleftrightarrow>
    tag = tag' \<and> vn_language (cu_v_name cu) = vn_language (cu_v_name cu') \<and> cu_argument cu = cu_argument cu' \<and>
    cu_inputs cu = cu_inputs cu'"
proof -
  have inputs: "le64 (of_nat (length (cu_inputs cu))) @ concat (map str_field (flat (cu_inputs cu))) =
      le64 (of_nat (length (cu_inputs cu'))) @ concat (map str_field (flat (cu_inputs cu'))) \<longleftrightarrow> cu_inputs cu = cu_inputs cu'"
  proof
    assume "le64 (of_nat (length (cu_inputs cu))) @ concat (map str_field (flat (cu_inputs cu))) =
      le64 (of_nat (length (cu_inputs cu'))) @ concat (map str_field (flat (cu_inputs cu')))"
    then have "length (cu_inputs cu) = length (cu_inputs cu')"
      and "concat (map str_field (flat (cu_inputs cu))) = concat (map str_field (flat (cu_inputs cu')))"
      using assms by (simp_all add: le64_split count_inject cu_fits_def)
    then show "cu_inputs cu = cu_inputs cu'"
      using assms fields_inject [of "flat (cu_inputs cu)" "flat (cu_inputs cu')" "[]" "[]"]
      by (simp add: length_flat flat_inject cu_fits_def)
  qed simp
  have "length tag < 2 ^ 64" "length tag' < 2 ^ 64" "length (vn_language (cu_v_name cu)) < 2 ^ 64"
    "length (vn_language (cu_v_name cu')) < 2 ^ 64"
    using assms by (simp_all add: cu_fits_def short_def)
  moreover have "length (cu_argument cu) < 2 ^ 64" "length (cu_argument cu') < 2 ^ 64" "short (cu_argument cu)" "short (cu_argument cu')"
    using assms by (simp_all add: cu_fits_def)
  ultimately show ?thesis
    using counted_inject [of "cu_argument cu" "cu_argument cu'"
        "le64 (of_nat (length (cu_inputs cu))) @ concat (map str_field (flat (cu_inputs cu)))"
        "le64 (of_nat (length (cu_inputs cu'))) @ concat (map str_field (flat (cu_inputs cu')))"] inputs
    unfolding digest_buffer_fields by (simp add: str_split)
qed

lemma cu_inputs_set:
  "cu_inputs cu = cu_inputs cu' \<longleftrightarrow>
    (\<lambda>ri. (vn_path (in_v_name ri), fi_digest (in_info ri))) ` set (cu_required_input cu) =
    (\<lambda>ri. (vn_path (in_v_name ri), fi_digest (in_info ri))) ` set (cu_required_input cu')"
proof -
  have "sort_dedup xs = sort_dedup ys \<longleftrightarrow> set xs = set ys" for xs ys :: "(bytes \<times> bytes) list"
  proof
    show "sort_dedup xs = sort_dedup ys \<Longrightarrow> set xs = set ys" by (metis set_sort_dedup)
    show "set xs = set ys \<Longrightarrow> sort_dedup xs = sort_dedup ys"
      by (rule sorted_distinct_set_unique) (simp_all add: sort_dedup_sorted distinct_sort_dedup set_sort_dedup)
  qed
  then show ?thesis by (simp add: cu_inputs_def)
qed

section \<open>The directory\<close>

lemma strip_shard [simp]: "strip_suffix (shard_path d) (lit ''.s2db'') = Some d"
  by (simp add: strip_suffix_def shard_path_def ends_with_def starts_with_def)

lemma shard_path_inject [simp]: "shard_path d = shard_path e \<longleftrightarrow> d = e"
  by (simp add: shard_path_def)

lemma tmp_not_shard [simp]: "tmp_path pid d \<noteq> shard_path e"
proof
  assume eq: "tmp_path pid d = shard_path e"
  have "last (tmp_path pid d) = 0x70" "last (shard_path e) = 0x62" by (simp_all add: tmp_path_def shard_path_def lit_def)
  then show False using eq by simp
qed

lemma map_of_filter_key: "map_of (filter (\<lambda>(n, _). P n) m) k = (if P k then map_of m k else None)"
  by (induction m) auto

lemma store_total:
  "\<exists>c'. cache_store pid digest src c = Some c' \<and> sc_manifest c' = sc_manifest c \<and>
    (\<forall>e. map_of (sc_shards c') (shard_path e) = (if e = digest then Some src else map_of (sc_shards c) (shard_path e)))"
proof -
  let ?t = "tmp_path pid digest"
  have "map_of (hm_insert ?t src (sc_shards c)) ?t = Some src" by (simp split: option.split)
  then show ?thesis
    by (simp add: cache_store_def cache_rename_def cache_copy_def map_of_filter_key tmp_not_shard [THEN not_sym])
      (simp split: option.split)
qed

lemma finalize_lookup:
  "map_of (sc_shards (cache_finalize kept c)) (shard_path e) = (if e \<in> set kept then map_of (sc_shards c) (shard_path e) else None)"
  using map_of_filter_key [of "\<lambda>n. case strip_suffix n (lit ''.s2db'') of None \<Rightarrow> True | Some dg \<Rightarrow> dg \<in> set kept"
      "sc_shards c" "shard_path e"]
  by (simp add: cache_finalize_def pruned_def)

end
