(* ===== verification/S2_Plan.thy ===== *)
theory S2_Plan
  imports S2_Cache "HOL-Library.Sublist"
begin

text \<open>
  The pure parts of the command line (\<open>src/crates/scry2/src/main.rs\<close>): path arguments, the routing of units
  to indexers, injected arguments, the plan of a \<^verbatim>\<open>from-kzip\<close> run and its candidate paths, the names of the
  working files, the checkpoint of finished units and the decision to resume. A directory is the list
  of its file names; an output is named by its file name in it.
\<close>

section \<open>Arguments\<close>

definition STRIP_FLAG_PREFIXES :: "bytes list" where
  "STRIP_FLAG_PREFIXES = map lit [''-fprofile-sample-use'', ''-fprofile-use'', ''-fprofile-instr-use'', ''-fprofile-list'',
     ''-fprofile-remapping-file'', ''-fsanitize-coverage-allowlist'', ''-fsanitize-coverage-ignorelist'',
     ''-fsanitize-ignorelist'', ''-fsanitize-blacklist'', ''-fxray-attr-list'', ''-fxray-always-instrument'',
     ''-fxray-never-instrument'']"

text \<open>\<^verbatim>\<open>PathBuf::push\<close>: an absolute path replaces, others are joined by one separator.\<close>

definition path_push :: "bytes \<Rightarrow> bytes \<Rightarrow> bytes" where
  "path_push p q =
     (if starts_with q (lit ''/'') then q
      else if p = [] \<or> ends_with p (lit ''/'') then p @ q
      else p @ lit ''/'' @ q)"

definition expand_tilde :: "bytes \<Rightarrow> bytes option \<Rightarrow> bytes" where
  "expand_tilde s home =
     (case strip_prefix s (lit ''~/'') of
        Some rest \<Rightarrow> (case home of Some h \<Rightarrow> path_push h rest | None \<Rightarrow> s)
      | None \<Rightarrow> if s = lit ''~'' then (case home of Some h \<Rightarrow> h | None \<Rightarrow> s) else s)"

section \<open>Indexers\<close>

datatype indexer_kind = Cxx | JavaSource | JvmBytecode | Go | Proto | TextProto

definition route_language :: "bytes \<Rightarrow> indexer_kind option" where
  "route_language lang =
     (if lang = lit ''c++'' then Some Cxx
      else if lang = lit ''java'' then Some JavaSource
      else if lang = lit ''jvm'' then Some JvmBytecode
      else if lang = lit ''go'' then Some Go
      else if lang = lit ''protobuf'' \<or> lang = lit ''proto'' then Some Proto
      else if lang = lit ''textproto'' then Some TextProto
      else None)"

fun lang_label :: "indexer_kind \<Rightarrow> bytes" where
  "lang_label Cxx = lit ''cxx''"
| "lang_label JavaSource = lit ''java''"
| "lang_label JvmBytecode = lit ''jvm''"
| "lang_label Go = lit ''go''"
| "lang_label Proto = lit ''proto''"
| "lang_label TextProto = lit ''textproto''"

record inject_rule =
  ir_path_prefix :: bytes
  ir_arg :: bytes

datatype inject_error = MissingSeparator bytes | EmptyPrefix bytes | EmptyArg bytes

fun parse_inject_rules :: "bytes list \<Rightarrow> inject_error + inject_rule list" where
  "parse_inject_rules [] = Inr []"
| "parse_inject_rules (r # raw) =
     (case before_first (lit ''::'') r of
        None \<Rightarrow> Inl (MissingSeparator r)
      | Some p \<Rightarrow>
          let a = drop (length p + 2) r in
          if p = [] then Inl (EmptyPrefix r)
          else if a = [] then Inl (EmptyArg r)
          else map_sum id ((#) \<lparr> ir_path_prefix = p, ir_arg = a \<rparr>) (parse_inject_rules raw))"

record indexer_command =
  ic_program :: bytes
  ic_args :: "bytes list"

text \<open>\<open>there\<close> tells which files exist; an absent indexer is the error.\<close>

definition build_indexer_command ::
    "(bytes \<Rightarrow> bool) \<Rightarrow> indexer_kind \<Rightarrow> bytes \<Rightarrow> bytes \<Rightarrow> bytes \<Rightarrow> bytes \<Rightarrow> bytes + indexer_command" where
  "build_indexer_command there kind kythe_root cu_kzip jvm_heap jvm_temp_dir =
     (let tool = (\<lambda>rel args. let bin = path_push kythe_root rel
                   in if \<not> there bin then Inl bin else Inr (args bin))
      in case kind of
           Cxx \<Rightarrow> tool (lit ''indexers/cxx_indexer'') (\<lambda>bin. \<lparr> ic_program = bin, ic_args = [cu_kzip] \<rparr>)
         | Go \<Rightarrow> tool (lit ''indexers/go_indexer'') (\<lambda>bin. \<lparr> ic_program = bin, ic_args = [cu_kzip] \<rparr>)
         | Proto \<Rightarrow> tool (lit ''indexers/proto_indexer'')
             (\<lambda>bin. \<lparr> ic_program = bin, ic_args = [lit ''-index_file='' @ from_utf8_lossy cu_kzip] \<rparr>)
         | TextProto \<Rightarrow> tool (lit ''indexers/textproto_indexer'')
             (\<lambda>bin. \<lparr> ic_program = bin, ic_args = [lit ''--index_file='' @ from_utf8_lossy cu_kzip] \<rparr>)
         | _ \<Rightarrow> tool (if kind = JavaSource then lit ''indexers/java_indexer.jar'' else lit ''indexers/jvm_indexer.jar'')
             (\<lambda>jar. \<lparr> ic_program = lit ''java'',
                ic_args = [lit ''-Xmx'' @ jvm_heap, lit ''-jar'', jar, lit ''--ignore_empty_kzip'',
                  lit ''--temp_directory'', jvm_temp_dir, cu_kzip] \<rparr>))"

section \<open>The plan\<close>

definition accept_path :: "bytes list \<Rightarrow> bytes list \<Rightarrow> bytes \<Rightarrow> bool" where
  "accept_path in_filters not_in_filters p =
     (if in_filters \<noteq> [] \<and> \<not> list_ex (\<lambda>s. s \<noteq> [] \<and> sublist s p) in_filters then False
      else if list_ex (\<lambda>s. s \<noteq> [] \<and> sublist s p) not_in_filters then False
      else True)"

text \<open>\<^verbatim>\<open>str::split\<close> by one ASCII character.\<close>

fun split_char :: "u8 \<Rightarrow> bytes \<Rightarrow> bytes list" where
  "split_char c [] = [[]]"
| "split_char c (b # bs) =
     (if b = c then [] # split_char c bs
      else case split_char c bs of [] \<Rightarrow> [[b]] | x # xs \<Rightarrow> (b # x) # xs)"

definition wanted :: "unicode_tables \<Rightarrow> bytes \<Rightarrow> bytes list" where
  "wanted U langs = map (trim U) (split_char 0x2C langs)"

definition read_plan_units ::
    "(bytes \<Rightarrow> kzip_error + compilation_unit) \<Rightarrow> bytes list \<Rightarrow> bytes list \<Rightarrow> archive \<Rightarrow> kzip_error + kzip_unit list" where
  "read_plan_units J in_filters not_in_filters A =
     (if in_filters = [] \<and> not_in_filters = [] then read_units J A
      else read_units_filtered J (accept_path in_filters not_in_filters) A)"

text \<open>The plan with the numbers of units skipped by language and by path.\<close>

fun build_plan ::
    "bytes list \<Rightarrow> (bytes \<Rightarrow> bool) \<Rightarrow> kzip_unit list \<Rightarrow> (indexer_kind \<times> kzip_unit) list \<times> nat \<times> nat" where
  "build_plan want accept [] = ([], 0, 0)"
| "build_plan want accept (u # us) =
     (let (plan, skipped_lang, skipped_path) = build_plan want accept us in
      case route_language (unit_language u) of
        None \<Rightarrow> (plan, Suc skipped_lang, skipped_path)
      | Some kind \<Rightarrow>
          if lang_label kind \<notin> set want then (plan, Suc skipped_lang, skipped_path)
          else if \<not> accept (primary_or_empty (u_cu u)) then (plan, skipped_lang, Suc skipped_path)
          else ((kind, u) # plan, skipped_lang, skipped_path))"

definition candidate_paths :: "compilation_unit \<Rightarrow> bytes list" where
  "candidate_paths cu =
     cu_source_file cu @
     (if vn_path (cu_v_name cu) \<noteq> [] then [vn_path (cu_v_name cu)] else []) @
     concat (map (\<lambda>ri.
       (if vn_path (in_v_name ri) \<noteq> [] then [vn_path (in_v_name ri)] else []) @
       (if fi_path (in_info ri) \<noteq> [] then [fi_path (in_info ri)] else [])) (cu_required_input cu))"

definition plan_seed :: "(indexer_kind \<times> kzip_unit) list \<Rightarrow> bytes list" where
  "plan_seed plan = sort_dedup ([] # concat (map (\<lambda>(_, u). candidate_paths (u_cu u)) plan))"

text \<open>\<^verbatim>\<open>global_of\<close>: the rank of each candidate path.\<close>

definition global_of :: "bytes list \<Rightarrow> (bytes \<times> u32) list" where
  "global_of seed = zip seed (map of_nat [0 ..< length seed])"

section \<open>The arguments of a unit\<close>

definition matching_args :: "inject_rule list \<Rightarrow> bytes \<Rightarrow> bytes list" where
  "matching_args rules primary = map ir_arg (filter (\<lambda>r. starts_with primary (ir_path_prefix r)) rules)"

definition strip_flags :: "bytes list \<Rightarrow> bytes list" where
  "strip_flags args = filter (\<lambda>a. \<not> list_ex (starts_with a) STRIP_FLAG_PREFIXES) args"

definition inject_args :: "bytes list \<Rightarrow> bytes list \<Rightarrow> bytes list" where
  "inject_args matching args = fold (\<lambda>a as. if list_ex (\<lambda>x. x = a) as then as else a # as) (rev matching) args"

definition unit_transform :: "inject_rule list \<Rightarrow> bytes \<Rightarrow> compilation_unit \<Rightarrow> compilation_unit" where
  "unit_transform rules primary cu =
     cu\<lparr> cu_argument := inject_args (matching_args rules primary) (strip_flags (cu_argument cu)) \<rparr>"

section \<open>Working files\<close>

text \<open>\<^verbatim>\<open>{:04}\<close>\<close>

definition dec4 :: "u64 \<Rightarrow> bytes" where
  "dec4 n = (let ds = dec_digits (unat n) in replicate (4 - length ds) 0x30 @ ds)"

definition partial_s2db_for :: "bytes \<Rightarrow> bytes" where
  "partial_s2db_for stem = stem @ lit ''.partial.s2db''"

definition partial_shas_for :: "bytes \<Rightarrow> bytes" where
  "partial_shas_for stem = stem @ lit ''.partial.shas''"

definition partial_shard_for :: "bytes \<Rightarrow> u64 \<Rightarrow> bytes" where
  "partial_shard_for stem idx = stem @ lit ''.partial.shard.'' @ dec4 idx @ lit ''.s2db''"

definition inter_shard_for :: "bytes \<Rightarrow> u64 \<Rightarrow> bytes" where
  "inter_shard_for stem gi = stem @ lit ''.inter.shard.'' @ dec4 gi @ lit ''.s2db''"

text \<open>\<^verbatim>\<open>str::parse::<usize>\<close>\<close>

fun digits_value64 :: "nat \<Rightarrow> bytes \<Rightarrow> nat option" where
  "digits_value64 acc [] = Some acc"
| "digits_value64 acc (b # bs) =
     (if 0x30 \<le> b \<and> b \<le> 0x39 then
        (let acc' = 10 * acc + (unat b - 48) in if acc' < 2 ^ 64 then digits_value64 acc' bs else None)
      else None)"

definition parse_usize :: "bytes \<Rightarrow> u64 option" where
  "parse_usize s =
     (let ds = (case s of [] \<Rightarrow> [] | b # r \<Rightarrow> if b = 0x2B then r else s)
      in if ds = [] then None else map_option of_nat (digits_value64 0 ds))"

definition shard_index :: "bytes \<Rightarrow> bytes \<Rightarrow> u64 option" where
  "shard_index stem name =
     Option.bind (strip_prefix (from_utf8_lossy name) (stem @ lit ''.partial.shard.''))
       (\<lambda>m. Option.bind (strip_suffix m (lit ''.s2db'')) parse_usize)"

definition scan_partial_shards :: "bytes \<Rightarrow> bytes list \<Rightarrow> (u64 \<times> bytes) list" where
  "scan_partial_shards stem names =
     List.map_filter (\<lambda>name. map_option (\<lambda>idx. (idx, name)) (shard_index stem name)) names"

definition list_partial_shards :: "bytes \<Rightarrow> bytes list \<Rightarrow> bytes list" where
  "list_partial_shards stem names = map snd (sort_key fst (scan_partial_shards stem names))"

definition next_shard_index :: "bytes \<Rightarrow> bytes list \<Rightarrow> u64" where
  "next_shard_index stem names =
     (case map fst (scan_partial_shards stem names) of [] \<Rightarrow> 0 | i # is' \<Rightarrow> fold max is' i + 1)"

section \<open>The checkpoint\<close>

definition write_partial_shas :: "bytes list \<Rightarrow> bytes" where
  "write_partial_shas shas = concat (map (\<lambda>s. s @ [0x0A]) shas)"

text \<open>\<^verbatim>\<open>str::lines\<close>: lines end at a line feed with an optional carriage return before it, and the text after
  the last line feed is a line when it is not empty.\<close>

definition str_lines :: "bytes \<Rightarrow> bytes list" where
  "str_lines s =
     (let parts = split_char 0x0A s;
          strip = (\<lambda>l. case strip_suffix l [0x0D] of Some l' \<Rightarrow> l' | None \<Rightarrow> l)
      in map strip (butlast parts) @ (if last parts = [] then [] else [last parts]))"

definition read_shas :: "unicode_tables \<Rightarrow> bytes \<Rightarrow> bytes list" where
  "read_shas U s = filter (\<lambda>l. l \<noteq> []) (map (trim U) (str_lines s))"

datatype resume_error = UnknownShards nat | NoDurableData | AbortedSnapshot | UnreadableShas

text \<open>The base partial exists or not, the content of the checkpoint, the number of shards.\<close>

definition resume_done :: "unicode_tables \<Rightarrow> bool \<Rightarrow> bytes option \<Rightarrow> nat \<Rightarrow> resume_error + bytes list" where
  "resume_done U base shas n_shards =
     (let load = (\<lambda>s. if utf8_valid s then Inr (remdups (read_shas U s)) else Inl UnreadableShas)
      in case (base, shas) of
           (True, Some s) \<Rightarrow> load s
         | (False, None) \<Rightarrow> if 0 < n_shards then Inl (UnknownShards n_shards) else Inr []
         | (False, Some s) \<Rightarrow> if n_shards = 0 then Inl NoDurableData else load s
         | (True, None) \<Rightarrow> Inl AbortedSnapshot)"

definition retain_plan :: "bytes list \<Rightarrow> (indexer_kind \<times> kzip_unit) list \<Rightarrow> (indexer_kind \<times> kzip_unit) list" where
  "retain_plan done_shas plan = filter (\<lambda>(_, u). u_sha u \<notin> set done_shas) plan"

section \<open>Scheduling\<close>

text \<open>The plan indices of one worker: its number, then every \<open>n\<close>-th after it.\<close>

function stripe :: "nat \<Rightarrow> nat \<Rightarrow> nat \<Rightarrow> nat list" where
  "stripe n i plan_len = (if i < plan_len \<and> 0 < n then i # stripe n (i + n) plan_len else [])"
  by pat_completeness auto
termination
  by (relation "measure (\<lambda>(n, i, plan_len). plan_len - i)") auto

declare stripe.simps [simp del]

definition worker_count :: "nat \<Rightarrow> nat \<Rightarrow> nat" where
  "worker_count requested cpus = (if requested = 0 then max 1 (cpus div 2) else requested)"

text \<open>\<^verbatim>\<open>drain_tail\<close> over the chunks that the pipe delivers.\<close>

fun drain_chunks :: "nat \<Rightarrow> bytes list \<Rightarrow> bytes \<Rightarrow> bytes" where
  "drain_chunks n [] ring = ring"
| "drain_chunks n (buf # bufs) ring =
     (if buf = [] then ring
      else if length ring + length buf \<le> n then drain_chunks n bufs (ring @ buf)
      else let dropped = length ring + length buf - n in
        drain_chunks n bufs
          (if length ring \<le> dropped then drop (dropped - length ring) buf else drop dropped ring @ buf))"

definition drain_tail :: "nat \<Rightarrow> bytes list \<Rightarrow> bytes" where
  "drain_tail n bufs = drain_chunks n bufs []"

section \<open>Names of shards\<close>

lemma dec_digits_range: "b \<in> set (dec_digits n) \<Longrightarrow> 0x30 \<le> b \<and> b \<le> 0x39"
proof (induction n rule: dec_digits.induct)
  case (1 n)
  have d: "0x30 \<le> (of_nat (48 + d) :: u8) \<and> (of_nat (48 + d) :: u8) \<le> 0x39" if "d < 10" for d
    using that by (simp add: word_le_nat_alt unat_of_nat_small del: of_nat_add)
  show ?case using 1 d [of n] d [of "n mod 10"] by (subst (asm) dec_digits.simps) (auto split: if_splits)
qed

lemma digits_value64_append:
  "digits_value64 acc (xs @ ys) = Option.bind (digits_value64 acc xs) (\<lambda>a. digits_value64 a ys)"
  by (induction acc xs rule: digits_value64.induct) (simp_all add: Let_def)

lemma digits_value64_zeros: "digits_value64 0 (replicate k 0x30 @ xs) = digits_value64 0 xs"
  by (induction k) simp_all

lemma digits_value64_dec: "n < 2 ^ 64 \<Longrightarrow> digits_value64 0 (dec_digits n) = Some n"
proof (induction n rule: dec_digits.induct)
  case (1 n)
  have d: "0x30 \<le> (of_nat (48 + d) :: u8)" "(of_nat (48 + d) :: u8) \<le> 0x39" "unat (of_nat (48 + d) :: u8) = 48 + d" if "d < 10" for d
    using that by (simp_all add: word_le_nat_alt unat_of_nat_small del: of_nat_add)
  have step: "digits_value64 a [of_nat (48 + d)] = Some (10 * a + d)" if "d < 10" "10 * a + d < 2 ^ 64" for a d
    using that d [of d] by (simp add: Let_def del: of_nat_add)
  show ?case
  proof (cases "n < 10")
    case True
    then show ?thesis using step [of n 0] by (subst dec_digits.simps) (simp del: of_nat_add)
  next
    case False
    have "10 * (n div 10) + n mod 10 = n" by simp
    then show ?thesis
      using False 1 step [of "n mod 10" "n div 10"]
      by (subst dec_digits.simps) (simp add: digits_value64_append del: of_nat_add)
  qed
qed

lemma parse_dec4 [simp]: "parse_usize (dec4 n) = Some n"
proof -
  have ne: "dec4 n \<noteq> []" by (simp add: dec4_def Let_def)
  have "set (dec4 n) \<subseteq> {b. 0x30 \<le> b \<and> b \<le> 0x39}" by (auto simp: dec4_def Let_def dest: dec_digits_range)
  then have "0x30 \<le> hd (dec4 n)" using hd_in_set [OF ne] by auto
  then have plus: "hd (dec4 n) \<noteq> 0x2B" by (auto simp: word_le_nat_alt)
  have "unat n < 2 ^ 64" using unsigned_less [of n] by simp
  then have "digits_value64 0 (dec4 n) = Some (unat n)"
    by (simp add: dec4_def Let_def digits_value64_zeros digits_value64_dec)
  then show ?thesis using ne plus by (auto simp: parse_usize_def Let_def split: list.split)
qed

lemma dec4_ascii: "b \<in> set (dec4 n) \<Longrightarrow> b < 0x80"
  by (auto simp: dec4_def Let_def word_less_nat_alt word_le_nat_alt dest: dec_digits_range)

section \<open>Arguments of a unit\<close>

lemma inject_args_eq: "inject_args matching args = filter (\<lambda>a. a \<notin> set args) (remdups matching) @ args"
proof (induction matching)
  case (Cons a matching)
  have "inject_args (a # matching) args =
      (if a \<in> set (inject_args matching args) then inject_args matching args else a # inject_args matching args)"
    by (auto simp: inject_args_def list_ex_iff)
  then show ?case unfolding Cons by auto
qed (simp add: inject_args_def)

section \<open>Stripes\<close>

lemma set_stripe: "0 < n \<Longrightarrow> set (stripe n i len) = {j. i \<le> j \<and> j < len \<and> j mod n = i mod n}"
proof (induction n i len rule: stripe.induct)
  case (1 n i len)
  show ?case
  proof (cases "i < len")
    case True
    have IH: "set (stripe n (i + n) len) = {j. i + n \<le> j \<and> j < len \<and> j mod n = i mod n}" using 1 True by simp
    have "j = i \<or> i + n \<le> j" if j: "i \<le> j" "j mod n = i mod n" for j
    proof -
      obtain k where "j = i + n * k" using mod_eq_nat2E [OF j(2) [symmetric] j(1)] by blast
      then show ?thesis by (cases k) auto
    qed
    then have "insert i (set (stripe n (i + n) len)) = {j. i \<le> j \<and> j < len \<and> j mod n = i mod n}" using True IH by auto
    then show ?thesis using True 1(2) by (simp add: stripe.simps [of n i len])
  next
    case False
    then have "stripe n i len = []" by (subst stripe.simps) auto
    then show ?thesis using False by auto
  qed
qed

lemma distinct_stripe: "distinct (stripe n i len)"
proof (induction n i len rule: stripe.induct)
  case (1 n i len)
  show ?case
  proof (cases "i < len \<and> 0 < n")
    case True
    then have "i \<notin> set (stripe n (i + n) len)" using set_stripe [of n "i + n" len] by auto
    then show ?thesis using 1 True by (simp add: stripe.simps [of n i len])
  next
    case False
    then have "stripe n i len = []" by (subst stripe.simps) auto
    then show ?thesis by simp
  qed
qed

section \<open>Tails\<close>

lemma drain_chunks_last:
  "[] \<notin> set bufs \<Longrightarrow> ring = drop (length seen - n) seen \<Longrightarrow>
    drain_chunks n bufs ring = drop (length (seen @ concat bufs) - n) (seen @ concat bufs)"
proof (induction bufs arbitrary: ring seen)
  case (Cons buf bufs)
  have ne: "buf \<noteq> []" "[] \<notin> set bufs" using Cons.prems(1) by auto
  let ?k = "length ring + length buf - n"
  define ring' where "ring' = (if length ring + length buf \<le> n then ring @ buf
    else if length ring \<le> ?k then drop (?k - length ring) buf else drop ?k ring @ buf)"
  have "ring' = drop (length (seen @ buf) - n) (seen @ buf)"
    using Cons.prems(2) by (auto simp: ring'_def add.commute intro: arg_cong2 [of _ _ _ _ drop])
  from Cons.IH [OF ne(2) this] have "drain_chunks n bufs ring' = drop (length (seen @ concat (buf # bufs)) - n) (seen @ concat (buf # bufs))"
    by simp
  moreover have "drain_chunks n (buf # bufs) ring = drain_chunks n bufs ring'" using ne(1) by (simp add: ring'_def Let_def)
  ultimately show ?case by simp
qed simp

lemma drain_tail_last: "[] \<notin> set bufs \<Longrightarrow> drain_tail n bufs = drop (length (concat bufs) - n) (concat bufs)"
  using drain_chunks_last [of bufs "[]" "[]" n] by (simp add: drain_tail_def)

section \<open>Shards of a directory\<close>

lemma utf8_dec4 [simp]: "utf8_valid (dec4 n)"
  by (rule utf8_ascii) (auto simp: list_all_iff dest: dec4_ascii)

lemma shard_index_name:
  assumes "utf8_valid stem"
  shows "shard_index stem (partial_shard_for stem i) = Some i"
proof -
  have "utf8_valid (lit ''.partial.shard.'')" "utf8_valid (lit ''.s2db'')" by code_simp+
  then have "utf8_valid (partial_shard_for stem i)"
    using assms by (simp add: partial_shard_for_def utf8_append)
  then show ?thesis
    by (simp add: shard_index_def from_utf8_lossy_id)
      (simp add: partial_shard_for_def strip_prefix_def strip_suffix_def starts_with_def ends_with_def)
qed

lemma scan_mem: "(i, name) \<in> set (scan_partial_shards stem names) \<longleftrightarrow> name \<in> set names \<and> shard_index stem name = Some i"
  by (force simp: scan_partial_shards_def List.map_filter_def)

lemma fold_max_ge: "x \<in> set (i # xs) \<Longrightarrow> x \<le> fold max xs (i :: 'a :: linorder)"
  by (simp flip: Max.set_eq_fold)

lemma next_above:
  assumes "(i, name) \<in> set (scan_partial_shards stem names)" and "next_shard_index stem names \<noteq> 0"
  shows "i < next_shard_index stem names"
proof -
  obtain j js where js: "map fst (scan_partial_shards stem names) = j # js"
    using assms(1) by (cases "map fst (scan_partial_shards stem names)") auto
  have "i \<in> set (j # js)" using assms(1) unfolding js [symmetric] by force
  then have "i \<le> fold max js j" by (rule fold_max_ge)
  moreover have "next_shard_index stem names = fold max js j + 1" by (simp add: next_shard_index_def js)
  ultimately show ?thesis using assms(2) less_succ_iff [of "fold max js j" i] by (metis add.commute add.right_inverse)
qed

section \<open>The checkpoint round trip\<close>

text \<open>Shas without line breaks and outer white space; the ones in archives are hexadecimal.\<close>

definition sha_clean :: "unicode_tables \<Rightarrow> bytes \<Rightarrow> bool" where
  "sha_clean U s \<longleftrightarrow> utf8_valid s \<and> s \<noteq> [] \<and> 0x0A \<notin> set s \<and> 0x0D \<notin> set s \<and> trim U s = s"

lemma split_char_ne [simp]: "split_char c s \<noteq> []"
  by (induction s) (auto split: list.split)

lemma split_char_line: "c \<notin> set s \<Longrightarrow> split_char c (s @ c # t) = s # split_char c t"
  by (induction s) auto

lemma str_lines_line:
  assumes "0x0A \<notin> set s" and "0x0D \<notin> set s"
  shows "str_lines (s @ 0x0A # t) = s # str_lines t"
proof -
  have "\<not> ends_with s [0x0D]" using assms(2) by (cases "rev s") (auto simp: ends_with_def starts_with_def)
  then have "strip_suffix s [0x0D] = None" by (simp add: strip_suffix_def)
  then show ?thesis using assms(1) by (simp add: str_lines_def split_char_line Let_def)
qed

lemma read_written_shas: "list_all (sha_clean U) shas \<Longrightarrow> read_shas U (write_partial_shas shas) = shas"
proof (induction shas)
  case Nil
  show ?case by (simp add: read_shas_def write_partial_shas_def str_lines_def)
next
  case (Cons s shas)
  have s: "s \<noteq> []" "0x0A \<notin> set s" "0x0D \<notin> set s" "trim U s = s" using Cons.prems by (simp_all add: sha_clean_def)
  have "str_lines (write_partial_shas (s # shas)) = s # str_lines (write_partial_shas shas)"
    using str_lines_line [OF s(2,3)] by (simp add: write_partial_shas_def)
  then show ?case using Cons s by (simp add: read_shas_def)
qed

section \<open>The plan\<close>

definition routed :: "bytes list \<Rightarrow> kzip_unit \<Rightarrow> bool" where
  "routed want u \<longleftrightarrow> (case route_language (unit_language u) of None \<Rightarrow> False | Some k \<Rightarrow> lang_label k \<in> set want)"

lemma build_plan_eq:
  "build_plan want accept us =
    (map (\<lambda>u. (the (route_language (unit_language u)), u)) (filter (\<lambda>u. routed want u \<and> accepted accept u) us),
     length (filter (\<lambda>u. \<not> routed want u) us), length (filter (\<lambda>u. routed want u \<and> \<not> accepted accept u) us))"
  by (induction us) (auto simp: routed_def accepted_def Let_def split: option.split)

lemma plan_seed_mem: "p \<in> set (plan_seed plan) \<longleftrightarrow> p = [] \<or> (\<exists>(k, u) \<in> set plan. p \<in> set (candidate_paths (u_cu u)))"
  by (auto simp: plan_seed_def set_sort_dedup)

end
