(* ===== verification/S2_Stream.thy ===== *)
theory S2_Stream
  imports S2_Decode
begin

text \<open>
  The stream as a sequence of entries: decoding a sequence of frames, tolerated errors, the rows the
  end of a stream adds to the builder, and the cross references that the entries state, in whatever
  order they arrive.
\<close>

section \<open>Frames\<close>

definition run_entries :: "(bytes \<Rightarrow> u64) \<Rightarrow> unicode_tables \<Rightarrow> entry list \<Rightarrow> ingest \<Rightarrow> ingest" where
  "run_entries H U es cx = fold (\<lambda>e cx. process_entry H U e (count_entry cx)) es cx"

definition frames :: "entry list \<Rightarrow> bytes" where
  "frames es = concat (map enc_frame es)"

definition framed :: "entry \<Rightarrow> bool" where
  "framed e \<longleftrightarrow> entry_ok e \<and> length (enc_entry e) \<le> MAX_ENTRY_LEN"

lemma ingest_loop_frame:
  assumes "framed e"
  shows "ingest_loop H U tol (enc_frame e @ rest) cx = ingest_loop H U tol rest (process_entry H U e (count_entry cx))"
proof -
  have small: "length (enc_entry e) < 2 ^ 63" using assms by (simp add: framed_def MAX_ENTRY_LEN_def)
  then have "stream_varint (enc_frame e @ rest) = Inr (Some (of_nat (length (enc_entry e)), enc_entry e @ rest))"
    by (simp add: enc_frame_def stream_varint_pb)
  moreover have "unat (of_nat (length (enc_entry e)) :: u64) = length (enc_entry e)"
    by (rule unat_of_nat_small) (use small in simp)
  ultimately show ?thesis
    using parse_enc_entry [OF _ small] assms
    by (simp add: ingest_loop.simps [of H U tol "enc_frame e @ rest"] framed_def Let_def)
qed

lemma ingest_loop_frames:
  "list_all framed es \<Longrightarrow> ingest_loop H U tol (frames es @ rest) cx = ingest_loop H U tol rest (run_entries H U es cx)"
  by (induction es arbitrary: cx) (simp_all add: frames_def run_entries_def ingest_loop_frame)

lemma ingest_loop_end: "ingest_loop H U tol [] cx = (None, cx)"
  by (simp add: ingest_loop.simps [of H U tol "[]"] stream_varint_def numeral_eq_Suc Let_def)

lemma ingest_frames:
  "list_all framed es \<Longrightarrow>
    ingest_tolerant H U tol (frames es) b a =
      (let cx = ingest_finish H U (run_entries H U es (ingest_start b a)) in (Inr (in_stats cx), in_builder cx, in_files cx))"
  using ingest_loop_frames [of es H U tol "[]"] by (simp add: ingest_tolerant_def ingest_loop_end)

section \<open>Tolerated errors\<close>

lemma ingest_loop_tolerant: "ingest_loop H U True s cx = (None, snd (ingest_loop H U False s cx))"
proof (induction s arbitrary: cx rule: length_induct)
  case (1 s)
  have "ingest_loop H U True (drop n r) cx' = (None, snd (ingest_loop H U False (drop n r) cx'))"
    if "stream_varint s = Inr (Some (v, r))" for v r n cx'
    using 1 stream_varint_shorter [OF that] by simp
  then show ?case
    by (simp add: ingest_loop.simps [of H U True s cx] ingest_loop.simps [of H U False s cx] Let_def
        split: sum.split option.split)
qed

section \<open>Rows added at the end of a stream\<close>

lemma fold_xrefs:
  "fold (\<lambda>(s, r, f, off). add_xref (g s) r f off) rows b =
    b\<lparr> b_xrefs := b_xrefs b @ map (\<lambda>(s, r, f, off). (g s, r, f, off)) rows \<rparr>"
  by (induction rows arbitrary: b) (auto simp: add_xref_def)

lemma fold_inherits:
  "fold (\<lambda>(c, p). add_inherit (g c) (g p)) rows b =
    b\<lparr> b_inherits := b_inherits b @ map (\<lambda>(c, p). (g c, g p)) rows \<rparr>"
  by (induction rows arbitrary: b) (auto simp: add_inherit_def)

lemma fold_childof:
  "fold (\<lambda>(c, p). add_childof (g c) (g p)) rows b =
    b\<lparr> b_childof := b_childof b @ map (\<lambda>(c, p). (g p, g c)) rows \<rparr>"
  by (induction rows arbitrary: b) (auto simp: add_childof_def)

lemma fold_calls:
  "fold (\<lambda>(c, d, r). add_call (g c) (g d) r) rows b =
    b\<lparr> b_calls := b_calls b @ map (\<lambda>(c, d, r). (g c, g d, r)) rows \<rparr>"
  by (induction rows arbitrary: b) (auto simp: add_call_def)

lemma fold_aliases:
  "fold (\<lambda>(s, n). add_alias s n) rows b = b\<lparr> b_aliases := b_aliases b @ filter (\<lambda>(s, n). n \<noteq> []) rows \<rparr>"
  by (induction rows arbitrary: b) (auto simp: add_alias_def)

lemma fold_types:
  "fold (\<lambda>(k, t). add_type (g k) t) rows b =
    b\<lparr> b_typed := b_typed b @ map (\<lambda>(k, t). (g k, t)) (filter (\<lambda>(k, t). t \<noteq> []) rows) \<rparr>"
  by (induction rows arbitrary: b) (auto simp: add_type_def)

lemma fold_sigs:
  "fold (\<lambda>(k, t). add_sig (g k) t) rows b =
    b\<lparr> b_sig := b_sig b @ map (\<lambda>(k, t). (g k, t)) (filter (\<lambda>(k, t). t \<noteq> []) rows) \<rparr>"
  by (induction rows arbitrary: b) (auto simp: add_sig_def)

text \<open>Naming symbols changes the symbol map only.\<close>

definition rename_all :: "unicode_tables \<Rightarrow> (u64 \<times> bytes) list \<Rightarrow> (u64 \<times> sym_meta) list \<Rightarrow> (u64 \<times> sym_meta) list" where
  "rename_all U names m =
     fold (\<lambda>(s, n) m. if n = [] then m
                      else hm_entry s (\<lambda>(k, l, cur). (k, l, if prefers_name U cur n then n else cur)) (kind_UNK, lang_UNK, n) m)
       names m"

lemma fold_names:
  "fold (\<lambda>(k, n). set_sym_name U (g k) n) rows b =
    b\<lparr> b_syms := rename_all U (map (\<lambda>(k, n). (g k, n)) rows) (b_syms b) \<rparr>"
  by (induction rows arbitrary: b) (auto simp: set_sym_name_def rename_all_def)

lemma rename_all_append: "rename_all U (xs @ ys) m = rename_all U ys (rename_all U xs m)"
  by (simp add: rename_all_def)

lemma ingest_finish_builder:
  fixes H U cx
  defines "g \<equiv> remap (bridge_of H (st_bridges cx))"
  defines "als \<equiv> map (\<lambda>(s, n). (g s, n)) (st_aliases cx)"
  shows "in_builder (ingest_finish H U cx) = (in_builder cx)
    \<lparr> b_xrefs := b_xrefs (in_builder cx) @ map (\<lambda>(s, r, f, off). (g s, r, f, off)) (st_xrefs cx),
      b_syms := rename_all U (best_names U als @ map (\<lambda>(k, n). (g (H k), n)) (rendered_parents U cx)) (b_syms (in_builder cx)),
      b_inherits := b_inherits (in_builder cx) @ map (\<lambda>(c, p). (g c, g p)) (st_inherits cx),
      b_aliases := b_aliases (in_builder cx) @ filter (\<lambda>(s, n). n \<noteq> []) als,
      b_calls := b_calls (in_builder cx) @ map (\<lambda>(c, d, r). (g c, g d, r)) (resolved_calls cx),
      b_typed := b_typed (in_builder cx) @ map (\<lambda>(k, t). (g (H k), t)) (filter (\<lambda>(k, t). t \<noteq> []) (rendered_types U cx)),
      b_childof := b_childof (in_builder cx) @ map (\<lambda>(c, p). (g p, g c)) (st_childof cx),
      b_sig := b_sig (in_builder cx) @ map (\<lambda>(k, t). (g (H k), t)) (filter (\<lambda>(k, t). t \<noteq> []) (rendered_sigs U cx)) \<rparr>"
  unfolding ingest_finish_def Let_def emit_graph_def emit_rows_def g_def [symmetric] als_def [symmetric]
    fold_xrefs fold_aliases fold_names fold_inherits fold_childof fold_calls fold_types fold_sigs
  by (simp add: rename_all_append)

end
