(* ===== verification/S2_Facts.thy ===== *)
theory S2_Facts
  imports S2_Stream
begin

text \<open>
  The cross references that a sequence of entries states, whatever the order of the entries: the
  edges of an anchor wait in its accumulator until the stream has both declared the anchor and given
  its start.
\<close>

section \<open>What the entries state\<close>

definition entry_key :: "entry \<Rightarrow> bytes" where
  "entry_key e = to_symbol_string (e_source e)"

definition xref_entry :: "entry \<Rightarrow> u8 \<Rightarrow> bool" where
  "xref_entry e r \<longleftrightarrow> \<not> vname_empty (e_source e) \<and> e_edge_kind e \<noteq> [] \<and> edge_to_role (e_edge_kind e) = Some r"

definition anchor_entry :: "entry \<Rightarrow> bool" where
  "anchor_entry e \<longleftrightarrow> \<not> vname_empty (e_source e) \<and> e_edge_kind e = [] \<and> e_fact_name e = lit ''/kythe/node/kind'' \<and>
     e_fact_value e = lit ''anchor''"

definition start_entry :: "entry \<Rightarrow> u32 \<Rightarrow> bool" where
  "start_entry e v \<longleftrightarrow> \<not> vname_empty (e_source e) \<and> e_edge_kind e = [] \<and> e_fact_name e = lit ''/kythe/loc/start'' \<and>
     parse_ascii_u32 (e_fact_value e) = Some v"

definition anchored :: "entry set \<Rightarrow> bytes \<Rightarrow> bool" where
  "anchored S k \<longleftrightarrow> (\<exists>e \<in> S. anchor_entry e \<and> entry_key e = k)"

definition starts :: "entry set \<Rightarrow> bytes \<Rightarrow> u32 \<Rightarrow> bool" where
  "starts S k v \<longleftrightarrow> (\<exists>e \<in> S. start_entry e v \<and> entry_key e = k)"

definition edges_of :: "entry set \<Rightarrow> bytes \<Rightarrow> (vname \<times> u8) set" where
  "edges_of S k = {(e_target e, r) | e r. e \<in> S \<and> xref_entry e r \<and> entry_key e = k}"

text \<open>The stated cross references: symbol, role, path and offset.\<close>

definition xref_facts :: "(bytes \<Rightarrow> u64) \<Rightarrow> entry set \<Rightarrow> (u64 \<times> u8 \<times> bytes \<times> u32) set" where
  "xref_facts H S = {(H (to_symbol_string (e_target e)), r, vn_path (e_source e), v) | e r v.
     e \<in> S \<and> xref_entry e r \<and> \<not> vname_empty (e_target e) \<and> anchored S (entry_key e) \<and> starts S (entry_key e) v}"

text \<open>Entries about one node agree on its path and on its start.\<close>

definition coherent :: "entry set \<Rightarrow> bool" where
  "coherent S \<longleftrightarrow>
     (\<forall>e \<in> S. \<forall>e' \<in> S. entry_key e = entry_key e' \<longrightarrow> vn_path (e_source e) = vn_path (e_source e')) \<and>
     (\<forall>k v w. starts S k v \<longrightarrow> starts S k w \<longrightarrow> v = w)"

section \<open>The view of the state that matters for cross references\<close>

definition core :: "anchor_accum \<Rightarrow> bool \<times> u32 option \<times> bytes \<times> (vname \<times> u8) list" where
  "core a = (an_is_anchor a, an_start a, an_path a, an_pending a)"

definition core_at :: "bytes \<Rightarrow> ingest \<Rightarrow> bool \<times> u32 option \<times> bytes \<times> (vname \<times> u8) list" where
  "core_at k cx = core (anchor_at k cx)"

definition flushed :: "(bytes \<Rightarrow> u64) \<Rightarrow> u32 \<Rightarrow> u32 \<Rightarrow> (vname \<times> u8) list \<Rightarrow> xref_row list" where
  "flushed H f v pend = map (\<lambda>(t, r). (H (to_symbol_string t), r, f, v)) (filter (\<lambda>(t, _). \<not> vname_empty t) pend)"

text \<open>A step that brings the accumulator of \<open>key\<close> to \<open>c\<close> and flushes it when it is ready.\<close>

definition settled ::
    "(bytes \<Rightarrow> u64) \<Rightarrow> bytes \<Rightarrow> bool \<times> u32 option \<times> bytes \<times> (vname \<times> u8) list \<Rightarrow> ingest \<Rightarrow> ingest \<Rightarrow> bool" where
  "settled H key c cx cx' \<longleftrightarrow> (\<forall>k. k \<noteq> key \<longrightarrow> core_at k cx' = core_at k cx) \<and>
     (case c of
        (True, Some v, p, pend) \<Rightarrow>
          core_at key cx' = (True, Some v, p, []) \<and> in_files cx' = snd (intern p (in_files cx)) \<and>
          st_xrefs cx' = st_xrefs cx @ flushed H (fst (intern p (in_files cx))) v pend
      | _ \<Rightarrow> core_at key cx' = c \<and> in_files cx' = in_files cx \<and> st_xrefs cx' = st_xrefs cx)"

text \<open>A step that leaves cross references and accumulators alone.\<close>

definition quiet :: "ingest \<Rightarrow> ingest \<Rightarrow> bool" where
  "quiet cx cx' \<longleftrightarrow> (\<forall>k. core_at k cx' = core_at k cx) \<and> st_xrefs cx' = st_xrefs cx \<and>
     (in_files cx' = in_files cx \<or> (\<exists>k. in_files cx' = snd (intern (an_path (anchor_at k cx)) (in_files cx))))"

lemma anchor_at_put: "anchor_at k (put_anchor key (a, cx)) = (if k = key then a else anchor_at k cx)"
  by (simp add: anchor_at_def put_anchor_def split: option.split)

lemma put_anchor_view [simp]:
  "st_xrefs (put_anchor key r) = st_xrefs (snd r)" "in_files (put_anchor key r) = in_files (snd r)"
  by (simp_all add: put_anchor_def split_beta)

lemma emit_view [simp]:
  "st_anchors (emit_xref_resolved H U t r f off cx) = st_anchors cx"
  "in_files (emit_xref_resolved H U t r f off cx) = in_files cx"
  "st_xrefs (emit_xref_resolved H U t r f off cx) = st_xrefs cx @ flushed H f off [(t, r)]"
  by (simp_all add: emit_xref_resolved_def Let_def flushed_def)

lemma note_view [simp]:
  "st_anchors (note_call_site f s t r cx) = st_anchors cx" "in_files (note_call_site f s t r cx) = in_files cx"
  "st_xrefs (note_call_site f s t r cx) = st_xrefs cx"
  by (simp_all add: note_call_site_def)

lemma intern_file_view [simp]:
  "st_anchors (snd (intern_file p cx)) = st_anchors cx" "st_xrefs (snd (intern_file p cx)) = st_xrefs cx"
  "in_files (snd (intern_file p cx)) = snd (intern p (in_files cx))"
  "fst (intern_file p cx) = fst (intern p (in_files cx))"
  by (simp_all add: intern_file_def split_beta)

lemma flushed_Cons: "flushed H f v (x # pend) = flushed H f v [x] @ flushed H f v pend"
  by (simp add: flushed_def)

lemma flush_pending_view:
  "st_anchors (snd (flush_pending H U f v pend a cx)) = st_anchors cx"
  "in_files (snd (flush_pending H U f v pend a cx)) = in_files cx"
  "st_xrefs (snd (flush_pending H U f v pend a cx)) = st_xrefs cx @ flushed H f v pend"
  "core (fst (flush_pending H U f v pend a cx)) = core a"
proof (induction pend arbitrary: a cx)
  case (Cons x pend)
  case 1 show ?case using Cons.IH(1) by (cases x) (auto simp: Let_def split: option.split)
  case 2 show ?case using Cons.IH(2) by (cases x) (auto simp: Let_def split: option.split)
  case 3 show ?case using Cons.IH(3) flushed_Cons [of H f v x pend] by (cases x) (auto simp: Let_def split: option.split)
  case 4 show ?case using Cons.IH(4) by (cases x) (auto simp: Let_def core_def split: option.split)
qed (simp_all add: flushed_def)

lemma anchor_at_cong: "st_anchors cx' = st_anchors cx \<Longrightarrow> anchor_at k cx' = anchor_at k cx"
  by (simp add: anchor_at_def)

lemma flush_ready_settled: "settled H key (core a) cx (put_anchor key (flush_ready H U a cx))"
proof (cases "an_is_anchor a \<and> an_start a \<noteq> None")
  case True
  then obtain v where v: "an_start a = Some v" by auto
  let ?cx1 = "snd (intern_file (an_path a) cx)" and ?f = "fst (intern (an_path a) (in_files cx))"
  let ?r = "flush_pending H U ?f v (an_pending a) (a\<lparr> an_pending := [] \<rparr>) ?cx1"
  have r: "flush_ready H U a cx =
      (fst ?r, (snd ?r)\<lparr> in_stats := (in_stats (snd ?r))\<lparr> n_anchors_flushed := n_anchors_flushed (in_stats (snd ?r)) + 1 \<rparr> \<rparr>)"
    using True v by (simp add: flush_ready_def split_beta Let_def)
  note view = flush_pending_view [of H U ?f v "an_pending a" "a\<lparr> an_pending := [] \<rparr>" ?cx1]
  have "anchor_at k (snd ?r) = anchor_at k cx" for k by (rule anchor_at_cong) (simp add: view)
  then have "anchor_at k ((snd ?r)\<lparr> in_stats := n \<rparr>) = anchor_at k cx" for k n by (simp add: anchor_at_def)
  then show ?thesis
    using True v view by (simp add: settled_def r core_at_def anchor_at_put core_def)
next
  case False
  then have "flush_ready H U a cx = (a, cx)" by (auto simp: flush_ready_def split: option.split)
  with False show ?thesis
    by (auto simp: settled_def core_at_def anchor_at_put core_def split: bool.split option.split)
qed

section \<open>Which entries act on accumulators\<close>

lemma lit_inject [simp]: "lit s = lit t \<longleftrightarrow> s = t"
proof -
  have "inj (of_char :: char \<Rightarrow> u8)"
  proof (rule injI)
    fix c d :: char
    assume "of_char c = (of_char d :: u8)"
    then have "(of_nat (of_char c) :: u8) = of_nat (of_char d)" by (simp add: of_nat_of_char)
    then have "unat (of_nat (of_char c) :: u8) = unat (of_nat (of_char d) :: u8)" by simp
    moreover have "unat (of_nat (of_char x) :: u8) = of_char x" for x by (rule unat_of_nat_small) simp
    ultimately have "(of_char c :: nat) = of_char d" by simp
    then show "c = d" by simp
  qed
  then show ?thesis by (simp add: lit_def inj_map_eq_map)
qed

lemma edge_base_typed: "edge_base (lit ''/kythe/edge/typed'') = lit ''/kythe/edge/typed''"
  by (simp add: edge_base_def split_next_def lit_def starts_with_def)

lemma edge_base_param: "edge_base (lit ''/kythe/edge/param.'' @ r) = lit ''/kythe/edge/param''"
  by (simp add: edge_base_def split_next_def lit_def starts_with_def)

lemma edge_role_base:
  "edge_to_role kind = Some r \<Longrightarrow> edge_base kind \<in> {lit ''/kythe/edge/defines/binding'', lit ''/kythe/edge/defines'',
     lit ''/kythe/edge/ref'', lit ''/kythe/edge/ref/call'', lit ''/kythe/edge/ref/writes'', lit ''/kythe/edge/ref/imports''}"
  by (auto simp: edge_to_role_def Let_def split: if_splits)

lemma edge_role_only:
  assumes "edge_to_role kind = Some r"
  shows "\<not> is_completes_edge kind" "\<not> is_named_edge kind" "\<not> is_inherit_edge kind" "\<not> is_childof_edge kind"
    "kind \<noteq> lit ''/kythe/edge/typed''" "parse_param_ordinal kind = None"
proof -
  note base = edge_role_base [OF assms]
  show "\<not> is_completes_edge kind" "\<not> is_named_edge kind" "\<not> is_inherit_edge kind" "\<not> is_childof_edge kind"
    using base by (auto simp: is_completes_edge_def is_named_edge_def is_inherit_edge_def is_childof_edge_def)
  show "kind \<noteq> lit ''/kythe/edge/typed''" using base edge_base_typed by auto
  show "parse_param_ordinal kind = None"
  proof (rule ccontr)
    assume "parse_param_ordinal kind \<noteq> None"
    then obtain s where "kind = lit ''/kythe/edge/param.'' @ s"
      by (auto simp: parse_param_ordinal_def strip_prefix_def starts_with_append split: if_splits)
    then show False using base edge_base_param [of s] by auto
  qed
qed

lemma process_xref_entry:
  "xref_entry e r \<Longrightarrow>
    process_entry H U e cx = xref_edge H U (entry_key e) (vn_path (e_source e)) (e_target e) r cx"
  by (simp add: xref_entry_def process_entry_def process_edge_def Let_def edge_role_only entry_key_def)

lemma process_anchor_entry:
  "anchor_entry e \<Longrightarrow> process_entry H U e cx = put_anchor (entry_key e)
    (flush_ready H U (seed_path (vn_path (e_source e)) ((anchor_at (entry_key e) cx)\<lparr> an_is_anchor := True \<rparr>)) cx)"
  by (simp add: anchor_entry_def process_entry_def process_fact_def Let_def node_fact_def type_fact_def
      is_type_node_kind_def entry_key_def utf8_lit)

lemma process_start_entry:
  "start_entry e v \<Longrightarrow> process_entry H U e cx = put_anchor (entry_key e)
    (flush_ready H U ((seed_path (vn_path (e_source e)) (anchor_at (entry_key e) cx))\<lparr> an_start := Some v \<rparr>) cx)"
  by (simp add: start_entry_def process_entry_def process_fact_def Let_def entry_key_def)

lemma quiet_refl [simp]: "quiet cx cx"
  by (simp add: quiet_def)

lemma quiet_same:
  "st_anchors cx' = st_anchors cx \<Longrightarrow> st_xrefs cx' = st_xrefs cx \<Longrightarrow> in_files cx' = in_files cx \<Longrightarrow> quiet cx cx'"
  by (simp add: quiet_def core_at_def anchor_at_def)

lemma end_fact_quiet: "quiet cx (end_fact k v cx)"
proof -
  let ?a = "(anchor_at k cx)\<lparr> an_end := Some v \<rparr>"
  have same: "core_at j (put_anchor k (?a, cx')) = core_at j cx" if "st_anchors cx' = st_anchors cx" for j cx'
    using anchor_at_cong [OF that] by (simp add: core_at_def anchor_at_put core_def)
  have "end_fact k v cx = put_anchor k (?a, cx) \<or>
      (\<exists>s d. end_fact k v cx = put_anchor k (?a, (snd (intern_file (an_path (anchor_at k cx)) cx))
         \<lparr> st_bodies := st_bodies (snd (intern_file (an_path (anchor_at k cx)) cx)) @ [(fst (intern_file (an_path (anchor_at k cx)) cx), s, v, d)] \<rparr>))"
    by (auto simp: end_fact_def Let_def split_beta split: option.split bool.split)
  then show ?thesis
    using same by (auto simp: quiet_def)
qed

lemma fact_view:
  "st_anchors (code_fact H U k v cx) = st_anchors cx" "st_xrefs (code_fact H U k v cx) = st_xrefs cx"
  "in_files (code_fact H U k v cx) = in_files cx"
  "st_anchors (type_fact src k v cx) = st_anchors cx" "st_xrefs (type_fact src k v cx) = st_xrefs cx"
  "in_files (type_fact src k v cx) = in_files cx"
  "v \<noteq> lit ''anchor'' \<Longrightarrow> st_anchors (node_fact H U src k v cx) = st_anchors cx"
  "v \<noteq> lit ''anchor'' \<Longrightarrow> st_xrefs (node_fact H U src k v cx) = st_xrefs cx"
  "v \<noteq> lit ''anchor'' \<Longrightarrow> in_files (node_fact H U src k v cx) = in_files cx"
  by (simp_all add: code_fact_def type_fact_def node_fact_def Let_def split: option.split)

lemma process_quiet:
  assumes "\<And>r. \<not> xref_entry e r" and "\<not> anchor_entry e" and "\<And>v. \<not> start_entry e v"
  shows "quiet cx (process_entry H U e cx)"
proof (cases "vname_empty (e_source e)")
  case True
  then show ?thesis by (simp add: process_entry_def)
next
  case False
  show ?thesis
  proof (cases "e_edge_kind e = []")
    case True
    have val: "(if utf8_valid (e_fact_value e) then e_fact_value e else []) \<noteq> lit ''anchor''"
      if "e_fact_name e = lit ''/kythe/node/kind''"
      using assms(2) False True that by (auto simp: anchor_entry_def lit_def)
    have "parse_ascii_u32 (e_fact_value e) = None" if "e_fact_name e = lit ''/kythe/loc/start''"
      using assms(3) False True that by (auto simp: start_entry_def)
    then show ?thesis
      using False True val
      by (simp add: process_entry_def process_fact_def Let_def end_fact_quiet quiet_same fact_view split: option.split)
  next
    case Edge: False
    have "edge_to_role (e_edge_kind e) = None" using assms(1) False Edge by (auto simp: xref_entry_def)
    then have "process_entry H U e cx = process_edge H U e (entry_key e) cx" and
      view: "st_anchors (process_edge H U e (entry_key e) cx) = st_anchors cx"
      "st_xrefs (process_edge H U e (entry_key e) cx) = st_xrefs cx"
      "in_files (process_edge H U e (entry_key e) cx) = in_files cx"
      using False Edge
      by (simp_all add: process_entry_def process_edge_def Let_def named_edge_def inherit_edge_def entry_key_def
          split: option.split)
    then show ?thesis by (simp add: quiet_same)
  qed
qed

lemma xref_edge_settled:
  fixes cx key p
  defines "a \<equiv> seed_path p (anchor_at key cx)"
  assumes "an_is_anchor a \<Longrightarrow> an_start a \<noteq> None \<Longrightarrow> an_pending a = []"
  shows "settled H key (an_is_anchor a, an_start a, an_path a, an_pending a @ [(t, r)]) cx (xref_edge H U key p t r cx)"
proof -
  let ?b = "if r = role_DEF then a\<lparr> an_body_def_sym := Some (H (to_symbol_string t)) \<rparr> else a"
  have b: "an_is_anchor ?b = an_is_anchor a" "an_start ?b = an_start a" "an_path ?b = an_path a" "an_pending ?b = an_pending a"
    "an_end ?b = an_end a" by simp_all
  show ?thesis
  proof (cases "an_is_anchor a \<and> an_start a \<noteq> None")
    case True
    then obtain v where v: "an_start a = Some v" by auto
    let ?f = "fst (intern (an_path a) (in_files cx))"
    let ?cx2 = "note_call_site ?f v (H (to_symbol_string t)) r
      (emit_xref_resolved H U t r ?f v (snd (intern_file (an_path a) cx)))"
    define bs where "bs = (if r = role_DEF then
        (case an_end a of Some e \<Rightarrow> st_bodies ?cx2 @ [(?f, v, e, H (to_symbol_string t))] | None \<Rightarrow> st_bodies ?cx2)
      else st_bodies ?cx2)"
    have x: "xref_edge H U key p t r cx = put_anchor key (?b, ?cx2\<lparr> st_bodies := bs \<rparr>)"
      using True v unfolding xref_edge_def Let_def a_def [symmetric] bs_def
      by (cases "r = role_DEF"; cases "an_end a") (simp_all add: split_beta)
    have "anchor_at k (?cx2\<lparr> st_bodies := bs \<rparr>) = anchor_at k cx" for k by (rule anchor_at_cong) simp
    then show ?thesis
      using True v assms(2) by (simp add: settled_def x core_at_def anchor_at_put core_def)
  next
    case False
    then have "xref_edge H U key p t r cx = put_anchor key (?b\<lparr> an_pending := an_pending a @ [(t, r)] \<rparr>, cx)"
      unfolding xref_edge_def Let_def a_def [symmetric] by (auto simp: split: option.split)
    then show ?thesis
      using False by (auto simp: settled_def core_at_def anchor_at_put core_def split: bool.split option.split)
  qed
qed

section \<open>The invariant\<close>

text \<open>The rows of the state with their paths.\<close>

definition resolved :: "ingest \<Rightarrow> (u64 \<times> u8 \<times> bytes \<times> u32) set" where
  "resolved cx = {(s, r, p, v). \<exists>f. (s, r, f, v) \<in> set (st_xrefs cx) \<and> id_of (in_files cx) p = Some f}"

definition ready :: "bool \<times> u32 option \<times> bytes \<times> (vname \<times> u8) list \<Rightarrow> bool" where
  "ready c \<longleftrightarrow> fst c \<and> fst (snd c) \<noteq> None"

definition relevant :: "entry \<Rightarrow> bool" where
  "relevant e \<longleftrightarrow> anchor_entry e \<or> (\<exists>v. start_entry e v) \<or> (\<exists>r. xref_entry e r)"

definition tracks :: "(bytes \<Rightarrow> u64) \<Rightarrow> entry set \<Rightarrow> ingest \<Rightarrow> bool" where
  "tracks H S cx \<longleftrightarrow>
     (\<forall>k. fst (core_at k cx) = anchored S k) \<and>
     (\<forall>k v. fst (snd (core_at k cx)) = Some v \<longleftrightarrow> starts S k v) \<and>
     (\<forall>e \<in> S. relevant e \<longrightarrow> fst (snd (snd (core_at (entry_key e) cx))) = vn_path (e_source e)) \<and>
     (\<forall>k. (\<forall>e \<in> S. relevant e \<longrightarrow> entry_key e \<noteq> k) \<longrightarrow> fst (snd (snd (core_at k cx))) = []) \<and>
     (\<forall>k. set (snd (snd (snd (core_at k cx)))) = (if ready (core_at k cx) then {} else edges_of S k)) \<and>
     alloc_ok (in_files cx) \<and>
     (\<forall>(s, r, f, v) \<in> set (st_xrefs cx). \<exists>p. id_of (in_files cx) p = Some f) \<and>
     resolved cx = xref_facts H S"

text \<open>Adding rows of one file to the state.\<close>

lemma resolved_step:
  assumes "alloc_ok (in_files cx')" and "extends (in_files cx) (in_files cx')"
    and "\<forall>(s, r, f, v) \<in> set (st_xrefs cx). \<exists>p. id_of (in_files cx) p = Some f"
    and "st_xrefs cx' = st_xrefs cx @ rows" and "\<forall>(s, r, f, v) \<in> set rows. id_of (in_files cx') p = Some f"
  shows "resolved cx' = resolved cx \<union> {(s, r, p, v) | s r f v. (s, r, f, v) \<in> set rows}"
    and "\<forall>(s, r, f, v) \<in> set (st_xrefs cx'). \<exists>p. id_of (in_files cx') p = Some f"
proof -
  have inj: "q = q'" if "id_of (in_files cx') q = Some f" "id_of (in_files cx') q' = Some f" for q q' f
    using assms(1) that by (simp add: alloc_ok_def)
  have old: "id_of (in_files cx') q = Some f \<longleftrightarrow> id_of (in_files cx) q = Some f"
    if "(s, r, f, v) \<in> set (st_xrefs cx)" for s r f v q
  proof -
    obtain q' where "id_of (in_files cx) q' = Some f" using assms(3) \<open>(s, r, f, v) \<in> set (st_xrefs cx)\<close> by blast
    then show ?thesis using assms(2) inj by (metis extends_def)
  qed
  show "resolved cx' = resolved cx \<union> {(s, r, p, v) | s r f v. (s, r, f, v) \<in> set rows}"
  proof (intro set_eqI iffI)
    fix x
    assume "x \<in> resolved cx'"
    then obtain s r q v f where x: "x = (s, r, q, v)" and f: "(s, r, f, v) \<in> set (st_xrefs cx')" "id_of (in_files cx') q = Some f"
      by (auto simp: resolved_def)
    show "x \<in> resolved cx \<union> {(s, r, p, v) | s r f v. (s, r, f, v) \<in> set rows}"
    proof (cases "(s, r, f, v) \<in> set (st_xrefs cx)")
      case True
      then show ?thesis using old [OF True] f x by (auto simp: resolved_def)
    next
      case False
      then have "(s, r, f, v) \<in> set rows" using f(1) assms(4) by simp
      moreover from this have "id_of (in_files cx') p = Some f" using assms(5) by blast
      ultimately show ?thesis using inj [OF f(2)] x by blast
    qed
  next
    fix x
    assume "x \<in> resolved cx \<union> {(s, r, p, v) | s r f v. (s, r, f, v) \<in> set rows}"
    then show "x \<in> resolved cx'"
    proof
      assume "x \<in> resolved cx"
      then obtain s r q v f where "x = (s, r, q, v)" "(s, r, f, v) \<in> set (st_xrefs cx)" "id_of (in_files cx) q = Some f"
        by (auto simp: resolved_def)
      then show ?thesis using old [of s r f v q] assms(4) by (auto simp: resolved_def)
    next
      assume "x \<in> {(s, r, p, v) | s r f v. (s, r, f, v) \<in> set rows}"
      then show ?thesis using assms(4,5) by (auto simp: resolved_def)
    qed
  qed
  show "\<forall>(s, r, f, v) \<in> set (st_xrefs cx'). \<exists>p. id_of (in_files cx') p = Some f"
    using assms(2-5) unfolding extends_def by fastforce
qed

lemma coherent_path:
  "coherent S \<Longrightarrow> e \<in> S \<Longrightarrow> e' \<in> S \<Longrightarrow> entry_key e = entry_key e' \<Longrightarrow> vn_path (e_source e) = vn_path (e_source e')"
  unfolding coherent_def by blast

lemma coherent_start: "coherent S \<Longrightarrow> starts S k v \<Longrightarrow> starts S k w \<Longrightarrow> v = w"
  unfolding coherent_def by blast

lemma facts_mono: "S \<subseteq> T \<Longrightarrow> xref_facts H S \<subseteq> xref_facts H T"
  unfolding xref_facts_def anchored_def starts_def by blast

lemma key_other:
  "k \<noteq> entry_key e \<Longrightarrow> anchored (insert e S) k = anchored S k"
  "k \<noteq> entry_key e \<Longrightarrow> starts (insert e S) k v = starts S k v"
  "k \<noteq> entry_key e \<Longrightarrow> edges_of (insert e S) k = edges_of S k"
  by (auto simp: anchored_def starts_def edges_of_def)

lemma facts_insert:
  assumes "coherent (insert e S)"
  shows "xref_facts H (insert e S) = xref_facts H S \<union>
    {(H (to_symbol_string t), r, vn_path (e_source e), v) | t r v. (t, r) \<in> edges_of (insert e S) (entry_key e) \<and>
       \<not> vname_empty t \<and> anchored (insert e S) (entry_key e) \<and> starts (insert e S) (entry_key e) v}"
    (is "_ = _ \<union> ?new")
proof (intro set_eqI iffI)
  fix x
  assume "x \<in> xref_facts H (insert e S)"
  then obtain e' r v where x: "x = (H (to_symbol_string (e_target e')), r, vn_path (e_source e'), v)"
    and e': "e' \<in> insert e S" "xref_entry e' r" "\<not> vname_empty (e_target e')" "anchored (insert e S) (entry_key e')"
      "starts (insert e S) (entry_key e') v"
    unfolding xref_facts_def by blast
  show "x \<in> xref_facts H S \<union> ?new"
  proof (cases "entry_key e' = entry_key e")
    case True
    then have "vn_path (e_source e') = vn_path (e_source e)" using assms e'(1) by (auto simp: coherent_def)
    moreover have "(e_target e', r) \<in> edges_of (insert e S) (entry_key e)" using True e' by (auto simp: edges_of_def)
    ultimately have "x \<in> ?new" using e' x True by auto
    then show ?thesis ..
  next
    case False
    then have "e' \<in> S" "anchored S (entry_key e')" "starts S (entry_key e') v" using e' key_other [OF False] by auto
    then show ?thesis using x e'(2,3) unfolding xref_facts_def by blast
  qed
next
  fix x
  assume "x \<in> xref_facts H S \<union> ?new"
  then show "x \<in> xref_facts H (insert e S)"
  proof
    assume "x \<in> ?new"
    then obtain e' r v where x: "x = (H (to_symbol_string (e_target e')), r, vn_path (e_source e), v)"
      and e': "e' \<in> insert e S" "xref_entry e' r" "entry_key e' = entry_key e" "\<not> vname_empty (e_target e')"
        "anchored (insert e S) (entry_key e)" "starts (insert e S) (entry_key e) v"
      unfolding edges_of_def by blast
    moreover have "vn_path (e_source e') = vn_path (e_source e)" using assms e'(1,3) by (auto simp: coherent_def)
    ultimately show ?thesis unfolding xref_facts_def by force
  qed (use facts_mono [of S "insert e S"] in blast)
qed

lemma irrelevant_insert:
  assumes "\<not> relevant e"
  shows "anchored (insert e S) k = anchored S k" "starts (insert e S) k v = starts S k v"
    "edges_of (insert e S) k = edges_of S k" "xref_facts H (insert e S) = xref_facts H S"
proof -
  have "\<not> anchor_entry e" "\<And>v. \<not> start_entry e v" "\<And>r. \<not> xref_entry e r" using assms by (auto simp: relevant_def)
  then show a: "anchored (insert e S) k = anchored S k" "starts (insert e S) k v = starts S k v"
    "edges_of (insert e S) k = edges_of S k" for k v
    by (auto simp: anchored_def starts_def edges_of_def)
  show "xref_facts H (insert e S) = xref_facts H S"
    using \<open>\<And>r. \<not> xref_entry e r\<close> unfolding xref_facts_def a by blast
qed

lemma tracks_quiet:
  assumes "tracks H S cx" and "quiet cx cx'" and "\<not> relevant e" and "ingest_ok cx" and "fa_next (in_files cx) \<noteq> - 1"
  shows "tracks H (insert e S) cx'"
proof -
  have files: "alloc_ok (in_files cx') \<and> extends (in_files cx) (in_files cx')"
  proof (cases "in_files cx' = in_files cx")
    case True
    then show ?thesis using assms(1) by (simp add: tracks_def)
  next
    case False
    then obtain k where "in_files cx' = snd (intern (an_path (anchor_at k cx)) (in_files cx))"
      using assms(2) by (auto simp: quiet_def)
    moreover have "utf8_valid (an_path (anchor_at k cx))" using anchor_at_ok [OF assms(4)] by (simp add: accum_ok_def)
    ultimately show ?thesis using alloc_ok_intern assms(1,5) extends_intern by (auto simp: tracks_def)
  qed
  have view: "core_at k cx' = core_at k cx" "st_xrefs cx' = st_xrefs cx" for k using assms(2) by (simp_all add: quiet_def)
  have "resolved cx' = resolved cx" "\<forall>(s, r, f, v) \<in> set (st_xrefs cx'). \<exists>p. id_of (in_files cx') p = Some f"
    using resolved_step [of cx' cx "[]"] files assms(1) view(2) by (auto simp: tracks_def)
  then show ?thesis
    using assms(1,3) files unfolding tracks_def view irrelevant_insert [OF assms(3)] by simp
qed

lemma settled_cases:
  assumes "settled H key c cx cx'"
  obtains (flush) v p pend where "c = (True, Some v, p, pend)" "core_at key cx' = (True, Some v, p, [])"
      "in_files cx' = snd (intern p (in_files cx))"
      "st_xrefs cx' = st_xrefs cx @ flushed H (fst (intern p (in_files cx))) v pend"
    | (wait) "\<not> ready c" "core_at key cx' = c" "in_files cx' = in_files cx" "st_xrefs cx' = st_xrefs cx"
  using assms by (cases c) (auto simp: settled_def ready_def split: bool.splits option.splits)

text \<open>Cross references after a step on the accumulator of the entry's node.\<close>

lemma settled_resolved:
  assumes t: "tracks H S cx" and co: "coherent (insert e S)" and rel: "relevant e"
    and "settled H (entry_key e) c cx cx'" and c: "c = (anchored (insert e S) (entry_key e), st, vn_path (e_source e), pend)"
    and st: "\<And>v. st = Some v \<longleftrightarrow> starts (insert e S) (entry_key e) v"
    and pend: "set pend = (if ready (core_at (entry_key e) cx) then edges_of {e} (entry_key e) else edges_of (insert e S) (entry_key e))"
    and path: "utf8_valid (vn_path (e_source e))" and room: "fa_next (in_files cx) \<noteq> - 1"
  shows "resolved cx' = xref_facts H (insert e S)" and "alloc_ok (in_files cx')"
    and "\<forall>(s, r, f, v) \<in> set (st_xrefs cx'). \<exists>p. id_of (in_files cx') p = Some f"
proof -
  let ?k = "entry_key e" and ?p = "vn_path (e_source e)"
  let ?f = "fst (intern ?p (in_files cx))"
  have ok: "alloc_ok (in_files cx)" and known: "\<forall>(s, r, f, v) \<in> set (st_xrefs cx). \<exists>p. id_of (in_files cx) p = Some f"
    and res: "resolved cx = xref_facts H S" using t by (simp_all add: tracks_def)
  have "resolved cx' = xref_facts H (insert e S) \<and> alloc_ok (in_files cx') \<and>
      (\<forall>(s, r, f, v) \<in> set (st_xrefs cx'). \<exists>p. id_of (in_files cx') p = Some f)"
    using assms(4)
  proof (cases rule: settled_cases)
    case wait
    then have "\<not> anchored (insert e S) ?k \<or> (\<forall>v. \<not> starts (insert e S) ?k v)"
      using st by (auto simp: c ready_def)
    then have "xref_facts H (insert e S) = xref_facts H S" unfolding facts_insert [OF co] by auto
    then show ?thesis using wait ok known res by (simp add: resolved_def)
  next
    case (flush v p pend')
    then have v: "anchored (insert e S) ?k" "starts (insert e S) ?k v" and p: "p = ?p" "pend' = pend"
      using c st by auto
    have ok': "alloc_ok (in_files cx')" unfolding flush(3) p by (rule alloc_ok_intern [OF ok path room])
    have ext: "extends (in_files cx) (in_files cx')" unfolding flush(3) by (rule extends_intern)
    have new: "\<forall>(s, r, f, w) \<in> set (flushed H ?f v pend). id_of (in_files cx') ?p = Some f"
      unfolding flush(3) p by (auto simp: flushed_def id_of_intern)
    note step = resolved_step [OF ok' ext known flush(4) [unfolded p] new]
    have rows: "{(s, r, ?p, w) | s r f w. (s, r, f, w) \<in> set (flushed H ?f v pend)} =
        {(H (to_symbol_string t), r, ?p, v) | t r. (t, r) \<in> set pend \<and> \<not> vname_empty t}" (is "_ = ?rows")
      by (force simp: flushed_def)
    have uniq: "starts (insert e S) ?k w \<longleftrightarrow> w = v" for w using co v(2) by (auto simp: coherent_def)
    have "xref_facts H (insert e S) = xref_facts H S \<union> ?rows"
    proof (cases "ready (core_at ?k cx)")
      case False
      then show ?thesis using pend v(1) unfolding facts_insert [OF co] uniq by auto
    next
      case True
      then have old: "anchored S ?k" "starts S ?k v"
      proof -
        have "fst (core_at ?k cx) = anchored S ?k" "\<And>w. fst (snd (core_at ?k cx)) = Some w \<longleftrightarrow> starts S ?k w"
          using t by (simp_all add: tracks_def)
        with True have "anchored S ?k" "\<exists>w. starts S ?k w" by (auto simp: ready_def)
        moreover have "starts S ?k w \<Longrightarrow> starts (insert e S) ?k w" for w by (auto simp: starts_def)
        ultimately show "anchored S ?k" "starts S ?k v" using uniq by auto
      qed
      have edges: "edges_of (insert e S) ?k = edges_of {e} ?k \<union> edges_of S ?k" by (auto simp: edges_of_def)
      have "(H (to_symbol_string t), r, ?p, v) \<in> xref_facts H S" if "(t, r) \<in> edges_of S ?k" "\<not> vname_empty t" for t r
      proof -
        obtain e' where e': "e' \<in> S" "xref_entry e' r" "entry_key e' = ?k" "e_target e' = t"
          using \<open>(t, r) \<in> edges_of S ?k\<close> by (auto simp: edges_of_def)
        moreover from this have "vn_path (e_source e') = ?p" by (intro coherent_path [OF co]) simp_all
        ultimately show ?thesis using old that(2) unfolding xref_facts_def by force
      qed
      then show ?thesis using pend True v(1) unfolding facts_insert [OF co] uniq edges by auto
    qed
    then show ?thesis using step ok' by (simp add: rows res)
  qed
  then show "resolved cx' = xref_facts H (insert e S)" and "alloc_ok (in_files cx')"
    and "\<forall>(s, r, f, v) \<in> set (st_xrefs cx'). \<exists>p. id_of (in_files cx') p = Some f" by blast+
qed

lemma tracks_settled:
  assumes t: "tracks H S cx" and co: "coherent (insert e S)" and rel: "relevant e"
    and set: "settled H (entry_key e) c cx cx'" and c: "c = (anchored (insert e S) (entry_key e), st, vn_path (e_source e), pend)"
    and st: "\<And>v. st = Some v \<longleftrightarrow> starts (insert e S) (entry_key e) v"
    and pend: "set pend = (if ready (core_at (entry_key e) cx) then edges_of {e} (entry_key e) else edges_of (insert e S) (entry_key e))"
    and path: "utf8_valid (vn_path (e_source e))" and room: "fa_next (in_files cx) \<noteq> - 1"
    and keep: "ready (core_at (entry_key e) cx) \<Longrightarrow> ready c"
  shows "tracks H (insert e S) cx'"
proof -
  let ?k = "entry_key e"
  note res = settled_resolved [OF assms(1-9)]
  have other: "core_at k cx' = core_at k cx" if "k \<noteq> ?k" for k using set that by (simp add: settled_def)
  have this_core: "core_at ?k cx' = (anchored (insert e S) ?k, st, vn_path (e_source e), if ready c then [] else pend)"
    using set by (cases rule: settled_cases) (auto simp: c ready_def)
  have paths: "vn_path (e_source e') = vn_path (e_source e)" if "e' \<in> S" "entry_key e' = ?k" for e'
    using that by (intro coherent_path [OF co]) simp_all
  show ?thesis
    unfolding tracks_def
  proof (intro conjI allI ballI impI)
    show "fst (core_at k cx') = anchored (insert e S) k" for k
      using t other this_core key_other(1) by (cases "k = ?k") (auto simp: tracks_def)
    show "fst (snd (core_at k cx')) = Some v \<longleftrightarrow> starts (insert e S) k v" for k v
      using t other this_core key_other(2) st by (cases "k = ?k") (auto simp: tracks_def)
    show "fst (snd (snd (core_at (entry_key e') cx'))) = vn_path (e_source e')" if "e' \<in> insert e S" "relevant e'" for e'
      using that t other this_core paths by (cases "entry_key e' = ?k") (auto simp: tracks_def)
    show "fst (snd (snd (core_at k cx'))) = []" if "\<forall>e' \<in> insert e S. relevant e' \<longrightarrow> entry_key e' \<noteq> k" for k
      using that t other rel by (auto simp: tracks_def)
    show "set (snd (snd (snd (core_at k cx')))) = (if ready (core_at k cx') then {} else edges_of (insert e S) k)" for k
    proof (cases "k = ?k")
      case True
      have "ready (core_at ?k cx') = ready c" by (simp add: this_core c ready_def)
      then show ?thesis using True pend keep by (simp add: this_core)
    next
      case False
      then show ?thesis using t other [OF False] key_other(3) by (simp add: tracks_def)
    qed
  qed (use res in blast)+
qed

section \<open>Every entry keeps the invariant\<close>

lemma entry_kinds:
  "xref_entry e r \<Longrightarrow> \<not> anchor_entry e" "xref_entry e r \<Longrightarrow> \<not> start_entry e v" "anchor_entry e \<Longrightarrow> \<not> start_entry e v"
  "start_entry e v \<Longrightarrow> \<not> anchor_entry e" "anchor_entry e \<Longrightarrow> \<not> xref_entry e r" "start_entry e v \<Longrightarrow> \<not> xref_entry e r"
  by (auto simp: xref_entry_def anchor_entry_def start_entry_def)

lemma seeded_path:
  assumes "tracks H S cx" and "coherent (insert e S)"
  shows "an_path (seed_path (vn_path (e_source e)) (anchor_at (entry_key e) cx)) = vn_path (e_source e)"
proof (cases "\<forall>e' \<in> S. relevant e' \<longrightarrow> entry_key e' \<noteq> entry_key e")
  case True
  then have "an_path (anchor_at (entry_key e) cx) = []"
    using assms(1) by (auto simp: tracks_def core_at_def core_def)
  then show ?thesis by (simp add: seed_path_def)
next
  case False
  then obtain e' where e': "e' \<in> S" "relevant e'" "entry_key e' = entry_key e" by blast
  then have "an_path (anchor_at (entry_key e) cx) = vn_path (e_source e')"
    using assms(1) unfolding tracks_def core_at_def core_def by fastforce
  moreover have "vn_path (e_source e') = vn_path (e_source e)"
    using e' by (intro coherent_path [OF assms(2)]) simp_all
  ultimately show ?thesis by (simp add: seed_path_def)
qed

lemma seed_path_core [simp]:
  "an_is_anchor (seed_path p a) = an_is_anchor a" "an_start (seed_path p a) = an_start a"
  "an_pending (seed_path p a) = an_pending a" "an_path (seed_path p (a\<lparr> an_is_anchor := b \<rparr>)) = an_path (seed_path p a)"
  by (simp_all add: seed_path_def)

lemma tracked_anchor:
  assumes "tracks H S cx"
  shows "an_is_anchor (anchor_at k cx) = anchored S k" "an_start (anchor_at k cx) = Some v \<longleftrightarrow> starts S k v"
    "set (an_pending (anchor_at k cx)) = (if ready (core_at k cx) then {} else edges_of S k)"
    "ready (core_at k cx) \<longleftrightarrow> anchored S k \<and> (\<exists>v. starts S k v)"
proof -
  have a: "fst (core_at k cx) = anchored S k" "\<And>v. fst (snd (core_at k cx)) = Some v \<longleftrightarrow> starts S k v"
    "set (snd (snd (snd (core_at k cx)))) = (if ready (core_at k cx) then {} else edges_of S k)"
    using assms by (simp_all add: tracks_def)
  then show "an_is_anchor (anchor_at k cx) = anchored S k" "an_start (anchor_at k cx) = Some v \<longleftrightarrow> starts S k v"
    "set (an_pending (anchor_at k cx)) = (if ready (core_at k cx) then {} else edges_of S k)"
    by (simp_all add: core_at_def core_def)
  show "ready (core_at k cx) \<longleftrightarrow> anchored S k \<and> (\<exists>v. starts S k v)"
    using a(1,2) by (cases "fst (snd (core_at k cx))") (auto simp: ready_def)
qed

lemma tracks_xref:
  assumes "tracks H S cx" and "coherent (insert e S)" and "xref_entry e r"
    and "utf8_valid (vn_path (e_source e))" and "fa_next (in_files cx) \<noteq> - 1"
  shows "tracks H (insert e S) (process_entry H U e cx)"
proof -
  let ?k = "entry_key e" and ?p = "vn_path (e_source e)"
  let ?a = "seed_path ?p (anchor_at ?k cx)"
  note a = tracked_anchor [OF assms(1), of ?k]
  have r: "xref_entry e r' \<longleftrightarrow> r' = r" for r' using assms(3) by (auto simp: xref_entry_def)
  have ins: "anchored (insert e S) ?k = anchored S ?k" "starts (insert e S) ?k v = starts S ?k v"
    "edges_of (insert e S) ?k = insert (e_target e, r) (edges_of S ?k)" "edges_of {e} ?k = {(e_target e, r)}" for v
    using entry_kinds(1,2) [OF assms(3)] r by (auto simp: anchored_def starts_def edges_of_def)
  have "an_is_anchor ?a \<Longrightarrow> an_start ?a \<noteq> None \<Longrightarrow> an_pending ?a = []"
    using a(3) by (simp add: core_at_def core_def ready_def)
  from xref_edge_settled [OF this, of H "e_target e" r U]
  have step: "settled H ?k (anchored (insert e S) ?k, an_start ?a, ?p, an_pending ?a @ [(e_target e, r)]) cx (process_entry H U e cx)"
    unfolding process_xref_entry [OF assms(3)] seeded_path [OF assms(1,2)] by (simp add: a(1) ins(1))
  show ?thesis
  proof (rule tracks_settled [OF assms(1,2) _ step refl])
    show "relevant e" using assms(3) by (auto simp: relevant_def)
    show "an_start ?a = Some v \<longleftrightarrow> starts (insert e S) ?k v" for v by (simp add: a(2) ins(2))
    show "set (an_pending ?a @ [(e_target e, r)]) = (if ready (core_at ?k cx) then edges_of {e} ?k else edges_of (insert e S) ?k)"
      using a(3) by (simp add: ins(3,4))
    show "ready (anchored (insert e S) ?k, an_start ?a, ?p, an_pending ?a @ [(e_target e, r)])" if "ready (core_at ?k cx)"
      using that by (simp add: ready_def core_at_def core_def a(1) ins(1))
  qed (use assms in simp_all)
qed

lemma tracks_anchor:
  assumes "tracks H S cx" and "coherent (insert e S)" and "anchor_entry e"
    and "utf8_valid (vn_path (e_source e))" and "fa_next (in_files cx) \<noteq> - 1"
  shows "tracks H (insert e S) (process_entry H U e cx)"
proof -
  let ?k = "entry_key e" and ?p = "vn_path (e_source e)"
  let ?a = "seed_path ?p ((anchor_at ?k cx)\<lparr> an_is_anchor := True \<rparr>)"
  note a = tracked_anchor [OF assms(1), of ?k]
  have ins: "anchored (insert e S) ?k" "starts (insert e S) ?k v = starts S ?k v"
    "edges_of (insert e S) ?k = edges_of S ?k" "edges_of {e} ?k = {}" for v
    using entry_kinds(3,5) [OF assms(3)] assms(3) by (auto simp: anchored_def starts_def edges_of_def)
  have step: "settled H ?k (core ?a) cx (process_entry H U e cx)"
    unfolding process_anchor_entry [OF assms(3)] by (rule flush_ready_settled)
  show ?thesis
  proof (rule tracks_settled [OF assms(1,2) _ step])
    show "relevant e" using assms(3) by (simp add: relevant_def)
    show "core ?a = (anchored (insert e S) ?k, an_start ?a, ?p, an_pending ?a)"
      using seeded_path [OF assms(1,2)] by (simp add: core_def ins(1))
    show "an_start ?a = Some v \<longleftrightarrow> starts (insert e S) ?k v" for v by (simp add: a(2) ins(2))
    show "set (an_pending ?a) = (if ready (core_at ?k cx) then edges_of {e} ?k else edges_of (insert e S) ?k)"
      using a(3) by (simp add: ins(3,4))
    show "ready (core ?a)" if "ready (core_at ?k cx)" using that by (simp add: ready_def core_at_def core_def)
  qed (use assms in simp_all)
qed

lemma tracks_start:
  assumes "tracks H S cx" and "coherent (insert e S)" and "start_entry e v"
    and "utf8_valid (vn_path (e_source e))" and "fa_next (in_files cx) \<noteq> - 1"
  shows "tracks H (insert e S) (process_entry H U e cx)"
proof -
  let ?k = "entry_key e" and ?p = "vn_path (e_source e)"
  let ?a = "(seed_path ?p (anchor_at ?k cx))\<lparr> an_start := Some v \<rparr>"
  note a = tracked_anchor [OF assms(1), of ?k]
  have "starts (insert e S) ?k v" using assms(3) by (auto simp: starts_def)
  then have st: "starts (insert e S) ?k w \<longleftrightarrow> w = v" for w using coherent_start [OF assms(2)] by blast
  have ins: "anchored (insert e S) ?k = anchored S ?k" "edges_of (insert e S) ?k = edges_of S ?k" "edges_of {e} ?k = {}"
    using entry_kinds(4,6) [OF assms(3)] by (auto simp: anchored_def edges_of_def)
  have step: "settled H ?k (core ?a) cx (process_entry H U e cx)"
    unfolding process_start_entry [OF assms(3)] by (rule flush_ready_settled)
  show ?thesis
  proof (rule tracks_settled [OF assms(1,2) _ step])
    show "relevant e" using assms(3) by (auto simp: relevant_def)
    show "core ?a = (anchored (insert e S) ?k, Some v, ?p, an_pending ?a)"
      using seeded_path [OF assms(1,2)] by (simp add: core_def a(1) ins(1))
    show "Some v = Some w \<longleftrightarrow> starts (insert e S) ?k w" for w by (auto simp: st)
    show "set (an_pending ?a) = (if ready (core_at ?k cx) then edges_of {e} ?k else edges_of (insert e S) ?k)"
      using a(3) by (simp add: ins(2,3))
    show "ready (core ?a)" if "ready (core_at ?k cx)" using that by (simp add: ready_def core_at_def core_def)
  qed (use assms in simp_all)
qed

lemma tracks_step:
  assumes "tracks H S cx" and "coherent (insert e S)" and "entry_ok e" and "ingest_ok cx" and "fa_next (in_files cx) \<noteq> - 1"
  shows "tracks H (insert e S) (process_entry H U e cx)"
proof -
  have p: "utf8_valid (vn_path (e_source e))" using assms(3) by (simp add: entry_ok_def vname_ok_def)
  consider r where "xref_entry e r" | "anchor_entry e" | v where "start_entry e v" | "\<not> relevant e"
    by (auto simp: relevant_def)
  then show ?thesis
  proof cases
    case 4
    then have "quiet cx (process_entry H U e cx)" by (intro process_quiet) (auto simp: relevant_def)
    then show ?thesis using tracks_quiet assms 4 by blast
  qed (use tracks_xref tracks_anchor tracks_start assms p in blast)+
qed

section \<open>Sequences of entries\<close>

lemma settled_files: "settled H k c cx cx' \<Longrightarrow> in_files cx' = in_files cx \<or> (\<exists>p. in_files cx' = snd (intern p (in_files cx)))"
  by (erule settled_cases) auto

lemma process_files: "in_files (process_entry H U e cx) = in_files cx \<or> (\<exists>p. in_files (process_entry H U e cx) = snd (intern p (in_files cx)))"
proof -
  consider r where "xref_entry e r" | "anchor_entry e" | v where "start_entry e v" | "\<not> relevant e"
    by (auto simp: relevant_def)
  then show ?thesis
  proof cases
    case 1
    then show ?thesis
      unfolding process_xref_entry [OF 1] xref_edge_def Let_def
      by (auto simp: split_beta split: option.split)
  next
    case 2
    then show ?thesis using settled_files [OF flush_ready_settled] by (simp only: process_anchor_entry)
  next
    case 3
    then show ?thesis using settled_files [OF flush_ready_settled] by (simp only: process_start_entry)
  next
    case 4
    then have "quiet cx (process_entry H U e cx)" by (intro process_quiet) (auto simp: relevant_def)
    then show ?thesis by (auto simp: quiet_def)
  qed
qed

lemma process_next: "unat (fa_next (in_files (process_entry H U e cx))) \<le> Suc (unat (fa_next (in_files cx)))"
proof -
  have "unat (fa_next a + 1) \<le> Suc (unat (fa_next a))" for a by (simp add: unat_word_ariths)
  then show ?thesis using process_files [of H U e cx] by (auto simp: next_intern)
qed

lemma count_entry_view: "tracks H S (count_entry cx) = tracks H S cx" "in_files (count_entry cx) = in_files cx"
  by (simp_all add: tracks_def count_entry_def core_at_def anchor_at_def resolved_def)

lemma coherent_mono: "coherent T \<Longrightarrow> S \<subseteq> T \<Longrightarrow> coherent S"
  unfolding coherent_def starts_def by blast

lemma not_max: "unat (w :: u32) + n < 2 ^ 32 \<Longrightarrow> 0 < n \<Longrightarrow> w \<noteq> - 1"
  by (auto simp: unsigned_minus_1_eq_mask mask_eq_exp_minus_1)

lemma run_tracks_from:
  "tracks H S cx \<Longrightarrow> ingest_ok cx \<Longrightarrow> coherent (S \<union> set es) \<Longrightarrow> list_all entry_ok es \<Longrightarrow>
    unat (fa_next (in_files cx)) + length es < 2 ^ 32 \<Longrightarrow>
    tracks H (S \<union> set es) (run_entries H U es cx) \<and> ingest_ok (run_entries H U es cx)"
proof (induction es arbitrary: S cx)
  case (Cons e es)
  let ?cx = "process_entry H U e (count_entry cx)"
  have "coherent (insert e S)" by (rule coherent_mono [OF Cons.prems(3)]) auto
  moreover have "fa_next (in_files (count_entry cx)) \<noteq> - 1"
    using not_max [OF Cons.prems(5)] by (simp add: count_entry_view)
  ultimately have "tracks H (insert e S) ?cx"
    using Cons.prems by (intro tracks_step) (simp_all add: count_entry_view)
  moreover have "ingest_ok ?cx" using Cons.prems by (simp add: process_entry_ok)
  moreover have "unat (fa_next (in_files ?cx)) + length es < 2 ^ 32"
    using Cons.prems(5) process_next [of H U e "count_entry cx"] by (simp add: count_entry_view)
  ultimately have "tracks H (insert e S \<union> set es) (run_entries H U es ?cx) \<and> ingest_ok (run_entries H U es ?cx)"
    using Cons.prems(3,4) by (intro Cons.IH) simp_all
  then show ?case by (simp add: run_entries_def)
qed (simp add: run_entries_def)

lemma tracks_start_state: "alloc_ok a \<Longrightarrow> tracks H {} (ingest_start b a)"
  by (auto simp: tracks_def ingest_start_def core_at_def core_def anchor_at_def anchor_default_def anchored_def starts_def
      edges_of_def ready_def resolved_def xref_facts_def)

lemma run_tracks:
  assumes "builder_ok b" and "alloc_ok a" and "list_all entry_ok es" and "coherent (set es)"
    and "unat (fa_next a) + length es < 2 ^ 32"
  shows "tracks H (set es) (run_entries H U es (ingest_start b a))"
    and "ingest_ok (run_entries H U es (ingest_start b a))"
proof -
  have "unat (fa_next (in_files (ingest_start b a))) + length es < 2 ^ 32" using assms(5) by (simp add: ingest_start_def)
  from run_tracks_from [OF tracks_start_state [OF assms(2)] ingest_start_ok [OF assms(1)] _ assms(3) this] assms(4)
  show "tracks H (set es) (run_entries H U es (ingest_start b a))"
    and "ingest_ok (run_entries H U es (ingest_start b a))" by simp_all
qed

end
