(* ===== verification/S2_Paths.thy ===== *)
theory S2_Paths
  imports S2_Facts S2_Lookup
begin

text \<open>
  From the entries of a stream to the answers of the written index: the file table of the builder
  agrees with the file ids, completion edges decide under which symbol a cross reference is filed, and
  a query on the finished file returns the cross references the entries state.
\<close>

section \<open>The file table agrees with the file ids\<close>

text \<open>Every path of the builder has its id in the allocator, and every recorded row has a path.\<close>

definition linked :: "ingest \<Rightarrow> bool" where
  "linked cx \<longleftrightarrow>
     (\<forall>i p. map_of (b_files (in_builder cx)) i = Some p \<longrightarrow> id_of (in_files cx) p = Some i) \<and>
     (\<forall>(s, r, f, v) \<in> set (st_xrefs cx). map_of (b_files (in_builder cx)) f \<noteq> None)"

text \<open>The part of the context that \<open>linked\<close> looks at.\<close>

definition same_link :: "ingest \<Rightarrow> ingest \<Rightarrow> bool" where
  "same_link cx cx' \<longleftrightarrow> b_files (in_builder cx') = b_files (in_builder cx) \<and> in_files cx' = in_files cx \<and> st_xrefs cx' = st_xrefs cx"

lemma linked_same: "same_link cx cx' \<Longrightarrow> linked cx \<Longrightarrow> linked cx'"
  by (simp add: linked_def same_link_def)

text \<open>The file \<open>f\<close> is known to the builder.\<close>

definition known :: "u32 \<Rightarrow> ingest \<Rightarrow> bool" where
  "known f cx \<longleftrightarrow> map_of (b_files (in_builder cx)) f \<noteq> None"

lemma known_updates [simp]:
  "known f (cx\<lparr> st_bodies := bs \<rparr>) = known f cx" "known f (note_call_site g s t r cx) = known f cx"
  by (simp_all add: known_def note_call_site_def)

lemma intern_file_linked:
  assumes "linked cx"
  shows "linked (snd (intern_file p cx))" and "known (fst (intern_file p cx)) (snd (intern_file p cx))"
proof -
  let ?f = "fst (intern p (in_files cx))"
  have b: "in_builder (snd (intern_file p cx)) = upsert_file ?f p (in_builder cx)"
    by (simp add: intern_file_def split_beta)
  show "known (fst (intern_file p cx)) (snd (intern_file p cx))" by (simp add: known_def b upsert_file_def split: option.split)
  show "linked (snd (intern_file p cx))"
    unfolding linked_def b
  proof (intro conjI allI impI)
    fix i q
    assume "map_of (b_files (upsert_file ?f p (in_builder cx))) i = Some q"
    then have "map_of (b_files (in_builder cx)) i = Some q \<or> i = ?f \<and> q = p"
      by (auto simp: upsert_file_def split: if_splits option.splits)
    then show "id_of (in_files (snd (intern_file p cx))) q = Some i"
      using assms extends_intern [of "in_files cx" p] id_of_intern [of p "in_files cx"]
      unfolding linked_def extends_def intern_file_view by (metis fun_upd_same)
  next
    show "\<forall>(s, r, f, v) \<in> set (st_xrefs (snd (intern_file p cx))). map_of (b_files (upsert_file ?f p (in_builder cx))) f \<noteq> None"
      using assms by (auto simp: linked_def upsert_file_def split: option.splits)
  qed
qed

lemma emit_linked:
  "linked cx \<Longrightarrow> known f cx \<Longrightarrow> linked (emit_xref_resolved H U t r f off cx) \<and> known f (emit_xref_resolved H U t r f off cx)"
  by (auto simp: linked_def known_def emit_xref_resolved_def upsert_sym_def Let_def)

lemma note_same [simp]: "same_link cx (note_call_site f s t r cx)"
  by (simp add: same_link_def note_call_site_def)

lemma linked_updates [simp]:
  "linked (cx\<lparr> st_bodies := bs \<rparr>) = linked cx" "linked (cx\<lparr> in_stats := n \<rparr>) = linked cx"
  "linked (cx\<lparr> st_anchors := an \<rparr>) = linked cx" "linked (note_call_site f s t r cx) = linked cx"
  by (simp_all add: linked_def note_call_site_def)

lemma put_anchor_linked [simp]: "linked (put_anchor k r) = linked (snd r)"
  by (simp add: put_anchor_def split_beta)

lemma flush_pending_linked:
  "linked cx \<Longrightarrow> known f cx \<Longrightarrow> linked (snd (flush_pending H U f v pend a cx))"
  by (induction pend arbitrary: a cx) (auto simp: Let_def emit_linked split: option.split)

lemma flush_ready_linked: "linked cx \<Longrightarrow> linked (snd (flush_ready H U a cx))"
  using intern_file_linked [of cx "an_path a"]
  by (auto simp: flush_ready_def split_beta Let_def flush_pending_linked split: option.split)

lemma xref_edge_linked: "linked cx \<Longrightarrow> linked (xref_edge H U k p t r cx)"
  using intern_file_linked [of cx]
  by (auto simp: xref_edge_def split_beta Let_def emit_linked split: option.split)

lemma end_fact_linked: "linked cx \<Longrightarrow> linked (end_fact k v cx)"
  using intern_file_linked [of cx]
  by (auto simp: end_fact_def split_beta Let_def split: option.split bool.split)

lemma fact_same:
  "same_link cx (code_fact H U k v cx)" "same_link cx (type_fact src k v cx)"
  "v \<noteq> lit ''anchor'' \<Longrightarrow> same_link cx (node_fact H U src k v cx)"
  "edge_to_role (e_edge_kind e) = None \<Longrightarrow> same_link cx (process_edge H U e k cx)"
  by (simp_all add: same_link_def code_fact_def type_fact_def node_fact_def process_edge_def named_edge_def inherit_edge_def
      upsert_sym_def Let_def split: option.split)

lemma node_fact_linked: "linked cx \<Longrightarrow> linked (node_fact H U src k v cx)"
proof (cases "v = lit ''anchor''")
  case False
  assume "linked cx"
  from linked_same [OF fact_same(3) [OF False] this] show ?thesis .
qed (simp add: node_fact_def flush_ready_linked)

lemma process_linked:
  assumes "linked cx"
  shows "linked (process_entry H U e cx)"
proof -
  let ?k = "to_symbol_string (e_source e)"
  have edge: "linked (process_edge H U e ?k cx)"
  proof (cases "edge_to_role (e_edge_kind e)")
    case None
    from linked_same [OF fact_same(4) [OF None] assms] show ?thesis .
  next
    case (Some r)
    then show ?thesis using assms by (simp add: process_edge_def edge_role_only Let_def xref_edge_linked)
  qed
  have "linked (process_fact H U e ?k cx)"
    using assms linked_same [OF fact_same(1)] linked_same [OF fact_same(2)] node_fact_linked flush_ready_linked end_fact_linked
    by (simp add: process_fact_def Let_def split: option.split)
      (simp add: linked_def mark_field_def)
  with edge assms show ?thesis by (simp add: process_entry_def Let_def)
qed

lemma run_linked: "linked cx \<Longrightarrow> linked (run_entries H U es cx)"
  unfolding run_entries_def
proof (induction es arbitrary: cx)
  case (Cons e es)
  have "linked (count_entry cx)" using Cons.prems by (simp add: count_entry_def)
  then show ?case using Cons.IH process_linked by simp
qed simp

section \<open>Completions\<close>

text \<open>A completion edge files its source's symbol under the symbol it completes; the last edge of a
  source wins.\<close>

definition completion :: "entry \<Rightarrow> (bytes \<times> bytes) option" where
  "completion e =
     (if \<not> vname_empty (e_source e) \<and> e_edge_kind e \<noteq> [] \<and> is_completes_edge (e_edge_kind e) \<and> \<not> vname_empty (e_target e)
      then Some (entry_key e, to_symbol_string (e_target e)) else None)"

definition completions :: "entry list \<Rightarrow> (bytes \<times> bytes) list" where
  "completions es = fold (\<lambda>e. case completion e of Some (d, t) \<Rightarrow> hm_insert d t | None \<Rightarrow> id) es []"

definition canonical :: "(bytes \<Rightarrow> u64) \<Rightarrow> entry list \<Rightarrow> u64 \<Rightarrow> u64" where
  "canonical H es = remap (bridge_of H (completions es))"

lemma bridges_view [simp]:
  "st_bridges (put_anchor k x) = st_bridges (snd x)" "st_bridges (snd (intern_file p cx)) = st_bridges cx"
  "st_bridges (emit_xref_resolved H U t r f off cx) = st_bridges cx"
  "st_bridges (note_call_site f s w r cx) = st_bridges cx"
  by (simp_all add: put_anchor_def intern_file_def emit_xref_resolved_def note_call_site_def split_beta Let_def)

lemma flush_pending_bridges [simp]: "st_bridges (snd (flush_pending H U f v pend a cx)) = st_bridges cx"
  by (induction pend arbitrary: a cx) (auto simp: Let_def split: option.split)

lemma flush_ready_bridges [simp]: "st_bridges (snd (flush_ready H U a cx)) = st_bridges cx"
  by (simp add: flush_ready_def split_beta Let_def split: option.split)

lemma xref_edge_bridges [simp]: "st_bridges (xref_edge H U k p t r cx) = st_bridges cx"
  by (simp add: xref_edge_def split_beta Let_def split: option.split)

lemma facts_bridges [simp]:
  "st_bridges (code_fact H U k v cx) = st_bridges cx" "st_bridges (type_fact src k v cx) = st_bridges cx"
  "st_bridges (node_fact H U src k v cx) = st_bridges cx" "st_bridges (end_fact k w cx) = st_bridges cx"
  by (simp_all add: code_fact_def type_fact_def node_fact_def end_fact_def Let_def split_beta split: option.split bool.split)

lemma process_bridges:
  "st_bridges (process_entry H U e cx) =
    (case completion e of Some (d, t) \<Rightarrow> hm_insert d t | None \<Rightarrow> id) (st_bridges cx)"
  by (simp add: process_entry_def completion_def entry_key_def process_fact_def process_edge_def named_edge_def
      inherit_edge_def Let_def split: option.split)

lemma run_bridges: "st_bridges (run_entries H U es (ingest_start b a)) = completions es"
proof -
  have "st_bridges (run_entries H U es cx) =
      fold (\<lambda>e. case completion e of Some (d, t) \<Rightarrow> hm_insert d t | None \<Rightarrow> id) es (st_bridges cx)" for cx
    unfolding run_entries_def
    by (induction es arbitrary: cx) (simp_all add: process_bridges count_entry_def)
  then show ?thesis by (simp add: completions_def ingest_start_def)
qed

section \<open>What a stream keeps of the builder\<close>

text \<open>The rows and the paths recorded before the stream stay until its end.\<close>

definition keeps :: "ingest \<Rightarrow> ingest \<Rightarrow> bool" where
  "keeps cx cx' \<longleftrightarrow> b_xrefs (in_builder cx') = b_xrefs (in_builder cx) \<and>
     (\<forall>f p. map_of (b_files (in_builder cx)) f = Some p \<longrightarrow> map_of (b_files (in_builder cx')) f = Some p)"

lemma keeps_refl [simp]: "keeps cx cx"
  by (simp add: keeps_def)

lemma keeps_trans [trans]: "keeps cx cx' \<Longrightarrow> keeps cx' cx'' \<Longrightarrow> keeps cx cx''"
  by (simp add: keeps_def)

lemma keeps_updates [simp]:
  "keeps cx (cx'\<lparr> st_bodies := bs \<rparr>) = keeps cx cx'" "keeps cx (cx'\<lparr> in_stats := n \<rparr>) = keeps cx cx'"
  "keeps cx (cx'\<lparr> st_anchors := an \<rparr>) = keeps cx cx'" "keeps cx (note_call_site f s t r cx') = keeps cx cx'"
  "keeps cx (put_anchor k x) = keeps cx (snd x)"
  by (simp_all add: keeps_def note_call_site_def put_anchor_def split_beta)

lemma keeps_intern: "keeps cx cx' \<Longrightarrow> keeps cx (snd (intern_file p cx'))"
  by (auto simp: keeps_def intern_file_def upsert_file_def split_beta split: option.split)

lemma keeps_emit: "keeps cx cx' \<Longrightarrow> keeps cx (emit_xref_resolved H U t r f off cx')"
  by (simp add: keeps_def emit_xref_resolved_def upsert_sym_def Let_def)

lemma keeps_flush_pending: "keeps cx cx' \<Longrightarrow> keeps cx (snd (flush_pending H U f v pend a cx'))"
  by (induction pend arbitrary: a cx') (auto simp: Let_def keeps_emit split: option.split)

lemma keeps_flush_ready: "keeps cx (snd (flush_ready H U a cx))"
  by (simp add: flush_ready_def split_beta Let_def keeps_flush_pending keeps_intern split: option.split)

lemma keeps_steps:
  "keeps cx (xref_edge H U k p t r cx)" "keeps cx (end_fact k v cx)" "keeps cx (code_fact H U k w cx)"
  "keeps cx (type_fact src k w cx)" "keeps cx (node_fact H U src k w cx)"
proof -
  show "keeps cx (xref_edge H U k p t r cx)"
    by (simp add: xref_edge_def split_beta Let_def keeps_emit keeps_intern split: option.split)
  show "keeps cx (end_fact k v cx)"
    by (simp add: end_fact_def split_beta Let_def keeps_intern split: option.split bool.split)
  show "keeps cx (code_fact H U k w cx)" "keeps cx (type_fact src k w cx)"
    by (simp_all add: keeps_def code_fact_def type_fact_def Let_def split: option.split)
  show "keeps cx (node_fact H U src k w cx)"
    by (simp add: node_fact_def Let_def keeps_flush_ready) (simp add: keeps_def upsert_sym_def)
qed

lemma keeps_process: "keeps cx (process_entry H U e cx)"
proof -
  let ?k = "to_symbol_string (e_source e)"
  have "keeps cx (process_edge H U e ?k cx)"
    by (simp add: process_edge_def Let_def keeps_steps split: option.split)
      (simp add: keeps_def named_edge_def inherit_edge_def Let_def)
  moreover have "keeps cx (process_fact H U e ?k cx)"
    using keeps_trans [OF keeps_steps(5) keeps_steps(4)]
    by (simp add: process_fact_def Let_def keeps_steps keeps_flush_ready split: option.split)
      (simp add: keeps_def mark_field_def)
  ultimately show ?thesis by (simp add: process_entry_def Let_def)
qed

lemma keeps_run: "keeps cx (run_entries H U es cx)"
proof (induction es arbitrary: cx)
  case (Cons e es)
  have "keeps cx (count_entry cx)" by (simp add: count_entry_def)
  also have "keeps (count_entry cx) (process_entry H U e (count_entry cx))" by (rule keeps_process)
  also have "keeps \<dots> (run_entries H U es \<dots>)" by (rule Cons.IH)
  finally show ?case by (simp add: run_entries_def)
qed (simp add: run_entries_def)

section \<open>From the stream to the answers\<close>

text \<open>Without completions every symbol stands for itself.\<close>

lemma canonical_id: "(\<And>e. e \<in> set es \<Longrightarrow> completion e = None) \<Longrightarrow> canonical H es s = s"
proof -
  assume none: "\<And>e. e \<in> set es \<Longrightarrow> completion e = None"
  then have "fold (\<lambda>e. case completion e of Some (d, t) \<Rightarrow> hm_insert d t | None \<Rightarrow> id) es m = m" for m
    by (induction es) simp_all
  then show ?thesis by (simp add: canonical_def completions_def bridge_of_def remap_def)
qed

text \<open>The cross references a builder holds, with their paths.\<close>

definition located :: "index_builder \<Rightarrow> (u64 \<times> u8 \<times> bytes \<times> u32) set" where
  "located b = {(s, r, p, v). \<exists>f. (s, r, f, v) \<in> set (b_xrefs b) \<and> map_of (b_files b) f = Some p}"

text \<open>A builder and file ids that a stream may be added to: the paths agree and every row has one.\<close>

definition stream_ready :: "index_builder \<Rightarrow> file_ids \<Rightarrow> bool" where
  "stream_ready b a \<longleftrightarrow> builder_ok b \<and> alloc_ok a \<and>
     (\<forall>i p. map_of (b_files b) i = Some p \<longrightarrow> id_of a p = Some i) \<and>
     (\<forall>(s, r, f, v) \<in> set (b_xrefs b). map_of (b_files b) f \<noteq> None)"

lemma stream_ready_new: "stream_ready builder_new file_ids_default"
  by (simp add: stream_ready_def builder_ok_def builder_new_def alloc_ok_default)

lemma linked_located:
  assumes "linked cx" and "alloc_ok (in_files cx)"
  shows "{(s, r, p, v). \<exists>f. (s, r, f, v) \<in> set (st_xrefs cx) \<and> map_of (b_files (in_builder cx)) f = Some p} = resolved cx"
proof -
  have "map_of (b_files (in_builder cx)) f = Some p \<longleftrightarrow> id_of (in_files cx) p = Some f"
    if row: "(s, r, f, v) \<in> set (st_xrefs cx)" for s r f v p
  proof -
    obtain q where q: "map_of (b_files (in_builder cx)) f = Some q" using assms(1) row by (fastforce simp: linked_def)
    then have "id_of (in_files cx) q = Some f" using assms(1) by (simp add: linked_def)
    then have "id_of (in_files cx) p = Some f \<longleftrightarrow> p = q" using assms(2) by (auto simp: alloc_ok_def)
    then show ?thesis using q by auto
  qed
  then show ?thesis unfolding resolved_def by blast
qed

lemma stream_located:
  assumes "stream_ready b a" and "list_all framed es" and "coherent (set es)" and "unat (fa_next a) + length es < 2 ^ 32"
    and "ingest_stream H U (frames es) b a = (res, b', a')"
  shows "\<exists>st. res = Inr st" and "stream_ready b' a'"
    and "located b' = located b \<union> {(canonical H es s, r, p, v) | s r p v. (s, r, p, v) \<in> xref_facts H (set es)}"
proof -
  let ?init = "ingest_start b a" and ?cx = "run_entries H U es (ingest_start b a)"
  have b: "builder_ok b" and a: "alloc_ok a" using assms(1) by (simp_all add: stream_ready_def)
  have "list_all entry_ok es" using assms(2) by (simp add: framed_def list_all_iff)
  note tracks = run_tracks [OF b a this assms(3,4), of H U]
  have "linked ?init" using assms(1) by (simp add: linked_def stream_ready_def ingest_start_def)
  then have linked: "linked ?cx" by (rule run_linked)
  have keeps: "keeps ?init ?cx" by (rule keeps_run)
  have alloc: "alloc_ok (in_files ?cx)" and facts: "resolved ?cx = xref_facts H (set es)"
    using tracks(1) by (simp_all add: tracks_def)
  have fin: "res = Inr (in_stats (ingest_finish H U ?cx))" "b' = in_builder (ingest_finish H U ?cx)" "a' = in_files ?cx"
    using assms(5) ingest_frames [OF assms(2), of H U False b a]
    by (simp_all add: ingest_stream_def Let_def ingest_finish_def)
  show "\<exists>st. res = Inr st" using fin(1) by blast
  have start: "in_builder ?init = b" by (simp add: ingest_start_def)
  have files: "b_files b' = b_files (in_builder ?cx)" by (simp add: fin(2) ingest_finish_builder)
  have rows: "b_xrefs b' = b_xrefs b @ map (\<lambda>(s, r, f, v). (canonical H es s, r, f, v)) (st_xrefs ?cx)"
    using keeps by (simp add: fin(2) ingest_finish_builder canonical_def run_bridges keeps_def start)
  have old: "map_of (b_files b') f = map_of (b_files b) f" if row: "(s, r, f, v) \<in> set (b_xrefs b)" for s r f v
  proof -
    obtain p where "map_of (b_files b) f = Some p" using assms(1) row by (fastforce simp: stream_ready_def)
    then show ?thesis using keeps files by (simp add: keeps_def start)
  qed
  have "builder_ok b'" using ingest_tolerant_ok [OF b] assms(5) by (simp add: ingest_stream_def)
  then show "stream_ready b' a'"
    using linked alloc assms(1) old unfolding stream_ready_def linked_def files [symmetric] fin(3) rows
    by fastforce
  have "located b' = located b \<union> {(canonical H es s, r, p, v) | s r p v. (s, r, p, v) \<in>
      {(s, r, p, v). \<exists>f. (s, r, f, v) \<in> set (st_xrefs ?cx) \<and> map_of (b_files (in_builder ?cx)) f = Some p}}"
    using old unfolding located_def rows files [symmetric] by auto
  then show "located b' = located b \<union> {(canonical H es s, r, p, v) | s r p v. (s, r, p, v) \<in> xref_facts H (set es)}"
    unfolding linked_located [OF linked alloc] facts .
qed

text \<open>The answers of a written index, with the paths it gives.\<close>

lemma located_answers:
  assumes "indexed b ix" and "s \<noteq> - 1 \<or> role_hi \<noteq> 255"
  shows "\<exists>rows. xrefs ix s role_lo role_hi = Some rows \<and>
    {(r, p, v). \<exists>f. (s, r, f, v) \<in> set rows \<and> file_path ix f = Some (Some p)} =
    {(r, clamp_blob_str p, v) | r p v. (s, r, p, v) \<in> located b \<and> role_lo \<le> r \<and> r \<le> role_hi}"
  unfolding xrefs_indexed [OF assms] strings_indexed(1) [OF assms(1)] located_def
  by auto

end
