(* ===== verification/S2_Run.thy ===== *)
theory S2_Run
  imports S2_Plan S2_Paths S2_Partition
begin

text \<open>
  The driver of a \<^verbatim>\<open>from-kzip\<close> run without a cache (\<open>src/crates/scry2/src/main.rs\<close>, \<^verbatim>\<open>cmd_from_kzip\<close>): the sinks of
  the workers, the snapshots that write what they hold as a shard with a checkpoint of the finished
  units, and the final merge; and \<^verbatim>\<open>cmd_index\<close>. A worker folds a unit into its sink under the lock of the
  sink, and a snapshot drains each sink under the same lock, so a fold falls before or after the drain
  of its sink and a snapshot can be taken as one step. The bytes of the indexer's stream and the
  success of the file operations are inputs.
\<close>

section \<open>State\<close>

record worker_sink =
  ws_builder :: index_builder
  ws_pending_shas :: "bytes list"

record accumulator =
  ac_builder :: index_builder
  ac_committed_shas :: "bytes list"

text \<open>What the threads share, and the files: shards by index and the checkpoint.\<close>

record run_state =
  rn_sinks :: "worker_sink list"
  rn_acc :: accumulator
  rn_next_shard :: u64
  rn_delta_rows :: u64
  rn_last_snap :: nat
  rn_done :: nat
  rn_file_ids :: file_ids
  rn_shards :: "(u64 \<times> bytes) list"
  rn_shas :: "bytes option"

definition sink_default :: worker_sink where
  "sink_default = \<lparr> ws_builder = builder_new, ws_pending_shas = [] \<rparr>"

definition run_start :: "nat \<Rightarrow> bytes list \<Rightarrow> u64 \<Rightarrow> file_ids \<Rightarrow> (u64 \<times> bytes) list \<Rightarrow> bytes option \<Rightarrow> run_state" where
  "run_start workers done_shas next ids shards shas =
     \<lparr> rn_sinks = replicate workers sink_default,
       rn_acc = \<lparr> ac_builder = builder_new, ac_committed_shas = done_shas \<rparr>,
       rn_next_shard = next, rn_delta_rows = 0, rn_last_snap = 0, rn_done = 0, rn_file_ids = ids,
       rn_shards = shards, rn_shas = shas \<rparr>"

text \<open>The file ids of a run: a resumed run takes the ids in the files that open, another one the ranks of
  the candidate paths.\<close>

fun seed_sources :: "bytes list \<Rightarrow> file_ids \<Rightarrow> file_ids option" where
  "seed_sources [] a = Some a"
| "seed_sources (fl # fls) a =
     (case index_open fl of
        Inl e \<Rightarrow> seed_sources fls a
      | Inr ix \<Rightarrow> Option.bind (seed_from ix a) (seed_sources fls))"

definition run_file_ids :: "bool \<Rightarrow> bytes option \<Rightarrow> (u64 \<times> bytes) list \<Rightarrow> bytes list \<Rightarrow> file_ids option" where
  "run_file_ids resume base shards seed =
     (if resume then
        seed_sources ((case base of Some fl \<Rightarrow> [fl] | None \<Rightarrow> []) @ map snd (sort_key fst shards)) file_ids_default
      else Some (seed_paths seed file_ids_default))"

lemma fresh_file_ids:
  assumes "list_all utf8_valid seed" and "length seed < 2 ^ 32"
  shows "\<exists>ids. run_file_ids False base shards seed = Some ids \<and> alloc_ok ids \<and> (\<forall>p \<in> set seed. id_of ids p \<noteq> None)"
  using seed_paths_ok [OF alloc_ok_default assms(1)] assms(2) by (simp add: run_file_ids_def file_ids_default_def)

section \<open>Units\<close>

definition fold_unit :: "unicode_tables \<Rightarrow> nat \<Rightarrow> bytes \<Rightarrow> index_builder \<Rightarrow> run_state \<Rightarrow> run_state" where
  "fold_unit U w sha cu r =
     (let (cu', rows) = dedup_tables cu;
          sink = rn_sinks r ! w
      in r\<lparr> rn_sinks := (rn_sinks r)[w := \<lparr> ws_builder = merge_from U (ws_builder sink) cu',
                                           ws_pending_shas = ws_pending_shas sink @ [sha] \<rparr>],
            rn_delta_rows := rn_delta_rows r + of_nat rows \<rparr>)"

text \<open>How the stream and the indexer of a unit ended.\<close>

record unit_outcome =
  uo_ingest_ok :: bool
  uo_wait_ok :: bool
  uo_exit_ok :: bool
  uo_entries :: nat

definition cu_succeeded :: "unit_outcome \<Rightarrow> bool" where
  "cu_succeeded out =
     (let failed = (\<not> uo_ingest_ok out \<or> \<not> uo_wait_ok out \<or> \<not> uo_exit_ok out);
          any_entries = (uo_ingest_ok out \<and> 0 < uo_entries out)
      in \<not> failed \<and> any_entries)"

definition record_unit ::
    "unicode_tables \<Rightarrow> nat \<Rightarrow> bytes \<Rightarrow> unit_outcome \<Rightarrow> index_builder \<Rightarrow> run_state \<Rightarrow> run_state" where
  "record_unit U w sha out cu r =
     (let r' = (if cu_succeeded out then fold_unit U w sha cu r else r) in r'\<lparr> rn_done := rn_done r' + 1 \<rparr>)"

section \<open>Snapshots\<close>

definition snap_due :: "nat \<Rightarrow> u64 \<Rightarrow> nat \<Rightarrow> run_state \<Rightarrow> bool" where
  "snap_due snapshot_every snapshot_rows n r \<longleftrightarrow>
     0 < snapshot_every \<and> rn_last_snap r + snapshot_every \<le> n \<or>
     0 < snapshot_rows \<and> snapshot_rows \<le> rn_delta_rows r"

text \<open>A sink whose lock is held is skipped.\<close>

fun drain_sinks ::
    "unicode_tables \<Rightarrow> (bool \<times> worker_sink) list \<Rightarrow> index_builder \<Rightarrow> bytes list \<Rightarrow> nat \<Rightarrow>
     worker_sink list \<times> index_builder \<times> bytes list \<times> nat" where
  "drain_sinks U [] acc drained_shas drained_rows = ([], acc, drained_shas, drained_rows)"
| "drain_sinks U ((busy, sink) # sinks) acc drained_shas drained_rows =
     (if busy then map_prod ((#) sink) id (drain_sinks U sinks acc drained_shas drained_rows)
      else map_prod ((#) sink_default) id
        (drain_sinks U sinks (merge_from U acc (ws_builder sink)) (drained_shas @ ws_pending_shas sink)
           (drained_rows + delta_row_count (ws_builder sink))))"

datatype snap_result = Snapped | ShardFailed | SnapPanicked

definition snapshot ::
    "unicode_tables \<Rightarrow> bool list \<Rightarrow> bool \<Rightarrow> bool \<Rightarrow> nat \<Rightarrow> run_state \<Rightarrow> snap_result \<times> run_state" where
  "snapshot U busy shard_ok shas_ok n r =
     (let (sinks, acc, staged, rows) = drain_sinks U (zip busy (rn_sinks r)) (ac_builder (rn_acc r)) [] 0;
          committed = ac_committed_shas (rn_acc r);
          delta = push_to (rn_file_ids r) acc;
          shas = sort (committed @ staged);
          idx = rn_next_shard r;
          r' = r\<lparr> rn_last_snap := n, rn_sinks := sinks, rn_delta_rows := rn_delta_rows r - of_nat rows,
                  rn_acc := \<lparr> ac_builder = builder_new, ac_committed_shas = committed \<rparr>, rn_next_shard := idx + 1 \<rparr>
      in case finish delta of
           None \<Rightarrow> (SnapPanicked, r')
         | Some fl \<Rightarrow>
             if \<not> shard_ok then (ShardFailed, r')
             else (Snapped, r'\<lparr> rn_shards := hm_insert idx fl (rn_shards r'),
                     rn_shas := (if shas_ok then Some (write_partial_shas shas) else rn_shas r'),
                     rn_acc := \<lparr> ac_builder = builder_new, ac_committed_shas = fold List.insert staged committed \<rparr> \<rparr>))"

text \<open>\<open>n\<close> is the count of finished units that the calling worker saw.\<close>

definition try_snapshot ::
    "unicode_tables \<Rightarrow> nat \<Rightarrow> u64 \<Rightarrow> bool list \<Rightarrow> bool \<Rightarrow> bool \<Rightarrow> nat \<Rightarrow> run_state \<Rightarrow> snap_result \<times> run_state" where
  "try_snapshot U snapshot_every snapshot_rows busy shard_ok shas_ok n r =
     (if snap_due snapshot_every snapshot_rows n r then snapshot U busy shard_ok shas_ok n r else (Snapped, r))"

section \<open>The final merge\<close>

definition final_delta :: "unicode_tables \<Rightarrow> run_state \<Rightarrow> index_builder" where
  "final_delta U r =
     drain_into (rn_file_ids r) (foldl (merge_from U) (ac_builder (rn_acc r)) (map ws_builder (rn_sinks r)))"

definition final_merge :: "unicode_tables \<Rightarrow> bytes option \<Rightarrow> run_state \<Rightarrow> (open_error + bytes) option" where
  "final_merge U base r =
     (case open_all ((case base of Some fl \<Rightarrow> [fl] | None \<Rightarrow> []) @ map snd (sort_key fst (rn_shards r))) of
        Inl e \<Rightarrow> Some (Inl e)
      | Inr ixs \<Rightarrow> map_option Inr (write_merged_snapshot U ixs (final_delta U r)))"

section \<open>Indexing streams\<close>

text \<open>The streams in the order of the arguments; a file that does not open is \<open>None\<close>.\<close>

datatype index_error = CannotOpen | IngestFailed kythe_error

fun index_streams ::
    "(bytes \<Rightarrow> u64) \<Rightarrow> unicode_tables \<Rightarrow> bytes option list \<Rightarrow> index_builder \<Rightarrow> file_ids \<Rightarrow> index_error + index_builder \<times> file_ids" where
  "index_streams H U [] b a = Inr (b, a)"
| "index_streams H U (None # entries) b a = Inl CannotOpen"
| "index_streams H U (Some s # entries) b a =
     (case ingest_stream H U s b a of
        (Inl e, _, _) \<Rightarrow> Inl (IngestFailed e)
      | (Inr st, b', a') \<Rightarrow> index_streams H U entries b' a')"

definition cmd_index :: "(bytes \<Rightarrow> u64) \<Rightarrow> unicode_tables \<Rightarrow> bytes option list \<Rightarrow> index_error + bytes option" where
  "cmd_index H U entries =
     map_sum id (\<lambda>(b, a). finish (drain_into a b)) (index_streams H U entries builder_new file_ids_default)"

section \<open>Draining\<close>

text \<open>The sinks a snapshot takes, and the builder it writes.\<close>

definition taken :: "bool list \<Rightarrow> worker_sink list \<Rightarrow> worker_sink list" where
  "taken busy sinks = map snd (filter (\<lambda>(bz, _). \<not> bz) (zip busy sinks))"

definition left_over :: "bool list \<Rightarrow> worker_sink list \<Rightarrow> worker_sink list" where
  "left_over busy sinks = map (\<lambda>(bz, s). if bz then s else sink_default) (zip busy sinks)"

definition snapshot_delta :: "unicode_tables \<Rightarrow> bool list \<Rightarrow> run_state \<Rightarrow> index_builder" where
  "snapshot_delta U busy r =
     push_to (rn_file_ids r) (foldl (merge_from U) (ac_builder (rn_acc r)) (map ws_builder (taken busy (rn_sinks r))))"

lemma drain_sinks_eq:
  "drain_sinks U ss acc shas rows =
    (map (\<lambda>(bz, s). if bz then s else sink_default) ss,
     foldl (merge_from U) acc (map ws_builder (map snd (filter (\<lambda>(bz, _). \<not> bz) ss))),
     shas @ concat (map ws_pending_shas (map snd (filter (\<lambda>(bz, _). \<not> bz) ss))),
     rows + sum_list (map (\<lambda>s. delta_row_count (ws_builder s)) (map snd (filter (\<lambda>(bz, _). \<not> bz) ss))))"
  by (induction U ss acc shas rows rule: drain_sinks.induct) simp_all

lemma snapshot_cases:
  assumes "snapshot U busy shard_ok shas_ok n r = (res, r')"
  defines "staged \<equiv> concat (map ws_pending_shas (taken busy (rn_sinks r)))" and "old \<equiv> ac_committed_shas (rn_acc r)"
  shows "rn_sinks r' = left_over busy (rn_sinks r)" and "rn_next_shard r' = rn_next_shard r + 1"
    and "rn_delta_rows r' = rn_delta_rows r - of_nat (sum_list (map (\<lambda>s. delta_row_count (ws_builder s)) (taken busy (rn_sinks r))))"
    and "ac_builder (rn_acc r') = builder_new" and "rn_file_ids r' = rn_file_ids r"
    and "res = Snapped \<Longrightarrow> \<exists>fl. finish (snapshot_delta U busy r) = Some fl \<and>
      rn_shards r' = hm_insert (rn_next_shard r) fl (rn_shards r)"
    and "res = Snapped \<Longrightarrow> rn_shas r' = (if shas_ok then Some (write_partial_shas (sort (old @ staged))) else rn_shas r)"
    and "res = Snapped \<Longrightarrow> set (ac_committed_shas (rn_acc r')) = set old \<union> set staged"
    and "res \<noteq> Snapped \<Longrightarrow> rn_shards r' = rn_shards r \<and> rn_shas r' = rn_shas r"
    and "res \<noteq> Snapped \<Longrightarrow> ac_committed_shas (rn_acc r') = old"
proof -
  have ins: "set (fold List.insert xs ys) = set ys \<union> set xs" for xs ys :: "bytes list"
    by (induction xs arbitrary: ys) auto
  note parts = assms(1) [unfolded snapshot_def Let_def drain_sinks_eq append_Nil add_0 prod.case]
  note view = taken_def [symmetric] left_over_def [symmetric] snapshot_delta_def [symmetric]
  note eqs = parts [unfolded view]
  show "rn_sinks r' = left_over busy (rn_sinks r)" "rn_next_shard r' = rn_next_shard r + 1"
    "rn_delta_rows r' = rn_delta_rows r - of_nat (sum_list (map (\<lambda>s. delta_row_count (ws_builder s)) (taken busy (rn_sinks r))))"
    "ac_builder (rn_acc r') = builder_new" "rn_file_ids r' = rn_file_ids r"
    "res = Snapped \<Longrightarrow> \<exists>fl. finish (snapshot_delta U busy r) = Some fl \<and> rn_shards r' = hm_insert (rn_next_shard r) fl (rn_shards r)"
    "res = Snapped \<Longrightarrow> rn_shas r' = (if shas_ok then Some (write_partial_shas (sort (old @ staged))) else rn_shas r)"
    "res = Snapped \<Longrightarrow> set (ac_committed_shas (rn_acc r')) = set old \<union> set staged"
    "res \<noteq> Snapped \<Longrightarrow> rn_shards r' = rn_shards r \<and> rn_shas r' = rn_shas r"
    "res \<noteq> Snapped \<Longrightarrow> ac_committed_shas (rn_acc r') = old"
    using eqs by (auto simp: ins staged_def old_def split: option.splits if_splits)
qed

section \<open>What a builder covers\<close>

text \<open>Every row of \<open>cu\<close> is a row of \<open>b\<close>, and \<open>b\<close> knows its symbols and files.\<close>

definition covers :: "index_builder \<Rightarrow> index_builder \<Rightarrow> bool" where
  "covers b cu \<longleftrightarrow> set (b_xrefs cu) \<subseteq> set (b_xrefs b) \<and> set (b_inherits cu) \<subseteq> set (b_inherits b) \<and>
     set (b_calls cu) \<subseteq> set (b_calls b) \<and> set (b_aliases cu) \<subseteq> set (b_aliases b) \<and> set (b_typed cu) \<subseteq> set (b_typed b) \<and>
     set (b_childof cu) \<subseteq> set (b_childof b) \<and> set (b_sig cu) \<subseteq> set (b_sig b) \<and>
     fst ` set (b_syms cu) \<subseteq> fst ` set (b_syms b) \<and> fst ` set (b_files cu) \<subseteq> fst ` set (b_files b)"

lemma covers_refl [simp]: "covers b b"
  by (simp add: covers_def)

lemma covers_trans [trans]: "covers a b \<Longrightarrow> covers b c \<Longrightarrow> covers a c"
  unfolding covers_def by (meson order_trans)

lemma keys_hm_entry: "fst ` set (hm_entry k f v m) = insert k (fst ` set m)"
  by (induction m) auto

lemma keys_merge_syms: "fst ` set (merge_syms_into U m other) = fst ` set m \<union> fst ` set other"
  by (induction U m other rule: merge_syms_into.induct) (simp_all add: keys_hm_entry)

lemma keys_merge_files: "fst ` set (merge_files_into m other) = fst ` set m \<union> fst ` set other"
  by (induction m other rule: merge_files_into.induct) (simp_all add: keys_hm_entry)

lemma covers_merge: "covers (merge_from U a b) a" "covers (merge_from U a b) b"
  by (simp_all add: covers_def merge_from_def keys_merge_syms keys_merge_files)

lemma covers_dedup: "covers (fst (dedup_tables b)) b"
  by (simp add: covers_def dedup_tables_def Let_def set_sort_dedup)

lemma covers_fold: "covers (foldl (merge_from U) acc bs) acc" "x \<in> set bs \<Longrightarrow> covers (foldl (merge_from U) acc bs) x"
proof -
  show acc: "covers (foldl (merge_from U) acc bs) acc" for acc bs
    by (induction bs arbitrary: acc) (auto intro: covers_trans covers_merge(1))
  show "x \<in> set bs \<Longrightarrow> covers (foldl (merge_from U) acc bs) x"
  proof (induction bs arbitrary: acc)
    case (Cons b bs)
    have "covers (foldl (merge_from U) acc (b # bs)) b" using covers_trans [OF acc covers_merge(2)] by simp
    then show ?case using Cons by auto
  qed simp
qed

text \<open>Recording paths changes only the file table.\<close>

lemma push_rows_tables:
  "\<exists>fs. push_rows rows b = b\<lparr> b_files := fs \<rparr> \<and> fst ` set (b_files b) \<subseteq> fst ` set fs"
proof (induction rows b rule: push_rows.induct)
  case (1 b)
  show ?case by (intro exI [of _ "b_files b"]) simp
next
  case (2 p i accessed rows b)
  define b' where "b' = (if accessed then upsert_file i p b else b)"
  obtain fs where fs: "b' = b\<lparr> b_files := fs \<rparr>" "fst ` set (b_files b) \<subseteq> fst ` set fs"
  proof
    let ?fs = "if accessed then hm_or_insert i p (b_files b) else b_files b"
    show "b' = b\<lparr> b_files := ?fs \<rparr>" by (simp add: b'_def upsert_file_def)
    show "fst ` set (b_files b) \<subseteq> fst ` set ?fs" by (simp add: keys_hm_entry subset_insertI)
  qed
  obtain gs where gs: "push_rows rows b' = b'\<lparr> b_files := gs \<rparr>" "fst ` set (b_files b') \<subseteq> fst ` set gs"
    using 2 unfolding b'_def [symmetric] by (elim exE conjE)
  have "push_rows ((p, i, accessed) # rows) b = b\<lparr> b_files := gs \<rparr>" "fst ` set (b_files b) \<subseteq> fst ` set gs"
    using gs fs by (simp_all add: b'_def)
  then show ?case by blast
qed

lemma covers_push: "covers (push_to ids b) b" "covers (drain_into ids b) b"
proof -
  obtain fs where "push_rows (fa_table ids) b = b\<lparr> b_files := fs \<rparr>" "fst ` set (b_files b) \<subseteq> fst ` set fs"
    using push_rows_tables by blast
  then show "covers (push_to ids b) b" "covers (drain_into ids b) b" by (simp_all add: covers_def push_to_def drain_into_def)
qed

lemma push_unit_tables:
  "b_xrefs (push_to ids b) = b_xrefs b" "b_inherits (push_to ids b) = b_inherits b" "b_calls (push_to ids b) = b_calls b"
  "b_childof (push_to ids b) = b_childof b"
  "b_xrefs (drain_into ids b) = b_xrefs b" "b_inherits (drain_into ids b) = b_inherits b" "b_calls (drain_into ids b) = b_calls b"
  "b_childof (drain_into ids b) = b_childof b"
  using push_rows_tables [of "fa_table ids" b] by (auto simp: push_to_def drain_into_def)

lemma builder_ok_push: "alloc_ok ids \<Longrightarrow> builder_ok b \<Longrightarrow> builder_ok (push_to ids b) \<and> builder_ok (drain_into ids b)"
proof -
  have "(\<And>p i ac. (p, i, ac) \<in> set rows \<Longrightarrow> utf8_valid p) \<Longrightarrow> builder_ok b \<Longrightarrow> builder_ok (push_rows rows b)" for rows b
  proof (induction rows b rule: push_rows.induct)
    case (2 p i accessed rows b)
    have "builder_ok (upsert_file i p b)" using builder_ok_step [OF 2(3), of "UpsertFile i p"] 2(2) [of p i accessed] by simp
    moreover have "utf8_valid q" if "(q, j, ac) \<in> set rows" for q j ac using 2(2) that by (metis list.set_intros(2))
    ultimately show ?case using 2(1,3) by simp
  qed simp
  moreover have "utf8_valid p" if "alloc_ok ids" "(p, i, ac) \<in> set (fa_table ids)" for p i ac
  proof -
    have "map_of (fa_table ids) p = Some (i, ac)" using that by (simp add: alloc_ok_def)
    then have "id_of ids p = Some i" by (simp add: id_of_def)
    then show ?thesis using that(1) by (simp add: alloc_ok_def)
  qed
  ultimately show "alloc_ok ids \<Longrightarrow> builder_ok b \<Longrightarrow> builder_ok (push_to ids b) \<and> builder_ok (drain_into ids b)"
    by (simp add: push_to_def drain_into_def)
qed

section \<open>Runs\<close>

text \<open>The interleavings of the workers from a start state: the units folded in so far with the builders
  their streams filled, the builders written as shards, and whether a shard failed to be written. A
  shard index is assumed to remain.\<close>

inductive run_steps ::
    "unicode_tables \<Rightarrow> nat \<Rightarrow> u64 \<Rightarrow> run_state \<Rightarrow> run_state \<Rightarrow> (bytes \<times> index_builder) list \<Rightarrow> index_builder list \<Rightarrow> bool \<Rightarrow> bool"
  for U every budget r0 where
  start: "run_steps U every budget r0 r0 [] [] False"
| intern: "run_steps U every budget r0 r h bs lost \<Longrightarrow> alloc_ok ids \<Longrightarrow> extends (rn_file_ids r) ids \<Longrightarrow>
    run_steps U every budget r0 (r\<lparr> rn_file_ids := ids \<rparr>) h bs lost"
| unit: "run_steps U every budget r0 r h bs lost \<Longrightarrow> w < length (rn_sinks r) \<Longrightarrow> builder_ok cu \<Longrightarrow>
    run_steps U every budget r0 (record_unit U w sha out cu r) (if cu_succeeded out then h @ [(sha, cu)] else h) bs lost"
| snap: "run_steps U every budget r0 r h bs lost \<Longrightarrow> length busy = length (rn_sinks r) \<Longrightarrow> snap_due every budget n r \<Longrightarrow>
    rn_next_shard r \<noteq> - 1 \<Longrightarrow> snapshot U busy shard_ok shas_ok n r = (res, r') \<Longrightarrow>
    run_steps U every budget r0 r' h (if res = Snapped then bs @ [snapshot_delta U busy r] else bs) (lost \<or> res \<noteq> Snapped)"

definition sink_ok :: "worker_sink \<Rightarrow> bool" where
  "sink_ok s \<longleftrightarrow> builder_ok (ws_builder s)"

lemma sink_default_ok [simp]: "sink_ok sink_default"
  by (simp add: sink_ok_def sink_default_def builder_ok_new)

lemma set_left_over: "length busy = length sinks \<Longrightarrow> set (left_over busy sinks) \<subseteq> insert sink_default (set sinks)"
  by (auto simp: left_over_def dest: set_zip_rightD split: if_splits)

lemma set_taken: "set (taken busy sinks) \<subseteq> set sinks"
  by (auto simp: taken_def dest: set_zip_rightD)

lemma fold_unit_view:
  "rn_sinks (fold_unit U w sha cu r) = (rn_sinks r)[w := \<lparr> ws_builder = merge_from U (ws_builder (rn_sinks r ! w)) (fst (dedup_tables cu)),
      ws_pending_shas = ws_pending_shas (rn_sinks r ! w) @ [sha] \<rparr>]"
  "rn_delta_rows (fold_unit U w sha cu r) = rn_delta_rows r + of_nat (snd (dedup_tables cu))"
  "rn_acc (fold_unit U w sha cu r) = rn_acc r" "rn_file_ids (fold_unit U w sha cu r) = rn_file_ids r"
  "rn_next_shard (fold_unit U w sha cu r) = rn_next_shard r" "rn_shards (fold_unit U w sha cu r) = rn_shards r"
  "rn_shas (fold_unit U w sha cu r) = rn_shas r"
  by (simp_all add: fold_unit_def split_beta Let_def)

lemma record_unit_view:
  "rn_sinks (record_unit U w sha out cu r) = (if cu_succeeded out then rn_sinks (fold_unit U w sha cu r) else rn_sinks r)"
  "rn_delta_rows (record_unit U w sha out cu r) = (if cu_succeeded out then rn_delta_rows r + of_nat (snd (dedup_tables cu)) else rn_delta_rows r)"
  "rn_acc (record_unit U w sha out cu r) = rn_acc r" "rn_file_ids (record_unit U w sha out cu r) = rn_file_ids r"
  "rn_next_shard (record_unit U w sha out cu r) = rn_next_shard r" "rn_shards (record_unit U w sha out cu r) = rn_shards r"
  "rn_shas (record_unit U w sha out cu r) = rn_shas r"
  by (simp_all add: record_unit_def fold_unit_view Let_def)

text \<open>A start: fresh sinks, and shard indices below the next one.\<close>

definition start_ok :: "run_state \<Rightarrow> bool" where
  "start_ok r \<longleftrightarrow> (\<forall>s \<in> set (rn_sinks r). s = sink_default) \<and> ac_builder (rn_acc r) = builder_new \<and> rn_delta_rows r = 0 \<and>
     alloc_ok (rn_file_ids r) \<and> (\<forall>i \<in> fst ` set (rn_shards r). i < rn_next_shard r)"

lemma builder_ok_dedup: "builder_ok cu \<Longrightarrow> builder_ok (fst (dedup_tables cu))"
  using builder_ok_step [of cu DedupTables] by simp

lemma run_shape:
  assumes "run_steps U every budget r0 r h bs lost" and "start_ok r0"
  shows "(\<forall>s \<in> set (rn_sinks r). sink_ok s) \<and> ac_builder (rn_acc r) = builder_new \<and> alloc_ok (rn_file_ids r)"
  using assms(1)
proof induction
  case start
  then show ?case using assms(2) by (simp add: start_ok_def) (metis sink_default_ok)
next
  case (unit r h bs lost w cu sha out)
  let ?s = "rn_sinks r ! w"
  have "sink_ok ?s" using unit by simp
  then have "sink_ok \<lparr> ws_builder = merge_from U (ws_builder ?s) (fst (dedup_tables cu)), ws_pending_shas = ws_pending_shas ?s @ [sha] \<rparr>"
    using unit.hyps(3) by (simp add: sink_ok_def builder_ok_merge_from builder_ok_dedup)
  then show ?case using unit by (auto simp: record_unit_view fold_unit_view dest: set_update_subset_insert [THEN subsetD])
next
  case (snap r h bs lost busy n shard_ok shas_ok res r')
  note view = snapshot_cases(1-5) [OF snap.hyps(5)]
  show ?case using snap view set_left_over [OF snap.hyps(2)] by auto
qed simp

text \<open>The gauge counts the rows that wait in the sinks.\<close>

definition waiting :: "worker_sink list \<Rightarrow> nat" where
  "waiting sinks = sum_list (map (\<lambda>s. delta_row_count (ws_builder s)) sinks)"

lemma waiting_split: "length busy = length sinks \<Longrightarrow> waiting sinks = waiting (taken busy sinks) + waiting (left_over busy sinks)"
  by (induction busy sinks rule: list_induct2)
    (simp_all add: waiting_def taken_def left_over_def sink_default_def builder_new_def delta_row_count_def)

lemma waiting_update:
  assumes "w < length sinks"
  shows "waiting (sinks[w := s]) + delta_row_count (ws_builder (sinks ! w)) = waiting sinks + delta_row_count (ws_builder s)"
  using assms
proof (induction sinks arbitrary: w)
  case (Cons x sinks)
  then show ?case by (cases w) (simp_all add: waiting_def)
qed simp

lemma run_gauge:
  assumes "run_steps U every budget r0 r h bs lost" and "start_ok r0"
  shows "rn_delta_rows r = of_nat (waiting (rn_sinks r))"
  using assms(1)
proof induction
  case start
  have "waiting sinks = 0" if "\<forall>s \<in> set sinks. s = sink_default" for sinks
    using that by (induction sinks) (simp_all add: waiting_def sink_default_def builder_new_def delta_row_count_def)
  then show ?case using assms(2) by (simp add: start_ok_def)
next
  case (unit r h bs lost w cu sha out)
  let ?s = "\<lparr> ws_builder = merge_from U (ws_builder (rn_sinks r ! w)) (fst (dedup_tables cu)), ws_pending_shas = ws_pending_shas (rn_sinks r ! w) @ [sha] \<rparr>"
  have "delta_row_count (ws_builder ?s) = delta_row_count (ws_builder (rn_sinks r ! w)) + snd (dedup_tables cu)"
    by (simp add: delta_row_count_def merge_from_def dedup_tables_def Let_def)
  then have "waiting ((rn_sinks r)[w := ?s]) = waiting (rn_sinks r) + snd (dedup_tables cu)"
    using waiting_update [OF unit.hyps(2), of ?s] by simp
  then show ?case using unit.IH by (simp add: record_unit_view fold_unit_view)
next
  case (snap r h bs lost busy n shard_ok shas_ok res r')
  note view = snapshot_cases(1,3) [OF snap.hyps(5)]
  show ?case using snap.IH view waiting_split [OF snap.hyps(2)] by (simp add: waiting_def [symmetric])
qed simp

text \<open>Every sha that a sink holds, or that is committed, belongs to a unit whose rows the sink, or a shard, covers.\<close>

definition pending_ok :: "(bytes \<times> index_builder) list \<Rightarrow> worker_sink \<Rightarrow> bool" where
  "pending_ok h s \<longleftrightarrow> (\<forall>sha \<in> set (ws_pending_shas s). \<exists>cu. (sha, cu) \<in> set h \<and> covers (ws_builder s) cu)"

definition durable :: "(bytes \<times> index_builder) list \<Rightarrow> index_builder list \<Rightarrow> bytes \<Rightarrow> bool" where
  "durable h bs sha \<longleftrightarrow> (\<exists>cu b. (sha, cu) \<in> set h \<and> b \<in> set bs \<and> covers b cu)"

lemma pending_ok_mono: "pending_ok h s \<Longrightarrow> set h \<subseteq> set h' \<Longrightarrow> pending_ok h' s"
  unfolding pending_ok_def by blast

lemma durable_mono: "durable h bs sha \<Longrightarrow> set h \<subseteq> set h' \<Longrightarrow> set bs \<subseteq> set bs' \<Longrightarrow> durable h' bs' sha"
  unfolding durable_def by blast

lemma snapshot_covers: "s \<in> set (taken busy (rn_sinks r)) \<Longrightarrow> covers (snapshot_delta U busy r) (ws_builder s)"
  unfolding snapshot_delta_def by (rule covers_trans [OF covers_push(1)]) (rule covers_fold(2), simp)

lemma staged_durable:
  assumes "\<forall>s \<in> set (rn_sinks r). pending_ok h s" and "sha \<in> set (concat (map ws_pending_shas (taken busy (rn_sinks r))))"
  shows "durable h (bs @ [snapshot_delta U busy r]) sha"
proof -
  obtain s where s: "s \<in> set (taken busy (rn_sinks r))" "sha \<in> set (ws_pending_shas s)" using assms(2) by auto
  then obtain cu where "(sha, cu) \<in> set h" "covers (ws_builder s) cu"
    using assms(1) set_taken unfolding pending_ok_def by blast
  then show ?thesis using covers_trans [OF snapshot_covers [OF s(1)]] by (auto simp: durable_def)
qed

lemma run_durable:
  assumes "run_steps U every budget r0 r h bs lost" and "start_ok r0"
  shows "(\<forall>s \<in> set (rn_sinks r). pending_ok h s) \<and>
    (\<forall>sha \<in> set (ac_committed_shas (rn_acc r)). sha \<in> set (ac_committed_shas (rn_acc r0)) \<or> durable h bs sha) \<and>
    (rn_shas r = rn_shas r0 \<or> (\<exists>shas. rn_shas r = Some (write_partial_shas shas) \<and>
       (\<forall>sha \<in> set shas. sha \<in> set (ac_committed_shas (rn_acc r0)) \<or> durable h bs sha)))"
  using assms(1)
proof induction
  case start
  have "\<forall>s \<in> set (rn_sinks r0). pending_ok [] s" using assms(2) by (auto simp: start_ok_def pending_ok_def sink_default_def)
  then show ?case by simp
next
  case (intern r h bs lost ids)
  then show ?case by simp
next
  case (unit r h bs lost w cu sha out)
  define h' where "h' = (if cu_succeeded out then h @ [(sha, cu)] else h)"
  have h': "set h \<subseteq> set h'" by (auto simp: h'_def)
  let ?s = "\<lparr> ws_builder = merge_from U (ws_builder (rn_sinks r ! w)) (fst (dedup_tables cu)), ws_pending_shas = ws_pending_shas (rn_sinks r ! w) @ [sha] \<rparr>"
  have "pending_ok h (rn_sinks r ! w)" using unit by simp
  then have "pending_ok (h @ [(sha, cu)]) ?s"
    unfolding pending_ok_def using covers_trans [OF covers_merge(1)] covers_trans [OF covers_merge(2) covers_dedup] by fastforce
  then have "\<forall>s \<in> set (rn_sinks (record_unit U w sha out cu r)). pending_ok h' s"
    using unit.IH pending_ok_mono [OF _ h']
    by (auto simp: record_unit_view fold_unit_view h'_def dest: set_update_subset_insert [THEN subsetD])
  then show ?case
    unfolding h'_def [symmetric] record_unit_view using unit.IH durable_mono [OF _ h' order_refl] by blast
next
  case (snap r h bs lost busy n shard_ok shas_ok res r')
  note view = snapshot_cases [OF snap.hyps(5)]
  define bs' where "bs' = (if res = Snapped then bs @ [snapshot_delta U busy r] else bs)"
  let ?old = "ac_committed_shas (rn_acc r)" and ?new = "concat (map ws_pending_shas (taken busy (rn_sinks r)))"
  have bs': "set bs \<subseteq> set bs'" by (auto simp: bs'_def)
  have "pending_ok h sink_default" by (simp add: pending_ok_def sink_default_def)
  then have sinks: "\<forall>s \<in> set (rn_sinks r'). pending_ok h s" using snap.IH view(1) set_left_over [OF snap.hyps(2)] by auto
  have old: "\<forall>sha \<in> set ?old. sha \<in> set (ac_committed_shas (rn_acc r0)) \<or> durable h bs' sha"
    and disk: "rn_shas r = rn_shas r0 \<or> (\<exists>shas. rn_shas r = Some (write_partial_shas shas) \<and>
       (\<forall>sha \<in> set shas. sha \<in> set (ac_committed_shas (rn_acc r0)) \<or> durable h bs' sha))"
    using snap.IH durable_mono [OF _ order_refl bs'] by blast+
  show ?case
  proof (cases "res = Snapped")
    case True
    have new: "\<forall>sha \<in> set ?new. durable h bs' sha"
      using staged_durable [of r h _ busy bs U] snap.IH True by (simp add: bs'_def)
    have "rn_shas r' = rn_shas r \<or> rn_shas r' = Some (write_partial_shas (sort (?old @ ?new)))" using view(7) [OF True] by simp
    moreover have "\<forall>sha \<in> set (sort (?old @ ?new)). sha \<in> set (ac_committed_shas (rn_acc r0)) \<or> durable h bs' sha"
      using old new by auto
    ultimately have "rn_shas r' = rn_shas r0 \<or> (\<exists>shas. rn_shas r' = Some (write_partial_shas shas) \<and>
       (\<forall>sha \<in> set shas. sha \<in> set (ac_committed_shas (rn_acc r0)) \<or> durable h bs' sha))" using disk by metis
    moreover have "\<forall>sha \<in> set (ac_committed_shas (rn_acc r')). sha \<in> set (ac_committed_shas (rn_acc r0)) \<or> durable h bs' sha"
      using view(8) [OF True] old new by auto
    ultimately show ?thesis unfolding bs'_def [symmetric] using sinks by blast
  next
    case False
    have "ac_committed_shas (rn_acc r') = ?old" using view(9) [OF False] view(10) [OF False] by simp
    then show ?thesis unfolding bs'_def [symmetric] using sinks old disk view(9) [OF False] by simp
  qed
qed

section \<open>Shards on disk\<close>

lemma builder_ok_snapshot:
  assumes "\<forall>s \<in> set (rn_sinks r). sink_ok s" and "ac_builder (rn_acc r) = builder_new" and "alloc_ok (rn_file_ids r)"
  shows "builder_ok (snapshot_delta U busy r)" and "builder_ok (final_delta U r)"
proof -
  have "\<forall>x \<in> set (map ws_builder (taken busy (rn_sinks r))). builder_ok x" "\<forall>x \<in> set (map ws_builder (rn_sinks r)). builder_ok x"
    using assms(1) set_taken [of busy "rn_sinks r"] by (auto simp: sink_ok_def)
  then show "builder_ok (snapshot_delta U busy r)" "builder_ok (final_delta U r)"
    unfolding snapshot_delta_def final_delta_def assms(2)
    by (simp_all add: builder_ok_push [OF assms(3)] builder_ok_gathered builder_ok_new)
qed

text \<open>A shard never replaces another, and the new ones hold the written builders in order.\<close>

lemma run_shards:
  assumes "run_steps U every budget r0 r h bs lost" and "start_ok r0"
  shows "rn_next_shard r0 \<le> rn_next_shard r \<and>
    (\<exists>new. rn_shards r = rn_shards r0 @ new \<and> list_all2 (\<lambda>(i, fl) b. finish b = Some fl \<and> builder_ok b) new bs \<and>
      sorted_wrt (<) (map fst new) \<and> (\<forall>i \<in> fst ` set new. rn_next_shard r0 \<le> i \<and> i < rn_next_shard r))"
  using assms(1)
proof induction
  case start
  show ?case by simp
next
  case (snap r h bs lost busy n shard_ok shas_ok res r')
  note view = snapshot_cases [OF snap.hyps(5)]
  obtain new where new: "rn_next_shard r0 \<le> rn_next_shard r" "rn_shards r = rn_shards r0 @ new"
    "list_all2 (\<lambda>(i, fl) b. finish b = Some fl \<and> builder_ok b) new bs" "sorted_wrt (<) (map fst new)"
    "\<forall>i \<in> fst ` set new. rn_next_shard r0 \<le> i \<and> i < rn_next_shard r" using snap.IH by blast
  let ?i = "rn_next_shard r"
  have lt: "?i < ?i + 1" using less_succ_iff [OF snap.hyps(4), of ?i] by simp
  have next': "rn_next_shard r' = ?i + 1" by (rule view(2))
  have below: "rn_next_shard r0 \<le> ?i + 1" "\<forall>i \<in> fst ` set new. rn_next_shard r0 \<le> i \<and> i < ?i + 1"
    using new(1,5) lt by auto
  show ?case
  proof (cases "res = Snapped")
    case True
    obtain fl where fl: "finish (snapshot_delta U busy r) = Some fl" "rn_shards r' = hm_insert ?i fl (rn_shards r)"
      using view(6) [OF True] by blast
    have "i < ?i" if "i \<in> fst ` set (rn_shards r)" for i
    proof -
      have "i \<in> fst ` set (rn_shards r0) \<or> i \<in> fst ` set new" using that unfolding new(2) by auto
      moreover have "i < rn_next_shard r0" if "i \<in> fst ` set (rn_shards r0)" using assms(2) that unfolding start_ok_def by blast
      ultimately show ?thesis using new(1,5) order.strict_trans2 by blast
    qed
    then have "?i \<notin> fst ` set (rn_shards r)" by blast
    then have "rn_shards r' = rn_shards r @ [(?i, fl)]" unfolding fl(2) by (rule hm_entry_fresh)
    then have "rn_shards r' = rn_shards r0 @ (new @ [(?i, fl)])" by (simp add: new(2))
    moreover have "builder_ok (snapshot_delta U busy r)"
      using builder_ok_snapshot(1) run_shape [OF snap.hyps(1) assms(2)] by blast
    then have "list_all2 (\<lambda>(i, fl) b. finish b = Some fl \<and> builder_ok b) (new @ [(?i, fl)]) (bs @ [snapshot_delta U busy r])"
      using new(3) fl(1) by (simp add: list_all2_appendI)
    moreover have "sorted_wrt (<) (map fst (new @ [(?i, fl)]))" using new(4,5) by (auto simp: sorted_wrt_append)
    moreover have "\<forall>i \<in> fst ` set (new @ [(?i, fl)]). rn_next_shard r0 \<le> i \<and> i < ?i + 1" using below(2) new(1) lt by auto
    ultimately show ?thesis unfolding next' using True below(1) by auto
  next
    case False
    then show ?thesis unfolding next' using view(9) [OF False] new below by auto
  qed
qed (simp_all add: record_unit_view)

section \<open>Nothing is lost\<close>

text \<open>The rows of one table that wait in the sinks.\<close>

definition held :: "(index_builder \<Rightarrow> 'a list) \<Rightarrow> worker_sink list \<Rightarrow> 'a set" where
  "held rows sinks = (\<Union>s \<in> set sinks. set (rows (ws_builder s)))"

text \<open>A table of rows that merging unites and that deduplication and file names leave alone; the content
  that is written keeps the rows of some of them.\<close>

locale unit_table =
  fixes rows :: "index_builder \<Rightarrow> 'a list"
  assumes new: "rows builder_new = []"
    and merge: "set (rows (merge_from U a b)) = set (rows a) \<union> set (rows b)"
    and dedup: "set (rows (fst (dedup_tables b))) = set (rows b)"
    and names: "rows (b\<lparr> b_files := fs \<rparr>) = rows b"
begin

lemma push: "rows (push_to ids b) = rows b" "rows (drain_into ids b) = rows b"
proof -
  obtain fs where "push_rows (fa_table ids) b = b\<lparr> b_files := fs \<rparr>" using push_rows_tables by blast
  then show "rows (push_to ids b) = rows b" "rows (drain_into ids b) = rows b" by (simp_all add: push_to_def drain_into_def names)
qed

lemma gather: "set (rows (foldl (merge_from U) b bs)) = set (rows b) \<union> (\<Union>x \<in> set bs. set (rows x))"
  by (induction bs arbitrary: b) (auto simp: merge)

lemma held_split: "length busy = length sinks \<Longrightarrow> held rows sinks = held rows (taken busy sinks) \<union> held rows (left_over busy sinks)"
  by (induction busy sinks rule: list_induct2) (auto simp: held_def taken_def left_over_def sink_default_def new)

lemma held_update:
  assumes "w < length sinks" and "set (rows (ws_builder s)) = set (rows (ws_builder (sinks ! w))) \<union> R"
  shows "held rows (sinks[w := s]) = held rows sinks \<union> R"
  using assms
proof (induction sinks arbitrary: w)
  case (Cons x sinks)
  then show ?case by (cases w) (auto simp: held_def)
qed simp

lemma conserved:
  assumes "run_steps U every budget r0 r h bs lost" and "start_ok r0" and "\<not> lost"
  shows "held rows (rn_sinks r) \<union> (\<Union>b \<in> set bs. set (rows b)) = (\<Union>(sha, cu) \<in> set h. set (rows cu))"
  using assms(1,3)
proof induction
  case start
  have "held rows (rn_sinks r0) = {}" using assms(2) by (auto simp: start_ok_def held_def sink_default_def new)
  then show ?case by simp
next
  case (unit r h bs lost w cu sha out)
  let ?s = "\<lparr> ws_builder = merge_from U (ws_builder (rn_sinks r ! w)) (fst (dedup_tables cu)), ws_pending_shas = ws_pending_shas (rn_sinks r ! w) @ [sha] \<rparr>"
  have "held rows ((rn_sinks r)[w := ?s]) = held rows (rn_sinks r) \<union> set (rows cu)"
    by (rule held_update [OF unit.hyps(2)]) (simp add: merge dedup)
  then show ?case using unit by (auto simp: record_unit_view fold_unit_view)
next
  case (snap r h bs lost busy n shard_ok shas_ok res r')
  note view = snapshot_cases(1) [OF snap.hyps(5)]
  have res: "res = Snapped" "\<not> lost" using snap.prems by auto
  have "ac_builder (rn_acc r) = builder_new" using run_shape [OF snap.hyps(1) assms(2)] by blast
  then have "set (rows (snapshot_delta U busy r)) = held rows (taken busy (rn_sinks r))"
    by (simp add: snapshot_delta_def push gather new held_def)
  then show ?case using snap.IH [OF res(2)] held_split [OF snap.hyps(2)] by (auto simp: view res(1))
qed simp

end

interpretation unit_xrefs: unit_table b_xrefs
  by unfold_locales (auto simp: builder_new_def merge_from_def dedup_tables_def set_sort_dedup Let_def)

interpretation unit_inherits: unit_table b_inherits
  by unfold_locales (auto simp: builder_new_def merge_from_def dedup_tables_def set_sort_dedup Let_def)

interpretation unit_calls: unit_table b_calls
  by unfold_locales (auto simp: builder_new_def merge_from_def dedup_tables_def set_sort_dedup Let_def)

interpretation unit_childof: unit_table b_childof
  by unfold_locales (auto simp: builder_new_def merge_from_def dedup_tables_def set_sort_dedup Let_def)

interpretation unit_aliases: unit_table b_aliases
  by unfold_locales (auto simp: builder_new_def merge_from_def dedup_tables_def set_sort_dedup Let_def)

interpretation unit_typed: unit_table b_typed
  by unfold_locales (auto simp: builder_new_def merge_from_def dedup_tables_def set_sort_dedup Let_def)

interpretation unit_sigs: unit_table b_sig
  by unfold_locales (auto simp: builder_new_def merge_from_def dedup_tables_def set_sort_dedup Let_def)

text \<open>Tables whose rows a written index keeps.\<close>

locale kept_table = unit_table +
  assumes kept: "set (rows (content_builder (finish_content b))) = set (rows b)"
begin

lemma merged:
  "set (rows (merge_from U (gathered U (map content_builder (map finish_content bs))) b)) =
    (\<Union>x \<in> set bs. set (rows x)) \<union> set (rows b)"
  by (simp add: merge gather new kept)

end

interpretation kept_xrefs: kept_table b_xrefs
  by unfold_locales (simp add: content_builder_def finish_content_def set_sort_dedup)

interpretation kept_inherits: kept_table b_inherits
  by unfold_locales (simp add: content_builder_def finish_content_def set_sort_dedup)

interpretation kept_calls: kept_table b_calls
  by unfold_locales (simp add: content_builder_def finish_content_def set_sort_dedup)

interpretation kept_childof: kept_table b_childof
  by unfold_locales (simp add: content_builder_def finish_content_def set_sort_dedup)

text \<open>The builder whose file the final merge writes.\<close>

definition everything :: "unicode_tables \<Rightarrow> index_builder list \<Rightarrow> run_state \<Rightarrow> index_builder" where
  "everything U bs r = merge_from U (gathered U (map content_builder (map finish_content bs))) (final_delta U r)"

context kept_table
begin

lemma complete:
  assumes "run_steps U every budget r0 r h bs False" and "start_ok r0"
  shows "set (rows (everything U (old @ bs) r)) = (\<Union>b \<in> set old. set (rows b)) \<union> (\<Union>(sha, cu) \<in> set h. set (rows cu))"
proof -
  have "ac_builder (rn_acc r) = builder_new" using run_shape [OF assms] by blast
  then have "set (rows (final_delta U r)) = held rows (rn_sinks r)"
    by (simp add: final_delta_def push gather new held_def)
  then show ?thesis using conserved [OF assms] unfolding everything_def merged by auto
qed

end

section \<open>The output\<close>

lemma open_written_shards:
  assumes "list_all2 (\<lambda>(i, fl) b. finish b = Some fl \<and> builder_ok b) new bs"
    and "\<forall>b \<in> set bs. content_bounded (finish_content b)"
  shows "\<exists>ixs. open_all (map snd new) = Inr ixs \<and> list_all2 indexed bs ixs"
  using assms
proof (induction new bs rule: list_all2_induct)
  case (Cons x new b bs)
  obtain i fl where x: "x = (i, fl)" by (cases x)
  obtain ix where "index_open fl = Inr ix" "indexed b ix"
    using index_exists [of b] Cons.hyps(1) Cons.prems by (auto simp: x)
  then show ?case using Cons by (auto simp: x)
qed simp

lemma sorted_wrt_sort_key: "sorted_wrt (<) (map fst xs) \<Longrightarrow> sort_key fst xs = (xs :: ('k :: linorder \<times> 'v) list)"
  by (rule sort_key_id_if_sorted) (simp add: strict_sorted_iff)

lemma final_merge_output:
  assumes "run_steps U every budget r0 r h bs False" and "start_ok r0"
    and "list_all2 (\<lambda>(i, fl) b. finish b = Some fl \<and> builder_ok b) (rn_shards r0) old" and "sorted_wrt (<) (map fst (rn_shards r0))"
    and "\<forall>b \<in> set (old @ bs). content_bounded (finish_content b)" and "content_bounded (finish_content (everything U (old @ bs) r))"
  shows "\<exists>fl ix. final_merge U None r = Some (Inr fl) \<and> index_open fl = Inr ix \<and> indexed (everything U (old @ bs) r) ix"
proof -
  obtain new where new: "rn_shards r = rn_shards r0 @ new" "list_all2 (\<lambda>(i, fl) b. finish b = Some fl \<and> builder_ok b) new bs"
    "sorted_wrt (<) (map fst new)" "\<forall>i \<in> fst ` set new. rn_next_shard r0 \<le> i" using run_shards [OF assms(1,2)] by blast
  have all: "list_all2 (\<lambda>(i, fl) b. finish b = Some fl \<and> builder_ok b) (rn_shards r) (old @ bs)"
    unfolding new(1) using assms(3) new(2) by (rule list_all2_appendI)
  have "i < j" if "i \<in> set (map fst (rn_shards r0))" "j \<in> set (map fst new)" for i j
    using assms(2) new(4) that unfolding start_ok_def by (metis list.set_map order.strict_trans2)
  then have "sorted_wrt (<) (map fst (rn_shards r))" using assms(4) new(3) by (simp add: new(1) sorted_wrt_append)
  note sorted = sorted_wrt_sort_key [OF this]
  obtain ixs where ixs: "open_all (map snd (rn_shards r)) = Inr ixs" "list_all2 indexed (old @ bs) ixs"
    using open_written_shards [OF all assms(5)] by blast
  have fd: "builder_ok (final_delta U r)" using builder_ok_snapshot(2) run_shape [OF assms(1,2)] by blast
  let ?P = "gathered U (map content_builder (map finish_content (old @ bs)))"
  have P: "replay_all U ixs builder_new = Some ?P"
    using indexed_contents [OF ixs(2)] replay_all_contents by blast
  note out = merged_is_finished [OF ixs(2) fd P, folded everything_def, OF assms(6)]
  obtain fl ix where "finish (everything U (old @ bs) r) = Some fl" "index_open fl = Inr ix" "indexed (everything U (old @ bs) r) ix"
    using index_exists [OF out(2) assms(6)] by blast
  then show ?thesis using out(1) ixs(1) sorted by (simp add: final_merge_def)
qed

text \<open>Once a checkpoint was written there is a shard.\<close>

lemma checkpoint_shard:
  assumes "run_steps U every budget r0 r h bs lost"
  shows "rn_shas r = rn_shas r0 \<or> bs \<noteq> []"
  using assms
proof induction
  case (snap r h bs lost busy n shard_ok shas_ok res r')
  then show ?case using snapshot_cases(9) [OF snap.hyps(5)] by (cases "res = Snapped") auto
qed (simp_all add: record_unit_view)

section \<open>Indexing several streams\<close>

lemma stream_next:
  assumes "list_all framed es" and "ingest_stream H U (frames es) b a = (res, b', a')"
  shows "unat (fa_next a') \<le> unat (fa_next a) + length es"
proof -
  have run: "unat (fa_next (in_files (run_entries H U es cx))) \<le> unat (fa_next (in_files cx)) + length es" for cx
  proof (induction es arbitrary: cx)
    case (Cons e es)
    show ?case using Cons [of "process_entry H U e (count_entry cx)"] process_next [of H U e "count_entry cx"]
      by (simp add: run_entries_def count_entry_view)
  qed (simp add: run_entries_def)
  have "a' = in_files (run_entries H U es (ingest_start b a))"
    using assms(2) ingest_frames [OF assms(1), of H U False b a] by (simp add: ingest_stream_def Let_def ingest_finish_def)
  then show ?thesis using run [of "ingest_start b a"] by (simp add: ingest_start_def)
qed

text \<open>What a list of entries states, under canonical symbols.\<close>

definition stated :: "(bytes \<Rightarrow> u64) \<Rightarrow> entry list \<Rightarrow> (u64 \<times> u8 \<times> bytes \<times> u32) set" where
  "stated H es = {(canonical H es s, r, p, v) | s r p v. (s, r, p, v) \<in> xref_facts H (set es)}"

lemma index_streams_located:
  assumes "stream_ready b a" and "list_all (\<lambda>es. list_all framed es \<and> coherent (set es)) ess"
    and "unat (fa_next a) + sum_list (map length ess) < 2 ^ 32"
  shows "\<exists>b' a'. index_streams H U (map (\<lambda>es. Some (frames es)) ess) b a = Inr (b', a') \<and> stream_ready b' a' \<and>
    located b' = located b \<union> (\<Union>es \<in> set ess. stated H es)"
  using assms
proof (induction ess arbitrary: b a)
  case (Cons es ess)
  obtain res b1 a1 where run: "ingest_stream H U (frames es) b a = (res, b1, a1)" by (metis prod_cases3)
  have es: "list_all framed es" "coherent (set es)" "unat (fa_next a) + length es < 2 ^ 32" using Cons.prems by simp_all
  note one = stream_located [OF Cons.prems(1) es run]
  have "unat (fa_next a1) + sum_list (map length ess) < 2 ^ 32"
    using stream_next [OF es(1) run] Cons.prems(3) by simp
  then obtain b' a' where rest: "index_streams H U (map (\<lambda>es. Some (frames es)) ess) b1 a1 = Inr (b', a')" "stream_ready b' a'"
      "located b' = located b1 \<union> (\<Union>es \<in> set ess. stated H es)"
    using Cons.IH [OF one(2)] Cons.prems(2) by auto
  then show ?case using run one(1,3) by (auto simp: stated_def [symmetric] Un_assoc)
qed simp

text \<open>Recording the used paths changes nothing that a row refers to.\<close>

lemma drained_located:
  assumes "stream_ready b a"
  shows "located (drain_into a b) = located b"
proof -
  have keep: "map_of (b_files b) f = Some p \<Longrightarrow> map_of (b_files (push_rows rows b)) f = Some p" for rows b f p
  proof (induction rows b rule: push_rows.induct)
    case (2 q i accessed rows b)
    then show ?case by (cases "f = i") (auto simp: upsert_file_def)
  qed simp
  have "map_of (b_files (drain_into a b)) f = map_of (b_files b) f" if row: "(s, r, f, v) \<in> set (b_xrefs b)" for s r f v
  proof -
    obtain p where "map_of (b_files b) f = Some p" using assms row by (fastforce simp: stream_ready_def)
    then show ?thesis using keep by (simp add: drain_into_def)
  qed
  then show ?thesis by (auto simp: located_def push_unit_tables)
qed

section \<open>File ids over a resume\<close>

text \<open>The files of a builder have the ids that an allocator knows.\<close>

definition files_agree :: "file_ids \<Rightarrow> index_builder \<Rightarrow> bool" where
  "files_agree ids b \<longleftrightarrow> (\<forall>(i, p) \<in> set (b_files b). id_of ids p = Some i)"

lemma set_hm_or_insert: "set (hm_or_insert k v m) \<subseteq> insert (k, v) (set m)"
  by (induction m) (auto split: if_splits)

lemma set_merge_files: "set (merge_files_into m other) \<subseteq> set m \<union> set other"
proof (induction m other rule: merge_files_into.induct)
  case (2 m f p other)
  then show ?case using set_hm_or_insert [of f p m] by auto
qed simp

lemma files_agree_merge:
  assumes "files_agree ids a" and "files_agree ids b"
  shows "files_agree ids (merge_from U a b)"
  using assms set_merge_files [of "b_files a" "b_files b"] unfolding files_agree_def merge_from_def by fastforce

lemma files_agree_gather: "files_agree ids b \<Longrightarrow> \<forall>x \<in> set bs. files_agree ids x \<Longrightarrow> files_agree ids (foldl (merge_from U) b bs)"
  by (induction bs arbitrary: b) (simp_all add: files_agree_merge)

lemma files_agree_push:
  assumes "hm_ok (fa_table a)" and "extends a ids" and "files_agree ids b"
  shows "files_agree ids (push_to a b)"
proof -
  have "(\<And>p i ac. (p, i, ac) \<in> set rows \<Longrightarrow> id_of ids p = Some i) \<Longrightarrow> files_agree ids b \<Longrightarrow> files_agree ids (push_rows rows b)" for rows b
  proof (induction rows b rule: push_rows.induct)
    case (2 p i accessed rows b)
    have "id_of ids p = Some i" using 2(2) [of p i accessed] by simp
    then have "files_agree ids (upsert_file i p b)" using 2(3) set_hm_or_insert [of i p "b_files b"] unfolding files_agree_def upsert_file_def by fastforce
    moreover have "id_of ids q = Some j" if "(q, j, ac) \<in> set rows" for q j ac using 2(2) that by (metis list.set_intros(2))
    ultimately show ?case using 2(1,3) by simp
  qed simp
  moreover have "id_of ids p = Some i" if "(p, i, ac) \<in> set (fa_table a)" for p i ac
  proof -
    have "id_of a p = Some i" using assms(1) that by (simp add: id_of_def)
    then show ?thesis using assms(2) by (simp add: extends_def)
  qed
  ultimately show ?thesis using assms(3) by (simp add: push_to_def)
qed

lemma files_agree_dedup: "files_agree ids (fst (dedup_tables b)) = files_agree ids b"
  by (simp add: files_agree_def dedup_tables_def Let_def)

lemma files_agree_new [simp]: "files_agree ids builder_new"
  by (simp add: files_agree_def builder_new_def)

lemma run_files:
  assumes "run_steps U every budget r0 r h bs lost" and "start_ok r0"
    and "extends (rn_file_ids r) ids" and "\<forall>(sha, cu) \<in> set h. files_agree ids cu"
  shows "(\<forall>s \<in> set (rn_sinks r). files_agree ids (ws_builder s)) \<and> (\<forall>b \<in> set bs. files_agree ids b)"
  using assms(1,3,4)
proof induction
  case start
  then show ?case using assms(2) by (auto simp: start_ok_def sink_default_def)
next
  case (intern r h bs lost ids')
  then show ?case using extends_trans by simp
next
  case (unit r h bs lost w cu sha out)
  have IH: "\<forall>s \<in> set (rn_sinks r). files_agree ids (ws_builder s)" "\<forall>b \<in> set bs. files_agree ids b"
    using unit.IH unit.prems by (auto simp: record_unit_view split: if_splits)
  have "files_agree ids (ws_builder \<lparr> ws_builder = merge_from U (ws_builder (rn_sinks r ! w)) (fst (dedup_tables cu)),
      ws_pending_shas = ws_pending_shas (rn_sinks r ! w) @ [sha] \<rparr>)" if "cu_succeeded out"
    using that IH(1) unit.hyps(2) unit.prems(2) by (simp add: files_agree_merge files_agree_dedup)
  then show ?case using IH by (auto simp: record_unit_view fold_unit_view dest: set_update_subset_insert [THEN subsetD])
next
  case (snap r h bs lost busy n shard_ok shas_ok res r')
  note view = snapshot_cases(1-5) [OF snap.hyps(5)]
  note shape = run_shape [OF snap.hyps(1) assms(2)]
  have IH: "\<forall>s \<in> set (rn_sinks r). files_agree ids (ws_builder s)" "\<forall>b \<in> set bs. files_agree ids b"
    using snap.IH snap.prems view by auto
  have "files_agree ids (snapshot_delta U busy r)"
    unfolding snapshot_delta_def
    using shape IH(1) set_taken [of busy "rn_sinks r"] snap.prems(1) view
    by (intro files_agree_push files_agree_gather) (auto simp: alloc_ok_def)
  then show ?case using IH view(1) set_left_over [OF snap.hyps(2)] by (auto simp: sink_default_def)
qed

text \<open>Taking over the file tables of shards that agree with an allocator gives back its ids.\<close>

lemma seed_rows_agree:
  assumes "alloc_ok a" and "alloc_ok ids" and "extends a ids" and "\<forall>(i, p) \<in> set rows. id_of ids p = Some i"
  shows "alloc_ok (seed_rows rows a) \<and> extends a (seed_rows rows a) \<and> extends (seed_rows rows a) ids \<and>
    (\<forall>(i, p) \<in> set rows. id_of (seed_rows rows a) p = Some i)"
proof -
  have known: "utf8_valid p \<and> i \<noteq> - 1 \<and> (\<forall>q. id_of a q = Some i \<longrightarrow> q = p)" if "(i, p) \<in> set rows" for i p
  proof -
    have i: "id_of ids p = Some i" using assms(4) that by auto
    then have "utf8_valid p" "i < fa_next ids" using assms(2) by (auto simp: alloc_ok_def)
    moreover have "q = p" if "id_of a q = Some i" for q
      using assms(2,3) i that unfolding alloc_ok_def extends_def by blast
    ultimately show ?thesis using word_order.extremum_strict [of "fa_next ids"] by (metis)
  qed
  have "compatible_rows rows a"
    unfolding compatible_rows_def using known assms(2,4) unfolding alloc_ok_def by fast
  note ok = seed_rows_ok [OF assms(1) this]
  have sub: "extends a ids \<Longrightarrow> \<forall>(i, p) \<in> set rows. id_of ids p = Some i \<Longrightarrow> extends (seed_rows rows a) ids" for a rows
  proof (induction rows arbitrary: a)
    case (Cons row rows)
    obtain i p where row: "row = (i, p)" by (cases row)
    have "id_of (a\<lparr> fa_table := hm_or_insert p (i, False) (fa_table a) \<rparr>) = (if id_of a p = None then (id_of a)(p \<mapsto> i) else id_of a)"
      by (auto simp: id_of_def fun_eq_iff split: option.splits)
    then have "extends (a\<lparr> fa_table := hm_or_insert p (i, False) (fa_table a) \<rparr>) ids"
      using Cons.prems by (auto simp: extends_def row split: if_splits)
    then have "extends (let a' = a\<lparr> fa_table := hm_or_insert p (i, False) (fa_table a) \<rparr>
        in if fa_next a' \<le> i then a'\<lparr> fa_next := i + 1 \<rparr> else a') ids"
      by (simp add: extends_def id_of_def Let_def)
    then show ?case using Cons.IH Cons.prems(2) by (simp add: row Let_def)
  qed simp
  have "extends (seed_rows rows a) ids" using sub assms(3,4) by blast
  moreover have "id_of (seed_rows rows a) p = Some i" if "(i, p) \<in> set rows" for i p
    using ok calculation assms(4) that by (fastforce simp: extends_def)
  ultimately show ?thesis using ok by blast
qed

lemma seed_sources_agree:
  assumes "list_all2 (\<lambda>(i, fl) b. finish b = Some fl \<and> builder_ok b) shards bs"
    and "\<forall>b \<in> set bs. content_bounded (finish_content b) \<and> short_strings (finish_content b) \<and> files_agree ids b"
    and "alloc_ok a" and "alloc_ok ids" and "extends a ids"
  shows "\<exists>a'. seed_sources (map snd shards) a = Some a' \<and> alloc_ok a' \<and> extends a a' \<and> extends a' ids \<and>
    (\<forall>b \<in> set bs. files_agree a' b)"
  using assms(1,2,3,5)
proof (induction shards bs arbitrary: a rule: list_all2_induct)
  case Nil
  then show ?case by auto
next
  case (Cons x shards b bs)
  obtain i fl where x: "x = (i, fl)" "finish b = Some fl" "builder_ok b" using Cons.hyps(1) by (cases x) auto
  obtain ix where ix: "index_open fl = Inr ix" "indexed b ix" using index_exists [OF x(3)] x(2) Cons.prems(1) by auto
  obtain t where t: "content_fits (finish_content b) t" "ix = opened t" using ix(2) by (rule indexedE)
  have "iter_files ix = Some (sort_key fst (b_files b))"
    using string_iters_content(1) [OF t(1)] Cons.prems(1) map_clamp_short(1) [of "c_files (finish_content b)"]
    by (simp add: t(2) short_strings_def) (simp add: finish_content_def)
  moreover have rows: "\<forall>(i, p) \<in> set (sort_key fst (b_files b)). id_of ids p = Some i" using Cons.prems(1) by (simp add: files_agree_def)
  note one = seed_rows_agree [OF Cons.prems(2) assms(4) Cons.prems(3) rows]
  let ?a = "seed_rows (sort_key fst (b_files b)) a"
  obtain a' where a': "seed_sources (map snd shards) ?a = Some a'" "alloc_ok a'" "extends ?a a'" "extends a' ids" "\<forall>b \<in> set bs. files_agree a' b"
    using Cons.IH [of ?a] Cons.prems(1) one by auto
  have "files_agree a' b" using one a'(3) by (auto simp: files_agree_def extends_def)
  ultimately show ?case using a' one extends_trans [of a ?a a'] ix(1) by (auto simp: x(1) seed_from_def)
qed

end
