(* ===== verification/S2_Incremental.thy ===== *)
theory S2_Incremental
  imports S2_Run
begin

text \<open>
  The incremental mode of \<^verbatim>\<open>from-kzip\<close> (\<open>src/crates/scry2/src/main.rs\<close>): a unit whose shard is cached is
  copied into the build, others are indexed, written as a shard with local file ids and stored; the
  shards are coalesced level by level and merged. The units come in the order in which the workers
  reach them; the outcome of the file operations is an input.
\<close>

section \<open>Units\<close>

record build_state =
  bd_cache :: shard_cache
  bd_next :: u64
  bd_shards :: "(u64 \<times> bytes) list"
  bd_hits :: nat
  bd_stored :: nat

definition add_shard :: "bytes \<Rightarrow> build_state \<Rightarrow> build_state" where
  "add_shard fl st = st\<lparr> bd_shards := hm_insert (bd_next st) fl (bd_shards st), bd_next := bd_next st + 1 \<rparr>"

text \<open>A copy that fails may leave what it has written so far.\<close>

datatype copy_outcome = Copied | CopyFailed "bytes option"

definition reuse_shard :: "copy_outcome \<Rightarrow> bytes \<Rightarrow> build_state \<Rightarrow> build_state" where
  "reuse_shard copy fl st =
     (case copy of
        Copied \<Rightarrow> (add_shard fl st)\<lparr> bd_hits := bd_hits st + 1 \<rparr>
      | CopyFailed (Some rest) \<Rightarrow> add_shard rest st
      | CopyFailed None \<Rightarrow> st\<lparr> bd_next := bd_next st + 1 \<rparr>)"

text \<open>The shard of a unit that was indexed.\<close>

definition unit_shard :: "index_builder \<Rightarrow> bytes option" where
  "unit_shard cu = finish (fst (localize_file_ids (fst (dedup_tables cu))))"

definition fresh_unit :: "bytes \<Rightarrow> bool \<Rightarrow> bytes \<Rightarrow> unit_outcome \<Rightarrow> index_builder \<Rightarrow> build_state \<Rightarrow> build_state option" where
  "fresh_unit pid store_ok digest out cu st =
     (if \<not> cu_succeeded out then Some st
      else case unit_shard cu of
             None \<Rightarrow> None
           | Some fl \<Rightarrow>
               let st' = add_shard fl st in
               (case (if store_ok then cache_store pid digest fl (bd_cache st') else None) of
                  None \<Rightarrow> Some st'
                | Some c \<Rightarrow> Some (st'\<lparr> bd_cache := c, bd_stored := bd_stored st' + 1 \<rparr>)))"

definition cached_unit ::
    "bytes \<Rightarrow> copy_outcome \<Rightarrow> bool \<Rightarrow> bytes \<Rightarrow> unit_outcome \<Rightarrow> index_builder \<Rightarrow> build_state \<Rightarrow> build_state option" where
  "cached_unit pid copy store_ok digest out cu st =
     (if cache_contains (bd_cache st) digest then
        (case map_of (sc_shards (bd_cache st)) (shard_path digest) of
           None \<Rightarrow> fresh_unit pid store_ok digest out cu (st\<lparr> bd_next := bd_next st + 1 \<rparr>)
         | Some fl \<Rightarrow>
             let st' = reuse_shard copy fl st in
             if copy = Copied then Some st' else fresh_unit pid store_ok digest out cu st')
      else fresh_unit pid store_ok digest out cu st)"

text \<open>A run in which the file operations succeed.\<close>

fun cached_units :: "bytes \<Rightarrow> (bytes \<times> unit_outcome \<times> index_builder) list \<Rightarrow> build_state \<Rightarrow> build_state option" where
  "cached_units pid [] st = Some st"
| "cached_units pid ((digest, out, cu) # us) st =
     Option.bind (cached_unit pid Copied True digest out cu st) (cached_units pid us)"

section \<open>Coalescing\<close>

definition COALESCE_GROUP :: nat where "COALESCE_GROUP = 64"

text \<open>\<^verbatim>\<open>slice::chunks\<close>\<close>

function chunks :: "nat \<Rightarrow> 'a list \<Rightarrow> 'a list list" where
  "chunks n xs = (if xs = [] \<or> n = 0 then [] else take n xs # chunks n (drop n xs))"
  by pat_completeness auto
termination
  by (relation "measure (\<lambda>(n, xs). length xs)") auto

declare chunks.simps [simp del]

text \<open>The groups in order: a panic or an error of one is the result.\<close>

fun merge_groups :: "('a \<Rightarrow> (open_error + bytes) option) \<Rightarrow> 'a list \<Rightarrow> (open_error + bytes list) option" where
  "merge_groups f [] = Some (Inr [])"
| "merge_groups f (g # gs) =
     (case f g of
        None \<Rightarrow> None
      | Some (Inl e) \<Rightarrow> Some (Inl e)
      | Some (Inr fl) \<Rightarrow> map_option (map_sum id ((#) fl)) (merge_groups f gs))"

lemma length_chunks: "0 < n \<Longrightarrow> length (chunks n xs) = (length xs + n - 1) div n"
proof (induction n xs rule: chunks.induct)
  case (1 n xs)
  show ?case
  proof (cases "xs = []")
    case True
    then have "chunks n xs = []" by (subst chunks.simps) simp
    then show ?thesis using True 1(2) by simp
  next
    case False
    have rest: "length (chunks n (drop n xs)) = (length xs - n + n - 1) div n" using 1 False by simp
    have eq: "length xs + n - 1 = (length xs - 1) + n" using False by (cases xs) auto
    have all: "(length xs + n - 1) div n = Suc ((length xs - 1) div n)" unfolding eq using 1(2) by (simp add: div_add_self2)
    have "(length xs - n + n - 1) div n = (length xs - 1) div n"
    proof (cases "n \<le> length xs")
      case False
      then have "length xs - n + n - 1 < n" "length xs - 1 < n" using 1(2) by linarith+
      then show ?thesis by simp
    qed simp
    moreover have "length (chunks n xs) = Suc (length (chunks n (drop n xs)))"
      using False 1(2) by (simp add: chunks.simps [of n xs])
    ultimately show ?thesis using rest all by simp
  qed
qed

lemma merge_groups_length: "merge_groups f gs = Some (Inr level) \<Longrightarrow> length level = length gs"
proof (induction gs arbitrary: level)
  case (Cons g gs)
  obtain fl r where "f g = Some (Inr fl)" "merge_groups f gs = Some (Inr r)" "level = fl # r"
    using Cons.prems by (auto simp: map_sum_Inr_iff split: option.splits sum.splits)
  then show ?case using Cons.IH by simp
qed simp

lemma groups_shrink: "COALESCE_GROUP < length xs \<Longrightarrow> length (chunks COALESCE_GROUP xs) < length xs"
  by (simp add: length_chunks COALESCE_GROUP_def)

function coalesce_upper :: "unicode_tables \<Rightarrow> bytes list \<Rightarrow> (open_error + bytes list) option" where
  "coalesce_upper U level =
     (if COALESCE_GROUP < length level then
        (case merge_groups (merge_group_global U) (chunks COALESCE_GROUP level) of
           None \<Rightarrow> None
         | Some (Inl e) \<Rightarrow> Some (Inl e)
         | Some (Inr level') \<Rightarrow> coalesce_upper U level')
      else Some (Inr level))"
  by pat_completeness auto
termination
  by (relation "measure (\<lambda>(U, level). length level)") (auto dest!: merge_groups_length dest: groups_shrink)

declare coalesce_upper.simps [simp del]

definition coalesce :: "unicode_tables \<Rightarrow> bytes list \<Rightarrow> bytes list \<Rightarrow> (open_error + bytes list) option" where
  "coalesce U seed shards =
     (case merge_groups (\<lambda>grp. coalesce_shards_remapped U grp (map_of (global_of seed))) (chunks COALESCE_GROUP shards) of
        None \<Rightarrow> None
      | Some (Inl e) \<Rightarrow> Some (Inl e)
      | Some (Inr level) \<Rightarrow> coalesce_upper U level)"

definition incremental_output ::
    "unicode_tables \<Rightarrow> bytes list \<Rightarrow> index_builder \<Rightarrow> build_state \<Rightarrow> (open_error + bytes) option" where
  "incremental_output U seed remainder st =
     (case coalesce U seed (map snd (sort_key fst (bd_shards st))) of
        None \<Rightarrow> None
      | Some (Inl e) \<Rightarrow> Some (Inl e)
      | Some (Inr level) \<Rightarrow>
          (case open_all level of
             Inl e \<Rightarrow> Some (Inl e)
           | Inr ixs \<Rightarrow> map_option Inr (write_merged_snapshot U ixs remainder)))"

section \<open>Cached and fresh shards\<close>

text \<open>\<open>S\<close> is the shard that indexing the unit with a digest gives. A cache is sound for it when its hits
  are these shards.\<close>

definition cache_sound :: "(bytes \<Rightarrow> bytes) \<Rightarrow> shard_cache \<Rightarrow> bool" where
  "cache_sound S c \<longleftrightarrow> (\<forall>d. cache_contains c d \<longrightarrow> map_of (sc_shards c) (shard_path d) = Some (S d))"

text \<open>The units succeed, and what they are indexed to depends on their digest only.\<close>

definition reproducible :: "(bytes \<Rightarrow> bytes) \<Rightarrow> (bytes \<times> unit_outcome \<times> index_builder) list \<Rightarrow> bool" where
  "reproducible S us \<longleftrightarrow>
     list_all (\<lambda>(d, out, cu). cu_succeeded out \<and> unit_shard cu = Some (S d) \<and> \<not> isl (index_open (S d))) us"

definition indices_below :: "build_state \<Rightarrow> bool" where
  "indices_below st \<longleftrightarrow> (\<forall>i \<in> fst ` set (bd_shards st). i < bd_next st)"

lemma contains_iff: "cache_contains c d \<longleftrightarrow> (\<exists>fl. map_of (sc_shards c) (shard_path d) = Some fl \<and> \<not> isl (index_open fl))"
  by (auto simp: cache_contains_def split: option.split sum.split)

lemma store_sound:
  assumes "cache_store pid d (S d) c = Some c'" and "cache_sound S c"
  shows "cache_sound S c'" and "cache_contains c' e \<longleftrightarrow> (if e = d then \<not> isl (index_open (S d)) else cache_contains c e)"
proof -
  have look: "map_of (sc_shards c') (shard_path e) = (if e = d then Some (S d) else map_of (sc_shards c) (shard_path e))" for e
    using store_total [of pid d "S d" c] assms(1) by auto
  show "cache_contains c' e \<longleftrightarrow> (if e = d then \<not> isl (index_open (S d)) else cache_contains c e)" for e
    by (simp add: contains_iff look)
  then show "cache_sound S c'" using assms(2) by (simp add: cache_sound_def look)
qed

lemma add_shard_view:
  assumes "indices_below st" and "bd_next st \<noteq> - 1"
  shows "bd_shards (add_shard fl st) = bd_shards st @ [(bd_next st, fl)]" and "indices_below (add_shard fl st)"
    and "bd_next (add_shard fl st) = bd_next st + 1" and "bd_cache (add_shard fl st) = bd_cache st"
    and "bd_hits (add_shard fl st) = bd_hits st" and "bd_stored (add_shard fl st) = bd_stored st"
proof -
  have "bd_next st \<notin> fst ` set (bd_shards st)" using assms(1) unfolding indices_below_def by blast
  then show shards: "bd_shards (add_shard fl st) = bd_shards st @ [(bd_next st, fl)]" by (simp add: add_shard_def hm_entry_fresh)
  have "i < bd_next st + 1" if "i \<le> bd_next st" for i using less_succ_iff [OF assms(2)] that by simp
  then have "\<forall>i \<in> fst ` set (bd_shards st @ [(bd_next st, fl)]). i < bd_next st + 1"
    using assms(1) unfolding indices_below_def by (metis (no_types, lifting) UnE empty_iff fst_conv image_Un image_empty image_insert insert_iff less_imp_le list.set(1) list.simps(15) order_refl set_append)
  moreover show "bd_next (add_shard fl st) = bd_next st + 1" by (simp add: add_shard_def)
  ultimately show "indices_below (add_shard fl st)" unfolding indices_below_def shards by simp
qed (simp_all add: add_shard_def)

lemma cached_unit_step:
  assumes "cache_sound S (bd_cache st)" and "cu_succeeded out" and "unit_shard cu = Some (S d)" and "\<not> isl (index_open (S d))"
    and "indices_below st" and "bd_next st \<noteq> - 1"
  shows "\<exists>st'. cached_unit pid Copied True d out cu st = Some st' \<and> bd_shards st' = bd_shards st @ [(bd_next st, S d)] \<and>
    bd_next st' = bd_next st + 1 \<and> indices_below st' \<and> cache_sound S (bd_cache st') \<and>
    (\<forall>e. cache_contains (bd_cache st') e \<longleftrightarrow> cache_contains (bd_cache st) e \<or> e = d) \<and>
    bd_hits st' = bd_hits st + (if cache_contains (bd_cache st) d then 1 else 0) \<and>
    bd_stored st' = bd_stored st + (if cache_contains (bd_cache st) d then 0 else 1)"
proof -
  note added = add_shard_view [OF assms(5,6), of "S d"]
  have below: "indices_below (s\<lparr> bd_hits := n \<rparr>) = indices_below s" "indices_below (s\<lparr> bd_cache := c, bd_stored := n \<rparr>) = indices_below s" for s n c
    by (simp_all add: indices_below_def)
  show ?thesis
  proof (cases "cache_contains (bd_cache st) d")
    case True
    then have "map_of (sc_shards (bd_cache st)) (shard_path d) = Some (S d)" using assms(1) by (simp add: cache_sound_def)
    then show ?thesis
      using True assms(1) added by (auto simp: cached_unit_def reuse_shard_def Let_def below)
  next
    case False
    obtain c where c: "cache_store pid d (S d) (bd_cache st) = Some c" using store_total by blast
    note kept = store_sound [OF c assms(1)]
    show ?thesis
      using False assms(2-4) added c kept by (simp add: cached_unit_def fresh_unit_def Let_def below)
  qed
qed

lemma cached_units_run:
  assumes "cache_sound S (bd_cache st)" and "reproducible S us" and "indices_below st" and "unat (bd_next st) + length us < 2 ^ 64"
  shows "\<exists>st'. cached_units pid us st = Some st' \<and>
    bd_shards st' = bd_shards st @ zip (map (\<lambda>k. bd_next st + of_nat k) [0 ..< length us]) (map (\<lambda>(d, _). S d) us) \<and>
    cache_sound S (bd_cache st') \<and>
    (\<forall>e. cache_contains (bd_cache st') e \<longleftrightarrow> cache_contains (bd_cache st) e \<or> e \<in> fst ` set us) \<and>
    bd_hits st' + bd_stored st' = bd_hits st + bd_stored st + length us \<and>
    (fst ` set us \<subseteq> {d. cache_contains (bd_cache st) d} \<longrightarrow> bd_hits st' = bd_hits st + length us)"
  using assms
proof (induction us arbitrary: st)
  case (Cons u us)
  obtain d out cu where u: "u = (d, out, cu)" by (metis prod_cases3)
  have ne: "bd_next st \<noteq> - 1" using Cons.prems(4) by (auto simp: unsigned_minus_1_eq_mask mask_eq_exp_minus_1)
  have unit: "cu_succeeded out" "unit_shard cu = Some (S d)" "\<not> isl (index_open (S d))" "reproducible S us"
    using Cons.prems(2) by (simp_all add: reproducible_def u)
  obtain st1 where st1: "cached_unit pid Copied True d out cu st = Some st1" "bd_shards st1 = bd_shards st @ [(bd_next st, S d)]"
    "bd_next st1 = bd_next st + 1" "indices_below st1" "cache_sound S (bd_cache st1)"
    "\<And>e. cache_contains (bd_cache st1) e \<longleftrightarrow> cache_contains (bd_cache st) e \<or> e = d"
    "bd_hits st1 = bd_hits st + (if cache_contains (bd_cache st) d then 1 else 0)"
    "bd_stored st1 = bd_stored st + (if cache_contains (bd_cache st) d then 0 else 1)"
    using cached_unit_step [OF Cons.prems(1) unit(1-3) Cons.prems(3) ne] by blast
  have "unat (bd_next st + 1) = unat (bd_next st) + 1" using Cons.prems(4) by (simp add: unat_word_ariths)
  then have "unat (bd_next st1) + length us < 2 ^ 64" using Cons.prems(4) st1(3) by simp
  from Cons.IH [OF st1(5) unit(4) st1(4) this]
  obtain st' where st': "cached_units pid us st1 = Some st'"
    "bd_shards st' = bd_shards st1 @ zip (map (\<lambda>k. bd_next st1 + of_nat k) [0 ..< length us]) (map (\<lambda>(d, _). S d) us)"
    "cache_sound S (bd_cache st')" "\<And>e. cache_contains (bd_cache st') e \<longleftrightarrow> cache_contains (bd_cache st1) e \<or> e \<in> fst ` set us"
    "bd_hits st' + bd_stored st' = bd_hits st1 + bd_stored st1 + length us"
    "fst ` set us \<subseteq> {d. cache_contains (bd_cache st1) d} \<longrightarrow> bd_hits st' = bd_hits st1 + length us" by blast
  have "map (\<lambda>k. bd_next st + of_nat k) [0 ..< length (u # us)] = bd_next st # map (\<lambda>k. bd_next st1 + of_nat k) [0 ..< length us]"
    by (simp add: st1(3) map_upt_Suc add.assoc del: upt_Suc)
  then have "bd_shards st' = bd_shards st @ zip (map (\<lambda>k. bd_next st + of_nat k) [0 ..< length (u # us)]) (map (\<lambda>(d, _). S d) (u # us))"
    using st'(2) st1(2) by (simp add: u)
  moreover have "cached_units pid (u # us) st = Some st'" by (simp add: u st1(1) st'(1))
  moreover have "bd_hits st' + bd_stored st' = bd_hits st + bd_stored st + length (u # us)" using st'(5) st1(7,8) by simp
  moreover have "bd_hits st' = bd_hits st + length (u # us)" if "fst ` set (u # us) \<subseteq> {d. cache_contains (bd_cache st) d}"
    using that st'(6) st1(6,7) by (auto simp: u)
  moreover have "cache_contains (bd_cache st') e \<longleftrightarrow> cache_contains (bd_cache st) e \<or> e \<in> fst ` set (u # us)" for e
    using st'(4) st1(6) by (auto simp: u)
  ultimately show ?case using st'(3) by blast
qed simp

lemma finalize_sound:
  assumes "cache_sound S c"
  shows "cache_sound S (cache_finalize kept c)" and "cache_contains (cache_finalize kept c) d \<longleftrightarrow> d \<in> set kept \<and> cache_contains c d"
proof -
  show "cache_contains (cache_finalize kept c) d \<longleftrightarrow> d \<in> set kept \<and> cache_contains c d" for d
    by (simp add: contains_iff finalize_lookup)
  then show "cache_sound S (cache_finalize kept c)" using assms by (simp add: cache_sound_def finalize_lookup)
qed

section \<open>Fan-in\<close>

lemma chunks_eq_Nil: "0 < n \<Longrightarrow> chunks n xs = [] \<longleftrightarrow> xs = []"
  by (subst chunks.simps) simp

lemma coalesce_upper_bound:
  "coalesce_upper U level = Some (Inr out) \<Longrightarrow> length out \<le> COALESCE_GROUP \<and> (out = [] \<longleftrightarrow> level = [])"
proof (induction U level rule: coalesce_upper.induct)
  case (1 U level)
  show ?case
  proof (cases "COALESCE_GROUP < length level")
    case True
    obtain level' where l: "merge_groups (merge_group_global U) (chunks COALESCE_GROUP level) = Some (Inr level')" "coalesce_upper U level' = Some (Inr out)"
      using 1(2) True by (subst (asm) coalesce_upper.simps) (auto split: option.splits sum.splits)
    have "level' \<noteq> []" using merge_groups_length [OF l(1)] True by (auto simp: length_chunks COALESCE_GROUP_def)
    then show ?thesis using 1(1) [OF True l(1)] l(2) True by (auto simp: COALESCE_GROUP_def)
  next
    case False
    then show ?thesis using 1(2) by (subst (asm) coalesce_upper.simps) auto
  qed
qed

lemma coalesce_bound: "coalesce U seed shards = Some (Inr out) \<Longrightarrow> length out \<le> COALESCE_GROUP \<and> (out = [] \<longleftrightarrow> shards = [])"
proof -
  assume "coalesce U seed shards = Some (Inr out)"
  then obtain level where l: "merge_groups (\<lambda>grp. coalesce_shards_remapped U grp (map_of (global_of seed))) (chunks COALESCE_GROUP shards) = Some (Inr level)"
      "coalesce_upper U level = Some (Inr out)"
    by (auto simp: coalesce_def split: option.splits sum.splits)
  have "level = [] \<longleftrightarrow> chunks COALESCE_GROUP shards = []" using merge_groups_length [OF l(1)] by (metis length_0_conv)
  also have "\<dots> \<longleftrightarrow> shards = []" by (simp add: chunks_eq_Nil COALESCE_GROUP_def)
  finally show ?thesis using coalesce_upper_bound [OF l(2)] by blast
qed

end
