(* ===== verification/S2_Coalesce.thy ===== *)
theory S2_Coalesce
  imports S2_Incremental
begin

text \<open>
  The first coalescing level (\<open>src/crates/scry2/src/writer.rs\<close>, \<^verbatim>\<open>coalesce_shards_remapped\<close>): the shards of single
  units with local file ids become an index with the ranks of the build's candidate paths as ids, and
  every cross reference still names its path.
\<close>

section \<open>Remapping a shard\<close>

lemma map_of_l2g:
  "hm_ok files \<Longrightarrow> map_of (l2g_map g files acc) l =
    (case Option.bind (map_of files l) g of Some x \<Rightarrow> Some x | None \<Rightarrow> map_of acc l)"
proof (induction g files acc rule: l2g_map.induct)
  case (2 g k p files acc)
  have "k \<notin> fst ` set files" using 2(3) by simp
  then have "map_of files k = None" by (simp add: map_of_eq_None_iff)
  then show ?case using 2 by (cases "g p") (auto split: option.split)
qed simp

definition remapped :: "(bytes \<Rightarrow> u32 option) \<Rightarrow> index_builder \<Rightarrow> index_builder" where
  "remapped g b =
     (let l2g = map_of (l2g_map g (b_files b) [])
      in b\<lparr> b_xrefs := List.map_filter (\<lambda>(s, r, f, v). map_option (\<lambda>i. (s, r, i, v)) (l2g f)) (b_xrefs b),
            b_files := List.map_filter (\<lambda>(l, p). map_option (\<lambda>i. (i, p)) (l2g l)) (b_files b) \<rparr>)"

lemma fold_optional:
  "fold (\<lambda>(s, role, file, offset) b. case l2g file of None \<Rightarrow> b | Some g \<Rightarrow> add_xref s role g offset b) xs b =
    b\<lparr> b_xrefs := b_xrefs b @ List.map_filter (\<lambda>(s, r, f, v). map_option (\<lambda>i. (s, r, i, v)) (l2g f)) xs \<rparr>"
  "fold (\<lambda>(local, path) b. case l2g local of None \<Rightarrow> b | Some g \<Rightarrow> upsert_file g path b) files b =
    b\<lparr> b_files := merge_files_into (b_files b) (List.map_filter (\<lambda>(l, p). map_option (\<lambda>i. (i, p)) (l2g l)) files) \<rparr>"
proof -
  show "fold (\<lambda>(s, role, file, offset) b. case l2g file of None \<Rightarrow> b | Some g \<Rightarrow> add_xref s role g offset b) xs b =
      b\<lparr> b_xrefs := b_xrefs b @ List.map_filter (\<lambda>(s, r, f, v). map_option (\<lambda>i. (s, r, i, v)) (l2g f)) xs \<rparr>"
    by (induction xs arbitrary: b) (auto simp: map_filter_simps add_xref_def split: option.split)
  show "fold (\<lambda>(local, path) b. case l2g local of None \<Rightarrow> b | Some g \<Rightarrow> upsert_file g path b) files b =
      b\<lparr> b_files := merge_files_into (b_files b) (List.map_filter (\<lambda>(l, p). map_option (\<lambda>i. (i, p)) (l2g l)) files) \<rparr>"
    by (induction files arbitrary: b) (auto simp: map_filter_simps upsert_file_def split: option.split)
qed

lemma populate_shard_content:
  assumes "content_fits c t"
  shows "populate_from_shard_remapped U (opened t) g b = Some (merge_from U b (remapped g (content_builder c)))"
proof -
  note ok = content_fitsD(1) [OF assms]
  have al: "\<forall>(s, n) \<in> set (map (\<lambda>(n, s). (s, n)) (sort (map (\<lambda>(s, a). (clamp_blob_str a, s)) (c_aliases c)))). n \<noteq> []"
    and typed: "\<forall>(s, n) \<in> set (map (\<lambda>(s, n). (s, clamp_blob_str n)) (c_typed c)). n \<noteq> []"
    and sg: "\<forall>(s, n) \<in> set (map (\<lambda>(s, n). (s, clamp_blob_str n)) (c_sig c)). n \<noteq> []"
    using ok clamp_nonempty by (auto simp: content_ok_def)
  show ?thesis
    by (simp add: populate_from_shard_remapped_def plain_iters_content [OF assms] string_iters_content [OF assms]
        iter_aliases_content [OF assms] fold_rows fold_maps fold_optional Let_def del: set_map set_sort)
      (simp only: fold_strings(1) [OF al] fold_strings(2) [OF typed] fold_strings(3) [OF sg],
        simp add: merge_from_def content_builder_def remapped_def Let_def)
qed

lemma coalesce_delta_contents:
  "list_all2 content_fits cs ts \<Longrightarrow> list_all2 (\<lambda>fl t. index_open fl = Inr (opened t)) fls ts \<Longrightarrow>
    coalesce_delta U g fls b = Some (Inr (foldl (merge_from U) b (map (\<lambda>c. remapped g (content_builder c)) cs)))"
proof (induction cs ts arbitrary: fls b rule: list_all2_induct)
  case Nil
  then show ?case by simp
next
  case (Cons c cs t ts)
  obtain fl fls' where "fls = fl # fls'" "index_open fl = Inr (opened t)" "list_all2 (\<lambda>fl t. index_open fl = Inr (opened t)) fls' ts"
    using Cons.prems by (auto simp: list_all2_Cons2)
  then show ?case using Cons.IH [of fls'] by (simp add: populate_shard_content [OF Cons.hyps(1)])
qed

section \<open>Paths\<close>

text \<open>File ids that a map of paths assigns, and rows whose file is known.\<close>

definition global_ids :: "(bytes \<Rightarrow> u32 option) \<Rightarrow> index_builder \<Rightarrow> bool" where
  "global_ids g b \<longleftrightarrow> hm_ok (b_files b) \<and> (\<forall>i p. map_of (b_files b) i = Some p \<longrightarrow> g p = Some i) \<and>
     (\<forall>(s, r, f, v) \<in> set (b_xrefs b). map_of (b_files b) f \<noteq> None)"

definition injective_ids :: "(bytes \<Rightarrow> u32 option) \<Rightarrow> bool" where
  "injective_ids g \<longleftrightarrow> (\<forall>p q i. g p = Some i \<longrightarrow> g q = Some i \<longrightarrow> p = q)"

lemma global_ids_new: "global_ids g builder_new"
  by (simp add: global_ids_def builder_new_def)

lemma global_merge:
  assumes "injective_ids g" and "global_ids g a" and "global_ids g b"
  shows "global_ids g (merge_from U a b)" and "located (merge_from U a b) = located a \<union> located b"
proof -
  have ok: "hm_ok (b_files b)" "hm_ok (b_files a)" using assms(2,3) by (simp_all add: global_ids_def)
  have files: "b_files (merge_from U a b) = merge_files_into (b_files a) (b_files b)" by (simp add: merge_from_def)
  have look: "map_of (b_files (merge_from U a b)) f =
      (case map_of (b_files a) f of Some p \<Rightarrow> Some p | None \<Rightarrow> map_of (b_files b) f)" for f
    using map_of_merge_files_into [OF ok(1)] by (simp add: files map_add_def)
  have right: "map_of (b_files (merge_from U a b)) f = Some p" if p: "map_of (b_files b) f = Some p" for f p
  proof (cases "map_of (b_files a) f")
    case (Some q)
    then have "g p = Some f" "g q = Some f" using assms(2,3) p by (simp_all add: global_ids_def)
    then show ?thesis using assms(1) Some by (simp add: look injective_ids_def)
  qed (simp add: look p)
  have left: "map_of (b_files (merge_from U a b)) f = Some p" if "map_of (b_files a) f = Some p" for f p
    using that by (simp add: look)
  have rows: "set (b_xrefs (merge_from U a b)) = set (b_xrefs a) \<union> set (b_xrefs b)" by (simp add: merge_from_def)
  show "global_ids g (merge_from U a b)"
    unfolding global_ids_def rows
  proof (intro conjI allI impI ballI)
    show "hm_ok (b_files (merge_from U a b))" using ok by (simp add: files)
    show "g p = Some i" if "map_of (b_files (merge_from U a b)) i = Some p" for i p
      using that assms(2,3) by (auto simp: look global_ids_def split: option.splits)
    show "case x of (s, r, f, v) \<Rightarrow> map_of (b_files (merge_from U a b)) f \<noteq> None" if "x \<in> set (b_xrefs a) \<union> set (b_xrefs b)" for x
      using that assms(2,3) left right unfolding global_ids_def by fastforce
  qed
  have known: "(s, r, f, v) \<in> set (b_xrefs c) \<Longrightarrow> global_ids g c \<Longrightarrow> \<exists>q. map_of (b_files c) f = Some q" for s r f v c
    unfolding global_ids_def by fastforce
  have "map_of (b_files (merge_from U a b)) f = map_of (b_files a) f" if "(s, r, f, v) \<in> set (b_xrefs a)" for s r f v
    using known [OF that assms(2)] left by auto
  moreover have "map_of (b_files (merge_from U a b)) f = map_of (b_files b) f" if "(s, r, f, v) \<in> set (b_xrefs b)" for s r f v
    using known [OF that assms(3)] right by auto
  ultimately show "located (merge_from U a b) = located a \<union> located b"
    unfolding located_def rows by auto
qed

lemma global_gather:
  assumes "injective_ids g" and "global_ids g b" and "\<forall>x \<in> set bs. global_ids g x"
  shows "global_ids g (foldl (merge_from U) b bs) \<and> located (foldl (merge_from U) b bs) = located b \<union> (\<Union>x \<in> set bs. located x)"
  using assms(2,3)
proof (induction bs arbitrary: b)
  case (Cons x bs)
  then show ?case using global_merge [OF assms(1), of b x U] by auto
qed simp

lemma located_remapped:
  assumes "hm_ok (b_files b)" and "injective_ids g" and "inj_on snd (set (b_files b))"
    and "\<forall>(s, r, f, v) \<in> set (b_xrefs b). map_of (b_files b) f \<noteq> None"
    and "\<forall>(l, p) \<in> set (b_files b). g p \<noteq> None"
  shows "global_ids g (remapped g b)" and "located (remapped g b) = located b"
proof -
  let ?l2g = "map_of (l2g_map g (b_files b) [])"
  have l2g: "?l2g l = Option.bind (map_of (b_files b) l) g" for l
    using map_of_l2g [OF assms(1), of g "[]" l] by (simp split: option.split)
  have at: "?l2g l = g p" if "(l, p) \<in> set (b_files b)" for l p
    using that assms(1) by (simp add: l2g)
  have files: "b_files (remapped g b) = map (\<lambda>(l, p). (the (g p), p)) (b_files b)"
  proof -
    have "List.map_filter (\<lambda>(l, p). map_option (\<lambda>i. (i, p)) (?l2g l)) fs = map (\<lambda>(l, p). (the (g p), p)) fs"
      if "set fs \<subseteq> set (b_files b)" for fs
      using that
    proof (induction fs)
      case (Cons x fs)
      obtain l p where x: "x = (l, p)" by (cases x)
      have "(l, p) \<in> set (b_files b)" using Cons.prems x by simp
      then have "?l2g l = g p" "g p \<noteq> None" using at assms(5) by auto
      then show ?case using Cons by (auto simp: x map_filter_simps)
    qed (simp add: map_filter_simps)
    then show ?thesis by (simp add: remapped_def Let_def)
  qed
  have some: "g p = Some (the (g p))" if "(l, p) \<in> set (b_files b)" for l p using that assms(5) by auto
  have "distinct (map (\<lambda>(l, p). the (g p)) (b_files b))"
  proof -
    have "inj_on (\<lambda>(l, p). the (g p)) (set (b_files b))"
    proof (rule inj_onI)
      fix x y assume xy: "x \<in> set (b_files b)" "y \<in> set (b_files b)" "(\<lambda>(l, p). the (g p)) x = (\<lambda>(l, p). the (g p)) y"
      obtain l p l' q where p: "x = (l, p)" "y = (l', q)" by (cases x; cases y)
      have "g p = g q" using some [of l p] some [of l' q] xy p by simp
      then have "p = q" using some [of l p] xy(1) p(1) assms(2) by (metis injective_ids_def)
      then show "x = y" using inj_onD [OF assms(3), of x y] xy p by simp
    qed
    then show ?thesis using assms(1) by (simp add: distinct_map)
  qed
  then have ok: "hm_ok (b_files (remapped g b))" by (simp add: files comp_def case_prod_unfold)
  have look: "map_of (b_files (remapped g b)) i = Some p \<longleftrightarrow> g p = Some i \<and> (\<exists>l. (l, p) \<in> set (b_files b))" for i p
  proof -
    have "map_of (b_files (remapped g b)) i = Some p \<longleftrightarrow> (i, p) \<in> set (b_files (remapped g b))"
      using ok by (simp add: map_of_eq_Some_iff)
    also have "\<dots> \<longleftrightarrow> (\<exists>l. (l, p) \<in> set (b_files b) \<and> i = the (g p))" unfolding files by auto
    also have "\<dots> \<longleftrightarrow> g p = Some i \<and> (\<exists>l. (l, p) \<in> set (b_files b))" using some by (metis option.sel)
    finally show ?thesis .
  qed
  have rows: "(s, r, i, v) \<in> set (b_xrefs (remapped g b)) \<longleftrightarrow>
      (\<exists>f p. (s, r, f, v) \<in> set (b_xrefs b) \<and> map_of (b_files b) f = Some p \<and> g p = Some i)" for s r i v
  proof -
    have mem: "y \<in> set (List.map_filter h xs) \<longleftrightarrow> (\<exists>x \<in> set xs. h x = Some y)" for h :: "xref_row \<Rightarrow> xref_row option" and xs y
      by (induction xs) (auto simp: map_filter_simps split: option.split)
    have "(s, r, i, v) \<in> set (b_xrefs (remapped g b)) \<longleftrightarrow> (\<exists>f. (s, r, f, v) \<in> set (b_xrefs b) \<and> ?l2g f = Some i)"
      unfolding remapped_def Let_def by (simp add: mem) force
    then show ?thesis by (auto simp: l2g bind_eq_Some_conv)
  qed
  show "global_ids g (remapped g b)"
    unfolding global_ids_def using ok look rows by (fastforce dest: map_of_SomeD)
  have inj: "p = q" if "g p = Some i" "g q = Some i" for p q i using assms(2) that by (simp add: injective_ids_def)
  show "located (remapped g b) = located b"
  proof (intro set_eqI iffI; clarify)
    fix s r p v assume "(s, r, p, v) \<in> located (remapped g b)"
    then obtain i f q where "(s, r, f, v) \<in> set (b_xrefs b)" "map_of (b_files b) f = Some q" "g q = Some i" "g p = Some i"
      by (auto simp: located_def rows look)
    then show "(s, r, p, v) \<in> located b" using inj by (auto simp: located_def)
  next
    fix s r p v assume "(s, r, p, v) \<in> located b"
    then obtain f where f: "(s, r, f, v) \<in> set (b_xrefs b)" "map_of (b_files b) f = Some p" by (auto simp: located_def)
    then have "(f, p) \<in> set (b_files b)" by (simp add: map_of_SomeD)
    then show "(s, r, p, v) \<in> located (remapped g b)" using f some [of f p] rows look unfolding located_def by blast
  qed
qed

section \<open>The shards of units\<close>

definition unit_local :: "index_builder \<Rightarrow> index_builder" where
  "unit_local cu = fst (localize_file_ids (fst (dedup_tables cu)))"

lemma unit_shard_local: "unit_shard cu = finish (unit_local cu)"
  by (simp add: unit_shard_def unit_local_def)

text \<open>A unit whose rows name known files, whose paths are candidates of the plan, and whose shard can be
  written without clamping a string.\<close>

definition unit_fit :: "bytes list \<Rightarrow> index_builder \<Rightarrow> bool" where
  "unit_fit seed cu \<longleftrightarrow> builder_ok cu \<and> length (file_paths (b_files cu)) \<le> 2 ^ 32 \<and>
     (\<forall>(s, r, f, v) \<in> set (b_xrefs cu). f \<in> fst ` set (b_files cu)) \<and> snd ` set (b_files cu) \<subseteq> set seed \<and>
     short_strings (finish_content (unit_local cu)) \<and> content_bounded (finish_content (unit_local cu))"

lemma located_new: "located builder_new = {}"
  by (simp add: located_def builder_new_def)

lemma located_resolved: "located b = {(s, r, p, v). (s, r, Some p, v) \<in> set (resolved_xrefs b)}"
  by (force simp: located_def resolved_xrefs_def)

lemma unit_local_view:
  assumes "unit_fit seed cu"
  shows "builder_ok (unit_local cu)" and "located (unit_local cu) = located cu"
    and "map_of (b_files (unit_local cu)) = map_of (ranked_files (b_files cu))"
    and "(s, r, f, v) \<in> set (b_xrefs (unit_local cu)) \<Longrightarrow> map_of (b_files (unit_local cu)) f \<noteq> None"
proof -
  let ?d = "fst (dedup_tables cu)"
  have d: "builder_ok ?d" using assms by (simp add: unit_fit_def builder_ok_dedup)
  have files: "b_files ?d = b_files cu" and rows: "set (b_xrefs ?d) = set (b_xrefs cu)"
    by (simp_all add: dedup_tables_def Let_def set_sort_dedup)
  have ok: "hm_ok (b_files ?d)" "length (file_paths (b_files ?d)) \<le> 2 ^ 32" "\<forall>(s, r, f, v) \<in> set (b_xrefs ?d). f \<in> fst ` set (b_files ?d)"
    using assms d unfolding files rows by (simp_all add: unit_fit_def builder_ok_def)
  show "builder_ok (unit_local cu)" unfolding unit_local_def by (rule builder_ok_localize [OF d])
  have "located ?d = located cu" unfolding located_def files rows ..
  moreover have res: "resolved_xrefs (unit_local cu) = resolved_xrefs ?d" unfolding unit_local_def by (rule localized_xrefs [OF ok])
  ultimately show "located (unit_local cu) = located cu" by (simp add: located_resolved)
  show "map_of (b_files (unit_local cu)) = map_of (ranked_files (b_files cu))"
    using localized_files(1) [OF ok(1,2)] by (simp add: unit_local_def files)
  show "map_of (b_files (unit_local cu)) f \<noteq> None" if row: "(s, r, f, v) \<in> set (b_xrefs (unit_local cu))"
  proof
    assume "map_of (b_files (unit_local cu)) f = None"
    then have "(s, r, None, v) \<in> set (resolved_xrefs ?d)" unfolding res [symmetric] using row by (force simp: resolved_xrefs_def)
    then obtain f' where f': "(s, r, f', v) \<in> set (b_xrefs ?d)" "map_of (b_files ?d) f' = None" by (auto simp: resolved_xrefs_def)
    then have "f' \<in> fst ` set (b_files ?d)" using ok(3) by blast
    then show False using f'(2) by (simp add: map_of_eq_None_iff)
  qed
qed

lemma content_view:
  assumes "unit_fit seed cu"
  defines "B \<equiv> content_builder (finish_content (unit_local cu))"
  shows "builder_ok B" and "located B = located cu" and "inj_on snd (set (b_files B))" and "snd ` set (b_files B) \<subseteq> set seed"
    and "\<forall>(s, r, f, v) \<in> set (b_xrefs B). map_of (b_files B) f \<noteq> None"
proof -
  note local = unit_local_view [OF assms(1)]
  have short: "short_strings (finish_content (unit_local cu))" using assms(1) by (simp add: unit_fit_def)
  show ok: "builder_ok B" unfolding B_def by (rule builder_ok_content [OF content_ok_finish [OF local(1)]])
  have files: "map_of (b_files B) = map_of (b_files (unit_local cu))"
    unfolding B_def by (rule content_builder_maps(2) [OF local(1) short])
  have rows: "set (b_xrefs B) = set (b_xrefs (unit_local cu))" unfolding B_def by (rule kept_xrefs.kept)
  have "located B = located (unit_local cu)" unfolding located_def files rows ..
  then show "located B = located cu" using local(2) by simp
  have hm: "hm_ok (b_files B)" using ok by (simp add: builder_ok_def)
  have mem: "(l, p) \<in> set (ranked_files (b_files cu))" if "(l, p) \<in> set (b_files B)" for l p
    using that hm by (metis files local(3) map_of_SomeD map_of_eq_Some_iff)
  have paths: "p \<in> snd ` set (b_files cu)" if "(l, p) \<in> set (b_files B)" for l p
    using set_zip_rightD [of l p "map of_nat [0..<length (file_paths (b_files cu))]" "file_paths (b_files cu)"] mem [OF that]
    by (auto simp: ranked_files_def set_sort_dedup)
  have "distinct (map snd (ranked_files (b_files cu)))" by (simp add: ranked_files_def)
  then have "inj_on snd (set (ranked_files (b_files cu)))" by (simp add: distinct_map)
  then show "inj_on snd (set (b_files B))" by (rule inj_on_subset) (use mem in auto)
  show "snd ` set (b_files B) \<subseteq> set seed" using paths assms(1) by (auto simp: unit_fit_def)
  show "\<forall>(s, r, f, v) \<in> set (b_xrefs B). map_of (b_files B) f \<noteq> None" using local(4) unfolding rows files by blast
qed

lemma seed_ids:
  assumes "distinct seed" and "length seed \<le> 2 ^ 32"
  shows "injective_ids (map_of (global_of seed))" and "p \<in> set seed \<Longrightarrow> map_of (global_of seed) p \<noteq> None"
proof -
  have keys: "map fst (global_of seed) = seed" "map snd (global_of seed) = map of_nat [0 ..< length seed]" by (simp_all add: global_of_def)
  have "inj_on snd (set (global_of seed))" using ids_distinct(1) [OF assms(2)] keys(2) by (metis distinct_map)
  then show "injective_ids (map_of (global_of seed))"
    unfolding injective_ids_def by (metis map_of_SomeD inj_onD snd_conv prod.inject)
  show "p \<in> set seed \<Longrightarrow> map_of (global_of seed) p \<noteq> None"
    using keys(1) by (metis list.set_map map_of_eq_None_iff)
qed

lemma builder_ok_remapped: "builder_ok b \<Longrightarrow> global_ids g (remapped g b) \<Longrightarrow> builder_ok (remapped g b)"
proof -
  assume b: "builder_ok b" and g: "global_ids g (remapped g b)"
  have "(i, p) \<in> set (b_files (remapped g b)) \<Longrightarrow> \<exists>l. (l, p) \<in> set (b_files b)" for i p
    by (auto simp: remapped_def List.map_filter_def Let_def)
  moreover have "hm_ok (b_files (remapped g b))" using g by (simp add: global_ids_def)
  ultimately show ?thesis using b unfolding builder_ok_def by (fastforce simp: remapped_def Let_def)
qed

section \<open>A group of shards\<close>

definition group_builder :: "unicode_tables \<Rightarrow> bytes list \<Rightarrow> index_builder list \<Rightarrow> index_builder" where
  "group_builder U seed cus =
     foldl (merge_from U) builder_new
       (map (\<lambda>cu. remapped (map_of (global_of seed)) (content_builder (finish_content (unit_local cu)))) cus)"

lemma coalesce_group:
  assumes "\<forall>cu \<in> set cus. unit_fit seed cu" and "list_all2 (\<lambda>cu fl. unit_shard cu = Some fl) cus fls"
    and "distinct seed" and "length seed \<le> 2 ^ 32" and "content_bounded (finish_content (group_builder U seed cus))"
  shows "\<exists>out ix. coalesce_shards_remapped U fls (map_of (global_of seed)) = Some (Inr out) \<and> index_open out = Inr ix \<and>
    indexed (group_builder U seed cus) ix \<and> located (group_builder U seed cus) = (\<Union>cu \<in> set cus. located cu)"
proof -
  let ?g = "map_of (global_of seed)" and ?D = "group_builder U seed cus"
  note ids = seed_ids [OF assms(3,4)]
  have one: "global_ids ?g (remapped ?g (content_builder (finish_content (unit_local cu)))) \<and>
      located (remapped ?g (content_builder (finish_content (unit_local cu)))) = located cu \<and>
      builder_ok (remapped ?g (content_builder (finish_content (unit_local cu))))" if "cu \<in> set cus" for cu
  proof -
    note B = content_view [OF bspec [OF assms(1) that]]
    have hm: "hm_ok (b_files (content_builder (finish_content (unit_local cu))))" using B(1) by (simp add: builder_ok_def)
    have "\<forall>(l, p) \<in> set (b_files (content_builder (finish_content (unit_local cu)))). ?g p \<noteq> None" using B(4) ids(2) by force
    note r = located_remapped [OF hm ids(1) B(3,5) this]
    show ?thesis using r B(2) builder_ok_remapped [OF B(1) r(1)] by simp
  qed
  have glob: "global_ids ?g ?D" "located ?D = (\<Union>cu \<in> set cus. located cu)"
    using global_gather [OF ids(1) global_ids_new, of "map (\<lambda>cu. remapped ?g (content_builder (finish_content (unit_local cu)))) cus" U] one
    by (simp_all add: group_builder_def located_new)
  have ok: "builder_ok ?D" unfolding group_builder_def by (rule builder_ok_gathered) (use one builder_ok_new in auto)
  have "\<exists>ts. list_all2 content_fits (map (\<lambda>cu. finish_content (unit_local cu)) cus) ts \<and>
      list_all2 (\<lambda>fl t. index_open fl = Inr (opened t)) fls ts"
    using assms(2,1)
  proof (induction cus fls rule: list_all2_induct)
    case (Cons cu cus fl fls)
    then obtain ts where ts: "list_all2 content_fits (map (\<lambda>cu. finish_content (unit_local cu)) cus) ts"
      "list_all2 (\<lambda>fl t. index_open fl = Inr (opened t)) fls ts" by auto
    have fit: "unit_fit seed cu" using Cons.prems by simp
    then obtain ix where ix: "index_open fl = Inr ix" "indexed (unit_local cu) ix"
      using index_exists [OF unit_local_view(1) [OF fit]] Cons.hyps(1) by (auto simp: unit_fit_def unit_shard_local)
    then obtain t where "content_fits (finish_content (unit_local cu)) t" "ix = opened t" by (auto elim: indexedE)
    then show ?case using ts ix(1) by (intro exI [of _ "t # ts"]) simp
  qed simp
  then obtain ts where ts: "list_all2 content_fits (map (\<lambda>cu. finish_content (unit_local cu)) cus) ts"
    "list_all2 (\<lambda>fl t. index_open fl = Inr (opened t)) fls ts" by blast
  have delta: "coalesce_delta U ?g fls builder_new = Some (Inr ?D)"
    using coalesce_delta_contents [OF ts, of U ?g builder_new] by (simp add: group_builder_def comp_def)
  have D: "merge_from U builder_new ?D = ?D" using ok by (intro merge_from_new) (simp_all add: builder_ok_def)
  have "write_merged_snapshot U [] ?D = finish ?D"
    using merged_is_finished(1) [of "[]" "[]" ?D U builder_new] ok assms(5) by (simp add: D)
  moreover obtain out ix where "finish ?D = Some out" "index_open out = Inr ix" "indexed ?D ix" using index_exists [OF ok assms(5)] by blast
  ultimately show ?thesis using glob(2) by (simp add: coalesce_shards_remapped_def delta)
qed

end
