(* ===== verification/S2_Demo.thy ===== *)
theory S2_Demo
  imports S2_Paths S2_Sample
begin

text \<open>
  A small entry stream on which the hypotheses of the stream theorems hold, and what ingesting it
  leaves in an empty builder.
\<close>

text \<open>A stream of three entries: an edge that arrives before its anchor is declared, the start of the
  anchor, and its declaration.\<close>

definition demo_vname :: "bytes \<Rightarrow> bytes \<Rightarrow> vname" where
  "demo_vname sg p = \<lparr> vn_signature = sg, vn_corpus = [], vn_root = [], vn_path = p, vn_language = [] \<rparr>"

definition demo_edge :: "bytes \<Rightarrow> bytes \<Rightarrow> bytes \<Rightarrow> bytes \<Rightarrow> entry" where
  "demo_edge src p kind tgt = \<lparr> e_source = demo_vname src p, e_edge_kind = kind, e_target = demo_vname tgt [],
     e_fact_name = lit ''/'', e_fact_value = [] \<rparr>"

definition demo_fact :: "bytes \<Rightarrow> bytes \<Rightarrow> bytes \<Rightarrow> bytes \<Rightarrow> entry" where
  "demo_fact src p name v = \<lparr> e_source = demo_vname src p, e_edge_kind = [], e_target = demo_vname [] [],
     e_fact_name = name, e_fact_value = v \<rparr>"

definition demo_entries :: "entry list" where
  "demo_entries = [demo_edge [0x61] [0x66] (lit ''/kythe/edge/ref'') [0x74],
     demo_fact [0x61] [0x66] (lit ''/kythe/loc/start'') (lit ''5''),
     demo_fact [0x61] [0x66] (lit ''/kythe/node/kind'') (lit ''anchor'')]"

definition demo_hash :: "bytes \<Rightarrow> u64" where
  "demo_hash s = (if last s = 0x74 then 7 else 8)"


lemma demo_ok: "list_all entry_ok demo_entries"
  by (simp add: demo_entries_def demo_edge_def demo_fact_def demo_vname_def entry_ok_def vname_ok_def utf8_lit)


lemma demo_len: "list_all (\<lambda>e. length (enc_entry e) < 100) demo_entries"
  by (simp add: demo_entries_def demo_fact_def demo_edge_def demo_vname_def enc_entry_def enc_vname_def pb_message_def pb_field_def lit_def pb_varint.simps)

lemma demo_kinds:
  "xref_entry (demo_edge [0x61] [0x66] (lit ''/kythe/edge/ref'') [0x74]) role_REF"
  "start_entry (demo_fact [0x61] [0x66] (lit ''/kythe/loc/start'') (lit ''5'')) 5"
  "anchor_entry (demo_fact [0x61] [0x66] (lit ''/kythe/node/kind'') (lit ''anchor''))"
  subgoal by (simp add: xref_entry_def demo_edge_def demo_vname_def edge_to_role_def edge_base_def split_next_def starts_with_def lit_def vname_empty_def)
  subgoal by (simp add: start_entry_def demo_fact_def demo_vname_def vname_empty_def parse_ascii_u32_def utf8_lit parse_u32_def lit_def)
  subgoal by (simp add: anchor_entry_def demo_fact_def demo_vname_def vname_empty_def)
  done


lemma demo_symbol: "to_symbol_string (demo_vname [0x74] []) = lit ''kythe::###t''" "demo_hash (lit ''kythe::###t'') = 7"
  "lang_byte (demo_vname [0x74] []) = lang_UNK" "\<not> vname_empty (demo_vname [0x74] [])"
  by (simp_all add: demo_vname_def to_symbol_string_def lit_def demo_hash_def lang_byte_def vname_empty_def)

text \<open>The accumulator of the anchor and the builder after the three entries.\<close>

definition demo_anchor :: "bool \<Rightarrow> u32 option \<Rightarrow> (vname \<times> u8) list \<Rightarrow> anchor_accum" where
  "demo_anchor d st pend = anchor_default\<lparr> an_is_anchor := d, an_path := [0x66], an_start := st, an_pending := pend \<rparr>"

definition demo_builder :: index_builder where
  "demo_builder = builder_new\<lparr> b_xrefs := [(7, role_REF, 0, 5)], b_syms := [(7, kind_UNK, lang_UNK, lit ''kythe::###t'')],
     b_files := [(0, [0x66])] \<rparr>"

lemma demo_seed: "seed_path [0x66] (demo_anchor d st pend) = demo_anchor d st pend"
  "seed_path [0x66] (demo_anchor d st pend\<lparr> an_is_anchor := d' \<rparr>) = demo_anchor d' st pend"
  by (simp_all add: seed_path_def demo_anchor_def)

lemma demo_step1:
  fixes cx k
  assumes "st_anchors cx = []"
  shows "xref_edge demo_hash ascii_tables k [0x66] t role_REF cx = cx\<lparr> st_anchors := [(k, demo_anchor False None [(t, role_REF)])] \<rparr>"
  using assms by (simp add: xref_edge_def anchor_at_def seed_path_def anchor_default_def put_anchor_def demo_anchor_def Let_def role_REF_def role_DEF_def)

lemma demo_step2:
  assumes "st_anchors cx = [(k, demo_anchor False None pend)]"
  shows "put_anchor k (flush_ready demo_hash ascii_tables ((seed_path [0x66] (anchor_at k cx))\<lparr> an_start := Some 5 \<rparr>) cx) =
    cx\<lparr> st_anchors := [(k, demo_anchor False (Some 5) pend)] \<rparr>"
  using assms by (simp add: anchor_at_def flush_ready_def put_anchor_def seed_path_def demo_anchor_def anchor_default_def)

lemma demo_step3:
  assumes "st_anchors cx = [(k, demo_anchor False (Some 5) [(demo_vname [0x74] [], role_REF)])]" "in_builder cx = builder_new" "st_xrefs cx = []"
    "in_files cx = file_ids_default" "st_calls cx = []"
  shows "put_anchor k (flush_ready demo_hash ascii_tables (seed_path [0x66] ((anchor_at k cx)\<lparr> an_is_anchor := True \<rparr>)) cx) =
    cx\<lparr> st_anchors := [(k, demo_anchor True (Some 5) [])], st_calls := [(0, 5, 7, role_REF)], st_xrefs := [(7, role_REF, 0, 5)],
       in_builder := demo_builder\<lparr> b_xrefs := [] \<rparr>, in_files := snd (intern [0x66] file_ids_default), in_stats := (in_stats cx)\<lparr> n_xrefs := Suc (n_xrefs (in_stats cx)), n_anchors_flushed := Suc (n_anchors_flushed (in_stats cx)) \<rparr> \<rparr>"
  using assms
  by (simp add: anchor_at_def demo_seed)
    (simp add: flush_ready_def demo_anchor_def anchor_default_def intern_file_def intern_def file_ids_default_def
      emit_xref_resolved_def demo_symbol note_call_site_def put_anchor_def role_REF_def role_DEF_def Let_def upsert_file_def
      upsert_sym_def builder_new_def demo_builder_def)


lemma demo_run:
  defines "cx \<equiv> run_entries demo_hash ascii_tables demo_entries (ingest_start builder_new file_ids_default)"
  shows "st_xrefs cx = [(7, role_REF, 0, 5)]" "st_bodies cx = []" "st_calls cx = [(0, 5, 7, role_REF)]" "in_builder cx = demo_builder\<lparr> b_xrefs := [] \<rparr>"
    "st_bridges cx = []" "st_aliases cx = []" "st_inherits cx = []" "st_parent_keys cx = []" "st_childof cx = []" "st_types cx = type_side_default"
    "in_files cx = snd (intern [0x66] file_ids_default)"
proof -
  let ?c0 = "count_entry (ingest_start builder_new file_ids_default)" and ?k = "to_symbol_string (demo_vname [0x61] [0x66])"
  let ?c1 = "count_entry (?c0\<lparr> st_anchors := [(?k, demo_anchor False None [(demo_vname [0x74] [], role_REF)])] \<rparr>)"
  let ?c2 = "count_entry (?c1\<lparr> st_anchors := [(?k, demo_anchor False (Some 5) [(demo_vname [0x74] [], role_REF)])] \<rparr>)"
  have paths: "vn_path (demo_vname sg p) = p" for sg p by (simp add: demo_vname_def)
  have "process_entry demo_hash ascii_tables (demo_edge [0x61] [0x66] (lit ''/kythe/edge/ref'') [0x74]) ?c0 =
      ?c0\<lparr> st_anchors := [(?k, demo_anchor False None [(demo_vname [0x74] [], role_REF)])] \<rparr>"
    unfolding process_xref_entry [OF demo_kinds(1)]
    by (simp add: demo_edge_def entry_key_def paths) (rule demo_step1, simp add: count_entry_def ingest_start_def)
  moreover have "process_entry demo_hash ascii_tables (demo_fact [0x61] [0x66] (lit ''/kythe/loc/start'') (lit ''5'')) ?c1 =
      ?c1\<lparr> st_anchors := [(?k, demo_anchor False (Some 5) [(demo_vname [0x74] [], role_REF)])] \<rparr>"
    unfolding process_start_entry [OF demo_kinds(2)]
    by (simp add: demo_fact_def entry_key_def paths) (rule demo_step2, simp add: count_entry_def)
  moreover note process_anchor_entry [OF demo_kinds(3), of demo_hash ascii_tables ?c2]
    demo_step3 [of ?c2 ?k]
  ultimately have "cx = ?c2\<lparr> st_anchors := [(?k, demo_anchor True (Some 5) [])], st_calls := [(0, 5, 7, role_REF)], st_xrefs := [(7, role_REF, 0, 5)],
       in_builder := demo_builder\<lparr> b_xrefs := [] \<rparr>, in_files := snd (intern [0x66] file_ids_default), in_stats := (in_stats ?c2)\<lparr> n_xrefs := Suc (n_xrefs (in_stats ?c2)), n_anchors_flushed := Suc (n_anchors_flushed (in_stats ?c2)) \<rparr> \<rparr>"
    unfolding cx_def run_entries_def demo_entries_def
    by (simp add: demo_fact_def entry_key_def paths) (simp add: count_entry_def ingest_start_def)
  then show "st_xrefs cx = [(7, role_REF, 0, 5)]" "st_bodies cx = []" "st_calls cx = [(0, 5, 7, role_REF)]" "in_builder cx = demo_builder\<lparr> b_xrefs := [] \<rparr>"
    "st_bridges cx = []" "st_aliases cx = []" "st_inherits cx = []" "st_parent_keys cx = []" "st_childof cx = []" "st_types cx = type_side_default"
    "in_files cx = snd (intern [0x66] file_ids_default)"
    by (simp_all add: count_entry_def ingest_start_def)
qed

lemma demo_finish:
  "in_builder (ingest_finish demo_hash ascii_tables (run_entries demo_hash ascii_tables demo_entries (ingest_start builder_new file_ids_default))) =
    demo_builder"
  unfolding ingest_finish_builder rendered_parents_def rendered_types_def rendered_sigs_def resolved_calls_def sorted_bodies_def
    demo_run
  by (simp add: bridge_of_def remap_def best_names_def rename_all_def innermost_containing_def partition_point_def
      type_side_default_def map_filter_simps demo_builder_def builder_new_def)

lemma demo_framed: "list_all framed demo_entries"
  using demo_ok demo_len by (auto simp: framed_def MAX_ENTRY_LEN_def list_all_iff)

lemma demo_stream:
  "\<exists>st a. ingest_stream demo_hash ascii_tables (frames demo_entries) builder_new file_ids_default = (Inr st, demo_builder, a)"
  unfolding ingest_stream_def ingest_frames [OF demo_framed] Let_def demo_finish by blast

lemma demo_stream_files:
  assumes "ingest_stream demo_hash ascii_tables (frames demo_entries) builder_new file_ids_default = (res, b, a)"
  shows "a = snd (intern [0x66] file_ids_default)"
proof -
  have "a = in_files (run_entries demo_hash ascii_tables demo_entries (ingest_start builder_new file_ids_default))"
    using assms ingest_frames [OF demo_framed, of demo_hash ascii_tables False builder_new file_ids_default]
    by (simp add: ingest_stream_def Let_def ingest_finish_def)
  then show ?thesis by (simp only: demo_run)
qed

lemma demo_content: "content_bounded (finish_content demo_builder)"
proof -
  have "finish_content demo_builder = \<lparr> c_xrefs = [(7, 2, 0, 5)], c_syms = [(7, 0, 0, lit ''kythe::###t'')], c_aliases = [],
      c_files = [(0, [0x66])], c_inh = [], c_calls = [], c_typed = [], c_childrev = [], c_sig = [] \<rparr>"
    by code_simp
  then show ?thesis by (simp add: content_bounded_def content_weight_def content_blob_def clamp_id lit_def)
qed

lemma demo_keys: "e \<in> set demo_entries \<Longrightarrow> e_source e = demo_vname [0x61] [0x66]"
  by (auto simp: demo_entries_def demo_edge_def demo_fact_def)

lemma demo_starts: "starts (set demo_entries) k v \<longleftrightarrow> k = to_symbol_string (demo_vname [0x61] [0x66]) \<and> v = 5"
  using demo_kinds(2)
  by (auto simp: starts_def demo_entries_def entry_key_def start_entry_def demo_edge_def demo_fact_def lit_def)

lemma demo_coherent: "coherent (set demo_entries)"
  by (simp add: coherent_def demo_keys demo_starts)

lemma demo_facts: "xref_facts demo_hash (set demo_entries) = {(7, role_REF, [0x66], 5)}"
proof -
  have anchored: "anchored (set demo_entries) (to_symbol_string (demo_vname [0x61] [0x66]))"
    using demo_kinds(3) by (auto simp: anchored_def demo_entries_def entry_key_def demo_fact_def)
  have edge: "e \<in> set demo_entries \<and> xref_entry e r \<longleftrightarrow>
      e = demo_edge [0x61] [0x66] (lit ''/kythe/edge/ref'') [0x74] \<and> r = role_REF" for e r
    using demo_kinds(1) by (auto simp: demo_entries_def xref_entry_def demo_fact_def)
  have "xref_facts demo_hash (set demo_entries) = {(demo_hash (to_symbol_string (e_target e)), r, vn_path (e_source e), v) | e r v.
      (e \<in> set demo_entries \<and> xref_entry e r) \<and> \<not> vname_empty (e_target e) \<and> anchored (set demo_entries) (entry_key e) \<and>
      starts (set demo_entries) (entry_key e) v}"
    unfolding xref_facts_def by blast
  then show ?thesis
    unfolding edge demo_starts using anchored
    by (auto simp: demo_edge_def entry_key_def demo_symbol) (simp_all add: demo_vname_def)
qed

lemma demo_canonical: "canonical H demo_entries s = s"
  by (rule canonical_id) (auto simp: demo_entries_def completion_def demo_edge_def demo_fact_def is_completes_edge_def
      edge_base_def split_next_def starts_with_def lit_def)

end
