(* ===== verification/S2_Enclosing.thy ===== *)
theory S2_Enclosing
  imports S2_Ingest
begin

text \<open>
  Attribution of call sites: on body anchors sorted by file and start the backward scan of
  \<^verbatim>\<open>innermost_containing\<close> finds the last anchor that contains the offset, which is the smallest one when
  anchors are properly nested and no two of them start at the same place.
\<close>

abbreviation body_file :: "body_anchor \<Rightarrow> u32" where "body_file a \<equiv> fst a"
abbreviation body_start :: "body_anchor \<Rightarrow> u32" where "body_start a \<equiv> fst (snd a)"
abbreviation body_end :: "body_anchor \<Rightarrow> u32" where "body_end a \<equiv> fst (snd (snd a))"
abbreviation body_sym :: "body_anchor \<Rightarrow> u64" where "body_sym a \<equiv> snd (snd (snd a))"

definition body_key :: "body_anchor \<Rightarrow> u32 \<times> u32" where
  "body_key a = (body_file a, body_start a)"

definition contains :: "u32 \<Rightarrow> u32 \<Rightarrow> body_anchor \<Rightarrow> bool" where
  "contains file_id off a \<longleftrightarrow> body_file a = file_id \<and> body_start a \<le> off \<and> off < body_end a"

text \<open>Two anchors of a file are disjoint or one lies inside the other.\<close>

definition nested :: "body_anchor list \<Rightarrow> bool" where
  "nested bodies \<longleftrightarrow> (\<forall>a \<in> set bodies. \<forall>b \<in> set bodies.
     body_file a = body_file b \<longrightarrow> body_start a < body_start b \<longrightarrow> body_start b < body_end a \<longrightarrow> body_end b \<le> body_end a)"

lemma partition_point_le: "partition_point P xs \<le> length xs"
  by (simp add: partition_point_def length_takeWhile_le)

lemma partition_point_iff:
  assumes "\<And>i j. i \<le> j \<Longrightarrow> j < length xs \<Longrightarrow> P (xs ! j) \<Longrightarrow> P (xs ! i)" and "j < length xs"
  shows "j < partition_point P xs \<longleftrightarrow> P (xs ! j)"
proof
  assume "j < partition_point P xs"
  then show "P (xs ! j)" unfolding partition_point_def by (metis nth_mem set_takeWhileD takeWhile_nth)
next
  assume P: "P (xs ! j)"
  show "j < partition_point P xs"
  proof (rule ccontr)
    let ?n = "partition_point P xs"
    assume "\<not> j < ?n"
    then have n: "?n \<le> j" by simp
    then have "\<not> P (xs ! ?n)" using assms(2) unfolding partition_point_def by (intro nth_length_takeWhile) simp
    then show False using assms(1) [OF n assms(2) P] by simp
  qed
qed

lemma scan_back_spec:
  assumes "i \<le> length bodies"
  shows "case scan_back bodies lo off i of
      Some d \<Rightarrow> \<exists>j. lo \<le> j \<and> j < i \<and> off < body_end (bodies ! j) \<and> body_sym (bodies ! j) = d \<and>
        (\<forall>j'. j < j' \<and> j' < i \<longrightarrow> \<not> off < body_end (bodies ! j'))
    | None \<Rightarrow> \<forall>j. lo \<le> j \<and> j < i \<longrightarrow> \<not> off < body_end (bodies ! j)"
  using assms
proof (induction i)
  case (Suc i)
  obtain f s e d where a: "bodies ! i = (f, s, e, d)" by (cases "bodies ! i")
  show ?case
  proof (cases "lo \<le> i \<and> off < e")
    case True
    then show ?thesis by (auto simp: a intro!: exI [of _ i])
  next
    case False
    show ?thesis
    proof (cases "lo \<le> i")
      case True
      with False have "scan_back bodies lo off (Suc i) = scan_back bodies lo off i" by (simp add: a)
      moreover have "\<not> off < body_end (bodies ! i)" using False True by (simp add: a)
      ultimately show ?thesis using Suc by (auto simp: less_Suc_eq split: option.splits)
    next
      case False
      then show ?thesis by auto
    qed
  qed
qed simp

lemma sorted_body_nth:
  "sorted (map body_key bodies) \<Longrightarrow> i \<le> j \<Longrightarrow> j < length bodies \<Longrightarrow> body_key (bodies ! i) \<le> body_key (bodies ! j)"
  using sorted_nth_mono [of "map body_key bodies" i j] by simp

text \<open>The scanned range is the anchors of the file that start at or before the offset.\<close>

lemma scan_range:
  assumes "sorted (map body_key bodies)" and "j < length bodies"
  shows "partition_point (\<lambda>(f, _). f < file_id) bodies \<le> j \<and> j < partition_point (\<lambda>(f, s, _). (f, s) \<le> (file_id, off)) bodies \<longleftrightarrow>
    body_file (bodies ! j) = file_id \<and> body_start (bodies ! j) \<le> off"
proof -
  note mono = sorted_body_nth [OF assms(1)]
  have "j < partition_point (\<lambda>(f, _). f < file_id) bodies \<longleftrightarrow> (case bodies ! j of (f, _) \<Rightarrow> f < file_id)"
  proof (rule partition_point_iff [OF _ assms(2)])
    fix i j
    assume "i \<le> j" "j < length bodies" "case bodies ! j of (f, _) \<Rightarrow> f < file_id"
    then show "case bodies ! i of (f, _) \<Rightarrow> f < file_id"
      using mono [of i j] by (auto simp: body_key_def split_beta less_eq_prod_def)
  qed
  moreover have "j < partition_point (\<lambda>(f, s, _). (f, s) \<le> (file_id, off)) bodies \<longleftrightarrow>
      (case bodies ! j of (f, s, _) \<Rightarrow> (f, s) \<le> (file_id, off))"
  proof (rule partition_point_iff [OF _ assms(2)])
    fix i j
    assume "i \<le> j" "j < length bodies" "case bodies ! j of (f, s, _) \<Rightarrow> (f, s) \<le> (file_id, off)"
    then show "case bodies ! i of (f, s, _) \<Rightarrow> (f, s) \<le> (file_id, off)"
      using mono [of i j] by (auto simp: body_key_def split_beta)
  qed
  ultimately show ?thesis by (auto simp: split_beta less_eq_prod_def not_less)
qed

text \<open>The last container in the sorted order, or none.\<close>

lemma innermost_last:
  assumes "sorted (map body_key bodies)"
  shows "case innermost_containing bodies file_id off of
      Some d \<Rightarrow> \<exists>j < length bodies. contains file_id off (bodies ! j) \<and> body_sym (bodies ! j) = d \<and>
        (\<forall>j'. j < j' \<and> j' < length bodies \<longrightarrow> \<not> contains file_id off (bodies ! j'))
    | None \<Rightarrow> \<forall>a \<in> set bodies. \<not> contains file_id off a"
proof -
  let ?lo = "partition_point (\<lambda>(f, _). f < file_id) bodies"
  let ?hi = "partition_point (\<lambda>(f, s, _). (f, s) \<le> (file_id, off)) bodies"
  note range = scan_range [OF assms, of _ file_id off]
  have hi: "?hi \<le> length bodies" by (rule partition_point_le)
  have in_range: "contains file_id off (bodies ! j) \<longleftrightarrow> ?lo \<le> j \<and> j < ?hi \<and> off < body_end (bodies ! j)"
    if "j < length bodies" for j
    using range [OF that] by (auto simp: contains_def)
  note spec = scan_back_spec [OF hi, of ?lo off]
  show ?thesis
  proof (cases "scan_back bodies ?lo off ?hi")
    case None
    then have "\<forall>j. ?lo \<le> j \<and> j < ?hi \<longrightarrow> \<not> off < body_end (bodies ! j)" using spec by simp
    then have "\<forall>a \<in> set bodies. \<not> contains file_id off a" using in_range by (metis in_set_conv_nth)
    then show ?thesis using None by (simp add: innermost_containing_def)
  next
    case (Some d)
    then obtain j where j: "?lo \<le> j" "j < ?hi" "off < body_end (bodies ! j)" "body_sym (bodies ! j) = d"
      "\<forall>j'. j < j' \<and> j' < ?hi \<longrightarrow> \<not> off < body_end (bodies ! j')" using spec by auto
    then have "\<forall>j'. j < j' \<and> j' < length bodies \<longrightarrow> \<not> contains file_id off (bodies ! j')" using in_range by blast
    moreover have "j < length bodies" using j(2) hi by simp
    ultimately show ?thesis using Some j in_range [of j] by (auto simp: innermost_containing_def)
  qed
qed

lemma innermost_smallest:
  assumes "sorted (map body_key bodies)" and "distinct (map body_key bodies)" and "nested bodies"
  shows "case innermost_containing bodies file_id off of
      Some d \<Rightarrow> \<exists>a \<in> set bodies. contains file_id off a \<and> body_sym a = d \<and>
        (\<forall>b \<in> set bodies. contains file_id off b \<longrightarrow> body_start b \<le> body_start a \<and> body_end a \<le> body_end b)
    | None \<Rightarrow> \<forall>a \<in> set bodies. \<not> contains file_id off a"
proof (cases "innermost_containing bodies file_id off")
  case None
  then show ?thesis using innermost_last [OF assms(1), of file_id off] by simp
next
  case (Some d)
  then obtain j where j: "j < length bodies" "contains file_id off (bodies ! j)" "body_sym (bodies ! j) = d"
    "\<forall>j'. j < j' \<and> j' < length bodies \<longrightarrow> \<not> contains file_id off (bodies ! j')"
    using innermost_last [OF assms(1), of file_id off] by auto
  have "body_start b \<le> body_start (bodies ! j) \<and> body_end (bodies ! j) \<le> body_end b"
    if b: "b \<in> set bodies" "contains file_id off b" for b
  proof -
    obtain i where i: "i < length bodies" "b = bodies ! i" using b(1) by (metis in_set_conv_nth)
    with j(4) b(2) have "i \<le> j" by (meson not_le)
    show ?thesis
    proof (cases "i = j")
      case True
      then show ?thesis by (simp add: i(2))
    next
      case False
      have "body_key b \<le> body_key (bodies ! j)" using sorted_body_nth [OF assms(1) \<open>i \<le> j\<close> j(1)] by (simp add: i(2))
      moreover have "body_key b \<noteq> body_key (bodies ! j)"
        using assms(2) i j(1) False by (simp add: distinct_conv_nth)
      ultimately have lt: "body_start b < body_start (bodies ! j)"
        using b(2) j(2) by (auto simp: body_key_def contains_def less_eq_prod_def)
      moreover have "body_start (bodies ! j) < body_end b"
        using b(2) j(2) by (auto simp: contains_def)
      ultimately have "body_end (bodies ! j) \<le> body_end b"
        using assms(3) b j(1,2) unfolding nested_def contains_def by (metis nth_mem)
      then show ?thesis using lt by simp
    qed
  qed
  then show ?thesis using Some j nth_mem [OF j(1)] by auto
qed

end
