(* ===== verification/S2_Kythe.thy ===== *)
theory S2_Kythe
  imports S2_Demo S2_Enclosing
begin

text \<open>
  The decoder of Kythe entry streams: what a stream adds to the builder and how the written index
  answers for it, damaged streams, names and types read from MarkedSource, attribution of calls to
  functions, and the file ids the workers share.
\<close>

section \<open>Counting entries\<close>

abbreviation seen :: "ingest \<Rightarrow> nat" where
  "seen cx \<equiv> n_entries (in_stats cx)"

lemma seen_view [simp]:
  "seen (put_anchor k x) = seen (snd x)" "seen (snd (intern_file p cx)) = seen cx"
  "seen (emit_xref_resolved H U t r f off cx) = seen cx" "seen (note_call_site f s w r cx) = seen cx"
  "seen (count_entry cx) = Suc (seen cx)"
  by (simp_all add: put_anchor_def intern_file_def emit_xref_resolved_def note_call_site_def count_entry_def split_beta Let_def)

lemma flush_seen [simp]:
  "seen (snd (flush_pending H U f v pend a cx)) = seen cx" "seen (snd (flush_ready H U a cx)) = seen cx"
proof -
  show pending: "seen (snd (flush_pending H U f v pend a cx)) = seen cx" for f v pend a cx
    by (induction pend arbitrary: a cx) (auto simp: Let_def split: option.split)
  show "seen (snd (flush_ready H U a cx)) = seen cx"
    by (simp add: flush_ready_def split_beta Let_def pending split: option.split)
qed

lemma steps_seen [simp]:
  "seen (xref_edge H U k p t r cx) = seen cx" "seen (end_fact k v cx) = seen cx" "seen (code_fact H U k w cx) = seen cx"
  "seen (type_fact src k w cx) = seen cx" "seen (node_fact H U src k w cx) = seen cx"
  by (simp_all add: xref_edge_def end_fact_def code_fact_def type_fact_def node_fact_def split_beta Let_def
      split: option.split bool.split)

lemma process_seen [simp]: "seen (process_entry H U e cx) = seen cx"
  by (simp add: process_entry_def process_edge_def process_fact_def named_edge_def inherit_edge_def Let_def
      split: option.split)

lemma loop_seen: "seen (snd (ingest_loop H U tol s cx)) \<le> seen cx + length s"
proof (induction s arbitrary: cx rule: length_induct)
  case (1 s)
  have "seen (snd (ingest_loop H U tol (drop n r) (process_entry H U e (count_entry cx)))) \<le> seen cx + length s"
    if "stream_varint s = Inr (Some (v, r))" for v r n e
  proof -
    have "length (drop n r) < length s" using stream_varint_shorter [OF that] by simp
    then have "seen (snd (ingest_loop H U tol (drop n r) (process_entry H U e (count_entry cx)))) \<le> Suc (seen cx) + length (drop n r)"
      using 1 [rule_format, of "drop n r" "process_entry H U e (count_entry cx)"] by simp
    then show ?thesis using \<open>length (drop n r) < length s\<close> by simp
  qed
  then show ?case
    by (subst ingest_loop.simps) (auto simp: Let_def split: sum.split option.split)
qed

lemma run_seen: "seen (run_entries H U es cx) = seen cx + length es"
  by (induction es arbitrary: cx) (simp_all add: run_entries_def)

lemma finish_seen: "seen (ingest_finish H U cx) = seen cx"
  by (simp add: ingest_finish_def final_stats_def Let_def)

section \<open>Streams\<close>

text \<open>C4: From an entry stream to the answers of the index. The stream encodes the entries \<open>es\<close>, in any
  order, which agree on the path and the start of each node; \<^verbatim>\<open>ingest\<close> adds it to a builder whose file
  table agrees with the shared file ids. The file \<^verbatim>\<open>finish\<close> then writes opens, and \<^verbatim>\<open>Index::xrefs\<close> with the
  paths of \<^verbatim>\<open>Index::file_path\<close> returns exactly the cross references the builder held before and the ones
  the entries state: an edge from a declared anchor with a start to a target, filed under the symbol
  that completion edges make canonical.\<close>

theorem stream_answers:
  assumes "stream_ready b a" and "list_all framed es" and "coherent (set es)" and "unat (fa_next a) + length es < 2 ^ 32"
    and "ingest_stream H U (frames es) b a = (res, b', a')" and "content_bounded (finish_content b')"
    and "s \<noteq> - 1 \<or> role_hi \<noteq> 255"
  shows "\<exists>fl ix rows. finish b' = Some fl \<and> index_open fl = Inr ix \<and> xrefs ix s role_lo role_hi = Some rows \<and>
    {(r, p, v). \<exists>f. (s, r, f, v) \<in> set rows \<and> file_path ix f = Some (Some p)} =
    {(r, clamp_blob_str p, v) | r p v. role_lo \<le> r \<and> r \<le> role_hi \<and>
       ((s, r, p, v) \<in> located b \<or> (\<exists>s'. canonical H es s' = s \<and> (s', r, p, v) \<in> xref_facts H (set es)))}"
proof -
  note added = stream_located [OF assms(1-5)]
  have "builder_ok b'" using added(2) by (simp add: stream_ready_def)
  then obtain fl ix where ix: "finish b' = Some fl" "index_open fl = Inr ix" "indexed b' ix"
    using index_exists [OF _ assms(6)] by blast
  obtain rows where rows: "xrefs ix s role_lo role_hi = Some rows"
    "{(r, p, v). \<exists>f. (s, r, f, v) \<in> set rows \<and> file_path ix f = Some (Some p)} =
     {(r, clamp_blob_str p, v) | r p v. (s, r, p, v) \<in> located b' \<and> role_lo \<le> r \<and> r \<le> role_hi}"
    using located_answers [OF ix(3) assms(7)] by blast
  have "(s, r, p, v) \<in> located b' \<longleftrightarrow>
      (s, r, p, v) \<in> located b \<or> (\<exists>s'. canonical H es s' = s \<and> (s', r, p, v) \<in> xref_facts H (set es))" for r p v
    by (auto simp: added(3))
  then show ?thesis using ix rows by (intro exI [of _ fl] exI [of _ ix] exI [of _ rows]) auto
qed

theorem stream_answers_witness:
  "\<exists>st a fl ix rows. ingest_stream demo_hash ascii_tables (frames demo_entries) builder_new file_ids_default = (Inr st, demo_builder, a) \<and>
    finish demo_builder = Some fl \<and> index_open fl = Inr ix \<and> xrefs ix 7 0 255 = Some rows \<and>
    {(r, p, v). \<exists>f. (7, r, f, v) \<in> set rows \<and> file_path ix f = Some (Some p)} = {(role_REF, [0x66], 5)}"
proof -
  obtain st a where run: "ingest_stream demo_hash ascii_tables (frames demo_entries) builder_new file_ids_default = (Inr st, demo_builder, a)"
    using demo_stream by blast
  have room: "unat (fa_next file_ids_default) + length demo_entries < 2 ^ 32"
    by (simp add: file_ids_default_def demo_entries_def)
  have "(7 :: u64) \<noteq> - 1 \<or> (255 :: u8) \<noteq> 255" by simp
  from stream_answers [OF stream_ready_new demo_framed demo_coherent room run demo_content this, of 0]
  show ?thesis
    using run by (auto simp: demo_canonical demo_facts located_def builder_new_def role_REF_def clamp_id word_le_nat_alt)
qed

text \<open>A stream keeps the agreement between file table, rows and file ids that the next stream relies
  on, so streams can follow each other in one builder: the result is a success, and the located cross
  references are the ones before the stream together with the stated ones, under canonical symbols.\<close>

theorem streams_accumulate:
  assumes "stream_ready b a" and "list_all framed es" and "coherent (set es)" and "unat (fa_next a) + length es < 2 ^ 32"
    and "ingest_stream H U (frames es) b a = (res, b', a')"
  shows "(\<exists>st. res = Inr st \<and> n_entries st = length es) \<and> stream_ready b' a' \<and>
    located b' = located b \<union> {(canonical H es s, r, p, v) | s r p v. (s, r, p, v) \<in> xref_facts H (set es)}"
proof -
  have "res = Inr (in_stats (ingest_finish H U (run_entries H U es (ingest_start b a))))"
    using assms(5) ingest_frames [OF assms(2), of H U False b a] by (simp add: ingest_stream_def Let_def)
  then have "\<exists>st. res = Inr st \<and> n_entries st = length es"
    by (simp add: finish_seen run_seen) (simp add: ingest_start_def stats_default_def)
  then show ?thesis using stream_located [OF assms] by blast
qed

theorem streams_accumulate_witness:
  "\<exists>st a. ingest_stream demo_hash ascii_tables (frames demo_entries) builder_new file_ids_default = (Inr st, demo_builder, a) \<and>
    n_entries st = 3 \<and> stream_ready demo_builder a \<and> located demo_builder = {(7, role_REF, [0x66], 5)}"
proof -
  obtain st a where run: "ingest_stream demo_hash ascii_tables (frames demo_entries) builder_new file_ids_default = (Inr st, demo_builder, a)"
    using demo_stream by blast
  have room: "unat (fa_next file_ids_default) + length demo_entries < 2 ^ 32"
    by (simp add: file_ids_default_def demo_entries_def)
  have "length demo_entries = 3" by (simp add: demo_entries_def)
  with streams_accumulate [OF stream_ready_new demo_framed demo_coherent room run] show ?thesis
    using run by (auto simp: demo_canonical demo_facts located_def builder_new_def)
qed

text \<open>C19: Whatever bytes arrive, and whether or not decoding errors are tolerated, \<^verbatim>\<open>ingest\<close> leaves a
  well-formed builder: unique keys, valid UTF-8 in every string, no empty alias, type or signature.
  Nothing it was given makes \<^verbatim>\<open>finish\<close> panic as long as the tables fit.\<close>

theorem ingest_keeps_builder:
  assumes "builder_ok b" and "ingest_tolerant H U tolerate s b a = (res, b', a')"
  shows "builder_ok b' \<and> (content_bounded (finish_content b') \<longrightarrow> (\<exists>fl ix. finish b' = Some fl \<and> index_open fl = Inr ix))"
  using ingest_tolerant_ok [OF assms] index_exists [of b'] by blast

theorem ingest_keeps_builder_witness:
  "\<exists>res b' a'. ingest_tolerant demo_hash ascii_tables False (frames demo_entries) builder_new file_ids_default = (res, b', a') \<and>
    builder_ok b' \<and> (\<exists>fl ix. finish b' = Some fl \<and> index_open fl = Inr ix)"
proof -
  obtain st a where run: "ingest_tolerant demo_hash ascii_tables False (frames demo_entries) builder_new file_ids_default = (Inr st, demo_builder, a)"
    using demo_stream by (auto simp: ingest_stream_def)
  have "builder_ok builder_new" by (simp add: builder_ok_def builder_new_def)
  from ingest_keeps_builder [OF this run] show ?thesis using run demo_content by blast
qed

section \<open>Damaged streams\<close>

text \<open>The outcome of a stream whose intact frames are followed by a frame that cannot be read.\<close>

lemma damaged_loop:
  assumes "list_all framed es" and "\<And>cx. ingest_loop H U tol tail cx = (if tol then None else Some e, cx)"
  shows "ingest_tolerant H U tol (frames es @ tail) b a =
    (if tol then ingest_tolerant H U True (frames es) b a
     else let cx = run_entries H U es (ingest_start b a) in (Inl e, in_builder cx, in_files cx))"
  using ingest_loop_frames [OF assms(1), of H U _ tail] ingest_loop_frames [OF assms(1), of H U _ "[]"] assms(2)
  by (simp add: ingest_tolerant_def ingest_loop_end Let_def)

lemma damaged_tail:
  assumes "n < 2 ^ 63" and "MAX_ENTRY_LEN < n \<or> length rest < n"
  shows "ingest_loop H U tol (pb_varint n @ rest) cx =
    (if tol then None else Some (if MAX_ENTRY_LEN < n then OversizeEntry (of_nat n) else TruncatedEntry), cx)"
proof -
  have "unat (of_nat n :: u64) = n" by (rule unat_of_nat_small) (use assms(1) in simp)
  then show ?thesis
    using assms(2) by (auto simp: ingest_loop.simps [of H U tol "pb_varint n @ rest"] stream_varint_pb [OF assms(1)] Let_def)
qed

text \<open>C20: A stream that breaks off after intact frames, in a frame longer than \<^verbatim>\<open>MAX_ENTRY_LEN\<close> or cut
  short: strict ingestion fails with the error of that frame and leaves what the entries before it put
  into builder and file ids; tolerant ingestion returns exactly what the intact frames alone give.\<close>

theorem damaged_stream:
  assumes "list_all framed es" and "n < 2 ^ 63" and "MAX_ENTRY_LEN < n \<or> length rest < n"
  shows "ingest_tolerant H U True (frames es @ pb_varint n @ rest) b a = ingest_tolerant H U True (frames es) b a \<and>
    ingest_stream H U (frames es @ pb_varint n @ rest) b a =
      (let cx = run_entries H U es (ingest_start b a)
       in (Inl (if MAX_ENTRY_LEN < n then OversizeEntry (of_nat n) else TruncatedEntry), in_builder cx, in_files cx))"
  using damaged_loop [OF assms(1), of H U True "pb_varint n @ rest"] damaged_tail [OF assms(2,3), of H U]
    damaged_loop [OF assms(1), of H U False "pb_varint n @ rest"]
  by (simp add: ingest_stream_def)

theorem damaged_stream_witness:
  "fst (ingest_stream demo_hash ascii_tables (frames demo_entries @ pb_varint 3 @ [0]) builder_new file_ids_default) = Inl TruncatedEntry \<and>
   fst (ingest_stream demo_hash ascii_tables (frames demo_entries @ pb_varint (2 ^ 30) @ []) builder_new file_ids_default) = Inl (OversizeEntry (2 ^ 30)) \<and>
   fst (snd (ingest_tolerant demo_hash ascii_tables True (frames demo_entries @ pb_varint 3 @ [0]) builder_new file_ids_default)) = demo_builder"
proof -
  have "fst (snd (ingest_tolerant demo_hash ascii_tables True (frames demo_entries) builder_new file_ids_default)) = demo_builder"
    unfolding ingest_frames [OF demo_framed] Let_def demo_finish by simp
  then show ?thesis
    using damaged_stream [OF demo_framed, of 3 "[0]" demo_hash ascii_tables builder_new file_ids_default]
      damaged_stream [OF demo_framed, of "2 ^ 30" "[]" demo_hash ascii_tables builder_new file_ids_default]
    by (simp add: Let_def MAX_ENTRY_LEN_def)
qed

text \<open>C33: Tolerant ingestion always ends with a success, whatever the bytes. When strict ingestion succeeds the
  two agree; when it fails, the tolerant one finishes the context that the failure left.\<close>

theorem ingest_tolerance:
  "(\<exists>st b' a'. ingest_tolerant H U True s b a = (Inr st, b', a')) \<and>
   (\<forall>st b' a'. ingest_stream H U s b a = (Inr st, b', a') \<longrightarrow> ingest_tolerant H U True s b a = (Inr st, b', a')) \<and>
   (\<forall>e b' a'. ingest_stream H U s b a = (Inl e, b', a') \<longrightarrow>
      (\<exists>cx. b' = in_builder cx \<and> a' = in_files cx \<and>
        ingest_tolerant H U True s b a = (Inr (in_stats (ingest_finish H U cx)), in_builder (ingest_finish H U cx), a')))"
proof -
  obtain err cx where loop: "ingest_loop H U False s (ingest_start b a) = (err, cx)" by fastforce
  have files: "in_files (ingest_finish H U cx) = in_files cx" by (simp add: ingest_finish_def Let_def)
  have "ingest_tolerant H U True s b a = (Inr (in_stats (ingest_finish H U cx)), in_builder (ingest_finish H U cx), in_files cx)"
    by (simp add: ingest_tolerant_def ingest_loop_tolerant loop Let_def files)
  moreover have "ingest_stream H U s b a =
      (case err of Some e \<Rightarrow> (Inl e, in_builder cx, in_files cx)
       | None \<Rightarrow> (Inr (in_stats (ingest_finish H U cx)), in_builder (ingest_finish H U cx), in_files cx))"
    by (simp add: ingest_stream_def ingest_tolerant_def loop Let_def files split: option.split)
  ultimately show ?thesis by (auto split: option.splits)
qed

theorem ingest_tolerance_witness:
  "\<exists>st a. ingest_tolerant demo_hash ascii_tables True (frames demo_entries) builder_new file_ids_default = (Inr st, demo_builder, a)"
  using ingest_tolerance [of demo_hash ascii_tables "frames demo_entries" builder_new file_ids_default] demo_stream by blast

text \<open>The loop over a stream ends after at most one round per byte: it decodes at most as many entries
  as the stream has bytes, whatever they are, and as many as there are frames when they are intact.\<close>

theorem stream_rounds:
  "n_entries (in_stats (snd (ingest_loop H U tolerate s (ingest_start b a)))) \<le> length s \<and>
   (list_all framed es \<longrightarrow> n_entries (in_stats (snd (ingest_loop H U tolerate (frames es) (ingest_start b a)))) = length es)"
proof -
  have start: "n_entries (in_stats (ingest_start b a)) = 0" by (simp add: ingest_start_def stats_default_def)
  then have "n_entries (in_stats (snd (ingest_loop H U tolerate s (ingest_start b a)))) \<le> length s"
    using loop_seen [of H U tolerate s "ingest_start b a"] by simp
  moreover have "n_entries (in_stats (snd (ingest_loop H U tolerate (frames es) (ingest_start b a)))) = length es"
    if "list_all framed es"
    using ingest_loop_frames [OF that, of H U tolerate "[]"] by (simp add: ingest_loop_end run_seen start)
  ultimately show ?thesis by blast
qed

theorem stream_rounds_witness:
  "n_entries (in_stats (snd (ingest_loop demo_hash ascii_tables False (frames demo_entries) (ingest_start builder_new file_ids_default)))) = 3"
  using stream_rounds [of demo_hash ascii_tables False "[]" builder_new file_ids_default demo_entries] demo_framed
  by (simp add: demo_entries_def)

section \<open>Messages, names and types\<close>

text \<open>C34: Decoding inverts the protobuf encoding of an entry, whichever of its fields are empty.\<close>

theorem entry_round_trip:
  assumes "entry_ok e" and "length (enc_entry e) < 2 ^ 63"
  shows "parse_entry (enc_entry e) = Inr e"
  by (rule parse_enc_entry [OF assms])

theorem entry_round_trip_witness: "list_all (\<lambda>e. parse_entry (enc_entry e) = Inr e) demo_entries"
  using entry_round_trip demo_ok demo_len by (fastforce simp: list_all_iff)

text \<open>C22: On the encoding of a MarkedSource tree the byte-level renderer computes the qualified name that
  the tree has by structural recursion: the context and identifier nodes outside parameters,
  initialisers and types, joined with their separators, or else the whole text when it is a name.\<close>

theorem marked_source_tree:
  assumes "marked_ok t" and "length (enc_marked t) < 2 ^ 63"
  shows "parse_marked_source_fqn U (enc_marked t) = tree_fqn U t"
  using parse_marked_source_tree assms by blast

text \<open>The tree of \<^verbatim>\<open>a::f(x)\<close>: a context, an identifier and a parameter list.\<close>

definition demo_marked :: marked where
  "demo_marked = Marked 0 [] [Marked 4 [] [Marked 3 [0x61] [] [] [] False] (lit ''::'') [] True, Marked 3 [0x66] [] [] [] False,
     Marked 2 (lit ''('') [Marked 3 [0x78] [] [] [] False] [] (lit '')'') False] [] [] False"

theorem marked_source_tree_witness:
  "parse_marked_source_fqn ascii_tables (enc_marked demo_marked) = Some (lit ''a::f'')"
proof -
  have "marked_ok demo_marked" by (simp add: demo_marked_def utf8_lit)
  moreover have "length (enc_marked demo_marked) < 2 ^ 63"
    by (simp add: demo_marked_def pb_int_def pb_str_def pb_field_def lit_def pb_varint.simps)
  ultimately have "parse_marked_source_fqn ascii_tables (enc_marked demo_marked) = tree_fqn ascii_tables demo_marked"
    by (rule marked_source_tree)
  also have "\<dots> = Some (lit ''a::f'')" by code_simp
  finally show ?thesis .
qed




section \<open>Call sites\<close>

text \<open>C24: Attribution of a call site. On body anchors sorted by file and start, of which no two start
  together and which are nested properly, \<^verbatim>\<open>innermost_containing\<close> gives the symbol of the smallest
  anchor that contains the offset, and nothing exactly when no anchor contains it.\<close>

theorem innermost_attribution:
  assumes "sorted (map body_key bodies)" and "distinct (map body_key bodies)" and "nested bodies"
  shows "case innermost_containing bodies file_id off of
      Some d \<Rightarrow> \<exists>a \<in> set bodies. contains file_id off a \<and> body_sym a = d \<and>
        (\<forall>b \<in> set bodies. contains file_id off b \<longrightarrow> body_start b \<le> body_start a \<and> body_end a \<le> body_end b)
    | None \<Rightarrow> \<forall>a \<in> set bodies. \<not> contains file_id off a"
  by (rule innermost_smallest [OF assms])

theorem innermost_attribution_witness:
  "innermost_containing [(0, 0, 50, 1), (0, 10, 20, 2), (0, 30, 40, 3)] 0 15 = Some 2 \<and>
   (\<exists>a \<in> set [(0, 0, 50, 1), (0, 10, 20, 2), (0, 30, 40, 3 :: u64)]. contains 0 15 a \<and> body_sym a = 2)"
proof -
  let ?bs = "[(0, 0, 50, 1), (0, 10, 20, 2), (0, 30, 40, 3)] :: body_anchor list"
  have "sorted (map body_key ?bs)" "distinct (map body_key ?bs)" "nested ?bs"
    by (simp_all add: body_key_def nested_def word_le_nat_alt word_less_nat_alt)
  moreover have "innermost_containing ?bs 0 15 = Some 2"
    by code_simp
  ultimately show ?thesis using innermost_attribution [of ?bs 0 15] by simp
qed

text \<open>When two anchors of a file start at the same offset the order in which the stream delivered them
  decides: the stable order keeps both ways of delivery apart, and one of them attributes a call to the
  enclosing anchor instead of the inner one.\<close>

theorem equal_starts_attribution:
  "innermost_containing (sort_key (\<lambda>(f, s, _, _). (f, s)) [(0, 10, 50, 1), (0, 10, 20, 2)]) 0 15 = Some 2 \<and>
   innermost_containing (sort_key (\<lambda>(f, s, _, _). (f, s)) [(0, 10, 20, 2), (0, 10, 50, 1)]) 0 15 = Some 1"
  by code_simp

section \<open>File ids\<close>

text \<open>C23: However the operations of the workers on the shared table interleave, an id once given stays: a
  later \<^verbatim>\<open>intern\<close> returns the id an earlier one returned exactly when it asks for the same path.\<close>

theorem file_ids_stable:
  assumes "alloc_ok a" and "utf8_valid p" and "fa_next a \<noteq> - 1" and "alloc_step\<^sup>*\<^sup>* (snd (intern p a)) a'"
  shows "alloc_ok a' \<and> (fst (intern q a') = fst (intern p a) \<longleftrightarrow> q = p)"
proof -
  have ok: "alloc_ok a'" using allocator.run_ok [OF assms(4) alloc_ok_intern [OF assms(1-3)]] .
  have p: "id_of a' p = Some (fst (intern p a))"
    using allocator.run_keeps [OF assms(4) alloc_ok_intern [OF assms(1-3)]] by (simp add: id_of_intern)
  have "q = p" if "fst (intern q a') = fst (intern p a)"
  proof (cases "id_of a' q")
    case None
    then have "fst (intern p a) = fa_next a'" using that by (simp add: fst_intern)
    then show ?thesis using ok p by (auto simp: alloc_ok_def)
  next
    case (Some j)
    then show ?thesis using that ok p by (auto simp: fst_intern alloc_ok_def)
  qed
  then show ?thesis using ok p by (auto simp: fst_intern)
qed

theorem file_ids_stable_witness:
  "\<exists>a'. alloc_step\<^sup>*\<^sup>* (snd (intern [0x61] file_ids_default)) a' \<and> fst (intern [0x61] a') = 0 \<and> fst (intern [0x62] a') \<noteq> 0 \<and>
    id_of a' [0x63] = Some 1"
proof -
  let ?a = "snd (intern [0x61] file_ids_default)"
  let ?b = "seed_paths [[0x63], [0x61]] ?a"
  have next_id: "fa_next ?a = 1" by (simp add: intern_def file_ids_default_def)
  have "alloc_step ?a ?b" by (rule alloc_step.paths) (simp_all add: next_id)
  then have run: "alloc_step\<^sup>*\<^sup>* ?a ?b" by blast
  have "fa_next file_ids_default \<noteq> - 1" "utf8_valid [0x61 :: u8]" by (simp_all add: file_ids_default_def)
  from file_ids_stable [OF alloc_ok_default this(2,1) run] show ?thesis
    using run by (intro exI [of _ ?b]) (auto simp: intern_def file_ids_default_def id_of_def)
qed

end
