(* ===== verification/S2_Build.thy ===== *)
theory S2_Build
  imports S2_Coalesce S2_Kythe S2_Dispatch
begin

text \<open>
  Building an index from an archive of compilation units: the archive codec, filtered reading,
  normalisation, cache keys, incremental builds, the run of the workers with its snapshots, and the
  command that indexes entry streams.
\<close>

section \<open>Units and archives\<close>

text \<open>C27: Decoding inverts encoding: the strict decoder reads back every unit with valid strings from the bytes
  the encoder writes, and from the bytes a unit of an archive is written with, raw or encoded.\<close>

theorem unit_round_trip:
  assumes "cu_ok c" and "length (encode_indexed_compilation c) < 2 ^ 63" and "unit_ok u"
  shows "parse_indexed_compilation (encode_indexed_compilation c) = Inr c \<and>
    parse_indexed_compilation (to_proto_bytes u) = Inr (u_cu u)"
  using parse_encode_indexed [OF assms(1,2)] unit_ok_bytes [OF assms(3)] by blast

definition tiny_cu :: compilation_unit where
  "tiny_cu = compilation_unit_default\<lparr> cu_argument := [[0x61]], cu_source_file := [[0x62, 0x2E, 0x63]] \<rparr>"

definition tiny_unit :: kzip_unit where
  "tiny_unit = \<lparr> u_sha = [0x73], u_cu = tiny_cu, u_raw_proto = None \<rparr>"

lemma tiny_bytes: "encode_indexed_compilation tiny_cu = [0x0A, 8, 0x2A, 1, 0x61, 0x32, 3, 0x62, 0x2E, 0x63]"
  by code_simp

lemma tiny_ok: "cu_ok tiny_cu" "unit_ok tiny_unit"
proof -
  show ok: "cu_ok tiny_cu" by code_simp
  show "unit_ok tiny_unit" by (simp add: unit_ok_def tiny_unit_def sha_ok_def ok tiny_bytes)
qed

theorem unit_round_trip_witness:
  "parse_indexed_compilation [0x0A, 8, 0x2A, 1, 0x61, 0x32, 3, 0x62, 0x2E, 0x63] = Inr tiny_cu \<and>
   parse_indexed_compilation (to_proto_bytes tiny_unit) = Inr tiny_cu"
  using unit_round_trip [OF tiny_ok(1) _ tiny_ok(2)] by (simp add: tiny_bytes) (simp add: tiny_unit_def)




section \<open>Reading with a path filter\<close>




definition tiny_archive :: archive where
  "tiny_archive = [(lit ''root/pbunits/s'', encode_indexed_compilation tiny_cu),
     (lit ''root/pbunits/t'', encode_indexed_compilation compilation_unit_default)]"

definition no_json :: "bytes \<Rightarrow> kzip_error + compilation_unit" where
  "no_json buf = Inl (Kz_Json buf)"

lemma tiny_entries:
  "pbunit_entries tiny_archive = [([0x73], encode_indexed_compilation tiny_cu),
     ([0x74], encode_indexed_compilation compilation_unit_default)]" "json_entries tiny_archive = []"
  by code_simp+

lemma default_cu: "encode_indexed_compilation compilation_unit_default = [0x0A, 0]" "cu_ok compilation_unit_default"
  by code_simp+

lemma tiny_units:
  "read_units no_json tiny_archive =
     Inr [\<lparr> u_sha = [0x73], u_cu = tiny_cu, u_raw_proto = Some (encode_indexed_compilation tiny_cu) \<rparr>,
          \<lparr> u_sha = [0x74], u_cu = compilation_unit_default, u_raw_proto = Some [0x0A, 0] \<rparr>]"
  using parse_encode_indexed [OF tiny_ok(1)] parse_encode_indexed [OF default_cu(2)]
  by (simp add: read_units_def tiny_entries tiny_bytes default_cu(1))


text \<open>The look can rule out a unit that the filter accepts: when the first input has an empty path in both
  places, the look answers with the empty path, while the unit's own path is its primary path.\<close>

lemma peek_can_drop:
  "let c = compilation_unit_default\<lparr> cu_v_name := vname_default\<lparr> vn_path := [0x61] \<rparr>,
      cu_required_input := [\<lparr> in_v_name = vname_default\<lparr> vn_corpus := [0x63] \<rparr>, in_info = \<lparr> fi_path = [], fi_digest = [0x64] \<rparr> \<rparr>] \<rparr>
   in cu_primary_path c = Some [0x61] \<and> peek_primary_path (encode_indexed_compilation c) True = Some []"
proof -
  let ?c = "compilation_unit_default\<lparr> cu_v_name := vname_default\<lparr> vn_path := [0x61] \<rparr>,
      cu_required_input := [\<lparr> in_v_name = vname_default\<lparr> vn_corpus := [0x63] \<rparr>, in_info = \<lparr> fi_path = [], fi_digest = [0x64] \<rparr> \<rparr>] \<rparr>"
  have ok: "cu_ok ?c" by code_simp
  have "length (encode_indexed_compilation ?c) = 19" by code_simp
  then have "length (encode_indexed_compilation ?c) < 2 ^ 63" by simp
  from peek_encoded [OF ok this] show ?thesis
    by (simp add: Let_def peek_primary_path_def cu_primary_path_def compilation_unit_default_def vname_default_def file_info_default_def)
qed

section \<open>Normalisation\<close>

lemma read_units_raw:
  assumes "read_units J A = Inr us" and "u \<in> set us"
  shows "sha_ok (u_sha u)" and "u_raw_proto u = Some raw \<Longrightarrow> parse_indexed_compilation raw = Inr (u_cu u)"
proof -
  have sha_p: "sha_ok sha" if "(sha, buf) \<in> set (pbunit_entries A)" for sha buf
    using that by (auto simp: pbunit_entries_def List.map_filter_def dest: strip_prefix_sha)
  have sha_j: "sha_ok sha" if "(sha, buf) \<in> set (json_entries A)" for sha buf
    using that by (auto simp: json_entries_def List.map_filter_def dest: strip_prefix_sha split: if_splits)
  have protos: "decode_protos es = Inr ps \<Longrightarrow> x \<in> set ps \<Longrightarrow>
      \<exists>buf. (u_sha x, buf) \<in> set es \<and> u_raw_proto x = Some buf \<and> parse_indexed_compilation buf = Inr (u_cu x)" for es ps x
    by (induction es arbitrary: ps) (fastforce simp: map_sum_Inr_iff split: sum.splits)+
  have jsons: "decode_jsons J S es = Inr js \<Longrightarrow> x \<in> set js \<Longrightarrow> \<exists>buf. (u_sha x, buf) \<in> set es \<and> u_raw_proto x = None" for S es js x
    by (induction es arbitrary: js) (fastforce simp: map_sum_Inr_iff split: sum.splits if_splits)+
  obtain ps js where d: "decode_protos (pbunit_entries A) = Inr ps" "decode_jsons J (u_sha ` set ps) (json_entries A) = Inr js" "us = ps @ js"
    using assms(1) by (auto simp: read_units_def map_sum_Inr_iff split: sum.splits)
  consider "u \<in> set ps" | "u \<in> set js" using assms(2) d(3) by auto
  then show "sha_ok (u_sha u)" "u_raw_proto u = Some raw \<Longrightarrow> parse_indexed_compilation raw = Inr (u_cu u)"
    using protos [OF d(1)] jsons [OF d(2)] sha_p sha_j by (cases; fastforce)+
qed

text \<open>C26: Normalisation keeps the units: reading the archive \<^verbatim>\<open>normalize_kzip\<close> writes gives the units of the
  original archive in order, now all with their proto bytes, there are no JSON units left, and every blob
  a unit refers to is copied, whatever the order in which the set of blobs is walked. JSON units are
  assumed to decode to valid strings.\<close>

theorem normalize_round_trip:
  assumes "read_units J A = Inr us" and "\<forall>u \<in> set us. u_raw_proto u = None \<longrightarrow> cu_ok (u_cu u) \<and> length (encode_indexed_compilation (u_cu u)) < 2 ^ 63"
    and "set (ord (needed_files us)) = set (needed_files us)"
  shows "\<exists>B. normalize_kzip J ord A = Inr (B, length us, length (needed_files us)) \<and>
    read_units J B = Inr (map (\<lambda>u. u\<lparr> u_raw_proto := Some (to_proto_bytes u) \<rparr>) us) \<and> json_entries B = [] \<and>
    (\<forall>u \<in> set us. \<forall>d \<in> set (unit_digests u). map_of B (file_entry_name d) = map_of A (file_entry_name d))"
proof (intro exI conjI)
  let ?B = "write_normalized ord A us"
  show "normalize_kzip J ord A = Inr (?B, length us, length (needed_files us))" by (simp add: normalize_kzip_def assms(1))
  have ok: "unit_ok u" if "u \<in> set us" for u
    using assms(2) read_units_raw [OF assms(1) that] that by (auto simp: unit_ok_def split: option.split)
  have "read_units J ?B = Inr (map (\<lambda>u. \<lparr> u_sha = u_sha u, u_cu = u_cu u, u_raw_proto = Some (to_proto_bytes u) \<rparr>) us)"
    unfolding write_normalized_def by (rule read_written) (use unit_ok_bytes [OF ok] in blast)
  also have "map (\<lambda>u. \<lparr> u_sha = u_sha u, u_cu = u_cu u, u_raw_proto = Some (to_proto_bytes u) \<rparr>) us =
      map (\<lambda>u. u\<lparr> u_raw_proto := Some (to_proto_bytes u) \<rparr>) us" by simp
  finally show "read_units J ?B = Inr (map (\<lambda>u. u\<lparr> u_raw_proto := Some (to_proto_bytes u) \<rparr>) us)" .
  show "json_entries ?B = []"
    using entries_units [of us to_proto_bytes] unit_ok_bytes [OF ok]
    by (simp add: write_normalized_def entries_append entries_dirs entries_blobs)
  show "\<forall>u \<in> set us. \<forall>d \<in> set (unit_digests u). map_of ?B (file_entry_name d) = map_of A (file_entry_name d)"
  proof (intro ballI)
    fix u d assume d: "u \<in> set us" "d \<in> set (unit_digests u)"
    then have "d \<in> set (needed_files us)" "d \<noteq> []" by (auto simp: needed_files_def unit_digests_def)
    then have "d \<in> set (ord (needed_files us))" "d \<noteq> []" by (simp_all add: assms(3))
    then show "map_of ?B (file_entry_name d) = map_of A (file_entry_name d)"
      unfolding write_normalized_def by (rule blob_lookup)
  qed
qed

theorem normalize_round_trip_witness:
  "\<exists>B. normalize_kzip no_json rev tiny_archive = Inr (B, 2, 0) \<and> map_sum id (map u_cu) (read_units no_json B) = Inr [tiny_cu, compilation_unit_default]"
proof -
  have "needed_files [\<lparr> u_sha = [0x73], u_cu = tiny_cu, u_raw_proto = Some (encode_indexed_compilation tiny_cu) \<rparr>,
      \<lparr> u_sha = [0x74], u_cu = compilation_unit_default, u_raw_proto = Some [0x0A, 0] \<rparr>] = []"
    by (simp add: needed_files_def unit_digests_def tiny_cu_def compilation_unit_default_def)
  with normalize_round_trip [OF tiny_units, of rev] show ?thesis by auto
qed

section \<open>Cache keys and incremental builds\<close>

lemma hex32_inject: "hex32 a = hex32 b \<longleftrightarrow> a = b"
proof
  assume "hex32 a = hex32 b"
  moreover have "unat x < 16 ^ 32" for x :: "128 word" using unsigned_less [of x] by simp
  ultimately have "unat a = unat b" unfolding hex32_def by (intro hex_pad_inject)
  then show "a = b" by (rule word_unat_eq_iff [THEN iffD2])
qed simp

text \<open>C28: The cache key of a unit is the same for two units exactly when they agree on the indexer tag, the
  language, the arguments in order and the set of pairs of path and digest of the required inputs, as
  long as the hash does not collide on the two encodings. Nothing else of a unit enters the key.\<close>

theorem digest_identity:
  assumes "cu_fits cu tag" and "cu_fits cu' tag'"
    and "X (digest_buffer cu tag) = X (digest_buffer cu' tag') \<longrightarrow> digest_buffer cu tag = digest_buffer cu' tag'"
  shows "cu_content_digest X cu tag = cu_content_digest X cu' tag' \<longleftrightarrow>
    tag = tag' \<and> vn_language (cu_v_name cu) = vn_language (cu_v_name cu') \<and> cu_argument cu = cu_argument cu' \<and>
    (\<lambda>ri. (vn_path (in_v_name ri), fi_digest (in_info ri))) ` set (cu_required_input cu) =
    (\<lambda>ri. (vn_path (in_v_name ri), fi_digest (in_info ri))) ` set (cu_required_input cu')"
proof -
  have "cu_content_digest X cu tag = cu_content_digest X cu' tag' \<longleftrightarrow> digest_buffer cu tag = digest_buffer cu' tag'"
    using assms(3) by (auto simp: cu_content_digest_def hex32_inject)
  then show ?thesis using digest_buffer_inject [OF assms(1,2)] cu_inputs_set [of cu cu'] by simp
qed

text \<open>A hash for examples: the last byte of the buffer.\<close>

definition last_byte :: "bytes \<Rightarrow> 128 word" where
  "last_byte s = (case rev s of [] \<Rightarrow> 0 | b # _ \<Rightarrow> ucast b)"

definition keyed_cu :: "u8 \<Rightarrow> bytes \<Rightarrow> compilation_unit" where
  "keyed_cu digest out = compilation_unit_default\<lparr> cu_output_key := out,
     cu_required_input := [\<lparr> in_v_name = vname_default, in_info = \<lparr> fi_path = [], fi_digest = [digest] \<rparr> \<rparr>] \<rparr>"

theorem digest_identity_witness:
  "cu_content_digest last_byte (keyed_cu 1 [0x61]) [] = cu_content_digest last_byte (keyed_cu 1 [0x62]) [] \<and>
   cu_content_digest last_byte (keyed_cu 1 []) [] \<noteq> cu_content_digest last_byte (keyed_cu 2 []) []"
proof -
  have fits: "cu_fits (keyed_cu d out) []" for d out
    by (simp add: cu_fits_def keyed_cu_def short_def cu_inputs_def sort_dedup_def compilation_unit_default_def vname_default_def)
  have buf: "last_byte (digest_buffer (keyed_cu d out) []) = ucast d" for d out
    by (simp add: last_byte_def digest_buffer_fields keyed_cu_def cu_inputs_def sort_dedup_def str_field_def)
  have same: "digest_buffer (keyed_cu d out) [] = digest_buffer (keyed_cu d out') []" for d out out'
    by (simp add: digest_buffer_fields keyed_cu_def cu_inputs_def)
  have free: "last_byte (digest_buffer (keyed_cu 1 []) []) = last_byte (digest_buffer (keyed_cu 2 []) []) \<longrightarrow>
      digest_buffer (keyed_cu 1 []) [] = digest_buffer (keyed_cu 2 []) []" by (simp add: buf)
  have "cu_content_digest last_byte (keyed_cu 1 []) [] \<noteq> cu_content_digest last_byte (keyed_cu 2 []) []"
    using digest_identity [OF fits fits, of last_byte, OF free] by (simp add: keyed_cu_def)
  moreover have "cu_content_digest last_byte (keyed_cu 1 [0x61]) [] = cu_content_digest last_byte (keyed_cu 1 [0x62]) []"
    using digest_identity [OF fits fits, of last_byte 1 "[0x61]" 1 "[0x62]"] same [of 1 "[0x61]" "[0x62]"] by (simp add: keyed_cu_def)
  ultimately show ?thesis by blast
qed


definition success :: unit_outcome where
  "success = \<lparr> uo_ingest_ok = True, uo_wait_ok = True, uo_exit_ok = True, uo_entries = 1 \<rparr>"

lemma success_ok [simp]: "cu_succeeded success"
  by (simp add: cu_succeeded_def success_def)










text \<open>C11: The first coalescing level turns the shards of units, which number their own files, into an index with
  the ids of the whole build: the index that \<^verbatim>\<open>coalesce_shards_remapped\<close> writes opens, and \<^verbatim>\<open>Index::xrefs\<close>
  with the paths of \<^verbatim>\<open>Index::file_path\<close> returns exactly the cross references of all the units, each with its
  path, for units whose paths are among the candidate paths of the plan.\<close>

theorem coalesced_answers:
  assumes "\<forall>cu \<in> set cus. unit_fit seed cu" and "list_all2 (\<lambda>cu fl. unit_shard cu = Some fl) cus fls"
    and "distinct seed" and "length seed \<le> 2 ^ 32" and "content_bounded (finish_content (group_builder U seed cus))"
    and "s \<noteq> - 1 \<or> role_hi \<noteq> 255"
  shows "\<exists>out ix rows. coalesce_shards_remapped U fls (map_of (global_of seed)) = Some (Inr out) \<and> index_open out = Inr ix \<and>
    xrefs ix s role_lo role_hi = Some rows \<and>
    {(r, p, v). \<exists>f. (s, r, f, v) \<in> set rows \<and> file_path ix f = Some (Some p)} =
    {(r, clamp_blob_str p, v) | r p v. (\<exists>cu \<in> set cus. (s, r, p, v) \<in> located cu) \<and> role_lo \<le> r \<and> r \<le> role_hi}"
proof -
  obtain out ix where out: "coalesce_shards_remapped U fls (map_of (global_of seed)) = Some (Inr out)" "index_open out = Inr ix"
    "indexed (group_builder U seed cus) ix" "located (group_builder U seed cus) = (\<Union>cu \<in> set cus. located cu)"
    using coalesce_group [OF assms(1-5)] by blast
  from located_answers [OF out(3) assms(6), of role_lo] show ?thesis using out(1,2,4) by simp
qed

lemma demo_local:
  "finish_content (unit_local demo_builder) = \<lparr> c_xrefs = [(7, 2, 0, 5)], c_syms = [(7, 0, 0, lit ''kythe::###t'')], c_aliases = [],
      c_files = [(0, [0x66])], c_inh = [], c_calls = [], c_typed = [], c_childrev = [], c_sig = [] \<rparr>"
  by code_simp

lemma demo_group_builder:
  "group_builder ascii_tables [[], [0x66]] [demo_builder] = builder_new\<lparr> b_xrefs := [(7, 2, 1, 5)],
     b_syms := [(7, 0, 0, lit ''kythe::###t'')], b_files := [(1, [0x66])] \<rparr>"
  by (simp add: group_builder_def demo_local content_builder_def remapped_def global_of_def merge_from_def builder_new_def map_filter_simps clamp_id lit_def)

lemma demo_group:
  "finish_content (group_builder ascii_tables [[], [0x66]] [demo_builder]) = \<lparr> c_xrefs = [(7, 2, 1, 5)], c_syms = [(7, 0, 0, lit ''kythe::###t'')],
      c_aliases = [], c_files = [(1, [0x66])], c_inh = [], c_calls = [], c_typed = [], c_childrev = [], c_sig = [] \<rparr>"
  unfolding demo_group_builder by code_simp

lemma demo_fit: "unit_fit [[], [0x66]] demo_builder"
proof -
  have "builder_ok demo_builder" "length (file_paths (b_files demo_builder)) = 1" by code_simp+
  moreover have "\<forall>(s, r, f, v) \<in> set (b_xrefs demo_builder). f \<in> fst ` set (b_files demo_builder)"
    "snd ` set (b_files demo_builder) \<subseteq> set [[], [0x66]]" by (simp_all add: demo_builder_def)
  moreover have "content_bounded (finish_content (unit_local demo_builder))" "short_strings (finish_content (unit_local demo_builder))"
    by (simp_all add: demo_local content_bounded_def content_weight_def content_blob_def clamp_id lit_def short_strings_def)
  ultimately show ?thesis by (simp add: unit_fit_def)
qed

lemma demo_located: "located demo_builder = {(7, role_REF, [0x66], 5)}"
  by (auto simp: located_def demo_builder_def role_REF_def)

theorem coalesced_answers_witness:
  "\<exists>fl out ix rows. unit_shard demo_builder = Some fl \<and>
    coalesce_shards_remapped ascii_tables [fl] (map_of (global_of [[], [0x66]])) = Some (Inr out) \<and> index_open out = Inr ix \<and>
    xrefs ix 7 0 255 = Some rows \<and> {(r, p, v). \<exists>f. (7, r, f, v) \<in> set rows \<and> file_path ix f = Some (Some p)} = {(role_REF, [0x66], 5)}"
proof -
  have fit: "\<forall>cu \<in> set [demo_builder]. unit_fit [[], [0x66]] cu" using demo_fit by simp
  obtain fl where fl: "unit_shard demo_builder = Some fl"
    using index_exists [of "unit_local demo_builder"] unit_local_view(1) [OF demo_fit] demo_fit by (auto simp: unit_shard_local unit_fit_def)
  have bounded: "content_bounded (finish_content (group_builder ascii_tables [[], [0x66]] [demo_builder]))"
    by (simp add: demo_group content_bounded_def content_weight_def content_blob_def clamp_id lit_def)
  have "list_all2 (\<lambda>cu fl. unit_shard cu = Some fl) [demo_builder] [fl]" "distinct [[], [0x66 :: u8]]"
    "length [[], [0x66 :: u8]] \<le> 2 ^ 32" "(7 :: u64) \<noteq> - 1 \<or> (255 :: u8) \<noteq> 255" using fl by simp_all
  from coalesced_answers [OF fit this(1-3) bounded this(4), of 0] fl show ?thesis
    by (auto simp: demo_located role_REF_def clamp_id word_le_nat_alt)
qed

section \<open>Runs of the workers\<close>

text \<open>C5: Whatever the interleaving of the workers and the snapshots, as long as every shard that was tried is
  written, the final merge of a fresh run writes an index that opens and that answers for exactly the
  units that succeeded: no row of theirs is lost or reported twice, and none of another unit appears.\<close>

theorem run_output:
  assumes "run_steps U every cap r0 r h bs False" and "start_ok r0" and "rn_shards r0 = []"
    and "\<forall>b \<in> set bs. content_bounded (finish_content b)" and "content_bounded (finish_content (everything U bs r))"
    and "s \<noteq> - 1"
  shows "\<exists>fl ix. final_merge U None r = Some (Inr fl) \<and> index_open fl = Inr ix \<and>
    xrefs ix s role_lo role_hi =
      Some (filter (\<lambda>(s', r, f, v). s' = s \<and> role_lo \<le> r \<and> r \<le> role_hi) (sort_dedup (concat (map (b_xrefs \<circ> snd) h)))) \<and>
    calls_from ix s = Some (map snd (filter (\<lambda>(c, d, r). c = s) (sort_dedup (concat (map (b_calls \<circ> snd) h))))) \<and>
    inherits_of ix s = Some (map snd (filter (\<lambda>(c, p). c = s) (sort_dedup (concat (map (b_inherits \<circ> snd) h))))) \<and>
    members ix s = Some (map snd (filter (\<lambda>(p, c). p = s) (sort_dedup (concat (map (b_childof \<circ> snd) h)))))"
proof -
  let ?E = "everything U bs r"
  obtain fl ix where out: "final_merge U None r = Some (Inr fl)" "index_open fl = Inr ix" "indexed ?E ix"
    using final_merge_output [OF assms(1,2), of "[]"] assms(3-5) by auto
  have "sort_dedup (b_xrefs ?E) = sort_dedup (concat (map (b_xrefs \<circ> snd) h))"
    "sort_dedup (b_calls ?E) = sort_dedup (concat (map (b_calls \<circ> snd) h))"
    "sort_dedup (b_inherits ?E) = sort_dedup (concat (map (b_inherits \<circ> snd) h))"
    "sort_dedup (b_childof ?E) = sort_dedup (concat (map (b_childof \<circ> snd) h))"
    using kept_xrefs.complete [OF assms(1,2), of "[]"] kept_calls.complete [OF assms(1,2), of "[]"]
      kept_inherits.complete [OF assms(1,2), of "[]"] kept_childof.complete [OF assms(1,2), of "[]"]
    by (auto intro!: sort_dedup_cong simp: split_beta)
  with xrefs_indexed [OF out(3), of s role_hi role_lo] edges_indexed [OF out(3) assms(6)] assms(6) out(1,2) show ?thesis by auto
qed

text \<open>C30: The gauge that triggers snapshots never drifts: at every point of a run it is the number of rows that wait
  in the sinks of the workers (modulo its 64 bits).\<close>

theorem rows_gauge:
  assumes "run_steps U every cap r0 r h bs lost" and "start_ok r0"
  shows "rn_delta_rows r = of_nat (sum_list (map (\<lambda>s. delta_row_count (ws_builder s)) (rn_sinks r)))"
  using run_gauge [OF assms] by (simp add: waiting_def)

lemma run_start_ok:
  assumes "alloc_ok ids" and "\<forall>i \<in> fst ` set shards. i < next"
  shows "start_ok (run_start w done_shas next ids shards shas)"
  using assms by (simp add: start_ok_def run_start_def)

text \<open>The next index of a directory that holds the given shards is above all of them.\<close>

lemma next_index_above:
  assumes "utf8_valid stem" and "i \<in> set is'" and "(- 1) \<notin> set is'"
  shows "i < next_shard_index stem (map (partial_shard_for stem) is')"
proof -
  let ?names = "map (partial_shard_for stem) is'"
  have fst_scan: "map fst (scan_partial_shards stem ?names) = is'"
    by (simp add: scan_partial_shards_def List.map_filter_def comp_def shard_index_name [OF assms(1)])
  obtain j js where js: "is' = j # js" using assms(2) by (cases is') auto
  have "fold max js j \<in> set is'" unfolding js using Max_in [of "set (j # js)"] by (simp flip: Max.set_eq_fold)
  then have ne: "fold max js j \<noteq> - 1" using assms(3) by metis
  have "i \<le> fold max js j" using assms(2) unfolding js by (rule fold_max_ge)
  moreover have "next_shard_index stem ?names = fold max js j + 1" unfolding next_shard_index_def fst_scan by (simp add: js)
  ultimately show ?thesis using less_succ_iff [OF ne, of i] by simp
qed

text \<open>C7: The checkpoint never promises too much: at every point of a run that started from nothing, the checkpoint
  on disk loads on resume, and every unit it names was indexed and has all its rows in a shard on disk.\<close>

theorem crash_safe:
  assumes "run_steps U every cap (run_start w [] 0 ids [] None) r h bs lost" and "alloc_ok ids"
    and "rn_shas r = Some ckpt" and "list_all (sha_clean U) (map fst h)"
  shows "\<exists>done_shas. resume_done U False (Some ckpt) (length (rn_shards r)) = Inr done_shas \<and>
    (\<forall>sha \<in> set done_shas. \<exists>cu b. (sha, cu) \<in> set h \<and> covers b cu \<and> (\<exists>(i, fl) \<in> set (rn_shards r). finish b = Some fl))"
proof -
  let ?r0 = "run_start w [] 0 ids [] None"
  have ok: "start_ok ?r0" using assms(2) by (simp add: run_start_ok)
  have shards: "list_all2 (\<lambda>(i, fl) b. finish b = Some fl \<and> builder_ok b) (rn_shards r) bs"
    using run_shards [OF assms(1) ok] by (auto simp: run_start_def)
  obtain shas where shas: "ckpt = write_partial_shas shas" "\<forall>sha \<in> set shas. durable h bs sha"
    using run_durable [OF assms(1) ok] assms(3) by (auto simp: run_start_def)
  then have clean: "list_all (sha_clean U) shas" using assms(4) by (fastforce simp: durable_def list_all_iff)
  have "utf8_valid (write_partial_shas shas)"
    using clean by (induction shas) (auto simp: write_partial_shas_def sha_clean_def intro!: utf8_append)
  moreover have "rn_shards r \<noteq> []"
    using checkpoint_shard [OF assms(1)] shards assms(3) by (auto simp: run_start_def)
  ultimately have "resume_done U False (Some ckpt) (length (rn_shards r)) = Inr (remdups shas)"
    by (simp add: resume_done_def Let_def shas(1) read_written_shas [OF clean])
  moreover have "\<exists>(i, fl) \<in> set (rn_shards r). finish b = Some fl" if "b \<in> set bs" for b
    using shards that by (fastforce simp: list_all2_conv_all_nth in_set_conv_nth)
  then have "\<exists>cu b. (sha, cu) \<in> set h \<and> covers b cu \<and> (\<exists>(i, fl) \<in> set (rn_shards r). finish b = Some fl)"
    if "sha \<in> set shas" for sha using shas(2) that unfolding durable_def by metis
  ultimately show ?thesis by (intro exI [of _ "remdups shas"]) simp
qed

text \<open>C8: Nothing is skipped or lost over a crash: the resumed run, which numbers its shards after the existing ones,
  writes an index that opens and that answers with the cross references in the shards of the first run
  and of the units that the resumed run indexed.\<close>

theorem resume_output:
  assumes "run_steps U every cap (run_start w [] 0 ids [] None) r h bs lost" and "alloc_ok ids" and "alloc_ok ids'"
    and "utf8_valid stem"
    and "run_steps U every' cap' (run_start w' done_shas (next_shard_index stem (map (partial_shard_for stem) (map fst (rn_shards r))))
      ids' (rn_shards r) ckpt) r' h' bs' False"
    and "\<forall>b \<in> set (bs @ bs'). content_bounded (finish_content b)" and "content_bounded (finish_content (everything U (bs @ bs') r'))"
    and "s \<noteq> - 1 \<or> role_hi \<noteq> 255"
  shows "\<exists>fl ix. final_merge U None r' = Some (Inr fl) \<and> index_open fl = Inr ix \<and>
    xrefs ix s role_lo role_hi =
      Some (filter (\<lambda>(s', r, f, v). s' = s \<and> role_lo \<le> r \<and> r \<le> role_hi)
        (sort_dedup (concat (map b_xrefs bs) @ concat (map (b_xrefs \<circ> snd) h'))))"
proof -
  let ?r0 = "run_start w [] 0 ids [] None"
  let ?r1 = "run_start w' done_shas (next_shard_index stem (map (partial_shard_for stem) (map fst (rn_shards r)))) ids' (rn_shards r) ckpt"
  have ok: "start_ok ?r0" using assms(2) by (simp add: run_start_ok)
  have shards: "list_all2 (\<lambda>(i, fl) b. finish b = Some fl \<and> builder_ok b) (rn_shards r) bs" "sorted_wrt (<) (map fst (rn_shards r))"
    "\<forall>i \<in> fst ` set (rn_shards r). i < rn_next_shard r"
    using run_shards [OF assms(1) ok] by (auto simp: run_start_def)
  have "(- 1) \<notin> set (map fst (rn_shards r))" using shards(3) by force
  then have "\<forall>i \<in> fst ` set (rn_shards r). i < next_shard_index stem (map (partial_shard_for stem) (map fst (rn_shards r)))"
    using next_index_above [OF assms(4), of _ "map fst (rn_shards r)"] by simp
  then have ok1: "start_ok ?r1" using assms(3) by (intro run_start_ok)
  let ?E = "everything U (bs @ bs') r'"
  obtain fl ix where out: "final_merge U None r' = Some (Inr fl)" "index_open fl = Inr ix" "indexed ?E ix"
    using final_merge_output [OF assms(5) ok1, of bs] shards(1,2) assms(6,7) by (auto simp: run_start_def)
  have "sort_dedup (b_xrefs ?E) = sort_dedup (concat (map b_xrefs bs) @ concat (map (b_xrefs \<circ> snd) h'))"
    using kept_xrefs.complete [OF assms(5) ok1, of bs] by (auto intro!: sort_dedup_cong simp: split_beta)
  with xrefs_indexed [OF out(3) assms(8), of role_lo] out(1,2) show ?thesis by simp
qed

text \<open>One worker, one unit and one snapshot.\<close>

definition demo_ids :: file_ids where
  "demo_ids = snd (intern [0x66] file_ids_default)"

definition demo_start :: run_state where
  "demo_start = run_start 1 [] 0 demo_ids [] None"

definition demo_unit :: run_state where
  "demo_unit = record_unit ascii_tables 0 [0x61] success demo_builder demo_start"

lemma demo_ids_ok: "alloc_ok demo_ids" "id_of demo_ids [0x66] = Some 0" "push_to demo_ids demo_builder = demo_builder"
  "drain_into demo_ids demo_builder = demo_builder"
proof -
  have "utf8_valid [0x66]" by code_simp
  then show "alloc_ok demo_ids" unfolding demo_ids_def by (intro alloc_ok_intern alloc_ok_default) (simp_all add: file_ids_default_def)
qed (simp_all add: demo_ids_def id_of_def intern_def file_ids_default_def push_to_def drain_into_def upsert_file_def demo_builder_def)

lemma demo_start_ok: "start_ok demo_start"
  by (simp add: demo_start_def run_start_ok demo_ids_ok)

lemma demo_builder_ok: "builder_ok demo_builder"
  by code_simp

lemma demo_unit_run: "run_steps ascii_tables 1 0 demo_start demo_unit [([0x61], demo_builder)] [] False"
  using run_steps.unit [OF run_steps.start, of 0 demo_start demo_builder ascii_tables 1 0 "[0x61]" success] demo_builder_ok
  by (simp add: demo_unit_def) (simp add: demo_start_def run_start_def)

lemma demo_merge: "merge_from ascii_tables builder_new demo_builder = demo_builder" "fst (dedup_tables demo_builder) = demo_builder"
  by (simp_all add: merge_from_def demo_builder_def builder_new_def dedup_tables_def sort_dedup_def Let_def)

lemma demo_sinks: "rn_sinks demo_unit = [\<lparr> ws_builder = demo_builder, ws_pending_shas = [[0x61]] \<rparr>]"
  "ac_builder (rn_acc demo_unit) = builder_new" "rn_file_ids demo_unit = demo_ids" "rn_shards demo_unit = []"
  by (simp_all add: demo_unit_def record_unit_view fold_unit_view demo_merge) (simp_all add: demo_start_def run_start_def sink_default_def demo_merge)

lemma demo_deltas: "snapshot_delta ascii_tables [False] demo_unit = demo_builder" "everything ascii_tables [] demo_unit = demo_builder"
  by (simp_all add: snapshot_delta_def everything_def final_delta_def taken_def demo_sinks demo_merge demo_ids_ok)

theorem run_output_witness:
  "run_steps ascii_tables 1 0 demo_start demo_unit [([0x61], demo_builder)] [] False \<and>
   (\<exists>fl ix. final_merge ascii_tables None demo_unit = Some (Inr fl) \<and> index_open fl = Inr ix \<and>
     xrefs ix 7 0 255 = Some [(7, role_REF, 0, 5)] \<and> calls_from ix 7 = Some [])"
proof -
  have "rn_shards demo_start = []" by (simp add: demo_start_def run_start_def)
  from run_output [OF demo_unit_run demo_start_ok this, of 7 0 255] demo_unit_run show ?thesis
    by (simp add: demo_deltas demo_content) (auto simp: demo_builder_def builder_new_def sort_dedup_def role_REF_def word_le_nat_alt)
qed

theorem rows_gauge_witness: "run_steps ascii_tables 1 0 demo_start demo_unit [([0x61], demo_builder)] [] False \<and> rn_delta_rows demo_unit = 1"
  using rows_gauge [OF demo_unit_run demo_start_ok] demo_unit_run
  by (simp add: demo_sinks delta_row_count_def) (simp add: demo_builder_def builder_new_def)

lemma demo_snapshot:
  "\<exists>r fl. run_steps ascii_tables 1 0 demo_start r [([0x61], demo_builder)] [demo_builder] False \<and> finish demo_builder = Some fl \<and>
     rn_shards r = [(0, fl)] \<and> rn_shas r = Some [0x61, 0x0A] \<and> rn_file_ids r = demo_ids"
proof -
  obtain fl where fl: "finish demo_builder = Some fl" using index_exists [OF demo_builder_ok demo_content] by blast
  obtain res r where snap: "snapshot ascii_tables [False] True True 1 demo_unit = (res, r)" by (cases "snapshot ascii_tables [False] True True 1 demo_unit")
  have start: "rn_next_shard demo_unit = 0" "rn_last_snap demo_unit = 0" "ac_committed_shas (rn_acc demo_unit) = []"
    by (simp_all add: demo_unit_def record_unit_def fold_unit_def Let_def split_beta demo_start_def run_start_def)
  have view: "res = Snapped" "rn_shards r = [(0, fl)]" "rn_shas r = Some [0x61, 0x0A]" "rn_file_ids r = demo_ids"
    using snap fl by (simp_all add: snapshot_def demo_sinks start demo_merge write_partial_shas_def demo_ids_ok split: option.splits) (auto simp: demo_sinks)
  have "run_steps ascii_tables 1 0 demo_start r [([0x61], demo_builder)] (if res = Snapped then [] @ [snapshot_delta ascii_tables [False] demo_unit] else []) (False \<or> res \<noteq> Snapped)"
    by (rule run_steps.snap [OF demo_unit_run _ _ _ snap]) (simp_all add: demo_sinks snap_due_def start)
  then show ?thesis using view fl by (auto simp: demo_deltas)
qed

theorem crash_safe_witness:
  "\<exists>r done_shas. run_steps ascii_tables 1 0 (run_start 1 [] 0 demo_ids [] None) r [([0x61], demo_builder)] [demo_builder] False \<and>
    rn_shas r = Some [0x61, 0x0A] \<and> resume_done ascii_tables False (Some [0x61, 0x0A]) (length (rn_shards r)) = Inr done_shas \<and>
    set done_shas \<subseteq> {[0x61]}"
proof -
  obtain r where r: "run_steps ascii_tables 1 0 (run_start 1 [] 0 demo_ids [] None) r [([0x61], demo_builder)] [demo_builder] False"
    "rn_shas r = Some [0x61, 0x0A]" using demo_snapshot by (auto simp: demo_start_def)
  have "sha_clean ascii_tables [0x61]" by code_simp
  then have "list_all (sha_clean ascii_tables) (map fst [([0x61], demo_builder)])" by simp
  from crash_safe [OF r(1) demo_ids_ok(1) r(2) this] obtain done_shas where
    d: "resume_done ascii_tables False (Some [0x61, 0x0A]) (length (rn_shards r)) = Inr done_shas"
      "\<forall>sha \<in> set done_shas. \<exists>cu. (sha, cu) \<in> set [([0x61], demo_builder)]" by blast
  then show ?thesis using r by auto
qed

theorem resume_output_witness:
  "\<exists>r fl ix. run_steps ascii_tables 1 0 (run_start 1 [] 0 demo_ids [] None) r [([0x61], demo_builder)] [demo_builder] False \<and>
    final_merge ascii_tables None (run_start 1 [[0x61]] (next_shard_index [0x6F] (map (partial_shard_for [0x6F]) (map fst (rn_shards r))))
      file_ids_default (rn_shards r) (rn_shas r)) = Some (Inr fl) \<and>
    index_open fl = Inr ix \<and> xrefs ix 7 0 255 = Some [(7, role_REF, 0, 5)]"
proof -
  obtain r where r: "run_steps ascii_tables 1 0 (run_start 1 [] 0 demo_ids [] None) r [([0x61], demo_builder)] [demo_builder] False"
    using demo_snapshot by (auto simp: demo_start_def)
  let ?r1 = "run_start 1 [[0x61]] (next_shard_index [0x6F] (map (partial_shard_for [0x6F]) (map fst (rn_shards r)))) file_ids_default (rn_shards r) (rn_shas r)"
  have utf: "utf8_valid [0x6F]" by code_simp
  have run: "run_steps ascii_tables 1 0 ?r1 ?r1 [] [] False" by (rule run_steps.start)
  have "final_delta ascii_tables ?r1 = builder_new"
    by (simp add: final_delta_def run_start_def sink_default_def drain_into_def file_ids_default_def merge_from_def builder_new_def)
  moreover have "finish_content demo_builder = \<lparr> c_xrefs = [(7, 2, 0, 5)], c_syms = [(7, 0, 0, lit ''kythe::###t'')], c_aliases = [],
      c_files = [(0, [0x66])], c_inh = [], c_calls = [], c_typed = [], c_childrev = [], c_sig = [] \<rparr>" by code_simp
  then have "content_builder (finish_content demo_builder) = demo_builder"
    by (simp add: content_builder_def clamp_id lit_def demo_builder_def builder_new_def role_REF_def kind_UNK_def lang_UNK_def)
  ultimately have "everything ascii_tables [demo_builder] ?r1 = demo_builder"
    by (simp add: everything_def demo_merge) (simp add: merge_from_def demo_builder_def builder_new_def)
  then have bounded: "\<forall>b \<in> set ([demo_builder] @ []). content_bounded (finish_content b)"
    "content_bounded (finish_content (everything ascii_tables ([demo_builder] @ []) ?r1))" using demo_content by simp_all
  have seven: "(7 :: u64) \<noteq> - 1 \<or> (255 :: u8) \<noteq> 255" by simp
  from resume_output [OF r demo_ids_ok(1) alloc_ok_default utf run bounded seven, of 0] r show ?thesis
    by (auto simp: demo_builder_def builder_new_def sort_dedup_def role_REF_def word_le_nat_alt)
qed

text \<open>C9: No path is misattributed after a resume: when the units took their file ids from the allocator of the first
  run, the allocator that the resumed run fills from the shards gives every path of a shard its old id, and gives
  that id to no other path.\<close>

theorem resume_file_ids:
  assumes "run_steps U every cap (run_start w [] 0 ids [] None) r h bs lost" and "alloc_ok ids"
    and "\<forall>(sha, cu) \<in> set h. \<forall>(i, p) \<in> set (b_files cu). id_of (rn_file_ids r) p = Some i"
    and "\<forall>b \<in> set bs. content_bounded (finish_content b) \<and> short_strings (finish_content b)"
  shows "\<exists>ids'. run_file_ids True None (rn_shards r) seed = Some ids' \<and> alloc_ok ids' \<and>
    (\<forall>b \<in> set bs. \<forall>(i, p) \<in> set (b_files b). \<forall>q. fst (intern q ids') = i \<longleftrightarrow> q = p)"
proof -
  have ok: "start_ok (run_start w [] 0 ids [] None)" using assms(2) by (simp add: run_start_ok)
  have alloc: "alloc_ok (rn_file_ids r)" using run_shape [OF assms(1) ok] by blast
  have shards: "list_all2 (\<lambda>(i, fl) b. finish b = Some fl \<and> builder_ok b) (rn_shards r) bs" "sorted_wrt (<) (map fst (rn_shards r))"
    using run_shards [OF assms(1) ok] by (auto simp: run_start_def)
  have "\<forall>(sha, cu) \<in> set h. files_agree (rn_file_ids r) cu" using assms(3) by (fastforce simp: files_agree_def)
  then have "\<forall>b \<in> set bs. files_agree (rn_file_ids r) b" using run_files [OF assms(1) ok extends_refl] by blast
  then have agree: "\<forall>b \<in> set bs. content_bounded (finish_content b) \<and> short_strings (finish_content b) \<and> files_agree (rn_file_ids r) b"
    using assms(4) by blast
  have "extends file_ids_default (rn_file_ids r)" by (simp add: extends_def id_of_def file_ids_default_def)
  from seed_sources_agree [OF shards(1) agree alloc_ok_default alloc this] obtain ids' where
    ids': "seed_sources (map snd (rn_shards r)) file_ids_default = Some ids'" "alloc_ok ids'" "\<forall>b \<in> set bs. files_agree ids' b" by blast
  have "fst (intern q ids') = i \<longleftrightarrow> q = p" if "b \<in> set bs" "(i, p) \<in> set (b_files b)" for b i p q
  proof -
    have i: "id_of ids' p = Some i" using ids'(3) that by (fastforce simp: files_agree_def)
    then have "i < fa_next ids'" using ids'(2) by (simp add: alloc_ok_def)
    moreover have "id_of ids' q = Some i \<longleftrightarrow> q = p" using ids'(2) i by (auto simp: alloc_ok_def)
    ultimately show ?thesis by (auto simp: fst_intern split: option.split)
  qed
  moreover have "run_file_ids True None (rn_shards r) seed = Some ids'"
    using ids'(1) sorted_wrt_sort_key [OF shards(2)] by (simp add: run_file_ids_def)
  ultimately show ?thesis using ids'(2) by blast
qed

theorem resume_file_ids_witness:
  "\<exists>r ids'. run_steps ascii_tables 1 0 (run_start 1 [] 0 demo_ids [] None) r [([0x61], demo_builder)] [demo_builder] False \<and>
    run_file_ids True None (rn_shards r) [] = Some ids' \<and> fst (intern [0x66] ids') = 0 \<and> fst (intern [0x67] ids') \<noteq> 0"
proof -
  obtain r where r: "run_steps ascii_tables 1 0 (run_start 1 [] 0 demo_ids [] None) r [([0x61], demo_builder)] [demo_builder] False"
    "rn_file_ids r = demo_ids" using demo_snapshot by (auto simp: demo_start_def)
  have files: "b_files demo_builder = [(0, [0x66])]" by (simp add: demo_builder_def)
  have "\<forall>(sha, cu) \<in> set [([0x61 :: u8], demo_builder)]. \<forall>(i, p) \<in> set (b_files cu). id_of (rn_file_ids r) p = Some i"
    by (simp add: r(2) files demo_ids_ok)
  moreover have "finish_content demo_builder = \<lparr> c_xrefs = [(7, 2, 0, 5)], c_syms = [(7, 0, 0, lit ''kythe::###t'')], c_aliases = [],
      c_files = [(0, [0x66])], c_inh = [], c_calls = [], c_typed = [], c_childrev = [], c_sig = [] \<rparr>" by code_simp
  then have "\<forall>b \<in> set [demo_builder]. content_bounded (finish_content b) \<and> short_strings (finish_content b)"
    using demo_content by (simp add: short_strings_def lit_def)
  ultimately obtain ids' where "run_file_ids True None (rn_shards r) [] = Some ids'"
      "\<forall>b \<in> set [demo_builder]. \<forall>(i, p) \<in> set (b_files b). \<forall>q. fst (intern q ids') = i \<longleftrightarrow> q = p"
    using resume_file_ids [OF r(1) demo_ids_ok(1)] by blast
  then show ?thesis using r(1) by (auto simp: files)
qed

section \<open>Indexing entry streams\<close>

text \<open>C10: The command \<^verbatim>\<open>index\<close>, end to end: for streams of framed entries, each coherent in itself, the file it writes
  opens, and \<^verbatim>\<open>Index::xrefs\<close> with the paths of \<^verbatim>\<open>Index::file_path\<close> returns exactly the cross references that
  the streams state, each with the path of its anchor, as long as the file ids and the tables fit.\<close>

theorem index_answers:
  assumes "list_all (\<lambda>es. list_all framed es \<and> coherent (set es)) ess" and "sum_list (map length ess) < 2 ^ 32"
    and "\<forall>b a. index_streams H U (map (\<lambda>es. Some (frames es)) ess) builder_new file_ids_default = Inr (b, a) \<longrightarrow>
      content_bounded (finish_content (drain_into a b))"
    and "s \<noteq> - 1 \<or> role_hi \<noteq> 255"
  shows "\<exists>fl ix rows. cmd_index H U (map (\<lambda>es. Some (frames es)) ess) = Inr (Some fl) \<and> index_open fl = Inr ix \<and>
    xrefs ix s role_lo role_hi = Some rows \<and>
    {(r, p, v). \<exists>f. (s, r, f, v) \<in> set rows \<and> file_path ix f = Some (Some p)} =
    {(r, clamp_blob_str p, v) | r p v. (\<exists>es \<in> set ess. (s, r, p, v) \<in> stated H es) \<and> role_lo \<le> r \<and> r \<le> role_hi}"
proof -
  have room: "unat (fa_next file_ids_default) + sum_list (map length ess) < 2 ^ 32" using assms(2) by (simp add: file_ids_default_def)
  obtain b a where run: "index_streams H U (map (\<lambda>es. Some (frames es)) ess) builder_new file_ids_default = Inr (b, a)"
      "stream_ready b a" "located b = located builder_new \<union> (\<Union>es \<in> set ess. stated H es)"
    using index_streams_located [OF stream_ready_new assms(1) room] by blast
  have loc: "located (drain_into a b) = (\<Union>es \<in> set ess. stated H es)"
    using drained_located [OF run(2)] run(3) by (simp add: located_new)
  have "builder_ok (drain_into a b)" using run(2) builder_ok_push by (auto simp: stream_ready_def)
  then obtain fl ix where ix: "finish (drain_into a b) = Some fl" "index_open fl = Inr ix" "indexed (drain_into a b) ix"
    using index_exists assms(3) run(1) by blast
  show ?thesis using located_answers [OF ix(3) assms(4), of role_lo] ix(1,2) run(1) unfolding loc
    by (auto simp: cmd_index_def)
qed

theorem index_answers_witness:
  "\<exists>fl ix rows. cmd_index demo_hash ascii_tables [Some (frames demo_entries)] = Inr (Some fl) \<and> index_open fl = Inr ix \<and>
    xrefs ix 7 0 255 = Some rows \<and> {(r, p, v). \<exists>f. (7, r, f, v) \<in> set rows \<and> file_path ix f = Some (Some p)} = {(role_REF, [0x66], 5)}"
proof -
  have es: "list_all (\<lambda>es. list_all framed es \<and> coherent (set es)) [demo_entries]" using demo_framed demo_coherent by simp
  have room: "sum_list (map length [demo_entries]) < 2 ^ 32" by (simp add: demo_entries_def)
  obtain st a where run: "ingest_stream demo_hash ascii_tables (frames demo_entries) builder_new file_ids_default = (Inr st, demo_builder, a)"
    using demo_stream by blast
  have "drain_into (snd (intern [0x66] file_ids_default)) demo_builder = demo_builder"
    by (simp add: drain_into_def intern_def file_ids_default_def upsert_file_def demo_builder_def)
  then have bounded: "\<forall>b a. index_streams demo_hash ascii_tables (map (\<lambda>es. Some (frames es)) [demo_entries]) builder_new file_ids_default = Inr (b, a) \<longrightarrow>
      content_bounded (finish_content (drain_into a b))" using run demo_stream_files [OF run] demo_content by simp
  have "stated demo_hash demo_entries = {(7, role_REF, [0x66], 5)}" by (auto simp: stated_def demo_canonical demo_facts)
  moreover have "(7 :: u64) \<noteq> - 1 \<or> (255 :: u8) \<noteq> 255" by simp
  ultimately show ?thesis using index_answers [OF es room bounded, of 7 255 0] by (auto simp: role_REF_def clamp_id word_le_nat_alt)
qed

section \<open>File ids\<close>

lemma seed_paths_rank:
  "distinct ps \<Longrightarrow> (\<And>p. p \<in> set ps \<Longrightarrow> map_of (fa_table a) p = None) \<Longrightarrow> k < length ps \<Longrightarrow>
    id_of (seed_paths ps a) (ps ! k) = Some (fa_next a + of_nat k)"
proof (induction ps arbitrary: a k)
  case (Cons p ps)
  let ?a = "a\<lparr> fa_table := hm_insert p (fa_next a, False) (fa_table a), fa_next := fa_next a + 1 \<rparr>"
  have new: "map_of (fa_table a) p = None" using Cons.prems(2) by simp
  have fresh: "map_of (fa_table ?a) q = None" if "q \<in> set ps" for q using Cons.prems that by auto
  show ?case
  proof (cases k)
    case 0
    have keep: "q \<notin> set qs \<Longrightarrow> id_of (seed_paths qs b) q = id_of b q" for q qs b
      by (induction qs b rule: seed_paths.induct) (auto simp: id_of_def)
    have "p \<notin> set ps" using Cons.prems(1) by simp
    from keep [OF this, of ?a] show ?thesis using 0 new by (simp add: id_of_def)
  next
    case (Suc j)
    then show ?thesis using Cons.IH [OF _ fresh, of j] Cons.prems new by (simp add: add.assoc)
  qed
qed simp

lemma sorted_rank:
  fixes xs :: "'a :: linorder list"
  assumes "sorted_wrt (<) xs" and "k < length xs"
  shows "card {q \<in> set xs. q < xs ! k} = (k :: nat)"
proof -
  have d: "distinct xs" using assms(1) by (simp add: strict_sorted_iff)
  have lt: "xs ! i < xs ! k \<longleftrightarrow> i < k" if "i < length xs" for i
    using sorted_wrt_nth_less [OF assms(1)] assms(2) that by (metis linorder_neqE_nat order_less_asym order_less_irrefl)
  have "{q \<in> set xs. q < xs ! k} = (!) xs ` {i. i < length xs \<and> xs ! i < xs ! k}" by (auto simp: set_conv_nth)
  also have "{i. i < length xs \<and> xs ! i < xs ! k} = {0 ..< k}" using lt assms(2) by auto
  also have "(!) xs ` {0 ..< k} = set (take k xs)" using assms(2) by (simp add: nth_image)
  finally have "{q \<in> set xs. q < xs ! k} = set (take k xs)" .
  then show ?thesis using distinct_card [OF distinct_take [OF d, of k]] assms(2) by simp
qed

text \<open>C29: File ids are deterministic: with the seed of the plan, every candidate path has its rank as its id in a full
  build, whatever the workers intern in between and in which order, and the map that an incremental
  build remaps with gives it the same id.\<close>

theorem file_id_ranks:
  assumes "p \<in> set (plan_seed plan)" and "extends (seed_paths (plan_seed plan) file_ids_default) a"
  shows "fst (intern p a) = of_nat (card {q \<in> set (plan_seed plan). q < p}) \<and>
    map_of (global_of (plan_seed plan)) p = Some (fst (intern p a))"
proof -
  let ?seed = "plan_seed plan"
  have strict: "sorted_wrt (<) ?seed" by (simp add: plan_seed_def strict_sorted_iff sort_dedup_sorted distinct_sort_dedup)
  then have d: "distinct ?seed" by (simp add: strict_sorted_iff)
  obtain k where k: "k < length ?seed" "p = ?seed ! k" using assms(1) by (metis in_set_conv_nth)
  have "id_of (seed_paths ?seed file_ids_default) p = Some (of_nat k)"
    using seed_paths_rank [OF d _ k(1), of file_ids_default] by (simp add: file_ids_default_def k(2))
  then have "id_of a p = Some (of_nat k)" using assms(2) by (simp add: extends_def)
  then have "fst (intern p a) = of_nat k" by (simp add: fst_intern)
  moreover have "map_of (global_of ?seed) p = Some (of_nat k)"
    using d k by (simp add: global_of_def map_of_zip_nth)
  ultimately show ?thesis using sorted_rank [OF strict k(1)] k(2) by simp
qed

theorem file_id_ranks_witness:
  "let seed = plan_seed [(Cxx, tiny_unit)] in seed = [[], [0x62, 0x2E, 0x63]] \<and>
    fst (intern [0x62, 0x2E, 0x63] (seed_paths seed file_ids_default)) = 1"
proof -
  have seed: "plan_seed [(Cxx, tiny_unit)] = [[], [0x62, 0x2E, 0x63]]" by code_simp
  have "{q. (q = [] \<or> q = [0x62, 0x2E, 0x63 :: u8]) \<and> q < [0x62, 0x2E, 0x63]} = {[]}" by auto
  then have one: "card {q \<in> set (plan_seed [(Cxx, tiny_unit)]). q < [0x62, 0x2E, 0x63]} = 1" by (simp add: seed)
  have "[0x62, 0x2E, 0x63] \<in> set (plan_seed [(Cxx, tiny_unit)])" by (simp add: seed)
  from file_id_ranks [OF this extends_refl] show ?thesis unfolding one by (simp add: seed Let_def del: seed_paths.simps)
qed

end
