(* ===== verification/Spec2Isabelle.thy ===== *)
theory Spec2Isabelle
  imports S2_Service S2_Build S2_Coalesce
begin

text \<open>
  scry2 indexes source code: it turns streams of Kythe entries into one immutable \<^verbatim>\<open>.s2db\<close> file and answers
  queries on it. This development models the crate \<open>src/crates/scry2/src\<close> and proves what the written index
  answers, from the bytes of an entry stream to the reply of the query server.

  \<^bold>\<open>The program and its parts.\<close>
  \<^item> \<open>format.rs\<close> fixes the bytes of the file: header, fixed-width big-endian rows, varints, trigram blocks.
  \<^item> \<open>writer.rs\<close> holds the \<^verbatim>\<open>IndexBuilder\<close>: tables in memory, \<^verbatim>\<open>finish\<close>, which sorts them and writes the file, and
    the streaming merge of files with a builder.
  \<^item> \<open>reader.rs\<close> opens and validates a mapped file and looks things up by binary search and, for substrings, by
    intersecting trigram postings.
  \<^item> \<open>kythe.rs\<close> decodes an entry stream and fills a builder; the workers share its file id allocator.
  \<^item> \<open>kzip.rs\<close> reads, filters, normalises and splits archives of compilation units.
  \<^item> \<open>cache.rs\<close> keeps the shard of a unit under a digest of its content.
  \<^item> \<open>main.rs\<close> plans a build, runs an indexer per unit on several workers, snapshots what they hold, resumes after
    a crash, reuses cached shards, coalesces shards and merges everything into the output.
  \<^item> \<open>server.rs\<close> and \<open>reply.rs\<close> answer requests on an open index.

  \<^bold>\<open>Theories.\<close> \<open>S2_Prelude\<close> has machine integers (\<open>u8\<close> to \<open>u64\<close> are words), bounds-checked slices (a panic is
  \<open>None\<close>), hash maps as association lists, sorting with deduplication, and the lemma collections.
  \<^item> Format: \<open>S2_Format\<close>. Search: \<open>S2_Search\<close> (binary search over packed rows, with an interface for
    row codecs that is interpreted for every table of the file).
  \<^item> Writer: \<open>S2_Names\<close> (which name survives), \<open>S2_Builder\<close> (every builder operation and its invariant
    \<open>builder_ok\<close>), \<open>S2_Localize\<close>, \<open>S2_Writer\<close> and \<open>S2_Trigram\<close> (\<^verbatim>\<open>finish\<close>), \<open>S2_Postings\<close>, \<open>S2_Layout\<close>, \<open>S2_Fits\<close>
    (finishing never panics below the size bound), \<open>S2_Merge\<close> (the streaming merge), \<open>S2_Iter\<close>,
    \<open>S2_Partition\<close> (merging in groups), \<open>S2_Coalesce\<close> (shards with local file ids).
  \<^item> Reader: \<open>S2_Reader\<close>, \<open>S2_Query\<close>, \<open>S2_Index\<close> (write, open, query), \<open>S2_Lookup\<close>, \<open>S2_Skiplist\<close> and \<open>S2_Substring\<close>.
  \<^item> Decoder: \<open>S2_Strings\<close>, \<open>S2_Proto\<close>, \<open>S2_Marked\<close>, \<open>S2_Types\<close>, \<open>S2_Alloc\<close>, \<open>S2_Ingest\<close> (state and handlers),
    \<open>S2_Wire\<close> (a reference encoder), \<open>S2_Decode\<close>, \<open>S2_Stream\<close>, \<open>S2_Enclosing\<close>, \<open>S2_Facts\<close>, \<open>S2_Paths\<close>; the
    theorems are in \<open>S2_Kythe\<close>, with the example of \<open>S2_Demo\<close>.
  \<^item> Server: \<open>S2_Reply\<close>, \<open>S2_Server\<close>, \<open>S2_Forest\<close>, \<open>S2_Dispatch\<close> are the code; \<open>S2_Walk\<close>, \<open>S2_Reach\<close>,
    \<open>S2_Handlers\<close> its lemmas; the theorems are in \<open>S2_Service\<close>.
  \<^item> Build: \<open>S2_Kzip\<close> and \<open>S2_Archive\<close> with lemmas in \<open>S2_Units\<close> (archives), \<open>S2_Cache\<close>, \<open>S2_Plan\<close> (the pure parts of
    \<open>main.rs\<close>), \<open>S2_Run\<close> (workers, snapshots, resume, final merge, \<^verbatim>\<open>cmd_index\<close>), \<open>S2_Incremental\<close> (cached builds and
    coalescing); the theorems are in \<open>S2_Build\<close>.
  \<^item> This theory has the theorems on writing, opening, querying and merging, with the example of \<open>S2_Sample\<close>.

  \<^bold>\<open>State and operations.\<close> A struct is a record with the fields of the source, a Rust function is a definition
  of the same name. \<open>index_builder\<close> is \<^verbatim>\<open>IndexBuilder\<close>; \<open>index\<close> is \<^verbatim>\<open>Index\<close>, whose mapping is the byte string of the
  file; \<open>ingest\<close> is the state of one stream; \<open>file_ids\<close> is \<^verbatim>\<open>FileIdAllocator\<close>; \<open>run_state\<close> is what the workers
  of a build share, with the files they write; \<open>shard_cache\<close> is the cache directory. A result of type
  \<open>'a option\<close> is \<open>None\<close> where the code panics, errors are the left of a sum. The interleavings of the workers are the
  step relation \<open>run_steps\<close>: a fold into a sink and a drain of it exclude each other by the lock of the
  sink, so a snapshot is one step, and any subset of the sinks may be skipped by it.

  \<^bold>\<open>What is shown.\<close> Finishing a well-formed builder never panics and the file opens; every lookup returns
  exactly the recorded rows; the trigram search agrees with a serial scan; the streaming merge writes
  the bytes that finishing the union would, in one pass or in groups; opening arbitrary bytes is safe.
  Ingesting a coherent entry stream in any order adds exactly the cross references it states, damaged
  streams included, and names, types and call attribution follow their specifications. Every request is
  answered, and traversals are breadth-first forests with exact distances. A build loses no row under
  any interleaving, its checkpoints never promise too much, a resumed and an incremental build are
  complete and keep the file ids, normalising archives keeps the units, and the filter of the archive reader is exact on the
  units that its cheap look judges rightly. The interfaces between components are locales (codecs of packed rows,
  growing id tables, walks of a traversal, tables of a unit), interpreted on the model's definitions.

  \<^bold>\<open>Bounds.\<close> \<open>content_bounded\<close> asks that the tables weigh less than \<open>2 ^ 64\<close> bytes, so that no offset of the
  layout wraps; \<open>short_strings\<close> that strings fit their 16-bit length field, beyond which they are clamped.
  Streams state \<open>coherent\<close> anchors: one path and one start per node; file ids and entries stay below
  \<open>2 ^ 32\<close>, frames below \<^verbatim>\<open>MAX_ENTRY_LEN\<close>, messages below \<open>2 ^ 63\<close> bytes, shard indices below \<open>2 ^ 64\<close>. The largest symbol is
  excluded from the edge lookups because the code fails there, which is stated separately. Recursion is by measures; the only
  counters are the ten rounds of a varint, the depth cap 64 of type rendering and the depth of a
  traversal, all of them in the source.

  \<^bold>\<open>Parameters.\<close> The symbol hash and the 128-bit hash of cache keys, the Unicode tables, the substring finder, JSON
  coding, the order of hash sets, the metadata of the indexer binaries, and the success of file operations.

  \<^bold>\<open>Not modelled.\<close> Argument parsing, starting indexers and reading their pipes, parking of workers, statistics,
  progress and messages of \<open>main.rs\<close>; sockets and the interactive loop around the request handlers of
  \<open>server.rs\<close>; the zip container and \<^verbatim>\<open>fsync\<close>; \<open>lib.rs\<close>, which only lists modules and tests; the benchmarks of
  \<open>src/crates/scry2-bench\<close>, which time third-party stores.
\<close>

section \<open>Writing a builder and querying the file\<close>

text \<open>C1: \<^verbatim>\<open>IndexBuilder::finish\<close> on a well-formed builder whose tables weigh less than 64 bits of
  offsets never panics, and \<^verbatim>\<open>Index::open\<close> accepts the file it wrote.\<close>

theorem finish_opens:
  assumes "builder_ok b" and "content_bounded (finish_content b)"
  shows "\<exists>file ix. finish b = Some file \<and> index_open file = Inr ix \<and> indexed b ix \<and> ix_map ix = file"
  by (rule index_exists [OF assms])

theorem finish_opens_witness:
  "\<exists>file ix. finish sample = Some file \<and> index_open file = Inr ix \<and> indexed sample ix \<and> ix_map ix = file"
  by (rule finish_opens [OF sample_ok sample_bounded])

text \<open>C12: \<^verbatim>\<open>Index::xrefs\<close> on a written index returns exactly the recorded cross references of the
  symbol whose role lies in the asked range, each once, sorted by role, file and offset, unless the
  end key would need the successor of the largest symbol.\<close>

theorem xrefs_finish:
  assumes "indexed b ix" and "s \<noteq> - 1 \<or> role_hi \<noteq> 255"
  shows "xrefs ix s role_lo role_hi =
    Some (filter (\<lambda>(s', r, f, off). s' = s \<and> role_lo \<le> r \<and> r \<le> role_hi) (sort_dedup (b_xrefs b)))"
  by (rule xrefs_indexed [OF assms])

theorem xrefs_finish_witness:
  "\<exists>ix. indexed sample ix \<and> xrefs ix 7 0 1 = Some [(7, 1, 0, 5)]"
proof -
  obtain ix where ix: "indexed sample ix" using sample_indexed by blast
  from xrefs_finish [OF ix, of 7 1 0] ix show ?thesis by (auto simp: sample_rows word_le_nat_alt)
qed

text \<open>\<^verbatim>\<open>Index::sym_meta\<close> on a written index is the lookup in the builder's symbol map, with the
  name clamped to the 16-bit length field; an unknown symbol gives \<^verbatim>\<open>None\<close>.\<close>

theorem sym_meta_finish:
  assumes "indexed b ix"
  shows "sym_meta ix s = Some (map_option (\<lambda>(k, l, n). (clamp_blob_str n, k, l)) (map_of (b_syms b) s))"
  by (rule sym_meta_indexed [OF assms])

theorem sym_meta_finish_witness:
  "\<exists>ix. indexed sample ix \<and> sym_meta ix 7 = Some (Some ([0x61, 0x62, 0x63], 1, 1)) \<and> sym_meta ix 9 = Some None"
proof -
  obtain ix where ix: "indexed sample ix" using sample_indexed by blast
  from sym_meta_finish [OF ix, of 7] sym_meta_finish [OF ix, of 9] ix show ?thesis
    by (auto simp: sample_def clamp_id)
qed

text \<open>\<^verbatim>\<open>Index::file_path\<close>, \<^verbatim>\<open>Index::type_of\<close> and \<^verbatim>\<open>Index::sig_of\<close> on a written index: the
  path recorded for the file id, and the lexicographically least of the types and of the signatures
  recorded for the symbol, clamped; \<^verbatim>\<open>None\<close> when nothing was recorded.\<close>

theorem strings_finish:
  assumes "indexed b ix"
  shows "file_path ix f = Some (map_option clamp_blob_str (map_of (b_files b) f)) \<and>
    type_of ix s = Some (map_option clamp_blob_str (least_string (b_typed b) s)) \<and>
    sig_of ix s = Some (map_option clamp_blob_str (least_string (b_sig b) s))"
  using strings_indexed [OF assms] by blast

theorem strings_finish_witness:
  "\<exists>ix. indexed sample ix \<and> file_path ix 0 = Some (Some [0x66]) \<and> type_of ix 7 = Some (Some [0x69]) \<and>
     sig_of ix 7 = Some (Some [0x73]) \<and> type_of ix 8 = Some None"
proof -
  obtain ix where ix: "indexed sample ix" using sample_indexed by blast
  from strings_finish [OF ix, of 0 7] strings_finish [OF ix, of 0 8] ix show ?thesis
    by (auto simp: sample_def clamp_id least_string_def min_def)
qed

text \<open>C13: \<^verbatim>\<open>Index::syms_for_name\<close> on a written index returns, sorted and without duplicates, exactly
  the symbols that answer to the queried name.\<close>

theorem syms_for_name_finish:
  assumes "indexed b ix"
  shows "\<exists>out. syms_for_name ix q = Some out \<and> sorted out \<and> distinct out \<and> set out = {s. named_by b s q}"
  by (rule syms_for_name_indexed [OF assms])

theorem syms_for_name_finish_witness:
  "\<exists>ix out. indexed sample ix \<and> syms_for_name ix [0x78] = Some out \<and> 7 \<in> set out \<and> 8 \<notin> set out"
proof -
  obtain ix where ix: "indexed sample ix" using sample_indexed by blast
  obtain out where "syms_for_name ix [0x78] = Some out" "set out = {s. named_by sample s [0x78]}"
    using syms_for_name_finish [OF ix] by blast
  moreover have "named_by sample 7 [0x78]" "\<not> named_by sample 8 [0x78]"
    by (auto simp: named_by_def sample_def clamp_id var_syms_def kind_VARIABLE_def)
  ultimately show ?thesis using ix by blast
qed

text \<open>\<^verbatim>\<open>Index::sym_for_name\<close> on a written index returns one of the symbols that answer to the
  name, and \<^verbatim>\<open>None\<close> exactly when there is none.\<close>

theorem sym_for_name_finish:
  assumes "indexed b ix"
  shows "\<exists>r. sym_for_name ix q = Some r \<and>
    (case r of Some s \<Rightarrow> named_by b s q | None \<Rightarrow> \<not> (\<exists>s. named_by b s q))"
  using assms
proof (rule indexedE)
  fix t assume t: "content_fits (finish_content b) t" "ix = opened t"
  from names_content(3) [OF t(1), of q] show ?thesis
    unfolding t(2) [symmetric] using name_entries_finish [of q _ b] by force
qed

theorem sym_for_name_finish_witness:
  "\<exists>ix. indexed sample ix \<and> sym_for_name ix [0x79] = Some None"
proof -
  obtain ix where ix: "indexed sample ix" using sample_indexed by blast
  have "\<not> named_by sample s [0x79]" for s by (auto simp: named_by_def sample_def clamp_id)
  with sym_for_name_finish [OF ix, of "[0x79]"] have "sym_for_name ix [0x79] = Some None"
    by (auto split: option.splits)
  with ix show ?thesis by blast
qed

text \<open>\<^verbatim>\<open>Index::names_with_prefix\<close> on a written index returns the first \<open>limit\<close> rows, in name and
  then symbol order, of the names that start with the prefix.\<close>

theorem names_with_prefix_finish:
  assumes "indexed b ix"
  shows "\<exists>rows. names_with_prefix ix pre limit = Some (take limit rows) \<and> sorted rows \<and>
    set rows = {(q, s). named_by b s q \<and> starts_with q pre}"
  using assms
proof (rule indexedE)
  fix t assume t: "content_fits (finish_content b) t" "ix = opened t"
  let ?rows = "filter (\<lambda>(n, s). starts_with n pre) (name_entries (finish_content b))"
  have "set ?rows = {(q, s). named_by b s q \<and> starts_with q pre}"
    using name_entries_finish [of _ _ b] by auto
  moreover have "sorted ?rows" by (simp add: name_entries_def sorted_wrt_filter)
  ultimately show ?thesis using names_content(2) [OF t(1), of pre limit] t(2) by blast
qed

theorem names_with_prefix_finish_witness:
  "\<exists>ix rows. indexed sample ix \<and> names_with_prefix ix [0x61] 9 = Some (take 9 rows) \<and>
     ([0x61, 0x62, 0x63], 7) \<in> set rows \<and> ([0x62], 8) \<notin> set rows"
proof -
  obtain ix where ix: "indexed sample ix" using sample_indexed by blast
  obtain rows where "names_with_prefix ix [0x61] 9 = Some (take 9 rows)"
      "set rows = {(q, s). named_by sample s q \<and> starts_with q [0x61]}"
    using names_with_prefix_finish [OF ix] by blast
  moreover have "named_by sample 7 [0x61, 0x62, 0x63]"
    by (auto simp: named_by_def sample_def clamp_id)
  ultimately have "([0x61, 0x62, 0x63], 7) \<in> set rows" "([0x62], 8) \<notin> set rows" by (auto simp: starts_with_def)
  with ix \<open>names_with_prefix ix [0x61] 9 = Some (take 9 rows)\<close> show ?thesis by blast
qed

section \<open>Edges\<close>

text \<open>C14: The five edge lookups on a written index, for every key but the largest: the other ends of
  exactly the recorded edges of the key, ascending and without duplicates.\<close>

theorem edges_finish:
  assumes "indexed b ix" and "k \<noteq> - 1"
  shows "inherits_of ix k = Some (map snd (filter (\<lambda>(c, p). c = k) (sort_dedup (b_inherits b)))) \<and>
    inherited_by ix k = Some (sort_dedup (map fst (filter (\<lambda>(c, p). p = k) (b_inherits b)))) \<and>
    members ix k = Some (map snd (filter (\<lambda>(p, c). p = k) (sort_dedup (b_childof b)))) \<and>
    calls_from ix k = Some (map snd (filter (\<lambda>(c, d, r). c = k) (sort_dedup (b_calls b)))) \<and>
    called_by ix k = Some (sort_dedup (map (\<lambda>(c, d, r). (c, r)) (filter (\<lambda>(c, d, r). d = k) (b_calls b))))"
  using edges_indexed [OF assms] by blast

theorem edges_finish_witness:
  "\<exists>ix. indexed sample ix \<and> inherits_of ix 8 = Some [7] \<and> calls_from ix 8 = Some [(7, 3)] \<and> calls_from ix 7 = Some []"
proof -
  obtain ix where ix: "indexed sample ix" using sample_indexed by blast
  from edges_finish [OF ix, of 8] edges_finish [OF ix, of 7] ix show ?thesis by (auto simp: sample_rows)
qed

text \<open>The forward and the reverse edge tables of a written index answer each other: a base class
  is listed for a class exactly when the class is listed as its subclass, and a call with its role
  is listed for the caller exactly when it is listed for the callee.\<close>

theorem edges_mutual:
  assumes "indexed b ix" and "x \<noteq> - 1" and "y \<noteq> - 1"
  shows "\<exists>ps cs ds es. inherits_of ix x = Some ps \<and> inherited_by ix y = Some cs \<and>
    calls_from ix x = Some ds \<and> called_by ix y = Some es \<and>
    (y \<in> set ps \<longleftrightarrow> x \<in> set cs) \<and> ((y, r) \<in> set ds \<longleftrightarrow> (x, r) \<in> set es)"
  unfolding edges_indexed [OF assms(1,2)] edges_indexed [OF assms(1,3)] by force

theorem edges_mutual_witness:
  "\<exists>ix ps cs. indexed sample ix \<and> inherits_of ix 8 = Some ps \<and> inherited_by ix 7 = Some cs \<and>
     (7 \<in> set ps \<longleftrightarrow> 8 \<in> set cs)"
proof -
  obtain ix where ix: "indexed sample ix" using sample_indexed by blast
  have "(8 :: u64) \<noteq> - 1" "(7 :: u64) \<noteq> - 1" by simp_all
  from edges_mutual [OF ix this, of 3] ix show ?thesis by blast
qed

text \<open>C40: At the symbol \<^verbatim>\<open>u64::MAX\<close> the end key of an edge lookup wraps to zero: the lookup panics
  as soon as its table has a row of another symbol, and otherwise returns nothing, whatever was
  recorded for it.\<close>

theorem edges_at_max:
  assumes "indexed b ix"
  shows "calls_from ix (- 1) = (if \<exists>(c, d, r) \<in> set (b_calls b). c \<noteq> - 1 then None else Some []) \<and>
    called_by ix (- 1) = (if \<exists>(c, d, r) \<in> set (b_calls b). d \<noteq> - 1 then None else Some []) \<and>
    inherits_of ix (- 1) = (if \<exists>(c, p) \<in> set (b_inherits b). c \<noteq> - 1 then None else Some []) \<and>
    inherited_by ix (- 1) = (if \<exists>(c, p) \<in> set (b_inherits b). p \<noteq> - 1 then None else Some []) \<and>
    members ix (- 1) = (if \<exists>(p, c) \<in> set (b_childof b). p \<noteq> - 1 then None else Some [])"
  using edges_indexed_max [OF assms] by blast

theorem edges_at_max_witness: "\<exists>ix. indexed sample ix \<and> calls_from ix (- 1) = None"
proof -
  obtain ix where ix: "indexed sample ix" using sample_indexed by blast
  from edges_at_max [OF ix] ix show ?thesis by (auto simp: sample_def)
qed

section \<open>Substring search\<close>

text \<open>C3: \<^verbatim>\<open>syms_matching_substring\<close> and its case-insensitive sibling on a written index, for a needle
  of at least one trigram: the galloping intersection of posting lists returns exactly what a
  serial scan of the names table would, the first \<open>limit\<close> distinct symbols, in row order, of the
  names that contain the needle. \<open>memmem\<close> stands for the \<^verbatim>\<open>memchr\<close> crate.\<close>

theorem substring_finish:
  assumes "indexed b ix" and "memmem_ok memmem" and "names_small (name_entries (finish_content b))"
    and "3 \<le> length needle"
  shows "syms_matching_substring memmem cores ix needle limit =
      Some (take limit (distinct_from {} (matching_syms False needle (name_entries (finish_content b))))) \<and>
    syms_matching_substring_ci memmem cores ix needle limit =
      Some (take limit (distinct_from {} (matching_syms True needle (name_entries (finish_content b)))))"
proof (cases "limit = 0")
  case True
  then show ?thesis
    by (simp add: syms_matching_substring_def syms_matching_substring_ci_def syms_matching_substring_impl_def)
next
  case False
  from assms(1) obtain t where t: "content_fits (finish_content b) t" "ix = opened t" by (rule indexedE)
  have "needle \<noteq> []" using assms(4) by auto
  from substring_content [OF t(1) assms(2,3) this _ disjI1 [OF assms(4)]] False show ?thesis
    by (simp add: syms_matching_substring_def syms_matching_substring_ci_def t(2))
qed

theorem substring_finish_witness:
  "\<exists>ix. indexed sample ix \<and> syms_matching_substring find_sub 4 ix [0x61, 0x62, 0x63] 5 = Some [7] \<and>
     syms_matching_substring_ci find_sub 4 ix [0x41, 0x42, 0x43] 5 = Some [7]"
proof -
  obtain ix where ix: "indexed sample ix" using sample_indexed by blast
  have "names_small (name_entries (finish_content sample))" by (simp add: sample_entries names_small_def)
  from substring_finish [OF ix find_sub_ok this, of "[0x61, 0x62, 0x63]" 4 5]
    substring_finish [OF ix find_sub_ok this, of "[0x41, 0x42, 0x43]" 4 5] ix
  show ?thesis
    by (auto simp: sample_entries matching_syms_def name_matches_def to_ascii_lowercase_def sublist_Cons_right
        prefix_Cons word_le_nat_alt)
qed

text \<open>The parallel linear scan, for any number of cores: the result has no repetitions, holds at
  most \<open>limit\<close> symbols, only symbols of matching names, at least one when there is a match, and it
  is the answer of the serial scan when no symbol matches twice or all matches fit the limit.\<close>

theorem substring_linear_finish:
  assumes "indexed b ix" and "memmem_ok memmem" and "needle \<noteq> []" and "0 < limit"
    and "ms = matching_syms ic needle (name_entries (finish_content b))"
  shows "\<exists>out. syms_matching_substring_linear memmem cores ix needle limit ic = Some out \<and>
    distinct out \<and> length out \<le> limit \<and> set out \<subseteq> set ms \<and> (ms \<noteq> [] \<longrightarrow> out \<noteq> []) \<and>
    (distinct ms \<or> length ms \<le> limit \<longrightarrow> out = take limit (distinct_from {} ms))"
proof -
  from assms(1) obtain t where t: "content_fits (finish_content b) t" "ix = opened t" by (rule indexedE)
  from substring_linear_content [OF t(1) assms(2-4)] show ?thesis unfolding assms(5) t(2) by blast
qed

theorem substring_linear_finish_witness:
  "\<exists>ix. indexed sample ix \<and> syms_matching_substring_linear find_sub 2 ix [0x62] 5 False = Some [7, 8]"
proof -
  obtain ix where ix: "indexed sample ix" using sample_indexed by blast
  let ?ms = "matching_syms False [0x62] (name_entries (finish_content sample))"
  have ms: "?ms = [7, 8]"
    by (simp add: sample_entries matching_syms_def name_matches_def sublist_Cons_right prefix_Cons)
  obtain out where "syms_matching_substring_linear find_sub 2 ix [0x62] 5 False = Some out"
      "distinct ?ms \<or> length ?ms \<le> 5 \<longrightarrow> out = take 5 (distinct_from {} ?ms)"
    using substring_linear_finish [OF ix find_sub_ok, of "[0x62]" 5 ?ms False 2] by auto
  with ix ms show ?thesis by auto
qed

section \<open>Round trips and merging\<close>

text \<open>C15: Replaying a written index into a fresh builder (\<^verbatim>\<open>populate_from_index\<close>) and finishing that
  builder writes the same file, byte for byte, when no string was clamped.\<close>

theorem replay_round_trip:
  assumes "indexed b ix" and "short_strings (finish_content b)"
  shows "\<exists>b'. populate_from_index U ix builder_new = Some b' \<and> finish b' = finish b"
proof -
  from assms(1) obtain t where t: "content_fits (finish_content b) t" "ix = opened t" and ok: "builder_ok b"
    by (rule indexedE)
  let ?b = "content_builder (finish_content b)"
  have "builder_ok ?b" by (rule builder_ok_content [OF content_fitsD(1) [OF t(1)]])
  then have "populate_from_index U ix builder_new = Some ?b"
    using populate_content [OF t(1), of U builder_new] merge_from_new [of ?b U] by (simp add: t(2) builder_ok_def)
  moreover have "finish ?b = finish b"
    using finish_content_builder [OF ok assms(2)] by (simp add: finish_def finish_tables_def)
  ultimately show ?thesis by blast
qed

theorem replay_round_trip_witness:
  "\<exists>ix b'. indexed sample ix \<and>
     populate_from_index \<lparr> is_alphanumeric = \<lambda>c. 97 \<le> c, is_whitespace = \<lambda>c. c = 32 \<rparr> ix builder_new = Some b' \<and>
     finish b' = finish sample"
proof -
  obtain ix where ix: "indexed sample ix" using sample_indexed by blast
  from replay_round_trip [OF ix sample_short] ix show ?thesis by blast
qed

text \<open>C2: \<^verbatim>\<open>write_merged_snapshot\<close>, the streaming k-way merge of on-disk sources with an in-memory
  delta, writes byte for byte the file that \<^verbatim>\<open>finish\<close> writes from one builder into which every
  source was replayed in order and the delta was merged last; it never panics.\<close>

theorem merge_is_finish:
  assumes "list_all2 indexed bs ixs" and "builder_ok b"
    and "replay_all U ixs builder_new = Some P" and "content_bounded (finish_content (merge_from U P b))"
  shows "\<exists>file. write_merged_snapshot U ixs b = Some file \<and> finish (merge_from U P b) = Some file"
  using merged_is_finished [OF assms] index_exists [OF merged_is_finished(2) [OF assms] assms(4)] by auto

theorem merge_is_finish_witness:
  "\<exists>ix P file. indexed sample ix \<and> replay_all ascii_tables [ix] builder_new = Some P \<and>
     write_merged_snapshot ascii_tables [ix] builder_new = Some file \<and> finish (merge_from ascii_tables P builder_new) = Some file"
proof -
  let ?U = ascii_tables
  obtain ix where ix: "indexed sample ix" using sample_indexed by blast
  then obtain t where t: "content_fits (finish_content sample) t" "ix = opened t" by (rule indexedE)
  let ?P = "content_builder (finish_content sample)"
  have "builder_ok ?P" by (rule builder_ok_content [OF content_fitsD(1) [OF t(1)]])
  then have P: "replay_all ?U [ix] builder_new = Some ?P"
    using populate_content [OF t(1), of ?U builder_new] merge_from_new [of ?P ?U] by (simp add: t(2) builder_ok_def)
  have "merge_from ?U ?P builder_new = ?P" by (simp add: merge_from_def builder_new_def)
  then have "content_bounded (finish_content (merge_from ?U ?P builder_new))"
    using finish_content_builder [OF sample_ok sample_short] sample_bounded by simp
  from merge_is_finish [OF _ builder_ok_new P this, of "[sample]"] ix P show ?thesis by auto
qed

text \<open>The two-way merges of sorted streams: the row merges yield the sorted distinct union, and the
  keyed merges yield one row per key in key order, refining the metadata of a common symbol, keeping
  the first path of a common file and the smaller non-empty string of a common type or signature.\<close>

theorem merges_refine_unions:
  assumes "sorted xs" and "sorted ys" and "sorted as" and "sorted bs"
    and "sorted (map fst ks)" and "sorted (map fst ls)" and "hm_ok ks" and "hm_ok ls"
    and "sorted (map fst fs)" and "sorted (map fst gs)" and "hm_ok fs" and "hm_ok gs"
    and "sorted (map fst ts)" and "sorted (map fst us)" and "hm_ok ts" and "hm_ok us"
  shows "merge_sorted_dedup xs ys = sort_dedup (xs @ ys) \<and> merge_aliases_dedup as bs = sort_dedup (as @ bs) \<and>
    sorted (map fst (merge_syms_refine U ks ls)) \<and> hm_ok (merge_syms_refine U ks ls) \<and>
    map_of (merge_syms_refine U ks ls) s = comb (refine_sym U) (map_of ks s) (map_of ls s) \<and>
    map_of (merge_files_first_wins fs gs) f = comb (\<lambda>x y. x) (map_of fs f) (map_of gs f) \<and>
    map_of (merge_typed_by_sym ts us) s = comb pick (map_of ts s) (map_of us s)"
  unfolding merge_syms_refine_def merge_files_first_wins_def merge_typed_by_sym_def
  using merge_sorted_dedup_eq [OF assms(1,2)] merge_aliases_dedup_eq [OF assms(3,4)]
    merge_keyed_props [OF assms(5,7,6,8), of "refine_sym U" s] merge_keyed_props [OF assms(9,11,10,12), of "\<lambda>x y. x" f]
    merge_keyed_props [OF assms(13,15,14,16), of pick s]
  by blast

theorem merges_refine_unions_witness:
  "merge_sorted_dedup [1, 3] [2, 3 :: u64] = [1, 2, 3] \<and>
   map_of (merge_typed_by_sym [(4, [9])] [(4, [8])]) 4 = Some [8]"
  using merges_refine_unions [of "[1, 3 :: u64]" "[2, 3]" "[]" "[]" "[]" "[]" "[]" "[]" "[(4, [9])]" "[(4, [8])]" ascii_tables 4 0]
  by (simp add: sort_dedup_def pick_def)

text \<open>C16: Merging in groups writes the same bytes as merging everything at once: when two groups of
  sources are merged into intermediate files and the intermediates are merged, the result is the
  file of the one-level merge, provided no string was clamped and every symbol that a group takes
  for a variable is a variable of the whole.\<close>

theorem merge_partition_invariant:
  assumes "list_all2 indexed bs1 ixs1" and "replay_all U ixs1 builder_new = Some P1"
    and "list_all2 indexed bs2 ixs2" and "replay_all U ixs2 builder_new = Some P2"
    and "write_merged_snapshot U ixs1 builder_new = Some f1" and "index_open f1 = Inr i1"
    and "write_merged_snapshot U ixs2 builder_new = Some f2" and "index_open f2 = Inr i2"
    and "content_bounded (finish_content P1)" and "content_bounded (finish_content P2)"
    and "content_bounded (finish_content (merge_from U P1 P2))"
    and "short_strings (finish_content P1)" and "short_strings (finish_content P2)" and "vars_agree U P1 P2"
  shows "merge_group_global U [f1, f2] = map_option Inr (write_merged_snapshot U (ixs1 @ ixs2) builder_new)"
  using two_levels [OF assms] assms(6,8) by (simp add: merge_group_global_def)

theorem merge_partition_invariant_witness:
  "\<exists>ix f i. indexed sample ix \<and> write_merged_snapshot ascii_tables [ix] builder_new = Some f \<and> index_open f = Inr i \<and>
     merge_group_global ascii_tables [f, f] = map_option Inr (write_merged_snapshot ascii_tables [ix, ix] builder_new)"
proof -
  obtain ix where ix: "indexed sample ix" using sample_indexed by blast
  let ?S = sample_replayed
  have S: "replay_all ascii_tables [ix] builder_new = Some ?S" by (rule sample_replay [OF ix])
  have f: "finish_content ?S = finish_content sample" by (rule sample_replayed_content)
  have bd: "content_bounded (finish_content ?S)" by (simp add: f sample_bounded)
  have la: "list_all2 indexed [sample] [ix]" using ix by simp
  obtain fl i where fl: "finish ?S = Some fl" "index_open fl = Inr i"
    using index_exists [OF merge_single_level(2) [OF la S bd] bd] by blast
  have w: "write_merged_snapshot ascii_tables [ix] builder_new = Some fl"
    using merge_single_level(1) [OF la S bd] fl(1) by simp
  have "merge_group_global ascii_tables [fl, fl] =
      map_option Inr (write_merged_snapshot ascii_tables ([ix] @ [ix]) builder_new)"
    by (rule merge_partition_invariant [OF la S la S w fl(2) w fl(2) bd bd])
      (simp_all add: sample_replayed_merge sample_bounded f sample_short sample_vars)
  with ix w fl(2) show ?thesis by auto
qed

text \<open>The agreement on variables is needed: a group that takes a symbol for a variable drops its
  alias, although the merge of everything takes the symbol for a function and keeps the alias.\<close>

theorem merge_groups_can_differ:
  "let A = upsert_sym ascii_tables 5 kind_FUNCTION 1 [0x66] builder_new;
       B = add_alias 5 [0x67] (upsert_sym ascii_tables 5 kind_VARIABLE 1 [0x66] builder_new)
   in finish_content (merge_from ascii_tables (content_builder (finish_content A)) (content_builder (finish_content B))) \<noteq>
      finish_content (merge_from ascii_tables A B)"
proof -
  let ?A = "upsert_sym ascii_tables 5 kind_FUNCTION 1 [0x66] builder_new"
  let ?B = "add_alias 5 [0x67] (upsert_sym ascii_tables 5 kind_VARIABLE 1 [0x66] builder_new)"
  have "c_aliases (finish_content (merge_from ascii_tables ?A ?B)) = [(5, [0x67])]" by code_simp
  have parts: "finish_content ?A = \<lparr> c_xrefs = [], c_syms = [(5, kind_FUNCTION, 1, [0x66])], c_aliases = [], c_files = [],
      c_inh = [], c_calls = [], c_typed = [], c_childrev = [], c_sig = [] \<rparr>"
    "finish_content ?B = \<lparr> c_xrefs = [], c_syms = [(5, kind_VARIABLE, 1, [0x66])], c_aliases = [], c_files = [],
      c_inh = [], c_calls = [], c_typed = [], c_childrev = [], c_sig = [] \<rparr>"
    by code_simp+
  have "c_aliases (finish_content (merge_from ascii_tables (content_builder (finish_content ?A))
      (content_builder (finish_content ?B)))) = []"
    unfolding parts
    by (simp add: content_builder_def clamp_id merge_from_def finish_content_def kept_aliases_def sort_dedup_def)
  with \<open>c_aliases (finish_content (merge_from ascii_tables ?A ?B)) = [(5, [0x67])]\<close> show ?thesis unfolding Let_def by (metis list.distinct(1))
qed

section \<open>The builder\<close>

text \<open>C17: Every builder reachable from \<^verbatim>\<open>IndexBuilder::new\<close> by its operations has unique map keys, valid
  UTF-8 strings, and no empty alias, type or signature.\<close>

theorem builder_invariant:
  assumes "reachable_builder U b"
  shows "builder_ok b"
  by (rule reachable_builder_ok [OF assms])

theorem builder_invariant_witness:
  "builder_ok (builder_step ascii_tables (AddAlias 3 [0x61]) builder_new)"
  by (rule builder_invariant [OF reachable_builder.step [OF reachable_builder.new]]) simp

text \<open>Refining the metadata of a symbol is associative and idempotent, so upserts can be grouped
  freely; it is commutative when no two known kinds or languages conflict and the names are not
  two different degenerate ones.\<close>

theorem refine_sym_semilattice:
  "refine_sym U (refine_sym U x y) z = refine_sym U x (refine_sym U y z) \<and> refine_sym U x x = x \<and>
   (compatible_meta U x y \<longrightarrow> refine_sym U x y = refine_sym U y x)"
  using refine_sym_assoc [of U x y z] refine_sym_idem [of U x] refine_sym_commute [of U x y] by blast

theorem refine_sym_semilattice_witness:
  "compatible_meta ascii_tables (0, 1, [0x61]) (2, 0, [0x61, 0x62]) \<and>
   refine_sym ascii_tables (0, 1, [0x61]) (2, 0, [0x61, 0x62]) = refine_sym ascii_tables (2, 0, [0x61, 0x62]) (0, 1, [0x61])"
proof -
  have "compatible_meta ascii_tables (0, 1, [0x61]) (2, 0, [0x61, 0x62])"
    by code_simp
  with refine_sym_semilattice [of ascii_tables "(0, 1, [0x61])" "(2, 0, [0x61, 0x62])"] show ?thesis by blast
qed

text \<open>The outcome of a merge depends on its order: two shards that know different kinds of one
  symbol give different metadata when swapped.\<close>

theorem merge_order_matters:
  "map_of (b_syms (merge_from U (upsert_sym U s 1 1 n builder_new) (upsert_sym U s 2 1 n builder_new))) s \<noteq>
   map_of (b_syms (merge_from U (upsert_sym U s 2 1 n builder_new) (upsert_sym U s 1 1 n builder_new))) s"
  by (simp add: merge_from_def upsert_sym_def builder_new_def kind_UNK_def lang_UNK_def)

text \<open>The display-name preference is the strict order of a rank: named over degenerate over empty,
  names over tickets, then shorter, then lexicographically smaller; so updating a name with a
  sequence of candidates keeps one of least rank.\<close>

theorem prefers_name_ranking:
  "(prefers_name U cur cand \<longleftrightarrow> name_rank U cand < name_rank U cur) \<and>
   name_rank U (foldl (better_name U) cur cands) = Min (set (map (name_rank U) (cur # cands)))"
proof
  show "prefers_name U cur cand \<longleftrightarrow> name_rank U cand < name_rank U cur" by (rule prefers_name_rank)
  show "name_rank U (foldl (better_name U) cur cands) = Min (set (map (name_rank U) (cur # cands)))"
  proof (induction cands arbitrary: cur)
    case (Cons c cands)
    show ?case
      using Cons [of "better_name U cur c"] by (cases "cands = []") (simp_all add: name_rank_better min.assoc)
  qed simp
qed

text \<open>\<^verbatim>\<open>localize_file_ids\<close> numbers the sorted distinct paths from zero, returns that table in id
  order, and every cross reference to a known file still resolves to the same path.\<close>

theorem localize_keeps_paths:
  assumes "builder_ok b" and "length (file_paths (b_files b)) \<le> 2 ^ 32"
    and "\<forall>(s, r, f, off) \<in> set (b_xrefs b). f \<in> fst ` set (b_files b)"
  shows "snd (localize_file_ids b) = ranked_files (b_files b) \<and>
    map_of (b_files (fst (localize_file_ids b))) = map_of (ranked_files (b_files b)) \<and>
    resolved_xrefs (fst (localize_file_ids b)) = resolved_xrefs b"
  using assms localized_files [of b] localized_xrefs [of b] by (simp add: builder_ok_def)

theorem localize_keeps_paths_witness:
  "snd (localize_file_ids (upsert_file 9 [0x62] (upsert_file 4 [0x61] builder_new))) = [(0, [0x61]), (1, [0x62])]"
proof -
  let ?b = "upsert_file 9 [0x62] (upsert_file 4 [0x61] builder_new)"
  have "builder_ok ?b" by code_simp
  moreover have "length (file_paths (b_files ?b)) \<le> 2 ^ 32" "\<forall>(s, r, f, off) \<in> set (b_xrefs ?b). f \<in> fst ` set (b_files ?b)"
    by (simp_all add: upsert_file_def builder_new_def sort_dedup_def)
  ultimately have "snd (localize_file_ids ?b) = ranked_files (b_files ?b)" using localize_keeps_paths by blast
  then show ?thesis by (simp add: ranked_files_def upsert_file_def builder_new_def sort_dedup_def)
qed

section \<open>The file format\<close>

text \<open>C18: Whatever the bytes, once \<^verbatim>\<open>Index::open\<close> accepts a file every section it declares lies inside
  the mapping with its declared length, and a cross-reference query returns at most the declared
  number of rows and never panics.\<close>

theorem open_is_safe:
  assumes "index_open m = Inr ix"
  shows "ix_map ix = m \<and>
    (\<forall>(name, off, n, W) \<in> set (header_sections (ix_hdr ix)).
       \<exists>d. section_slice ix off n W = Some d \<and> length d = unat n * W) \<and>
    (\<exists>rows. xrefs ix s role_lo role_hi = Some rows \<and> length rows \<le> unat (xrefs_n (ix_hdr ix)))"
  using open_header [OF assms] open_sections [OF assms] xrefs_in_bounds [OF assms] by auto

theorem open_is_safe_witness:
  "\<exists>m ix rows. index_open m = Inr ix \<and> xrefs ix 7 0 255 = Some rows"
proof -
  obtain m ix where "index_open m = Inr ix" using index_exists [OF sample_ok sample_bounded] by blast
  with open_is_safe [OF this, of 7 0 255] show ?thesis by blast
qed

text \<open>C39: The error results of \<^verbatim>\<open>Index::open\<close> on a mapping of less than \<open>2 ^ 64\<close> bytes, in the order of
  its checks: a short file, a wrong magic, a version out of range; it succeeds exactly when none of
  these applies and the exact extent of every section lies inside the file.\<close>

theorem open_errors:
  assumes "length m < 2 ^ 64" and "hdr = header_of_bytes m"
  shows "(length m < HEADER_LEN \<longrightarrow> index_open m = Inl (TooSmall (length m))) \<and>
    (HEADER_LEN \<le> length m \<and> magic hdr \<noteq> MAGIC \<longrightarrow> index_open m = Inl BadMagic) \<and>
    (HEADER_LEN \<le> length m \<and> magic hdr = MAGIC \<and> (version hdr < MIN_VERSION \<or> VERSION < version hdr) \<longrightarrow>
       index_open m = Inl (UnsupportedVersion (version hdr))) \<and>
    ((\<exists>ix. index_open m = Inr ix) \<longleftrightarrow>
       HEADER_LEN \<le> length m \<and> magic hdr = MAGIC \<and> MIN_VERSION \<le> version hdr \<and> version hdr \<le> VERSION \<and>
       (\<forall>(name, off, n, W) \<in> set (header_sections hdr). unat off + unat n * W \<le> length m))"
proof -
  have W: "W < 2 ^ 64" if "(name, off, n, W) \<in> set (header_sections hdr)" for name off n W
    using that by (auto simp: header_sections_def len_defs)
  have "check_sections (length m) (header_sections hdr) = None \<longleftrightarrow>
      (\<forall>(name, off, n, W) \<in> set (header_sections hdr). unat off + unat n * W \<le> length m)"
  proof
    assume "check_sections (length m) (header_sections hdr) = None"
    then show "\<forall>(name, off, n, W) \<in> set (header_sections hdr). unat off + unat n * W \<le> length m"
      using check_sections_sound W by blast
  next
    assume "\<forall>(name, off, n, W) \<in> set (header_sections hdr). unat off + unat n * W \<le> length m"
    then have "\<forall>(name, off, n, W) \<in> set (header_sections hdr). W < 2 ^ 64 \<and> unat off + unat n * W \<le> length m"
      using W by blast
    then show "check_sections (length m) (header_sections hdr) = None"
      using assms(1) by (rule check_sections_None)
  qed
  then show ?thesis
    unfolding assms(2) index_open_def Let_def linorder_not_less [symmetric]
    by (cases "check_sections (length m) (header_sections (header_of_bytes m))") auto
qed

theorem open_errors_witness:
  "index_open [0x61, 0x62] = Inl (TooSmall 2)"
  using open_errors [of "[0x61, 0x62]"] by (simp add: HEADER_LEN_def)

text \<open>Reading a header back from the start of a file gives the header that was written.\<close>

theorem header_bytes_round_trip:
  assumes "length (magic h) = 8" and "length (reserved h) = 16"
  shows "header_of_bytes (header_bytes h @ rest) = h \<and> length (header_bytes h) = HEADER_LEN"
  using header_round_trip [OF assms] length_header_bytes [OF assms] by blast

theorem header_bytes_round_trip_witness:
  "header_of_bytes (header_bytes (header_default\<lparr> xrefs_n := 5 \<rparr>) @ [1, 2]) = header_default\<lparr> xrefs_n := 5 \<rparr>"
  using header_bytes_round_trip [of "header_default\<lparr> xrefs_n := 5 \<rparr>" "[1, 2]"] by (simp add: header_default_def)

text \<open>The varint of a 32-bit value, wherever it stands in a buffer, is read back with its exact
  length, which is between one and five bytes and is what \<^verbatim>\<open>varint_len\<close> predicts.\<close>

theorem varint_round_trip:
  "read_varint (pre @ write_varint [] v @ rest) (length pre) = Some (v, varint_len v) \<and>
   length (write_varint [] v) = varint_len v \<and> 1 \<le> varint_len v \<and> varint_len v \<le> 5"
  using read_write_varint [of pre v rest] length_write_varint [of "[]" v] varint_len_u32 [of v] by simp

text \<open>\<^verbatim>\<open>pad_up\<close> rounds up to the next page boundary, moving by less than a page, whenever the sum
  does not overflow.\<close>

theorem pad_up_page:
  assumes "unat n + 4095 < 2 ^ 64"
  shows "4096 dvd unat (pad_up n) \<and> unat n \<le> unat (pad_up n) \<and> unat (pad_up n) < unat n + 4096"
  using pad_up_nat_ge [of "unat n"] pad_up_nat_lt [of "unat n"] pad_up_nat_dvd [of "unat n"]
  by (simp add: pad_up_unat [OF assms])

theorem pad_up_page_witness: "4096 dvd unat (pad_up 5000) \<and> 5000 \<le> unat (pad_up 5000)"
  using pad_up_page [of 5000] by simp

text \<open>Clamping a string to the 16-bit length field keeps a prefix of at most 65535 bytes that is
  valid UTF-8 and at most three bytes shorter than it could be, and leaves short strings alone.\<close>

theorem clamp_blob_str_utf8:
  assumes "utf8_valid s"
  shows "utf8_valid (clamp_blob_str s) \<and> length (clamp_blob_str s) \<le> 65535 \<and>
    (length s \<le> 65535 \<longrightarrow> clamp_blob_str s = s) \<and> (65535 < length s \<longrightarrow> 65532 \<le> length (clamp_blob_str s)) \<and>
    (\<exists>r. s = clamp_blob_str s @ r)"
proof -
  have "\<exists>r. s = clamp_blob_str s @ r"
    by (cases "length s \<le> 65535") (auto simp: clamp_blob_str_def intro: exI [of _ "drop (clamp_end s 65535) s"])
  then show ?thesis
    using clamp_valid [OF assms] length_clamp [of s] clamp_id [of s] clamp_keeps [OF assms] by blast
qed

theorem clamp_blob_str_utf8_witness: "utf8_valid (clamp_blob_str [0xC3, 0xA9]) \<and> clamp_blob_str [0xC3, 0xA9] = [0xC3, 0xA9]"
proof -
  have "utf8_valid [0xC3, 0xA9]" by code_simp
  moreover have "length [0xC3, 0xA9 :: u8] \<le> 65535" by simp
  ultimately show ?thesis using clamp_blob_str_utf8 [of "[0xC3, 0xA9]"] by blast
qed

text \<open>Comparing the big-endian images of two rows byte by byte is comparing the rows, for the
  cross-reference, inheritance and call tables; this is what the binary searches rely on.\<close>

theorem row_images_ordered:
  "(enc_xref x < enc_xref y \<longleftrightarrow> x < y) \<and> (enc_inh p < enc_inh q \<longleftrightarrow> p < q) \<and> (enc_call c < enc_call d \<longleftrightarrow> c < d)"
  using xref_table.enc_less [of x y] inh_table.enc_less [of p q] call_table.enc_less [of c d] by blast

section \<open>The trigram index\<close>

text \<open>\<^verbatim>\<open>build_trigram_index\<close> never panics on a readable names table: its two passes write one
  dictionary row per distinct trigram in order and, at the offset of each row, a region that holds
  the skip table and the gap-coded blocks of exactly the rows whose name has the trigram.\<close>

theorem trigram_build:
  assumes "visit by_name blob = Some evs" and "names_small by_name"
  shows "\<exists>dict post. build_trigram_index by_name blob = Some (dict, post) \<and>
    (let ks = sort_dedup (map fst evs); PS = (\<lambda>t. map of_nat (rows_with t 0 (map (name_bytes blob) by_name)))
     in dict = concat (map enc_trigram (dict_rows PS 0 ks)) \<and> post = concat (map (\<lambda>t. region (PS t)) ks))"
proof -
  define PS where "PS = (\<lambda>t. plist t evs)"
  have "build_trigram_index by_name blob =
      Some (concat (map enc_trigram (dict_rows PS 0 (sort_dedup (map fst evs)))), concat (map (\<lambda>t. region (PS t)) (sort_dedup (map fst evs))))"
    using build_regions [OF assms(1)] by (simp add: PS_def)
  moreover have "PS = (\<lambda>t. map of_nat (rows_with t 0 (map (name_bytes blob) by_name)))"
    using plist_visit(1) [OF assms] by (simp add: PS_def)
  ultimately show ?thesis by (simp add: Let_def)
qed

theorem trigram_build_witness:
  "\<exists>dict post. build_trigram_index [(0, 3, 7)] [0x61, 0x62, 0x63] = Some (dict, post)"
proof -
  have "visit [(0, 3, 7)] [0x61, 0x62, 0x63] \<noteq> None" by (simp add: visit_def slice_of_def)
  then obtain evs where "visit [(0, 3, 7)] [0x61, 0x62, 0x63] = Some evs" by blast
  from trigram_build [OF this] show ?thesis by (auto simp: names_small_def)
qed

text \<open>Decoding a region gives its posting list back, and the galloping probe decides membership of
  any candidate from any cursor whose earlier blocks all lie below the candidate; the cursor it
  returns is valid for every larger candidate.\<close>

theorem probe_is_membership:
  assumes "posting_ok post p ps" and "cursor_ok ps hint cand" and "cand \<le> cand'"
  shows "trigram_postings post p = Some ps \<and>
    (\<exists>b. trigram_contains post p cand hint = Some (cand \<in> set ps, b) \<and> cursor_ok ps b cand')"
proof -
  obtain b where "trigram_contains post p cand hint = Some (cand \<in> set ps, b)" "cursor_ok ps b cand"
    using trigram_contains_eq [of post p ps hint cand] assms(1,2) by (auto simp: posting_ok_def cursor_ok_def)
  then show ?thesis
    using assms(1,3) cursor_ok_mono by (auto simp: posting_ok_def trigram_postings_eq)
qed

theorem probe_is_membership_witness:
  "\<exists>p b. trigram_contains (region [3, 300]) p 300 0 = Some (True, b)"
proof -
  let ?p = "\<lparr> p_off = 0, p_len = length (region [3, 300]), p_count = 2 \<rparr>"
  have "length (region [3, 300]) < 2 ^ 32" using length_region_le [of "[3, 300]"] by simp
  then have "posting_ok (region [3, 300]) ?p [3, 300]"
    unfolding posting_ok_def posting_at_def by (auto intro!: exI [of _ "[]"] simp: word_le_nat_alt)
  moreover have "cursor_ok [3, 300] 0 300" by (simp add: cursor_ok_def)
  ultimately show ?thesis using probe_is_membership [of "region [3, 300]" ?p "[3, 300]" 0 300 300] by auto
qed

end
